(* ===== verification/Prelude.thy ===== *)
theory Prelude
  imports Main "HOL-Library.Word"
begin

text \<open>
  Shared notions of the development.

  \<^item> Machine types: a byte is an \<open>8 word\<close>, a 16-bit sample word a \<open>16 word\<close>; the
    counters and offsets of the code (\<open>usize\<close>, \<open>u32\<close>) are \<open>nat\<close>, with the
    width written into every checked, shifting or truncating operation.
  \<^item> Results: Rust's \<open>Result<T, E>\<close> is \<open>'e + 'a\<close> with \<open>Inl\<close> for \<open>Err\<close>;
    \<open>res_bind\<close> is the \<open>?\<close> operator, \<open>fold_res\<close> a \<open>for\<close> loop whose body
    may return early with an error, \<open>fold_opt\<close> the same for a body that may not return.
  \<^item> Bits: \<open>num_of_bits\<close> reads a most-significant-first list of bits as a number.
\<close>

unbundle bit_operations_syntax

named_theorems res_simps \<open>equations that run the result monad and its loops\<close>
named_theorems range_intros \<open>range facts of the machine integers\<close>

type_synonym u8 = "8 word"
type_synonym u16 = "16 word"

subsection \<open>Results and loops\<close>

definition res_bind :: "'e + 'a \<Rightarrow> ('a \<Rightarrow> 'e + 'b) \<Rightarrow> 'e + 'b" where
  "res_bind m f = (case m of Inl e \<Rightarrow> Inl e | Inr x \<Rightarrow> f x)"

lemma res_bind_Inl [simp, res_simps]: "res_bind (Inl e) f = Inl e"
  by (simp add: res_bind_def)

lemma res_bind_Inr [simp, res_simps]: "res_bind (Inr x) f = f x"
  by (simp add: res_bind_def)

lemma res_bind_eq_Inr_iff: "res_bind m f = Inr y \<longleftrightarrow> (\<exists>x. m = Inr x \<and> f x = Inr y)"
  by (cases m) auto

lemma res_bind_eq_Inl_iff:
  "res_bind m f = Inl e \<longleftrightarrow> m = Inl e \<or> (\<exists>x. m = Inr x \<and> f x = Inl e)"
  by (cases m) auto

lemma res_bind_cong [fundef_cong]:
  "m = m' \<Longrightarrow> (\<And>x. m' = Inr x \<Longrightarrow> f x = f' x) \<Longrightarrow> res_bind m f = res_bind m' f'"
  by (cases m') auto

definition ok_or :: "'e \<Rightarrow> 'a option \<Rightarrow> 'e + 'a" where
  "ok_or e v = (case v of None \<Rightarrow> Inl e | Some x \<Rightarrow> Inr x)"

lemma ok_or_simps [simp, res_simps]: "ok_or e None = Inl e" "ok_or e (Some x) = Inr x"
  by (simp_all add: ok_or_def)

lemma ok_or_eq_Inr_iff: "ok_or e v = Inr x \<longleftrightarrow> v = Some x"
  by (cases v) auto

lemma not_Inl_unit: "(\<forall>e. v \<noteq> Inl e) \<longleftrightarrow> v = Inr ()"
  by (cases v) auto

fun fold_res :: "('i \<Rightarrow> 's \<Rightarrow> 'e + 's) \<Rightarrow> 'i list \<Rightarrow> 's \<Rightarrow> 'e + 's" where
  "fold_res f [] s = Inr s"
| "fold_res f (i # is) s = res_bind (f i s) (fold_res f is)"

lemma fold_res_append [res_simps]:
  "fold_res f (xs @ ys) s = res_bind (fold_res f xs s) (fold_res f ys)"
proof (induction xs arbitrary: s)
  case Nil
  then show ?case by simp
next
  case (Cons x xs)
  then show ?case by (cases "f x s") auto
qed

text \<open>The loop rule: an invariant indexed by the number of iterations done.\<close>

lemma fold_res_invariant:
  assumes "fold_res f xs s = Inr t" and "P 0 s"
    and "\<And>k u v. k < length xs \<Longrightarrow> P k u \<Longrightarrow> f (xs ! k) u = Inr v \<Longrightarrow> P (Suc k) v"
  shows "P (length xs) t"
  using assms
proof (induction xs arbitrary: s P)
  case Nil
  then show ?case by simp
next
  case (Cons x xs)
  from Cons.prems(1) obtain u where u: "f x s = Inr u" and t: "fold_res f xs u = Inr t"
    by (auto simp: res_bind_eq_Inr_iff)
  have "P 1 u" using Cons.prems(3)[of 0 s u] Cons.prems(2) u by simp
  then have "P (Suc 0) u" by simp
  then have "P (Suc (length xs)) t"
  proof (rule Cons.IH[OF t, where P = "\<lambda>k. P (Suc k)"])
    fix k u' v
    assume "k < length xs" "P (Suc k) u'" "f (xs ! k) u' = Inr v"
    then show "P (Suc (Suc k)) v" using Cons.prems(3)[of "Suc k" u' v] by simp
  qed
  then show ?case by simp
qed

text \<open>The same rule for total runs: if every iteration can be taken, the loop returns.\<close>

lemma fold_res_total:
  assumes "P 0 s"
    and "\<And>k u. k < length xs \<Longrightarrow> P k u \<Longrightarrow> \<exists>v. f (xs ! k) u = Inr v \<and> P (Suc k) v"
  shows "\<exists>t. fold_res f xs s = Inr t \<and> P (length xs) t"
  using assms
proof (induction xs arbitrary: s P)
  case Nil
  then show ?case by simp
next
  case (Cons x xs)
  obtain u where u: "f x s = Inr u" and Pu: "P (Suc 0) u"
    using Cons.prems(2)[of 0 s] Cons.prems(1) by auto
  have "\<exists>t. fold_res f xs u = Inr t \<and> P (Suc (length xs)) t"
  proof (rule Cons.IH[where P = "\<lambda>k. P (Suc k)", OF Pu])
    fix k u'
    assume "k < length xs" "P (Suc k) u'"
    then show "\<exists>v. f (xs ! k) u' = Inr v \<and> P (Suc (Suc k)) v"
      using Cons.prems(2)[of "Suc k" u'] by simp
  qed
  with u show ?case by simp
qed

text \<open>The \<open>?\<close> operator in a method on \<open>&mut self\<close>: the state is returned on the error branch too.\<close>

definition st_bind ::
  "('s \<Rightarrow> ('e + 'a) \<times> 's) \<Rightarrow> ('a \<Rightarrow> 's \<Rightarrow> ('e + 'b) \<times> 's) \<Rightarrow> 's \<Rightarrow> ('e + 'b) \<times> 's" where
  "st_bind m f s = (case m s of (Inl e, s') \<Rightarrow> (Inl e, s') | (Inr x, s') \<Rightarrow> f x s')"

lemma bind_Inr:
  assumes "st_bind m f r = (Inr v, r')"
  obtains u r1 where "m r = (Inr u, r1)" "f u r1 = (Inr v, r')"
  using assms by (auto simp: st_bind_def split: prod.splits sum.splits)

lemma st_bind_assoc: "st_bind (st_bind m f) g s = st_bind m (\<lambda>x. st_bind (f x) g) s"
  by (simp add: st_bind_def split: prod.splits sum.splits)

lemma st_bind_eq_Inr_iff:
  "st_bind m f s = (Inr y, s'') \<longleftrightarrow> (\<exists>x s'. m s = (Inr x, s') \<and> f x s' = (Inr y, s''))"
  by (auto simp: st_bind_def split: prod.splits sum.splits)

fun fold_opt :: "('i \<Rightarrow> 's \<Rightarrow> 's option) \<Rightarrow> 'i list \<Rightarrow> 's \<Rightarrow> 's option" where
  "fold_opt f [] s = Some s"
| "fold_opt f (i # is) s = Option.bind (f i s) (fold_opt f is)"

lemma fold_opt_append: "fold_opt f (xs @ ys) s = Option.bind (fold_opt f xs s) (fold_opt f ys)"
proof (induction xs arbitrary: s)
  case Nil
  then show ?case by simp
next
  case (Cons x xs)
  then show ?case by (cases "f x s") auto
qed

subsection \<open>Indexing that can panic\<close>

text \<open>A slice index out of range is a panic: \<open>None\<close>. \<open>opt_map\<close> is a loop that collects one value per
  element and stops at the first panic.\<close>

definition read_cell :: "'a list \<Rightarrow> nat \<Rightarrow> 'a option" where
  "read_cell xs i = (if i < length xs then Some (xs ! i) else None)"

definition write_cell :: "'a list \<Rightarrow> nat \<Rightarrow> 'a \<Rightarrow> 'a list option" where
  "write_cell xs i x = (if i < length xs then Some (xs[i := x]) else None)"

definition slice_to :: "'a list \<Rightarrow> nat \<Rightarrow> 'a list option" where
  "slice_to xs n = (if n \<le> length xs then Some (take n xs) else None)"

lemma read_cell_Some [simp]: "i < length xs \<Longrightarrow> read_cell xs i = Some (xs ! i)"
  by (simp add: read_cell_def)

lemma write_cell_Some [simp]: "i < length xs \<Longrightarrow> write_cell xs i x = Some (xs[i := x])"
  by (simp add: write_cell_def)

lemma slice_to_Some [simp]: "n \<le> length xs \<Longrightarrow> slice_to xs n = Some (take n xs)"
  by (simp add: slice_to_def)

fun opt_map :: "('a \<Rightarrow> 'b option) \<Rightarrow> 'a list \<Rightarrow> 'b list option" where
  "opt_map f [] = Some []"
| "opt_map f (x # xs) = Option.bind (f x) (\<lambda>y. map_option ((#) y) (opt_map f xs))"

lemma opt_map_total: "(\<And>x. x \<in> set xs \<Longrightarrow> f x = Some (g x)) \<Longrightarrow> opt_map f xs = Some (map g xs)"
  by (induction xs) simp_all

lemma opt_map_panics: "x \<in> set xs \<Longrightarrow> f x = None \<Longrightarrow> opt_map f xs = None"
  by (induction xs) (auto split: bind_splits)

lemma opt_map_eq_Some: "opt_map f xs = Some ys \<longleftrightarrow> list_all2 (\<lambda>x y. f x = Some y) xs ys"
  by (induction xs arbitrary: ys) (auto simp: bind_eq_Some_conv list_all2_Cons1)

lemma fold_opt_panics: "x \<in> set xs \<Longrightarrow> (\<And>s. f x s = None) \<Longrightarrow> fold_opt f xs s = None"
  by (induction xs arbitrary: s) (auto split: bind_splits)

lemma fold_opt_pure:
  "(\<And>x s. x \<in> set xs \<Longrightarrow> P s \<Longrightarrow> f x s = Some (g x s) \<and> P (g x s)) \<Longrightarrow> P s \<Longrightarrow>
     fold_opt f xs s = Some (fold g xs s) \<and> P (fold g xs s)"
  by (induction xs arbitrary: s) auto

subsection \<open>Checked machine arithmetic\<close>

definition checked_add64 :: "nat \<Rightarrow> nat \<Rightarrow> nat option" where
  "checked_add64 a b = (if a + b < 2 ^ 64 then Some (a + b) else None)"

definition checked_mul64 :: "nat \<Rightarrow> nat \<Rightarrow> nat option" where
  "checked_mul64 a b = (if a * b < 2 ^ 64 then Some (a * b) else None)"

definition checked_sub :: "nat \<Rightarrow> nat \<Rightarrow> nat option" where
  "checked_sub a b = (if b \<le> a then Some (a - b) else None)"

definition checked_div :: "nat \<Rightarrow> nat \<Rightarrow> nat option" where
  "checked_div a b = (if b = 0 then None else Some (a div b))"

definition checked_mul32 :: "nat \<Rightarrow> nat \<Rightarrow> nat option" where
  "checked_mul32 a b = (if a * b < 2 ^ 32 then Some (a * b) else None)"

text \<open>\<open>u32::checked_shl\<close> fails on a shift of 32 or more and drops the bits shifted out.\<close>

definition checked_shl32 :: "nat \<Rightarrow> nat \<Rightarrow> nat option" where
  "checked_shl32 a n = (if n < 32 then Some (take_bit 32 (push_bit n a)) else None)"

lemmas checked_defs =
  checked_add64_def checked_mul64_def checked_sub_def checked_div_def checked_mul32_def
  checked_shl32_def

text \<open>The position of the highest set bit plus one; \<open>leading_zeros\<close> of a \<open>w\<close>-bit value
  is \<open>w\<close> minus it.\<close>

fun bit_len :: "nat \<Rightarrow> nat" where
  "bit_len n = (if n = 0 then 0 else Suc (bit_len (n div 2)))"

declare bit_len.simps [simp del]

lemma bit_len_0 [simp]: "bit_len 0 = 0"
  by (simp add: bit_len.simps)

lemma bit_len_bounds: "0 < n \<Longrightarrow> 2 ^ (bit_len n - 1) \<le> n \<and> n < 2 ^ bit_len n \<and> 0 < bit_len n"
proof (induction n rule: bit_len.induct)
  case (1 n)
  show ?case
  proof (cases "n div 2 = 0")
    case True
    then have "n = 1" using "1.prems" by simp
    then show ?thesis by (simp add: bit_len.simps)
  next
    case False
    with "1" have IH: "2 ^ (bit_len (n div 2) - 1) \<le> n div 2" "n div 2 < 2 ^ bit_len (n div 2)"
      and pos: "0 < bit_len (n div 2)"
      by auto
    have e: "bit_len n = Suc (bit_len (n div 2))"
      using "1.prems" by (simp add: bit_len.simps[of n])
    have "(2::nat) ^ bit_len (n div 2) = 2 * 2 ^ (bit_len (n div 2) - 1)"
      using pos by (cases "bit_len (n div 2)") simp_all
    then have "2 ^ bit_len (n div 2) \<le> n" and "n < 2 * 2 ^ bit_len (n div 2)"
      using IH by linarith+
    then show ?thesis using e by simp
  qed
qed

lemma bit_len_unique: "2 ^ k \<le> n \<Longrightarrow> n < 2 ^ Suc k \<Longrightarrow> bit_len n = Suc k"
proof -
  assume lo: "2 ^ k \<le> n" and hi: "n < 2 ^ Suc k"
  from lo have "0 < n" using gr0I by fastforce
  from bit_len_bounds[OF this] have b: "2 ^ (bit_len n - 1) \<le> n" "n < 2 ^ bit_len n" "0 < bit_len n"
    by auto
  have "(2::nat) ^ k < 2 ^ bit_len n" using lo b(2) by (rule le_less_trans)
  then have "k < bit_len n" by (rule power_less_imp_less_exp[rotated]) simp
  moreover have "(2::nat) ^ (bit_len n - 1) < 2 ^ Suc k" using b(1) hi by (rule le_less_trans)
  then have "bit_len n - 1 < Suc k" by (rule power_less_imp_less_exp[rotated]) simp
  ultimately show ?thesis by simp
qed

subsection \<open>Bit lists\<close>

definition num_of_bits :: "nat list \<Rightarrow> nat" where
  "num_of_bits bs = foldl (\<lambda>v b. 2 * v + b) 0 bs"

abbreviation bit_list :: "nat list \<Rightarrow> bool" where
  "bit_list bs \<equiv> (\<forall>b \<in> set bs. b < 2)"

lemma foldl_bits: "foldl (\<lambda>v b. 2 * v + b) a bs = a * 2 ^ length bs + num_of_bits bs"
proof (induction bs arbitrary: a)
  case Nil
  then show ?case by (simp add: num_of_bits_def)
next
  case (Cons b bs)
  from Cons.IH[of "2 * a + b"] Cons.IH[of b] show ?case
    by (simp add: num_of_bits_def algebra_simps)
qed

lemma num_of_bits_Nil [simp]: "num_of_bits [] = 0"
  by (simp add: num_of_bits_def)

lemma num_of_bits_Cons [simp]: "num_of_bits (b # bs) = b * 2 ^ length bs + num_of_bits bs"
  using foldl_bits[of b bs] by (simp add: num_of_bits_def)

lemma num_of_bits_append [simp]:
  "num_of_bits (xs @ ys) = num_of_bits xs * 2 ^ length ys + num_of_bits ys"
  using foldl_bits[of "num_of_bits xs" ys] by (simp add: num_of_bits_def)

lemma num_of_bits_replicate0 [simp]: "num_of_bits (replicate n 0) = 0"
  by (induction n) simp_all

lemma num_of_bits_replicate1: "num_of_bits (replicate n (Suc 0)) + 1 = 2 ^ n"
  by (induction n) simp_all

lemma num_of_bits_bound: "bit_list bs \<Longrightarrow> num_of_bits bs < 2 ^ length bs"
proof (induction bs)
  case Nil
  then show ?case by simp
next
  case (Cons b bs)
  then have n: "num_of_bits bs < 2 ^ length bs" and "b < 2" by auto
  then have "b = 0 \<or> b = 1" by linarith
  with n show ?case by auto
qed

lemma num_of_bits_take:
  assumes "bit_list bs" and "n \<le> length bs"
  shows "num_of_bits (take n bs) = num_of_bits bs div 2 ^ (length bs - n)"
proof -
  have "num_of_bits bs = num_of_bits (take n bs @ drop n bs)" by simp
  also have "\<dots> = num_of_bits (take n bs) * 2 ^ (length bs - n) + num_of_bits (drop n bs)"
    by (simp only: num_of_bits_append length_drop)
  finally have e: "num_of_bits bs
    = num_of_bits (take n bs) * 2 ^ (length bs - n) + num_of_bits (drop n bs)" .
  have "\<forall>b \<in> set (drop n bs). b < 2" using assms(1) by (meson in_set_dropD)
  then have "num_of_bits (drop n bs) < 2 ^ (length bs - n)"
    using num_of_bits_bound[of "drop n bs"] by simp
  with e show ?thesis by simp
qed

end
