(* ===== verification/DstBits.thy ===== *)
theory DstBits
  imports Prelude
begin

text \<open>
  The bit layer of the DST codec of \<open>crates/sacd-rs/src/dst\<close>: the decoder's error type
  (\<open>mod.rs\<close>), \<open>BitReader\<close> (\<open>bitreader.rs\<close>) and the encoder's \<open>BitWriter\<close>
  (\<open>encoder.rs\<close>). Both are related to the list of bits they stand for:
  \<open>br_view\<close> is what a reader can still deliver (followed, once zero padding is on, by as many
  zeros as the position counter can address), \<open>bw_holds w ws\<close> says that a writer
  has been given exactly the bits \<open>ws\<close>. The locales \<open>bit_source\<close> and \<open>bit_sink\<close> state
  what the syntax layers need of them.
\<close>

subsection \<open>Errors\<close>

datatype dst_error =
    UnexpectedEof nat
  | InvalidChannelCount nat
  | UnsupportedRate nat
  | MalformedFrame string
  | InvalidSegment string
  | InvalidMapping string
  | InvalidProbabilityTable string
  | InvalidArithmeticCode
  | ArithmeticDecodeFailure string
  | OutputBufferTooSmall nat nat
  | OutputSizeMismatch nat nat
  | OutputOverflow nat
  | InternalDecodeError string

subsection \<open>\<open>BitReader\<close>\<close>

record bit_reader =
  br_input :: "u8 list"
  br_pos :: nat
  br_zero_pad :: bool

definition br_new :: "u8 list \<Rightarrow> bit_reader" where
  "br_new input = \<lparr>br_input = input, br_pos = 0, br_zero_pad = False\<rparr>"

definition has_physical_bits_remaining :: "bit_reader \<Rightarrow> dst_error + bool" where
  "has_physical_bits_remaining r =
     res_bind (ok_or (InternalDecodeError ''bit reader input length overflow'')
                (checked_mul64 (length (br_input r)) 8))
       (\<lambda>total_bits. Inr (br_pos r < total_bits))"

definition enable_zero_padding_after_eof :: "bit_reader \<Rightarrow> bit_reader" where
  "enable_zero_padding_after_eof r = r\<lparr>br_zero_pad := True\<rparr>"

definition read_bit :: "bit_reader \<Rightarrow> dst_error + nat \<times> bit_reader" where
  "read_bit r =
     res_bind (ok_or (InternalDecodeError ''bit reader input length overflow'')
                (checked_mul64 (length (br_input r)) 8))
       (\<lambda>total_bits.
         if total_bits \<le> br_pos r then
           if br_zero_pad r then
             res_bind (ok_or (InternalDecodeError ''bit reader position overflow'')
                        (checked_add64 (br_pos r) 1))
               (\<lambda>p. Inr (0, r\<lparr>br_pos := p\<rparr>))
           else Inl (UnexpectedEof (length (br_input r)))
         else
           let byte = br_input r ! (br_pos r div 8);
               shift = 7 - br_pos r mod 8
           in res_bind (ok_or (InternalDecodeError ''bit reader position overflow'')
                         (checked_add64 (br_pos r) 1))
                (\<lambda>p. Inr (unat (drop_bit shift byte AND 1), r\<lparr>br_pos := p\<rparr>)))"

text \<open>The loop of \<open>read_bits\<close>, over any bit supplier; the value is a \<open>u32\<close>.\<close>

fun read_loop :: "('r \<Rightarrow> 'e + nat \<times> 'r) \<Rightarrow> nat \<Rightarrow> nat \<Rightarrow> 'r \<Rightarrow> 'e + nat \<times> 'r" where
  "read_loop rd 0 value r = Inr (value, r)"
| "read_loop rd (Suc n) value r =
     res_bind (rd r) (\<lambda>(b, r). read_loop rd n (take_bit 32 (push_bit 1 value) OR b) r)"

definition read_bits :: "nat \<Rightarrow> bit_reader \<Rightarrow> dst_error + nat \<times> bit_reader" where
  "read_bits n r =
     (if n > 32 then Inl (InternalDecodeError ''bit read width too large'')
      else read_loop read_bit n 0 r)"

text \<open>\<open>(raw << shift) >> shift\<close> on \<open>i32\<close> is an arithmetic shift: sign extension.\<close>

definition read_signed :: "nat \<Rightarrow> bit_reader \<Rightarrow> dst_error + int \<times> bit_reader" where
  "read_signed n r =
     (if n = 0 \<or> n \<ge> 32 then Inl (InternalDecodeError ''signed bit read width too large'')
      else res_bind (read_bits n r)
        (\<lambda>(raw, r).
          let shift = 32 - n; raw = (word_of_nat raw :: 32 word)
          in Inr (sint (signed_drop_bit shift (push_bit shift raw)), r)))"

subsection \<open>\<open>BitWriter\<close>\<close>

record bit_writer =
  bw_bytes :: "u8 list"
  bw_bit_pos :: nat

definition bw_new :: bit_writer where
  "bw_new = \<lparr>bw_bytes = [], bw_bit_pos = 0\<rparr>"

definition write_bit :: "nat \<Rightarrow> bit_writer \<Rightarrow> bit_writer" where
  "write_bit b w =
     (let bytes = (if bw_bit_pos w = 0 then bw_bytes w @ [0] else bw_bytes w);
          idx = length bytes - 1;
          bytes = (if b AND 1 \<noteq> 0
                   then bytes[idx := (bytes ! idx) OR push_bit (7 - bw_bit_pos w) 1]
                   else bytes)
      in \<lparr>bw_bytes = bytes, bw_bit_pos = (bw_bit_pos w + 1) AND 7\<rparr>)"

definition write_bits :: "nat \<Rightarrow> nat \<Rightarrow> bit_writer \<Rightarrow> bit_writer" where
  "write_bits value bits w = fold (\<lambda>k w. write_bit (drop_bit k value AND 1) w) (rev [0..<bits]) w"

text \<open>\<open>value as u32\<close> reinterprets the two's complement; the mask keeps the low bits.\<close>

definition write_signed :: "int \<Rightarrow> nat \<Rightarrow> bit_writer \<Rightarrow> bit_writer" where
  "write_signed value bits w =
     (let mask_bits = (if bits = 32 then 2 ^ 32 - 1 else 2 ^ bits - 1 :: nat)
      in write_bits (unat (word_of_int value :: 32 word) AND mask_bits) bits w)"

definition write_bit_slice :: "nat list \<Rightarrow> bit_writer \<Rightarrow> bit_writer" where
  "write_bit_slice bits w = fold write_bit bits w"

definition into_bytes :: "bit_writer \<Rightarrow> u8 list" where
  "into_bytes w = bw_bytes w"

subsection \<open>The bits of a byte list\<close>

definition byte_bits :: "u8 \<Rightarrow> nat list" where
  "byte_bits b = map (\<lambda>k. of_bool (bit b (7 - k))) [0..<8]"

definition bytes_bits :: "u8 list \<Rightarrow> nat list" where
  "bytes_bits bs = concat (map byte_bits bs)"

lemma length_byte_bits [simp]: "length (byte_bits b) = 8"
  by (simp add: byte_bits_def)

lemma nth_byte_bits [simp]: "k < 8 \<Longrightarrow> byte_bits b ! k = of_bool (bit b (7 - k))"
  by (simp add: byte_bits_def)

lemma bit_list_byte_bits: "bit_list (byte_bits b)"
  by (auto simp: byte_bits_def)

lemma bytes_bits_Nil [simp]: "bytes_bits [] = []"
  by (simp add: bytes_bits_def)

lemma bytes_bits_Cons [simp]: "bytes_bits (b # bs) = byte_bits b @ bytes_bits bs"
  by (simp add: bytes_bits_def)

lemma bytes_bits_append [simp]: "bytes_bits (xs @ ys) = bytes_bits xs @ bytes_bits ys"
  by (simp add: bytes_bits_def)

lemma length_bytes_bits [simp]: "length (bytes_bits bs) = 8 * length bs"
  by (induction bs) simp_all

lemma bit_list_bytes_bits: "bit_list (bytes_bits bs)"
  using bit_list_byte_bits by (auto simp: bytes_bits_def)

lemma nth_bytes_bits:
  "i < 8 * length bs \<Longrightarrow> bytes_bits bs ! i = of_bool (bit (bs ! (i div 8)) (7 - i mod 8))"
proof (induction bs arbitrary: i)
  case Nil
  then show ?case by simp
next
  case (Cons b bs)
  show ?case
  proof (cases "i < 8")
    case True
    then show ?thesis by (simp add: nth_append)
  next
    case False
    define j where "j = i - 8"
    with False have i: "i = j + 8" by simp
    have "bytes_bits bs ! j = of_bool (bit (bs ! (j div 8)) (7 - j mod 8))"
      using Cons.prems i by (intro Cons.IH) simp
    moreover have "(j + 8) div 8 = Suc (j div 8)" by simp
    ultimately show ?thesis using i by (simp add: nth_append)
  qed
qed

lemma extract_bit_byte: "unat (drop_bit s (b :: u8) AND 1) = of_bool (bit b s)"
proof -
  have "drop_bit s b AND 1 = of_bool (bit b s)"
    by (simp add: and_one_eq bit_iff_odd_drop_bit odd_iff_mod_2_eq_one)
  then show ?thesis by (cases "bit b s") simp_all
qed

lemma byte_bits_inject: "byte_bits a = byte_bits b \<Longrightarrow> a = b"
proof (rule bit_word_eqI)
  fix n
  assume e: "byte_bits a = byte_bits b" and n: "n < LENGTH(8)"
  have "byte_bits a ! (7 - n) = byte_bits b ! (7 - n)" using e by simp
  moreover have "7 - n < 8" "7 - (7 - n) = n" using n by auto
  ultimately have "(of_bool (bit a n) :: nat) = of_bool (bit b n)" by simp
  then show "bit a n = bit b n" by (metis of_bool_eq_iff)
qed


subsection \<open>What a reader can still deliver\<close>

text \<open>
  \<open>br_view r\<close> lists the bits the reader delivers from its position on. Without zero padding
  these are the physical bits; with it, zeros follow until the position counter is full, which
  no frame comes near. \<open>br_ok\<close> says that the input length in bits fits the counter.
\<close>

definition br_at :: "bit_reader \<Rightarrow> nat \<Rightarrow> nat" where
  "br_at r i = (if i < 8 * length (br_input r) then bytes_bits (br_input r) ! i else 0)"

definition br_limit :: "bit_reader \<Rightarrow> nat" where
  "br_limit r = (if br_zero_pad r then 2 ^ 64 - 1 else 8 * length (br_input r))"

definition br_view :: "bit_reader \<Rightarrow> nat list" where
  "br_view r = map (br_at r) [br_pos r ..< br_limit r]"

definition br_ok :: "bit_reader \<Rightarrow> bool" where
  "br_ok r \<longleftrightarrow> 8 * length (br_input r) < 2 ^ 64"

definition br_advance :: "nat \<Rightarrow> bit_reader \<Rightarrow> bit_reader" where
  "br_advance n r = r\<lparr>br_pos := br_pos r + n\<rparr>"

lemma br_advance_simps [simp]:
  "br_input (br_advance n r) = br_input r" "br_pos (br_advance n r) = br_pos r + n"
  "br_zero_pad (br_advance n r) = br_zero_pad r" "br_advance 0 r = r"
  "br_advance m (br_advance n r) = br_advance (n + m) r" "br_ok (br_advance n r) = br_ok r"
  "br_at (br_advance n r) = br_at r" "br_limit (br_advance n r) = br_limit r"
  by (simp_all add: br_advance_def br_ok_def br_at_def br_limit_def fun_eq_iff)

lemma br_at_less_2: "br_at r i < 2"
proof (cases "i < 8 * length (br_input r)")
  case True
  then have "bytes_bits (br_input r) ! i \<in> set (bytes_bits (br_input r))" by (intro nth_mem) simp
  then show ?thesis using True bit_list_bytes_bits[of "br_input r"] by (simp add: br_at_def)
next
  case False
  then show ?thesis by (simp add: br_at_def)
qed

lemma bit_list_br_view: "bit_list (br_view r)"
  using br_at_less_2 by (auto simp: br_view_def)

lemma br_view_advance: "br_view (br_advance n r) = drop n (br_view r)"
  by (simp add: br_view_def drop_map drop_upt)

lemma read_bit_view:
  assumes ok: "br_ok r" and v: "br_view r = b # bs"
  shows "read_bit r = Inr (b, br_advance 1 r)"
proof -
  have lt: "br_pos r < br_limit r"
  proof (rule ccontr)
    assume "\<not> br_pos r < br_limit r"
    then show False using v by (simp add: br_view_def)
  qed
  then have b: "b = br_at r (br_pos r)" using v by (auto simp: br_view_def upt_conv_Cons)
  have mul: "checked_mul64 (length (br_input r)) 8 = Some (8 * length (br_input r))"
    using ok by (simp add: checked_defs br_ok_def mult.commute)
  have lim: "br_limit r \<le> 2 ^ 64 - 1" using ok by (auto simp: br_limit_def br_ok_def)
  have "br_pos r + 1 < 2 ^ 64" using lt lim by linarith
  then have add: "checked_add64 (br_pos r) 1 = Some (br_pos r + 1)" by (simp add: checked_defs)
  show ?thesis
  proof (cases "8 * length (br_input r) \<le> br_pos r")
    case True
    then have "br_zero_pad r" using lt by (auto simp: br_limit_def split: if_splits)
    then show ?thesis using True mul add b
      by (simp add: read_bit_def br_at_def br_advance_def)
  next
    case False
    then show ?thesis using mul add b
      by (simp add: read_bit_def br_at_def br_advance_def Let_def extract_bit_byte nth_bytes_bits)
  qed
qed

lemma read_bit_eof:
  assumes "br_ok r" and "br_view r = []" and "\<not> br_zero_pad r"
  shows "read_bit r = Inl (UnexpectedEof (length (br_input r)))"
  using assms
  by (auto simp: read_bit_def br_view_def br_limit_def br_ok_def checked_defs mult.commute)

text \<open>The interface of a bit supplier, and what the reading loop makes of it.\<close>

locale bit_source =
  fixes rd :: "'r \<Rightarrow> 'e + nat \<times> 'r" and ready :: "'r \<Rightarrow> bool"
    and adv :: "nat \<Rightarrow> 'r \<Rightarrow> 'r" and view :: "'r \<Rightarrow> nat list"
  assumes rd_view: "ready r \<Longrightarrow> view r = b # bs \<Longrightarrow> rd r = Inr (b, adv 1 r)"
    and view_adv: "view (adv n r) = drop n (view r)"
    and ready_adv: "ready r \<Longrightarrow> ready (adv n r)"
    and adv_0: "adv 0 r = r"
    and adv_adv: "adv m (adv n r) = adv (n + m) r"
begin

lemma read_loop_value:
  assumes "ready r" and "view r = ws @ rest" and "bit_list ws" and "v < 2 ^ k"
    and "k + length ws \<le> 32"
  shows "read_loop rd (length ws) v r
    = Inr (v * 2 ^ length ws + num_of_bits ws, adv (length ws) r)"
  using assms
proof (induction ws arbitrary: r v k)
  case Nil
  then show ?case by (simp add: adv_0)
next
  case (Cons b ws)
  have rd: "rd r = Inr (b, adv 1 r)" using rd_view[of r b "ws @ rest"] Cons.prems by simp
  have b: "b < 2" using Cons.prems by simp
  have "(2::nat) * v + b < 2 ^ Suc k" using Cons.prems(4) b by simp
  have "(2::nat) ^ Suc k \<le> 2 ^ 32" using Cons.prems(5) by (intro power_increasing) auto
  then have "2 * v < 2 ^ 32" using Cons.prems(4) by simp
  then have t: "take_bit 32 (push_bit 1 v) = 2 * v"
    by (simp add: take_bit_nat_eq_self_iff push_bit_eq_mult mult.commute)
  have "b = 0 \<or> b = 1" using b by linarith
  then have o: "(2 * v) OR b = 2 * v + b" by (auto simp: or_Suc_0_eq)
  have "read_loop rd (length ws) (2 * v + b) (adv 1 r)
      = Inr ((2 * v + b) * 2 ^ length ws + num_of_bits ws, adv (length ws) (adv 1 r))"
    using Cons.prems \<open>2 * v + b < 2 ^ Suc k\<close>
    by (intro Cons.IH[where k = "Suc k"]) (simp_all add: ready_adv view_adv)
  then show ?case using rd t o by (simp add: adv_adv algebra_simps)
qed

end

interpretation reader: bit_source read_bit br_ok br_advance br_view
  by unfold_locales (simp_all add: read_bit_view br_view_advance)

lemma read_bits_view:
  assumes "br_ok r" and "br_view r = ws @ rest" and "length ws = n" and "n \<le> 32"
  shows "read_bits n r = Inr (num_of_bits ws, br_advance n r)"
proof -
  have "bit_list ws" using bit_list_br_view[of r] assms(2) by auto
  then show ?thesis
    using reader.read_loop_value[of r ws rest 0 0] assms by (simp add: read_bits_def)
qed


lemma br_view_new [simp]: "br_view (br_new bs) = bytes_bits bs"
  by (rule nth_equalityI) (simp_all add: br_view_def br_limit_def br_at_def br_new_def)

lemma br_view_zero_padding:
  assumes "br_ok r" and "\<not> br_zero_pad r" and "br_pos r \<le> 8 * length (br_input r)"
  shows "\<exists>m. br_view (enable_zero_padding_after_eof r) = br_view r @ replicate m 0"
proof -
  let ?n = "8 * length (br_input r)"
  have le: "?n \<le> 2 ^ 64 - 1" using assms(1) by (simp add: br_ok_def)
  have at: "br_at (enable_zero_padding_after_eof r) = br_at r"
    by (simp add: fun_eq_iff br_at_def enable_zero_padding_after_eof_def)
  have "[br_pos r ..< 2 ^ 64 - 1] = [br_pos r ..< ?n] @ [?n ..< 2 ^ 64 - 1]"
    using upt_add_eq_append[OF assms(3), of "2 ^ 64 - 1 - ?n"] le by simp
  then have "br_view (enable_zero_padding_after_eof r)
      = br_view r @ map (br_at r) [?n ..< 2 ^ 64 - 1]"
    using assms(2) unfolding br_view_def at
    by (simp add: br_limit_def enable_zero_padding_after_eof_def)
  moreover have "map (br_at r) [?n ..< 2 ^ 64 - 1] = replicate (2 ^ 64 - 1 - ?n) 0"
    by (rule nth_equalityI) (simp_all add: br_at_def)
  ultimately show ?thesis by metis
qed

subsection \<open>What a writer holds\<close>

text \<open>
  \<open>bw_holds w ws\<close>: the bits written so far are \<open>ws\<close>, and the unused low bits of the last byte
  are zero.
\<close>

definition bw_holds :: "bit_writer \<Rightarrow> nat list \<Rightarrow> bool" where
  "bw_holds w ws \<longleftrightarrow>
     bw_bit_pos w = length ws mod 8 \<and>
     bytes_bits (bw_bytes w) = ws @ replicate ((8 - length ws mod 8) mod 8) 0"

lemma bw_holds_new: "bw_holds bw_new []"
  by (simp add: bw_holds_def bw_new_def)

lemma bw_holds_length:
  "bw_holds w ws \<Longrightarrow> 8 * length (bw_bytes w) = length ws + (8 - length ws mod 8) mod 8"
  unfolding bw_holds_def by (drule conjunct2, drule arg_cong[of _ _ length]) simp

lemma bit_push_bit_one_byte:
  "p < 8 \<Longrightarrow> k < 8 \<Longrightarrow> bit (push_bit (7 - p) 1 :: u8) (7 - k) \<longleftrightarrow> k = p"
  by (auto simp: bit_push_bit_iff bit_1_iff bit_exp_iff)

lemma byte_bits_set:
  assumes "p < 8" and "byte_bits x = us @ replicate (8 - p) 0" and "length us = p" and "b < 2"
  shows "byte_bits (if b AND 1 \<noteq> 0 then x OR push_bit (7 - p) 1 else x)
    = us @ [b] @ replicate (7 - p) 0"
proof (rule nth_equalityI)
  show "length (byte_bits (if b AND 1 \<noteq> 0 then x OR push_bit (7 - p) 1 else x))
      = length (us @ [b] @ replicate (7 - p) 0)"
    using assms(1,3) by simp
next
  fix k
  assume "k < length (byte_bits (if b AND 1 \<noteq> 0 then x OR push_bit (7 - p) 1 else x))"
  then have k: "k < 8" by simp
  have b01: "b = 0 \<or> b = 1" using assms(4) by linarith
  have xk: "of_bool (bit x (7 - k)) = (us @ replicate (8 - p) (0::nat)) ! k"
    using k nth_byte_bits[of k x] assms(2) by simp
  have push: "bit (push_bit (7 - p) 1 :: u8) (7 - k) \<longleftrightarrow> k = p"
    using bit_push_bit_one_byte assms(1) k by blast
  have nth: "byte_bits (if b AND 1 \<noteq> 0 then x OR push_bit (7 - p) 1 else x) ! k
      = of_bool (bit x (7 - k) \<or> b = 1 \<and> k = p)"
  proof (cases "b = 1")
    case True
    then have "b AND 1 \<noteq> 0" by (simp add: and_one_eq)
    then show ?thesis using True k push by (simp add: bit_or_iff)
  next
    case False
    then have "b = 0" using b01 by simp
    then show ?thesis using k by simp
  qed
  consider "k < p" | "k = p" | "p < k" by linarith
  then show "byte_bits (if b AND 1 \<noteq> 0 then x OR push_bit (7 - p) 1 else x) ! k
      = (us @ [b] @ replicate (7 - p) 0) ! k"
  proof cases
    case 1
    then show ?thesis using xk nth assms(3) by (simp add: nth_append)
  next
    case 2
    then have "\<not> bit x (7 - k)" using xk assms(1,3) by (simp add: nth_append)
    then show ?thesis using 2 nth b01 assms(3) by (auto simp: nth_append)
  next
    case 3
    then have "\<not> bit x (7 - k)" using xk k assms(1,3) by (simp add: nth_append)
    moreover have "(us @ [b] @ replicate (7 - p) 0) ! k = 0"
      using 3 k assms(3) by (simp add: nth_append nth_Cons')
    ultimately show ?thesis using nth 3 by simp
  qed
qed

lemma bw_holds_write_bit:
  assumes h: "bw_holds w ws" and b: "b < 2"
  shows "bw_holds (write_bit b w) (ws @ [b])"
proof -
  define p where "p = length ws mod 8"
  have p8: "p < 8" by (simp add: p_def)
  have pos: "bw_bit_pos w = p" using h by (simp add: bw_holds_def p_def)
  obtain bs x us vs where bytes: "(if p = 0 then bw_bytes w @ [0] else bw_bytes w) = bs @ [x]"
    and bsb: "bytes_bits bs = vs" and ws: "ws = vs @ us" and us: "length us = p"
    and xb: "byte_bits x = us @ replicate (8 - p) 0"
  proof (cases "p = 0")
    case True
    then have "bytes_bits (bw_bytes w) = ws" using h by (simp add: bw_holds_def p_def)
    moreover have "byte_bits 0 = replicate 8 0"
      by (rule nth_equalityI) simp_all
    ultimately show ?thesis using that[of "bw_bytes w" 0 ws "[]"] True by simp
  next
    case False
    have bb: "bytes_bits (bw_bytes w) = ws @ replicate (8 - p) 0"
      using h False p8 by (simp add: bw_holds_def p_def)
    then have "bw_bytes w \<noteq> []" using False p_def by auto
    then obtain bs x where bx: "bw_bytes w = bs @ [x]" by (metis append_butlast_last_id)
    then have e: "bytes_bits bs @ byte_bits x = ws @ replicate (8 - p) 0" using bb by simp
    have len: "8 * length bs + 8 = length ws + (8 - p)" using arg_cong[OF e, of length] by simp
    define n where "n = 8 * length bs"
    have n: "n \<le> length ws" using len p8 n_def by simp
    have v: "bytes_bits bs = take n ws" and u: "byte_bits x = drop n ws @ replicate (8 - p) 0"
      using arg_cong[OF e, of "take n"] arg_cong[OF e, of "drop n"] n n_def by auto
    show ?thesis
      using that[of bs x "take n ws" "drop n ws"] False bx v u len n n_def p8 by simp
  qed
  define y where "y = (if b AND 1 \<noteq> 0 then x OR push_bit (7 - p) 1 else x)"
  have yb: "byte_bits y = us @ [b] @ replicate (7 - p) 0"
    unfolding y_def using byte_bits_set[OF p8 xb us b] .
  have wb: "bw_bytes (write_bit b w) = bs @ [y]"
    using bytes pos by (simp add: write_bit_def Let_def y_def)
  have "(p + 1) AND 7 = (p + 1) mod 8" 
    using take_bit_eq_mask[of 3 "p + 1"] by (simp add: mask_eq_exp_minus_1 take_bit_eq_mod)
  also have "\<dots> = length (ws @ [b]) mod 8" by (simp add: p_def mod_simps)
  finally have pos': "bw_bit_pos (write_bit b w) = length (ws @ [b]) mod 8"
    using pos by (simp add: write_bit_def Let_def)
  have rep: "(8 - length (ws @ [b]) mod 8) mod 8 = 7 - p"
  proof (cases "p = 7")
    case True
    then have "length (ws @ [b]) mod 8 = 0" unfolding p_def by (simp add: mod_Suc)
    then show ?thesis using True by simp
  next
    case False
    then have "p + 1 < 8" using p8 by simp
    then have "length (ws @ [b]) mod 8 = p + 1" unfolding p_def by (simp add: mod_Suc)
    then show ?thesis using \<open>p + 1 < 8\<close> by simp
  qed
  have bits: "bytes_bits (bw_bytes (write_bit b w)) = (ws @ [b]) @ replicate (7 - p) 0"
    using wb bsb yb ws by simp
  show ?thesis unfolding bw_holds_def using pos' rep bits by simp
qed


text \<open>The interface of a bit sink: appending a bit extends the list of bits it holds.\<close>

locale bit_sink =
  fixes wr :: "nat \<Rightarrow> 'w \<Rightarrow> 'w" and holds :: "'w \<Rightarrow> nat list \<Rightarrow> bool"
  assumes holds_wr: "holds w ws \<Longrightarrow> b < 2 \<Longrightarrow> holds (wr b w) (ws @ [b])"
begin

lemma holds_fold: "holds w ws \<Longrightarrow> bit_list bs \<Longrightarrow> holds (fold wr bs w) (ws @ bs)"
proof (induction bs arbitrary: w ws)
  case Nil
  then show ?case by simp
next
  case (Cons b bs)
  then have "holds (wr b w) (ws @ [b])" by (simp add: holds_wr)
  with Cons.IH[of "wr b w" "ws @ [b]"] Cons.prems show ?case by simp
qed

end

interpretation writer: bit_sink write_bit bw_holds
  by unfold_locales (rule bw_holds_write_bit)

text \<open>The most-significant-first digits of a number.\<close>

definition bits_of_num :: "nat \<Rightarrow> nat \<Rightarrow> nat list" where
  "bits_of_num n v = map (\<lambda>k. v div 2 ^ k mod 2) (rev [0..<n])"

lemma length_bits_of_num [simp]: "length (bits_of_num n v) = n"
  by (simp add: bits_of_num_def)

lemma bit_list_bits_of_num: "bit_list (bits_of_num n v)"
  by (auto simp: bits_of_num_def)

lemma num_of_bits_of_num [simp]: "num_of_bits (bits_of_num n v) = v mod 2 ^ n"
proof (induction n)
  case 0
  then show ?case by (simp add: bits_of_num_def)
next
  case (Suc n)
  have "bits_of_num (Suc n) v = (v div 2 ^ n mod 2) # bits_of_num n v"
    by (simp add: bits_of_num_def)
  then have "num_of_bits (bits_of_num (Suc n) v) = (v div 2 ^ n mod 2) * 2 ^ n + v mod 2 ^ n"
    using Suc by simp
  also have "\<dots> = v mod 2 ^ Suc n"
    using mod_mult2_eq[of v "2 ^ n" 2] by (simp add: mult.commute)
  finally show ?case .
qed

lemma bw_holds_write_bits:
  assumes "bw_holds w ws"
  shows "bw_holds (write_bits v n w) (ws @ bits_of_num n v)"
proof -
  have "write_bits v n w = fold write_bit (bits_of_num n v) w"
    by (simp add: write_bits_def bits_of_num_def fold_map comp_def and_one_eq drop_bit_eq_div)
  then show ?thesis
    using writer.holds_fold[OF assms bit_list_bits_of_num] by simp
qed

lemma bw_holds_write_bit_slice:
  "bw_holds w ws \<Longrightarrow> bit_list bs \<Longrightarrow> bw_holds (write_bit_slice bs w) (ws @ bs)"
  unfolding write_bit_slice_def by (rule writer.holds_fold)

subsection \<open>Signed fields\<close>

text \<open>The low \<open>n\<close> bits of a value in two's complement, which \<open>write_signed\<close> emits.\<close>

definition signed_digits :: "nat \<Rightarrow> int \<Rightarrow> nat list" where
  "signed_digits n v = bits_of_num n (nat (v mod 2 ^ n))"

lemma length_signed_digits [simp]: "length (signed_digits n v) = n"
  by (simp add: signed_digits_def)

lemma bit_list_signed_digits: "bit_list (signed_digits n v)"
  unfolding signed_digits_def by (rule bit_list_bits_of_num)

lemma masked_signed:
  assumes "n < 32"
  shows "unat (word_of_int v :: 32 word) AND (2 ^ n - 1) = nat (v mod 2 ^ n)"
proof -
  have u: "unat (word_of_int v :: 32 word) = nat (v mod 2 ^ 32)"
    by (simp add: unsigned_of_int take_bit_eq_mod)
  have c: "v mod 2 ^ 32 mod 2 ^ n = v mod 2 ^ n"
    using assms by (intro mod_mod_cancel le_imp_power_dvd) simp
  have "unat (word_of_int v :: 32 word) AND (2 ^ n - 1) = nat (v mod 2 ^ 32) mod 2 ^ n"
    using take_bit_eq_mask[of n "unat (word_of_int v :: 32 word)"] unfolding u
    by (simp only: mask_eq_exp_minus_1 take_bit_eq_mod)
  also have "\<dots> = nat (v mod 2 ^ 32 mod 2 ^ n)"
    by (simp add: nat_mod_distrib nat_power_eq)
  finally show ?thesis by (simp only: c)
qed

lemma bw_holds_write_signed:
  assumes "bw_holds w ws" and "n < 32"
  shows "bw_holds (write_signed v n w) (ws @ signed_digits n v)"
  using bw_holds_write_bits[OF assms(1), of "nat (v mod 2 ^ n)" n] assms(2)
  by (simp add: write_signed_def masked_signed[simplified] signed_digits_def)

lemma sign_extend_word:
  assumes "0 < n" and "n < 32" and "- (2 ^ (n - 1)) \<le> v" and "v < 2 ^ (n - 1)"
  shows "sint (signed_drop_bit (32 - n) (push_bit (32 - n)
    (word_of_nat (nat (v mod 2 ^ n)) :: 32 word))) = v"
proof -
  define w where "w = (word_of_nat (nat (v mod 2 ^ n)) :: 32 word)"
  have w: "w = word_of_int (v mod 2 ^ n)"
    by (simp add: w_def)
  have tb: "v mod 2 ^ n = take_bit n v" by (simp add: take_bit_eq_mod)
  have v': "signed_take_bit (n - 1) v = v"
    using assms by (intro signed_take_bit_int_eq_self) simp_all
  have bits: "bit (sint (signed_drop_bit (32 - n) (push_bit (32 - n) w))) k = bit v k" for k
  proof -
    have "bit v k = bit (signed_take_bit (n - 1) v) k" by (simp only: v')
    then have bv: "bit v k = bit v (min k (n - 1))"
      by (simp add: bit_signed_take_bit_iff min.commute)
    have "bit (sint (signed_drop_bit (32 - n) (push_bit (32 - n) w))) k
        = bit v (min k (n - 1))"
      using assms(1,2) by (auto simp: w tb bit_simps min_def bit_signed_drop_bit_iff)
    then show ?thesis using bv by simp
  qed
  show ?thesis unfolding w_def[symmetric] by (rule bit_eqI) (rule bits)
qed


lemma read_signed_view:
  assumes "br_ok r" and "br_view r = signed_digits n v @ rest" and "0 < n" and "n < 32"
    and "- (2 ^ (n - 1)) \<le> v" and "v < 2 ^ (n - 1)"
  shows "read_signed n r = Inr (v, br_advance n r)"
proof -
  have "nat (v mod 2 ^ n) mod 2 ^ n = nat (v mod 2 ^ n)"
    by (metis Euclidean_Rings.pos_mod_bound mod_less nat_less_numeral_power_cancel_iff zero_less_numeral
        zero_less_power)
  then have "num_of_bits (signed_digits n v) = nat (v mod 2 ^ n)"
    by (simp add: signed_digits_def)
  then show ?thesis
    using read_bits_view[OF assms(1,2), of n] assms(3-6) sign_extend_word[of n v]
    by (simp add: read_signed_def Let_def)
qed

subsection \<open>Properties\<close>

text \<open>a bit stream written field by field is what the reader delivers: writing a value in
  a field of at most 32 bits after any earlier bits, padding to bytes, and reading the same fields
  back returns the earlier bits and the value (reduced to the field), and leaves only
  the zero padding of the last byte.\<close>

theorem write_bits_read_bits:
  assumes "bw_holds w ws" and "length ws \<le> 32" and "n \<le> 32"
    and "length (into_bytes (write_bits v n w)) < 2 ^ 61"
  shows "\<exists>r1 r2 k. read_bits (length ws) (br_new (into_bytes (write_bits v n w))) = Inr (num_of_bits ws, r1)
    \<and> read_bits n r1 = Inr (v mod 2 ^ n, r2) \<and> br_view r2 = replicate k 0 \<and> k < 8"
proof -
  let ?r = "br_new (into_bytes (write_bits v n w))"
  define k where "k = (8 - length (ws @ bits_of_num n v) mod 8) mod 8"
  have ok: "br_ok ?r" using assms(4) by (simp add: br_ok_def br_new_def)
  have "bytes_bits (into_bytes (write_bits v n w)) = (ws @ bits_of_num n v) @ replicate k 0"
    using bw_holds_write_bits[OF assms(1), of v n] by (simp add: bw_holds_def into_bytes_def k_def)
  then have view: "br_view ?r = ws @ bits_of_num n v @ replicate k 0" by simp
  have r1: "read_bits (length ws) ?r = Inr (num_of_bits ws, br_advance (length ws) ?r)"
    using read_bits_view[OF ok view] assms(2) by simp
  have view1: "br_view (br_advance (length ws) ?r) = bits_of_num n v @ replicate k 0"
    unfolding br_view_advance view by simp
  have r2: "read_bits n (br_advance (length ws) ?r)
      = Inr (v mod 2 ^ n, br_advance n (br_advance (length ws) ?r))"
    using read_bits_view[OF _ view1] ok assms(3) by simp
  have "br_view (br_advance n (br_advance (length ws) ?r)) = replicate k 0"
    using br_view_advance[of n "br_advance (length ws) ?r"] view1 by simp
  moreover have "k < 8" by (simp add: k_def)
  ultimately show ?thesis using r1 r2 by blast
qed

theorem write_bits_read_bits_witness:
  "\<exists>r1 r2 k. read_bits 0 (br_new (into_bytes (write_bits 300 9 bw_new))) = Inr (0, r1)
     \<and> read_bits 9 r1 = Inr (300, r2) \<and> br_view r2 = replicate k 0 \<and> k < 8"
proof -
  have b: "bw_holds (write_bits 300 9 bw_new) (bits_of_num 9 300)"
    using bw_holds_write_bits[OF bw_holds_new, of 300 9] by simp
  have len: "length (into_bytes (write_bits 300 9 bw_new)) < 2 ^ 61"
    by (simp add: into_bytes_def write_bits_def write_bit_def bw_new_def rev_def upt_rec Let_def)
  show ?thesis
    using write_bits_read_bits[OF bw_holds_new, of 9 300] len by (simp add: num_of_bits_def)
qed

end
