(* ===== verification/DstGeometry.thy ===== *)
theory DstGeometry
  imports DstBits
begin

text \<open>
  Frame geometry and support policy of the DST codec: \<open>DstRate\<close>, \<open>DstDecoder\<close> and
  the uncompressed payload of \<open>dst/decoder.rs\<close>; the error and option types, the policy
  checks and the raw (\<open>DSTCoded = 0\<close>) frame writers of \<open>dst/encoder.rs\<close>.
\<close>

subsection \<open>Rates\<close>

datatype dst_rate = Dsd64 | Dsd128 | Dsd256

definition rate_from_sample_rate :: "nat \<Rightarrow> dst_error + dst_rate" where
  "rate_from_sample_rate rate =
     (if rate = 2822400 then Inr Dsd64
      else if rate = 5644800 then Inr Dsd128
      else if rate = 11289600 then Inr Dsd256
      else Inl (UnsupportedRate rate))"

fun sample_rate :: "dst_rate \<Rightarrow> nat" where
  "sample_rate Dsd64 = 2822400"
| "sample_rate Dsd128 = 5644800"
| "sample_rate Dsd256 = 11289600"

fun fs44 :: "dst_rate \<Rightarrow> nat" where
  "fs44 Dsd64 = 64"
| "fs44 Dsd128 = 128"
| "fs44 Dsd256 = 256"

definition frame_bytes_per_channel :: "dst_rate \<Rightarrow> dst_error + nat" where
  "frame_bytes_per_channel rate =
     ok_or (ArithmeticDecodeFailure ''DST frame byte geometry overflow'')
       (Option.bind (checked_mul64 588 (fs44 rate)) (\<lambda>n. checked_div n 8))"

definition frame_bits_per_channel :: "dst_rate \<Rightarrow> dst_error + nat" where
  "frame_bits_per_channel rate =
     res_bind (frame_bytes_per_channel rate)
       (\<lambda>n. ok_or (ArithmeticDecodeFailure ''DST frame bit geometry overflow'') (checked_mul64 n 8))"

text \<open>\<open>FRAME_BYTES_PER_CHANNEL\<close> and \<open>FRAME_BITS_PER_CHANNEL\<close> of \<open>tables.rs\<close>.\<close>

definition frame_bytes_dsd64 :: nat where
  "frame_bytes_dsd64 = 4704"

definition frame_bits_dsd64 :: nat where
  "frame_bits_dsd64 = frame_bytes_dsd64 * 8"

lemma frame_bytes_per_channel_value: "frame_bytes_per_channel rate = Inr (588 * fs44 rate div 8)"
  by (cases rate) (simp_all add: frame_bytes_per_channel_def checked_defs)

lemma frame_bits_per_channel_value: "frame_bits_per_channel rate = Inr (588 * fs44 rate)"
  by (cases rate)
    (simp_all add: frame_bits_per_channel_def frame_bytes_per_channel_value checked_defs)

subsection \<open>The decoder object\<close>

definition validate_channel_count :: "nat \<Rightarrow> dst_error + nat" where
  "validate_channel_count channel_count =
     (if 1 \<le> channel_count \<and> channel_count \<le> 6 then Inr channel_count
      else Inl (InvalidChannelCount channel_count))"

record dst_decoder =
  dd_channel_count :: nat
  dd_rate :: dst_rate
  dd_frame_bytes :: nat
  dd_frame_bits :: nat

definition dst_decoder_new :: "nat \<Rightarrow> dst_rate \<Rightarrow> dst_error + dst_decoder" where
  "dst_decoder_new channel_count rate =
     res_bind (validate_channel_count channel_count)
       (\<lambda>channels. res_bind (frame_bytes_per_channel rate)
       (\<lambda>bytes. res_bind (frame_bits_per_channel rate)
       (\<lambda>bits. Inr \<lparr>dd_channel_count = channels, dd_rate = rate, dd_frame_bytes = bytes,
                    dd_frame_bits = bits\<rparr>)))"

definition dst_decoder_from_sample_rate :: "nat \<Rightarrow> nat \<Rightarrow> dst_error + dst_decoder" where
  "dst_decoder_from_sample_rate channel_count rate =
     res_bind (rate_from_sample_rate rate) (dst_decoder_new channel_count)"

definition dsd_frame_bytes :: "dst_decoder \<Rightarrow> dst_error + nat" where
  "dsd_frame_bytes d =
     ok_or (ArithmeticDecodeFailure ''DST decoded frame byte count overflow'')
       (checked_mul64 (dd_frame_bytes d) (dd_channel_count d))"

text \<open>What \<open>dst_decoder_new\<close> guarantees of every decoder it returns.\<close>

definition dst_decoder_inv :: "dst_decoder \<Rightarrow> bool" where
  "dst_decoder_inv d \<longleftrightarrow> 1 \<le> dd_channel_count d \<and> dd_channel_count d \<le> 6
     \<and> dd_frame_bytes d = 588 * fs44 (dd_rate d) div 8 \<and> dd_frame_bits d = 8 * dd_frame_bytes d"

lemma fs44_cases: "fs44 rate = 64 \<or> fs44 rate = 128 \<or> fs44 rate = 256"
  by (cases rate) simp_all

lemma dst_decoder_new_value:
  assumes "1 \<le> channels" and "channels \<le> 6"
  shows "dst_decoder_new channels rate = Inr \<lparr>dd_channel_count = channels, dd_rate = rate,
    dd_frame_bytes = 588 * fs44 rate div 8, dd_frame_bits = 588 * fs44 rate\<rparr>"
  using assms
  by (simp add: dst_decoder_new_def validate_channel_count_def frame_bytes_per_channel_value
      frame_bits_per_channel_value)

lemma dst_decoder_new_inv: "dst_decoder_new channels rate = Inr d \<Longrightarrow> dst_decoder_inv d"
  using fs44_cases[of rate]
  by (auto simp: dst_decoder_new_def validate_channel_count_def frame_bytes_per_channel_value
      frame_bits_per_channel_value dst_decoder_inv_def split: if_splits)

lemma dst_decoder_inv_bounds:
  assumes "dst_decoder_inv d"
  shows "dd_frame_bytes d \<le> 18816" and "4704 \<le> dd_frame_bytes d"
    and "dd_frame_bytes d * dd_channel_count d \<le> 112896"
proof -
  show b: "dd_frame_bytes d \<le> 18816" and "4704 \<le> dd_frame_bytes d"
    using assms fs44_cases[of "dd_rate d"] by (auto simp: dst_decoder_inv_def)
  have "dd_frame_bytes d * dd_channel_count d \<le> 18816 * 6"
    using b assms by (intro mult_le_mono) (auto simp: dst_decoder_inv_def)
  then show "dd_frame_bytes d * dd_channel_count d \<le> 112896" by simp
qed

lemma dsd_frame_bytes_value:
  "dst_decoder_inv d \<Longrightarrow> dsd_frame_bytes d = Inr (dd_frame_bytes d * dd_channel_count d)"
  using dst_decoder_inv_bounds(3)[of d] by (simp add: dsd_frame_bytes_def checked_defs)

subsection \<open>Uncompressed payload\<close>

lemma read_bit_progress:
  "read_bit r = Inr (b, r') \<Longrightarrow> br_pos r' = br_pos r + 1 \<and> br_pos r' < 2 ^ 64"
  by (auto simp: read_bit_def res_bind_eq_Inr_iff ok_or_eq_Inr_iff checked_defs Let_def
      split: if_splits)

text \<open>The stuffing check reads to the end of the input; the position counter bounds the loop.\<close>

function ensure_remaining_bits_are_zero :: "bit_reader \<Rightarrow> dst_error + unit" where
  "ensure_remaining_bits_are_zero r =
     (case read_bit r of
        Inr (b, r') \<Rightarrow> (if b = 0 then ensure_remaining_bits_are_zero r'
                        else Inl (MalformedFrame ''non-zero DST stuffing bits''))
      | Inl (UnexpectedEof _) \<Rightarrow> Inr ()
      | Inl e \<Rightarrow> Inl e)"
  by pat_completeness auto
termination
  by (relation "measure (\<lambda>r. 2 ^ 64 - br_pos r)") (auto dest: read_bit_progress)

declare ensure_remaining_bits_are_zero.simps [simp del]

definition read_byte :: "bit_reader \<Rightarrow> dst_error + u8 \<times> bit_reader" where
  "read_byte r = res_bind (read_bits 8 r) (\<lambda>(v, r). Inr (word_of_nat v, r))"

fun read_bytes :: "nat \<Rightarrow> bit_reader \<Rightarrow> dst_error + u8 list \<times> bit_reader" where
  "read_bytes 0 r = Inr ([], r)"
| "read_bytes (Suc n) r =
     res_bind (read_byte r) (\<lambda>(b, r). res_bind (read_bytes n r) (\<lambda>(bs, r). Inr (b # bs, r)))"

definition decode_uncompressed_dst_payload :: "bit_reader \<Rightarrow> nat \<Rightarrow> dst_error + u8 list" where
  "decode_uncompressed_dst_payload r n =
     res_bind (read_bit r) (\<lambda>(_, r).
     res_bind (read_bits 6 r) (\<lambda>(_, r).
     res_bind (read_bytes n r) (\<lambda>(out, r).
     res_bind (ensure_remaining_bits_are_zero r) (\<lambda>_. Inr out))))"

lemma num_of_byte_bits: "num_of_bits (byte_bits b) = unat b"
proof -
  have dig: "unat b div 2 ^ k mod 2 = of_bool (bit b k)" for k
    by (simp add: mod_2_eq_odd bit_unsigned_iff flip: bit_iff_odd)
  have "byte_bits b = bits_of_num 8 (unat b)"
    by (rule nth_equalityI) (simp_all add: bits_of_num_def rev_nth dig)
  moreover have "unat b < 2 ^ 8" by (rule order_less_le_trans[OF unsigned_less]) simp
  ultimately show ?thesis by simp
qed


lemma read_byte_view:
  assumes "br_ok r" and "br_view r = byte_bits b @ rest"
  shows "read_byte r = Inr (b, br_advance 8 r)"
  using read_bits_view[OF assms, of 8] by (simp add: read_byte_def num_of_byte_bits)

lemma read_bytes_view:
  assumes "br_ok r" and "br_view r = bytes_bits bs @ rest"
  shows "read_bytes (length bs) r = Inr (bs, br_advance (8 * length bs) r)"
  using assms
proof (induction bs arbitrary: r)
  case Nil
  then show ?case by simp
next
  case (Cons b bs)
  have b: "read_byte r = Inr (b, br_advance 8 r)"
    using read_byte_view[of r b "bytes_bits bs @ rest"] Cons.prems by simp
  have "read_bytes (length bs) (br_advance 8 r) = Inr (bs, br_advance (8 * length bs) (br_advance 8 r))"
    using Cons.prems by (intro Cons.IH) (simp_all add: br_view_advance)
  then show ?case using b by simp
qed

lemma ensure_zero_view:
  assumes "br_ok r" and "\<not> br_zero_pad r" and "br_view r = replicate k 0"
  shows "ensure_remaining_bits_are_zero r = Inr ()"
  using assms
proof (induction k arbitrary: r)
  case 0
  then show ?case
    using read_bit_eof[of r] by (simp add: ensure_remaining_bits_are_zero.simps[of r])
next
  case (Suc k)
  have "read_bit r = Inr (0, br_advance 1 r)"
    using read_bit_view[of r 0 "replicate k 0"] Suc.prems by simp
  moreover have "ensure_remaining_bits_are_zero (br_advance 1 r) = Inr ()"
    using Suc.prems by (intro Suc.IH) (simp_all add: br_view_advance)
  ultimately show ?case by (simp add: ensure_remaining_bits_are_zero.simps[of r])
qed

lemma length_read_bytes: "read_bytes n r = Inr (bs, r') \<Longrightarrow> length bs = n"
  by (induction n arbitrary: r bs r') (auto simp: res_bind_eq_Inr_iff split: prod.splits)

subsection \<open>Encoder errors, options and policy\<close>

datatype dst_encode_error =
    EncInvalidChannelCount nat
  | EncUnsupportedRate nat
  | PredictiveUnsupportedLayout nat dst_rate
  | InvalidFrameLength nat nat
  | InvalidPredictionOrder nat
  | PredictiveUnsupportedChannelCount nat
  | CompressionNotBeneficial nat nat nat
  | VerificationFailed

datatype encode_failure_class =
    FcInvalidInput
  | FcPredictiveUnsupportedChannelCount
  | FcPredictiveUnsupportedLayout
  | FcCompressionNotBeneficial
  | FcVerificationFailed
  | FcRawFallbackEncodingFailed

fun failure_class :: "dst_encode_error \<Rightarrow> encode_failure_class" where
  "failure_class (EncInvalidChannelCount _) = FcInvalidInput"
| "failure_class (EncUnsupportedRate _) = FcInvalidInput"
| "failure_class (InvalidFrameLength _ _) = FcInvalidInput"
| "failure_class (InvalidPredictionOrder _) = FcInvalidInput"
| "failure_class (PredictiveUnsupportedLayout _ _) = FcPredictiveUnsupportedLayout"
| "failure_class (PredictiveUnsupportedChannelCount _) = FcPredictiveUnsupportedChannelCount"
| "failure_class (CompressionNotBeneficial _ _ _) = FcCompressionNotBeneficial"
| "failure_class VerificationFailed = FcVerificationFailed"

datatype policy_scope = Container | SourceDstPassthrough | CallerSuppliedDst | RawFallback
  | PredictiveGeneration

definition is_legal_dst_channel_count :: "nat \<Rightarrow> bool" where
  "is_legal_dst_channel_count channel_count \<longleftrightarrow> 1 \<le> channel_count \<and> channel_count \<le> 6"

definition enc_validate_channel_count :: "nat \<Rightarrow> dst_encode_error + unit" where
  "enc_validate_channel_count channel_count =
     (if is_legal_dst_channel_count channel_count then Inr ()
      else Inl (EncInvalidChannelCount channel_count))"

definition supports_predictive_channel_count :: "nat \<Rightarrow> bool" where
  "supports_predictive_channel_count channel_count \<longleftrightarrow> channel_count = 2 \<or> channel_count = 6"

definition validate_dst_policy :: "policy_scope \<Rightarrow> dst_rate \<Rightarrow> nat \<Rightarrow> dst_encode_error + unit" where
  "validate_dst_policy scope rate channel_count =
     res_bind (enc_validate_channel_count channel_count) (\<lambda>_.
       case scope of
         PredictiveGeneration \<Rightarrow>
           if rate = Dsd64 \<and> supports_predictive_channel_count channel_count then Inr ()
           else Inl (PredictiveUnsupportedLayout channel_count rate)
       | _ \<Rightarrow> Inr ())"

definition supports_dst_policy :: "policy_scope \<Rightarrow> dst_rate \<Rightarrow> nat \<Rightarrow> bool" where
  "supports_dst_policy scope rate channel_count =
     (case validate_dst_policy scope rate channel_count of Inr _ \<Rightarrow> True | Inl _ \<Rightarrow> False)"

definition supports_raw_dst_fallback_layout :: "dst_rate \<Rightarrow> nat \<Rightarrow> bool" where
  "supports_raw_dst_fallback_layout rate channel_count =
     supports_dst_policy RawFallback rate channel_count"

definition supports_raw_dst_fallback_channel_count :: "nat \<Rightarrow> bool" where
  "supports_raw_dst_fallback_channel_count channel_count =
     supports_raw_dst_fallback_layout Dsd64 channel_count"

definition supports_predictive_dst_layout :: "dst_rate \<Rightarrow> nat \<Rightarrow> bool" where
  "supports_predictive_dst_layout rate channel_count =
     supports_dst_policy PredictiveGeneration rate channel_count"

definition supports_predictive_dst_channel_count :: "nat \<Rightarrow> bool" where
  "supports_predictive_dst_channel_count channel_count =
     supports_predictive_dst_layout Dsd64 channel_count"

definition supports_verified_dst_channel_count :: "nat \<Rightarrow> bool" where
  "supports_verified_dst_channel_count channel_count =
     supports_predictive_dst_channel_count channel_count"

definition validate_prediction_order :: "nat \<Rightarrow> dst_encode_error + unit" where
  "validate_prediction_order order =
     (if 1 \<le> order \<and> order \<le> 128 then Inr () else Inl (InvalidPredictionOrder order))"

definition dst_rate_from_sample_rate :: "nat \<Rightarrow> dst_encode_error + dst_rate" where
  "dst_rate_from_sample_rate rate =
     (case rate_from_sample_rate rate of Inr r \<Rightarrow> Inr r | Inl _ \<Rightarrow> Inl (EncUnsupportedRate rate))"

definition dst_frame_bytes_per_channel :: "dst_rate \<Rightarrow> nat option" where
  "dst_frame_bytes_per_channel rate =
     (case rate of
        Dsd64 \<Rightarrow> Some frame_bytes_dsd64
      | Dsd128 \<Rightarrow> checked_mul64 frame_bytes_dsd64 2
      | Dsd256 \<Rightarrow> checked_mul64 frame_bytes_dsd64 4)"

definition dst_interleaved_frame_len_for_rate :: "dst_rate \<Rightarrow> nat \<Rightarrow> dst_encode_error + nat" where
  "dst_interleaved_frame_len_for_rate rate channel_count =
     res_bind (enc_validate_channel_count channel_count) (\<lambda>_.
       ok_or (InvalidFrameLength (2 ^ 64 - 1) (2 ^ 64 - 1))
         (Option.bind (dst_frame_bytes_per_channel rate) (\<lambda>n. checked_mul64 n channel_count)))"

definition dst_interleaved_frame_len :: "nat \<Rightarrow> dst_encode_error + nat" where
  "dst_interleaved_frame_len channel_count = dst_interleaved_frame_len_for_rate Dsd64 channel_count"

definition encode_uncompressed_frame_interleaved_with_rate ::
  "u8 list \<Rightarrow> nat \<Rightarrow> dst_rate \<Rightarrow> dst_encode_error + u8 list" where
  "encode_uncompressed_frame_interleaved_with_rate dsd channel_count rate =
     res_bind (validate_dst_policy RawFallback rate channel_count) (\<lambda>_.
     res_bind (dst_interleaved_frame_len_for_rate rate channel_count) (\<lambda>expected.
       if length dsd \<noteq> expected then Inl (InvalidFrameLength expected (length dsd))
       else Inr (0 # dsd)))"

definition encode_uncompressed_frame_interleaved :: "u8 list \<Rightarrow> nat \<Rightarrow> dst_encode_error + u8 list" where
  "encode_uncompressed_frame_interleaved dsd channel_count =
     encode_uncompressed_frame_interleaved_with_rate dsd channel_count Dsd64"

definition encode_uncompressed_frame_interleaved_padded_with_rate ::
  "u8 list \<Rightarrow> nat \<Rightarrow> dst_rate \<Rightarrow> dst_encode_error + u8 list \<times> u8 list" where
  "encode_uncompressed_frame_interleaved_padded_with_rate dsd channel_count rate =
     res_bind (validate_dst_policy RawFallback rate channel_count) (\<lambda>_.
     res_bind (dst_interleaved_frame_len_for_rate rate channel_count) (\<lambda>expected.
       if length dsd > expected then Inl (InvalidFrameLength expected (length dsd))
       else
         let padded = dsd @ drop (length dsd) (replicate expected 0)
         in res_bind (encode_uncompressed_frame_interleaved_with_rate padded channel_count rate)
              (\<lambda>encoded. Inr (encoded, padded))))"

definition encode_uncompressed_frame_interleaved_padded ::
  "u8 list \<Rightarrow> nat \<Rightarrow> dst_encode_error + u8 list \<times> u8 list" where
  "encode_uncompressed_frame_interleaved_padded dsd channel_count =
     encode_uncompressed_frame_interleaved_padded_with_rate dsd channel_count Dsd64"

lemma dst_interleaved_frame_len_value:
  assumes "1 \<le> channels" and "channels \<le> 6"
  shows "dst_interleaved_frame_len_for_rate rate channels = Inr (588 * fs44 rate div 8 * channels)"
proof -
  have "588 * fs44 rate div 8 * channels \<le> 18816 * 6"
    using fs44_cases[of rate] assms(2) by (intro mult_le_mono) auto
  then show ?thesis using assms
    by (cases rate)
      (simp_all add: dst_interleaved_frame_len_for_rate_def enc_validate_channel_count_def
        is_legal_dst_channel_count_def dst_frame_bytes_per_channel_def frame_bytes_dsd64_def checked_defs)
qed

text \<open>encoder and decoder agree on the frame geometry and on which channel counts are
  legal: the interleaved frame length the encoder computes for a rate is exactly the number of
  bytes the decoder built for the same layout produces, and each side rejects a channel count iff
  the other does.\<close>

theorem geometry_agreement:
  "(case dst_decoder_new channels rate of
      Inr d \<Rightarrow> (\<exists>n. dsd_frame_bytes d = Inr n \<and> dst_interleaved_frame_len_for_rate rate channels = Inr n
                 \<and> n = dd_frame_bytes d * channels \<and> dd_frame_bits d = 8 * dd_frame_bytes d)
    | Inl e \<Rightarrow> e = InvalidChannelCount channels
        \<and> dst_interleaved_frame_len_for_rate rate channels = Inl (EncInvalidChannelCount channels))"
proof (cases "1 \<le> channels \<and> channels \<le> 6")
  case True
  obtain d where d: "dst_decoder_new channels rate = Inr d" "dd_channel_count d = channels"
      "dd_rate d = rate"
    using dst_decoder_new_value True by simp
  have "dst_decoder_inv d" using dst_decoder_new_inv[OF d(1)] .
  then show ?thesis
    using d dsd_frame_bytes_value[of d] dst_interleaved_frame_len_value[of channels rate] True
    by (auto simp: dst_decoder_inv_def)
next
  case False
  then show ?thesis
    by (auto simp: dst_decoder_new_def validate_channel_count_def dst_interleaved_frame_len_for_rate_def
        enc_validate_channel_count_def is_legal_dst_channel_count_def)
qed

end
