(* ===== verification/DstSyntax.thy ===== *)
theory DstSyntax
  imports DstGeometry
begin

text \<open>
  The compressed-frame syntax of \<open>dst/decoder.rs\<close>: segment tables (\<open>SegmentData\<close>),
  the cursors that walk them, table mappings, coefficient tables with their Rice codes, and
  \<open>CompressedSyntax::read\<close>. Fixed-size arrays are lists of that size; a write through two
  indices is \<open>upd2\<close>. The lemmas give the invariants of what each reader accepts
  (table numbers in range, segments that tile the frame, coefficients in range).
\<close>

subsection \<open>Two-dimensional arrays and widths\<close>

definition upd2 :: "'a list list \<Rightarrow> nat \<Rightarrow> nat \<Rightarrow> 'a \<Rightarrow> 'a list list" where
  "upd2 m i j v = m[i := (m ! i)[j := v]]"

abbreviation at2 :: "'a list list \<Rightarrow> nat \<Rightarrow> nat \<Rightarrow> 'a" where
  "at2 m i j \<equiv> m ! i ! j"

definition shape :: "nat \<Rightarrow> nat \<Rightarrow> 'a list list \<Rightarrow> bool" where
  "shape n k m \<longleftrightarrow> length m = n \<and> (\<forall>row \<in> set m. length row = k)"

lemma shape_upd2 [simp, intro]: "shape n k m \<Longrightarrow> shape n k (upd2 m i j v)"
  by (cases "i < length m")
    (auto simp: shape_def upd2_def list_update_beyond dest!: set_update_subset_insert[THEN subsetD])

lemma shape_replicate [simp]: "shape n k (replicate n (replicate k v))"
  by (simp add: shape_def)

lemma at2_upd2:
  "shape n k m \<Longrightarrow> i < n \<Longrightarrow> j < k \<Longrightarrow>
     at2 (upd2 m i j v) i' j' = (if i' = i \<and> j' = j then v else at2 m i' j')"
  by (auto simp: upd2_def shape_def nth_list_update)

text \<open>The least \<open>y\<close> with \<open>x < 2 ^ y\<close>; the code computes \<open>1u32 << y\<close>, so its argument is below
  \<open>2 ^ 31\<close>, which every caller's is.\<close>

function log2_round_up_from :: "nat \<Rightarrow> nat \<Rightarrow> nat" where
  "log2_round_up_from x y = (if 2 ^ y \<le> x then log2_round_up_from x (y + 1) else y)"
  by pat_completeness auto
termination
  by (relation "measure (\<lambda>(x, y). x + 1 - y)") (auto dest!: order_less_le_trans[OF less_exp])

declare log2_round_up_from.simps [simp del]

definition log2_round_up :: "nat \<Rightarrow> nat" where
  "log2_round_up x = log2_round_up_from x 0"

subsection \<open>Segment tables\<close>

record segment_data =
  sd_resolution :: nat
  sd_count :: "nat list"
  sd_len :: "nat list list"
  sd_table :: "nat list list"

definition segment_data_default :: segment_data where
  "segment_data_default = \<lparr>sd_resolution = 1, sd_count = replicate 6 1,
     sd_len = replicate 6 (replicate 8 0), sd_table = replicate 6 (replicate 8 0)\<rparr>"

text \<open>The resolution is read once, before the first explicit segment length.\<close>

definition read_resolution ::
  "nat \<Rightarrow> nat \<Rightarrow> segment_data \<Rightarrow> bit_reader \<Rightarrow> dst_error + segment_data \<times> bit_reader" where
  "read_resolution frame_bytes min_segment_bits d r =
     res_bind (ok_or (InvalidSegment ''invalid segment resolution bound'')
                (checked_sub frame_bytes (min_segment_bits div 8)))
       (\<lambda>max_resolution. res_bind (read_bits (log2_round_up max_resolution) r)
       (\<lambda>(resolution, r).
         if resolution = 0 \<or> resolution > max_resolution then
           Inl (InvalidSegment ''invalid segment resolution'')
         else Inr (d\<lparr>sd_resolution := resolution\<rparr>, r)))"

text \<open>One explicit segment: its length in units, checked against the rest of the frame.\<close>

definition read_segment_len ::
  "nat \<Rightarrow> nat \<Rightarrow> nat \<Rightarrow> nat \<Rightarrow> segment_data \<Rightarrow> bit_reader \<Rightarrow>
     dst_error + (nat \<times> nat \<times> nat) \<times> bit_reader" where
  "read_segment_len frame_bytes min_segment_bits defined_bits max_segment_bytes d r =
     res_bind (ok_or (InvalidSegment ''invalid segment unit divisor'')
                (checked_div max_segment_bytes (sd_resolution d))) (\<lambda>max_units.
     res_bind (read_bits (log2_round_up max_units) r) (\<lambda>(len_units, r).
     res_bind (ok_or (InvalidSegment ''segment length overflow'')
                (Option.bind (checked_mul64 (sd_resolution d) 8) (\<lambda>n. checked_mul64 n len_units)))
       (\<lambda>len_bits.
     res_bind (ok_or (InvalidSegment ''segment exceeds frame length'')
                (Option.bind (checked_mul64 frame_bytes 8)
                  (\<lambda>n. Option.bind (checked_sub n defined_bits) (\<lambda>n. checked_sub n min_segment_bits))))
       (\<lambda>remaining_after.
       if len_bits < min_segment_bits \<or> len_bits > remaining_after then
         Inl (InvalidSegment ''invalid segment length'')
       else
     res_bind (ok_or (InvalidSegment ''defined segment bits overflow'')
                (checked_add64 defined_bits len_bits)) (\<lambda>defined_bits.
     res_bind (ok_or (InvalidSegment ''segment byte length overflow'')
                (checked_mul64 (sd_resolution d) len_units)) (\<lambda>n.
     res_bind (ok_or (InvalidSegment ''segment byte budget underflow'')
                (checked_sub max_segment_bytes n)) (\<lambda>max_segment_bytes.
       Inr ((len_units, defined_bits, max_segment_bytes), r))))))))"

function read_segments_loop ::
  "nat \<Rightarrow> nat \<Rightarrow> nat \<Rightarrow> nat \<Rightarrow> nat \<Rightarrow> nat \<Rightarrow> nat \<Rightarrow> bool \<Rightarrow> segment_data \<Rightarrow> bit_reader \<Rightarrow>
     dst_error + segment_data \<times> bit_reader" where
  "read_segments_loop ch frame_bytes max_segments min_bits defined max_bytes idx res_read d r =
     res_bind (read_bit r) (\<lambda>(end_of_channel, r).
       if end_of_channel \<noteq> 0 then
         res_bind (ok_or (InvalidSegment ''segment count overflow'') (checked_add64 idx 1)) (\<lambda>count.
           let d = d\<lparr>sd_count := (sd_count d)[ch := count], sd_len := upd2 (sd_len d) ch idx 0\<rparr>
           in Inr (if \<not> res_read then d\<lparr>sd_resolution := 1\<rparr> else d, r))
       else if idx + 1 \<ge> max_segments then Inl (InvalidSegment ''too many DST segments'')
       else
         res_bind (if res_read then Inr (d, r) else read_resolution frame_bytes min_bits d r) (\<lambda>(d, r).
         res_bind (read_segment_len frame_bytes min_bits defined max_bytes d r)
           (\<lambda>((len_units, defined, max_bytes), r).
             read_segments_loop ch frame_bytes max_segments min_bits defined max_bytes (idx + 1) True
               (d\<lparr>sd_len := upd2 (sd_len d) ch idx len_units\<rparr>) r)))"
  by pat_completeness auto
termination
  by (relation "measure (\<lambda>(_, _, max_segments, _, _, _, idx, _). max_segments - idx)") auto

declare read_segments_loop.simps [simp del]

definition read_one_channel_segments ::
  "nat \<Rightarrow> nat \<Rightarrow> nat \<Rightarrow> nat \<Rightarrow> segment_data \<times> bit_reader \<Rightarrow> dst_error + segment_data \<times> bit_reader" where
  "read_one_channel_segments frame_bytes max_segments min_segment_bits ch = (\<lambda>(d, r).
     res_bind (ok_or (InvalidSegment ''frame is shorter than minimum segment'')
                (checked_sub frame_bytes (min_segment_bits div 8)))
       (\<lambda>max_bytes.
         read_segments_loop ch frame_bytes max_segments min_segment_bits 0 max_bytes 0 False d r))"

definition share_first_channel :: "nat \<Rightarrow> segment_data \<Rightarrow> segment_data" where
  "share_first_channel channels d =
     fold (\<lambda>ch d.
       fold (\<lambda>seg d. d\<lparr>sd_len := upd2 (sd_len d) ch seg (at2 (sd_len d) 0 seg)\<rparr>)
         [0..<sd_count d ! 0] (d\<lparr>sd_count := (sd_count d)[ch := sd_count d ! 0]\<rparr>))
       [1..<channels] d"

definition segment_data_read ::
  "nat \<Rightarrow> nat \<Rightarrow> nat \<Rightarrow> nat \<Rightarrow> bit_reader \<Rightarrow> dst_error + (segment_data \<times> bool) \<times> bit_reader" where
  "segment_data_read channels frame_bytes max_segments min_segment_bits r =
     res_bind (read_bit r) (\<lambda>(same, r).
       if same \<noteq> 0 then
         res_bind (read_one_channel_segments frame_bytes max_segments min_segment_bits 0
                     (segment_data_default, r))
           (\<lambda>(d, r). Inr ((share_first_channel channels d, True), r))
       else
         res_bind (fold_res (read_one_channel_segments frame_bytes max_segments min_segment_bits)
                     [0..<channels] (segment_data_default, r))
           (\<lambda>(d, r). Inr ((d, False), r)))"

definition copy_from_filter_for_probability :: "segment_data \<Rightarrow> nat \<Rightarrow> dst_error + segment_data" where
  "copy_from_filter_for_probability fseg channels =
     res_bind (fold_res (\<lambda>ch. fold_res (\<lambda>seg _.
         let len_units = at2 (sd_len fseg) ch seg in
         if len_units \<noteq> 0 then
           res_bind (ok_or (InvalidSegment ''copied probability segment length overflow'')
                      (Option.bind (checked_mul64 (sd_resolution fseg) 8)
                        (\<lambda>n. checked_mul64 n len_units)))
             (\<lambda>len_bits.
               if len_bits < 32 then
                 Inl (InvalidSegment ''copied filter segment is too short for probability map'')
               else Inr ())
         else Inr ())
         [0..<sd_count fseg ! ch]) [0..<channels] ())
       (\<lambda>_. Inr fseg)"

definition copy_mapping_from_filter ::
  "segment_data \<Rightarrow> segment_data \<Rightarrow> nat \<Rightarrow> dst_error + segment_data" where
  "copy_mapping_from_filter fseg d channels =
     fold_res (\<lambda>ch d.
       if sd_count d ! ch \<noteq> sd_count fseg ! ch then
         Inl (InvalidMapping ''probability and filter segment counts differ'')
       else Inr (fold (\<lambda>seg d. d\<lparr>sd_table := upd2 (sd_table d) ch seg (at2 (sd_table fseg) ch seg)\<rparr>)
              [0..<sd_count d ! ch] d))
       [0..<channels] d"


subsection \<open>Walking the segments\<close>

datatype segment_kind = FilterSegments | ProbabilitySegments

fun undefined_table_message :: "segment_kind \<Rightarrow> string" where
  "undefined_table_message FilterSegments = ''filter segment references undefined table''"
| "undefined_table_message ProbabilitySegments = ''probability segment references undefined table''"

definition segment_len_bits :: "segment_data \<Rightarrow> nat \<Rightarrow> nat \<Rightarrow> dst_error + nat" where
  "segment_len_bits d ch seg =
     ok_or (InvalidSegment ''expanded segment length overflow'')
       (Option.bind (checked_mul64 (sd_resolution d) 8) (\<lambda>n. checked_mul64 n (at2 (sd_len d) ch seg)))"

definition segment_end_from_start ::
  "segment_data \<Rightarrow> nat \<Rightarrow> nat \<Rightarrow> nat \<Rightarrow> nat \<Rightarrow> nat \<Rightarrow> dst_error + nat" where
  "segment_end_from_start d ch seg segment_count start bits_per_channel =
     (if seg + 1 = segment_count then Inr bits_per_channel
      else res_bind (segment_len_bits d ch seg)
        (\<lambda>n. ok_or (InvalidSegment ''expanded segment boundary overflow'') (checked_add64 start n)))"

definition validate_channel_mapping ::
  "segment_data \<Rightarrow> nat \<Rightarrow> nat \<Rightarrow> segment_kind \<Rightarrow> nat \<Rightarrow> dst_error + unit" where
  "validate_channel_mapping d bits_per_channel table_count kind ch =
     (let count = sd_count d ! ch in
      if count = 0 \<or> count > 8 then Inl (InvalidSegment ''invalid segment count'')
      else
        res_bind (fold_res (\<lambda>seg start.
            if at2 (sd_table d) ch seg \<ge> table_count then
              Inl (InvalidMapping (undefined_table_message kind))
            else
              res_bind (segment_end_from_start d ch seg count start bits_per_channel)
                (\<lambda>end'. if end' > bits_per_channel \<or> end' < start then
                          Inl (InvalidSegment ''segment boundary exceeds frame'')
                        else Inr end'))
            [0..<count] 0)
          (\<lambda>start. if start \<noteq> bits_per_channel then
                     Inl (InvalidSegment ''segments do not cover frame'')
                   else Inr ()))"

definition validate_decode_mapping ::
  "segment_data \<Rightarrow> nat \<Rightarrow> nat \<Rightarrow> nat \<Rightarrow> segment_kind \<Rightarrow> dst_error + unit" where
  "validate_decode_mapping d channels bits_per_channel table_count kind =
     fold_res (\<lambda>ch _. validate_channel_mapping d bits_per_channel table_count kind ch)
       [0..<channels] ()"

record segment_cursor =
  sc_index :: nat
  sc_start :: nat
  sc_end :: nat

definition segment_cursor_default :: segment_cursor where
  "segment_cursor_default = \<lparr>sc_index = 0, sc_start = 0, sc_end = 0\<rparr>"

definition cursor_set_new ::
  "segment_data \<Rightarrow> nat \<Rightarrow> nat \<Rightarrow> nat \<Rightarrow> segment_kind \<Rightarrow> dst_error + segment_cursor list" where
  "cursor_set_new d channels bits_per_channel table_count kind =
     res_bind (validate_decode_mapping d channels bits_per_channel table_count kind)
       (\<lambda>_. fold_res (\<lambda>ch cs.
           res_bind (segment_end_from_start d ch 0 (sd_count d ! ch) 0 bits_per_channel)
             (\<lambda>end'. Inr (cs[ch := (cs ! ch)\<lparr>sc_end := end'\<rparr>])))
         [0..<channels] (replicate 6 segment_cursor_default))"

text \<open>The \<open>while\<close> loop of \<open>table_for_bit\<close> moves the cursor to the segment of a bit.\<close>

function cursor_seek ::
  "segment_data \<Rightarrow> nat \<Rightarrow> nat \<Rightarrow> nat \<Rightarrow> nat \<Rightarrow> segment_cursor \<Rightarrow> dst_error + segment_cursor" where
  "cursor_seek d ch bit_index bits_per_channel count c =
     (if bit_index \<ge> sc_end c \<and> sc_index c + 1 < count then
        res_bind (segment_end_from_start d ch (sc_index c + 1) count (sc_end c) bits_per_channel)
          (\<lambda>end'. cursor_seek d ch bit_index bits_per_channel count
                   \<lparr>sc_index = sc_index c + 1, sc_start = sc_end c, sc_end = end'\<rparr>)
      else Inr c)"
  by pat_completeness auto
termination
  by (relation "measure (\<lambda>(_, _, _, _, count, c). count - sc_index c)") auto

declare cursor_seek.simps [simp del]

definition table_for_bit ::
  "segment_data \<Rightarrow> nat \<Rightarrow> nat \<Rightarrow> nat \<Rightarrow> nat \<Rightarrow> segment_kind \<Rightarrow> segment_cursor list \<Rightarrow>
     dst_error + nat \<times> segment_cursor list" where
  "table_for_bit d ch bit_index bits_per_channel table_count kind cs =
     res_bind (cursor_seek d ch bit_index bits_per_channel (sd_count d ! ch) (cs ! ch)) (\<lambda>c.
       if bit_index < sc_start c \<or> bit_index \<ge> sc_end c then
         Inl (InvalidSegment ''segments do not cover frame'')
       else
         let table = at2 (sd_table d) ch (sc_index c) in
         if table \<ge> table_count then Inl (InvalidMapping (undefined_table_message kind))
         else Inr (table, cs[ch := c]))"

subsection \<open>Table mappings\<close>

definition read_table_number :: "nat \<Rightarrow> bit_reader \<Rightarrow> dst_error + nat \<times> bit_reader" where
  "read_table_number count_tables r = read_bits (log2_round_up count_tables) r"

text \<open>One entry of the map: a number below the count so far, or the next new table.\<close>

definition read_map_entry ::
  "nat \<Rightarrow> nat \<Rightarrow> (nat \<times> segment_data) \<times> bit_reader \<Rightarrow> dst_error + (nat \<times> segment_data) \<times> bit_reader" where
  "read_map_entry ch seg = (\<lambda>((count_tables, d), r).
     res_bind (read_table_number count_tables r) (\<lambda>(v, r).
       let d = d\<lparr>sd_table := upd2 (sd_table d) ch seg v\<rparr> in
       if v = count_tables then
         res_bind (ok_or (InvalidMapping ''table count overflow'') (checked_add64 count_tables 1))
           (\<lambda>count_tables. Inr ((count_tables, d), r))
       else if v > count_tables then Inl (InvalidMapping ''invalid table number'')
       else Inr ((count_tables, d), r)))"

definition share_first_mapping :: "nat \<Rightarrow> segment_data \<Rightarrow> dst_error + segment_data" where
  "share_first_mapping channels d =
     fold_res (\<lambda>ch d.
       if sd_count d ! ch \<noteq> sd_count d ! 0 then
         Inl (InvalidMapping ''shared mapping with different per-channel segment counts'')
       else Inr (fold (\<lambda>seg d. d\<lparr>sd_table := upd2 (sd_table d) ch seg (at2 (sd_table d) 0 seg)\<rparr>)
              [0..<sd_count d ! 0] d))
       [1..<channels] d"

definition read_table_mapping_data ::
  "nat \<Rightarrow> nat \<Rightarrow> segment_data \<Rightarrow> bit_reader \<Rightarrow> dst_error + (nat \<times> segment_data) \<times> bit_reader" where
  "read_table_mapping_data channels max_table_count d r =
     (let d = d\<lparr>sd_table := upd2 (sd_table d) 0 0 0\<rparr> in
      res_bind (read_bit r) (\<lambda>(same, r).
      res_bind
        (if same \<noteq> 0 then
           res_bind (fold_res (\<lambda>seg. read_map_entry 0 seg) [1..<sd_count d ! 0] ((1, d), r))
             (\<lambda>((count_tables, d), r).
               res_bind (share_first_mapping channels d) (\<lambda>d. Inr ((count_tables, d), r)))
         else
           fold_res (\<lambda>ch s. fold_res (\<lambda>seg s. if ch = 0 \<and> seg = 0 then Inr s else read_map_entry ch seg s)
               [0..<sd_count d ! ch] s)
             [0..<channels] ((1, d), r))
        (\<lambda>((count_tables, d), r).
          if count_tables = 0 \<or> count_tables > max_table_count \<or> count_tables > 12 then
            Inl (InvalidMapping ''too many DST tables'')
          else Inr ((count_tables, d), r))))"

subsection \<open>Coefficient tables\<close>

record coeff_table =
  ct_elements :: nat
  ct_length :: "nat list"
  ct_coeff :: "int list list"

definition coeff_table_default :: coeff_table where
  "coeff_table_default = \<lparr>ct_elements = 1, ct_length = replicate 12 0,
     ct_coeff = replicate 12 (replicate 128 0)\<rparr>"

definition fsets_code_pred_coeff :: "int list list" where
  "fsets_code_pred_coeff = [[-8, 0, 0], [-16, 8, 0], [-9, -5, 6]]"

definition probs_code_pred_coeff :: "int list list" where
  "probs_code_pred_coeff = [[-8, 0, 0], [-16, 8, 0], [-24, 24, -8]]"

definition read_uncoded_coeff ::
  "nat \<Rightarrow> bool \<Rightarrow> int \<Rightarrow> bit_reader \<Rightarrow> dst_error + int \<times> bit_reader" where
  "read_uncoded_coeff coeff_bits is_signed offset r =
     (if is_signed then read_signed coeff_bits r
      else res_bind (read_bits coeff_bits r) (\<lambda>(v, r). Inr (int v + offset, r)))"

definition validate_coeff :: "int \<Rightarrow> nat \<Rightarrow> bool \<Rightarrow> int \<Rightarrow> dst_error + unit" where
  "validate_coeff coeff coeff_bits is_signed offset =
     (if is_signed then
        let mn = - (2 ^ (coeff_bits - 1)); mx = 2 ^ (coeff_bits - 1) - 1 in
        if coeff < mn \<or> coeff > mx then Inl (MalformedFrame ''signed coefficient out of range'')
        else Inr ()
      else
        let mn = offset; mx = offset + 2 ^ coeff_bits - 1 in
        if coeff < mn \<or> coeff > mx then
          Inl (InvalidProbabilityTable ''probability coefficient out of range'')
        else Inr ())"

text \<open>The unary prefix of a Rice code, with its runaway limit.\<close>

function read_rice_prefix :: "nat \<Rightarrow> bit_reader \<Rightarrow> dst_error + nat \<times> bit_reader" where
  "read_rice_prefix prefix r =
     res_bind (read_bit r) (\<lambda>(b, r).
       if b = 0 then
         if prefix + 1 > 1000000 then Inl (MalformedFrame ''runaway Rice code'')
         else read_rice_prefix (prefix + 1) r
       else Inr (prefix, r))"
  by pat_completeness auto
termination
  by (relation "measure (\<lambda>(prefix, _). 1000000 - prefix)") auto

declare read_rice_prefix.simps [simp del]

definition get_sr_golomb_dst :: "nat \<Rightarrow> bit_reader \<Rightarrow> dst_error + int \<times> bit_reader" where
  "get_sr_golomb_dst k r =
     (if k > 30 then Inl (MalformedFrame ''Rice code width too large'')
      else
        res_bind (read_rice_prefix 0 r) (\<lambda>(prefix, r).
        res_bind (read_bits k r) (\<lambda>(low, r).
          let v = sint (push_bit k (word_of_nat prefix :: 32 word)) + int low in
          if v \<noteq> 0 then res_bind (read_bit r) (\<lambda>(s, r). Inr (if s \<noteq> 0 then - v else v, r))
          else Inr (v, r))))"


text \<open>The prediction of a coefficient from the ones before it, rounded to the nearest multiple
  of an eighth, as the two branches of the code round it.\<close>

definition predicted_sum :: "int list list \<Rightarrow> nat \<Rightarrow> nat \<Rightarrow> int list \<Rightarrow> nat \<Rightarrow> int" where
  "predicted_sum preds meth warmup row idx =
     fold (\<lambda>tap acc. acc + at2 preds meth tap * row ! (idx - tap - 1)) [0..<warmup] 0"

definition apply_prediction :: "int \<Rightarrow> int \<Rightarrow> int" where
  "apply_prediction predicted coeff =
     (if predicted \<ge> 0 then coeff - (predicted + 4) div 8 else coeff + (- predicted + 3) div 8)"

definition read_uncoded_range ::
  "nat \<Rightarrow> nat \<Rightarrow> nat \<Rightarrow> bool \<Rightarrow> int \<Rightarrow> int list \<times> bit_reader \<Rightarrow> dst_error + int list \<times> bit_reader" where
  "read_uncoded_range start stop coeff_bits is_signed offset =
     fold_res (\<lambda>idx (row, r).
       res_bind (read_uncoded_coeff coeff_bits is_signed offset r)
         (\<lambda>(v, r). Inr (row[idx := v], r)))
       [start..<stop]"

definition read_predicted_range ::
  "int list list \<Rightarrow> nat \<Rightarrow> nat \<Rightarrow> nat \<Rightarrow> nat \<Rightarrow> bool \<Rightarrow> int \<Rightarrow> int list \<times> bit_reader \<Rightarrow>
     dst_error + int list \<times> bit_reader" where
  "read_predicted_range preds meth lsb_size stop coeff_bits is_signed offset = (\<lambda>(row, r).
     fold_res (\<lambda>idx (row, r).
       let predicted = predicted_sum preds meth (meth + 1) row idx in
       res_bind (get_sr_golomb_dst lsb_size r) (\<lambda>(coeff, r).
         let coeff = apply_prediction predicted coeff in
         res_bind (validate_coeff coeff coeff_bits is_signed offset)
           (\<lambda>_. Inr (row[idx := coeff], r))))
       [meth + 1..<stop] (row, r))"

definition read_coeff_row ::
  "int list list \<Rightarrow> nat \<Rightarrow> nat \<Rightarrow> bool \<Rightarrow> int \<Rightarrow> int list \<Rightarrow> bit_reader \<Rightarrow>
     dst_error + int list \<times> bit_reader" where
  "read_coeff_row preds len coeff_bits is_signed offset row r =
     res_bind (read_bit r) (\<lambda>(coded, r).
       if coded = 0 then read_uncoded_range 0 len coeff_bits is_signed offset (row, r)
       else
         res_bind (read_bits 2 r) (\<lambda>(meth, r).
           if meth \<ge> length preds then Inl (MalformedFrame ''invalid coefficient predictor'')
           else if meth + 1 \<ge> len then
             Inl (MalformedFrame ''coefficient predictor exceeds table length'')
           else
             res_bind (read_uncoded_range 0 (meth + 1) coeff_bits is_signed offset (row, r))
               (\<lambda>(row, r). res_bind (read_bits 3 r) (\<lambda>(lsb_size, r).
                 read_predicted_range preds meth lsb_size len coeff_bits is_signed offset (row, r)))))"

text \<open>The loop that checks the probability coefficients and the loop that clears the tail.\<close>

definition check_probability_row :: "bool \<Rightarrow> nat \<Rightarrow> int list \<Rightarrow> dst_error + unit" where
  "check_probability_row is_signed len row =
     (if \<not> is_signed \<and> (\<exists>idx \<in> set [0..<len]. \<not> (1 \<le> row ! idx \<and> row ! idx \<le> 128)) then
        Inl (InvalidProbabilityTable ''probability coefficient out of range'')
      else Inr ())"

definition clear_tail :: "nat \<Rightarrow> int list \<Rightarrow> int list" where
  "clear_tail len row = fold (\<lambda>idx row. row[idx := 0]) [len..<128] row"

definition read_table_element ::
  "int list list \<Rightarrow> nat \<Rightarrow> nat \<Rightarrow> bool \<Rightarrow> int \<Rightarrow> nat \<Rightarrow> coeff_table \<times> bit_reader \<Rightarrow>
     dst_error + coeff_table \<times> bit_reader" where
  "read_table_element preds length_bits coeff_bits is_signed offset element = (\<lambda>(t, r).
     res_bind (read_bits length_bits r) (\<lambda>(n, r).
       let len = n + 1 in
       if len > 128 then
         Inl (if is_signed then MalformedFrame ''filter table length too large''
              else InvalidProbabilityTable ''probability table length too large'')
       else
         res_bind (read_coeff_row preds len coeff_bits is_signed offset (ct_coeff t ! element) r)
           (\<lambda>(row, r). res_bind (check_probability_row is_signed len row)
             (\<lambda>_. Inr (t\<lparr>ct_length := (ct_length t)[element := len],
                          ct_coeff := (ct_coeff t)[element := clear_tail len row]\<rparr>, r)))))"

definition read_table ::
  "coeff_table \<Rightarrow> int list list \<Rightarrow> nat \<Rightarrow> nat \<Rightarrow> bool \<Rightarrow> int \<Rightarrow> bit_reader \<Rightarrow>
     dst_error + coeff_table \<times> bit_reader" where
  "read_table t preds length_bits coeff_bits is_signed offset r =
     (if ct_elements t = 0 \<or> ct_elements t > 12 then
        Inl (InvalidMapping ''invalid table element count'')
      else fold_res (read_table_element preds length_bits coeff_bits is_signed offset)
             [0..<ct_elements t] (t, r))"

subsection \<open>The compressed header\<close>

record compressed_syntax =
  cs_filter_segments :: segment_data
  cs_probability_segments :: segment_data
  cs_filter_tables :: coeff_table
  cs_probability_tables :: coeff_table
  cs_half_probability :: "bool list"
  cs_half_probability_bits :: "nat list"

definition read_half_probability ::
  "nat \<Rightarrow> bit_reader \<Rightarrow> dst_error + bool list \<times> bit_reader" where
  "read_half_probability channels r =
     fold_res (\<lambda>ch (hp, r). res_bind (read_bit r) (\<lambda>(b, r). Inr (hp[ch := (b \<noteq> 0)], r)))
       [0..<channels] (replicate 6 False, r)"

definition half_probability_bits ::
  "nat \<Rightarrow> segment_data \<Rightarrow> coeff_table \<Rightarrow> dst_error + nat list" where
  "half_probability_bits channels fseg ft =
     fold_res (\<lambda>ch bits.
       let table = at2 (sd_table fseg) ch 0 in
       if table \<ge> ct_elements ft then
         Inl (InvalidMapping ''half-probability filter table reference is invalid'')
       else Inr (bits[ch := ct_length ft ! table]))
       [0..<channels] (replicate 6 0)"

definition compressed_segments_read ::
  "nat \<Rightarrow> nat \<Rightarrow> bit_reader \<Rightarrow> dst_error + (segment_data \<times> segment_data) \<times> bit_reader" where
  "compressed_segments_read channels frame_bytes r =
     res_bind (read_bit r) (\<lambda>(same_segments, r).
     res_bind (segment_data_read channels frame_bytes 4 1024 r) (\<lambda>((fseg, _), r).
     if same_segments \<noteq> 0 then
       res_bind (copy_from_filter_for_probability fseg channels) (\<lambda>pseg. Inr ((fseg, pseg), r))
     else
       res_bind (segment_data_read channels frame_bytes 8 32 r)
         (\<lambda>((pseg, _), r). Inr ((fseg, pseg), r))))"

definition compressed_mapping_read ::
  "nat \<Rightarrow> segment_data \<Rightarrow> segment_data \<Rightarrow> bit_reader \<Rightarrow>
     dst_error + (nat \<times> segment_data \<times> nat \<times> segment_data) \<times> bit_reader" where
  "compressed_mapping_read channels fseg pseg r =
     res_bind (read_bit r) (\<lambda>(same_map, r).
     res_bind (read_table_mapping_data channels (2 * channels) fseg r) (\<lambda>((fcount, fseg), r).
     if same_map \<noteq> 0 then
       res_bind (copy_mapping_from_filter fseg pseg channels)
         (\<lambda>pseg. Inr ((fcount, fseg, fcount, pseg), r))
     else
       res_bind (read_table_mapping_data channels (2 * channels) pseg r)
         (\<lambda>((pcount, pseg), r). Inr ((fcount, fseg, pcount, pseg), r))))"

definition compressed_syntax_read ::
  "nat \<Rightarrow> nat \<Rightarrow> bit_reader \<Rightarrow> dst_error + compressed_syntax \<times> bit_reader" where
  "compressed_syntax_read channels frame_bytes r =
     res_bind (compressed_segments_read channels frame_bytes r) (\<lambda>((fseg, pseg), r).
     res_bind (compressed_mapping_read channels fseg pseg r) (\<lambda>((fcount, fseg, pcount, pseg), r).
     res_bind (read_half_probability channels r) (\<lambda>(hp, r).
     res_bind (read_table (coeff_table_default\<lparr>ct_elements := fcount\<rparr>)
                 fsets_code_pred_coeff 7 9 True 0 r) (\<lambda>(ft, r).
     res_bind (read_table (coeff_table_default\<lparr>ct_elements := pcount\<rparr>)
                 probs_code_pred_coeff 6 7 False 1 r) (\<lambda>(pt, r).
     res_bind (half_probability_bits channels fseg ft) (\<lambda>hp_bits.
       Inr (\<lparr>cs_filter_segments = fseg, cs_probability_segments = pseg, cs_filter_tables = ft,
              cs_probability_tables = pt, cs_half_probability = hp,
              cs_half_probability_bits = hp_bits\<rparr>, r)))))))"

subsection \<open>Filter lookup tables and the history of a channel\<close>

text \<open>The sum over the taps of one byte of history: a set bit adds its coefficient, a clear bit
  subtracts it. The \<open>as i16\<close> cast wraps.\<close>

definition as_i16 :: "int \<Rightarrow> int" where
  "as_i16 x = sint (word_of_int x :: 16 word)"

definition filter_total :: "int list \<Rightarrow> nat \<Rightarrow> nat \<Rightarrow> nat \<Rightarrow> int" where
  "filter_total coeffs base available history =
     fold (\<lambda>b total. total + (if odd (history div 2 ^ b) then 1 else -1) * coeffs ! (base + b))
       [0..<available] 0"

text \<open>\<open>build_filters\<close>, elements at or past \<open>elements\<close> staying zero.\<close>

definition build_filters :: "coeff_table \<Rightarrow> int list list list" where
  "build_filters t = map (\<lambda>element. map (\<lambda>tap. map (\<lambda>history.
       if element < ct_elements t then
         as_i16 (filter_total (ct_coeff t ! element) (tap * 8)
                   (min (ct_length t ! element - tap * 8) 8) history)
       else 0) [0..<256]) [0..<16]) [0..<12]"

definition push_status_bit :: "nat \<Rightarrow> u8 list \<Rightarrow> u8 list" where
  "push_status_bit b status =
     fst (fold (\<lambda>byte (out, carry). (out @ [push_bit 1 byte OR carry], drop_bit 7 byte AND 1))
       status ([], word_of_nat b AND 1))"

end
