(* ===== verification/DstArith.thy ===== *)
theory DstArith
  imports DstBits
begin

text \<open>
  The adaptive binary arithmetic coder of DST: \<open>ArithmeticBitEncoder\<close> of
  \<open>dst/encoder.rs\<close> and \<open>ArithmeticCoder\<close> of \<open>dst/decoder.rs\<close>, with the table
  helpers of \<open>dst/tables.rs\<close> they use. The encoder keeps an interval of width \<open>a\<close>
  above \<open>c\<close> and delays the bits a carry can still change; \<open>enc_low\<close> is the exact lower end of the
  interval the encoder has reached, \<open>enc_len\<close> the number of bits fixed so far.
  The lemmas show that every step nests the interval, that a carry never
  runs out of bits, that renormalisation terminates, and that the decoder, fed any number inside
  the final interval, makes the same decisions. The counter of pending ones is a \<open>u32\<close> in the code and a
  natural number here: it never exceeds the number of bits shifted out for the frame, far below \<open>2 ^ 32\<close>.
\<close>

subsection \<open>The encoder\<close>

record arith_enc =
  ae_a :: nat
  ae_c :: nat
  ae_bits :: "nat list"
  ae_pending_bit :: nat
  ae_pending_ones :: nat
  ae_has_pending :: bool

definition arith_enc_new :: arith_enc where
  "arith_enc_new = \<lparr>ae_a = 4096 - 1, ae_c = 0, ae_bits = [], ae_pending_bit = 0,
     ae_pending_ones = 0, ae_has_pending = False\<rparr>"

text \<open>\<open>propagate_carry\<close> walks from the last bit to the first; here over the reversed list.\<close>

fun propagate_carry_from_end :: "nat list \<Rightarrow> nat list" where
  "propagate_carry_from_end [] = [1]"
| "propagate_carry_from_end (b # bs) =
     (if b = 0 then 1 # bs else 0 # propagate_carry_from_end bs)"

definition propagate_carry :: "nat list \<Rightarrow> nat list" where
  "propagate_carry bits = rev (propagate_carry_from_end (rev bits))"

definition flush_pending :: "arith_enc \<Rightarrow> arith_enc" where
  "flush_pending e =
     (if \<not> ae_has_pending e then e
      else e\<lparr>ae_bits := ae_bits e @ [ae_pending_bit e] @ replicate (ae_pending_ones e) 1,
             ae_has_pending := False, ae_pending_ones := 0\<rparr>)"

definition emit_bit :: "nat \<Rightarrow> arith_enc \<Rightarrow> arith_enc" where
  "emit_bit b e =
     (if \<not> ae_has_pending e then
        e\<lparr>ae_pending_bit := b, ae_pending_ones := 0, ae_has_pending := True\<rparr>
      else if b = 1 then e\<lparr>ae_pending_ones := ae_pending_ones e + 1\<rparr>
      else (flush_pending e)\<lparr>ae_pending_bit := 0, ae_pending_ones := 0, ae_has_pending := True\<rparr>)"

definition apply_carry :: "arith_enc \<Rightarrow> arith_enc" where
  "apply_carry e =
     (if \<not> ae_has_pending e then e\<lparr>ae_bits := propagate_carry (ae_bits e)\<rparr>
      else
        let ones = ae_pending_ones e;
            bits = (if ae_pending_bit e = 0 then ae_bits e @ [1] @ replicate ones 0
                    else propagate_carry (ae_bits e) @ [0] @ replicate ones 0)
        in e\<lparr>ae_bits := bits, ae_has_pending := False, ae_pending_ones := 0\<rparr>)"

definition shift_out :: "arith_enc \<Rightarrow> arith_enc" where
  "shift_out e =
     (let e = (if ae_c e \<ge> 4096 then apply_carry (e\<lparr>ae_c := ae_c e - 4096\<rparr>) else e);
          b = drop_bit (12 - 1) (ae_c e) AND 1;
          e = emit_bit b e
      in e\<lparr>ae_c := push_bit 1 (ae_c e) AND (4096 - 1)\<rparr>)"

text \<open>The renormalisation loop \<open>while a < ARITHMETIC_HALF\<close>; it would spin on \<open>a = 0\<close>.\<close>

partial_function (option) enc_renorm :: "arith_enc \<Rightarrow> arith_enc option" where
  "enc_renorm e =
     (if ae_a e < 2048 then enc_renorm ((shift_out e)\<lparr>ae_a := push_bit 1 (ae_a e)\<rparr>) else Some e)"

definition arith_k :: "nat \<Rightarrow> nat" where
  "arith_k a = drop_bit 8 a OR (drop_bit 7 a AND 1)"

definition encode_bit :: "nat \<Rightarrow> nat \<Rightarrow> arith_enc \<Rightarrow> arith_enc option" where
  "encode_bit b probability_zero e =
     (let k = arith_k (ae_a e);
          q = k * probability_zero;
          a_minus_q = ae_a e - q;
          e = (if b = 0 then e\<lparr>ae_c := ae_c e + a_minus_q, ae_a := q\<rparr>
               else e\<lparr>ae_a := a_minus_q\<rparr>)
      in enc_renorm e)"

definition enc_finish :: "arith_enc \<Rightarrow> nat list" where
  "enc_finish e = ae_bits (flush_pending ((shift_out ^^ 12) e))"

subsection \<open>The decoder\<close>

record arith_dec =
  ad_a :: nat
  ad_c :: nat

definition arith_dec_new :: "bit_reader \<Rightarrow> dst_error + arith_dec \<times> bit_reader" where
  "arith_dec_new r =
     res_bind (read_bits 12 (enable_zero_padding_after_eof r))
       (\<lambda>(c, r). Inr (\<lparr>ad_a = 4096 - 1, ad_c = c\<rparr>, r))"

definition log2_floor_u32 :: "nat \<Rightarrow> nat" where
  "log2_floor_u32 v = 32 - 1 - (32 - bit_len v)"

definition arith_get ::
  "int \<Rightarrow> arith_dec \<times> bit_reader \<Rightarrow> dst_error + nat \<times> arith_dec \<times> bit_reader" where
  "arith_get probability = (\<lambda>(d, r).
     if \<not> (1 \<le> probability \<and> probability \<le> 128) then
       Inl (InvalidProbabilityTable ''invalid arithmetic probability'')
     else
       let p = nat probability;
           k = arith_k (ad_a d)
       in res_bind (ok_or (ArithmeticDecodeFailure ''arithmetic probability product overflow'')
                     (checked_mul32 k p))
         (\<lambda>q. res_bind (ok_or (ArithmeticDecodeFailure ''arithmetic coder interval underflow'')
                          (checked_sub (ad_a d) q))
         (\<lambda>a_minus_q.
           let (b, d) = (if ad_c d < a_minus_q then (1, d\<lparr>ad_a := a_minus_q\<rparr>)
                         else (0, d\<lparr>ad_a := q, ad_c := ad_c d - a_minus_q\<rparr>))
           in if ad_a d = 0 then
                Inl (ArithmeticDecodeFailure ''arithmetic coder interval collapsed'')
              else if ad_a d < 2048 then
                let n = 11 - log2_floor_u32 (ad_a d)
                in res_bind (ok_or (ArithmeticDecodeFailure ''arithmetic interval shift overflow'')
                              (checked_shl32 (ad_a d) n))
                  (\<lambda>a. res_bind (ok_or (ArithmeticDecodeFailure ''arithmetic code shift overflow'')
                                   (checked_shl32 (ad_c d) n))
                  (\<lambda>c. res_bind (read_bits n r)
                  (\<lambda>(v, r). Inr (b, \<lparr>ad_a = a, ad_c = c OR v\<rparr>, r))))
              else Inr (b, d, r))))"

text \<open>\<open>prob_dst_x_bit\<close>: the low seven bits reversed, plus one.\<close>

definition reverse_bits8 :: "nat \<Rightarrow> nat" where
  "reverse_bits8 v = num_of_bits (map (\<lambda>k. v div 2 ^ k mod 2) [0..<8])"

definition prob_dst_x_bit :: "int \<Rightarrow> int" where
  "prob_dst_x_bit coeff =
     (let low = nat (coeff AND 0x7f) in int (drop_bit 1 (reverse_bits8 low) + 1))"

subsection \<open>The interval split\<close>

lemma arith_k_value: "arith_k a = a div 256 + of_bool (even (a div 256) \<and> odd (a div 128))"
proof -
  have "drop_bit 7 a AND 1 = of_bool (odd (a div 128))"
    by (simp add: and_one_eq drop_bit_eq_div odd_iff_mod_2_eq_one)
  then show ?thesis
    by (simp add: arith_k_def drop_bit_eq_div or_one_eq or_Suc_0_eq)
qed

lemma arith_k_bounds:
  assumes "2048 \<le> a" and "a < 4096"
  shows "8 \<le> arith_k a" and "arith_k a \<le> 15"
proof -
  have "8 \<le> a div 256" and "a div 256 \<le> 15" using assms by auto
  moreover have "a div 256 = 15 \<Longrightarrow> odd (a div 256)" by simp
  ultimately show "8 \<le> arith_k a" and "arith_k a \<le> 15"
    by (auto simp: arith_k_value)
qed

lemma split_bounds:
  assumes "2048 \<le> a" and "a < 4096" and "1 \<le> p" and "p \<le> 128"
  shows "0 < arith_k a * p" and "arith_k a * p < a" and "arith_k a * p < 2048"
proof -
  have k: "8 \<le> arith_k a" "arith_k a \<le> 15" using arith_k_bounds assms by auto
  then show "0 < arith_k a * p" using assms(3) by simp
  have "arith_k a * p \<le> 15 * 128" using k assms(4) by (intro mult_le_mono)
  then show "arith_k a * p < 2048" and "arith_k a * p < a" using assms(1) by auto
qed

lemma reverse_bits8_even: "v < 128 \<Longrightarrow> reverse_bits8 v < 256"
  using num_of_bits_bound[of "map (\<lambda>k. v div 2 ^ k mod 2) [0..<8]"]
  by (simp add: reverse_bits8_def)

lemma prob_dst_x_bit_range: "1 \<le> prob_dst_x_bit c \<and> prob_dst_x_bit c \<le> 128"
proof -
  have "c AND 0x7f = c mod 128"
    using take_bit_eq_mask[of 7 c] by (simp add: mask_eq_exp_minus_1 take_bit_eq_mod)
  then have "nat (c AND 0x7f) < 128" by (simp add: nat_less_iff)
  then have "reverse_bits8 (nat (c AND 0x7f)) < 256" by (rule reverse_bits8_even)
  then show ?thesis by (simp add: prob_dst_x_bit_def drop_bit_eq_div Let_def)
qed


subsection \<open>What the encoder has fixed\<close>

text \<open>
  \<open>enc_flat\<close> is the bit string emitted so far with the delayed bits written out; a carry adds one
  to its value. \<open>enc_inv\<close> is the invariant every operation keeps: the interval stays
  below the end of the unit interval, so a carry never overflows the string.
\<close>

definition enc_flat :: "arith_enc \<Rightarrow> nat list" where
  "enc_flat e = ae_bits e
     @ (if ae_has_pending e then ae_pending_bit e # replicate (ae_pending_ones e) 1 else [])"

abbreviation enc_len :: "arith_enc \<Rightarrow> nat" where
  "enc_len e \<equiv> length (enc_flat e)"

definition enc_low :: "arith_enc \<Rightarrow> nat" where
  "enc_low e = num_of_bits (enc_flat e) * 4096 + ae_c e"

definition enc_inv :: "arith_enc \<Rightarrow> bool" where
  "enc_inv e \<longleftrightarrow> bit_list (enc_flat e) \<and> 0 < ae_a e \<and> ae_a e < 4096 \<and> ae_c e + ae_a e < 8192
     \<and> enc_low e + ae_a e < 2 ^ enc_len e * 4096"

lemma enc_flat_update [simp]:
  "enc_flat (e\<lparr>ae_c := x\<rparr>) = enc_flat e" "enc_flat (e\<lparr>ae_a := x\<rparr>) = enc_flat e"
  "enc_low (e\<lparr>ae_a := x\<rparr>) = enc_low e"
  by (simp_all add: enc_flat_def enc_low_def)

lemma propagate_carry_correct:
  assumes "bit_list bs" and "num_of_bits bs + 1 < 2 ^ length bs"
  shows "num_of_bits (propagate_carry bs) = num_of_bits bs + 1
    \<and> length (propagate_carry bs) = length bs \<and> bit_list (propagate_carry bs)"
  using assms
proof (induction bs rule: rev_induct)
  case Nil
  then show ?case by simp
next
  case (snoc b bs)
  have b: "b = 0 \<or> b = 1" using snoc.prems(1) by (auto simp: less_2_cases_iff)
  show ?case
  proof (cases "b = 0")
    case True
    then show ?thesis using snoc.prems by (simp add: propagate_carry_def)
  next
    case False
    with b have "b = 1" by simp
    then have "num_of_bits bs + 1 < 2 ^ length bs" using snoc.prems(2) by simp
    with snoc.IH snoc.prems(1) have
      "num_of_bits (propagate_carry bs) = num_of_bits bs + 1
        \<and> length (propagate_carry bs) = length bs \<and> bit_list (propagate_carry bs)" by simp
    moreover have "propagate_carry (bs @ [b]) = propagate_carry bs @ [0]"
      using \<open>b = 1\<close> by (simp add: propagate_carry_def)
    ultimately show ?thesis using \<open>b = 1\<close> by simp
  qed
qed

lemma not_all_ones_prefix:
  assumes "bit_list (xs @ ys)" and "num_of_bits (xs @ ys) + 1 < 2 ^ length (xs @ ys)"
    and "num_of_bits ys + 1 = 2 ^ length ys"
  shows "num_of_bits xs + 1 < 2 ^ length xs"
proof (rule ccontr)
  assume "\<not> num_of_bits xs + 1 < 2 ^ length xs"
  then have "2 ^ length xs \<le> num_of_bits xs + 1" by simp
  then have "2 ^ length xs * 2 ^ length ys \<le> (num_of_bits xs + 1) * 2 ^ length ys"
    by (rule mult_le_mono1)
  also have "\<dots> = num_of_bits (xs @ ys) + 1" using assms(3) by simp
  finally show False using assms(2) by (simp add: power_add)
qed

lemma apply_carry_correct:
  assumes "bit_list (enc_flat e)" and "num_of_bits (enc_flat e) + 1 < 2 ^ enc_len e"
  shows "num_of_bits (enc_flat (apply_carry e)) = num_of_bits (enc_flat e) + 1
    \<and> enc_len (apply_carry e) = enc_len e \<and> bit_list (enc_flat (apply_carry e))"
proof (cases "ae_has_pending e")
  case False
  then show ?thesis using propagate_carry_correct assms
    by (simp add: enc_flat_def apply_carry_def)
next
  case pending: True
  let ?ones = "replicate (ae_pending_ones e) (1::nat)"
  have flat: "enc_flat e = ae_bits e @ (ae_pending_bit e # ?ones)"
    using pending by (simp add: enc_flat_def)
  have pb: "ae_pending_bit e = 0 \<or> ae_pending_bit e = 1"
    using assms(1) unfolding flat by (auto simp: less_2_cases_iff)
  show ?thesis
  proof (cases "ae_pending_bit e = 0")
    case True
    have "enc_flat (apply_carry e) = ae_bits e @ 1 # replicate (ae_pending_ones e) 0"
      using pending True by (simp add: enc_flat_def apply_carry_def Let_def)
    then show ?thesis using assms(1) True num_of_bits_replicate1[of "ae_pending_ones e"]
      unfolding flat by auto
  next
    case False
    with pb have pb1: "ae_pending_bit e = 1" by simp
    have tail: "num_of_bits (ae_pending_bit e # ?ones) + 1 = 2 ^ length (ae_pending_bit e # ?ones)"
      using num_of_bits_replicate1[of "ae_pending_ones e"] pb1 by simp
    have "num_of_bits (ae_bits e) + 1 < 2 ^ length (ae_bits e)"
      using not_all_ones_prefix[OF _ _ tail] assms unfolding flat by blast
    then have pc: "num_of_bits (propagate_carry (ae_bits e)) = num_of_bits (ae_bits e) + 1"
      "length (propagate_carry (ae_bits e)) = length (ae_bits e)"
      "bit_list (propagate_carry (ae_bits e))"
      using propagate_carry_correct[of "ae_bits e"] assms(1) flat by auto
    have "enc_flat (apply_carry e)
        = propagate_carry (ae_bits e) @ 0 # replicate (ae_pending_ones e) 0"
      using pending pb1 by (simp add: enc_flat_def apply_carry_def Let_def)
    then show ?thesis using pc tail unfolding flat by (auto simp: algebra_simps)
  qed
qed

lemma apply_carry_fields [simp]: "ae_c (apply_carry e) = ae_c e" "ae_a (apply_carry e) = ae_a e"
  by (simp_all add: apply_carry_def Let_def)

lemma flush_pending_flat:
  "enc_flat (flush_pending e) = enc_flat e" "ae_bits (flush_pending e) = enc_flat e"
  "ae_c (flush_pending e) = ae_c e" "ae_a (flush_pending e) = ae_a e"
  by (simp_all add: flush_pending_def enc_flat_def)

lemma emit_bit_flat:
  assumes "b < 2"
  shows "enc_flat (emit_bit b e) = enc_flat e @ [b]"
    and "ae_c (emit_bit b e) = ae_c e" and "ae_a (emit_bit b e) = ae_a e"
  using assms
  by (auto simp: emit_bit_def enc_flat_def flush_pending_def less_2_cases_iff
      simp flip: replicate_append_same)


lemma top_bit_shift:
  assumes "c < 4096"
  shows "drop_bit 11 c AND 1 = c div 2048" and "push_bit 1 c AND 4095 = 2 * c - c div 2048 * 4096"
    and "(c::nat) div 2048 < 2"
proof -
  show d: "c div 2048 < 2" using assms by auto
  have "c div 2048 = 0 \<or> c div 2048 = 1" using d by linarith
  then show "drop_bit 11 c AND 1 = c div 2048" by (auto simp: drop_bit_eq_div and_one_eq)
  have "push_bit 1 c AND 4095 = 2 * c mod 4096"
    using take_bit_eq_mask[of 12 "push_bit 1 c"]
    by (simp add: mask_eq_exp_minus_1 take_bit_eq_mod push_bit_eq_mult mult.commute)
  moreover have "2 * c div 4096 = c div 2048" using div_mult_mult1[of 2 c 2048] by simp
  ultimately show "push_bit 1 c AND 4095 = 2 * c - c div 2048 * 4096"
    using minus_div_mult_eq_mod[of "2 * c" 4096] by simp
qed

text \<open>Shifting a bit out doubles the exact lower end and fixes one more bit.\<close>

lemma shift_out_correct:
  assumes "bit_list (enc_flat e)" and "ae_c e < 8192" and "enc_low e < 2 ^ enc_len e * 4096"
  shows "enc_low (shift_out e) = 2 * enc_low e \<and> enc_len (shift_out e) = Suc (enc_len e)
    \<and> bit_list (enc_flat (shift_out e)) \<and> ae_c (shift_out e) \<le> 4094 \<and> ae_a (shift_out e) = ae_a e
    \<and> ae_c (shift_out e) = 2 * ae_c e mod 4096"
proof -
  define e1 where "e1 = (if ae_c e \<ge> 4096 then apply_carry (e\<lparr>ae_c := ae_c e - 4096\<rparr>) else e)"
  have c1: "ae_c e1 = ae_c e mod 4096"
  proof (cases "ae_c e \<ge> 4096")
    case True
    then have "ae_c e mod 4096 = (ae_c e - 4096) mod 4096" by (simp add: le_mod_geq)
    then show ?thesis using True assms(2) by (simp add: e1_def)
  next
    case False
    then show ?thesis by (simp add: e1_def)
  qed
  have c1_lt: "ae_c e1 < 4096" using c1 by simp
  have e1: "enc_low e1 = enc_low e \<and> enc_len e1 = enc_len e \<and> bit_list (enc_flat e1)
      \<and> ae_a e1 = ae_a e"
  proof (cases "ae_c e \<ge> 4096")
    case True
    have "(num_of_bits (enc_flat e) + 1) * 4096 \<le> enc_low e" using True by (simp add: enc_low_def)
    then have "(num_of_bits (enc_flat e) + 1) * 4096 < 2 ^ enc_len e * 4096"
      using assms(3) by linarith
    then have "num_of_bits (enc_flat e) + 1 < 2 ^ enc_len e" by simp
    then show ?thesis using apply_carry_correct[of "e\<lparr>ae_c := ae_c e - 4096\<rparr>"] True assms(1)
      by (simp add: e1_def enc_low_def)
  next
    case False
    then show ?thesis using assms(1) by (simp add: e1_def)
  qed
  define b where "b = ae_c e1 div 2048"
  have b2: "b < 2" using top_bit_shift(3)[OF c1_lt] by (simp add: b_def)
  define e2 where "e2 = emit_bit b e1"
  have so: "shift_out e = e2\<lparr>ae_c := 2 * ae_c e1 - b * 4096\<rparr>"
    using top_bit_shift[OF c1_lt] emit_bit_flat(2)[OF b2]
    by (simp add: shift_out_def Let_def e1_def[symmetric] e2_def b_def)
  have flat2: "enc_flat (shift_out e) = enc_flat e1 @ [b]"
    using emit_bit_flat(1)[OF b2, of e1] by (simp add: so e2_def)
  have c2: "ae_c (shift_out e) = 2 * ae_c e1 - b * 4096" by (simp add: so)
  have b_le: "b * 4096 \<le> 2 * ae_c e1" unfolding b_def by simp
  have low: "enc_low (shift_out e) = 2 * enc_low e1"
    using flat2 c2 b_le by (simp add: enc_low_def)
  have "2 * ae_c e1 - b * 4096 = 2 * ae_c e1 mod 4096"
    using minus_div_mult_eq_mod[of "2 * ae_c e1" 4096] div_mult_mult1[of 2 "ae_c e1" 2048]
    by (simp add: b_def)
  moreover have "2 * (ae_c e mod 4096) mod 4096 = 2 * ae_c e mod 4096" by (rule mod_mult_right_eq)
  ultimately have cm: "ae_c (shift_out e) = 2 * ae_c e mod 4096"
    unfolding c2 c1 by simp
  have "2 * ae_c e mod (2 * 2048) = 2 * (ae_c e mod 2048)" by (rule mult_mod_right[symmetric])
  moreover have "ae_c e mod 2048 < 2048" by simp
  ultimately have "2 * ae_c e mod 4096 \<le> 4094" by simp
  then show ?thesis
    using low flat2 e1 b2 emit_bit_flat(3)[OF b2, of e1] cm by (auto simp: so e2_def)
qed

text \<open>Renormalisation terminates and scales the interval by a power of two.\<close>

lemma bit_len_double: "0 < n \<Longrightarrow> bit_len (2 * n) = Suc (bit_len n)"
  by (simp add: bit_len.simps[of "2 * n"])

lemma bit_len_le_12: "0 < a \<Longrightarrow> a < 4096 \<Longrightarrow> bit_len a \<le> 12"
proof (rule ccontr)
  assume a: "0 < a" "a < 4096" and "\<not> bit_len a \<le> 12"
  then have "12 \<le> bit_len a - 1" by simp
  then have "(2::nat) ^ 12 \<le> 2 ^ (bit_len a - 1)" by (rule power_increasing) simp
  then show False using bit_len_bounds[OF a(1)] a(2) by simp
qed

lemma enc_inv_shift:
  assumes "enc_inv e" and "ae_a e < 2048"
  shows "enc_inv ((shift_out e)\<lparr>ae_a := push_bit 1 (ae_a e)\<rparr>)"
    and "enc_low ((shift_out e)\<lparr>ae_a := push_bit 1 (ae_a e)\<rparr>) = 2 * enc_low e"
    and "enc_len ((shift_out e)\<lparr>ae_a := push_bit 1 (ae_a e)\<rparr>) = Suc (enc_len e)"
    and "ae_c (shift_out e) \<le> 4094"
proof -
  have so: "enc_low (shift_out e) = 2 * enc_low e" "enc_len (shift_out e) = Suc (enc_len e)"
    "bit_list (enc_flat (shift_out e))" "ae_c (shift_out e) \<le> 4094"
    using shift_out_correct[of e] assms(1) by (auto simp: enc_inv_def)
  then show "enc_low ((shift_out e)\<lparr>ae_a := push_bit 1 (ae_a e)\<rparr>) = 2 * enc_low e"
    and "enc_len ((shift_out e)\<lparr>ae_a := push_bit 1 (ae_a e)\<rparr>) = Suc (enc_len e)"
    and "ae_c (shift_out e) \<le> 4094"
    by simp_all
  have "2 * enc_low e + 2 * ae_a e < 2 ^ Suc (enc_len e) * 4096"
    using assms(1) by (simp add: enc_inv_def)
  then show "enc_inv ((shift_out e)\<lparr>ae_a := push_bit 1 (ae_a e)\<rparr>)"
    using so assms by (simp add: enc_inv_def push_bit_eq_mult mult.commute)
qed

lemma enc_renorm_correct:
  assumes "enc_inv e"
  shows "\<exists>e'. enc_renorm e = Some e' \<and> enc_inv e' \<and> 2048 \<le> ae_a e'
    \<and> ae_a e' = ae_a e * 2 ^ (12 - bit_len (ae_a e))
    \<and> enc_low e' = enc_low e * 2 ^ (12 - bit_len (ae_a e))
    \<and> enc_len e' = enc_len e + (12 - bit_len (ae_a e))"
  using assms
proof (induction "12 - bit_len (ae_a e)" arbitrary: e)
  case 0
  have a: "0 < ae_a e" "ae_a e < 4096" using 0 by (auto simp: enc_inv_def)
  then have "bit_len (ae_a e) = 12" using 0(1) bit_len_le_12[OF a] by simp
  then have "2048 \<le> ae_a e" using bit_len_bounds[OF a(1)] by simp
  then have "enc_renorm e = Some e" by (simp add: enc_renorm.simps[of e])
  then show ?case using 0 \<open>bit_len (ae_a e) = 12\<close> \<open>2048 \<le> ae_a e\<close> by simp
next
  case (Suc n)
  let ?e = "(shift_out e)\<lparr>ae_a := push_bit 1 (ae_a e)\<rparr>"
  have a: "0 < ae_a e" "ae_a e < 4096" using Suc.prems by (auto simp: enc_inv_def)
  have lt: "ae_a e < 2048"
  proof (rule ccontr)
    assume "\<not> ae_a e < 2048"
    then have "bit_len (ae_a e) = Suc 11" using a by (intro bit_len_unique) simp_all
    then show False using Suc.hyps(2) by simp
  qed
  have bl: "bit_len (ae_a ?e) = Suc (bit_len (ae_a e))"
    using bit_len_double[OF a(1)] by (simp add: push_bit_eq_mult mult.commute)
  have n: "n = 12 - bit_len (ae_a ?e)" using Suc.hyps(2) bl by simp
  have step: "enc_renorm e = enc_renorm ?e" using lt by (simp add: enc_renorm.simps[of e])
  from Suc.hyps(1)[OF n enc_inv_shift(1)[OF Suc.prems lt]] step n Suc.hyps(2)
    enc_inv_shift(2,3)[OF Suc.prems lt]
  show ?case by (auto simp: push_bit_eq_mult simp flip: Suc.hyps(2))
qed


subsection \<open>One coding step\<close>

text \<open>The sub-interval a symbol selects: bit 0 takes the upper part of width \<open>q\<close>.\<close>

definition sym_low :: "nat \<Rightarrow> nat \<Rightarrow> arith_enc \<Rightarrow> nat" where
  "sym_low b p e = (if b = 0 then enc_low e + (ae_a e - arith_k (ae_a e) * p) else enc_low e)"

definition sym_width :: "nat \<Rightarrow> nat \<Rightarrow> nat \<Rightarrow> nat" where
  "sym_width b p a = (if b = 0 then arith_k a * p else a - arith_k a * p)"

definition enc_ready :: "arith_enc \<Rightarrow> bool" where
  "enc_ready e \<longleftrightarrow> enc_inv e \<and> 2048 \<le> ae_a e"

lemma enc_ready_range [range_intros]:
  "enc_ready e \<Longrightarrow> 2048 \<le> ae_a e" "enc_ready e \<Longrightarrow> ae_a e < 4096" "enc_ready e \<Longrightarrow> ae_c e < 8192"
  by (auto simp: enc_ready_def enc_inv_def)

lemma sym_width_bounds:
  assumes "2048 \<le> a" and "a < 4096" and "1 \<le> p" and "p \<le> 128"
  shows "0 < sym_width b p a" and "sym_width b p a < 4096"
  using split_bounds[OF assms] assms(2) by (auto simp: sym_width_def)

lemma sym_nested:
  assumes "enc_ready e" and "1 \<le> p" and "p \<le> 128"
  shows "enc_low e \<le> sym_low b p e"
    and "sym_low b p e + sym_width b p (ae_a e) \<le> enc_low e + ae_a e"
  using split_bounds[OF enc_ready_range(1,2)[OF assms(1)] assms(2,3)]
  by (auto simp: sym_low_def sym_width_def)

lemma encode_bit_correct:
  fixes b p :: nat and e :: arith_enc
  defines "a1 \<equiv> sym_width b p (ae_a e)" and "n \<equiv> 12 - bit_len (sym_width b p (ae_a e))"
  assumes "enc_ready e" and "1 \<le> p" and "p \<le> 128"
  shows "\<exists>e'. encode_bit b p e = Some e' \<and> enc_ready e' \<and> ae_a e' = a1 * 2 ^ n
    \<and> enc_low e' = sym_low b p e * 2 ^ n \<and> enc_len e' = enc_len e + n"
proof -
  have sb: "0 < arith_k (ae_a e) * p" "arith_k (ae_a e) * p < ae_a e"
    using split_bounds enc_ready_range assms(3-5) by auto
  have inv: "enc_inv e" using assms(3) by (simp add: enc_ready_def)
  define e1 where "e1 = (if b = 0
    then e\<lparr>ae_c := ae_c e + (ae_a e - arith_k (ae_a e) * p), ae_a := arith_k (ae_a e) * p\<rparr>
    else e\<lparr>ae_a := ae_a e - arith_k (ae_a e) * p\<rparr>)"
  have step: "encode_bit b p e = enc_renorm e1"
    by (simp add: encode_bit_def Let_def e1_def)
  have fields: "ae_a e1 = a1" "enc_flat e1 = enc_flat e" "enc_low e1 = sym_low b p e"
    by (simp_all add: e1_def a1_def sym_width_def sym_low_def enc_low_def)
  have "enc_inv e1"
    using inv sb by (auto simp: e1_def enc_inv_def enc_low_def)
  from enc_renorm_correct[OF this] show ?thesis
    using step fields by (auto simp: enc_ready_def a1_def n_def)
qed

lemma push_or_nat: "x < 2 ^ n \<Longrightarrow> push_bit n c OR x = c * 2 ^ n + (x :: nat)"
proof -
  assume x: "x < 2 ^ n"
  have "push_bit n c AND x = 0"
  proof (rule bit_eqI)
    fix k
    have "bit x k \<Longrightarrow> k < n"
      using x by (metis bit_take_bit_iff take_bit_nat_eq_self_iff)
    then show "bit (push_bit n c AND x) k = bit 0 k" by (auto simp: bit_and_iff bit_push_bit_iff)
  qed
  then have "push_bit n c + x = push_bit n c OR x" by (rule disjunctive_add_eq_or)
  then show ?thesis by (simp add: push_bit_eq_mult)
qed

lemma log2_floor_u32_eq: "0 < a \<Longrightarrow> a < 4096 \<Longrightarrow> log2_floor_u32 a = bit_len a - 1"
  using bit_len_le_12[of a] bit_len_bounds[of a] by (simp add: log2_floor_u32_def)

text \<open>
  \<open>arith_sync Z e d r\<close>: against the code bits \<open>Z\<close>, the decoder \<open>d\<close> reading \<open>r\<close> is where
  the encoder was in state \<open>e\<close>; \<open>in_interval Z e\<close>: the number \<open>Z\<close> spells lies in the interval of \<open>e\<close>.
\<close>

definition arith_sync :: "nat list \<Rightarrow> arith_enc \<Rightarrow> arith_dec \<Rightarrow> bit_reader \<Rightarrow> bool" where
  "arith_sync Z e d r \<longleftrightarrow>
     ad_a d = ae_a e \<and> br_ok r \<and> br_view r = drop (enc_len e + 12) Z
     \<and> ad_c d + enc_low e = num_of_bits (take (enc_len e + 12) Z)"

definition in_interval :: "nat list \<Rightarrow> arith_enc \<Rightarrow> bool" where
  "in_interval Z e \<longleftrightarrow> bit_list Z \<and> enc_len e + 12 \<le> length Z
     \<and> enc_low e * 2 ^ (length Z - (enc_len e + 12)) \<le> num_of_bits Z
     \<and> num_of_bits Z < (enc_low e + ae_a e) * 2 ^ (length Z - (enc_len e + 12))"

text \<open>Seen from before the step, the code lies in the symbol's sub-interval.\<close>

lemma in_interval_step:
  assumes r: "enc_ready e" and p: "1 \<le> p" "p \<le> 128" and enc: "encode_bit b p e = Some e'"
    and i: "in_interval Z e'"
  shows "in_interval Z e"
    and "sym_low b p e \<le> num_of_bits (take (enc_len e + 12) Z)"
    and "num_of_bits (take (enc_len e + 12) Z) < sym_low b p e + sym_width b p (ae_a e)"
proof -
  define n where "n = 12 - bit_len (sym_width b p (ae_a e))"
  have e': "enc_low e' = sym_low b p e * 2 ^ n" "ae_a e' = sym_width b p (ae_a e) * 2 ^ n"
    "enc_len e' = enc_len e + n"
    using encode_bit_correct[OF r p, of b] enc by (auto simp: n_def)
  define t where "t = length Z - (enc_len e + 12)"
  have Z: "bit_list Z" and len: "enc_len e + n + 12 \<le> length Z"
    using i e' by (auto simp: in_interval_def)
  have t: "t = length Z - (enc_len e' + 12) + n" using len e' by (simp add: t_def)
  have pow: "2 ^ n * 2 ^ (length Z - (enc_len e' + 12)) = (2::nat) ^ t"
    by (simp add: t power_add)
  have lo: "sym_low b p e * 2 ^ t \<le> num_of_bits Z"
    and hi: "num_of_bits Z < (sym_low b p e + sym_width b p (ae_a e)) * 2 ^ t"
    using i pow unfolding in_interval_def e' by (simp_all add: algebra_simps)
  have "enc_low e * 2 ^ t \<le> sym_low b p e * 2 ^ t"
    using sym_nested[OF r p, of b] by simp
  moreover have "(sym_low b p e + sym_width b p (ae_a e)) * 2 ^ t \<le> (enc_low e + ae_a e) * 2 ^ t"
    using sym_nested[OF r p, of b] by (intro mult_le_mono1) simp
  ultimately show "in_interval Z e"
    using lo hi Z len unfolding in_interval_def t_def by linarith
  have v: "num_of_bits (take (enc_len e + 12) Z) = num_of_bits Z div 2 ^ t"
    unfolding t_def using Z len by (intro num_of_bits_take) auto
  show "sym_low b p e \<le> num_of_bits (take (enc_len e + 12) Z)"
    using lo unfolding v by (simp add: less_eq_div_iff_mult_less_eq)
  show "num_of_bits (take (enc_len e + 12) Z) < sym_low b p e + sym_width b p (ae_a e)"
    using hi unfolding v by (simp add: div_less_iff_less_mult)
qed


subsection \<open>The decoder follows the encoder\<close>

text \<open>The decision and the new registers of the decoder, before renormalisation.\<close>

lemma arith_decision:
  assumes r: "enc_ready e" and p: "1 \<le> p" "p \<le> 128" and b: "b < 2"
    and enc: "encode_bit b p e = Some e'" and sync: "arith_sync Z e d r" and i: "in_interval Z e'"
  shows "(if ad_c d < ad_a d - arith_k (ad_a d) * p
          then (1, d\<lparr>ad_a := ad_a d - arith_k (ad_a d) * p\<rparr>)
          else (0, d\<lparr>ad_a := arith_k (ad_a d) * p, ad_c := ad_c d - (ad_a d - arith_k (ad_a d) * p)\<rparr>))
    = (b, \<lparr>ad_a = sym_width b p (ae_a e),
           ad_c = num_of_bits (take (enc_len e + 12) Z) - sym_low b p e\<rparr>)"
proof -
  let ?P = "num_of_bits (take (enc_len e + 12) Z)"
  have c: "ad_a d = ae_a e" "ad_c d = ?P - enc_low e" "enc_low e \<le> ?P"
    using sync by (auto simp: arith_sync_def)
  have lo: "sym_low b p e \<le> ?P" and hi: "?P < sym_low b p e + sym_width b p (ae_a e)"
    using in_interval_step[OF r p enc i] by auto
  have sb: "arith_k (ae_a e) * p < ae_a e" using split_bounds enc_ready_range[OF r] p by auto
  have "b = 0 \<or> b = 1" using b by (simp add: less_2_cases_iff)
  then show ?thesis
  proof
    assume "b = 0"
    then have "ae_a e - arith_k (ae_a e) * p \<le> ?P - enc_low e"
      using lo c(3) by (simp add: sym_low_def)
    then show ?thesis using c \<open>b = 0\<close> by (auto simp: sym_low_def sym_width_def)
  next
    assume "b = 1"
    then have "?P - enc_low e < ae_a e - arith_k (ae_a e) * p"
      using hi c(3) by (simp add: sym_low_def sym_width_def)
    then show ?thesis using c \<open>b = 1\<close> by (simp add: sym_low_def sym_width_def)
  qed
qed

text \<open>Renormalisation reads exactly the bits the encoder has fixed in the same step.\<close>

lemma sync_advance:
  assumes sync: "arith_sync Z e d r" and i: "bit_list Z" "enc_len e + n + 12 \<le> length Z" and n: "n \<le> 32"
  shows "\<exists>v. read_bits n r = Inr (v, br_advance n r) \<and> v < 2 ^ n
    \<and> num_of_bits (take (enc_len e + n + 12) Z) = num_of_bits (take (enc_len e + 12) Z) * 2 ^ n + v
    \<and> br_view (br_advance n r) = drop (enc_len e + n + 12) Z"
proof -
  define ws where "ws = take n (drop (enc_len e + 12) Z)"
  have len: "length ws = n" using i(2) by (simp add: ws_def)
  have view: "br_view r = ws @ drop (enc_len e + n + 12) Z"
    using sync append_take_drop_id[of n "drop (enc_len e + 12) Z"]
    by (simp add: arith_sync_def ws_def add_ac)
  have ok: "br_ok r" using sync by (simp add: arith_sync_def)
  have rd: "read_bits n r = Inr (num_of_bits ws, br_advance n r)"
    using read_bits_view[OF ok view len n] .
  have "bit_list ws" using i(1) unfolding ws_def by (meson in_set_dropD in_set_takeD)
  then have "num_of_bits ws < 2 ^ n" using num_of_bits_bound len by blast
  moreover have "take (enc_len e + n + 12) Z = take (enc_len e + 12) Z @ ws"
    using take_add[of "enc_len e + 12" n Z] by (simp add: ws_def add_ac)
  moreover have "br_view (br_advance n r) = drop (enc_len e + n + 12) Z"
    using view len by (simp add: br_view_advance)
  ultimately show ?thesis using rd len by (auto simp: num_of_bits_append)
qed

lemma arith_get_correct:
  assumes r: "enc_ready e" and p: "1 \<le> p" "p \<le> 128" and b: "b < 2"
    and enc: "encode_bit b p e = Some e'" and sync: "arith_sync Z e d r" and i: "in_interval Z e'"
  shows "\<exists>d' r'. arith_get (int p) (d, r) = Inr (b, d', r') \<and> arith_sync Z e' d' r'"
proof -
  define a1 where "a1 = sym_width b p (ae_a e)"
  define n where "n = 12 - bit_len a1"
  define c1 where "c1 = num_of_bits (take (enc_len e + 12) Z) - sym_low b p e"
  have e': "enc_low e' = sym_low b p e * 2 ^ n" "ae_a e' = a1 * 2 ^ n" "enc_len e' = enc_len e + n"
    "enc_ready e'"
    using encode_bit_correct[OF r p, of b] enc by (auto simp: n_def a1_def)
  have a1: "0 < a1" "a1 < 4096"
    using sym_width_bounds[of "ae_a e" p b] enc_ready_range[OF r] p by (auto simp: a1_def)
  have lo: "sym_low b p e \<le> num_of_bits (take (enc_len e + 12) Z)" and c1_lt: "c1 < a1"
    using in_interval_step(2,3)[OF r p enc i] by (auto simp: c1_def a1_def)
  have aeq: "ad_a d = ae_a e" using sync by (simp add: arith_sync_def)
  have sb: "arith_k (ad_a d) * p < 2048" "arith_k (ad_a d) * p < ad_a d"
    using split_bounds[of "ae_a e" p] enc_ready_range[OF r] p aeq by auto
  have mul: "checked_mul32 (arith_k (ad_a d)) p = Some (arith_k (ad_a d) * p)"
    using sb by (simp add: checked_defs)
  have sub: "checked_sub (ad_a d) (arith_k (ad_a d) * p) = Some (ad_a d - arith_k (ad_a d) * p)"
    using sb by (simp add: checked_defs)
  have bitl: "bit_list Z" and len: "enc_len e + n + 12 \<le> length Z"
    using i e' by (auto simp: in_interval_def)
  have n12: "n \<le> 12" by (simp add: n_def)
  obtain v where v: "read_bits n r = Inr (v, br_advance n r)" "v < 2 ^ n"
      "num_of_bits (take (enc_len e + n + 12) Z) = num_of_bits (take (enc_len e + 12) Z) * 2 ^ n + v"
      "br_view (br_advance n r) = drop (enc_len e + n + 12) Z"
    using sync_advance[OF sync bitl len] n12 by auto
  have ok: "br_ok r" using sync by (simp add: arith_sync_def)
  have start: "arith_get (int p) (d, r) =
      (if a1 < 2048 then
         let n = 11 - log2_floor_u32 a1
         in res_bind (ok_or (ArithmeticDecodeFailure ''arithmetic interval shift overflow'')
                       (checked_shl32 a1 n))
           (\<lambda>a. res_bind (ok_or (ArithmeticDecodeFailure ''arithmetic code shift overflow'')
                            (checked_shl32 c1 n))
           (\<lambda>c. res_bind (read_bits n r)
           (\<lambda>(v, r). Inr (b, \<lparr>ad_a = a, ad_c = c OR v\<rparr>, r))))
       else Inr (b, \<lparr>ad_a = a1, ad_c = c1\<rparr>, r))"
    using p mul sub arith_decision[OF r p b enc sync i] a1
    by (simp add: arith_get_def Let_def a1_def[symmetric] c1_def[symmetric])
  have target: "c1 * 2 ^ n + v + enc_low e' = num_of_bits (take (enc_len e' + 12) Z)"
  proof -
    have "sym_low b p e * 2 ^ n \<le> num_of_bits (take (enc_len e + 12) Z) * 2 ^ n" using lo by simp
    then show ?thesis using v(3) unfolding e' c1_def diff_mult_distrib by linarith
  qed
  show ?thesis
  proof (cases "a1 < 2048")
    case True
    have bl: "bit_len a1 \<le> 11"
    proof (rule ccontr)
      assume "\<not> bit_len a1 \<le> 11"
      then have "(2::nat) ^ 11 \<le> 2 ^ (bit_len a1 - 1)" by (intro power_increasing) auto
      then show False using bit_len_bounds[OF a1(1)] True by simp
    qed
    have n: "11 - log2_floor_u32 a1 = n"
      using log2_floor_u32_eq[OF a1] bl bit_len_bounds[OF a1(1)] by (simp add: n_def)
    have "a1 * 2 ^ n < 4096" using e' enc_ready_range(2)[OF e'(4)] by simp
    moreover have "c1 * 2 ^ n \<le> a1 * 2 ^ n" using c1_lt by simp
    moreover have "(4096::nat) < 2 ^ 32" by simp
    ultimately have small: "a1 * 2 ^ n < 2 ^ 32" "c1 * 2 ^ n < 2 ^ 32" by (blast intro: le_less_trans less_trans)+
    then have shl: "checked_shl32 a1 n = Some (a1 * 2 ^ n)" "checked_shl32 c1 n = Some (push_bit n c1)"
      using n12 by (simp_all add: checked_defs push_bit_eq_mult take_bit_nat_eq_self_iff)
    have "arith_get (int p) (d, r)
        = Inr (b, \<lparr>ad_a = a1 * 2 ^ n, ad_c = c1 * 2 ^ n + v\<rparr>, br_advance n r)"
      using True n shl v(1) push_or_nat[OF v(2), of c1] by (simp add: start)
    moreover have "arith_sync Z e' \<lparr>ad_a = a1 * 2 ^ n, ad_c = c1 * 2 ^ n + v\<rparr> (br_advance n r)"
      using target v(4) e' ok by (simp add: arith_sync_def add_ac)
    ultimately show ?thesis by blast
  next
    case False
    then have "bit_len a1 = Suc 11" using a1 by (intro bit_len_unique) simp_all
    then have n: "n = 0" by (simp add: n_def)
    have "arith_get (int p) (d, r) = Inr (b, \<lparr>ad_a = a1, ad_c = c1\<rparr>, r)"
      using False by (simp add: start)
    moreover have "arith_sync Z e' \<lparr>ad_a = a1, ad_c = c1\<rparr> r"
      using target v e' ok n by (simp add: arith_sync_def)
    ultimately show ?thesis by blast
  qed
qed


subsection \<open>Whole runs\<close>

lemma enc_ready_new: "enc_ready arith_enc_new"
  by (simp add: enc_ready_def enc_inv_def arith_enc_new_def enc_low_def enc_flat_def)

lemma enc_new_flat [simp]: "enc_flat arith_enc_new = []" "enc_low arith_enc_new = 0"
  "ae_a arith_enc_new = 4095"
  by (simp_all add: arith_enc_new_def enc_low_def enc_flat_def)

lemma arith_dec_new_correct:
  assumes "br_ok r" and "br_view (enable_zero_padding_after_eof r) = Z" and "12 \<le> length Z"
  shows "\<exists>d r'. arith_dec_new r = Inr (d, r') \<and> arith_sync Z arith_enc_new d r'"
proof -
  have ok: "br_ok (enable_zero_padding_after_eof r)"
    using assms(1) by (simp add: br_ok_def enable_zero_padding_after_eof_def)
  have "read_bits 12 (enable_zero_padding_after_eof r)
      = Inr (num_of_bits (take 12 Z), br_advance 12 (enable_zero_padding_after_eof r))"
    using assms(2,3) by (intro read_bits_view[OF ok, where rest = "drop 12 Z"]) auto
  then show ?thesis using ok assms(2)
    by (simp add: arith_dec_new_def arith_sync_def br_view_advance)
qed

text \<open>Twelve more shifts push the whole register out: the code spells \<open>enc_low\<close>.\<close>

lemma shift_out_iter:
  assumes "enc_inv e"
  shows "enc_low ((shift_out ^^ k) e) = enc_low e * 2 ^ k
    \<and> enc_len ((shift_out ^^ k) e) = enc_len e + k
    \<and> bit_list (enc_flat ((shift_out ^^ k) e)) \<and> ae_c ((shift_out ^^ k) e) < 8192
    \<and> (0 < k \<longrightarrow> ae_c ((shift_out ^^ k) e) = ae_c e * 2 ^ k mod 4096)"
proof (induction k)
  case 0
  then show ?case using assms by (simp add: enc_inv_def)
next
  case (Suc k)
  let ?e = "(shift_out ^^ k) e"
  have "enc_low e < 2 ^ enc_len e * 4096" using assms by (simp add: enc_inv_def)
  then have "enc_low e * 2 ^ k < 2 ^ enc_len e * 4096 * 2 ^ k" by simp
  then have lt: "enc_low ?e < 2 ^ enc_len ?e * 4096" using Suc by (simp add: power_add ac_simps)
  from shift_out_correct[of ?e] Suc lt have so:
    "enc_low (shift_out ?e) = 2 * enc_low ?e" "enc_len (shift_out ?e) = Suc (enc_len ?e)"
    "bit_list (enc_flat (shift_out ?e))" "ae_c (shift_out ?e) \<le> 4094"
    "ae_c (shift_out ?e) = 2 * ae_c ?e mod 4096"
    by auto
  have "2 * ae_c ?e mod 4096 = ae_c e * 2 ^ Suc k mod 4096"
  proof (cases "k = 0")
    case False
    then have "2 * ae_c ?e mod 4096 = 2 * (ae_c e * 2 ^ k mod 4096) mod 4096" using Suc by simp
    also have "\<dots> = ae_c e * 2 ^ Suc k mod 4096" by (simp add: mod_mult_right_eq ac_simps)
    finally show ?thesis .
  qed (simp add: mult.commute)
  then show ?case using so Suc by simp
qed

lemma enc_finish_correct:
  assumes "enc_inv e"
  shows "num_of_bits (enc_finish e) = enc_low e" and "length (enc_finish e) = enc_len e + 12"
    and "bit_list (enc_finish e)"
proof -
  let ?f = "(shift_out ^^ 12) e"
  have f: "enc_finish e = enc_flat ?f" by (simp add: enc_finish_def flush_pending_flat)
  have it: "enc_low ?f = enc_low e * 2 ^ 12" "enc_len ?f = enc_len e + 12" "bit_list (enc_flat ?f)"
    "ae_c ?f = ae_c e * 2 ^ 12 mod 4096"
    using shift_out_iter[OF assms, of 12] by simp_all
  have "ae_c ?f = 0" unfolding it(4) by simp
  then have "num_of_bits (enc_flat ?f) * 4096 = enc_low e * 4096"
    using it(1) by (simp add: enc_low_def[of ?f])
  then show "num_of_bits (enc_finish e) = enc_low e" using f by simp
  show "length (enc_finish e) = enc_len e + 12" and "bit_list (enc_finish e)" using f it by simp_all
qed

lemma in_interval_finish:
  assumes "enc_ready e"
  shows "in_interval (enc_finish e @ replicate m 0) e"
proof -
  have inv: "enc_inv e" using assms by (simp add: enc_ready_def)
  have "num_of_bits (enc_finish e @ replicate m 0) = enc_low e * 2 ^ m"
    using enc_finish_correct(1)[OF inv] by simp
  then show ?thesis using enc_finish_correct[OF inv] enc_ready_range[OF assms]
    by (auto simp: in_interval_def)
qed

text \<open>Running the two coders over a whole symbol sequence.\<close>

definition encode_symbols :: "(nat \<times> nat) list \<Rightarrow> arith_enc \<Rightarrow> arith_enc option" where
  "encode_symbols = fold_opt (\<lambda>(b, p). encode_bit b p)"

fun decode_symbols ::
  "nat list \<Rightarrow> arith_dec \<times> bit_reader \<Rightarrow> dst_error + nat list \<times> arith_dec \<times> bit_reader" where
  "decode_symbols [] s = Inr ([], s)"
| "decode_symbols (p # ps) s =
     res_bind (arith_get (int p) s) (\<lambda>(b, s). res_bind (decode_symbols ps s) (\<lambda>(bs, s). Inr (b # bs, s)))"

abbreviation symbol_ok :: "nat \<times> nat \<Rightarrow> bool" where
  "symbol_ok s \<equiv> fst s < 2 \<and> 1 \<le> snd s \<and> snd s \<le> 128"

lemma encode_symbols_ready:
  "enc_ready e \<Longrightarrow> \<forall>s \<in> set syms. symbol_ok s \<Longrightarrow>
     \<exists>e'. encode_symbols syms e = Some e' \<and> enc_ready e' \<and> enc_len e \<le> enc_len e'"
proof (induction syms arbitrary: e)
  case Nil
  then show ?case by (simp add: encode_symbols_def)
next
  case (Cons s syms)
  obtain b p where s: "s = (b, p)" by (cases s)
  obtain e1 where e1: "encode_bit b p e = Some e1" "enc_ready e1" "enc_len e \<le> enc_len e1"
    using encode_bit_correct[of e p b] Cons.prems s by auto
  obtain e' where "encode_symbols syms e1 = Some e'" "enc_ready e'" "enc_len e1 \<le> enc_len e'"
    using Cons.IH[OF e1(2)] Cons.prems by auto
  then show ?case using e1 s by (auto simp: encode_symbols_def)
qed

lemma in_interval_run:
  "enc_ready e \<Longrightarrow> \<forall>s \<in> set syms. symbol_ok s \<Longrightarrow> encode_symbols syms e = Some e' \<Longrightarrow>
     in_interval Z e' \<Longrightarrow> in_interval Z e"
proof (induction syms arbitrary: e)
  case Nil
  then show ?case by (simp add: encode_symbols_def)
next
  case (Cons s syms)
  obtain b p where s: "s = (b, p)" by (cases s)
  obtain e1 where e1: "encode_bit b p e = Some e1" "enc_ready e1"
    using encode_bit_correct[of e p b] Cons.prems s by auto
  have "encode_symbols syms e1 = Some e'" using Cons.prems(3) s e1 by (simp add: encode_symbols_def)
  then have "in_interval Z e1" using Cons.IH[OF e1(2)] Cons.prems by simp
  then show ?case using in_interval_step(1)[OF Cons.prems(1) _ _ e1(1)] Cons.prems(2) s by simp
qed

lemma decode_symbols_correct:
  assumes "enc_ready e" and "\<forall>s \<in> set syms. symbol_ok s" and "encode_symbols syms e = Some e'"
    and "arith_sync Z e d r" and "in_interval Z e'"
  shows "\<exists>d' r'. decode_symbols (map snd syms) (d, r) = Inr (map fst syms, d', r')
    \<and> arith_sync Z e' d' r'"
  using assms
proof (induction syms arbitrary: e d r)
  case Nil
  then show ?case by (auto simp: encode_symbols_def)
next
  case (Cons s syms)
  obtain b p where s: "s = (b, p)" by (cases s)
  have sym: "b < 2" "1 \<le> p" "p \<le> 128" using Cons.prems(2) s by auto
  obtain e1 where e1: "encode_bit b p e = Some e1" "enc_ready e1"
    using encode_bit_correct[of e p b] Cons.prems(1) sym by auto
  have rest: "encode_symbols syms e1 = Some e'" "\<forall>s \<in> set syms. symbol_ok s"
    using Cons.prems(2,3) s e1 by (auto simp: encode_symbols_def)
  have i1: "in_interval Z e1" using in_interval_run[OF e1(2) rest(2,1) Cons.prems(5)] .
  obtain d1 r1 where g: "arith_get (int p) (d, r) = Inr (b, d1, r1)" "arith_sync Z e1 d1 r1"
    using arith_get_correct[OF Cons.prems(1) sym(2,3,1) e1(1) Cons.prems(4) i1] by auto
  then show ?case using Cons.IH[OF e1(2) rest(2,1) g(2) Cons.prems(5)] s by auto
qed


subsection \<open>Properties\<close>

text \<open>C3: the arithmetic coder is lossless. For every sequence of bits, each with a probability
  of 1 to 128, the encoder returns (its renormalisation terminates at every step), and
  the decoder, started on the bytes that hold the finished code and given the same
  probabilities, returns exactly the bits that were encoded, reading zeros past the end.\<close>

theorem arithmetic_round_trip:
  assumes "\<forall>s \<in> set syms. symbol_ok s"
  shows "\<exists>e. encode_symbols syms arith_enc_new = Some e \<and>
    (let input = into_bytes (write_bit_slice (enc_finish e) bw_new)
     in length input < 2 ^ 60 \<longrightarrow>
        (\<exists>d r d' r'. arith_dec_new (br_new input) = Inr (d, r)
          \<and> decode_symbols (map snd syms) (d, r) = Inr (map fst syms, d', r')))"
proof -
  obtain e where e: "encode_symbols syms arith_enc_new = Some e" "enc_ready e"
    using encode_symbols_ready[OF enc_ready_new assms] by auto
  have inv: "enc_inv e" using e(2) by (simp add: enc_ready_def)
  let ?input = "into_bytes (write_bit_slice (enc_finish e) bw_new)"
  have "bw_holds (write_bit_slice (enc_finish e) bw_new) ([] @ enc_finish e)"
    by (rule bw_holds_write_bit_slice[OF bw_holds_new enc_finish_correct(3)[OF inv]])
  then obtain k where k: "bytes_bits ?input = enc_finish e @ replicate k 0"
    by (auto simp: bw_holds_def into_bytes_def)
  have "\<exists>d r d' r'. arith_dec_new (br_new ?input) = Inr (d, r)
      \<and> decode_symbols (map snd syms) (d, r) = Inr (map fst syms, d', r')"
    if len: "length ?input < 2 ^ 60"
  proof -
    have ok: "br_ok (br_new ?input)" using len by (simp add: br_ok_def br_new_def)
    obtain m where m: "br_view (enable_zero_padding_after_eof (br_new ?input))
        = enc_finish e @ replicate (k + m) 0"
      using br_view_zero_padding[OF ok] k by (auto simp: br_new_def[of ?input] replicate_add simp flip: br_view_new)
    have i: "in_interval (enc_finish e @ replicate (k + m) 0) e" by (rule in_interval_finish[OF e(2)])
    have "12 \<le> length (enc_finish e @ replicate (k + m) 0)" using enc_finish_correct(2)[OF inv] by simp
    from arith_dec_new_correct[OF ok m this] obtain d r where
      "arith_dec_new (br_new ?input) = Inr (d, r)"
      "arith_sync (enc_finish e @ replicate (k + m) 0) arith_enc_new d r" by blast
    with decode_symbols_correct[OF enc_ready_new assms e(1) _ i] show ?thesis by blast
  qed
  then show ?thesis using e(1) unfolding Let_def by blast
qed

theorem arithmetic_round_trip_witness:
  "\<exists>e. encode_symbols [(1, 3), (0, 128), (1, 64)] arith_enc_new = Some e \<and>
    (let input = into_bytes (write_bit_slice (enc_finish e) bw_new)
     in length input < 2 ^ 60 \<longrightarrow>
        (\<exists>d r d' r'. arith_dec_new (br_new input) = Inr (d, r)
          \<and> decode_symbols [3, 128, 64] (d, r) = Inr ([1, 0, 1], d', r')))"
  using arithmetic_round_trip[of "[(1, 3), (0, 128), (1, 64)]"] by simp

text \<open>C30: the encoder's registers never leave their range: after any sequence of legal symbols
  the interval is at least half the unit (2048 up to 4095), the low register is below
  8192, the split \<open>q\<close> of the next symbol is strictly inside the interval (so the unchecked
  \<open>u32\<close> subtraction cannot wrap), and the fixed bits are zeros and ones.\<close>

theorem encoder_register_bounds:
  assumes "\<forall>s \<in> set syms. symbol_ok s" and "encode_symbols syms arith_enc_new = Some e"
    and "1 \<le> p" and "p \<le> 128"
  shows "2048 \<le> ae_a e \<and> ae_a e < 4096 \<and> ae_c e < 8192 \<and> 0 < arith_k (ae_a e) * p
    \<and> arith_k (ae_a e) * p < ae_a e \<and> bit_list (enc_finish e)"
proof -
  have r: "enc_ready e" using encode_symbols_ready[OF enc_ready_new assms(1)] assms(2) by auto
  then have "bit_list (enc_finish e)" by (intro enc_finish_correct) (simp add: enc_ready_def)
  then show ?thesis using enc_ready_range[OF r] split_bounds[of "ae_a e" p] assms(3,4) by auto
qed

theorem encoder_register_bounds_witness:
  "\<exists>e. encode_symbols [(1, 3), (0, 128)] arith_enc_new = Some e \<and> 2048 \<le> ae_a e
    \<and> arith_k (ae_a e) * 128 < ae_a e"
proof -
  have ok: "\<forall>s \<in> set [(1::nat, 3::nat), (0, 128)]. symbol_ok s" by simp
  obtain e where "encode_symbols [(1, 3), (0, 128)] arith_enc_new = Some e"
    using encode_symbols_ready[OF enc_ready_new ok] by auto
  with encoder_register_bounds[OF ok this, of 128] show ?thesis by auto
qed

end
