(* ===== verification/DstFrame.thy ===== *)
theory DstFrame
  imports DstSyntax DstArith
begin

text \<open>
  Whole frames on the decoding side: the loop over the bits of a compressed frame and the public
  entry points of \<open>dst/decoder.rs\<close>.
\<close>

subsection \<open>Prediction shared by both sides\<close>

text \<open>\<open>predict_from_lut\<close>; the decoder writes the same loop inline.\<close>

definition predict_from_lut :: "int list list \<Rightarrow> u8 list \<Rightarrow> int" where
  "predict_from_lut lut status =
     fold (\<lambda>tap total. total + lut ! tap ! unat (status ! tap)) [0..<16] 0"

definition initial_status :: "u8 list list" where
  "initial_status = replicate 6 (replicate 16 0xAA)"

subsection \<open>The decoder\<close>

definition checked_decoded_output_index :: "nat \<Rightarrow> nat \<Rightarrow> nat \<Rightarrow> dst_error + nat" where
  "checked_decoded_output_index byte_base channel output_len =
     res_bind (ok_or (ArithmeticDecodeFailure ''DST output byte index overflow'')
                (checked_add64 byte_base channel))
       (\<lambda>index. if index \<ge> output_len then Inl (OutputOverflow output_len) else Inr index)"

record frame_state =
  fr_arith :: arith_dec
  fr_reader :: bit_reader
  fr_filter_cursors :: "segment_cursor list"
  fr_probability_cursors :: "segment_cursor list"
  fr_status :: "u8 list list"
  fr_out :: "u8 list"

text \<open>The probability of the next residual, from the table the bit's probability segment names.\<close>

definition table_probability :: "coeff_table \<Rightarrow> nat \<Rightarrow> int \<Rightarrow> dst_error + int" where
  "table_probability t element predict =
     (let len = ct_length t ! element in
      if len = 0 then Inl (InvalidProbabilityTable ''empty probability table'')
      else
        let idx = min (nat \<bar>predict\<bar> div 8) (len - 1);
            v = at2 (ct_coeff t) element idx
        in if \<not> (1 \<le> v \<and> v \<le> 128) then
             Inl (InvalidProbabilityTable ''probability coefficient out of range'')
           else Inr v)"

definition residual_probability ::
  "compressed_syntax \<Rightarrow> nat \<Rightarrow> nat \<Rightarrow> nat \<Rightarrow> int \<Rightarrow> segment_cursor list \<Rightarrow>
     dst_error + int \<times> segment_cursor list" where
  "residual_probability cs bits ch bit_index predict cursors =
     (if cs_half_probability cs ! ch \<and> bit_index < cs_half_probability_bits cs ! ch then
        Inr (128, cursors)
      else
        res_bind (table_for_bit (cs_probability_segments cs) ch bit_index bits
                    (ct_elements (cs_probability_tables cs)) ProbabilitySegments cursors)
          (\<lambda>(element, cursors).
            res_bind (table_probability (cs_probability_tables cs) element predict)
              (\<lambda>p. Inr (p, cursors))))"

definition decode_bit ::
  "compressed_syntax \<Rightarrow> int list list list \<Rightarrow> nat \<Rightarrow> nat \<Rightarrow> nat \<Rightarrow> nat \<Rightarrow> frame_state \<Rightarrow>
     dst_error + frame_state" where
  "decode_bit cs filters bits byte_base bit_index ch s =
     res_bind (table_for_bit (cs_filter_segments cs) ch bit_index bits
                 (ct_elements (cs_filter_tables cs)) FilterSegments (fr_filter_cursors s))
       (\<lambda>(filter_element, fcursors).
     let predict = predict_from_lut (filters ! filter_element) (fr_status s ! ch) in
     res_bind (residual_probability cs bits ch bit_index predict (fr_probability_cursors s))
       (\<lambda>(p, pcursors).
     res_bind (arith_get p (fr_arith s, fr_reader s)) (\<lambda>(residual, arith, r).
     let dsd_bit = nat ((drop_bit 15 predict XOR int residual) AND 1) in
     res_bind (checked_decoded_output_index byte_base ch (length (fr_out s))) (\<lambda>output_index.
     let out = (if dsd_bit \<noteq> 0
                then (fr_out s)[output_index :=
                        fr_out s ! output_index OR push_bit (7 - bit_index mod 8) 1]
                else fr_out s)
     in Inr \<lparr>fr_arith = arith, fr_reader = r, fr_filter_cursors = fcursors,
             fr_probability_cursors = pcursors,
             fr_status = (fr_status s)[ch := push_status_bit dsd_bit (fr_status s ! ch)],
             fr_out = out\<rparr>))))"

definition decode_bits ::
  "compressed_syntax \<Rightarrow> int list list list \<Rightarrow> nat \<Rightarrow> nat \<Rightarrow> frame_state \<Rightarrow> dst_error + frame_state" where
  "decode_bits cs filters channels bits =
     fold_res (\<lambda>bit_index s.
       res_bind (ok_or (ArithmeticDecodeFailure ''DST output byte index overflow'')
                  (checked_mul64 (bit_index div 8) channels))
         (\<lambda>byte_base. fold_res (decode_bit cs filters bits byte_base bit_index) [0..<channels] s))
       [0..<bits]"

definition check_arithmetic_marker :: "bit_reader \<Rightarrow> dst_error + bit_reader" where
  "check_arithmetic_marker r =
     res_bind (has_physical_bits_remaining r) (\<lambda>more.
       if more then
         res_bind (read_bit r) (\<lambda>(b, r). if b \<noteq> 0 then Inl InvalidArithmeticCode else Inr r)
       else Inr r)"

definition decode_compressed_dst_payload ::
  "dst_decoder \<Rightarrow> bit_reader \<Rightarrow> u8 list \<Rightarrow> dst_error + u8 list" where
  "decode_compressed_dst_payload d r out =
     res_bind (compressed_syntax_read (dd_channel_count d) (dd_frame_bytes d) r) (\<lambda>(cs, r).
     res_bind (check_arithmetic_marker r) (\<lambda>r.
     res_bind (arith_dec_new r) (\<lambda>(arith, r).
     let filters = build_filters (cs_filter_tables cs) in
     res_bind (cursor_set_new (cs_filter_segments cs) (dd_channel_count d) (dd_frame_bits d)
                 (ct_elements (cs_filter_tables cs)) FilterSegments) (\<lambda>fcursors.
     res_bind (cursor_set_new (cs_probability_segments cs) (dd_channel_count d) (dd_frame_bits d)
                 (ct_elements (cs_probability_tables cs)) ProbabilitySegments) (\<lambda>pcursors.
     res_bind (arith_get (prob_dst_x_bit (at2 (ct_coeff (cs_filter_tables cs)) 0 0)) (arith, r))
       (\<lambda>(_, arith, r).
     res_bind (decode_bits cs filters (dd_channel_count d) (dd_frame_bits d)
         \<lparr>fr_arith = arith, fr_reader = r, fr_filter_cursors = fcursors,
          fr_probability_cursors = pcursors, fr_status = initial_status, fr_out = out\<rparr>)
       (\<lambda>s. Inr (fr_out s))))))))"

text \<open>The written prefix and the untouched rest of the caller's buffer.\<close>

definition dst_decode_frame_into ::
  "dst_decoder \<Rightarrow> u8 list \<Rightarrow> u8 list \<Rightarrow> dst_error + nat \<times> u8 list" where
  "dst_decode_frame_into d input output =
     res_bind (dsd_frame_bytes d) (\<lambda>expected.
       if length output < expected then Inl (OutputBufferTooSmall expected (length output))
       else if input = [] then Inl (UnexpectedEof 0)
       else
         res_bind (read_bit (br_new input)) (\<lambda>(coded, r).
         res_bind (if coded = 0 then decode_uncompressed_dst_payload r expected
                   else decode_compressed_dst_payload d r (replicate expected 0))
           (\<lambda>out. Inr (expected, out @ drop expected output))))"

definition dst_decode_frame :: "dst_decoder \<Rightarrow> u8 list \<Rightarrow> dst_error + u8 list" where
  "dst_decode_frame d input =
     res_bind (dsd_frame_bytes d) (\<lambda>expected.
     res_bind (dst_decode_frame_into d input (replicate expected 0)) (\<lambda>(written, out).
       if written \<noteq> expected then Inl (OutputSizeMismatch expected written) else Inr out))"

definition decode_frame_with_rate :: "u8 list \<Rightarrow> nat \<Rightarrow> dst_rate \<Rightarrow> dst_error + u8 list" where
  "decode_frame_with_rate input channel_count rate =
     res_bind (dst_decoder_new channel_count rate) (\<lambda>d. dst_decode_frame d input)"

definition decode_frame_with_rate_into ::
  "u8 list \<Rightarrow> nat \<Rightarrow> dst_rate \<Rightarrow> u8 list \<Rightarrow> dst_error + nat \<times> u8 list" where
  "decode_frame_with_rate_into input channel_count rate output =
     res_bind (dst_decoder_new channel_count rate) (\<lambda>d. dst_decode_frame_into d input output)"

definition decode_frame_into :: "u8 list \<Rightarrow> nat \<Rightarrow> u8 list \<Rightarrow> dst_error + nat \<times> u8 list" where
  "decode_frame_into input channel_count output =
     decode_frame_with_rate_into input channel_count Dsd64 output"

definition decode_frame :: "u8 list \<Rightarrow> nat \<Rightarrow> dst_error + u8 list" where
  "decode_frame input channel_count = decode_frame_with_rate input channel_count Dsd64"

end
