(* ===== verification/DstCandidate.thy ===== *)
theory DstCandidate
  imports DstFrame
begin

text \<open>
  The writer of one predictive candidate in \<open>dst/encoder.rs\<close>: filter lookup tables, learned
  probability tables, arithmetic-coded residuals and the bit layout of a compressed frame.
\<close>

subsection \<open>Layouts\<close>

datatype dst_table_strategy = Shared | PerChannel

fun table_for_channel :: "dst_table_strategy \<Rightarrow> nat \<Rightarrow> nat list" where
  "table_for_channel Shared channels = replicate channels 0"
| "table_for_channel PerChannel channels = [0..<channels]"

fun uses_per_channel_tables :: "dst_table_strategy \<Rightarrow> bool" where
  "uses_per_channel_tables Shared = False"
| "uses_per_channel_tables PerChannel = True"

subsection \<open>Prediction from the source\<close>

definition get_interleaved_bit :: "u8 list \<Rightarrow> nat \<Rightarrow> nat \<Rightarrow> nat \<Rightarrow> nat" where
  "get_interleaved_bit dsd channels bit_index channel =
     (let byte_base = bit_index div 8 * channels; bit_in_byte = 7 - bit_index mod 8
      in unat (drop_bit bit_in_byte (dsd ! (byte_base + channel)) AND 1))"

definition clamp_i16 :: "int \<Rightarrow> int" where
  "clamp_i16 x = max (- (2 ^ 15)) (min (2 ^ 15 - 1) x)"

definition build_filter_lut :: "int list list \<Rightarrow> int list list list" where
  "build_filter_lut filters = map (\<lambda>coeffs. map (\<lambda>tap. map (\<lambda>history.
       clamp_i16 (filter_total coeffs (tap * 8) (min (length coeffs - tap * 8) 8) history))
       [0..<256]) [0..<16]) filters"

definition probability_bin :: "int \<Rightarrow> nat \<Rightarrow> nat" where
  "probability_bin predict table_len = min (nat \<bar>predict\<bar> div 8) (table_len - 1)"

definition probability_for_predict :: "int \<Rightarrow> int list \<Rightarrow> int" where
  "probability_for_predict predict table = table ! probability_bin predict (length table)"

text \<open>The residual of a source bit: the predicted sign, as a \<open>u8\<close>, against the bit.\<close>

definition residual_of :: "int \<Rightarrow> nat \<Rightarrow> nat" where
  "residual_of predict actual =
     unat (((word_of_int (drop_bit 15 predict) :: u8) XOR word_of_nat actual) AND 1)"

subsection \<open>Probability tables\<close>

definition saturating_inc32 :: "nat \<Rightarrow> nat" where
  "saturating_inc32 n = min (n + 1) (2 ^ 32 - 1)"

record bin_counts =
  bc_zeros :: "nat list list"
  bc_totals :: "nat list list"
  bc_status :: "u8 list list"

definition count_bit ::
  "u8 list \<Rightarrow> nat \<Rightarrow> int list list list \<Rightarrow> nat list \<Rightarrow> nat \<Rightarrow> nat \<Rightarrow> nat \<Rightarrow> bin_counts \<Rightarrow> bin_counts" where
  "count_bit dsd channels lut tables table_count bit_index ch s =
     (let table = min (tables ! ch) (table_count - 1);
          predict = predict_from_lut (lut ! table) (bc_status s ! ch);
          actual = get_interleaved_bit dsd channels bit_index ch;
          residual = residual_of predict actual;
          bin = probability_bin predict 64
      in s\<lparr>bc_totals := upd2 (bc_totals s) table bin (saturating_inc32 (at2 (bc_totals s) table bin)),
           bc_zeros := (if residual = 0
             then upd2 (bc_zeros s) table bin (saturating_inc32 (at2 (bc_zeros s) table bin))
             else bc_zeros s),
           bc_status := (bc_status s)[ch := push_status_bit actual (bc_status s ! ch)]\<rparr>)"

definition count_bits ::
  "u8 list \<Rightarrow> nat \<Rightarrow> int list list list \<Rightarrow> nat list \<Rightarrow> nat \<Rightarrow> bin_counts" where
  "count_bits dsd channels lut tables table_count =
     fold (\<lambda>bit_index. fold (count_bit dsd channels lut tables table_count bit_index) [0..<channels])
       [0..<frame_bits_dsd64]
       \<lparr>bc_zeros = replicate table_count (replicate 64 0),
        bc_totals = replicate table_count (replicate 64 0), bc_status = initial_status\<rparr>"

definition bin_probability :: "nat \<Rightarrow> nat \<Rightarrow> int" where
  "bin_probability zeros n =
     (if n = 0 then 64 else int (max 1 (min 128 ((zeros * 128 + n div 2) div n))))"

text \<open>The loop that drops trailing default entries, keeping at least one.\<close>

fun pop_trailing :: "'a \<Rightarrow> 'a list \<Rightarrow> 'a list" where
  "pop_trailing x row =
     (if length row > 1 \<and> last row = x then pop_trailing x (butlast row) else row)"

declare pop_trailing.simps [simp del]

definition derive_probability_tables ::
  "u8 list \<Rightarrow> nat \<Rightarrow> int list list list \<Rightarrow> nat list \<Rightarrow> int list list" where
  "derive_probability_tables dsd channels lut tables =
     (let table_count = max (length lut) 1;
          s = count_bits dsd channels lut tables table_count
      in map (\<lambda>table. pop_trailing 64 (map (\<lambda>bin.
           bin_probability (at2 (bc_zeros s) table bin) (at2 (bc_totals s) table bin)) [0..<64]))
         [0..<table_count])"

subsection \<open>Residuals\<close>

definition encode_residual_bit ::
  "u8 list \<Rightarrow> nat \<Rightarrow> int list list list \<Rightarrow> int list list \<Rightarrow> nat list \<Rightarrow> nat \<Rightarrow> nat \<Rightarrow>
     arith_enc \<times> u8 list list \<Rightarrow> (arith_enc \<times> u8 list list) option" where
  "encode_residual_bit dsd channels lut probs tables bit_index ch = (\<lambda>(e, status).
     let table = min (tables ! ch) (length lut - 1);
         predict = predict_from_lut (lut ! table) (status ! ch);
         actual = get_interleaved_bit dsd channels bit_index ch;
         residual = residual_of predict actual;
         p = nat (probability_for_predict predict (probs ! table))
     in Option.bind (encode_bit residual p e)
          (\<lambda>e. Some (e, status[ch := push_status_bit actual (status ! ch)])))"

definition encode_residuals ::
  "u8 list \<Rightarrow> nat \<Rightarrow> int list list list \<Rightarrow> int list list \<Rightarrow> nat list \<Rightarrow> int \<Rightarrow> nat list option" where
  "encode_residuals dsd channels lut probs tables first_filter_coeff =
     Option.bind (encode_bit 0 (nat (prob_dst_x_bit first_filter_coeff)) arith_enc_new) (\<lambda>e.
     Option.bind
       (fold_opt (\<lambda>bit_index. fold_opt (encode_residual_bit dsd channels lut probs tables bit_index)
            [0..<channels]) [0..<frame_bits_dsd64] (e, initial_status))
       (\<lambda>(e, _). Some (enc_finish e)))"

subsection \<open>The bit layout\<close>

definition write_segment_header :: "bit_writer \<Rightarrow> bit_writer" where
  "write_segment_header w = write_bit 1 (write_bit 1 (write_bit 1 w))"

definition log2_floor_usize :: "nat \<Rightarrow> nat" where
  "log2_floor_usize v = 64 - 1 - (64 - bit_len v)"

definition write_table_map :: "nat \<Rightarrow> bool \<Rightarrow> bit_writer \<Rightarrow> bit_writer" where
  "write_table_map channels per_channel w =
     (if \<not> per_channel \<or> channels = 1 then write_bit 1 w
      else snd (fold (\<lambda>_ (existing, w). (existing + 1, write_bits existing (log2_floor_usize existing + 1) w))
                  [1..<channels] (1, write_bit 0 w)))"

definition write_filter_table :: "int list \<Rightarrow> bit_writer \<Rightarrow> bit_writer" where
  "write_filter_table coeffs w =
     fold (\<lambda>c w. write_signed c 9 w) coeffs (write_bit 0 (write_bits (length coeffs - 1) 7 w))"

definition write_probability_table :: "int list \<Rightarrow> bit_writer \<Rightarrow> bit_writer" where
  "write_probability_table table w =
     fold (\<lambda>p w. write_bits (nat (p - 1)) 7 w) table (write_bit 0 (write_bits (length table - 1) 6 w))"

definition write_candidate_header ::
  "nat \<Rightarrow> int list list \<Rightarrow> int list list \<Rightarrow> dst_table_strategy \<Rightarrow> bit_writer" where
  "write_candidate_header channels filters probs layout =
     (let w = write_segment_header (write_bit 1 bw_new);
          w = write_table_map channels (uses_per_channel_tables layout) (write_bit 1 w);
          w = fold (\<lambda>_. write_bit 0) [0..<channels] w;
          w = fold write_filter_table filters w;
          w = fold write_probability_table probs w
      in write_bit 0 w)"

definition first_filter_coeff :: "int list list \<Rightarrow> int" where
  "first_filter_coeff filters =
     (case filters of (c # _) # _ \<Rightarrow> c | _ \<Rightarrow> 0)"

definition encode_predictive_candidate ::
  "u8 list \<Rightarrow> nat \<Rightarrow> int list list \<Rightarrow> nat list \<Rightarrow> dst_table_strategy \<Rightarrow> u8 list option" where
  "encode_predictive_candidate dsd channels filters tables layout =
     (let lut = build_filter_lut filters;
          probs = derive_probability_tables dsd channels lut tables;
          w = write_candidate_header channels filters probs layout
      in Option.bind (encode_residuals dsd channels lut probs tables (first_filter_coeff filters))
           (\<lambda>arith_bits. Some (into_bytes (write_bit_slice arith_bits w))))"

end
