(* ===== verification/DstRoundTrip.thy ===== *)
theory DstRoundTrip
  imports DstCandidate
begin

text \<open>
  The encoder and the decoder put together. The header the candidate writer lays out is the bit
  string \<open>candidate_header\<close>; the syntax reader, on a view that starts with it, returns the
  tables it was written from. The residual loop of the encoder is a run of the arithmetic coder
  over \<open>frame_symbols\<close>, and the decoding loop rebuilds the source bit by bit.
\<close>

subsection \<open>Readers that consume a known bit string\<close>

definition delivers :: "(bit_reader \<Rightarrow> 'e + 'a \<times> bit_reader) \<Rightarrow> nat list \<Rightarrow> 'a \<Rightarrow> bool" where
  "delivers rd bs v \<longleftrightarrow>
     (\<forall>r rest. br_ok r \<longrightarrow> br_view r = bs @ rest \<longrightarrow> rd r = Inr (v, br_advance (length bs) r))"

lemma deliversD:
  "delivers rd bs v \<Longrightarrow> br_ok r \<Longrightarrow> br_view r = bs @ rest \<Longrightarrow> rd r = Inr (v, br_advance (length bs) r)"
  by (simp add: delivers_def)

lemma delivers_bind:
  assumes "delivers rd xs v" and "delivers (\<lambda>r. k (v, r)) ys u"
  shows "delivers (\<lambda>r. res_bind (rd r) k) (xs @ ys) u"
  using assms by (auto simp: delivers_def br_view_advance)

lemma delivers_return: "delivers (\<lambda>r. Inr (v, r)) [] v"
  by (simp add: delivers_def)

lemma delivers_bind_return:
  assumes "delivers rd xs v" and "\<And>r. k (v, r) = Inr (u, r)"
  shows "delivers (\<lambda>r. res_bind (rd r) k) xs u"
  using delivers_bind[OF assms(1), of k "[]" u] assms(2) by (simp add: delivers_return)

lemma delivers_read_bit: "delivers read_bit [b] b"
  using read_bit_view by (auto simp: delivers_def)

lemma delivers_read_bits:
  "length bs = n \<Longrightarrow> n \<le> 32 \<Longrightarrow> delivers (read_bits n) bs (num_of_bits bs)"
  using read_bits_view by (auto simp: delivers_def)

lemma delivers_field:
  "n \<le> 32 \<Longrightarrow> v < 2 ^ n \<Longrightarrow> delivers (read_bits n) (bits_of_num n v) v"
  using delivers_read_bits[of "bits_of_num n v" n] by simp

lemma delivers_read_signed:
  "0 < n \<Longrightarrow> n < 32 \<Longrightarrow> - (2 ^ (n - 1)) \<le> v \<Longrightarrow> v < 2 ^ (n - 1) \<Longrightarrow>
     delivers (read_signed n) (signed_digits n v) v"
  using read_signed_view by (auto simp: delivers_def)

text \<open>A loop over readers, its state after \<open>k\<close> iterations given by \<open>st k\<close>.\<close>

lemma delivers_fold:
  assumes "\<And>k. k < length xs \<Longrightarrow> delivers (\<lambda>r. f (xs ! k) (st k, r)) (bs k) (st (Suc k))"
  shows "delivers (\<lambda>r. fold_res f xs (st 0, r)) (concat (map bs [0..<length xs])) (st (length xs))"
  using assms
proof (induction xs arbitrary: st bs)
  case Nil
  then show ?case by (simp add: delivers_return)
next
  case (Cons x xs)
  have "delivers (\<lambda>r. fold_res f xs (st (Suc 0), r)) (concat (map (\<lambda>k. bs (Suc k)) [0..<length xs]))
      (st (Suc (length xs)))"
  proof (rule Cons.IH[where st = "\<lambda>k. st (Suc k)"])
    fix k assume "k < length xs"
    then show "delivers (\<lambda>r. f (xs ! k) (st (Suc k), r)) (bs (Suc k)) (st (Suc (Suc k)))"
      using Cons.prems[of "Suc k"] by simp
  qed
  moreover have "delivers (\<lambda>r. f x (st 0, r)) (bs 0) (st (Suc 0))" using Cons.prems[of 0] by simp
  ultimately have "delivers (\<lambda>r. res_bind (f x (st 0, r)) (fold_res f xs))
      (bs 0 @ concat (map (\<lambda>k. bs (Suc k)) [0..<length xs])) (st (Suc (length xs)))"
    by (intro delivers_bind)
  moreover have "[0..<Suc (length xs)] = 0 # map Suc [0..<length xs]"
    by (simp add: map_Suc_upt upt_conv_Cons del: upt_Suc)
  ultimately show ?case by (simp add: comp_def del: upt_Suc)
qed

subsection \<open>Segments and table maps of a candidate\<close>

lemma log2_round_up_from_bounds:
  "log2_round_up_from x y \<le> z" if "x < 2 ^ z" and "y \<le> z"
  using that
proof (induction x y rule: log2_round_up_from.induct)
  case (1 x y)
  show ?case
  proof (cases "2 ^ y \<le> x")
    case True
    then have "(2::nat) ^ y < 2 ^ z" using "1.prems" by linarith
    then have "y < z" by (rule power_less_imp_less_exp[rotated]) simp
    then show ?thesis using "1.IH" True "1.prems" by (simp add: log2_round_up_from.simps[of x y])
  next
    case False
    then show ?thesis using "1.prems" by (simp add: log2_round_up_from.simps[of x y])
  qed
qed

lemma log2_round_up_gt: "x < 2 ^ log2_round_up_from x y"
proof (induction x y rule: log2_round_up_from.induct)
  case (1 x y)
  then show ?case by (cases "2 ^ y \<le> x") (simp_all add: log2_round_up_from.simps[of x y])
qed

lemma log2_round_up_bit_len: "log2_round_up x = bit_len x"
proof (cases "x = 0")
  case True
  then show ?thesis by (simp add: log2_round_up_def log2_round_up_from.simps[of 0 0])
next
  case False
  then have b: "2 ^ (bit_len x - 1) \<le> x" "x < 2 ^ bit_len x" "0 < bit_len x"
    using bit_len_bounds[of x] by auto
  have "log2_round_up x \<le> bit_len x"
    using log2_round_up_from_bounds[OF b(2), of 0] by (simp add: log2_round_up_def)
  moreover have "(2::nat) ^ (bit_len x - 1) < 2 ^ log2_round_up x"
    using b(1) log2_round_up_gt[of x 0] unfolding log2_round_up_def by (rule le_less_trans)
  then have "bit_len x - 1 < log2_round_up x" by (rule power_less_imp_less_exp[rotated]) simp
  ultimately show ?thesis using b(3) by simp
qed

lemma fold_fixpoint: "(\<And>x. x \<in> set xs \<Longrightarrow> f x s = s) \<Longrightarrow> fold f xs s = s"
  by (induction xs) simp_all

lemma fold_res_fixpoint: "(\<And>x. x \<in> set xs \<Longrightarrow> f x s = Inr s) \<Longrightarrow> fold_res f xs s = Inr s"
  by (induction xs) simp_all

definition candidate_segments :: "nat list \<Rightarrow> nat \<Rightarrow> segment_data" where
  "candidate_segments tables n = segment_data_default\<lparr>sd_table :=
     map (\<lambda>ch. (if ch < n then tables ! ch else 0) # replicate 7 0) [0..<6]\<rparr>"

lemma candidate_segments_fields [simp]:
  "sd_count (candidate_segments tables n) = replicate 6 1"
  "sd_len (candidate_segments tables n) = replicate 6 (replicate 8 0)"
  "sd_resolution (candidate_segments tables n) = 1"
  "ch < 6 \<Longrightarrow> at2 (sd_table (candidate_segments tables n)) ch 0 = (if ch < n then tables ! ch else 0)"
  by (simp_all add: candidate_segments_def segment_data_default_def)

lemma candidate_segments_0: "candidate_segments tables 0 = segment_data_default"
  by (simp add: candidate_segments_def segment_data_default_def numeral_nat)

lemma candidate_segments_step:
  "ch < 6 \<Longrightarrow> (candidate_segments tables ch)\<lparr>sd_table :=
     upd2 (sd_table (candidate_segments tables ch)) ch 0 (tables ! ch)\<rparr> = candidate_segments tables (Suc ch)"
  unfolding candidate_segments_def upd2_def
  by (rule segment_data.equality) (auto intro!: nth_equalityI simp: nth_list_update less_Suc_eq)

lemma segment_data_default_fields [simp]:
  "sd_count segment_data_default = replicate 6 1"
  "sd_len segment_data_default = replicate 6 (replicate 8 0)"
  "sd_table segment_data_default = replicate 6 (replicate 8 0)"
  "sd_resolution segment_data_default = 1"
  by (simp_all add: segment_data_default_def)

lemma replicate_update_same: "(replicate n x)[i := x] = replicate n x"
  by (cases "i < n") (simp_all add: list_update_same_conv list_update_beyond)

lemma upd2_zero: "upd2 (replicate n (replicate k x)) i j x = replicate n (replicate k x)"
  by (cases "i < n") (simp_all add: upd2_def replicate_update_same list_update_beyond)

lemma delivers_one_segment:
  assumes "min_bits div 8 \<le> frame_bytes"
  shows "delivers (\<lambda>r. read_one_channel_segments frame_bytes max_segments min_bits 0 (segment_data_default, r))
    [1] segment_data_default"
proof -
  have "(segment_data_default\<lparr>sd_count := (replicate 6 1)[0 := 1],
      sd_len := upd2 (replicate 6 (replicate 8 0)) 0 0 0, sd_resolution := 1\<rparr>) = segment_data_default"
    by (simp add: segment_data_default_def replicate_update_same upd2_zero)
  then show ?thesis
    using assms
    by (auto simp: delivers_def read_one_channel_segments_def checked_defs Let_def
        read_segments_loop.simps[of 0] read_segments_loop.simps[of _ _ _ _ _ _ 0] read_bit_view
        simp del: segment_data.update_convs)
qed

lemma share_first_channel_default: "share_first_channel channels segment_data_default = segment_data_default"
proof -
  have len: "segment_data_default\<lparr>sd_len := upd2 (sd_len segment_data_default) ch seg
      (at2 (sd_len segment_data_default) 0 seg)\<rparr> = segment_data_default" if "seg < 1" for ch seg
    using that by (simp add: upd2_zero)
  have count: "segment_data_default\<lparr>sd_count := (sd_count segment_data_default)[ch := 1]\<rparr>
      = segment_data_default" for ch
    by (simp add: replicate_update_same)
  have zero: "sd_count segment_data_default ! 0 = 1" by simp
  show ?thesis unfolding share_first_channel_def
    by (rule fold_fixpoint, simp only: zero count, rule fold_fixpoint) (use len in auto)
qed

lemma delivers_segment_data:
  assumes "min_bits div 8 \<le> frame_bytes"
  shows "delivers (segment_data_read channels frame_bytes max_segments min_bits) [1, 1]
    (segment_data_default, True)"
proof -
  have "delivers (\<lambda>r. res_bind (read_bit r) (\<lambda>(same, r).
       if same \<noteq> 0 then
         res_bind (read_one_channel_segments frame_bytes max_segments min_bits 0 (segment_data_default, r))
           (\<lambda>(d, r). Inr ((share_first_channel channels d, True), r))
       else
         res_bind (fold_res (read_one_channel_segments frame_bytes max_segments min_bits)
                     [0..<channels] (segment_data_default, r))
           (\<lambda>(d, r). Inr ((d, False), r)))) ([1] @ [1]) (segment_data_default, True)"
    by (rule delivers_bind[OF delivers_read_bit])
      (simp del: One_nat_def, rule delivers_bind_return[OF delivers_one_segment[OF assms]],
        simp add: share_first_channel_default)
  then show ?thesis by (simp add: segment_data_read_def[abs_def])
qed

lemma copy_from_filter_default:
  "channels \<le> 6 \<Longrightarrow>
     copy_from_filter_for_probability segment_data_default channels = Inr segment_data_default"
  unfolding copy_from_filter_for_probability_def
  by (subst fold_res_fixpoint) (auto intro!: fold_res_fixpoint)

lemma delivers_segments:
  assumes "channels \<le> 6" and "128 \<le> frame_bytes"
  shows "delivers (compressed_segments_read channels frame_bytes) [1, 1, 1]
    (segment_data_default, segment_data_default)"
proof -
  have "delivers (compressed_segments_read channels frame_bytes) ([1] @ [1, 1] @ [])
      (segment_data_default, segment_data_default)"
    unfolding compressed_segments_read_def[abs_def]
    apply (rule delivers_bind[OF delivers_read_bit])
    apply simp
    apply (rule delivers_bind[where v = "(segment_data_default, True)" and ys = "[]", simplified])
    using assms delivers_segment_data[of 1024] copy_from_filter_default
     apply (auto simp: delivers_return)
    done
  then show ?thesis by simp
qed

lemma delivers_share_mapping:
  "channels \<le> 6 \<Longrightarrow> share_first_mapping channels segment_data_default = Inr segment_data_default"
proof -
  have t: "segment_data_default\<lparr>sd_table := upd2 (sd_table segment_data_default) ch seg
      (at2 (sd_table segment_data_default) 0 seg)\<rparr> = segment_data_default" if "seg < 1" for ch seg
    using that by (simp add: upd2_zero)
  have zero: "sd_count segment_data_default ! 0 = 1" by simp
  assume "channels \<le> 6"
  then show ?thesis unfolding share_first_mapping_def zero
    by (intro fold_res_fixpoint) (use t fold_fixpoint in \<open>auto simp: t\<close>)
qed

text \<open>The explicit map: channel \<open>ch\<close> is given the next new table \<open>ch\<close>.\<close>

definition table_map_bits :: "nat \<Rightarrow> bool \<Rightarrow> nat list" where
  "table_map_bits channels per_channel =
     (if \<not> per_channel \<or> channels = 1 then [1]
      else 0 # concat (map (\<lambda>ch. bits_of_num (bit_len ch) ch) [1..<channels]))"

lemma delivers_map_entry:
  assumes "ch < 6" and "0 < ch" and "ch < n"
  shows "delivers (\<lambda>r. read_map_entry ch 0 ((ch, candidate_segments [0..<n] ch), r))
    (bits_of_num (bit_len ch) ch) (Suc ch, candidate_segments [0..<n] (Suc ch))"
proof -
  have b: "2 ^ (bit_len ch - 1) \<le> ch" "ch < 2 ^ bit_len ch" using bit_len_bounds[OF assms(2)] by auto
  have "bit_len ch \<le> 32"
  proof (rule ccontr)
    assume "\<not> bit_len ch \<le> 32"
    then have "(2::nat) ^ 3 \<le> 2 ^ (bit_len ch - 1)" by (intro power_increasing) auto
    then show False using b(1) assms(1) by simp
  qed
  then have f: "delivers (read_bits (bit_len ch)) (bits_of_num (bit_len ch) ch) ch"
    using b(2) by (rule delivers_field)
  have step: "(candidate_segments [0..<n] ch)\<lparr>sd_table :=
      upd2 (sd_table (candidate_segments [0..<n] ch)) ch 0 ch\<rparr> = candidate_segments [0..<n] (Suc ch)"
    using candidate_segments_step[of ch "[0..<n]"] assms by simp
  show ?thesis
    unfolding read_map_entry_def read_table_number_def log2_round_up_bit_len split
    by (rule delivers_bind_return[OF f]) (use assms in \<open>simp add: step checked_defs Let_def\<close>)
qed

lemma delivers_mapping:
  assumes "1 \<le> channels" and "channels \<le> 6"
  shows "delivers (read_table_mapping_data channels (2 * channels) segment_data_default)
    (table_map_bits channels (uses_per_channel_tables layout))
    (if layout = PerChannel then channels else 1, candidate_segments (table_for_channel layout channels) channels)"
proof (cases "layout = PerChannel \<and> channels \<noteq> 1")
  case False
  have d: "candidate_segments (table_for_channel layout channels) channels = segment_data_default"
  proof -
    have "(if ch < channels then table_for_channel layout channels ! ch else 0) = 0" for ch
      using False by (cases layout) auto
    then show ?thesis unfolding candidate_segments_def
      by (simp add: segment_data_default_def numeral_nat)
  qed
  have r0: "segment_data_default\<lparr>sd_table := upd2 (sd_table segment_data_default) 0 0 0\<rparr> = segment_data_default"
    by (simp add: upd2_zero)
  have cnt: "(if layout = PerChannel then channels else 1) = 1" using False by auto
  have bits: "table_map_bits channels (uses_per_channel_tables layout) = [1]"
    using False by (cases layout) (auto simp: table_map_bits_def)
  show ?thesis unfolding bits d cnt read_table_mapping_data_def[abs_def] r0 Let_def
    by (rule delivers_bind_return[OF delivers_read_bit])
      (use assms delivers_share_mapping[OF assms(2)] in simp)
next
  case True
  then have per: "layout = PerChannel" and ne: "channels \<noteq> 1" by auto
  let ?st = "\<lambda>k. (max 1 k, candidate_segments [0..<channels] k)"
  let ?bs = "\<lambda>k. if k = 0 then [] else bits_of_num (bit_len k) k"
  let ?body = "\<lambda>ch s. fold_res (\<lambda>seg s. if ch = 0 \<and> seg = 0 then Inr s else read_map_entry ch seg s)
      [0..<sd_count segment_data_default ! ch] s"
  have one: "[0..<sd_count segment_data_default ! ch] = [0]" if "ch < 6" for ch
    using that by simp
  have "delivers (\<lambda>r. ?body ([0..<channels] ! k) (?st k, r)) (?bs k) (?st (Suc k))"
    if k: "k < length [0..<channels]" for k
  proof (cases "k = 0")
    case True
    have "candidate_segments [0..<channels] (Suc 0) = candidate_segments [0..<channels] 0"
      using assms by (auto simp: candidate_segments_def intro!: segment_data.equality)
    then show ?thesis using True assms k by (simp add: delivers_return)
  next
    case False
    have "res_bind m (fold_res f []) = m"
      for m :: "dst_error + (nat \<times> segment_data) \<times> bit_reader" and f :: "nat \<Rightarrow> _"
      by (cases m) simp_all
    then show ?thesis using delivers_map_entry[of k channels] k False assms one[of k] by simp
  qed
  from delivers_fold[where st = ?st and bs = ?bs, OF this]
  have "delivers (\<lambda>r. fold_res ?body [0..<channels] (?st 0, r)) (concat (map ?bs [0..<channels])) (?st channels)"
    by (simp del: upt_Suc)
  moreover have "concat (map ?bs [0..<channels]) = concat (map (\<lambda>ch. bits_of_num (bit_len ch) ch) [1..<channels])"
    using assms(1) by (auto simp: upt_conv_Cons intro!: arg_cong[where f = concat])
  ultimately have loop: "delivers (\<lambda>r. fold_res ?body [0..<channels] ((1, segment_data_default), r))
      (concat (map (\<lambda>ch. bits_of_num (bit_len ch) ch) [1..<channels]))
      (channels, candidate_segments [0..<channels] channels)"
    using assms by (simp add: candidate_segments_0 max_def)
  have r0: "segment_data_default\<lparr>sd_table := upd2 (sd_table segment_data_default) 0 0 0\<rparr> = segment_data_default"
    by (simp add: upd2_zero)
  have bits: "table_map_bits channels (uses_per_channel_tables layout)
      = [0] @ concat (map (\<lambda>ch. bits_of_num (bit_len ch) ch) [1..<channels])"
    using per ne by (simp add: table_map_bits_def)
  show ?thesis unfolding bits read_table_mapping_data_def[abs_def] r0 Let_def
    by (rule delivers_bind[OF delivers_read_bit], simp only: split simp_thms if_False,
      rule delivers_bind_return[OF loop]) (use assms per in simp)
qed

lemma fold_res_steps:
  "(\<And>k. k < length xs \<Longrightarrow> f (xs ! k) (st k) = Inr (st (Suc k))) \<Longrightarrow>
     fold_res f xs (st 0) = Inr (st (length xs))"
  using fold_res_total[where P = "\<lambda>k s. s = st k" and s = "st 0" and xs = xs and f = f] by auto

lemma copy_mapping_candidate:
  assumes "channels \<le> 6"
  shows "copy_mapping_from_filter (candidate_segments tables channels) segment_data_default channels
    = Inr (candidate_segments tables channels)"
proof -
  have "copy_mapping_from_filter (candidate_segments tables channels) (candidate_segments tables 0) channels
      = Inr (candidate_segments tables (length [0..<channels]))"
    unfolding copy_mapping_from_filter_def
  proof (rule fold_res_steps)
    fix k assume "k < length [0..<channels]"
    then show "(if sd_count (candidate_segments tables k) ! ([0..<channels] ! k)
          \<noteq> sd_count (candidate_segments tables channels) ! ([0..<channels] ! k) then
         Inl (InvalidMapping ''probability and filter segment counts differ'')
       else Inr (fold (\<lambda>seg d. d\<lparr>sd_table := upd2 (sd_table d) ([0..<channels] ! k) seg
                (at2 (sd_table (candidate_segments tables channels)) ([0..<channels] ! k) seg)\<rparr>)
              [0..<sd_count (candidate_segments tables k) ! ([0..<channels] ! k)] (candidate_segments tables k)))
       = Inr (candidate_segments tables (Suc k))"
      using assms candidate_segments_step[of k tables] by simp
  qed
  then show ?thesis by (simp add: candidate_segments_0)
qed

lemma delivers_compressed_mapping:
  assumes "1 \<le> channels" and "channels \<le> 6"
    and n: "n = (if layout = PerChannel then channels else 1)"
    and d: "d = candidate_segments (table_for_channel layout channels) channels"
  shows "delivers (compressed_mapping_read channels segment_data_default segment_data_default)
    (1 # table_map_bits channels (uses_per_channel_tables layout)) (n, d, n, d)"
proof -
  have "delivers (compressed_mapping_read channels segment_data_default segment_data_default)
      ([1] @ table_map_bits channels (uses_per_channel_tables layout)) (n, d, n, d)"
    unfolding compressed_mapping_read_def[abs_def]
    by (rule delivers_bind[OF delivers_read_bit], simp only: split,
      rule delivers_bind_return[OF delivers_mapping[OF assms(1,2), folded n d]])
      (simp add: d n copy_mapping_candidate[OF assms(2)])
  then show ?thesis by simp
qed

lemma concat_replicate_single: "concat (map (\<lambda>_. [x]) xs) = replicate (length xs) x"
  by (induction xs) simp_all


lemma delivers_half_probability:
  "delivers (read_half_probability channels) (replicate channels 0) (replicate 6 False)"
proof -
  have "delivers (\<lambda>r. (\<lambda>ch (hp, r). res_bind (read_bit r) (\<lambda>(b, r). Inr (hp[ch := (b \<noteq> 0)], r)))
      ([0..<channels] ! k) (replicate 6 False, r)) [0] (replicate 6 False)" for k
    unfolding split
    by (rule delivers_bind_return[OF delivers_read_bit]) (simp add: replicate_update_same)
  from delivers_fold[where st = "\<lambda>_. replicate 6 False" and bs = "\<lambda>_. [0]" and xs = "[0..<channels]"
      and f = "\<lambda>ch (hp, r). res_bind (read_bit r) (\<lambda>(b, r). Inr (hp[ch := (b \<noteq> 0)], r))", OF this]
  show ?thesis by (simp only: read_half_probability_def[abs_def] concat_replicate_single length_upt diff_zero)
qed

subsection \<open>Coefficient tables of a candidate\<close>

definition padded_row :: "int list \<Rightarrow> int list" where
  "padded_row row = row @ replicate (128 - length row) 0"

definition coeff_table_of :: "nat \<Rightarrow> int list list \<Rightarrow> nat \<Rightarrow> coeff_table" where
  "coeff_table_of n rows k = \<lparr>ct_elements = n,
     ct_length = map (\<lambda>i. if i < k then length (rows ! i) else 0) [0..<12],
     ct_coeff = map (\<lambda>i. if i < k then padded_row (rows ! i) else replicate 128 0) [0..<12]\<rparr>"

lemma delivers_uncoded_range:
  assumes "\<And>v. v \<in> set row \<Longrightarrow> delivers (read_uncoded_coeff coeff_bits is_signed offset) (dg v) v"
    and "length row \<le> 128"
  shows "delivers (\<lambda>r. read_uncoded_range 0 (length row) coeff_bits is_signed offset (replicate 128 0, r))
    (concat (map dg row)) (padded_row row)"
proof -
  let ?st = "\<lambda>k. take k row @ replicate (128 - k) 0"
  let ?f = "\<lambda>idx (acc, r). res_bind (read_uncoded_coeff coeff_bits is_signed offset r)
      (\<lambda>(v, r). Inr (acc[idx := v], r))"
  have step: "delivers (\<lambda>r. ?f ([0..<length row] ! k) (?st k, r)) (dg (row ! k)) (?st (Suc k))"
    if k: "k < length [0..<length row]" for k
  proof -
    have "128 - k = Suc (128 - Suc k)" using k assms(2) by simp
    then have e: "(?st k)[k := row ! k] = ?st (Suc k)"
      using k by (simp add: take_Suc_conv_app_nth list_update_append)
    show ?thesis unfolding split
      by (rule delivers_bind_return[OF assms(1)]) (use k e in simp_all)
  qed
  from delivers_fold[where st = ?st and bs = "\<lambda>k. dg (row ! k)", OF this]
  have "delivers (\<lambda>r. fold_res ?f [0..<length row] (?st 0, r)) (concat (map (\<lambda>k. dg (row ! k)) [0..<length row]))
      (?st (length row))"
    by simp
  moreover have "map (\<lambda>k. dg (row ! k)) [0..<length row] = map dg row"
    by (rule nth_equalityI) simp_all
  ultimately show ?thesis by (simp add: read_uncoded_range_def padded_row_def)
qed

lemma clear_tail_padded: "clear_tail (length row) (padded_row row) = padded_row row"
  unfolding clear_tail_def
proof (rule fold_fixpoint)
  fix idx assume "idx \<in> set [length row..<128]"
  then show "(padded_row row)[idx := 0] = padded_row row"
    by (simp add: padded_row_def list_update_append replicate_update_same)
qed

lemma delivers_table:
  assumes dg: "\<And>row v. row \<in> set rows \<Longrightarrow> v \<in> set row \<Longrightarrow>
      delivers (read_uncoded_coeff coeff_bits is_signed offset) (dg v) v"
    and len: "\<And>row. row \<in> set rows \<Longrightarrow> 0 < length row \<and> length row \<le> 128 \<and> length row \<le> 2 ^ length_bits"
    and range: "\<And>row v. \<not> is_signed \<Longrightarrow> row \<in> set rows \<Longrightarrow> v \<in> set row \<Longrightarrow> 1 \<le> v \<and> v \<le> 128"
    and n: "0 < length rows" "length rows \<le> 12" and "length_bits \<le> 32"
  shows "delivers (read_table (coeff_table_default\<lparr>ct_elements := length rows\<rparr>) preds length_bits coeff_bits
      is_signed offset)
    (concat (map (\<lambda>row. bits_of_num length_bits (length row - 1) @ 0 # concat (map dg row)) rows))
    (coeff_table_of (length rows) rows (length rows))"
proof -
  let ?st = "coeff_table_of (length rows) rows"
  let ?bs = "\<lambda>row. bits_of_num length_bits (length row - 1) @ 0 # concat (map dg row)"
  have step: "delivers (\<lambda>r. read_table_element preds length_bits coeff_bits is_signed offset
      ([0..<length rows] ! k) (?st k, r)) (?bs (rows ! k)) (?st (Suc k))"
    if "k < length [0..<length rows]" for k
  proof -
    have k: "k < length rows" "rows ! k \<in> set rows" using that by simp_all
    let ?row = "rows ! k"
    have f: "delivers (read_bits length_bits) (bits_of_num length_bits (length ?row - 1)) (length ?row - 1)"
      using len[OF k(2)] assms(6) by (intro delivers_field) linarith+
    have row0: "ct_coeff (?st k) ! k = replicate 128 0"
      using k n by (simp add: coeff_table_of_def)
    have u: "delivers (\<lambda>r. read_uncoded_range 0 (length ?row) coeff_bits is_signed offset (replicate 128 0, r))
        (concat (map dg ?row)) (padded_row ?row)"
      using dg[OF k(2)] len[OF k(2)] by (intro delivers_uncoded_range) auto
    have "delivers (read_coeff_row preds (length ?row) coeff_bits is_signed offset (replicate 128 0))
        ([0] @ concat (map dg ?row)) (padded_row ?row)"
      unfolding read_coeff_row_def[abs_def]
      by (rule delivers_bind[OF delivers_read_bit], simp only: split simp_thms if_True, rule u)
    then have c: "delivers (read_coeff_row preds (length ?row) coeff_bits is_signed offset (replicate 128 0))
        (0 # concat (map dg ?row)) (padded_row ?row)" by simp
    have ok: "check_probability_row is_signed (length ?row) (padded_row ?row) = Inr ()"
      using range[OF _ k(2)] by (auto simp: check_probability_row_def padded_row_def nth_append)
    have upd: "?st k\<lparr>ct_length := (ct_length (?st k))[k := length ?row],
        ct_coeff := (ct_coeff (?st k))[k := clear_tail (length ?row) (padded_row ?row)]\<rparr> = ?st (Suc k)"
      using k n unfolding clear_tail_padded coeff_table_of_def
      by (auto intro!: nth_equalityI simp: nth_list_update less_Suc_eq)
    have s: "Suc (length ?row - 1) = length ?row" using len[OF k(2)] by simp
    have at: "[0..<length rows] ! k = k" using k by simp
    have nlt: "(128 < length ?row) = False" using len[OF k(2)] by simp
    show ?thesis unfolding read_table_element_def at split row0
      by (rule delivers_bind[OF f], simp only: split Let_def Suc_eq_plus1[symmetric] s nlt if_False,
        rule delivers_bind_return[OF c]) (simp only: split ok res_bind_Inr upd)
  qed
  from delivers_fold[where st = ?st and bs = "\<lambda>k. ?bs (rows ! k)", OF this]
  have "delivers (\<lambda>r. fold_res (read_table_element preds length_bits coeff_bits is_signed offset)
      [0..<length rows] (?st 0, r)) (concat (map (\<lambda>k. ?bs (rows ! k)) [0..<length rows])) (?st (length rows))"
    by simp
  moreover have "map (\<lambda>k. ?bs (rows ! k)) [0..<length rows] = map ?bs rows"
    by (rule nth_equalityI) simp_all
  moreover have "?st 0 = coeff_table_default\<lparr>ct_elements := length rows\<rparr>"
    by (simp add: coeff_table_of_def coeff_table_default_def map_replicate_const)
  ultimately show ?thesis using n by (simp add: read_table_def[abs_def])
qed

subsection \<open>The header of a candidate\<close>

definition filters_ok :: "nat \<Rightarrow> int list list \<Rightarrow> dst_table_strategy \<Rightarrow> bool" where
  "filters_ok channels filters layout \<longleftrightarrow>
     length filters = (if layout = PerChannel then channels else 1) \<and>
     (\<forall>row \<in> set filters. 1 \<le> length row \<and> length row \<le> 128 \<and> (\<forall>c \<in> set row. -256 \<le> c \<and> c \<le> 255))"

definition probabilities_ok :: "nat \<Rightarrow> int list list \<Rightarrow> bool" where
  "probabilities_ok n probs \<longleftrightarrow> length probs = n \<and>
     (\<forall>row \<in> set probs. 1 \<le> length row \<and> length row \<le> 64 \<and> (\<forall>p \<in> set row. 1 \<le> p \<and> p \<le> 128))"

definition filter_bits :: "int list \<Rightarrow> nat list" where
  "filter_bits row = bits_of_num 7 (length row - 1) @ 0 # concat (map (signed_digits 9) row)"

definition probability_bits :: "int list \<Rightarrow> nat list" where
  "probability_bits row = bits_of_num 6 (length row - 1) @ 0 # concat (map (\<lambda>p. bits_of_num 7 (nat (p - 1))) row)"

definition syntax_bits :: "nat \<Rightarrow> int list list \<Rightarrow> int list list \<Rightarrow> dst_table_strategy \<Rightarrow> nat list" where
  "syntax_bits channels filters probs layout =
     [1, 1, 1] @ (1 # table_map_bits channels (uses_per_channel_tables layout)) @ replicate channels 0
       @ concat (map filter_bits filters) @ concat (map probability_bits probs)"

definition candidate_syntax ::
  "nat \<Rightarrow> int list list \<Rightarrow> int list list \<Rightarrow> dst_table_strategy \<Rightarrow> nat list \<Rightarrow> compressed_syntax" where
  "candidate_syntax channels filters probs layout hp_bits =
     (let d = candidate_segments (table_for_channel layout channels) channels; n = length filters in
      \<lparr>cs_filter_segments = d, cs_probability_segments = d,
       cs_filter_tables = coeff_table_of n filters n, cs_probability_tables = coeff_table_of n probs n,
       cs_half_probability = replicate 6 False, cs_half_probability_bits = hp_bits\<rparr>)"

lemma table_for_channel_lt:
  assumes "filters_ok channels filters layout" and "ch < channels"
  shows "table_for_channel layout channels ! ch < length filters"
  using assms by (cases layout) (simp_all add: filters_ok_def)

lemma half_probability_bits_candidate:
  assumes "filters_ok channels filters layout" and "channels \<le> 6"
  shows "\<exists>hp. half_probability_bits channels (candidate_segments (table_for_channel layout channels) channels)
    (coeff_table_of (length filters) filters n) = Inr hp"
proof -
  have "\<exists>t. half_probability_bits channels (candidate_segments (table_for_channel layout channels) channels)
      (coeff_table_of (length filters) filters n) = Inr t \<and> True"
    unfolding half_probability_bits_def
    using table_for_channel_lt[OF assms(1)] assms(2)
    by (intro fold_res_total[where P = "\<lambda>_ _. True"]) (auto simp: Let_def coeff_table_of_def not_le)
  then show ?thesis by blast
qed

lemma delivers_filter_tables:
  assumes "filters_ok channels filters layout" and "1 \<le> channels" and "channels \<le> 6"
    and "n = length filters"
  shows "delivers (read_table (coeff_table_default\<lparr>ct_elements := n\<rparr>) fsets_code_pred_coeff 7 9 True 0)
    (concat (map filter_bits filters)) (coeff_table_of n filters n)"
  unfolding filter_bits_def[abs_def] assms(4)
proof (rule delivers_table)
  fix row v assume "row \<in> set filters" "v \<in> set row"
  then have "-256 \<le> v \<and> v \<le> 255" using assms(1) by (auto simp: filters_ok_def)
  then have "delivers (read_signed 9) (signed_digits 9 v) v" by (intro delivers_read_signed) auto
  then show "delivers (read_uncoded_coeff 9 True 0) (signed_digits 9 v) v"
    by (simp add: read_uncoded_coeff_def[abs_def])
qed (use assms in \<open>auto simp: filters_ok_def\<close>)

lemma delivers_probability_tables:
  assumes "probabilities_ok n probs" and "1 \<le> n" and "n \<le> 6"
  shows "delivers (read_table (coeff_table_default\<lparr>ct_elements := n\<rparr>) probs_code_pred_coeff 6 7 False 1)
    (concat (map probability_bits probs)) (coeff_table_of n probs n)"
proof -
  have n: "n = length probs" using assms(1) by (simp add: probabilities_ok_def)
  show ?thesis
    unfolding probability_bits_def[abs_def] n
  proof (rule delivers_table)
    fix row v assume "row \<in> set probs" "v \<in> set row"
    then have v: "1 \<le> v \<and> v \<le> 128" using assms(1) by (auto simp: probabilities_ok_def)
    then have "delivers (read_bits 7) (bits_of_num 7 (nat (v - 1))) (nat (v - 1))"
      by (intro delivers_field) auto
    then show "delivers (read_uncoded_coeff 7 False 1) (bits_of_num 7 (nat (v - 1))) v"
      unfolding read_uncoded_coeff_def[abs_def] if_False
      by (rule delivers_bind_return) (use v in simp)
  qed (use assms n in \<open>auto simp: probabilities_ok_def\<close>)
qed

lemma delivers_syntax:
  assumes f: "filters_ok channels filters layout" and p: "probabilities_ok (length filters) probs"
    and ch: "1 \<le> channels" "channels \<le> 6" and "128 \<le> frame_bytes"
  shows "\<exists>hp. delivers (compressed_syntax_read channels frame_bytes)
    (syntax_bits channels filters probs layout) (candidate_syntax channels filters probs layout hp)"
proof -
  let ?d = "candidate_segments (table_for_channel layout channels) channels"
  let ?n = "length filters"
  have n: "?n = (if layout = PerChannel then channels else 1)" using f by (simp add: filters_ok_def)
  then have n16: "1 \<le> ?n" "?n \<le> 6" using ch by auto
  obtain hp where hp: "half_probability_bits channels ?d (coeff_table_of ?n filters ?n) = Inr hp"
    using half_probability_bits_candidate[OF f ch(2)] by blast
  have "delivers (compressed_syntax_read channels frame_bytes)
    (syntax_bits channels filters probs layout) (candidate_syntax channels filters probs layout hp)"
    unfolding compressed_syntax_read_def[abs_def] syntax_bits_def
    apply (rule delivers_bind[OF delivers_segments[OF ch(2) assms(5)]], simp only: split)
    apply (rule delivers_bind[OF delivers_compressed_mapping[OF ch n refl]], simp only: split)
    apply (rule delivers_bind[OF delivers_half_probability], simp only: split)
    apply (rule delivers_bind[OF delivers_filter_tables[OF f ch refl]], simp only: split)
    apply (rule delivers_bind_return[OF delivers_probability_tables[OF p n16]])
    apply (simp add: hp candidate_syntax_def Let_def)
    done
  then show ?thesis by blast
qed

text \<open>The writer puts down exactly those bits, between the coding flag and the start bit.\<close>

definition candidate_header :: "nat \<Rightarrow> int list list \<Rightarrow> int list list \<Rightarrow> dst_table_strategy \<Rightarrow> nat list" where
  "candidate_header channels filters probs layout =
     [1] @ syntax_bits channels filters probs layout @ [0]"

lemma bw_holds_fold:
  assumes "bw_holds w ws"
    and "\<And>x w ws. x \<in> set xs \<Longrightarrow> bw_holds w ws \<Longrightarrow> bw_holds (f x w) (ws @ g x)"
  shows "bw_holds (fold f xs w) (ws @ concat (map g xs))"
  using assms
proof (induction xs arbitrary: w ws)
  case Nil
  then show ?case by simp
next
  case (Cons x xs)
  have "bw_holds (f x w) (ws @ g x)" using Cons.prems by simp
  from Cons.IH[OF this] Cons.prems(2) show ?case by simp
qed

lemma log2_floor_usize_bit_len: "0 < v \<Longrightarrow> v < 2 ^ 64 \<Longrightarrow> log2_floor_usize v + 1 = bit_len v"
proof -
  assume v: "0 < v" "v < 2 ^ 64"
  have "bit_len v \<le> 64"
  proof (rule ccontr)
    assume "\<not> bit_len v \<le> 64"
    then have "(2::nat) ^ 64 \<le> 2 ^ (bit_len v - 1)" by (intro power_increasing) auto
    then show False using bit_len_bounds[OF v(1)] v(2) by linarith
  qed
  then show ?thesis using bit_len_bounds[OF v(1)] by (simp add: log2_floor_usize_def)
qed

lemma bw_holds_table_map:
  assumes "bw_holds w ws" and "1 \<le> channels" and "channels \<le> 6"
  shows "bw_holds (write_table_map channels per_channel w) (ws @ table_map_bits channels per_channel)"
proof (cases "\<not> per_channel \<or> channels = 1")
  case True
  then show ?thesis
    using bw_holds_write_bit[OF assms(1), of 1] by (simp add: write_table_map_def table_map_bits_def)
next
  case False
  let ?step = "\<lambda>_ (existing, w). (existing + 1, write_bits existing (log2_floor_usize existing + 1) w)"
  have "bw_holds w' ws' \<Longrightarrow> 0 < a \<Longrightarrow> a + n \<le> 6 \<Longrightarrow>
      bw_holds (snd (fold ?step [a..<a + n] (a, w')))
        (ws' @ concat (map (\<lambda>ch. bits_of_num (bit_len ch) ch) [a..<a + n]))" for a n w' ws'
  proof (induction n arbitrary: a w' ws')
    case 0
    then show ?case by simp
  next
    case (Suc n)
    have "bw_holds (write_bits a (log2_floor_usize a + 1) w') (ws' @ bits_of_num (bit_len a) a)"
      using bw_holds_write_bits[OF Suc.prems(1), of a "bit_len a"] log2_floor_usize_bit_len[of a] Suc.prems
      by (simp del: add.commute)
    from Suc.IH[OF this, of "Suc a"] Suc.prems show ?case by (simp add: upt_conv_Cons del: upt_Suc)
  qed
  from this[OF bw_holds_write_bit[OF assms(1), of 0], of 1 "channels - 1"]
  show ?thesis using False assms(2,3) by (simp add: write_table_map_def table_map_bits_def)
qed

lemma bw_holds_filter_table:
  assumes "bw_holds w ws"
  shows "bw_holds (write_filter_table row w) (ws @ filter_bits row)"
proof -
  have "bw_holds (write_bit 0 (write_bits (length row - 1) 7 w)) ((ws @ bits_of_num 7 (length row - 1)) @ [0])"
    using bw_holds_write_bit[OF bw_holds_write_bits[OF assms], of 0] by simp
  from bw_holds_fold[OF this, of row "\<lambda>c w. write_signed c 9 w" "signed_digits 9"]
  show ?thesis by (simp add: write_filter_table_def filter_bits_def bw_holds_write_signed)
qed

lemma bw_holds_probability_table:
  assumes "bw_holds w ws"
  shows "bw_holds (write_probability_table row w) (ws @ probability_bits row)"
proof -
  have "bw_holds (write_bit 0 (write_bits (length row - 1) 6 w)) ((ws @ bits_of_num 6 (length row - 1)) @ [0])"
    using bw_holds_write_bit[OF bw_holds_write_bits[OF assms], of 0] by simp
  from bw_holds_fold[OF this, of row "\<lambda>p w. write_bits (nat (p - 1)) 7 w" "\<lambda>p. bits_of_num 7 (nat (p - 1))"]
  show ?thesis by (simp add: write_probability_table_def probability_bits_def bw_holds_write_bits)
qed

lemma bw_holds_header:
  assumes ch: "1 \<le> channels" "channels \<le> 6"
  shows "bw_holds (write_candidate_header channels filters probs layout)
    (candidate_header channels filters probs layout)"
proof -
  have b1: "bw_holds w ws \<Longrightarrow> bw_holds (write_bit 1 w) (ws @ [1])"
    and b0: "bw_holds w ws \<Longrightarrow> bw_holds (write_bit 0 w) (ws @ [0])" for w ws
    by (simp_all add: bw_holds_write_bit)
  let ?w1 = "write_bit 1 (write_segment_header (write_bit 1 bw_new))"
  let ?w2 = "write_table_map channels (uses_per_channel_tables layout) ?w1"
  let ?w3 = "fold (\<lambda>_. write_bit 0) [0..<channels] ?w2"
  let ?w4 = "fold write_filter_table filters ?w3"
  let ?w5 = "fold write_probability_table probs ?w4"
  have 1: "bw_holds ?w1 ((((([] @ [1]) @ [1]) @ [1]) @ [1]) @ [1])"
    unfolding write_segment_header_def by (rule b1)+ (rule bw_holds_new)
  have 2: "bw_holds ?w2 ((((((([] @ [1]) @ [1]) @ [1]) @ [1]) @ [1])
      @ table_map_bits channels (uses_per_channel_tables layout)))"
    by (rule bw_holds_table_map[OF 1 ch])
  have 3: "\<And>hs. bw_holds ?w2 hs \<Longrightarrow> bw_holds ?w3 (hs @ concat (map (\<lambda>_. [0]) [0..<channels]))"
    by (rule bw_holds_fold) (auto intro: b0)
  have 4: "\<And>hs. bw_holds ?w3 hs \<Longrightarrow> bw_holds ?w4 (hs @ concat (map filter_bits filters))"
    by (rule bw_holds_fold) (auto intro: bw_holds_filter_table)
  have 5: "\<And>hs. bw_holds ?w4 hs \<Longrightarrow> bw_holds ?w5 (hs @ concat (map probability_bits probs))"
    by (rule bw_holds_fold) (auto intro: bw_holds_probability_table)
  note 6 = b0[OF 5[OF 4[OF 3[OF 2]]]]
  show ?thesis
    using 6 by (simp add: write_candidate_header_def Let_def candidate_header_def syntax_bits_def
        map_replicate_const del: One_nat_def)
qed

end
