(* ===== verification/DstLossless.thy ===== *)
theory DstLossless
  imports DstRoundTrip
begin

text \<open>
  The residual loops of the two sides in lock step. Both walk the same pairs of bit index and
  channel; the symbols the encoder feeds its coder (\<open>frame_symbols\<close>) depend only on the source,
  and the decoder recovers each source bit from the residual because it has the same history.
\<close>

subsection \<open>One loop over pairs\<close>

lemma fold_res_cong:
  "(\<And>x s. x \<in> set xs \<Longrightarrow> f x s = g x s) \<Longrightarrow> fold_res f xs s = fold_res g xs s"
proof (induction xs arbitrary: s)
  case Nil
  then show ?case by simp
next
  case (Cons x xs)
  then show ?case by (cases "g x s") auto
qed

lemma fold_res_map: "fold_res f (map g xs) s = fold_res (\<lambda>x. f (g x)) xs s"
proof (induction xs arbitrary: s)
  case (Cons x xs)
  then show ?case by (cases "f (g x) s") auto
qed simp

lemma fold_opt_map: "fold_opt f (map g xs) s = fold_opt (\<lambda>x. f (g x)) xs s"
proof (induction xs arbitrary: s)
  case (Cons x xs)
  then show ?case by (cases "f (g x) s") auto
qed simp

lemma fold_res_product:
  "fold_res (\<lambda>i. fold_res (f i) ys) xs s = fold_res (\<lambda>(i, j). f i j) (List.product xs ys) s"
proof (induction xs arbitrary: s)
  case (Cons x xs)
  have "fold_res (\<lambda>(i, j). f i j) (map (Pair x) ys) s = fold_res (f x) ys s"
    by (simp add: fold_res_map)
  then show ?case using Cons by (simp add: fold_res_append) (metis (no_types, lifting) Cons ext)
qed simp

lemma fold_opt_product:
  "fold_opt (\<lambda>i. fold_opt (f i) ys) xs s = fold_opt (\<lambda>(i, j). f i j) (List.product xs ys) s"
proof (induction xs arbitrary: s)
  case (Cons x xs)
  have "fold_opt (\<lambda>(i, j). f i j) (map (Pair x) ys) s = fold_opt (f x) ys s"
    by (simp add: fold_opt_map)
  then show ?case by (cases "fold_opt (f x) ys s") (simp_all add: fold_opt_append Cons)
qed simp

definition frame_pairs :: "nat \<Rightarrow> (nat \<times> nat) list" where
  "frame_pairs channels = List.product [0..<frame_bits_dsd64] [0..<channels]"

subsection \<open>The symbols of a frame\<close>

definition source_step :: "u8 list \<Rightarrow> nat \<Rightarrow> nat \<Rightarrow> nat \<Rightarrow> u8 list list \<Rightarrow> u8 list list" where
  "source_step dsd channels i ch st =
     st[ch := push_status_bit (get_interleaved_bit dsd channels i ch) (st ! ch)]"

definition frame_symbol ::
  "u8 list \<Rightarrow> nat \<Rightarrow> int list list list \<Rightarrow> int list list \<Rightarrow> nat list \<Rightarrow> nat \<Rightarrow> nat \<Rightarrow> u8 list list \<Rightarrow> nat \<times> nat" where
  "frame_symbol dsd channels lut probs tables i ch st =
     (let table = min (tables ! ch) (length lut - 1);
          predict = predict_from_lut (lut ! table) (st ! ch)
      in (residual_of predict (get_interleaved_bit dsd channels i ch),
          nat (probability_for_predict predict (probs ! table))))"

fun frame_symbols ::
  "u8 list \<Rightarrow> nat \<Rightarrow> int list list list \<Rightarrow> int list list \<Rightarrow> nat list \<Rightarrow> (nat \<times> nat) list \<Rightarrow>
     u8 list list \<Rightarrow> (nat \<times> nat) list" where
  "frame_symbols dsd channels lut probs tables [] st = []"
| "frame_symbols dsd channels lut probs tables ((i, ch) # ps) st =
     frame_symbol dsd channels lut probs tables i ch st
       # frame_symbols dsd channels lut probs tables ps (source_step dsd channels i ch st)"

lemma length_frame_symbols [simp]:
  "length (frame_symbols dsd channels lut probs tables ps st) = length ps"
  by (induction ps arbitrary: st) auto

lemma encode_residual_bits_symbols:
  "fold_opt (\<lambda>(i, ch). encode_residual_bit dsd channels lut probs tables i ch) ps (e, st)
     = map_option (\<lambda>e'. (e', fold (\<lambda>(i, ch). source_step dsd channels i ch) ps st))
         (encode_symbols (frame_symbols dsd channels lut probs tables ps st) e)"
proof (induction ps arbitrary: e st)
  case Nil
  then show ?case by (simp add: encode_symbols_def)
next
  case (Cons p ps)
  obtain i ch where p: "p = (i, ch)" by (cases p)
  let ?s = "frame_symbol dsd channels lut probs tables i ch st"
  have step: "encode_residual_bit dsd channels lut probs tables i ch (e, st)
      = Option.bind (encode_bit (fst ?s) (snd ?s) e) (\<lambda>e. Some (e, source_step dsd channels i ch st))"
    by (simp add: encode_residual_bit_def frame_symbol_def source_step_def Let_def)
  show ?case
  proof (cases "encode_bit (fst ?s) (snd ?s) e")
    case None
    then show ?thesis using p step by (simp add: encode_symbols_def split_beta)
  next
    case (Some e1)
    then show ?thesis using p step Cons.IH[of e1 "source_step dsd channels i ch st"]
      by (simp add: encode_symbols_def split_beta)
  qed
qed

lemma encode_residuals_symbols:
  "encode_residuals dsd channels lut probs tables c =
     map_option enc_finish (encode_symbols ((0, nat (prob_dst_x_bit c))
       # frame_symbols dsd channels lut probs tables (frame_pairs channels) initial_status) arith_enc_new)"
proof -
  have s: "encode_symbols ((b, p) # ss) e = Option.bind (encode_bit b p e) (encode_symbols ss)" for b p ss e
    by (simp add: encode_symbols_def)
  show ?thesis
    unfolding encode_residuals_def fold_opt_product s frame_pairs_def[symmetric]
      encode_residual_bits_symbols
    by (cases "encode_bit 0 (nat (prob_dst_x_bit c)) arith_enc_new")
      (simp_all add: split_beta option.case_eq_if Option.bind_map_option comp_def
        option.map_comp split: bind_split)
qed

subsection \<open>The decoder has the encoder's tables\<close>

lemma get_interleaved_bit_01: "get_interleaved_bit dsd channels i ch < 2"
  by (simp add: get_interleaved_bit_def Let_def and_one_eq mod_2_eq_odd)

lemma residual_of_value:
  "a < 2 \<Longrightarrow> residual_of predict a = (if odd (drop_bit 15 predict) then 1 - a else a)"
proof -
  assume "a < 2"
  then have a: "a = 0 \<or> a = 1" by linarith
  have "odd (word_of_int (drop_bit 15 predict) :: u8) = odd (drop_bit 15 predict)"
    by (simp add: bit_word_of_int_iff flip: bit_0)
  then have b: "bit (word_of_int (drop_bit 15 predict) :: u8) 0 = odd (drop_bit 15 predict)"
    by (simp add: bit_0)
  show ?thesis using a b
    by (auto simp: residual_of_def and_one_eq mod_2_eq_odd bit_xor_iff simp flip: bit_0)
qed

lemma residual_of_01: "residual_of predict a < 2"
  by (simp add: residual_of_def and_one_eq mod_2_eq_odd)

lemma decoded_bit_eq:
  "a < 2 \<Longrightarrow> nat ((drop_bit 15 predict XOR int (residual_of predict a)) AND 1) = a"
proof -
  assume a: "a < 2"
  then have a01: "a = 0 \<or> a = 1" by linarith
  have "(drop_bit 15 predict XOR int (residual_of predict a)) AND 1
      = of_bool (odd (drop_bit 15 predict) \<noteq> odd (int (residual_of predict a)))"
    by (simp add: and_one_eq mod2_eq_if even_xor_iff)
  then show ?thesis using a01 by (auto simp: residual_of_value[OF a])
qed

lemma filter_total_bound:
  assumes "\<forall>c \<in> set coeffs. -256 \<le> c \<and> c \<le> 255" and "n \<le> 8" and "base + n \<le> length coeffs"
  shows "\<bar>filter_total coeffs base n history\<bar> \<le> 256 * int n"
  using assms(2,3)
proof (induction n)
  case 0
  then show ?case by (simp add: filter_total_def)
next
  case (Suc n)
  have "coeffs ! (base + n) \<in> set coeffs" using Suc.prems by simp
  then have "\<bar>coeffs ! (base + n)\<bar> \<le> 256" using assms(1) by fastforce
  moreover have "\<bar>filter_total coeffs base n history\<bar> \<le> 256 * int n" using Suc by simp
  ultimately show ?case by (auto simp: filter_total_def)
qed

lemma as_i16_id: "\<bar>x\<bar> \<le> 2048 \<Longrightarrow> as_i16 x = x"
  by (simp add: as_i16_def signed_of_int signed_take_bit_int_eq_self)

lemma clamp_i16_id: "\<bar>x\<bar> \<le> 2048 \<Longrightarrow> clamp_i16 x = x"
  by (simp add: clamp_i16_def)

lemma filter_total_padded:
  assumes "base + n \<le> length row"
  shows "filter_total (padded_row row) base n history = filter_total row base n history"
  using assms by (induction n) (simp_all add: filter_total_def padded_row_def nth_append)

lemma build_filters_candidate:
  assumes "filters_ok channels filters layout" and "channels \<le> 6" and "el < length filters"
  shows "build_filters (coeff_table_of (length filters) filters (length filters)) ! el
    = build_filter_lut filters ! el"
proof -
  let ?row = "filters ! el"
  have row: "?row \<in> set filters" using assms(3) by simp
  then have r: "length ?row \<le> 128" "\<forall>c \<in> set ?row. -256 \<le> c \<and> c \<le> 255"
    using assms(1) by (auto simp: filters_ok_def)
  have el: "el < 12" using assms by (auto simp: filters_ok_def split: if_splits)
  have cell: "as_i16 (filter_total (padded_row ?row) (tap * 8) (min (length ?row - tap * 8) 8) h)
      = clamp_i16 (filter_total ?row (tap * 8) (min (length ?row - tap * 8) 8) h)" for tap h
  proof (cases "tap * 8 \<le> length ?row")
    case True
    define n where "n = min (length ?row - tap * 8) 8"
    have n: "n \<le> 8" "tap * 8 + n \<le> length ?row" using True by (auto simp: n_def)
    have "\<bar>filter_total ?row (tap * 8) n h\<bar> \<le> 2048" using filter_total_bound[OF r(2) n, of h] n(1) by linarith
    then show ?thesis unfolding n_def[symmetric] filter_total_padded[OF n(2)]
      by (simp add: as_i16_id clamp_i16_id)
  next
    case False
    then show ?thesis by (simp add: filter_total_def as_i16_id clamp_i16_id)
  qed
  show ?thesis using el assms(3)
    by (simp add: build_filters_def build_filter_lut_def coeff_table_of_def cell)
qed

text \<open>With one segment per channel the cursors stay where they start.\<close>

definition start_cursors :: "nat \<Rightarrow> nat \<Rightarrow> segment_cursor list" where
  "start_cursors channels bits = map (\<lambda>ch. \<lparr>sc_index = 0, sc_start = 0,
     sc_end = (if ch < channels then bits else 0)\<rparr>) [0..<6]"

lemma cursor_set_new_candidate:
  assumes "channels \<le> 6" and "0 < n" and "\<And>ch. ch < channels \<Longrightarrow> tables ! ch < n"
  shows "cursor_set_new (candidate_segments tables channels) channels bits n kind
    = Inr (start_cursors channels bits)"
proof -
  let ?d = "candidate_segments tables channels"
  have v: "validate_channel_mapping ?d bits n kind ch = Inr ()" if "ch < channels" for ch
    using that assms by (simp add: validate_channel_mapping_def segment_end_from_start_def not_le)
  have v': "validate_decode_mapping ?d channels bits n kind = Inr ()"
    unfolding validate_decode_mapping_def by (rule fold_res_fixpoint) (simp add: v)
  have "fold_res (\<lambda>ch cs. res_bind (segment_end_from_start ?d ch 0 (sd_count ?d ! ch) 0 bits)
      (\<lambda>end'. Inr (cs[ch := (cs ! ch)\<lparr>sc_end := end'\<rparr>]))) [0..<channels] (start_cursors 0 bits)
      = Inr (start_cursors (length [0..<channels]) bits)"
  proof (rule fold_res_steps)
    fix k assume k: "k < length [0..<channels]"
    have "(start_cursors k bits)[k := (start_cursors k bits ! k)\<lparr>sc_end := bits\<rparr>] = start_cursors (Suc k) bits"
      using k assms(1) by (auto simp: start_cursors_def nth_list_update less_Suc_eq intro!: nth_equalityI)
    then show "res_bind (segment_end_from_start ?d ([0..<channels] ! k) 0 (sd_count ?d ! ([0..<channels] ! k)) 0 bits)
        (\<lambda>end'. Inr ((start_cursors k bits)[[0..<channels] ! k :=
          (start_cursors k bits ! ([0..<channels] ! k))\<lparr>sc_end := end'\<rparr>])) = Inr (start_cursors (Suc k) bits)"
      using k assms(1) by (simp add: segment_end_from_start_def)
  qed
  moreover have "start_cursors 0 bits = replicate 6 segment_cursor_default"
    by (simp add: start_cursors_def segment_cursor_default_def map_replicate_const)
  ultimately show ?thesis by (simp add: cursor_set_new_def v')
qed

lemma table_for_bit_candidate:
  assumes "channels \<le> 6" and "ch < channels" and "tables ! ch < n" and "i < bits"
  shows "table_for_bit (candidate_segments tables channels) ch i bits n kind (start_cursors channels bits)
    = Inr (tables ! ch, start_cursors channels bits)"
proof -
  have "start_cursors channels bits ! ch = \<lparr>sc_index = 0, sc_start = 0, sc_end = bits\<rparr>"
    using assms by (simp add: start_cursors_def)
  then show ?thesis using assms
    by (simp add: table_for_bit_def cursor_seek.simps[of _ _ _ _ _ "\<lparr>sc_index = 0, sc_start = 0, sc_end = bits\<rparr>"]
        list_update_same_conv start_cursors_def Let_def)
qed

lemma table_probability_candidate:
  assumes "probabilities_ok n probs" and "el < n" and "n \<le> 12"
  shows "table_probability (coeff_table_of n probs n) el predict
      = Inr (probability_for_predict predict (probs ! el))"
    and "1 \<le> probability_for_predict predict (probs ! el)"
    and "probability_for_predict predict (probs ! el) \<le> 128"
proof -
  let ?row = "probs ! el"
  have row: "?row \<in> set probs" using assms by (simp add: probabilities_ok_def)
  then have len: "1 \<le> length ?row" "length ?row \<le> 64" using assms(1) by (auto simp: probabilities_ok_def)
  have idx: "probability_bin predict (length ?row) < length ?row"
    using len unfolding probability_bin_def by linarith
  then have "probability_for_predict predict ?row \<in> set ?row" by (simp add: probability_for_predict_def)
  then show r: "1 \<le> probability_for_predict predict ?row" "probability_for_predict predict ?row \<le> 128"
    using assms(1) row by (auto simp: probabilities_ok_def)
  have "padded_row ?row ! (min (nat \<bar>predict\<bar> div 8) (length ?row - 1)) = probability_for_predict predict ?row"
    using idx by (simp add: padded_row_def nth_append probability_for_predict_def probability_bin_def)
  then show "table_probability (coeff_table_of n probs n) el predict = Inr (probability_for_predict predict ?row)"
    using assms(2,3) len r by (auto simp: table_probability_def coeff_table_of_def Let_def)
qed

subsection \<open>Decoding in lock step\<close>

text \<open>What the decoder's writes build up: the source bits of the pairs done so far.\<close>

definition write_pair :: "u8 list \<Rightarrow> nat \<Rightarrow> nat \<Rightarrow> nat \<Rightarrow> u8 list \<Rightarrow> u8 list" where
  "write_pair dsd channels i ch out =
     (let j = i div 8 * channels + ch in
      if get_interleaved_bit dsd channels i ch \<noteq> 0 then out[j := out ! j OR push_bit (7 - i mod 8) 1]
      else out)"

definition write_pairs :: "u8 list \<Rightarrow> nat \<Rightarrow> (nat \<times> nat) list \<Rightarrow> u8 list \<Rightarrow> u8 list" where
  "write_pairs dsd channels = fold (\<lambda>(i, ch). write_pair dsd channels i ch)"

lemma length_write_pair [simp]: "length (write_pair dsd channels i ch out) = length out"
  by (simp add: write_pair_def Let_def)

lemma length_write_pairs [simp]: "length (write_pairs dsd channels ps out) = length out"
  unfolding write_pairs_def by (induction ps arbitrary: out) auto

text \<open>The facts of one candidate frame that the loop needs.\<close>

definition candidate_ok ::
  "nat \<Rightarrow> int list list \<Rightarrow> int list list \<Rightarrow> dst_table_strategy \<Rightarrow> bool" where
  "candidate_ok channels filters probs layout \<longleftrightarrow> 1 \<le> channels \<and> channels \<le> 6
     \<and> filters_ok channels filters layout \<and> probabilities_ok (length filters) probs"

definition loop_state :: "nat list \<Rightarrow> nat \<Rightarrow> u8 list list \<Rightarrow> u8 list \<Rightarrow> arith_enc \<Rightarrow> frame_state \<Rightarrow> bool" where
  "loop_state Z channels st out e s \<longleftrightarrow> arith_sync Z e (fr_arith s) (fr_reader s)
     \<and> fr_filter_cursors s = start_cursors channels frame_bits_dsd64
     \<and> fr_probability_cursors s = start_cursors channels frame_bits_dsd64
     \<and> fr_status s = st \<and> fr_out s = out"

lemma candidate_table_lt:
  "candidate_ok channels filters probs layout \<Longrightarrow> ch < channels \<Longrightarrow>
     table_for_channel layout channels ! ch < length filters"
  by (rule table_for_channel_lt) (auto simp: candidate_ok_def)

lemma candidate_length: "candidate_ok channels filters probs layout \<Longrightarrow> 1 \<le> length filters \<and> length filters \<le> 6"
  by (auto simp: candidate_ok_def filters_ok_def)

lemma length_build_filter_lut [simp]: "length (build_filter_lut filters) = length filters"
  by (simp add: build_filter_lut_def)

lemma candidate_table_min:
  "candidate_ok channels filters probs layout \<Longrightarrow> ch < channels \<Longrightarrow>
     min (table_for_channel layout channels ! ch) (length filters - 1) = table_for_channel layout channels ! ch"
  using candidate_table_lt by fastforce

lemma frame_symbol_ok:
  assumes "candidate_ok channels filters probs layout" and "ch < channels"
  shows "symbol_ok (frame_symbol dsd channels (build_filter_lut filters) probs
    (table_for_channel layout channels) i ch st)"
proof -
  let ?t = "table_for_channel layout channels ! ch"
  have "probabilities_ok (length filters) probs" "length filters \<le> 12"
    using assms(1) candidate_length[OF assms(1)] by (auto simp: candidate_ok_def)
  note r = table_probability_candidate(2,3)[OF this(1) candidate_table_lt[OF assms] this(2)]
  have "1 \<le> nat (probability_for_predict predict (probs ! ?t))"
    "nat (probability_for_predict predict (probs ! ?t)) \<le> 128" for predict
    using nat_mono[OF r(1)[of predict]] nat_mono[OF r(2)[of predict]] by simp_all
  then show ?thesis
    unfolding frame_symbol_def Let_def length_build_filter_lut candidate_table_min[OF assms]
    by (simp only: fst_conv snd_conv residual_of_01 simp_thms)
qed

lemma frame_symbols_ok:
  assumes "candidate_ok channels filters probs layout" and "\<forall>p \<in> set ps. snd p < channels"
  shows "\<forall>s \<in> set (frame_symbols dsd channels (build_filter_lut filters) probs
    (table_for_channel layout channels) ps st). symbol_ok s"
  using assms(2)
proof (induction ps arbitrary: st)
  case Nil
  then show ?case by simp
next
  case (Cons p ps)
  then show ?case
    using frame_symbol_ok[OF assms(1), of "snd p" dsd "fst p" st] by (cases p) auto
qed

lemma decode_bit_step:
  assumes ok: "candidate_ok channels filters probs layout"
    and i: "i < frame_bits_dsd64" and ch: "ch < channels"
    and out: "length out = frame_bytes_dsd64 * channels"
    and sym: "frame_symbol dsd channels (build_filter_lut filters) probs (table_for_channel layout channels)
      i ch st = (b, p)"
    and enc: "enc_ready e" "encode_bit b p e = Some e'" "in_interval Z e'"
    and s: "loop_state Z channels st out e s"
  shows "\<exists>s'. decode_bit (candidate_syntax channels filters probs layout hp)
      (build_filters (coeff_table_of (length filters) filters (length filters))) frame_bits_dsd64
      (i div 8 * channels) i ch s = Inr s'
    \<and> loop_state Z channels (source_step dsd channels i ch st) (write_pair dsd channels i ch out) e' s'"
proof -
  let ?t = "table_for_channel layout channels ! ch"
  let ?n = "length filters"
  define predict where "predict = predict_from_lut (build_filter_lut filters ! ?t) (st ! ch)"
  define a where "a = get_interleaved_bit dsd channels i ch"
  have c: "channels \<le> 6" "filters_ok channels filters layout" "probabilities_ok ?n probs"
    using ok by (auto simp: candidate_ok_def)
  have t: "?t < ?n" using candidate_table_lt[OF ok ch] .
  have n12: "?n \<le> 12" using candidate_length[OF ok] by simp
  have tmin: "min ?t (length (build_filter_lut filters) - 1) = ?t" using candidate_table_min[OF ok ch] by simp
  have b: "b = residual_of predict a" and p: "p = nat (probability_for_predict predict (probs ! ?t))"
    using sym unfolding frame_symbol_def Let_def tmin by (auto simp: predict_def a_def)
  note prob = table_probability_candidate[OF c(3) t n12, of predict]
  have p': "int p = probability_for_predict predict (probs ! ?t)" using p prob by simp
  have pr: "1 \<le> p" "p \<le> 128" using prob p' by linarith+
  obtain d r where get: "arith_get (int p) (fr_arith s, fr_reader s) = Inr (b, d, r)" "arith_sync Z e' d r"
    using arith_get_correct[OF enc(1) pr _ enc(2) _ enc(3), of "fr_arith s" "fr_reader s"] s
      residual_of_01[of predict a] b by (auto simp: loop_state_def)
  have a2: "a < 2" unfolding a_def by (rule get_interleaved_bit_01)
  have dsd: "nat ((drop_bit 15 predict XOR int b) AND 1) = a" using decoded_bit_eq[OF a2] b by simp
  then have dsd0: "0 < (drop_bit 15 predict XOR int b) AND 1 \<longleftrightarrow> 0 < a" by linarith
  have idx: "i div 8 * channels + ch < length out"
  proof -
    have "i div 8 < frame_bytes_dsd64" using i by (simp add: frame_bits_dsd64_def)
    then have "i div 8 * channels + channels \<le> frame_bytes_dsd64 * channels"
      by (metis Suc_leI add.commute mult_Suc mult_le_mono1)
    then show ?thesis using ch out by linarith
  qed
  have small: "i div 8 * channels + ch < 2 ^ 64"
  proof -
    have "frame_bytes_dsd64 * channels \<le> 4704 * 6" using c(1) by (simp add: frame_bytes_dsd64_def)
    then have "i div 8 * channels + ch \<le> 28224" using idx out by linarith
    also have "(28224::nat) < 2 ^ 64" by simp
    finally show ?thesis .
  qed
  have fb: "build_filters (coeff_table_of ?n filters ?n) ! ?t = build_filter_lut filters ! ?t"
    by (rule build_filters_candidate[OF c(2,1) t])
  have tb: "table_for_bit (candidate_segments (table_for_channel layout channels) channels) ch i frame_bits_dsd64
      ?n kind (start_cursors channels frame_bits_dsd64) = Inr (?t, start_cursors channels frame_bits_dsd64)" for kind
    by (rule table_for_bit_candidate[OF c(1) ch t i])
  have ch6: "ch < 6" using ch c(1) by simp
  have el: "ct_elements (coeff_table_of m rows k) = m" for m rows k by (simp add: coeff_table_of_def)
  have fs: "fr_filter_cursors s = start_cursors channels frame_bits_dsd64"
    "fr_probability_cursors s = start_cursors channels frame_bits_dsd64" "fr_status s = st" "fr_out s = out"
    using s by (auto simp: loop_state_def)
  have rp: "residual_probability (candidate_syntax channels filters probs layout hp) frame_bits_dsd64 ch i predict
      (start_cursors channels frame_bits_dsd64) = Inr (int p, start_cursors channels frame_bits_dsd64)"
    using ch6 by (simp add: residual_probability_def candidate_syntax_def Let_def tb el prob(1) p')
  have co: "checked_decoded_output_index (i div 8 * channels) ch (length out) = Inr (i div 8 * channels + ch)"
    using idx small by (simp add: checked_decoded_output_index_def checked_defs)
  show ?thesis
    using get(2)
    by (simp add: decode_bit_def fs tb el candidate_syntax_def Let_def fb predict_def[symmetric]
        rp[unfolded candidate_syntax_def Let_def] get(1) dsd dsd0 co loop_state_def source_step_def
        write_pair_def a_def[symmetric])
qed

lemma decode_bits_run:
  assumes ok: "candidate_ok channels filters probs layout"
    and out: "length out = frame_bytes_dsd64 * channels"
    and ps: "\<forall>p \<in> set ps. fst p < frame_bits_dsd64 \<and> snd p < channels"
    and enc: "enc_ready e" "encode_symbols (frame_symbols dsd channels (build_filter_lut filters) probs
      (table_for_channel layout channels) ps st) e = Some e'" "in_interval Z e'"
    and s: "loop_state Z channels st out e s"
  shows "\<exists>s'. fold_res (\<lambda>(i, ch). decode_bit (candidate_syntax channels filters probs layout hp)
      (build_filters (coeff_table_of (length filters) filters (length filters))) frame_bits_dsd64
      (i div 8 * channels) i ch) ps s = Inr s'
    \<and> fr_out s' = write_pairs dsd channels ps out"
  using out ps enc s
proof (induction ps arbitrary: st out e s)
  case Nil
  then show ?case by (simp add: write_pairs_def loop_state_def)
next
  case (Cons x ps)
  obtain i ch where x: "x = (i, ch)" by (cases x)
  have ich: "i < frame_bits_dsd64" "ch < channels" and ps: "\<forall>p \<in> set ps. fst p < frame_bits_dsd64 \<and> snd p < channels"
    using Cons.prems(2) x by auto
  let ?lut = "build_filter_lut filters" and ?tables = "table_for_channel layout channels"
  let ?st = "source_step dsd channels i ch st"
  obtain b p where sym: "frame_symbol dsd channels ?lut probs ?tables i ch st = (b, p)" by fastforce
  have bp: "b < 2" "1 \<le> p" "p \<le> 128"
    using frame_symbol_ok[OF ok ich(2), of dsd i st] sym by auto
  obtain e1 where e1: "encode_bit b p e = Some e1" "enc_ready e1"
    using encode_bit_correct[OF Cons.prems(3) bp(2,3), of b] by auto
  have rest: "encode_symbols (frame_symbols dsd channels ?lut probs ?tables ps ?st) e1 = Some e'"
    using Cons.prems(4) x sym e1 by (simp add: encode_symbols_def)
  have oks: "\<forall>s \<in> set (frame_symbols dsd channels ?lut probs ?tables ps ?st). symbol_ok s"
    using ps by (intro frame_symbols_ok[OF ok]) auto
  have i1: "in_interval Z e1" by (rule in_interval_run[OF e1(2) oks rest Cons.prems(5)])
  obtain s1 where s1: "decode_bit (candidate_syntax channels filters probs layout hp)
      (build_filters (coeff_table_of (length filters) filters (length filters))) frame_bits_dsd64
      (i div 8 * channels) i ch s = Inr s1"
    "loop_state Z channels ?st (write_pair dsd channels i ch out) e1 s1"
    using decode_bit_step[OF ok ich Cons.prems(1) sym Cons.prems(3) e1(1) i1 Cons.prems(6)] by blast
  have "length (write_pair dsd channels i ch out) = frame_bytes_dsd64 * channels" using Cons.prems(1) by simp
  from Cons.IH[OF this ps e1(2) rest Cons.prems(5) s1(2)] show ?case
    using s1(1) x by (simp add: write_pairs_def)
qed

subsection \<open>What the writes add up to\<close>

lemma get_interleaved_bit_eq:
  "get_interleaved_bit dsd channels i ch \<noteq> 0 \<longleftrightarrow> bit (dsd ! (i div 8 * channels + ch)) (7 - i mod 8)"
  by (simp add: get_interleaved_bit_def Let_def and_one_eq mod_2_eq_odd bit_iff_odd_drop_bit)

lemma bit_write_pair:
  assumes "j < length out" and "n < 8"
  shows "bit (write_pair dsd channels i ch out ! j) n \<longleftrightarrow>
    bit (out ! j) n \<or> j = i div 8 * channels + ch \<and> n = 7 - i mod 8 \<and> bit (dsd ! j) n"
proof -
  define m where "m = (push_bit (7 - i mod 8) 1 :: u8)"
  define k where "k = i div 8 * channels + ch"
  have m: "bit m n \<longleftrightarrow> n = 7 - i mod 8"
    using assms(2) unfolding m_def by (auto simp: bit_push_bit_iff bit_1_iff bit_exp_iff)
  have w: "write_pair dsd channels i ch out = (if bit (dsd ! k) (7 - i mod 8) then out[k := out ! k OR m] else out)"
    using get_interleaved_bit_eq[of dsd channels i ch]
    unfolding write_pair_def Let_def m_def[symmetric] k_def[symmetric] by simp
  show ?thesis unfolding w k_def[symmetric]
    using m assms(1) by (cases "j = k") (auto simp: bit_or_iff)
qed

lemma bit_write_pairs:
  assumes "j < length out" and "n < 8"
  shows "bit (write_pairs dsd channels ps out ! j) n \<longleftrightarrow> bit (out ! j) n \<or>
    bit (dsd ! j) n \<and> (\<exists>(i, ch) \<in> set ps. j = i div 8 * channels + ch \<and> n = 7 - i mod 8)"
  using assms(1)
proof (induction ps arbitrary: out)
  case Nil
  then show ?case by (simp add: write_pairs_def)
next
  case (Cons x ps)
  obtain i ch where x: "x = (i, ch)" by (cases x)
  have "j < length (write_pair dsd channels i ch out)" using Cons.prems by simp
  from Cons.IH[OF this] have "bit (write_pairs dsd channels (x # ps) out ! j) n \<longleftrightarrow>
      bit (write_pair dsd channels i ch out ! j) n \<or>
      bit (dsd ! j) n \<and> (\<exists>(i, ch) \<in> set ps. j = i div 8 * channels + ch \<and> n = 7 - i mod 8)"
    using x by (simp add: write_pairs_def)
  then show ?case using bit_write_pair[OF Cons.prems assms(2), of dsd channels i ch] x by auto
qed

lemma write_pairs_all:
  assumes len: "length dsd = frame_bytes_dsd64 * channels"
  shows "write_pairs dsd channels (frame_pairs channels) (replicate (frame_bytes_dsd64 * channels) 0) = dsd"
proof (rule nth_equalityI)
  show "length (write_pairs dsd channels (frame_pairs channels) (replicate (frame_bytes_dsd64 * channels) 0))
      = length dsd" using len by simp
next
  fix j
  assume "j < length (write_pairs dsd channels (frame_pairs channels) (replicate (frame_bytes_dsd64 * channels) 0))"
  then have j: "j < frame_bytes_dsd64 * channels" by simp
  show "write_pairs dsd channels (frame_pairs channels) (replicate (frame_bytes_dsd64 * channels) 0) ! j = dsd ! j"
  proof (rule bit_word_eqI)
    fix n assume "n < LENGTH(8)"
    then have n: "n < 8" by simp
    let ?i = "j div channels * 8 + (7 - n)" and ?ch = "j mod channels"
    have q: "j div channels < frame_bytes_dsd64" using j by (simp add: less_mult_imp_div_less)
    have "channels \<noteq> 0" using j by (cases channels) auto
    then have "?ch < channels" by simp
    moreover have "?i < frame_bits_dsd64" using q n unfolding frame_bits_dsd64_def by linarith
    ultimately have "(?i, ?ch) \<in> set (frame_pairs channels)" by (simp add: frame_pairs_def)
    moreover have "?i div 8 = j div channels" "?i mod 8 = 7 - n"
      using n mod_mult_self3[of "j div channels" 8 "7 - n"] div_mult_self3[of 8 "j div channels" "7 - n"]
      by simp_all
    ultimately have "\<exists>(i, ch) \<in> set (frame_pairs channels). j = i div 8 * channels + ch \<and> n = 7 - i mod 8"
      using n by (intro bexI[of _ "(?i, ?ch)"]) auto
    then show "bit (write_pairs dsd channels (frame_pairs channels) (replicate (frame_bytes_dsd64 * channels) 0) ! j) n
        = bit (dsd ! j) n"
      using bit_write_pairs[of j "replicate (frame_bytes_dsd64 * channels) 0" n dsd channels] j n by simp
  qed
qed

subsection \<open>Learned probabilities are legal\<close>

lemma pop_trailing_props:
  "row \<noteq> [] \<Longrightarrow> pop_trailing x row \<noteq> [] \<and> length (pop_trailing x row) \<le> length row
     \<and> set (pop_trailing x row) \<subseteq> set row"
proof (induction x row rule: pop_trailing.induct)
  case (1 x row)
  show ?case
  proof (cases "length row > 1 \<and> last row = x")
    case True
    have nb: "butlast row \<noteq> []" using True
      by (metis One_nat_def diff_is_0_eq length_butlast less_numeral_extra(3) list.size(3) not_le)
    have e: "pop_trailing x row = pop_trailing x (butlast row)"
      using True by (simp add: pop_trailing.simps[of x row])
    have sub: "set (butlast row) \<subseteq> set row" by (meson in_set_butlastD subsetI)
    show ?thesis using "1.IH"[OF True nb] sub unfolding e by auto
  next
    case False
    then have "pop_trailing x row = row" by (simp only: pop_trailing.simps[of x row] if_False)
    then show ?thesis using "1.prems" by simp
  qed
qed

lemma bin_probability_range: "1 \<le> bin_probability z n \<and> bin_probability z n \<le> 128"
  by (auto simp: bin_probability_def max_def min_def)

lemma derived_tables_ok:
  assumes "filters \<noteq> []"
  shows "probabilities_ok (length filters) (derive_probability_tables dsd channels (build_filter_lut filters) tables)"
proof -
  define s where "s = count_bits dsd channels (build_filter_lut filters) tables (length filters)"
  define bins where "bins table = map (\<lambda>bin. bin_probability (at2 (bc_zeros s) table bin)
    (at2 (bc_totals s) table bin)) [0..<64]" for table
  have max: "max (length filters) 1 = length filters" using assms by (cases filters) auto
  have d: "derive_probability_tables dsd channels (build_filter_lut filters) tables
      = map (\<lambda>table. pop_trailing 64 (bins table)) [0..<length filters]"
    unfolding derive_probability_tables_def length_build_filter_lut max Let_def s_def bins_def ..
  have ne: "bins table \<noteq> []" and len: "length (bins table) = 64" for table
    by (simp_all add: bins_def flip: length_greater_0_conv)
  have range: "p \<in> set (bins table) \<Longrightarrow> 1 \<le> p \<and> p \<le> 128" for p table
    using bin_probability_range by (auto simp: bins_def)
  have row: "1 \<le> length (pop_trailing 64 (bins table)) \<and> length (pop_trailing 64 (bins table)) \<le> 64
      \<and> (\<forall>p \<in> set (pop_trailing 64 (bins table)). 1 \<le> p \<and> p \<le> 128)" for table
    using pop_trailing_props[OF ne, of 64 table] range[of _ table] len[of table]
    by (auto simp: Suc_le_eq)
  show ?thesis unfolding probabilities_ok_def d using row by simp
qed

subsection \<open>Size of a candidate\<close>

lemma encode_symbols_length:
  "enc_ready e \<Longrightarrow> \<forall>s \<in> set syms. symbol_ok s \<Longrightarrow> encode_symbols syms e = Some e' \<Longrightarrow>
     enc_len e' \<le> enc_len e + 12 * length syms"
proof (induction syms arbitrary: e)
  case Nil
  then show ?case by (simp add: encode_symbols_def)
next
  case (Cons s syms)
  obtain b p where s: "s = (b, p)" by (cases s)
  obtain e1 where e1: "encode_bit b p e = Some e1" "enc_ready e1" "enc_len e1 \<le> enc_len e + 12"
    using encode_bit_correct[of e p b] Cons.prems s by auto
  have "encode_symbols syms e1 = Some e'" using Cons.prems(3) s e1 by (simp add: encode_symbols_def)
  then have "enc_len e' \<le> enc_len e1 + 12 * length syms" using Cons.IH[OF e1(2)] Cons.prems by simp
  then show ?case using e1(3) by simp
qed

lemma length_concat_le: "(\<And>x. x \<in> set xs \<Longrightarrow> length (f x) \<le> b) \<Longrightarrow> length (concat (map f xs)) \<le> length xs * b"
  by (induction xs) (auto simp: add_le_mono)

lemma bit_len_le: "bit_len n \<le> n"
proof (induction n rule: bit_len.induct)
  case (1 n)
  then show ?case by (cases "n = 0") (auto simp: bit_len.simps[of n])
qed

lemma candidate_header_length:
  assumes ok: "candidate_ok channels filters probs layout"
  shows "length (candidate_header channels filters probs layout) \<le> 10000"
proof -
  have ch: "channels \<le> 6" and n: "length filters \<le> 6" "length probs \<le> 6"
    using ok candidate_length[OF ok] by (auto simp: candidate_ok_def probabilities_ok_def)
  have "length (concat (map (\<lambda>ch. bits_of_num (bit_len ch) ch) [1..<channels])) \<le> length [1..<channels] * 6"
    using ch by (intro length_concat_le) (auto intro: order_trans[OF bit_len_le])
  then have t: "length (table_map_bits channels per) \<le> 37" for per
    using ch by (auto simp: table_map_bits_def)
  have f: "length (concat (map filter_bits filters)) \<le> length filters * 1160"
  proof (rule length_concat_le)
    fix row assume row: "row \<in> set filters"
    have "length (concat (map (signed_digits 9) row)) \<le> length row * 9"
      by (rule length_concat_le) simp
    moreover have "length row \<le> 128" using ok row by (auto simp: candidate_ok_def filters_ok_def)
    ultimately show "length (filter_bits row) \<le> 1160" unfolding filter_bits_def by simp
  qed
  have p: "length (concat (map probability_bits probs)) \<le> length probs * 455"
  proof (rule length_concat_le)
    fix row assume row: "row \<in> set probs"
    have "length (concat (map (\<lambda>p. bits_of_num 7 (nat (p - 1))) row)) \<le> length row * 7"
      by (rule length_concat_le) simp
    moreover have "length row \<le> 64" using ok row by (auto simp: candidate_ok_def probabilities_ok_def)
    ultimately show "length (probability_bits row) \<le> 455" unfolding probability_bits_def by simp
  qed
  show ?thesis using ch n f p t[of "uses_per_channel_tables layout"]
    unfolding candidate_header_def syntax_bits_def by simp
qed

subsection \<open>The frame decodes to its source\<close>

lemma has_physical_bits_view:
  assumes "br_ok r" and "\<not> br_zero_pad r" and "br_view r \<noteq> []"
  shows "has_physical_bits_remaining r = Inr True" and "br_pos r < 8 * length (br_input r)"
proof -
  show lt: "br_pos r < 8 * length (br_input r)"
  proof (rule ccontr)
    assume "\<not> br_pos r < 8 * length (br_input r)"
    then show False using assms(2,3) by (simp add: br_view_def br_limit_def)
  qed
  show "has_physical_bits_remaining r = Inr True"
    using lt assms(1) by (simp add: has_physical_bits_remaining_def checked_defs br_ok_def mult.commute)
qed

lemma arithmetic_start:
  assumes "br_ok r" and "\<not> br_zero_pad r" and "br_view r = 0 # code @ replicate k 0"
    and "12 \<le> length code"
  shows "\<exists>r1 d r2 m. check_arithmetic_marker r = Inr r1 \<and> arith_dec_new r1 = Inr (d, r2)
    \<and> arith_sync (code @ replicate m 0) arith_enc_new d r2"
proof -
  let ?r1 = "br_advance 1 r"
  have m: "check_arithmetic_marker r = Inr ?r1"
    using has_physical_bits_view[OF assms(1,2)] read_bit_view[OF assms(1,3)] assms(3)
    by (simp add: check_arithmetic_marker_def)
  have v1: "br_view ?r1 = code @ replicate k 0" using assms(3) by (simp add: br_view_advance)
  have "br_pos ?r1 \<le> 8 * length (br_input ?r1)"
    using has_physical_bits_view(2)[OF assms(1,2)] assms(3) by simp
  then obtain j where j: "br_view (enable_zero_padding_after_eof ?r1) = br_view ?r1 @ replicate j 0"
    using br_view_zero_padding[of ?r1] assms(1,2) by auto
  have "br_view (enable_zero_padding_after_eof ?r1) = code @ replicate (k + j) 0"
    using j v1 by (simp add: replicate_add)
  from arith_dec_new_correct[OF _ this] assms(1,4) m show ?thesis by auto
qed

lemma decode_bits_candidate:
  assumes "channels \<le> 6"
  shows "decode_bits cs filters channels frame_bits_dsd64 s =
    fold_res (\<lambda>(i, ch). decode_bit cs filters frame_bits_dsd64 (i div 8 * channels) i ch) (frame_pairs channels) s"
proof -
  have "checked_mul64 (i div 8) channels = Some (i div 8 * channels)" if "i < frame_bits_dsd64" for i
  proof -
    have "i div 8 * channels \<le> 4704 * 6"
      using that assms by (intro mult_le_mono) (auto simp: frame_bits_dsd64_def frame_bytes_dsd64_def)
    also have "(4704 * 6::nat) < 2 ^ 64" by simp
    finally show ?thesis by (simp add: checked_defs)
  qed
  then show ?thesis
    unfolding decode_bits_def frame_pairs_def fold_res_product[symmetric]
    by (intro fold_res_cong) simp
qed

lemma frame_pairs_range: "p \<in> set (frame_pairs channels) \<Longrightarrow> fst p < frame_bits_dsd64 \<and> snd p < channels"
  by (auto simp: frame_pairs_def)

lemma decode_candidate_payload:
  assumes ok: "candidate_ok channels filters probs layout"
    and len: "length dsd = frame_bytes_dsd64 * channels"
    and enc: "encode_symbols ((0, nat (prob_dst_x_bit (first_filter_coeff filters)))
        # frame_symbols dsd channels (build_filter_lut filters) probs (table_for_channel layout channels)
            (frame_pairs channels) initial_status) arith_enc_new = Some e"
    and r: "br_ok r" "\<not> br_zero_pad r"
    and view: "br_view r = syntax_bits channels filters probs layout @ 0 # enc_finish e @ replicate k 0"
    and d: "dst_decoder_new channels Dsd64 = Inr d"
  shows "decode_compressed_dst_payload d r (replicate (frame_bytes_dsd64 * channels) 0) = Inr dsd"
proof -
  let ?n = "length filters" and ?tables = "table_for_channel layout channels"
  let ?syms = "frame_symbols dsd channels (build_filter_lut filters) probs ?tables (frame_pairs channels) initial_status"
  let ?p0 = "prob_dst_x_bit (first_filter_coeff filters)"
  have ch: "1 \<le> channels" "channels \<le> 6" and f: "filters_ok channels filters layout"
    and p: "probabilities_ok ?n probs" using ok by (auto simp: candidate_ok_def)
  have n: "1 \<le> ?n" "?n \<le> 6" using candidate_length[OF ok] by auto
  have geo: "dd_channel_count d = channels" "dd_frame_bytes d = 4704" "dd_frame_bits d = frame_bits_dsd64"
    using d dst_decoder_new_value[OF ch, of Dsd64] by (auto simp: frame_bits_dsd64_def frame_bytes_dsd64_def)
  have bytes128: "(128::nat) \<le> 4704" by simp
  obtain hp where syn: "delivers (compressed_syntax_read channels 4704) (syntax_bits channels filters probs layout)
      (candidate_syntax channels filters probs layout hp)"
    using delivers_syntax[OF f p ch bytes128] by blast
  let ?r1 = "br_advance (length (syntax_bits channels filters probs layout)) r"
  have read: "compressed_syntax_read channels 4704 r = Inr (candidate_syntax channels filters probs layout hp, ?r1)"
    using deliversD[OF syn r(1) view] .
  have p0: "1 \<le> nat ?p0" "nat ?p0 \<le> 128" "int (nat ?p0) = ?p0"
    using prob_dst_x_bit_range[of "first_filter_coeff filters"] by auto
  obtain e1 where e1: "encode_bit 0 (nat ?p0) arith_enc_new = Some e1" "enc_ready e1"
    using encode_bit_correct[OF enc_ready_new p0(1,2), of 0] by auto
  have rest: "encode_symbols ?syms e1 = Some e" using enc e1 by (simp add: encode_symbols_def)
  have oks: "\<forall>s \<in> set ?syms. symbol_ok s"
    using frame_pairs_range by (intro frame_symbols_ok[OF ok]) blast
  have er: "enc_ready e" using encode_symbols_ready[OF e1(2) oks] rest by auto
  then have fin: "12 \<le> length (enc_finish e)" by (simp add: enc_finish_correct(2) enc_ready_def)
  have v1: "br_view ?r1 = 0 # enc_finish e @ replicate k 0" using view by (simp add: br_view_advance)
  obtain r2 a r3 m where start: "check_arithmetic_marker ?r1 = Inr r2" "arith_dec_new r2 = Inr (a, r3)"
    "arith_sync (enc_finish e @ replicate m 0) arith_enc_new a r3"
    using arithmetic_start[OF _ _ v1 fin] r by auto
  let ?Z = "enc_finish e @ replicate m 0"
  have i: "in_interval ?Z e" by (rule in_interval_finish[OF er])
  have i1: "in_interval ?Z e1" by (rule in_interval_run[OF e1(2) oks rest i])
  obtain a1 r4 where get: "arith_get ?p0 (a, r3) = Inr (0, a1, r4)" "arith_sync ?Z e1 a1 r4"
    using arith_get_correct[OF enc_ready_new p0(1,2) _ e1(1) start(3) i1] p0(3) by auto
  have cur: "cursor_set_new (candidate_segments ?tables channels) channels frame_bits_dsd64 ?n kind
      = Inr (start_cursors channels frame_bits_dsd64)" for kind
    using n table_for_channel_lt[OF f] by (intro cursor_set_new_candidate[OF ch(2)]) auto
  have coeff: "at2 (ct_coeff (coeff_table_of ?n filters ?n)) 0 0 = first_filter_coeff filters"
  proof -
    obtain c cs fs where "filters = (c # cs) # fs"
      using f n(1) by (cases filters; cases "hd filters") (auto simp: filters_ok_def)
    then show ?thesis by (simp add: coeff_table_of_def first_filter_coeff_def padded_row_def)
  qed
  let ?s = "\<lparr>fr_arith = a1, fr_reader = r4, fr_filter_cursors = start_cursors channels frame_bits_dsd64,
    fr_probability_cursors = start_cursors channels frame_bits_dsd64, fr_status = initial_status,
    fr_out = replicate (frame_bytes_dsd64 * channels) 0\<rparr>"
  have ls: "loop_state ?Z channels initial_status (replicate (frame_bytes_dsd64 * channels) 0) e1 ?s"
    using get(2) by (simp add: loop_state_def)
  have ps: "\<forall>p \<in> set (frame_pairs channels). fst p < frame_bits_dsd64 \<and> snd p < channels"
    using frame_pairs_range by blast
  obtain s' where run: "decode_bits (candidate_syntax channels filters probs layout hp)
      (build_filters (coeff_table_of ?n filters ?n)) channels frame_bits_dsd64 ?s = Inr s'"
    and out: "fr_out s' = write_pairs dsd channels (frame_pairs channels) (replicate (frame_bytes_dsd64 * channels) 0)"
    unfolding decode_bits_candidate[OF ch(2)]
    using decode_bits_run[OF ok length_replicate ps e1(2) rest i ls] by blast
  have cf: "cs_filter_segments (candidate_syntax channels filters probs layout hp) = candidate_segments ?tables channels"
    "cs_probability_segments (candidate_syntax channels filters probs layout hp) = candidate_segments ?tables channels"
    "cs_filter_tables (candidate_syntax channels filters probs layout hp) = coeff_table_of ?n filters ?n"
    "ct_elements (cs_probability_tables (candidate_syntax channels filters probs layout hp)) = ?n"
    "ct_elements (coeff_table_of ?n filters ?n) = ?n"
    by (simp_all add: candidate_syntax_def Let_def coeff_table_of_def)
  show ?thesis
    unfolding decode_compressed_dst_payload_def geo read res_bind_Inr split start cf cur coeff get(1) Let_def run
    using out write_pairs_all[OF len] by simp
qed

lemma candidate_decodes:
  assumes ch: "1 \<le> channels" "channels \<le> 6" and f: "filters_ok channels filters layout"
    and len: "length dsd = frame_bytes_dsd64 * channels"
  shows "\<exists>bytes. encode_predictive_candidate dsd channels filters (table_for_channel layout channels) layout
      = Some bytes \<and> decode_frame_with_rate bytes channels Dsd64 = Inr dsd"
proof -
  let ?tables = "table_for_channel layout channels" and ?lut = "build_filter_lut filters"
  define probs where "probs = derive_probability_tables dsd channels ?lut ?tables"
  let ?p0 = "nat (prob_dst_x_bit (first_filter_coeff filters))"
  let ?syms = "(0, ?p0) # frame_symbols dsd channels ?lut probs ?tables (frame_pairs channels) initial_status"
  have fne: "filters \<noteq> []" using f ch by (auto simp: filters_ok_def split: if_splits)
  have ok: "candidate_ok channels filters probs layout"
    using ch f derived_tables_ok[OF fne] by (simp add: candidate_ok_def probs_def)
  have p0: "1 \<le> ?p0" "?p0 \<le> 128" using prob_dst_x_bit_range[of "first_filter_coeff filters"] by auto
  have oks: "\<forall>s \<in> set ?syms. symbol_ok s"
    using p0 frame_symbols_ok[OF ok, of "frame_pairs channels" dsd initial_status] frame_pairs_range by fastforce
  obtain e where e: "encode_symbols ?syms arith_enc_new = Some e" "enc_ready e"
    using encode_symbols_ready[OF enc_ready_new oks] by auto
  have inv: "enc_inv e" using e(2) by (simp add: enc_ready_def)
  have residuals: "encode_residuals dsd channels ?lut probs ?tables (first_filter_coeff filters) = Some (enc_finish e)"
    by (simp only: encode_residuals_symbols e(1) option.map)
  let ?w = "write_bit_slice (enc_finish e) (write_candidate_header channels filters probs layout)"
  define bytes where "bytes = into_bytes ?w"
  have enc: "encode_predictive_candidate dsd channels filters ?tables layout = Some bytes"
    by (simp add: encode_predictive_candidate_def Let_def probs_def[symmetric] residuals bytes_def)
  have "bw_holds ?w (candidate_header channels filters probs layout @ enc_finish e)"
    by (rule bw_holds_write_bit_slice[OF bw_holds_header[OF ch] enc_finish_correct(3)[OF inv]])
  then obtain k where bits: "bytes_bits bytes
      = (candidate_header channels filters probs layout @ enc_finish e) @ replicate k 0" and k: "k < 8"
    by (auto simp: bw_holds_def bytes_def into_bytes_def)
  have "enc_len e \<le> enc_len arith_enc_new + 12 * length ?syms"
    by (rule encode_symbols_length[OF enc_ready_new oks e(1)])
  then have "length (enc_finish e) \<le> 12 * length ?syms + 12" using enc_finish_correct(2)[OF inv] by simp
  moreover have "length ?syms \<le> 1 + 37632 * 6"
    using ch by (simp add: frame_pairs_def frame_bits_dsd64_def frame_bytes_dsd64_def)
  ultimately have "8 * length bytes \<le> 3000000"
    using arg_cong[OF bits, of length] candidate_header_length[OF ok] k by simp
  also have "(3000000::nat) < 2 ^ 64" by simp
  finally have rok: "br_ok (br_new bytes)" by (simp add: br_ok_def br_new_def)
  have view: "br_view (br_new bytes) = 1 # syntax_bits channels filters probs layout @ 0 # enc_finish e @ replicate k 0"
    using bits by (simp add: candidate_header_def)
  have rd: "read_bit (br_new bytes) = Inr (1, br_advance 1 (br_new bytes))" by (rule read_bit_view[OF rok view])
  obtain d where d: "dst_decoder_new channels Dsd64 = Inr d" "dd_channel_count d = channels" "dd_frame_bytes d = 4704"
    using dst_decoder_new_value[OF ch, of Dsd64] by auto
  have "dst_decoder_inv d" by (rule dst_decoder_new_inv[OF d(1)])
  then have db: "dsd_frame_bytes d = Inr (frame_bytes_dsd64 * channels)"
    using dsd_frame_bytes_value d by (simp add: frame_bytes_dsd64_def)
  let ?r1 = "br_advance 1 (br_new bytes)"
  have r1: "br_ok ?r1" "\<not> br_zero_pad ?r1" using rok by (simp_all add: br_new_def)
  have v1: "br_view ?r1 = syntax_bits channels filters probs layout @ 0 # enc_finish e @ replicate k 0"
    unfolding br_view_advance view by simp
  have pay: "decode_compressed_dst_payload d ?r1 (replicate (frame_bytes_dsd64 * channels) 0) = Inr dsd"
    by (rule decode_candidate_payload[OF ok len e(1) r1 v1 d(1)])
  have "bytes \<noteq> []" using view by auto
  then have into: "dst_decode_frame_into d bytes (replicate (frame_bytes_dsd64 * channels) 0)
      = Inr (frame_bytes_dsd64 * channels, dsd)"
    using rd pay by (simp add: dst_decode_frame_into_def db)
  have "decode_frame_with_rate bytes channels Dsd64 = Inr dsd"
    by (simp add: decode_frame_with_rate_def d(1) dst_decode_frame_def db into)
  with enc show ?thesis by blast
qed

text \<open>Raw frames: eight header bits, then the source bytes.\<close>

lemma raw_frame_decodes:
  assumes ch: "1 \<le> channels" "channels \<le> 6"
    and enc: "encode_uncompressed_frame_interleaved_with_rate dsd channels rate = Inr bytes"
  shows "decode_frame_with_rate bytes channels rate = Inr dsd"
proof -
  obtain d where d: "dst_decoder_new channels rate = Inr d" "dd_channel_count d = channels" "dd_rate d = rate"
    using dst_decoder_new_value[OF ch] by simp
  have inv: "dst_decoder_inv d" by (rule dst_decoder_new_inv[OF d(1)])
  let ?n = "dd_frame_bytes d * channels"
  have db: "dsd_frame_bytes d = Inr ?n" using dsd_frame_bytes_value[OF inv] d by simp
  have len: "length dsd = ?n" and bytes: "bytes = 0 # dsd"
    using enc inv d dst_interleaved_frame_len_value[OF ch, of rate]
    by (auto simp: encode_uncompressed_frame_interleaved_with_rate_def res_bind_eq_Inr_iff dst_decoder_inv_def
        split: if_splits)
  have "8 * length bytes \<le> 8 * (112896 + 1)"
    using dst_decoder_inv_bounds(3)[OF inv] len d bytes by (simp add: mult.commute)
  also have "(8 * (112896 + 1) :: nat) < 2 ^ 64" by simp
  finally have rok: "br_ok (br_new bytes)" by (simp add: br_ok_def br_new_def)
  have z: "byte_bits 0 = replicate 8 0" by (rule nth_equalityI) simp_all
  have view: "br_view (br_new bytes) = 0 # 0 # replicate 6 0 @ bytes_bits dsd @ []"
    by (simp add: bytes z numeral_nat)
  let ?r1 = "br_advance 1 (br_new bytes)" and ?r2 = "br_advance 2 (br_new bytes)" and ?r3 = "br_advance 8 (br_new bytes)"
  have rd1: "read_bit (br_new bytes) = Inr (0, ?r1)" by (rule read_bit_view[OF rok view])
  have v1: "br_view ?r1 = 0 # replicate 6 0 @ bytes_bits dsd @ []"
    unfolding br_view_advance view by simp
  have rd2: "read_bit ?r1 = Inr (0, ?r2)" using read_bit_view[OF _ v1] rok by simp
  have v2: "br_view ?r2 = replicate 6 0 @ bytes_bits dsd @ []"
    unfolding br_view_advance view by simp
  have rd3: "read_bits 6 ?r2 = Inr (0, ?r3)" using read_bits_view[OF _ v2, of 6] rok by simp
  have v3: "br_view ?r3 = bytes_bits dsd @ []"
    unfolding br_view_advance view by (simp add: numeral_nat)
  have rd4: "read_bytes ?n ?r3 = Inr (dsd, br_advance (8 * length dsd) ?r3)"
    using read_bytes_view[OF _ v3] rok len by simp
  have v4: "br_view (br_advance (8 * length dsd) ?r3) = replicate 0 0"
    using v3 br_view_advance[of "8 * length dsd" ?r3] by simp
  have nz: "\<not> br_zero_pad (br_advance (8 * length dsd) ?r3)" by (simp add: br_new_def)
  have fin: "ensure_remaining_bits_are_zero (br_advance (8 * length dsd) ?r3) = Inr ()"
    using ensure_zero_view[OF _ nz v4] rok by simp
  have "decode_uncompressed_dst_payload ?r1 ?n = Inr dsd"
    unfolding decode_uncompressed_dst_payload_def rd2 rd3 rd4 res_bind_Inr split fin ..
  then have "dst_decode_frame_into d bytes (replicate ?n 0) = Inr (?n, dsd)"
    using rd1 bytes by (simp add: dst_decode_frame_into_def db)
  then show ?thesis by (simp add: decode_frame_with_rate_def d(1) dst_decode_frame_def db)
qed

subsection \<open>Properties\<close>

text \<open>C1: predictive DST frames are lossless. For every DSD64 frame of 1 to 6 channels, every shared or
  per-channel set of filters with 1 to 128 coefficients in -256..255, the candidate
  writer returns a frame (its arithmetic coder terminates), and the public decoder accepts that frame
  and returns exactly the source bytes.\<close>

theorem predictive_frame_lossless:
  assumes "1 \<le> channels" and "channels \<le> 6" and "filters_ok channels filters layout"
    and "length dsd = frame_bytes_dsd64 * channels"
  shows "\<exists>bytes. encode_predictive_candidate dsd channels filters (table_for_channel layout channels) layout
      = Some bytes \<and> decode_frame_with_rate bytes channels Dsd64 = Inr dsd"
  using assms by (rule candidate_decodes)

theorem predictive_frame_lossless_witness:
  "\<exists>bytes. encode_predictive_candidate (replicate 9408 0x69) 2 [[-30, 12, 5], [7]] [0, 1] PerChannel = Some bytes
     \<and> decode_frame_with_rate bytes 2 Dsd64 = Inr (replicate 9408 0x69)"
  using predictive_frame_lossless[of 2 "[[-30, 12, 5], [7]]" PerChannel "replicate 9408 0x69"]
  by (simp add: filters_ok_def frame_bytes_dsd64_def numeral_2_eq_2)

text \<open>raw DST frames are lossless at every rate: what \<open>encode_uncompressed_frame\<close> returns for a
  frame of 1 to 6 channels at DSD64, DSD128 or DSD256 is decoded back to the source.\<close>

theorem raw_frame_lossless:
  assumes "encode_uncompressed_frame_interleaved_with_rate dsd channels rate = Inr bytes"
  shows "decode_frame_with_rate bytes channels rate = Inr dsd"
proof (rule raw_frame_decodes[OF _ _ assms])
  show "1 \<le> channels" and "channels \<le> 6"
    using assms by (auto simp: encode_uncompressed_frame_interleaved_with_rate_def res_bind_eq_Inr_iff
        validate_dst_policy_def enc_validate_channel_count_def is_legal_dst_channel_count_def split: if_splits)
qed

theorem raw_frame_lossless_witness:
  "decode_frame_with_rate (0 # replicate 18816 0xA5) 1 Dsd256 = Inr (replicate 18816 0xA5)"
proof (rule raw_frame_lossless)
  show "encode_uncompressed_frame_interleaved_with_rate (replicate 18816 0xA5) 1 Dsd256
      = Inr (0 # replicate 18816 0xA5)"
    by (simp add: encode_uncompressed_frame_interleaved_with_rate_def dst_interleaved_frame_len_value
        validate_dst_policy_def enc_validate_channel_count_def is_legal_dst_channel_count_def)
qed

end
