(* ===== verification/DstRobust.thy ===== *)
theory DstRobust
  imports DstFrame
begin

text \<open>
  The decoder on arbitrary input. \<open>yields P rd\<close> is a Hoare triple for readers: from a reader inside
  its input, whatever \<open>rd\<close> returns satisfies \<open>P\<close> and leaves the reader inside its input. With it the
  syntax readers are shown to accept only headers all of whose table numbers, lengths and
  coefficients are in range; the cursors are shown to find the segment of every bit; and the
  decoding loop is shown never to fail once the header and the segment maps are accepted.
\<close>

subsection \<open>Readers and what they yield\<close>

definition rd_inv :: "bit_reader \<Rightarrow> bool" where
  "rd_inv r \<longleftrightarrow> br_ok r \<and> \<not> br_zero_pad r \<and> br_pos r \<le> 8 * length (br_input r)"

definition rd_follows :: "bit_reader \<Rightarrow> bit_reader \<Rightarrow> bool" where
  "rd_follows r r' \<longleftrightarrow> rd_inv r' \<and> br_input r' = br_input r"

definition yields :: "('a \<Rightarrow> bool) \<Rightarrow> (bit_reader \<Rightarrow> 'e + 'a \<times> bit_reader) \<Rightarrow> bool" where
  "yields P rd \<longleftrightarrow> (\<forall>r v r'. rd_inv r \<longrightarrow> rd r = Inr (v, r') \<longrightarrow> rd_follows r r' \<and> P v)"

lemma rd_follows_trans: "rd_follows r r1 \<Longrightarrow> rd_follows r1 r2 \<Longrightarrow> rd_follows r r2"
  by (simp add: rd_follows_def)

lemma rd_follows_inv: "rd_follows r r' \<Longrightarrow> rd_inv r'"
  by (simp add: rd_follows_def)

lemma rd_follows_refl: "rd_inv r \<Longrightarrow> rd_follows r r"
  by (simp add: rd_follows_def)

lemma yieldsD: "yields P rd \<Longrightarrow> rd_inv r \<Longrightarrow> rd r = Inr (v, r') \<Longrightarrow> rd_follows r r' \<and> P v"
  by (simp add: yields_def)

lemma yields_weaken: "yields Q rd \<Longrightarrow> (\<And>v. Q v \<Longrightarrow> P v) \<Longrightarrow> yields P rd"
  by (auto simp: yields_def)

lemma yields_bind:
  assumes "yields Q rd" and "\<And>v. Q v \<Longrightarrow> yields P (\<lambda>r. k (v, r))"
  shows "yields P (\<lambda>r. res_bind (rd r) k)"
  unfolding yields_def
proof (intro allI impI)
  fix r u r'
  assume r: "rd_inv r" and e: "res_bind (rd r) k = Inr (u, r')"
  then obtain v r1 where v: "rd r = Inr (v, r1)" "k (v, r1) = Inr (u, r')"
    by (auto simp: res_bind_eq_Inr_iff)
  from yieldsD[OF assms(1) r v(1)] have r1: "rd_follows r r1" "Q v" by auto
  from yieldsD[OF assms(2)[OF r1(2)] rd_follows_inv[OF r1(1)] v(2)] r1(1)
  show "rd_follows r r' \<and> P u" using rd_follows_trans by blast
qed

lemma yields_return: "P v \<Longrightarrow> yields P (\<lambda>r. Inr (v, r))"
  by (simp add: yields_def rd_follows_refl)

lemma yields_error: "yields P (\<lambda>r. Inl e)"
  by (simp add: yields_def)

lemma yields_pure:
  "(\<And>v. m = Inr v \<Longrightarrow> yields P (k v)) \<Longrightarrow> yields P (\<lambda>r. res_bind m (\<lambda>v. k v r))"
  by (cases m) (auto simp: yields_def)

lemma yields_if:
  "(b \<Longrightarrow> yields P f) \<Longrightarrow> (\<not> b \<Longrightarrow> yields P g) \<Longrightarrow> yields P (\<lambda>r. if b then f r else g r)"
  by (cases b) simp_all

lemma yields_fold:
  assumes "I 0 s" and "\<And>k s. k < length xs \<Longrightarrow> I k s \<Longrightarrow> yields (I (Suc k)) (\<lambda>r. f (xs ! k) (s, r))"
  shows "yields (I (length xs)) (\<lambda>r. fold_res f xs (s, r))"
  unfolding yields_def
proof (intro allI impI)
  fix r v r'
  assume r: "rd_inv r" and run: "fold_res f xs (s, r) = Inr (v, r')"
  have "(\<lambda>k (s, r'). rd_follows r r' \<and> I k s) (length xs) (v, r')"
  proof (rule fold_res_invariant[where P = "\<lambda>k (s, r'). rd_follows r r' \<and> I k s", OF run])
    show "(case (s, r) of (s, r') \<Rightarrow> rd_follows r r' \<and> I 0 s)" using r assms(1) by (simp add: rd_follows_refl)
    fix k u w
    assume "k < length xs" "case u of (s, r') \<Rightarrow> rd_follows r r' \<and> I k s" "f (xs ! k) u = Inr w"
    then show "case w of (s, r') \<Rightarrow> rd_follows r r' \<and> I (Suc k) s"
      using yieldsD[OF assms(2)] rd_follows_trans rd_follows_inv by (cases u; cases w) blast
  qed
  then show "rd_follows r r' \<and> I (length xs) v" by simp
qed

lemma yields_read_bit: "yields (\<lambda>b. b < 2) read_bit"
  unfolding yields_def
proof (intro allI impI)
  fix r b r'
  assume r: "rd_inv r" and e: "read_bit r = Inr (b, r')"
  then have ok: "br_ok r" "\<not> br_zero_pad r" by (auto simp: rd_inv_def)
  obtain c cs where v: "br_view r = c # cs"
  proof (cases "br_view r")
    case Nil
    then show ?thesis using read_bit_eof[OF ok(1) Nil ok(2)] e by simp
  qed (use that in blast)
  have "c < 2" using bit_list_br_view[of r] v by simp
  have "read_bit r = Inr (c, br_advance 1 r)" by (rule read_bit_view[OF ok(1) v])
  then have "b = c" "r' = br_advance 1 r" using e by auto
  moreover have "br_pos r < 8 * length (br_input r)"
  proof (rule ccontr)
    assume "\<not> br_pos r < 8 * length (br_input r)"
    then show False using v ok(2) by (simp add: br_view_def br_limit_def)
  qed
  ultimately show "rd_follows r r' \<and> b < 2" using r \<open>c < 2\<close> by (simp add: rd_follows_def rd_inv_def)
qed

lemma yields_read_loop:
  "v < 2 ^ k \<Longrightarrow> k + n \<le> 32 \<Longrightarrow> yields (\<lambda>x. x < 2 ^ (k + n)) (read_loop read_bit n v)"
proof (induction n arbitrary: v k)
  case 0
  then show ?case by (simp add: yields_def rd_follows_refl)
next
  case (Suc n)
  have "yields (\<lambda>x. x < 2 ^ (k + Suc n)) (\<lambda>r. res_bind (read_bit r)
      (\<lambda>(b, r). read_loop read_bit n (take_bit 32 (push_bit 1 v) OR b) r))"
  proof (rule yields_bind[OF yields_read_bit], unfold split)
    fix b :: nat assume "b < 2"
    then have b: "b = 0 \<or> b = 1" by linarith
    have "(2::nat) ^ Suc k \<le> 2 ^ 32" using Suc.prems(2) by (intro power_increasing) auto
    then have "2 * v < 2 ^ 32" using Suc.prems(1) by simp
    then have "take_bit 32 (push_bit 1 v) = 2 * v"
      by (simp add: take_bit_nat_eq_self_iff push_bit_eq_mult mult.commute)
    moreover have "(2 * v) OR b < 2 ^ Suc k" using b Suc.prems(1) by (auto simp: or_Suc_0_eq)
    ultimately show "yields (\<lambda>x. x < 2 ^ (k + Suc n)) (read_loop read_bit n (take_bit 32 (push_bit 1 v) OR b))"
      using Suc.IH[of "(2 * v) OR b" "Suc k"] Suc.prems(2) by simp
  qed
  then show ?case by simp
qed

lemma yields_read_bits: "yields (\<lambda>v. v < 2 ^ n) (read_bits n)"
proof (cases "n > 32")
  case True
  then show ?thesis by (simp add: read_bits_def[abs_def] yields_error)
next
  case False
  then show ?thesis using yields_read_loop[of 0 0 n] by (simp add: read_bits_def[abs_def])
qed

lemma yields_read_signed: "yields (\<lambda>v. - (2 ^ (n - 1)) \<le> v \<and> v < 2 ^ (n - 1)) (read_signed n)"
proof (cases "n = 0 \<or> n \<ge> 32")
  case True
  then show ?thesis by (auto simp: read_signed_def[abs_def] yields_error)
next
  case False
  then have n: "0 < n" "n < 32" by auto
  have range: "- (2 ^ (n - 1)) \<le> sint (signed_drop_bit (32 - n) (push_bit (32 - n) (word_of_nat raw :: 32 word)))
      \<and> sint (signed_drop_bit (32 - n) (push_bit (32 - n) (word_of_nat raw :: 32 word))) < 2 ^ (n - 1)"
    if raw: "raw < 2 ^ n" for raw :: nat
  proof -
    define v where "v = signed_take_bit (n - 1) (int raw)"
    have v: "- (2 ^ (n - 1)) \<le> v" "v < 2 ^ (n - 1)"
      by (simp_all add: v_def signed_take_bit_int_greater_eq_minus_exp signed_take_bit_int_less_exp)
    have "v mod 2 ^ n = take_bit n (signed_take_bit (n - 1) (int raw))"
      by (simp add: v_def take_bit_eq_mod)
    also have "\<dots> = take_bit n (int raw)" using n by (simp add: take_bit_signed_take_bit)
    also have "\<dots> = int raw" using raw by (simp add: take_bit_int_eq_self_iff)
    finally have "nat (v mod 2 ^ n) = raw" by simp
    then show ?thesis using sign_extend_word[OF n v] v by simp
  qed
  have "yields (\<lambda>v. - (2 ^ (n - 1)) \<le> v \<and> v < 2 ^ (n - 1)) (\<lambda>r. res_bind (read_bits n r)
        (\<lambda>(raw, r). let shift = 32 - n; raw = (word_of_nat raw :: 32 word)
          in Inr (sint (signed_drop_bit shift (push_bit shift raw)), r)))"
    by (rule yields_bind[OF yields_read_bits], unfold split Let_def, rule yields_return, rule range)
  then show ?thesis using n by (simp add: read_signed_def[abs_def])
qed

subsection \<open>What the syntax readers accept\<close>

definition seg_ok :: "nat \<Rightarrow> segment_data \<Rightarrow> bool" where
  "seg_ok m d \<longleftrightarrow> length (sd_count d) = 6 \<and> shape 6 8 (sd_len d) \<and> shape 6 8 (sd_table d)
     \<and> (\<forall>ch < 6. 1 \<le> sd_count d ! ch \<and> sd_count d ! ch \<le> m)"

definition tables_below :: "nat \<Rightarrow> segment_data \<Rightarrow> bool" where
  "tables_below n d \<longleftrightarrow> (\<forall>ch < 6. \<forall>seg < 8. at2 (sd_table d) ch seg < n)"

lemma seg_ok_default: "1 \<le> m \<Longrightarrow> seg_ok m segment_data_default \<and> tables_below 1 segment_data_default"
  by (simp add: seg_ok_def tables_below_def segment_data_default_def)

lemma yields_segments_loop:
  assumes "ch < 6" and "m \<le> 8"
  shows "idx < m \<Longrightarrow> seg_ok m d \<Longrightarrow> tables_below 1 d \<Longrightarrow>
     yields (\<lambda>d. seg_ok m d \<and> tables_below 1 d) (read_segments_loop ch fb m mb defined mxb idx res d)"
proof (induction "m - idx" arbitrary: idx defined mxb res d)
  case 0
  then show ?case by simp
next
  case (Suc n)
  have step: "yields (\<lambda>d. seg_ok m d \<and> tables_below 1 d)
      (\<lambda>r. res_bind (if res then Inr (d, r) else read_resolution fb mb d r) (\<lambda>(d, r).
         res_bind (read_segment_len fb mb defined mxb d r)
           (\<lambda>((len_units, defined, mxb), r).
             read_segments_loop ch fb m mb defined mxb (idx + 1) True
               (d\<lparr>sd_len := upd2 (sd_len d) ch idx len_units\<rparr>) r)))" if lt: "idx + 1 < m"
  proof (rule yields_bind[where Q = "\<lambda>d. seg_ok m d \<and> tables_below 1 d"])
    show "yields (\<lambda>d. seg_ok m d \<and> tables_below 1 d) (\<lambda>r. if res then Inr (d, r) else read_resolution fb mb d r)"
    proof (rule yields_if)
      show "yields (\<lambda>d. seg_ok m d \<and> tables_below 1 d) (\<lambda>r. Inr (d, r))"
        using Suc.prems by (intro yields_return) simp
      have d': "seg_ok m (d\<lparr>sd_resolution := resolution\<rparr>) \<and> tables_below 1 (d\<lparr>sd_resolution := resolution\<rparr>)"
        for resolution using Suc.prems by (simp add: seg_ok_def tables_below_def)
      show "yields (\<lambda>d. seg_ok m d \<and> tables_below 1 d) (read_resolution fb mb d)"
        unfolding read_resolution_def[abs_def]
        by (rule yields_pure, rule yields_bind[OF yields_read_bits], unfold split,
          rule yields_if, rule yields_error, rule yields_return, rule d')
    qed
  next
    fix d' assume d': "seg_ok m d' \<and> tables_below 1 d'"
    have len: "yields (\<lambda>_. True) (read_segment_len fb mb defined mxb d')"
      unfolding read_segment_len_def[abs_def]
      by (rule yields_pure, rule yields_bind[OF yields_read_bits], unfold split, rule yields_pure, rule yields_pure,
        rule yields_if, rule yields_error, rule yields_pure, rule yields_pure, rule yields_pure, rule yields_return)
        simp
    have rec: "yields (\<lambda>d. seg_ok m d \<and> tables_below 1 d)
        (read_segments_loop ch fb m mb defined' mxb' (idx + 1) True (d'\<lparr>sd_len := upd2 (sd_len d') ch idx len\<rparr>))"
      for defined' mxb' len
      using d' Suc.hyps(2) lt by (intro Suc.hyps(1)) (auto simp: seg_ok_def tables_below_def)
    show "yields (\<lambda>d. seg_ok m d \<and> tables_below 1 d) (\<lambda>r. case (d', r) of (d, r) \<Rightarrow>
         res_bind (read_segment_len fb mb defined mxb d r)
           (\<lambda>((len_units, defined, mxb), r).
             read_segments_loop ch fb m mb defined mxb (idx + 1) True
               (d\<lparr>sd_len := upd2 (sd_len d) ch idx len_units\<rparr>) r))"
      unfolding split by (rule yields_bind[OF len]) (use rec in \<open>simp split: prod.splits\<close>)
  qed
  have fin: "seg_ok m (if \<not> res then d'\<lparr>sd_resolution := 1\<rparr> else d') \<and>
      tables_below 1 (if \<not> res then d'\<lparr>sd_resolution := 1\<rparr> else d')"
    if "d' = d\<lparr>sd_count := (sd_count d)[ch := count], sd_len := upd2 (sd_len d) ch idx 0\<rparr>"
      and "checked_add64 idx 1 = Some count" for d' count
    using that Suc.prems assms
    by (auto simp: seg_ok_def tables_below_def checked_defs nth_list_update split: if_splits)
  show ?case
    apply (subst read_segments_loop.simps[abs_def])
    apply (rule yields_bind[OF yields_read_bit], unfold split)
    apply (rule yields_if, rule yields_pure, unfold Let_def ok_or_eq_Inr_iff, rule yields_return, rule fin[OF refl], assumption)
    apply (rule yields_if, rule yields_error)
    apply (rule step)
    apply simp
    done
qed

lemma yields_one_channel:
  assumes "ch < 6" and "1 \<le> m" and "m \<le> 8" and "seg_ok m d" and "tables_below 1 d"
  shows "yields (\<lambda>d. seg_ok m d \<and> tables_below 1 d) (\<lambda>r. read_one_channel_segments fb m mb ch (d, r))"
  unfolding read_one_channel_segments_def split
  by (rule yields_pure, rule yields_segments_loop) (use assms in auto)

lemma fold_invariant: "P s \<Longrightarrow> (\<And>x s. x \<in> set xs \<Longrightarrow> P s \<Longrightarrow> P (f x s)) \<Longrightarrow> P (fold f xs s)"
  by (induction xs arbitrary: s) auto

lemma seg_ok_share_first_channel:
  assumes "seg_ok m d \<and> tables_below 1 d" and "channels \<le> 6"
  shows "seg_ok m (share_first_channel channels d) \<and> tables_below 1 (share_first_channel channels d)"
  unfolding share_first_channel_def
proof (rule fold_invariant[where P = "\<lambda>d. seg_ok m d \<and> tables_below 1 d", OF assms(1)])
  fix ch d assume ch: "ch \<in> set [1..<channels]" and d: "seg_ok m d \<and> tables_below 1 d"
  have "seg_ok m (d\<lparr>sd_count := (sd_count d)[ch := sd_count d ! 0]\<rparr>)
      \<and> tables_below 1 (d\<lparr>sd_count := (sd_count d)[ch := sd_count d ! 0]\<rparr>)"
    using d ch assms(2) by (auto simp: seg_ok_def tables_below_def nth_list_update)
  then show "seg_ok m (fold (\<lambda>seg d. d\<lparr>sd_len := upd2 (sd_len d) ch seg (at2 (sd_len d) 0 seg)\<rparr>)
         [0..<sd_count d ! 0] (d\<lparr>sd_count := (sd_count d)[ch := sd_count d ! 0]\<rparr>))
      \<and> tables_below 1 (fold (\<lambda>seg d. d\<lparr>sd_len := upd2 (sd_len d) ch seg (at2 (sd_len d) 0 seg)\<rparr>)
         [0..<sd_count d ! 0] (d\<lparr>sd_count := (sd_count d)[ch := sd_count d ! 0]\<rparr>))"
    by (rule fold_invariant[where P = "\<lambda>d. seg_ok m d \<and> tables_below 1 d"])
      (auto simp: seg_ok_def tables_below_def)
qed

lemma yields_segment_data:
  assumes "channels \<le> 6" and "1 \<le> m" and "m \<le> 8"
  shows "yields (\<lambda>(d, same). seg_ok m d \<and> tables_below 1 d) (segment_data_read channels fb m mb)"
  unfolding segment_data_read_def[abs_def]
proof (rule yields_bind[OF yields_read_bit], unfold split, rule yields_if)
  fix b :: nat
  have d0: "seg_ok m segment_data_default" "tables_below 1 segment_data_default"
    using seg_ok_default[OF assms(2)] by auto
  show "yields (\<lambda>(d, same). seg_ok m d \<and> tables_below 1 d)
      (\<lambda>r. res_bind (read_one_channel_segments fb m mb 0 (segment_data_default, r))
           (\<lambda>(d, r). Inr ((share_first_channel channels d, True), r)))"
    by (rule yields_bind[OF yields_one_channel[OF _ assms(2,3) d0]], simp, unfold split, rule yields_return)
      (use seg_ok_share_first_channel assms in auto)
  have "yields (\<lambda>d. seg_ok m d \<and> tables_below 1 d)
      (\<lambda>r. fold_res (read_one_channel_segments fb m mb) [0..<channels] (segment_data_default, r))"
    by (rule yields_fold[where I = "\<lambda>_ d. seg_ok m d \<and> tables_below 1 d"])
      (use d0 yields_one_channel[OF _ assms(2,3)] assms(1) in auto)
  then show "yields (\<lambda>(d, same). seg_ok m d \<and> tables_below 1 d)
      (\<lambda>r. res_bind (fold_res (read_one_channel_segments fb m mb) [0..<channels] (segment_data_default, r))
           (\<lambda>(d, r). Inr ((d, False), r)))"
    by (rule yields_bind) (simp add: yields_return)
qed

lemma seg_ok_mono: "seg_ok m d \<Longrightarrow> m \<le> m' \<Longrightarrow> seg_ok m' d"
  unfolding seg_ok_def by force

definition segs_ok :: "segment_data \<times> segment_data \<Rightarrow> bool" where
  "segs_ok u \<longleftrightarrow> seg_ok 4 (fst u) \<and> tables_below 1 (fst u) \<and> seg_ok 8 (snd u) \<and> tables_below 1 (snd u)"

lemma yields_segments:
  assumes "channels \<le> 6"
  shows "yields segs_ok (compressed_segments_read channels fb)"
proof -
  have c: "copy_from_filter_for_probability d channels = Inr p \<Longrightarrow> p = d" for d p
    by (auto simp: copy_from_filter_for_probability_def res_bind_eq_Inr_iff)
  have rest: "yields segs_ok (\<lambda>r. if b \<noteq> 0 then
       res_bind (copy_from_filter_for_probability fseg channels) (\<lambda>pseg. Inr ((fseg, pseg), r))
     else res_bind (segment_data_read channels fb 8 32 r) (\<lambda>((pseg, _), r). Inr ((fseg, pseg), r)))"
    if f: "seg_ok 4 fseg \<and> tables_below 1 fseg" for fseg and b :: nat
  proof (rule yields_if)
    have "segs_ok (fseg, fseg)" using f seg_ok_mono[of 4 fseg 8] by (simp add: segs_ok_def)
    then show "yields segs_ok (\<lambda>r. res_bind (copy_from_filter_for_probability fseg channels)
        (\<lambda>pseg. Inr ((fseg, pseg), r)))"
      by (intro yields_pure) (auto dest!: c intro: yields_return)
    show "yields segs_ok (\<lambda>r. res_bind (segment_data_read channels fb 8 32 r) (\<lambda>((pseg, _), r). Inr ((fseg, pseg), r)))"
      by (rule yields_bind[OF yields_segment_data[OF assms]])
        (use f in \<open>auto simp: segs_ok_def intro!: yields_return split: prod.splits\<close>)
  qed
  have "yields segs_ok (\<lambda>r. res_bind (segment_data_read channels fb 4 1024 r) (\<lambda>((fseg, _), r).
     if b \<noteq> 0 then res_bind (copy_from_filter_for_probability fseg channels) (\<lambda>pseg. Inr ((fseg, pseg), r))
     else res_bind (segment_data_read channels fb 8 32 r) (\<lambda>((pseg, _), r). Inr ((fseg, pseg), r))))" for b :: nat
    by (rule yields_bind[OF yields_segment_data[OF assms]]) (use rest in \<open>auto split: prod.splits\<close>)
  then show ?thesis
    unfolding compressed_segments_read_def[abs_def]
    by (intro yields_bind[OF yields_read_bit]) simp
qed

definition map_ok :: "nat \<Rightarrow> nat \<times> segment_data \<Rightarrow> bool" where
  "map_ok m u \<longleftrightarrow> 1 \<le> fst u \<and> seg_ok m (snd u) \<and> tables_below (fst u) (snd u)"

lemma map_ok_update:
  assumes "map_ok m (n, d)" and "v \<le> n" and "n' = (if v = n then n + 1 else n)" and "ch < 6" and "seg < 8"
  shows "map_ok m (n', d\<lparr>sd_table := upd2 (sd_table d) ch seg v\<rparr>)"
proof -
  have sh: "shape 6 8 (sd_table d)" using assms(1) by (simp add: map_ok_def seg_ok_def)
  have "at2 (upd2 (sd_table d) ch seg v) i j < n'" if "i < 6" "j < 8" for i j
  proof -
    have "at2 (sd_table d) i j < n" using assms(1) that by (simp add: map_ok_def tables_below_def)
    then show ?thesis using assms(2,3) unfolding at2_upd2[OF sh assms(4,5)] by auto
  qed
  then show ?thesis using assms(1,3) sh by (auto simp: map_ok_def tables_below_def seg_ok_def)
qed

lemma yields_map_entry:
  assumes "map_ok m u" and "ch < 6" and "seg < 8"
  shows "yields (map_ok m) (\<lambda>r. read_map_entry ch seg (u, r))"
proof -
  obtain n d where u: "u = (n, d)" by (cases u)
  have "yields (map_ok m) (\<lambda>r.
     let d = d\<lparr>sd_table := upd2 (sd_table d) ch seg v\<rparr> in
       if v = n then
         res_bind (ok_or (InvalidMapping ''table count overflow'') (checked_add64 n 1))
           (\<lambda>n. Inr ((n, d), r))
       else if v > n then Inl (InvalidMapping ''invalid table number'')
       else Inr ((n, d), r))" for v
    unfolding Let_def
  proof (rule yields_if)
    assume "v = n"
    then show "yields (map_ok m) (\<lambda>r. res_bind (ok_or (InvalidMapping ''table count overflow'') (checked_add64 n 1))
        (\<lambda>na. Inr ((na, d\<lparr>sd_table := upd2 (sd_table d) ch seg v\<rparr>), r)))"
      using assms u map_ok_update[of m n d v "n + 1" ch seg]
      by (intro yields_pure yields_return) (auto simp: ok_or_eq_Inr_iff checked_defs split: if_splits)
  next
    assume "v \<noteq> n"
    then show "yields (map_ok m) (\<lambda>r. if v > n then Inl (InvalidMapping ''invalid table number'')
        else Inr ((n, d\<lparr>sd_table := upd2 (sd_table d) ch seg v\<rparr>), r))"
      using assms u map_ok_update[of m n d v n ch seg]
      by (intro yields_if yields_return yields_error) auto
  qed
  then show ?thesis
    unfolding read_map_entry_def u split read_table_number_def
    by (intro yields_bind[OF yields_read_bits]) simp
qed

lemma map_ok_copy:
  assumes "map_ok m (n, d)" and "ch < 6" and "k \<le> 8"
    and "\<And>seg. seg < 8 \<Longrightarrow> src seg < n"
  shows "map_ok m (n, fold (\<lambda>seg d. d\<lparr>sd_table := upd2 (sd_table d) ch seg (src seg)\<rparr>) [0..<k] d)"
proof (rule fold_invariant[where P = "\<lambda>d. map_ok m (n, d)", OF assms(1)])
  fix seg d assume seg: "seg \<in> set [0..<k]" and d: "map_ok m (n, d)"
  have "src seg < n" "seg < 8" using seg assms(3,4) by auto
  then show "map_ok m (n, d\<lparr>sd_table := upd2 (sd_table d) ch seg (src seg)\<rparr>)"
    using map_ok_update[OF d, of "src seg" n ch seg] assms(2) by simp
qed

lemma map_ok_share:
  assumes "map_ok m (n, d)" and "m \<le> 8" and "channels \<le> 6" and "share_first_mapping channels d = Inr d'"
  shows "map_ok m (n, d')"
proof -
  have row: "map_ok m (n, fold (\<lambda>seg d. d\<lparr>sd_table := upd2 (sd_table d) ch seg (at2 (sd_table d) 0 seg)\<rparr>)
      [0..<k] d)" if "map_ok m (n, d)" "ch < 6" "k \<le> 8" for ch k d
  proof (rule fold_invariant[where P = "\<lambda>d. map_ok m (n, d)", OF that(1)])
    fix seg d assume seg: "seg \<in> set [0..<k]" and d: "map_ok m (n, d)"
    have "at2 (sd_table d) 0 seg < n" "seg < 8" using seg d that(3) by (auto simp: map_ok_def tables_below_def)
    then show "map_ok m (n, d\<lparr>sd_table := upd2 (sd_table d) ch seg (at2 (sd_table d) 0 seg)\<rparr>)"
      using map_ok_update[OF d, of "at2 (sd_table d) 0 seg" n ch seg] that(2) by simp
  qed
  have cnt: "sd_count d ! 0 \<le> 8" if "map_ok m (n, d)" for d
    using that assms(2) by (force simp: map_ok_def seg_ok_def)
  show ?thesis
    by (rule fold_res_invariant[where P = "\<lambda>_ d. map_ok m (n, d)",
        OF assms(4)[unfolded share_first_mapping_def] assms(1)])
      (use row cnt assms(3) in \<open>auto split: if_splits\<close>)
qed

lemma yields_table_mapping:
  assumes "channels \<le> 6" and "m \<le> 8" and "seg_ok m d" and "tables_below 1 d"
  shows "yields (\<lambda>u. map_ok m u \<and> fst u \<le> 12 \<and> fst u \<le> mx) (read_table_mapping_data channels mx d)"
proof -
  let ?d = "d\<lparr>sd_table := upd2 (sd_table d) 0 0 0\<rparr>"
  have d: "map_ok m (1, ?d)"
    using map_ok_update[of m 1 d 0 1 0 0] assms(3,4) by (simp add: map_ok_def)
  have cnt: "sd_count ?d ! ch \<le> 8" if "ch < 6" for ch using assms(2,3) that by (force simp: seg_ok_def)
  have one: "yields (map_ok m) (\<lambda>r. res_bind (fold_res (\<lambda>seg. read_map_entry 0 seg) [1..<sd_count ?d ! 0] ((1, ?d), r))
             (\<lambda>((count_tables, d), r).
               res_bind (share_first_mapping channels d) (\<lambda>d. Inr ((count_tables, d), r))))"
  proof (rule yields_bind[where Q = "map_ok m"])
    show "yields (map_ok m) (\<lambda>r. fold_res (\<lambda>seg. read_map_entry 0 seg) [1..<sd_count ?d ! 0] ((1, ?d), r))"
      by (rule yields_fold[where I = "\<lambda>_. map_ok m", OF d]) (use cnt[of 0] in \<open>auto intro!: yields_map_entry\<close>)
    fix u assume u: "map_ok m u"
    show "yields (map_ok m) (\<lambda>r. (\<lambda>((count_tables, d), r).
        res_bind (share_first_mapping channels d) (\<lambda>d. Inr ((count_tables, d), r))) (u, r))"
      using u map_ok_share[OF _ assms(2,1)] by (cases u) (auto intro!: yields_pure yields_return)
  qed
  have all: "yields (map_ok m) (\<lambda>r. fold_res (\<lambda>ch s. fold_res
        (\<lambda>seg s. if ch = 0 \<and> seg = 0 then Inr s else read_map_entry ch seg s)
               [0..<sd_count ?d ! ch] s) [0..<channels] ((1, ?d), r))"
  proof (rule yields_fold[where I = "\<lambda>_. map_ok m", OF d])
    fix k u assume k: "k < length [0..<channels]" and u: "map_ok m u"
    have at: "[0..<channels] ! k = k" using k by simp
    have "yields (map_ok m) (\<lambda>r. fold_res
        (\<lambda>seg s. if k = 0 \<and> seg = 0 then Inr s else read_map_entry k seg s) [0..<sd_count ?d ! k] (u, r))"
      by (rule yields_fold[where I = "\<lambda>_. map_ok m", OF u])
        (use k assms(1) cnt[of k] in \<open>auto intro!: yields_if yields_return yields_map_entry\<close>)
    then show "yields (map_ok m) (\<lambda>r. fold_res
        (\<lambda>seg s. if [0..<channels] ! k = 0 \<and> seg = 0 then Inr s else read_map_entry ([0..<channels] ! k) seg s)
        [0..<sd_count ?d ! ([0..<channels] ! k)] (u, r))"
      unfolding at .
  qed
  show ?thesis
    unfolding read_table_mapping_data_def[abs_def] Let_def
  proof (rule yields_bind[OF yields_read_bit], unfold split, rule yields_bind[where Q = "map_ok m"],
      rule yields_if, rule one, rule all)
    fix u assume "map_ok m u"
    then show "yields (\<lambda>u. map_ok m u \<and> fst u \<le> 12 \<and> fst u \<le> mx) (\<lambda>r. (\<lambda>((count_tables, d), r).
          if count_tables = 0 \<or> count_tables > mx \<or> count_tables > 12 then
            Inl (InvalidMapping ''too many DST tables'')
          else Inr ((count_tables, d), r)) (u, r))"
      by (cases u) (auto intro!: yields_if yields_return yields_error)
  qed
qed

lemma copy_mapping_ok:
  assumes "copy_mapping_from_filter fseg pseg channels = Inr p" and "map_ok 4 (n, fseg)"
    and "seg_ok 8 pseg" and "tables_below 1 pseg" and "channels \<le> 6"
  shows "map_ok 8 (n, p)"
proof -
  have n: "1 \<le> n" and f: "\<And>ch seg. ch < 6 \<Longrightarrow> seg < 8 \<Longrightarrow> at2 (sd_table fseg) ch seg < n"
    using assms(2) by (auto simp: map_ok_def tables_below_def)
  have start: "map_ok 8 (n, pseg)" using assms(3,4) n by (auto simp: map_ok_def tables_below_def)
  have cnt: "ch < 6 \<Longrightarrow> sd_count fseg ! ch \<le> 8" for ch
    using assms(2) by (force simp: map_ok_def seg_ok_def)
  show ?thesis
    by (rule fold_res_invariant[where P = "\<lambda>_ d. map_ok 8 (n, d)",
        OF assms(1)[unfolded copy_mapping_from_filter_def] start])
      (use assms(5) f cnt in \<open>auto split: if_splits intro!: map_ok_copy\<close>)
qed

definition maps_ok :: "nat \<times> segment_data \<times> nat \<times> segment_data \<Rightarrow> bool" where
  "maps_ok u \<longleftrightarrow> (case u of (fcount, fseg, pcount, pseg) \<Rightarrow>
     map_ok 4 (fcount, fseg) \<and> fcount \<le> 12 \<and> map_ok 8 (pcount, pseg) \<and> pcount \<le> 12)"

lemma yields_mapping:
  assumes "channels \<le> 6" and "segs_ok (fseg, pseg)"
  shows "yields maps_ok (compressed_mapping_read channels fseg pseg)"
proof -
  have s: "seg_ok 4 fseg" "tables_below 1 fseg" "seg_ok 8 pseg" "tables_below 1 pseg"
    using assms(2) by (auto simp: segs_ok_def)
  have rest: "yields maps_ok (\<lambda>r. if b \<noteq> 0 then
       res_bind (copy_mapping_from_filter fseg' pseg channels) (\<lambda>pseg. Inr ((fcount, fseg', fcount, pseg), r))
     else res_bind (read_table_mapping_data channels (2 * channels) pseg r)
         (\<lambda>((pcount, pseg), r). Inr ((fcount, fseg', pcount, pseg), r)))"
    if f: "map_ok 4 (fcount, fseg') \<and> fcount \<le> 12" for fcount fseg' and b :: nat
  proof (rule yields_if)
    show "yields maps_ok (\<lambda>r. res_bind (copy_mapping_from_filter fseg' pseg channels)
        (\<lambda>pseg. Inr ((fcount, fseg', fcount, pseg), r)))"
      by (rule yields_pure, rule yields_return) (use f s assms(1) copy_mapping_ok in \<open>auto simp: maps_ok_def\<close>)
    show "yields maps_ok (\<lambda>r. res_bind (read_table_mapping_data channels (2 * channels) pseg r)
        (\<lambda>((pcount, pseg), r). Inr ((fcount, fseg', pcount, pseg), r)))"
      by (rule yields_bind[OF yields_table_mapping[OF assms(1) _ s(3,4)]], simp)
        (use f in \<open>auto simp: maps_ok_def intro!: yields_return split: prod.splits\<close>)
  qed
  have rest': "yields maps_ok (\<lambda>r. res_bind (read_table_mapping_data channels (2 * channels) fseg r)
     (\<lambda>((fcount, fseg), r). if b \<noteq> 0 then
       res_bind (copy_mapping_from_filter fseg pseg channels) (\<lambda>pseg. Inr ((fcount, fseg, fcount, pseg), r))
     else res_bind (read_table_mapping_data channels (2 * channels) pseg r)
         (\<lambda>((pcount, pseg), r). Inr ((fcount, fseg, pcount, pseg), r))))" for b :: nat
  proof (rule yields_bind[OF yields_table_mapping[OF assms(1) _ s(1,2)]])
    fix u assume "map_ok 4 u \<and> fst u \<le> 12 \<and> fst u \<le> 2 * channels"
    then show "yields maps_ok (\<lambda>r. (\<lambda>((fcount, fseg), r). if b \<noteq> 0 then
       res_bind (copy_mapping_from_filter fseg pseg channels) (\<lambda>pseg. Inr ((fcount, fseg, fcount, pseg), r))
     else res_bind (read_table_mapping_data channels (2 * channels) pseg r)
         (\<lambda>((pcount, pseg), r). Inr ((fcount, fseg, pcount, pseg), r))) (u, r))"
      by (cases u) (simp add: rest del: neq0_conv)
  qed simp
  show ?thesis
    unfolding compressed_mapping_read_def[abs_def]
    by (rule yields_bind[OF yields_read_bit], unfold split, rule rest')
qed

definition coeff_ok :: "nat \<Rightarrow> bool \<Rightarrow> int \<Rightarrow> int \<Rightarrow> bool" where
  "coeff_ok bits is_signed offset v \<longleftrightarrow>
     (if is_signed then - (2 ^ (bits - 1)) \<le> v \<and> v < 2 ^ (bits - 1) else offset \<le> v \<and> v < offset + 2 ^ bits)"

definition row_ok :: "nat \<Rightarrow> bool \<Rightarrow> int \<Rightarrow> nat \<Rightarrow> int list \<Rightarrow> bool" where
  "row_ok bits is_signed offset n row \<longleftrightarrow> length row = 128 \<and> (\<forall>i < n. coeff_ok bits is_signed offset (row ! i))"

lemma yields_uncoded_coeff: "yields (coeff_ok bits is_signed offset) (read_uncoded_coeff bits is_signed offset)"
proof (cases is_signed)
  case True
  then show ?thesis using yields_read_signed[of bits]
    by (simp add: read_uncoded_coeff_def[abs_def] coeff_ok_def[abs_def])
next
  case False
  have "yields (coeff_ok bits False offset) (\<lambda>r. res_bind (read_bits bits r) (\<lambda>(v, r). Inr (int v + offset, r)))"
    by (rule yields_bind[OF yields_read_bits], unfold split, rule yields_return)
      (simp add: coeff_ok_def)
  then show ?thesis using False by (simp add: read_uncoded_coeff_def[abs_def])
qed

lemma row_ok_update:
  "row_ok bits is_signed offset n row \<Longrightarrow> coeff_ok bits is_signed offset v \<Longrightarrow> n < 128 \<Longrightarrow>
     row_ok bits is_signed offset (Suc n) (row[n := v])"
  by (auto simp: row_ok_def nth_list_update less_Suc_eq)

lemma yields_uncoded_range:
  assumes "length row = 128" and "n \<le> 128"
  shows "yields (row_ok bits is_signed offset n) (\<lambda>r. read_uncoded_range 0 n bits is_signed offset (row, r))"
proof -
  have "yields (row_ok bits is_signed offset (length [0..<n])) (\<lambda>r. read_uncoded_range 0 n bits is_signed offset (row, r))"
    unfolding read_uncoded_range_def
  proof (rule yields_fold[where I = "row_ok bits is_signed offset"])
    fix k s assume k: "k < length [0..<n]" and s: "row_ok bits is_signed offset k s"
    show "yields (row_ok bits is_signed offset (Suc k)) (\<lambda>r. case (s, r) of (row, r) \<Rightarrow>
        res_bind (read_uncoded_coeff bits is_signed offset r) (\<lambda>(v, r). Inr (row[[0..<n] ! k := v], r)))"
      unfolding split
      by (rule yields_bind[OF yields_uncoded_coeff], unfold split, rule yields_return)
        (use k s assms(2) row_ok_update in auto)
  qed (use assms in \<open>simp add: row_ok_def\<close>)
  then show ?thesis by simp
qed

lemma yields_rice_prefix: "prefix \<le> 1000000 \<Longrightarrow> yields (\<lambda>p. p \<le> 1000000) (read_rice_prefix prefix)"
proof (induction "1000000 - prefix" arbitrary: prefix rule: less_induct)
  case less
  show ?case
    apply (subst read_rice_prefix.simps[abs_def])
    apply (rule yields_bind[OF yields_read_bit], unfold split)
    apply (rule yields_if)
     apply (rule yields_if, rule yields_error)
     apply (rule less.hyps)
      apply simp
     apply simp
    apply (rule yields_return, rule less.prems)
    done
qed

lemma yields_golomb: "yields (\<lambda>_. True) (get_sr_golomb_dst k)"
proof -
  have "yields (\<lambda>_. True) (\<lambda>r. if v \<noteq> 0
      then res_bind (read_bit r) (\<lambda>(s, r). Inr (if s \<noteq> 0 then - v else v, r)) else Inr (v, r))" for v :: int
    by (rule yields_if, rule yields_bind[OF yields_read_bit], unfold split) (simp_all add: yields_return)
  then show ?thesis
    unfolding get_sr_golomb_dst_def[abs_def] Let_def
    by (intro yields_if yields_error)
      (rule yields_bind[OF yields_rice_prefix], simp, unfold split, rule yields_bind[OF yields_read_bits],
        unfold split, simp)
qed

lemma validate_coeff_ok: "0 < bits \<Longrightarrow> validate_coeff v bits is_signed offset = Inr u \<Longrightarrow> coeff_ok bits is_signed offset v"
  by (auto simp: validate_coeff_def coeff_ok_def Let_def split: if_splits)

lemma yields_predicted_range:
  assumes "row_ok bits is_signed offset (meth + 1) row" and "meth + 1 < n" and "n \<le> 128" and "0 < bits"
  shows "yields (row_ok bits is_signed offset n)
    (\<lambda>r. read_predicted_range preds meth lsb n bits is_signed offset (row, r))"
proof -
  have "yields (row_ok bits is_signed offset (meth + 1 + length [meth + 1..<n]))
      (\<lambda>r. read_predicted_range preds meth lsb n bits is_signed offset (row, r))"
    unfolding read_predicted_range_def split
  proof (rule yields_fold[where I = "\<lambda>k. row_ok bits is_signed offset (meth + 1 + k)"])
    show "row_ok bits is_signed offset (meth + 1 + 0) row" using assms(1) by simp
    fix k s assume k: "k < length [meth + 1..<n]" and s: "row_ok bits is_signed offset (meth + 1 + k) s"
    have at: "[meth + 1..<n] ! k = meth + 1 + k" using k by (simp add: nth_upt del: upt_Suc)
    have upd: "row_ok bits is_signed offset (meth + 1 + Suc k) (s[meth + 1 + k := v])"
      if "validate_coeff v bits is_signed offset = Inr u" for v u
      using row_ok_update[OF s validate_coeff_ok[OF assms(4) that]] k assms(3) by simp
    show "yields (row_ok bits is_signed offset (meth + 1 + Suc k)) (\<lambda>r. case (s, r) of (row, r) \<Rightarrow>
       let predicted = predicted_sum preds meth (meth + 1) row ([meth + 1..<n] ! k) in
       res_bind (get_sr_golomb_dst lsb r) (\<lambda>(coeff, r).
         let coeff = apply_prediction predicted coeff in
         res_bind (validate_coeff coeff bits is_signed offset)
           (\<lambda>_. Inr (row[[meth + 1..<n] ! k := coeff], r))))"
      unfolding split Let_def at
      by (rule yields_bind[OF yields_golomb], unfold split, rule yields_pure, rule yields_return, rule upd)
  qed
  then show ?thesis using assms(2) by simp
qed

lemma yields_coeff_row:
  assumes "length row = 128" and "n \<le> 128" and "0 < bits"
  shows "yields (row_ok bits is_signed offset n) (read_coeff_row preds n bits is_signed offset row)"
proof -
  have pred: "yields (row_ok bits is_signed offset n) (\<lambda>r.
      res_bind (read_uncoded_range 0 (meth + 1) bits is_signed offset (row, r))
               (\<lambda>(row, r). res_bind (read_bits 3 r) (\<lambda>(lsb_size, r).
                 read_predicted_range preds meth lsb_size n bits is_signed offset (row, r))))"
    if "meth + 1 < n" for meth
    by (rule yields_bind[OF yields_uncoded_range[OF assms(1)]], use that assms(2) in simp, unfold split,
      rule yields_bind[OF yields_read_bits], unfold split, rule yields_predicted_range)
      (use that assms in auto)
  show ?thesis
    unfolding read_coeff_row_def[abs_def]
    by (rule yields_bind[OF yields_read_bit], unfold split, rule yields_if,
      rule yields_uncoded_range[OF assms(1,2)], rule yields_bind[OF yields_read_bits], unfold split,
      rule yields_if, rule yields_error, rule yields_if, rule yields_error, rule pred) simp
qed

definition table_ok :: "nat \<Rightarrow> bool \<Rightarrow> int \<Rightarrow> nat \<Rightarrow> coeff_table \<Rightarrow> bool" where
  "table_ok bits is_signed offset k t \<longleftrightarrow> ct_elements t \<le> 12 \<and> length (ct_length t) = 12 \<and> shape 12 128 (ct_coeff t)
     \<and> (\<forall>el < k. 1 \<le> ct_length t ! el \<and> ct_length t ! el \<le> 128
          \<and> row_ok bits is_signed offset (ct_length t ! el) (ct_coeff t ! el)
          \<and> (\<forall>i < 128. ct_length t ! el \<le> i \<longrightarrow> at2 (ct_coeff t) el i = 0))"

lemma fold_clear: "i < length row \<Longrightarrow> fold (\<lambda>idx row. row[idx := 0]) [a..<b] row ! i
    = (if a \<le> i \<and> i < b then 0 else row ! i)"
proof (induction b)
  case (Suc b)
  have len: "length (fold (\<lambda>idx row. row[idx := 0]) xs row) = length row" for xs
    by (induction xs arbitrary: row) auto
  show ?case
  proof (cases "a \<le> b")
    case True
    then show ?thesis using Suc len[of "[a..<b]"] by (auto simp: nth_list_update less_Suc_eq)
  next
    case False
    then have "[a..<Suc b] = []" by simp
    then show ?thesis using False by (simp del: upt_Suc) linarith
  qed
qed simp

lemma length_clear_tail [simp]: "length (clear_tail n row) = length row"
proof -
  have "length (fold (\<lambda>idx row. row[idx := 0]) xs row) = length row" for xs :: "nat list"
    by (induction xs arbitrary: row) auto
  then show ?thesis by (simp add: clear_tail_def)
qed

lemma nth_clear_tail: "length row = 128 \<Longrightarrow> i < 128 \<Longrightarrow> clear_tail n row ! i = (if n \<le> i then 0 else row ! i)"
  by (simp add: clear_tail_def fold_clear)

lemma yields_table_element:
  assumes "table_ok bits is_signed offset k t" and "k < 12" and "0 < bits"
  shows "yields (\<lambda>t'. table_ok bits is_signed offset (Suc k) t' \<and> ct_elements t' = ct_elements t)
    (\<lambda>r. read_table_element preds lbits bits is_signed offset k (t, r))"
proof -
  let ?P = "\<lambda>t'. table_ok bits is_signed offset (Suc k) t' \<and> ct_elements t' = ct_elements t"
  have sh: "shape 12 128 (ct_coeff t)" "length (ct_length t) = 12" using assms(1) by (auto simp: table_ok_def)
  then have row: "length (ct_coeff t ! k) = 128" using assms(2) by (simp add: shape_def)
  have fin: "?P (t\<lparr>ct_length := (ct_length t)[k := n], ct_coeff := (ct_coeff t)[k := clear_tail n row']\<rparr>)"
    if r: "row_ok bits is_signed offset n row'" and n: "1 \<le> n" "n \<le> 128" for row' n
  proof -
    have l: "length row' = 128" using r by (simp add: row_ok_def)
    have "shape 12 128 ((ct_coeff t)[k := clear_tail n row'])"
      using sh l by (auto simp: shape_def dest!: set_update_subset_insert[THEN subsetD])
    moreover have "row_ok bits is_signed offset n (clear_tail n row')"
      using r n nth_clear_tail[OF l] by (auto simp: row_ok_def)
    ultimately show ?thesis
      using assms(1,2) n nth_clear_tail[OF l] sh
      by (auto simp: table_ok_def nth_list_update less_Suc_eq shape_def)
  qed
  have rest: "yields ?P (\<lambda>r. res_bind (read_coeff_row preds n bits is_signed offset (ct_coeff t ! k) r)
           (\<lambda>(row, r). res_bind (check_probability_row is_signed n row)
             (\<lambda>_. Inr (t\<lparr>ct_length := (ct_length t)[k := n],
                          ct_coeff := (ct_coeff t)[k := clear_tail n row]\<rparr>, r))))" if "1 \<le> n" "n \<le> 128" for n
    by (rule yields_bind[OF yields_coeff_row[OF row that(2) assms(3)]], unfold split, rule yields_pure,
      rule yields_return, rule fin) (use that in auto)
  show ?thesis
    unfolding read_table_element_def split Let_def
    by (rule yields_bind[OF yields_read_bits], unfold split, rule yields_if, rule yields_error, rule rest) auto
qed

lemma yields_table:
  assumes "1 \<le> n" and "n \<le> 12" and "0 < bits"
  shows "yields (\<lambda>t. table_ok bits is_signed offset n t \<and> ct_elements t = n)
    (read_table (coeff_table_default\<lparr>ct_elements := n\<rparr>) preds lbits bits is_signed offset)"
proof -
  let ?t = "coeff_table_default\<lparr>ct_elements := n\<rparr>"
  have "yields (\<lambda>t. table_ok bits is_signed offset (length [0..<n]) t \<and> ct_elements t = n)
      (\<lambda>r. fold_res (read_table_element preds lbits bits is_signed offset) [0..<n] (?t, r))"
  proof (rule yields_fold[where I = "\<lambda>k t. table_ok bits is_signed offset k t \<and> ct_elements t = n"])
    show "table_ok bits is_signed offset 0 ?t \<and> ct_elements ?t = n"
      using assms by (simp add: table_ok_def coeff_table_default_def)
    fix k s assume k: "k < length [0..<n]" and s: "table_ok bits is_signed offset k s \<and> ct_elements s = n"
    have at: "[0..<n] ! k = k" and k12: "k < 12" using k assms(2) by simp_all
    show "yields (\<lambda>t. table_ok bits is_signed offset (Suc k) t \<and> ct_elements t = n)
        (\<lambda>r. read_table_element preds lbits bits is_signed offset ([0..<n] ! k) (s, r))"
      unfolding at by (rule yields_weaken[OF yields_table_element[OF _ k12 assms(3)]]) (use s in auto)
  qed
  then show ?thesis using assms by (simp add: read_table_def[abs_def])
qed

text \<open>The well-formedness of an accepted header: the ranges every index of the decoding loop needs.\<close>

definition syntax_ok :: "nat \<Rightarrow> compressed_syntax \<Rightarrow> bool" where
  "syntax_ok channels cs \<longleftrightarrow>
     seg_ok 4 (cs_filter_segments cs) \<and> seg_ok 8 (cs_probability_segments cs)
     \<and> 1 \<le> ct_elements (cs_filter_tables cs) \<and> ct_elements (cs_filter_tables cs) \<le> 12
     \<and> 1 \<le> ct_elements (cs_probability_tables cs) \<and> ct_elements (cs_probability_tables cs) \<le> 12
     \<and> tables_below (ct_elements (cs_filter_tables cs)) (cs_filter_segments cs)
     \<and> tables_below (ct_elements (cs_probability_tables cs)) (cs_probability_segments cs)
     \<and> table_ok 9 True 0 (ct_elements (cs_filter_tables cs)) (cs_filter_tables cs)
     \<and> table_ok 7 False 1 (ct_elements (cs_probability_tables cs)) (cs_probability_tables cs)
     \<and> length (cs_half_probability cs) = 6 \<and> length (cs_half_probability_bits cs) = 6"

lemma yields_half_probability: "yields (\<lambda>hp. length hp = 6) (read_half_probability channels)"
  unfolding read_half_probability_def[abs_def]
proof (rule yields_fold[where I = "\<lambda>_ hp. length hp = 6"])
  fix k and s :: "bool list" assume s: "length s = 6"
  show "yields (\<lambda>hp. length hp = 6) (\<lambda>r. case (s, r) of (hp, r) \<Rightarrow>
      res_bind (read_bit r) (\<lambda>(b, r). Inr (hp[[0..<channels] ! k := (b \<noteq> 0)], r)))"
    unfolding split by (rule yields_bind[OF yields_read_bit], unfold split, rule yields_return) (simp add: s)
qed simp

lemma half_probability_bits_length: "half_probability_bits channels fseg ft = Inr hb \<Longrightarrow> length hb = 6"
  unfolding half_probability_bits_def
  by (rule fold_res_invariant[where P = "\<lambda>_ hb. length hb = 6"], assumption) (auto simp: Let_def split: if_splits)

lemma yields_syntax:
  assumes "channels \<le> 6"
  shows "yields (syntax_ok channels) (compressed_syntax_read channels fb)"
proof -
  have tables: "yields (syntax_ok channels) (\<lambda>r.
      res_bind (read_half_probability channels r) (\<lambda>(hp, r).
      res_bind (read_table (coeff_table_default\<lparr>ct_elements := fcount\<rparr>)
                 fsets_code_pred_coeff 7 9 True 0 r) (\<lambda>(ft, r).
      res_bind (read_table (coeff_table_default\<lparr>ct_elements := pcount\<rparr>)
                 probs_code_pred_coeff 6 7 False 1 r) (\<lambda>(pt, r).
      res_bind (half_probability_bits channels fseg ft) (\<lambda>hp_bits.
       Inr (\<lparr>cs_filter_segments = fseg, cs_probability_segments = pseg, cs_filter_tables = ft,
              cs_probability_tables = pt, cs_half_probability = hp,
              cs_half_probability_bits = hp_bits\<rparr>, r))))))"
    if m: "maps_ok (fcount, fseg, pcount, pseg)" for fcount fseg pcount pseg
  proof -
    have m': "map_ok 4 (fcount, fseg)" "fcount \<le> 12" "map_ok 8 (pcount, pseg)" "pcount \<le> 12"
      "1 \<le> fcount" "1 \<le> pcount" using m by (auto simp: maps_ok_def map_ok_def)
    show ?thesis
      apply (rule yields_bind[OF yields_half_probability], unfold split)
      apply (rule yields_bind[OF yields_table[OF m'(5,2)]], simp, unfold split)
      apply (rule yields_bind[OF yields_table[OF m'(6,4)]], simp, unfold split)
      apply (rule yields_pure, drule half_probability_bits_length, rule yields_return)
      using m' by (simp add: syntax_ok_def map_ok_def)
  qed
  have maps: "yields (syntax_ok channels) (\<lambda>r. res_bind (compressed_mapping_read channels fseg pseg r)
      (\<lambda>((fcount, fseg, pcount, pseg), r).
      res_bind (read_half_probability channels r) (\<lambda>(hp, r).
      res_bind (read_table (coeff_table_default\<lparr>ct_elements := fcount\<rparr>)
                 fsets_code_pred_coeff 7 9 True 0 r) (\<lambda>(ft, r).
      res_bind (read_table (coeff_table_default\<lparr>ct_elements := pcount\<rparr>)
                 probs_code_pred_coeff 6 7 False 1 r) (\<lambda>(pt, r).
      res_bind (half_probability_bits channels fseg ft) (\<lambda>hp_bits.
       Inr (\<lparr>cs_filter_segments = fseg, cs_probability_segments = pseg, cs_filter_tables = ft,
              cs_probability_tables = pt, cs_half_probability = hp,
              cs_half_probability_bits = hp_bits\<rparr>, r)))))))" if s: "segs_ok (fseg, pseg)" for fseg pseg
  proof (rule yields_bind[OF yields_mapping[OF assms s]])
    fix u assume "maps_ok u"
    then show "yields (syntax_ok channels) (\<lambda>r. (\<lambda>((fcount, fseg, pcount, pseg), r).
      res_bind (read_half_probability channels r) (\<lambda>(hp, r).
      res_bind (read_table (coeff_table_default\<lparr>ct_elements := fcount\<rparr>)
                 fsets_code_pred_coeff 7 9 True 0 r) (\<lambda>(ft, r).
      res_bind (read_table (coeff_table_default\<lparr>ct_elements := pcount\<rparr>)
                 probs_code_pred_coeff 6 7 False 1 r) (\<lambda>(pt, r).
      res_bind (half_probability_bits channels fseg ft) (\<lambda>hp_bits.
       Inr (\<lparr>cs_filter_segments = fseg, cs_probability_segments = pseg, cs_filter_tables = ft,
              cs_probability_tables = pt, cs_half_probability = hp,
              cs_half_probability_bits = hp_bits\<rparr>, r)))))) (u, r))"
      by (cases u rule: prod_cases4) (simp only: split tables)
  qed
  show ?thesis
    unfolding compressed_syntax_read_def[abs_def]
    by (rule yields_bind[OF yields_segments[OF assms]]) (use maps in \<open>simp only: split_paired_all split\<close>)
qed

subsection \<open>The cursors find every segment\<close>

definition seg_start :: "segment_data \<Rightarrow> nat \<Rightarrow> nat \<Rightarrow> nat" where
  "seg_start d ch k = (\<Sum>j < k. sd_resolution d * 8 * at2 (sd_len d) ch j)"

definition seg_end :: "segment_data \<Rightarrow> nat \<Rightarrow> nat \<Rightarrow> nat \<Rightarrow> nat" where
  "seg_end d bits ch k = (if k + 1 = sd_count d ! ch then bits else seg_start d ch (k + 1))"

text \<open>The reference: the table of the first segment that ends past the bit.\<close>

definition segment_at :: "segment_data \<Rightarrow> nat \<Rightarrow> nat \<Rightarrow> nat \<Rightarrow> nat" where
  "segment_at d bits ch i = length (takeWhile (\<lambda>k. seg_end d bits ch k \<le> i) [0..<sd_count d ! ch])"

definition channel_tiled :: "segment_data \<Rightarrow> nat \<Rightarrow> nat \<Rightarrow> nat \<Rightarrow> bool" where
  "channel_tiled d bits n ch \<longleftrightarrow> 1 \<le> sd_count d ! ch \<and> sd_count d ! ch \<le> 8
     \<and> (\<forall>k < sd_count d ! ch. at2 (sd_table d) ch k < n \<and> seg_start d ch k \<le> seg_end d bits ch k
          \<and> segment_end_from_start d ch k (sd_count d ! ch) (seg_start d ch k) bits = Inr (seg_end d bits ch k))"

lemma validate_channel_tiled:
  assumes "validate_channel_mapping d bits n kind ch = Inr ()"
  shows "channel_tiled d bits n ch"
proof -
  let ?count = "sd_count d ! ch"
  let ?f = "\<lambda>seg start. if at2 (sd_table d) ch seg \<ge> n then
              Inl (InvalidMapping (undefined_table_message kind))
            else
              res_bind (segment_end_from_start d ch seg ?count start bits)
                (\<lambda>end'. if end' > bits \<or> end' < start then
                          Inl (InvalidSegment ''segment boundary exceeds frame'')
                        else Inr end')"
  have c: "1 \<le> ?count" "?count \<le> 8" and run: "\<exists>start. fold_res ?f [0..<?count] 0 = Inr start"
    using assms by (auto simp: validate_channel_mapping_def Let_def res_bind_eq_Inr_iff split: if_splits)
  let ?P = "\<lambda>k start. (k < ?count \<longrightarrow> start = seg_start d ch k) \<and>
     (\<forall>j < k. at2 (sd_table d) ch j < n \<and> seg_start d ch j \<le> seg_end d bits ch j
          \<and> segment_end_from_start d ch j ?count (seg_start d ch j) bits = Inr (seg_end d bits ch j))"
  from run obtain start where run: "fold_res ?f [0..<?count] 0 = Inr start" by blast
  have "?P (length [0..<?count]) start"
  proof (rule fold_res_invariant[OF run])
    show "?P 0 0" by (simp add: seg_start_def)
  next
    fix k u v
    assume k: "k < length [0..<?count]" and P: "?P k u" and e: "?f ([0..<?count] ! k) u = Inr v"
    have at: "[0..<?count] ! k = k" and u: "u = seg_start d ch k" using k P by simp_all
    have t: "at2 (sd_table d) ch k < n" and s: "segment_end_from_start d ch k ?count u bits = Inr v" and le: "u \<le> v"
      using e unfolding at by (auto simp: res_bind_eq_Inr_iff split: if_splits)
    have v: "v = seg_end d bits ch k"
      using s u by (auto simp: segment_end_from_start_def seg_end_def seg_start_def segment_len_bits_def
          res_bind_eq_Inr_iff ok_or_eq_Inr_iff checked_defs split: if_splits bind_splits)
    have "Suc k < ?count \<longrightarrow> v = seg_start d ch (Suc k)" using v by (simp add: seg_end_def)
    then show "?P (Suc k) v" using P t s le u v by (auto simp: less_Suc_eq)
  qed
  then show ?thesis using c by (simp add: channel_tiled_def)
qed

definition cursor_ok :: "segment_data \<Rightarrow> nat \<Rightarrow> nat \<Rightarrow> nat \<Rightarrow> segment_cursor \<Rightarrow> bool" where
  "cursor_ok d bits ch i c \<longleftrightarrow> sc_index c < sd_count d ! ch \<and> sc_start c = seg_start d ch (sc_index c)
     \<and> sc_end c = seg_end d bits ch (sc_index c) \<and> (\<forall>k < sc_index c. seg_end d bits ch k \<le> i)"

lemma segment_at_eq:
  assumes "k < sd_count d ! ch" and "\<forall>j < k. seg_end d bits ch j \<le> i" and "i < seg_end d bits ch k"
  shows "segment_at d bits ch i = k"
proof -
  have "[0..<sd_count d ! ch] = [0..<k] @ k # [Suc k..<sd_count d ! ch]"
    using assms(1) upt_add_eq_append[of 0 k "sd_count d ! ch - k"] by (simp add: upt_conv_Cons)
  moreover have "takeWhile (\<lambda>k. seg_end d bits ch k \<le> i) ([0..<k] @ k # xs) = [0..<k]" for xs
    using assms(2,3) by (subst takeWhile_append2) auto
  ultimately show ?thesis by (simp add: segment_at_def)
qed

lemma cursor_seek_correct:
  assumes t: "channel_tiled d bits n ch" and i: "i < bits"
  shows "cursor_ok d bits ch i c \<Longrightarrow> \<exists>c'. cursor_seek d ch i bits (sd_count d ! ch) c = Inr c'
    \<and> cursor_ok d bits ch i c' \<and> i < sc_end c'"
proof (induction "sd_count d ! ch - sc_index c" arbitrary: c rule: less_induct)
  case less
  let ?count = "sd_count d ! ch"
  show ?case
  proof (cases "i \<ge> sc_end c \<and> sc_index c + 1 < ?count")
    case True
    let ?c = "\<lparr>sc_index = sc_index c + 1, sc_start = sc_end c, sc_end = seg_end d bits ch (sc_index c + 1)\<rparr>"
    have s: "sc_end c = seg_start d ch (sc_index c + 1)"
      using less.prems True by (simp add: cursor_ok_def seg_end_def)
    then have e: "segment_end_from_start d ch (sc_index c + 1) ?count (sc_end c) bits
        = Inr (seg_end d bits ch (sc_index c + 1))"
      using t True by (simp add: channel_tiled_def)
    have ok: "cursor_ok d bits ch i ?c"
      using less.prems True s by (auto simp: cursor_ok_def less_Suc_eq)
    have "?count - sc_index ?c < ?count - sc_index c" using True by (simp, linarith)
    from less.hyps[OF this ok] show ?thesis
      using True e by (simp add: cursor_seek.simps[of d ch i bits ?count c])
  next
    case False
    have "i < sc_end c"
    proof (cases "sc_index c + 1 < ?count")
      case True
      then show ?thesis using False by simp
    next
      case False
      then have "sc_end c = bits" using less.prems by (simp add: cursor_ok_def seg_end_def)
      then show ?thesis using i by simp
    qed
    then show ?thesis using False less.prems by (simp add: cursor_seek.simps[of d ch i bits ?count c])
  qed
qed

lemma table_for_bit_correct:
  assumes t: "channel_tiled d bits n ch" and i: "i < bits" and c: "cursor_ok d bits ch i (cs ! ch)"
    and ch: "ch < length cs"
  shows "\<exists>c'. table_for_bit d ch i bits n kind cs = Inr (at2 (sd_table d) ch (segment_at d bits ch i), cs[ch := c'])
    \<and> cursor_ok d bits ch i c' \<and> at2 (sd_table d) ch (segment_at d bits ch i) < n"
proof -
  obtain c' where c': "cursor_seek d ch i bits (sd_count d ! ch) (cs ! ch) = Inr c'"
    "cursor_ok d bits ch i c'" "i < sc_end c'"
    using cursor_seek_correct[OF t i c] by blast
  let ?k = "sc_index c'"
  have k: "?k < sd_count d ! ch" "sc_start c' = seg_start d ch ?k" "sc_end c' = seg_end d bits ch ?k"
    "\<forall>j < ?k. seg_end d bits ch j \<le> i" using c'(2) by (auto simp: cursor_ok_def)
  have seg: "segment_at d bits ch i = ?k" using segment_at_eq k c'(3) by simp
  have "sc_start c' \<le> i"
  proof (cases "?k = 0")
    case True
    then show ?thesis using k by (simp add: seg_start_def)
  next
    case False
    then have "seg_end d bits ch (?k - 1) = seg_start d ch ?k" using k(1) by (simp add: seg_end_def)
    moreover have "seg_end d bits ch (?k - 1) \<le> i" using k(4) False by simp
    ultimately show ?thesis using k(2) by simp
  qed
  moreover have "at2 (sd_table d) ch ?k < n" using t k(1) by (simp add: channel_tiled_def)
  ultimately have "table_for_bit d ch i bits n kind cs = Inr (at2 (sd_table d) ch ?k, cs[ch := c'])"
    and "at2 (sd_table d) ch ?k < n"
    using c' by (simp_all add: table_for_bit_def Let_def)
  then show ?thesis using c'(2) seg by auto
qed

lemma cursor_ok_mono: "cursor_ok d bits ch i c \<Longrightarrow> i \<le> i' \<Longrightarrow> cursor_ok d bits ch i' c"
  by (auto simp: cursor_ok_def intro: order_trans)

definition cursors_ok :: "segment_data \<Rightarrow> nat \<Rightarrow> nat \<Rightarrow> nat \<Rightarrow> segment_cursor list \<Rightarrow> bool" where
  "cursors_ok d bits channels i cs \<longleftrightarrow> length cs = 6 \<and> (\<forall>ch < channels. cursor_ok d bits ch i (cs ! ch))"

lemma cursor_set_new_correct:
  assumes "cursor_set_new d channels bits n kind = Inr cs" and "channels \<le> 6"
  shows "\<forall>ch < channels. channel_tiled d bits n ch" and "cursors_ok d bits channels 0 cs"
proof -
  have v: "validate_decode_mapping d channels bits n kind = Inr ()"
    using assms(1) by (auto simp: cursor_set_new_def res_bind_eq_Inr_iff)
  let ?P = "\<lambda>k (_::unit). \<forall>ch < k. channel_tiled d bits n ch"
  have "?P (length [0..<channels]) ()"
    by (rule fold_res_invariant[where P = ?P, OF v[unfolded validate_decode_mapping_def]])
      (auto simp: less_Suc_eq validate_channel_tiled)
  then show t: "\<forall>ch < channels. channel_tiled d bits n ch" by simp
  have run: "fold_res (\<lambda>ch cs.
           res_bind (segment_end_from_start d ch 0 (sd_count d ! ch) 0 bits)
             (\<lambda>end'. Inr (cs[ch := (cs ! ch)\<lparr>sc_end := end'\<rparr>])))
         [0..<channels] (replicate 6 segment_cursor_default) = Inr cs"
    using assms(1) v by (simp add: cursor_set_new_def)
  let ?Q = "\<lambda>k cs. length cs = 6 \<and> (\<forall>ch < k. cursor_ok d bits ch 0 (cs ! ch))
    \<and> (\<forall>ch < 6. k \<le> ch \<longrightarrow> cs ! ch = segment_cursor_default)"
  have "?Q (length [0..<channels]) cs"
  proof (rule fold_res_invariant[where P = ?Q, OF run])
    show "?Q 0 (replicate 6 segment_cursor_default)" by simp
  next
    fix k u w
    assume k: "k < length [0..<channels]" and Q: "?Q k u"
      and e: "res_bind (segment_end_from_start d ([0..<channels] ! k) 0 (sd_count d ! ([0..<channels] ! k)) 0 bits)
             (\<lambda>end'. Inr (u[[0..<channels] ! k := (u ! ([0..<channels] ! k))\<lparr>sc_end := end'\<rparr>])) = Inr w"
    have at: "[0..<channels] ! k = k" and k6: "k < 6" using k assms(2) by simp_all
    have tk: "channel_tiled d bits n k" using t k by simp
    then have "segment_end_from_start d k 0 (sd_count d ! k) 0 bits = Inr (seg_end d bits k 0)" and c0: "0 < sd_count d ! k"
      by (auto simp: channel_tiled_def seg_start_def dest!: spec[of _ 0])
    then have w: "w = u[k := (u ! k)\<lparr>sc_end := seg_end d bits k 0\<rparr>]" using e unfolding at by simp
    have "u ! k = segment_cursor_default" using Q k6 by simp
    then have "cursor_ok d bits k 0 (w ! k)"
      using w Q k6 c0 by (simp add: cursor_ok_def segment_cursor_default_def seg_start_def)
    then show "?Q (Suc k) w" using w Q by (auto simp: less_Suc_eq nth_list_update)
  qed
  then show "cursors_ok d bits channels 0 cs" by (simp add: cursors_ok_def)
qed

subsection \<open>The decoding loop never fails\<close>

text \<open>A reader in the zero-padded tail with room for \<open>m\<close> more bits.\<close>

definition tail_room :: "nat \<Rightarrow> bit_reader \<Rightarrow> bool" where
  "tail_room m r \<longleftrightarrow> br_ok r \<and> br_zero_pad r \<and> br_pos r + m < 2 ^ 64"

lemma read_bits_tail:
  assumes "tail_room m r" and "n \<le> m" and "n \<le> 32"
  shows "\<exists>v. read_bits n r = Inr (v, br_advance n r) \<and> tail_room (m - n) (br_advance n r)"
proof -
  have len: "length (br_view r) = 2 ^ 64 - 1 - br_pos r"
    using assms(1) by (simp add: br_view_def br_limit_def tail_room_def)
  have "n \<le> length (br_view r)" using assms(1,2) unfolding len tail_room_def by linarith
  then have "read_bits n r = Inr (num_of_bits (take n (br_view r)), br_advance n r)"
    using assms(1,3) by (intro read_bits_view[where rest = "drop n (br_view r)"]) (simp_all add: tail_room_def)
  then show ?thesis using assms(1,2) by (simp add: tail_room_def)
qed

lemma arith_get_total:
  assumes a: "2048 \<le> ad_a d" "ad_a d < 4096" and p: "1 \<le> p" "p \<le> 128" and r: "tail_room m r" "12 \<le> m"
  shows "\<exists>b d' r'. arith_get p (d, r) = Inr (b, d', r') \<and> 2048 \<le> ad_a d' \<and> ad_a d' < 4096 \<and> tail_room (m - 12) r'"
proof -
  define q where "q = arith_k (ad_a d) * nat p"
  have np: "1 \<le> nat p" "nat p \<le> 128" using p by auto
  have sb: "0 < q" "q < ad_a d" "q < 2048" using split_bounds[OF a np] by (auto simp: q_def)
  have mul: "checked_mul32 (arith_k (ad_a d)) (nat p) = Some q"
    using sb by (simp add: checked_defs q_def[symmetric])
  have sub: "checked_sub (ad_a d) q = Some (ad_a d - q)" using sb by (simp add: checked_defs)
  define a1 c1 b where "a1 = (if ad_c d < ad_a d - q then ad_a d - q else q)"
    and "c1 = (if ad_c d < ad_a d - q then ad_c d else ad_c d - (ad_a d - q))"
    and "b = (if ad_c d < ad_a d - q then 1 else 0 :: nat)"
  have a1: "0 < a1" "a1 < 4096" using sb a by (auto simp: a1_def)
  have start: "arith_get p (d, r) =
      (if a1 < 2048 then
         let n = 11 - log2_floor_u32 a1
         in res_bind (ok_or (ArithmeticDecodeFailure ''arithmetic interval shift overflow'')
                       (checked_shl32 a1 n))
           (\<lambda>a. res_bind (ok_or (ArithmeticDecodeFailure ''arithmetic code shift overflow'')
                            (checked_shl32 c1 n))
           (\<lambda>c. res_bind (read_bits n r)
           (\<lambda>(v, r). Inr (b, \<lparr>ad_a = a, ad_c = c OR v\<rparr>, r))))
       else Inr (b, \<lparr>ad_a = a1, ad_c = c1\<rparr>, r))"
    using p mul sub a1
    by (cases "ad_c d < ad_a d - q") (simp_all add: arith_get_def Let_def a1_def c1_def b_def)
  have tr: "tail_room (m - 12) r" using r by (auto simp: tail_room_def)
  show ?thesis
  proof (cases "a1 < 2048")
    case True
    define n where "n = 11 - log2_floor_u32 a1"
    have bl: "bit_len a1 \<le> 11"
    proof (rule ccontr)
      assume "\<not> bit_len a1 \<le> 11"
      then have "(2::nat) ^ 11 \<le> 2 ^ (bit_len a1 - 1)" by (intro power_increasing) auto
      then show False using bit_len_bounds[OF a1(1)] True by simp
    qed
    have nb: "n = 12 - bit_len a1"
      using log2_floor_u32_eq[OF a1] bl bit_len_bounds[OF a1(1)] by (simp add: n_def)
    have n12: "n \<le> 12" by (simp add: n_def)
    have lo: "2048 \<le> a1 * 2 ^ n" and hi: "a1 * 2 ^ n < 4096"
    proof -
      have e: "bit_len a1 - 1 + n = 11" "bit_len a1 + n = 12"
        using nb bl bit_len_bounds[OF a1(1)] by auto
      have "2 ^ (bit_len a1 - 1) * 2 ^ n \<le> a1 * 2 ^ n" "a1 * 2 ^ n < 2 ^ bit_len a1 * 2 ^ n"
        using bit_len_bounds[OF a1(1)] by auto
      then show "2048 \<le> a1 * 2 ^ n" "a1 * 2 ^ n < 4096" unfolding power_add[symmetric] e by simp_all
    qed
    have "(4096::nat) < 2 ^ 32" by simp
    then have "a1 * 2 ^ n < 2 ^ 32" using hi by (rule less_trans[rotated])
    then have sa: "checked_shl32 a1 n = Some (a1 * 2 ^ n)"
      using n12 by (simp add: checked_defs push_bit_eq_mult take_bit_nat_eq_self_iff)
    obtain c where sc: "checked_shl32 c1 n = Some c" using n12 by (simp add: checked_defs)
    obtain v where v: "read_bits n r = Inr (v, br_advance n r)" "tail_room (m - n) (br_advance n r)"
      using read_bits_tail[OF r(1), of n] n12 r(2) by auto
    have "tail_room (m - 12) (br_advance n r)" using v(2) n12 by (auto simp: tail_room_def)
    then show ?thesis using True start lo hi sa sc v(1) by (simp add: n_def[symmetric] Let_def)
  next
    case False
    then show ?thesis using start a1 tr by simp
  qed
qed

definition loop_ok :: "nat \<Rightarrow> nat \<Rightarrow> nat \<Rightarrow> compressed_syntax \<Rightarrow> nat \<Rightarrow> nat \<Rightarrow> frame_state \<Rightarrow> bool" where
  "loop_ok channels bits len cs i m s \<longleftrightarrow> 2048 \<le> ad_a (fr_arith s) \<and> ad_a (fr_arith s) < 4096
     \<and> tail_room (12 * m) (fr_reader s)
     \<and> cursors_ok (cs_filter_segments cs) bits channels i (fr_filter_cursors s)
     \<and> cursors_ok (cs_probability_segments cs) bits channels i (fr_probability_cursors s)
     \<and> length (fr_out s) = len"

lemma cursors_ok_update:
  "cursors_ok d bits channels i cs \<Longrightarrow> cursor_ok d bits ch i c' \<Longrightarrow> cursors_ok d bits channels i (cs[ch := c'])"
  by (cases "ch < length cs") (auto simp: cursors_ok_def nth_list_update list_update_beyond)

lemma table_probability_total:
  assumes "table_ok 7 False 1 n t" and "el < n"
  shows "\<exists>p. table_probability t el predict = Inr p \<and> 1 \<le> p \<and> p \<le> 128"
proof -
  let ?len = "ct_length t ! el"
  let ?idx = "min (nat \<bar>predict\<bar> div 8) (?len - 1)"
  have len: "1 \<le> ?len" and row: "row_ok 7 False 1 ?len (ct_coeff t ! el)"
    using assms by (auto simp: table_ok_def)
  have "?idx < ?len" using len by linarith
  then have "1 \<le> at2 (ct_coeff t) el ?idx \<and> at2 (ct_coeff t) el ?idx \<le> 128"
    using row by (auto simp: row_ok_def coeff_ok_def)
  then show ?thesis using len by (auto simp: table_probability_def Let_def)
qed

lemma decode_bit_total:
  assumes syn: "syntax_ok channels cs" and ch6: "channels \<le> 6"
    and tf: "\<forall>ch < channels. channel_tiled (cs_filter_segments cs) bits (ct_elements (cs_filter_tables cs)) ch"
    and tp: "\<forall>ch < channels. channel_tiled (cs_probability_segments cs) bits (ct_elements (cs_probability_tables cs)) ch"
    and i: "i < bits" and ch: "ch < channels" and idx: "i div 8 * channels + ch < len" "len < 2 ^ 64"
    and s: "loop_ok channels bits len cs i (Suc m) s"
  shows "\<exists>s'. decode_bit cs filters bits (i div 8 * channels) i ch s = Inr s' \<and> loop_ok channels bits len cs i m s'"
proof -
  let ?fn = "ct_elements (cs_filter_tables cs)" and ?pn = "ct_elements (cs_probability_tables cs)"
  have s': "2048 \<le> ad_a (fr_arith s)" "ad_a (fr_arith s) < 4096" "tail_room (12 * Suc m) (fr_reader s)"
    "cursors_ok (cs_filter_segments cs) bits channels i (fr_filter_cursors s)"
    "cursors_ok (cs_probability_segments cs) bits channels i (fr_probability_cursors s)" "length (fr_out s) = len"
    using s by (auto simp: loop_ok_def)
  have tfc: "channel_tiled (cs_filter_segments cs) bits ?fn ch"
    and tpc: "channel_tiled (cs_probability_segments cs) bits ?pn ch" using tf tp ch by auto
  have fc: "cursor_ok (cs_filter_segments cs) bits ch i (fr_filter_cursors s ! ch)" "ch < length (fr_filter_cursors s)"
    and pc: "cursor_ok (cs_probability_segments cs) bits ch i (fr_probability_cursors s ! ch)"
      "ch < length (fr_probability_cursors s)"
    using s'(4,5) ch ch6 by (auto simp: cursors_ok_def)
  obtain el fc' where f: "table_for_bit (cs_filter_segments cs) ch i bits ?fn FilterSegments (fr_filter_cursors s)
      = Inr (el, (fr_filter_cursors s)[ch := fc'])" "cursor_ok (cs_filter_segments cs) bits ch i fc'"
    using table_for_bit_correct[OF tfc i fc] by blast
  let ?predict = "predict_from_lut (filters ! el) (fr_status s ! ch)"
  have "\<exists>p pcs. residual_probability cs bits ch i ?predict (fr_probability_cursors s) = Inr (p, pcs)
      \<and> 1 \<le> p \<and> p \<le> 128 \<and> cursors_ok (cs_probability_segments cs) bits channels i pcs"
  proof (cases "cs_half_probability cs ! ch \<and> i < cs_half_probability_bits cs ! ch")
    case True
    then show ?thesis using s'(5) by (simp add: residual_probability_def)
  next
    case False
    obtain pel pc' where pf: "table_for_bit (cs_probability_segments cs) ch i bits ?pn ProbabilitySegments
        (fr_probability_cursors s) = Inr (pel, (fr_probability_cursors s)[ch := pc'])"
      "cursor_ok (cs_probability_segments cs) bits ch i pc'" "pel < ?pn"
      using table_for_bit_correct[OF tpc i pc] by blast
    have "table_ok 7 False 1 ?pn (cs_probability_tables cs)" using syn by (simp add: syntax_ok_def)
    from table_probability_total[OF this pf(3)] obtain p where
      "table_probability (cs_probability_tables cs) pel ?predict = Inr p" "1 \<le> p" "p \<le> 128" by blast
    then show ?thesis using False pf(1) cursors_ok_update[OF s'(5) pf(2)]
      by (auto simp: residual_probability_def)
  qed
  then obtain p pcs where p: "residual_probability cs bits ch i ?predict (fr_probability_cursors s) = Inr (p, pcs)"
    "1 \<le> p" "p \<le> 128" "cursors_ok (cs_probability_segments cs) bits channels i pcs" by blast
  obtain b d r where g: "arith_get p (fr_arith s, fr_reader s) = Inr (b, d, r)" "2048 \<le> ad_a d" "ad_a d < 4096"
    "tail_room (12 * m) r"
    using arith_get_total[OF s'(1,2) p(2,3) s'(3)] by auto
  have co: "checked_decoded_output_index (i div 8 * channels) ch (length (fr_out s)) = Inr (i div 8 * channels + ch)"
    using idx s'(6) by (simp add: checked_decoded_output_index_def checked_defs)
  show ?thesis
    using f(1) p(1) g co s'(6) p(4) cursors_ok_update[OF s'(4) f(2)]
    by (simp add: decode_bit_def Let_def loop_ok_def)
qed

lemma loop_ok_next: "loop_ok channels bits len cs i m s \<Longrightarrow> i \<le> i' \<Longrightarrow> loop_ok channels bits len cs i' m s"
  using cursor_ok_mono by (fastforce simp: loop_ok_def cursors_ok_def)

lemma decode_bits_total:
  assumes syn: "syntax_ok channels cs" and ch6: "1 \<le> channels" "channels \<le> 6"
    and tf: "\<forall>ch < channels. channel_tiled (cs_filter_segments cs) bits (ct_elements (cs_filter_tables cs)) ch"
    and tp: "\<forall>ch < channels. channel_tiled (cs_probability_segments cs) bits (ct_elements (cs_probability_tables cs)) ch"
    and len: "bits = 8 * nb" "len = nb * channels" "len < 2 ^ 64"
    and s: "loop_ok channels bits len cs 0 (bits * channels) s"
  shows "\<exists>s'. decode_bits cs filters channels bits s = Inr s' \<and> length (fr_out s') = len"
proof -
  let ?I = "\<lambda>k s. loop_ok channels bits len cs k ((bits - k) * channels) s"
  let ?f = "\<lambda>bit_index s. res_bind (ok_or (ArithmeticDecodeFailure ''DST output byte index overflow'')
      (checked_mul64 (bit_index div 8) channels))
         (\<lambda>byte_base. fold_res (decode_bit cs filters bits byte_base bit_index) [0..<channels] s)"
  have "\<exists>t. fold_res ?f [0..<bits] s = Inr t \<and> ?I (length [0..<bits]) t"
  proof (rule fold_res_total)
    show "?I 0 s" using s by simp
  next
    fix k u
    assume "k < length [0..<bits]" and u: "?I k u"
    then have k: "k < bits" by simp
    have at: "[0..<bits] ! k = k" using k by simp
    have rem: "(bits - k) * channels = channels + (bits - Suc k) * channels"
      using k by (simp add: Suc_diff_Suc[symmetric])
    have kdiv: "k div 8 < nb" using k len(1) by simp
    then have le: "k div 8 * channels + channels \<le> nb * channels"
      by (metis Suc_leI add.commute mult_Suc mult_le_mono1)
    have "k div 8 * channels < 2 ^ 64"
    proof -
      have "k div 8 * channels \<le> len" using le len(2) by linarith
      then show ?thesis using len(3) by (rule le_less_trans)
    qed
    then have mul: "checked_mul64 (k div 8) channels = Some (k div 8 * channels)" by (simp add: checked_defs)
    let ?J = "\<lambda>j s. loop_ok channels bits len cs k (channels - j + (bits - Suc k) * channels) s"
    have "\<exists>t. fold_res (decode_bit cs filters bits (k div 8 * channels) k) [0..<channels] u = Inr t
        \<and> ?J (length [0..<channels]) t"
    proof (rule fold_res_total)
      show "?J 0 u" using u rem by simp
    next
      fix j w
      assume "j < length [0..<channels]" and w: "?J j w"
      then have j: "j < channels" by simp
      have atj: "[0..<channels] ! j = j" using j by simp
      have m: "channels - j + (bits - Suc k) * channels = Suc (channels - Suc j + (bits - Suc k) * channels)"
        using j by simp
      have idx: "k div 8 * channels + j < len" using le j len(2) by linarith
      show "\<exists>v. decode_bit cs filters bits (k div 8 * channels) k ([0..<channels] ! j) w = Inr v \<and> ?J (Suc j) v"
        unfolding atj
        by (rule decode_bit_total[OF syn ch6(2) tf tp k j idx len(3)]) (use w m in simp)
    qed
    then obtain t where t: "fold_res (decode_bit cs filters bits (k div 8 * channels) k) [0..<channels] u = Inr t"
      "loop_ok channels bits len cs k ((bits - Suc k) * channels) t" by auto
    then have "?I (Suc k) t" by (intro loop_ok_next[OF t(2)]) simp
    then show "\<exists>v. ?f ([0..<bits] ! k) u = Inr v \<and> ?I (Suc k) v" using t(1) mul at by simp
  qed
  then show ?thesis by (auto simp: decode_bits_def loop_ok_def)
qed

lemma check_marker_input:
  assumes "rd_inv r" and "check_arithmetic_marker r = Inr r'"
  shows "rd_follows r r'"
proof -
  obtain more where more: "has_physical_bits_remaining r = Inr more"
    "(if more then res_bind (read_bit r) (\<lambda>(b, r). if b \<noteq> 0 then Inl InvalidArithmeticCode else Inr r)
      else Inr r) = Inr r'"
    using assms(2) by (auto simp: check_arithmetic_marker_def res_bind_eq_Inr_iff)
  show ?thesis
  proof (cases more)
    case True
    then obtain b r1 where "read_bit r = Inr (b, r1)" "r' = r1"
      using more(2) by (auto simp: res_bind_eq_Inr_iff split: if_splits)
    then show ?thesis using yieldsD[OF yields_read_bit assms(1)] by blast
  next
    case False
    then show ?thesis using more(2) assms(1) by (simp add: rd_follows_refl)
  qed
qed

lemma decode_compressed_total:
  assumes d: "dst_decoder_inv d" and r: "rd_inv r" "8 * length (br_input r) < 2 ^ 62"
    and out: "length out = dd_frame_bytes d * dd_channel_count d"
    and syn: "compressed_syntax_read (dd_channel_count d) (dd_frame_bytes d) r = Inr (cs, r1)"
    and mark: "check_arithmetic_marker r1 = Inr r2"
    and fcur: "cursor_set_new (cs_filter_segments cs) (dd_channel_count d) (dd_frame_bits d)
      (ct_elements (cs_filter_tables cs)) FilterSegments = Inr fcs"
    and pcur: "cursor_set_new (cs_probability_segments cs) (dd_channel_count d) (dd_frame_bits d)
      (ct_elements (cs_probability_tables cs)) ProbabilitySegments = Inr pcs"
  shows "\<exists>out'. decode_compressed_dst_payload d r out = Inr out' \<and> length out' = length out"
proof -
  let ?ch = "dd_channel_count d" and ?bits = "dd_frame_bits d"
  have ch: "1 \<le> ?ch" "?ch \<le> 6" and bits: "?bits = 8 * dd_frame_bytes d"
    using d by (auto simp: dst_decoder_inv_def)
  have sok: "syntax_ok ?ch cs" and f1: "rd_follows r r1"
    using yieldsD[OF yields_syntax[OF ch(2)] r(1) syn] by auto
  have f2: "rd_follows r r2"
    using check_marker_input[OF rd_follows_inv[OF f1] mark] f1 rd_follows_trans by blast
  let ?pairs = "?bits * ?ch"
  have pairs: "?pairs \<le> 8 * 112896"
    using dst_decoder_inv_bounds(3)[OF d] bits by (simp add: ac_simps)
  have pos: "br_pos r2 \<le> 8 * length (br_input r)" "br_ok r2"
    using f2 by (auto simp: rd_follows_def rd_inv_def)
  have "br_pos r2 + (12 + (12 + 12 * ?pairs)) < 2 ^ 62 + 20000000"
    using pos(1) r(2) pairs by linarith
  also have "(2::nat) ^ 62 + 20000000 < 2 ^ 64" by simp
  finally have room: "tail_room (12 + (12 + 12 * ?pairs)) (enable_zero_padding_after_eof r2)"
    using pos(2) by (simp add: tail_room_def enable_zero_padding_after_eof_def br_ok_def)
  obtain c where c: "arith_dec_new r2 = Inr (\<lparr>ad_a = 4095, ad_c = c\<rparr>,
      br_advance 12 (enable_zero_padding_after_eof r2))"
    and room1: "tail_room (12 + 12 * ?pairs) (br_advance 12 (enable_zero_padding_after_eof r2))"
    using read_bits_tail[OF room, of 12] by (auto simp: arith_dec_new_def)
  let ?p0 = "prob_dst_x_bit (at2 (ct_coeff (cs_filter_tables cs)) 0 0)"
  obtain b d1 r3 where g: "arith_get ?p0 (\<lparr>ad_a = 4095, ad_c = c\<rparr>, br_advance 12 (enable_zero_padding_after_eof r2))
      = Inr (b, d1, r3)" "2048 \<le> ad_a d1" "ad_a d1 < 4096" "tail_room (12 * ?pairs) r3"
    using arith_get_total[OF _ _ _ _ room1, of "\<lparr>ad_a = 4095, ad_c = c\<rparr>" ?p0]
      prob_dst_x_bit_range[of "at2 (ct_coeff (cs_filter_tables cs)) 0 0"] by auto
  note F = cursor_set_new_correct[OF fcur ch(2)] and P = cursor_set_new_correct[OF pcur ch(2)]
  let ?s = "\<lparr>fr_arith = d1, fr_reader = r3, fr_filter_cursors = fcs, fr_probability_cursors = pcs,
    fr_status = initial_status, fr_out = out\<rparr>"
  have s: "loop_ok ?ch ?bits (length out) cs 0 ?pairs ?s"
    using g F(2) P(2) by (simp add: loop_ok_def)
  have "length out \<le> 112896" using out dst_decoder_inv_bounds(3)[OF d] by simp
  also have "(112896::nat) < 2 ^ 64" by simp
  finally have out64: "length out < 2 ^ 64" .
  obtain s' where s': "decode_bits cs (build_filters (cs_filter_tables cs)) ?ch ?bits ?s = Inr s'"
    "length (fr_out s') = length out"
    using decode_bits_total[OF sok ch F(1) P(1) bits out out64 s] by blast
  show ?thesis
    using s' by (simp add: decode_compressed_dst_payload_def syn mark c fcur pcur Let_def g(1))
qed

lemma decode_compressed_error:
  assumes d: "dst_decoder_inv d" and r: "rd_inv r" "8 * length (br_input r) < 2 ^ 62"
    and out: "length out = dd_frame_bytes d * dd_channel_count d"
    and e: "decode_compressed_dst_payload d r out = Inl err"
  shows "compressed_syntax_read (dd_channel_count d) (dd_frame_bytes d) r = Inl err \<or>
    (\<exists>cs r1. compressed_syntax_read (dd_channel_count d) (dd_frame_bytes d) r = Inr (cs, r1) \<and>
      (check_arithmetic_marker r1 = Inl err \<or>
       cursor_set_new (cs_filter_segments cs) (dd_channel_count d) (dd_frame_bits d)
         (ct_elements (cs_filter_tables cs)) FilterSegments = Inl err \<or>
       cursor_set_new (cs_probability_segments cs) (dd_channel_count d) (dd_frame_bits d)
         (ct_elements (cs_probability_tables cs)) ProbabilitySegments = Inl err))"
proof (cases "compressed_syntax_read (dd_channel_count d) (dd_frame_bytes d) r")
  case (Inl e1)
  then show ?thesis using e by (simp add: decode_compressed_dst_payload_def)
next
  case (Inr v)
  then obtain cs r1 where syn: "compressed_syntax_read (dd_channel_count d) (dd_frame_bytes d) r = Inr (cs, r1)"
    by (cases v) auto
  let ?f = "cursor_set_new (cs_filter_segments cs) (dd_channel_count d) (dd_frame_bits d)
         (ct_elements (cs_filter_tables cs)) FilterSegments"
  let ?p = "cursor_set_new (cs_probability_segments cs) (dd_channel_count d) (dd_frame_bits d)
         (ct_elements (cs_probability_tables cs)) ProbabilitySegments"
  show ?thesis
  proof (cases "check_arithmetic_marker r1")
    case (Inl e1)
    then show ?thesis using e syn by (simp add: decode_compressed_dst_payload_def)
  next
    case mark: (Inr r2)
    have ch6: "dd_channel_count d \<le> 6" using d by (simp add: dst_decoder_inv_def)
    have "rd_follows r r1" using yieldsD[OF yields_syntax[OF ch6] r(1) syn] by simp
    then have f2: "rd_follows r r2"
      using check_marker_input[OF _ mark] rd_follows_inv rd_follows_trans by blast
    have "br_pos r2 \<le> 8 * length (br_input r)" using f2 by (auto simp: rd_follows_def rd_inv_def)
    then have "br_pos r2 + 12 < 2 ^ 62 + 12" using r(2) by linarith
    also have "(2::nat) ^ 62 + 12 < 2 ^ 64" by simp
    finally have "tail_room 12 (enable_zero_padding_after_eof r2)"
      using rd_follows_inv[OF f2] by (simp add: tail_room_def enable_zero_padding_after_eof_def rd_inv_def br_ok_def)
    then obtain a where a: "arith_dec_new r2 = Inr a"
      using read_bits_tail[of 12 _ 12] by (fastforce simp: arith_dec_new_def)
    show ?thesis
    proof (cases ?f)
      case (Inl e1)
      then show ?thesis using e syn mark a
        by (cases a) (simp add: decode_compressed_dst_payload_def Let_def)
    next
      case f: (Inr fcs)
      show ?thesis
      proof (cases ?p)
        case (Inl e1)
        then show ?thesis using e syn mark a f
          by (cases a) (simp add: decode_compressed_dst_payload_def Let_def)
      next
        case (Inr pcs)
        then show ?thesis using decode_compressed_total[OF d r out syn mark f] e by fastforce
      qed
    qed
  qed
qed

end
