(* ===== verification/DstTheorems.thy ===== *)
theory DstTheorems
  imports DstLossless DstRobust
begin

text \<open>
  The properties of the DST decoder on arbitrary input, with concrete frames that witness them, and the
  divergence found in the segment reader.
\<close>

subsection \<open>Accepted headers\<close>

lemma rd_inv_new: "8 * length input < 2 ^ 64 \<Longrightarrow> rd_inv (br_new input)"
  by (simp add: rd_inv_def br_ok_def br_new_def)

text \<open>C22: every header the decoder accepts is well formed. Whatever the bytes, when \<open>CompressedSyntax::read\<close> returns
  for at most six channels, each channel has 1 to 4 filter and 1 to 8 probability
  segments, every table number of the maps is below its table count (at most 12), every table
  has 1 to 128 entries, filter coefficients fit nine signed bits, probabilities are 1 to 128 and
  the unused tail of each row is zero: the ranges that make every array access of the decoding loop safe.\<close>

theorem accepted_header_well_formed:
  assumes "8 * length input < 2 ^ 64" and "channels \<le> 6"
    and "compressed_syntax_read channels frame_bytes (br_new input) = Inr (cs, r)"
  shows "syntax_ok channels cs"
  using yieldsD[OF yields_syntax[OF assms(2)] rd_inv_new[OF assms(1)] assms(3)] by blast

lemma bytes_of_bits:
  assumes "bit_list bs"
  obtains input k where "bytes_bits input = bs @ replicate k 0" and "k < 8"
proof -
  have "bw_holds (write_bit_slice bs bw_new) ([] @ bs)"
    by (rule bw_holds_write_bit_slice[OF bw_holds_new assms])
  then show ?thesis using that[of "bw_bytes (write_bit_slice bs bw_new)" "(8 - length bs mod 8) mod 8"]
    by (simp add: bw_holds_def)
qed

theorem accepted_header_well_formed_witness:
  "\<exists>input cs r. compressed_syntax_read 2 4704 (br_new input) = Inr (cs, r) \<and> syntax_ok 2 cs"
proof -
  let ?bits = "syntax_bits 2 [[3], [-7, 1]] [[64], [10]] PerChannel"
  have f: "filters_ok 2 [[3], [-7, 1]] PerChannel" and p: "probabilities_ok (length [[3::int], [-7, 1]]) [[64], [10]]"
    by (simp_all add: filters_ok_def probabilities_ok_def)
  have ok: "candidate_ok 2 [[3], [-7, 1]] [[64], [10]] PerChannel" unfolding candidate_ok_def by (intro conjI f p) simp_all
  have "bit_list ?bits"
    using bit_list_bits_of_num bit_list_signed_digits
    by (auto simp: syntax_bits_def table_map_bits_def filter_bits_def probability_bits_def)
  then obtain input k where i: "bytes_bits input = ?bits @ replicate k 0" "k < 8" by (rule bytes_of_bits)
  have "length ?bits \<le> 10000" using candidate_header_length[OF ok] by (simp add: candidate_header_def)
  then have "8 * length input \<le> 10008" using arg_cong[OF i(1), of length] i(2) by simp
  also have "(10008::nat) < 2 ^ 64" by simp
  finally have len: "8 * length input < 2 ^ 64" .
  obtain hp where "delivers (compressed_syntax_read 2 4704) ?bits (candidate_syntax 2 [[3], [-7, 1]] [[64], [10]] PerChannel hp)"
    using delivers_syntax[of 2 "[[3], [-7, 1]]" PerChannel "[[64], [10]]" 4704, OF f p] by auto
  then have "compressed_syntax_read 2 4704 (br_new input)
      = Inr (candidate_syntax 2 [[3], [-7, 1]] [[64], [10]] PerChannel hp, br_advance (length ?bits) (br_new input))"
    by (rule deliversD) (use len i in \<open>simp_all add: br_ok_def br_new_def[of input]\<close>, simp flip: br_new_def)
  then show ?thesis using accepted_header_well_formed[OF len, of 2 4704] by auto
qed

subsection \<open>Only the header can be rejected\<close>

lemma decode_frame_compressed:
  assumes "dst_decoder_inv d" and "input \<noteq> []" and "read_bit (br_new input) = Inr (1, r)"
  shows "dst_decode_frame d input
    = decode_compressed_dst_payload d r (replicate (dd_frame_bytes d * dd_channel_count d) 0)"
  using dsd_frame_bytes_value[OF assms(1)] assms(2,3)
  by (cases "decode_compressed_dst_payload d r (replicate (dd_frame_bytes d * dd_channel_count d) 0)")
    (simp_all add: dst_decode_frame_def dst_decode_frame_into_def)

text \<open>C24: a compressed frame is rejected before its first sample is decoded. If decoding a compressed frame fails with some
  error, that error was raised by the syntax reader, by the start marker of the arithmetic code, or by the check of one
  of the two segment maps against the frame and the tables (its lengths may have been rescaled since they
  were read): the loop that decodes the samples (and with it every arithmetic-coder and
  probability-table error branch) never fails, whatever the remaining bytes are.\<close>

theorem only_header_rejects:
  assumes "dst_decoder_new channels rate = Inr d" and "8 * length input < 2 ^ 62" and "input \<noteq> []"
    and "read_bit (br_new input) = Inr (1, r)" and "dst_decode_frame d input = Inl err"
  shows "compressed_syntax_read (dd_channel_count d) (dd_frame_bytes d) r = Inl err \<or>
    (\<exists>cs r1. compressed_syntax_read (dd_channel_count d) (dd_frame_bytes d) r = Inr (cs, r1) \<and>
      (check_arithmetic_marker r1 = Inl err \<or>
       cursor_set_new (cs_filter_segments cs) (dd_channel_count d) (dd_frame_bits d)
         (ct_elements (cs_filter_tables cs)) FilterSegments = Inl err \<or>
       cursor_set_new (cs_probability_segments cs) (dd_channel_count d) (dd_frame_bits d)
         (ct_elements (cs_probability_tables cs)) ProbabilitySegments = Inl err))"
proof (rule decode_compressed_error)
  show inv: "dst_decoder_inv d" by (rule dst_decoder_new_inv[OF assms(1)])
  have "(2::nat) ^ 62 < 2 ^ 64" by simp
  then have "8 * length input < 2 ^ 64" using assms(2) by (rule less_trans[rotated])
  then have "rd_follows (br_new input) r"
    using yieldsD[OF yields_read_bit rd_inv_new assms(4)] by simp
  then show "rd_inv r" "8 * length (br_input r) < 2 ^ 62"
    using assms(2) by (simp_all add: rd_follows_def, simp add: br_new_def)
  show "decode_compressed_dst_payload d r (replicate (dd_frame_bytes d * dd_channel_count d) 0) = Inl err"
    using decode_frame_compressed[OF inv assms(3,4)] assms(5) by simp
qed simp

lemma read_bits_short:
  assumes "br_ok r" and "\<not> br_zero_pad r" and "br_view r = [b]"
  shows "read_bits 7 r = Inl (UnexpectedEof (length (br_input r)))"
proof -
  have 1: "read_bit r = Inr (b, br_advance 1 r)" by (rule read_bit_view[OF assms(1,3)])
  have "br_view (br_advance 1 r) = []" using br_view_advance[of 1 r] assms(3) by simp
  then have 2: "read_bit (br_advance 1 r) = Inl (UnexpectedEof (length (br_input r)))"
    using read_bit_eof[of "br_advance 1 r"] assms(1,2) by simp
  show ?thesis using 1 2 by (simp add: read_bits_def numeral_nat)
qed

theorem only_header_rejects_witness:
  "\<exists>d r. dst_decoder_new 1 Dsd64 = Inr d \<and> read_bit (br_new [0xFC]) = Inr (1, r)
    \<and> compressed_syntax_read (dd_channel_count d) (dd_frame_bytes d) r = Inl (UnexpectedEof 1)"
proof -
  obtain d where d: "dst_decoder_new 1 Dsd64 = Inr d" "dd_channel_count d = 1" "dd_frame_bytes d = 4704"
    using dst_decoder_new_value[of 1 Dsd64] by simp
  let ?r0 = "br_new [0xFC]"
  have ok: "br_ok ?r0" "\<not> br_zero_pad ?r0" by (simp_all add: br_ok_def br_new_def)
  have v0: "br_view ?r0 = 1 # [1, 1, 1] @ (1 # table_map_bits 1 False) @ replicate 1 0 @ [0]"
    by (simp add: byte_bits_def table_map_bits_def upt_rec numeral_nat bit_numeral_rec)
  have rb: "read_bit ?r0 = Inr (1, br_advance 1 ?r0)" by (rule read_bit_view[OF ok(1) v0])
  have v1: "br_view (br_advance 1 ?r0) = [1, 1, 1] @ (1 # table_map_bits 1 False) @ replicate 1 0 @ [0]"
    using br_view_advance[of 1 ?r0] v0 by simp
  have s: "compressed_segments_read 1 4704 (br_advance 1 ?r0) = Inr ((segment_data_default, segment_data_default), br_advance 4 ?r0)"
    using deliversD[OF delivers_segments[of 1 4704] _ v1] ok by simp
  have v2: "br_view (br_advance 4 ?r0) = (1 # table_map_bits 1 False) @ replicate 1 0 @ [0]"
    using br_view_advance[of 4 ?r0] v0 by simp
  have m: "\<exists>a b. compressed_mapping_read 1 segment_data_default segment_data_default (br_advance 4 ?r0)
      = Inr ((1, a, b), br_advance 6 ?r0)"
    using deliversD[OF delivers_compressed_mapping[of 1 1 Shared] _ v2[folded uses_per_channel_tables.simps(1)]] ok
    by (simp add: table_map_bits_def)
  have v3: "br_view (br_advance 6 ?r0) = replicate 1 0 @ [0]"
    using br_view_advance[of 6 ?r0] v0 by (simp add: table_map_bits_def)
  have h: "read_half_probability 1 (br_advance 6 ?r0) = Inr (replicate 6 False, br_advance 7 ?r0)"
    using deliversD[OF delivers_half_probability[of 1] _ v3] ok by simp
  have v4: "br_view (br_advance 7 ?r0) = [0]"
    using br_view_advance[of 7 ?r0] v0 by (simp add: table_map_bits_def)
  have t: "read_table (coeff_table_default\<lparr>ct_elements := 1\<rparr>) fsets_code_pred_coeff 7 9 True 0 (br_advance 7 ?r0)
      = Inl (UnexpectedEof 1)"
    using read_bits_short[OF _ _ v4] ok
    by (simp add: read_table_def read_table_element_def) (simp add: br_new_def)
  have syn: "compressed_syntax_read 1 4704 (br_advance 1 ?r0) = Inl (UnexpectedEof 1)"
    using s m h t by (auto simp: compressed_syntax_read_def)
  have "dst_decode_frame d [0xFC] = Inl (UnexpectedEof 1)"
    using decode_frame_compressed[OF dst_decoder_new_inv[OF d(1)] _ rb] d syn
    by (simp add: decode_compressed_dst_payload_def)
  from only_header_rejects[OF d(1) _ _ rb this] show ?thesis using d rb syn by auto
qed

subsection \<open>The output contract\<close>

lemma decode_bit_length: "decode_bit cs filters bits base i ch s = Inr s' \<Longrightarrow> length (fr_out s') = length (fr_out s)"
  by (auto simp: decode_bit_def res_bind_eq_Inr_iff Let_def split: prod.splits)

lemma decode_compressed_length: "decode_compressed_dst_payload d r out = Inr out' \<Longrightarrow> length out' = length out"
proof -
  assume "decode_compressed_dst_payload d r out = Inr out'"
  then obtain cs fs ch bits s s' where run: "decode_bits cs fs ch bits s = Inr s'" and s: "fr_out s = out" "fr_out s' = out'"
    by (auto simp: decode_compressed_dst_payload_def res_bind_eq_Inr_iff Let_def split: prod.splits)
  have inner: "fold_res (decode_bit cs fs bits base i) xs u = Inr v \<Longrightarrow> length (fr_out u) = n \<Longrightarrow> length (fr_out v) = n"
    for base i xs u v n
    by (erule fold_res_invariant[where P = "\<lambda>_ s. length (fr_out s) = n"]) (auto dest: decode_bit_length)
  have "length (fr_out s') = length (fr_out s)"
  proof (rule fold_res_invariant[where P = "\<lambda>_ w. length (fr_out w) = length (fr_out s)",
        OF run[unfolded decode_bits_def] refl])
    fix k u v
    assume u: "length (fr_out u) = length (fr_out s)" and e: "res_bind (ok_or
        (ArithmeticDecodeFailure ''DST output byte index overflow'') (checked_mul64 ([0..<bits] ! k div 8) ch))
      (\<lambda>base. fold_res (decode_bit cs fs bits base ([0..<bits] ! k)) [0..<ch] u) = Inr v"
    then obtain base where "fold_res (decode_bit cs fs bits base ([0..<bits] ! k)) [0..<ch] u = Inr v"
      by (auto simp: res_bind_eq_Inr_iff)
    then show "length (fr_out v) = length (fr_out s)" using inner u by blast
  qed
  then show ?thesis using s by simp
qed

text \<open>the contract of \<open>decode_frame_into\<close>. On success, for any input and any caller buffer, the returned
  count is the frame size of the layout (bytes per channel times channels), the buffer keeps its length, and every byte
  past the count is left as it was.\<close>

theorem decode_into_contract:
  "(case decode_frame_with_rate_into input channels rate output of
      Inl e \<Rightarrow> True
    | Inr (written, output') \<Rightarrow> written = 588 * fs44 rate div 8 * channels \<and> written \<le> length output
        \<and> length output' = length output \<and> drop written output' = drop written output)"
proof (cases "decode_frame_with_rate_into input channels rate output")
  case (Inr v)
  obtain written output' where v: "v = (written, output')" by (cases v)
  obtain d where d: "dst_decoder_new channels rate = Inr d" and run: "dst_decode_frame_into d input output = Inr v"
    using Inr by (auto simp: decode_frame_with_rate_into_def res_bind_eq_Inr_iff)
  have inv: "dst_decoder_inv d" by (rule dst_decoder_new_inv[OF d])
  have dd: "dd_channel_count d = channels" "dd_rate d = rate"
    using d by (auto simp: dst_decoder_new_def res_bind_eq_Inr_iff validate_channel_count_def split: if_splits)
  let ?n = "dd_frame_bytes d * dd_channel_count d"
  obtain b r where rb: "read_bit (br_new input) = Inr (b, r)" and le: "?n \<le> length output"
    and rest: "res_bind (if b = 0 then decode_uncompressed_dst_payload r ?n
       else decode_compressed_dst_payload d r (replicate ?n 0)) (\<lambda>out. Inr (?n, out @ drop ?n output)) = Inr v"
    using run unfolding dst_decode_frame_into_def dsd_frame_bytes_value[OF inv] res_bind_Inr
    by (cases "length output < ?n"; cases "input = []"; cases "read_bit (br_new input)") (auto simp: not_less)
  obtain out where out: "v = (?n, out @ drop ?n output)" "?n \<le> length output"
    and pay: "(if b = 0 then decode_uncompressed_dst_payload r ?n
       else decode_compressed_dst_payload d r (replicate ?n 0)) = Inr out"
    using rest le by (cases "if b = 0 then decode_uncompressed_dst_payload r ?n
       else decode_compressed_dst_payload d r (replicate ?n 0)") auto
  have "length out = ?n"
    using pay decode_compressed_length[of d r "replicate ?n 0" out] length_read_bytes
    by (auto simp: decode_uncompressed_dst_payload_def res_bind_eq_Inr_iff split: if_splits prod.splits)
  then show ?thesis using Inr v out dd inv by (auto simp: dst_decoder_inv_def)
qed simp

subsection \<open>Segment lookup\<close>

definition walk_channel ::
  "segment_data \<Rightarrow> nat \<Rightarrow> nat \<Rightarrow> nat \<Rightarrow> segment_kind \<Rightarrow> segment_cursor list \<Rightarrow> dst_error + nat list" where
  "walk_channel d ch bits n kind cs =
     res_bind (fold_res (\<lambda>i (tables, cs). res_bind (table_for_bit d ch i bits n kind cs)
         (\<lambda>(t, cs). Inr (tables @ [t], cs))) [0..<bits] ([], cs))
       (\<lambda>(tables, _). Inr tables)"

text \<open>C29: the cursors implement the segment map. For any segment data that passes the decoder's checks, walking
  the bits of a channel in order returns, for every bit, the table of the first
  segment that ends past the bit (the reference definition \<open>segment_at\<close>, which scans all segments), never an error, and
  that table is one of the defined ones.\<close>

theorem cursor_walk_correct:
  assumes "cursor_set_new d channels bits n kind = Inr cs" and "channels \<le> 6" and "ch < channels"
  shows "walk_channel d ch bits n kind cs = Inr (map (\<lambda>i. at2 (sd_table d) ch (segment_at d bits ch i)) [0..<bits])
    \<and> (\<forall>i < bits. at2 (sd_table d) ch (segment_at d bits ch i) < n)"
proof -
  have t: "channel_tiled d bits n ch" using cursor_set_new_correct(1)[OF assms(1,2)] assms(3) by simp
  have c0: "cursor_ok d bits ch 0 (cs ! ch)" "length cs = 6"
    using cursor_set_new_correct(2)[OF assms(1,2)] assms(3) by (auto simp: cursors_ok_def)
  let ?t = "\<lambda>i. at2 (sd_table d) ch (segment_at d bits ch i)"
  let ?P = "\<lambda>k (tables, cs). tables = map ?t [0..<k] \<and> cursor_ok d bits ch k (cs ! ch) \<and> length cs = 6
    \<and> (\<forall>i < k. ?t i < n)"
  let ?f = "\<lambda>i (tables, cs). res_bind (table_for_bit d ch i bits n kind cs)
         (\<lambda>(t, cs). Inr (tables @ [t], cs))"
  have "\<exists>v. fold_res ?f [0..<bits] ([], cs) = Inr v \<and> ?P (length [0..<bits]) v"
  proof (rule fold_res_total)
    show "?P 0 ([], cs)" using c0 by simp
  next
    fix k u
    assume k: "k < length [0..<bits]" and P: "?P k u"
    obtain ts cs' where u: "u = (ts, cs')" by (cases u)
    have ch6: "ch < length cs'" using P u assms(2,3) by simp
    have kb: "k < bits" using k by simp
    obtain c' where c': "table_for_bit d ch k bits n kind cs' = Inr (?t k, cs'[ch := c'])" "cursor_ok d bits ch k c'" "?t k < n"
      using table_for_bit_correct[OF t kb _ ch6] P u by auto
    have "cursor_ok d bits ch (Suc k) c'" by (rule cursor_ok_mono[OF c'(2)]) simp
    then show "\<exists>v. ?f ([0..<bits] ! k) u = Inr v \<and> ?P (Suc k) v"
      using c' P u ch6 k by (auto simp: less_Suc_eq)
  qed
  then show ?thesis by (auto simp: walk_channel_def)
qed

definition two_segments :: segment_data where
  "two_segments = segment_data_default\<lparr>sd_resolution := 2, sd_count := 2 # replicate 5 1,
     sd_len := (2 # replicate 7 0) # replicate 5 (replicate 8 0),
     sd_table := (1 # replicate 7 0) # replicate 5 (replicate 8 0)\<rparr>"

theorem cursor_walk_correct_witness:
  "\<exists>cs. cursor_set_new two_segments 1 40 2 FilterSegments = Inr cs
    \<and> walk_channel two_segments 0 40 2 FilterSegments cs = Inr (replicate 32 1 @ replicate 8 0)"
proof -
  have upt: "[0..<2] = [0, 1]" "[0..<1] = [0]" by (simp_all add: upt_rec)
  have "\<exists>cs. cursor_set_new two_segments 1 40 2 FilterSegments = Inr cs"
    by (simp add: cursor_set_new_def validate_decode_mapping_def validate_channel_mapping_def Let_def upt
        segment_end_from_start_def segment_len_bits_def checked_defs two_segments_def segment_data_default_def)
  then obtain cs where cs: "cursor_set_new two_segments 1 40 2 FilterSegments = Inr cs" by blast
  have at: "at2 (sd_table two_segments) 0 (segment_at two_segments 40 0 i) = (if i < 32 then 1 else 0)" if "i < 40" for i
    using that
    by (simp add: segment_at_def seg_end_def seg_start_def two_segments_def segment_data_default_def upt_rec
        numeral_2_eq_2)
  have "map (\<lambda>i. at2 (sd_table two_segments) 0 (segment_at two_segments 40 0 i)) [0..<40]
      = map (\<lambda>i. if i < 32 then 1 else 0) [0..<40]"
    using at by (intro map_cong) auto
  also have "\<dots> = replicate 32 1 @ replicate 8 0"
    by (rule nth_equalityI) (auto simp: nth_append)
  finally show ?thesis using cs cursor_walk_correct[OF cs, of 0] by auto
qed

subsection \<open>A shared field read per channel\<close>

text \<open>On this input channel 0 has one explicit segment of 64 units at resolution 4, checked as 2048
  bits; after channel 1 (no explicit segment) the same table resolves that segment to 512 bits, below the
  minimum of 1024 bits that the reader enforces.\<close>

lemma overwritten_sample:
  "\<exists>d0 r0 d r. read_bit (br_new [0, 8, 16, 48]) = Inr (0, br_advance 1 (br_new [0, 8, 16, 48]))
    \<and> read_one_channel_segments 4704 4 1024 0 (segment_data_default, br_advance 1 (br_new [0, 8, 16, 48]))
      = Inr (d0, r0) \<and> sd_count d ! 0 = 2 \<and> segment_len_bits d0 0 0 = Inr 2048
    \<and> segment_data_read 2 4704 4 1024 (br_new [0, 8, 16, 48]) = Inr ((d, False), r) \<and> segment_len_bits d 0 0 = Inr 512"
proof -
  let ?r = "br_new [0, 8, 16, 48]"
  have ok: "br_ok ?r" by (simp add: br_ok_def br_new_def)
  have upt: "[0..<8] = [0, 1, 2, 3, 4, 5, 6, 7]" "[0..<13] = [0, 1, 2, 3, 4, 5, 6, 7, 8, 9, 10, 11, 12]"
    "[0..<11] = [0, 1, 2, 3, 4, 5, 6, 7, 8, 9, 10]" "[0..<2] = [0, 1]"
    by (simp_all add: upt_rec)
  have v: "br_view ?r = 0 # 0 # bits_of_num 13 4 @ bits_of_num 11 64 @ 1 # 1 # replicate 4 0"
    by (simp add: byte_bits_def bits_of_num_def upt bit_numeral_rec) (simp add: numeral_nat)
  have w: "log2_round_up 4576 = 13" "log2_round_up 1144 = 11"
    using bit_len_unique[of 12 4576] bit_len_unique[of 10 1144] by (simp_all add: log2_round_up_bit_len)
  have r1: "read_bit ?r = Inr (0, br_advance 1 ?r)" by (rule read_bit_view[OF ok v])
  have v1: "br_view (br_advance 1 ?r) = 0 # bits_of_num 13 4 @ bits_of_num 11 64 @ 1 # 1 # replicate 4 0"
    unfolding br_view_advance v by simp
  have r2: "read_bit (br_advance 1 ?r) = Inr (0, br_advance 2 ?r)" using read_bit_view[OF _ v1] ok by simp
  have v2: "br_view (br_advance 2 ?r) = bits_of_num 13 4 @ bits_of_num 11 64 @ 1 # 1 # replicate 4 0"
    unfolding br_view_advance v by simp
  have r3: "read_bits 13 (br_advance 2 ?r) = Inr (4, br_advance 15 ?r)" using read_bits_view[OF _ v2, of 13] ok by simp
  have v3: "br_view (br_advance 15 ?r) = bits_of_num 11 64 @ 1 # 1 # replicate 4 0"
    using br_view_advance[of 13 "br_advance 2 ?r"] v2 by simp
  have r4: "read_bits 11 (br_advance 15 ?r) = Inr (64, br_advance 26 ?r)" using read_bits_view[OF _ v3, of 11] ok by simp
  have v4: "br_view (br_advance 26 ?r) = 1 # 1 # replicate 4 0"
    using br_view_advance[of 11 "br_advance 15 ?r"] v3 by simp
  have r5: "read_bit (br_advance 26 ?r) = Inr (1, br_advance 27 ?r)" using read_bit_view[OF _ v4] ok by simp
  have v5: "br_view (br_advance 27 ?r) = 1 # replicate 4 0"
    using br_view_advance[of 1 "br_advance 26 ?r"] v4 by simp
  have r6: "read_bit (br_advance 27 ?r) = Inr (1, br_advance 28 ?r)" using read_bit_view[OF _ v5] ok by simp
  let ?res = "segment_data_default\<lparr>sd_resolution := 4\<rparr>"
  let ?len = "?res\<lparr>sd_len := upd2 (sd_len ?res) 0 0 64\<rparr>"
  let ?first = "?len\<lparr>sd_count := (sd_count ?len)[0 := 2], sd_len := upd2 (sd_len ?len) 0 1 0\<rparr>"
  have res: "read_resolution 4704 1024 segment_data_default (br_advance 2 ?r) = Inr (?res, br_advance 15 ?r)"
    by (simp add: read_resolution_def checked_defs w r3)
  have seg: "read_segment_len 4704 1024 0 4576 ?res (br_advance 15 ?r) = Inr ((64, 2048, 4320), br_advance 26 ?r)"
    by (simp add: read_segment_len_def checked_defs w r4)
  have ch0: "read_one_channel_segments 4704 4 1024 0 (segment_data_default, br_advance 1 ?r) = Inr (?first, br_advance 27 ?r)"
    by (simp add: read_one_channel_segments_def checked_defs read_segments_loop.simps[of 0 4704 4 1024 0 4576 0]
        read_segments_loop.simps[of 0 4704 4 1024 2048 4320 1] r2 res seg r5 Let_def del: One_nat_def)
  let ?second = "?first\<lparr>sd_count := (sd_count ?first)[1 := 1], sd_len := upd2 (sd_len ?first) 1 0 0, sd_resolution := 1\<rparr>"
  have ch1: "read_one_channel_segments 4704 4 1024 1 (?first, br_advance 27 ?r) = Inr (?second, br_advance 28 ?r)"
    by (simp add: read_one_channel_segments_def checked_defs read_segments_loop.simps[of 1 4704 4 1024 0 4576 0]
        r6 Let_def del: One_nat_def)
  have all: "segment_data_read 2 4704 4 1024 ?r = Inr ((?second, False), br_advance 28 ?r)"
    using r1 ch0 ch1 by (simp add: segment_data_read_def upt del: One_nat_def)
  have l0: "segment_len_bits ?first 0 0 = Inr 2048" and l: "segment_len_bits ?second 0 0 = Inr 512"
    by (simp_all add: segment_len_bits_def checked_defs upd2_def segment_data_default_def)
  have n: "sd_count ?second ! 0 = 2" by (simp add: segment_data_default_def)
  show ?thesis using r1 ch0 all l0 l n by blast
qed

text \<open>What reading one channel leaves: its own row, whose explicit segments are as long, at the resolution it ends
  with, as was checked; the rows of the other channels; and a resolution of 1 if it had no explicit segment.\<close>

definition explicit_ok :: "nat \<Rightarrow> nat \<Rightarrow> nat \<Rightarrow> segment_data \<Rightarrow> bool" where
  "explicit_ok min_bits ch seg d \<longleftrightarrow>
     segment_len_bits d ch seg = Inr (8 * sd_resolution d * at2 (sd_len d) ch seg)
     \<and> min_bits \<le> 8 * sd_resolution d * at2 (sd_len d) ch seg"

definition channel_read :: "nat \<Rightarrow> nat \<Rightarrow> nat \<Rightarrow> bool \<Rightarrow> segment_data \<Rightarrow> segment_data \<Rightarrow> bool" where
  "channel_read min_bits ch idx res_read d d' \<longleftrightarrow> shape 6 8 (sd_len d') \<and> length (sd_count d') = 6
     \<and> (\<forall>c. c \<noteq> ch \<longrightarrow> sd_count d' ! c = sd_count d ! c \<and> sd_len d' ! c = sd_len d ! c)
     \<and> (\<forall>seg < idx. at2 (sd_len d') ch seg = at2 (sd_len d) ch seg)
     \<and> idx + 1 \<le> sd_count d' ! ch
     \<and> (\<forall>seg. idx \<le> seg \<longrightarrow> seg + 1 < sd_count d' ! ch \<longrightarrow> explicit_ok min_bits ch seg d')
     \<and> (res_read \<longrightarrow> sd_resolution d' = sd_resolution d)
     \<and> (\<not> res_read \<longrightarrow> sd_count d' ! ch = idx + 1 \<longrightarrow> sd_resolution d' = 1)"

lemma upd2_row: "c \<noteq> ch \<Longrightarrow> upd2 m ch j v ! c = m ! c"
  by (simp add: upd2_def)

lemma read_segments_loop_channel:
  assumes "ch < 6" and "max_segments \<le> 8"
  shows "idx < max_segments \<Longrightarrow> shape 6 8 (sd_len d) \<Longrightarrow> length (sd_count d) = 6 \<Longrightarrow>
    read_segments_loop ch fb max_segments mb defined mxb idx res_read d r = Inr (d', r') \<Longrightarrow>
    channel_read mb ch idx res_read d d'"
proof (induction "max_segments - idx" arbitrary: idx defined mxb res_read d r)
  case 0
  then show ?case by simp
next
  case (Suc n)
  obtain e r1 where bit: "read_bit r = Inr (e, r1)"
    using Suc.prems(4) by (subst (asm) read_segments_loop.simps) (auto simp: res_bind_eq_Inr_iff)
  show ?case
  proof (cases "e \<noteq> 0")
    case True
    then show ?thesis
      using Suc.prems(1-3) Suc.prems(4)[unfolded read_segments_loop.simps[of ch fb max_segments mb defined mxb idx res_read d r]]
        bit assms
      by (auto simp: res_bind_eq_Inr_iff ok_or_eq_Inr_iff checked_defs channel_read_def Let_def upd2_row at2_upd2
          explicit_ok_def split: if_splits)
  next
    case False
    obtain d1 r2 len defined1 mxb1 r3 where lt: "idx + 1 < max_segments"
      and res: "(if res_read then Inr (d, r1) else read_resolution fb mb d r1) = Inr (d1, r2)"
      and len: "read_segment_len fb mb defined mxb d1 r2 = Inr ((len, defined1, mxb1), r3)"
      and loop: "read_segments_loop ch fb max_segments mb defined1 mxb1 (idx + 1) True
          (d1\<lparr>sd_len := upd2 (sd_len d1) ch idx len\<rparr>) r3 = Inr (d', r')"
      using Suc.prems(4) bit False
      by (subst (asm) read_segments_loop.simps) (auto simp: res_bind_eq_Inr_iff split: if_splits)
    have d1: "sd_len d1 = sd_len d" "sd_count d1 = sd_count d" "res_read \<Longrightarrow> d1 = d"
      using res by (auto simp: read_resolution_def res_bind_eq_Inr_iff split: if_splits)
    have chk: "Option.bind (checked_mul64 (sd_resolution d1) 8) (\<lambda>n. checked_mul64 n len) = Some (8 * sd_resolution d1 * len)"
      "mb \<le> 8 * sd_resolution d1 * len"
      using len by (auto simp: read_segment_len_def res_bind_eq_Inr_iff ok_or_eq_Inr_iff bind_eq_Some_conv checked_defs
          ac_simps split: if_splits)
    let ?d = "d1\<lparr>sd_len := upd2 (sd_len d1) ch idx len\<rparr>"
    have ih: "channel_read mb ch (idx + 1) True ?d d'"
      by (rule Suc.hyps(1)[OF _ lt _ _ loop]) (use Suc.hyps(2) Suc.prems d1 in auto)
    have at: "at2 (sd_len d') ch idx = len"
      using ih at2_upd2[of 6 8 "sd_len d1" ch idx len] Suc.prems(1,2) d1 assms by (simp add: channel_read_def)
    have rs: "sd_resolution d' = sd_resolution d1" using ih by (simp add: channel_read_def)
    have new: "explicit_ok mb ch idx d'"
      using chk at rs by (simp add: explicit_ok_def segment_len_bits_def)
    have "explicit_ok mb ch seg d'" if "idx \<le> seg" "seg + 1 < sd_count d' ! ch" for seg
      using ih new that by (cases "seg = idx") (auto simp: channel_read_def)
    moreover have "at2 (sd_len d') ch seg = at2 (sd_len d) ch seg" if "seg < idx" for seg
      using ih that at2_upd2[of 6 8 "sd_len d1" ch idx len ch seg] Suc.prems(1,2) d1 assms
      by (simp add: channel_read_def)
    ultimately show ?thesis
      using ih d1 rs by (auto simp: channel_read_def upd2_row)
  qed
qed

lemma read_one_channel:
  assumes "read_one_channel_segments fb max_segments mb ch (d, r) = Inr (d', r')"
    and "ch < 6" and "1 \<le> max_segments" and "max_segments \<le> 8" and "shape 6 8 (sd_len d)" and "length (sd_count d) = 6"
  shows "channel_read mb ch 0 False d d'"
  using assms read_segments_loop_channel[of ch max_segments 0 d fb mb]
  by (auto simp: read_one_channel_segments_def res_bind_eq_Inr_iff)

text \<open>The snapshots after each channel.\<close>

lemma read_channels:
  assumes "fold_res (read_one_channel_segments fb max_segments mb) [0..<channels] (d0, r0) = Inr (d, r)"
    and "channels \<le> 6" and m: "1 \<le> max_segments" "max_segments \<le> 8"
    and d0: "shape 6 8 (sd_len d0)" "length (sd_count d0) = 6"
  shows "\<exists>snap. snap 0 = (d0, r0) \<and> snap channels = (d, r)
    \<and> (\<forall>ch < channels. read_one_channel_segments fb max_segments mb ch (snap ch) = Inr (snap (Suc ch))
         \<and> channel_read mb ch 0 False (fst (snap ch)) (fst (snap (Suc ch))))
    \<and> shape 6 8 (sd_len d) \<and> length (sd_count d) = 6"
  using assms(1,2)
proof (induction channels arbitrary: d r)
  case 0
  then show ?case using d0 by (intro exI[of _ "\<lambda>_. (d0, r0)"]) simp
next
  case (Suc n)
  obtain d1 r1 where run: "fold_res (read_one_channel_segments fb max_segments mb) [0..<n] (d0, r0) = Inr (d1, r1)"
    and last: "read_one_channel_segments fb max_segments mb n (d1, r1) = Inr (d, r)"
    using Suc.prems(1) by (auto simp: fold_res_append res_bind_eq_Inr_iff)
  obtain snap where s: "snap 0 = (d0, r0)" "snap n = (d1, r1)"
    "\<forall>ch < n. read_one_channel_segments fb max_segments mb ch (snap ch) = Inr (snap (Suc ch))
         \<and> channel_read mb ch 0 False (fst (snap ch)) (fst (snap (Suc ch)))"
    "shape 6 8 (sd_len d1)" "length (sd_count d1) = 6"
    using Suc.IH[OF run] Suc.prems(2) by auto
  have c: "channel_read mb n 0 False d1 d"
    using read_one_channel[OF last _ m s(4,5)] Suc.prems(2) by simp
  let ?snap = "snap(Suc n := (d, r))"
  have "?snap 0 = (d0, r0)" "?snap (Suc n) = (d, r)" using s(1) by simp_all
  moreover have "read_one_channel_segments fb max_segments mb ch (?snap ch) = Inr (?snap (Suc ch))
      \<and> channel_read mb ch 0 False (fst (?snap ch)) (fst (?snap (Suc ch)))" if "ch < Suc n" for ch
    using that s(2,3) last c by (cases "ch = n") auto
  ultimately show ?case using c by (intro exI[of _ ?snap]) (auto simp: channel_read_def)
qed

text \<open>Later channels leave the rows of earlier ones alone.\<close>

lemma later_channels_keep:
  assumes "\<forall>ch < channels. channel_read mb ch 0 False (fst (snap ch)) (fst (snap (Suc ch)))" and "ch < channels"
  shows "k \<le> channels - Suc ch \<Longrightarrow> sd_count (fst (snap (Suc ch + k))) ! ch = sd_count (fst (snap (Suc ch))) ! ch
    \<and> sd_len (fst (snap (Suc ch + k))) ! ch = sd_len (fst (snap (Suc ch))) ! ch"
proof (induction k)
  case (Suc k)
  then have "channel_read mb (Suc ch + k) 0 False (fst (snap (Suc ch + k))) (fst (snap (Suc (Suc ch + k))))"
    using assms by simp
  then show ?case using Suc by (simp add: channel_read_def)
qed simp

text \<open>C31: reading per-channel segments keeps the lengths of every channel but the resolution of the last one only.
  \<open>resolution\<close> is one field of \<open>SegmentData\<close>, but \<open>read_one_channel_segments\<close> reads it anew for each channel and resets it
  to 1 for a channel without explicit segments. Whatever per-channel segment header is accepted: each explicit segment of
  a channel was checked, at the resolution in force after that channel (\<open>snap\<close>), to have at least the minimum length;
  the table handed to the decoder holds its units unchanged, and it resolves them to the length that was checked exactly when the
  channel's resolution is that of the last channel.\<close>

theorem segment_resolution_overwritten:
  assumes "segment_data_read channels frame_bytes max_segments min_bits r = Inr ((d, False), r')"
    and "1 \<le> channels" and "channels \<le> 6" and "1 \<le> max_segments" and "max_segments \<le> 8" and "0 < min_bits"
  shows "\<exists>snap r0. read_bit r = Inr (0, r0) \<and> snap 0 = (segment_data_default, r0) \<and> snap channels = (d, r')
    \<and> (\<forall>ch < channels. read_one_channel_segments frame_bytes max_segments min_bits ch (snap ch) = Inr (snap (Suc ch)))
    \<and> (sd_count d ! (channels - 1) = 1 \<longrightarrow> sd_resolution d = 1)
    \<and> (\<forall>ch < channels. \<forall>seg. seg + 1 < sd_count d ! ch \<longrightarrow>
        (let own = fst (snap (Suc ch)); checked = 8 * sd_resolution own * at2 (sd_len d) ch seg
         in segment_len_bits own ch seg = Inr checked \<and> min_bits \<le> checked
            \<and> (segment_len_bits d ch seg = Inr checked \<longleftrightarrow> sd_resolution own = sd_resolution d)))"
proof -
  obtain r0 where bit: "read_bit r = Inr (0, r0)"
    and run: "fold_res (read_one_channel_segments frame_bytes max_segments min_bits) [0..<channels]
      (segment_data_default, r0) = Inr (d, r')"
    using assms(1) by (auto simp: segment_data_read_def res_bind_eq_Inr_iff split: if_splits)
  obtain snap where s0: "snap 0 = (segment_data_default, r0)" and s: "snap channels = (d, r')"
    "\<forall>ch < channels. read_one_channel_segments frame_bytes max_segments min_bits ch (snap ch) = Inr (snap (Suc ch))"
    "\<forall>ch < channels. channel_read min_bits ch 0 False (fst (snap ch)) (fst (snap (Suc ch)))"
    using read_channels[OF run assms(3,4,5)] by (auto simp: segment_data_default_def)
  have one: "sd_count d ! (channels - 1) = 1 \<longrightarrow> sd_resolution d = 1"
    using s(3)[rule_format, of "channels - 1"] s(1) assms(2) by (simp add: channel_read_def)
  have "let own = fst (snap (Suc ch)); checked = 8 * sd_resolution own * at2 (sd_len d) ch seg
         in segment_len_bits own ch seg = Inr checked \<and> min_bits \<le> checked
            \<and> (segment_len_bits d ch seg = Inr checked \<longleftrightarrow> sd_resolution own = sd_resolution d)"
    if ch: "ch < channels" and seg: "seg + 1 < sd_count d ! ch" for ch seg
  proof -
    let ?own = "fst (snap (Suc ch))"
    have keep: "sd_count d ! ch = sd_count ?own ! ch" "sd_len d ! ch = sd_len ?own ! ch"
      using later_channels_keep[OF s(3) ch, of "channels - Suc ch"] s(1) ch by simp_all
    have ok: "segment_len_bits ?own ch seg = Inr (8 * sd_resolution ?own * at2 (sd_len d) ch seg)"
      "min_bits \<le> 8 * sd_resolution ?own * at2 (sd_len d) ch seg"
      using s(3) ch seg keep by (auto simp: channel_read_def explicit_ok_def)
    have "segment_len_bits d ch seg = Inr (8 * sd_resolution ?own * at2 (sd_len d) ch seg)
        \<longleftrightarrow> sd_resolution ?own = sd_resolution d"
    proof
      assume "segment_len_bits d ch seg = Inr (8 * sd_resolution ?own * at2 (sd_len d) ch seg)"
      then have "sd_resolution d * 8 * at2 (sd_len d) ch seg = 8 * sd_resolution ?own * at2 (sd_len d) ch seg"
        by (auto simp: segment_len_bits_def ok_or_eq_Inr_iff bind_eq_Some_conv checked_defs split: if_splits)
      moreover have "at2 (sd_len d) ch seg \<noteq> 0" using ok(2) assms(6) by (cases "at2 (sd_len d) ch seg") auto
      ultimately show "sd_resolution ?own = sd_resolution d" by simp
    next
      assume "sd_resolution ?own = sd_resolution d"
      then show "segment_len_bits d ch seg = Inr (8 * sd_resolution ?own * at2 (sd_len d) ch seg)"
        using ok(1) keep by (simp add: segment_len_bits_def)
    qed
    then show ?thesis using ok by (simp add: Let_def)
  qed
  then show ?thesis using bit s0 s(1,2) one by blast
qed

theorem segment_resolution_overwritten_witness:
  "\<exists>d0 r0 d r. read_one_channel_segments 4704 4 1024 0 (segment_data_default, br_advance 1 (br_new [0, 8, 16, 48]))
      = Inr (d0, r0) \<and> segment_len_bits d0 0 0 = Inr 2048
    \<and> segment_data_read 2 4704 4 1024 (br_new [0, 8, 16, 48]) = Inr ((d, False), r)
    \<and> sd_resolution d0 \<noteq> sd_resolution d \<and> segment_len_bits d 0 0 = Inr 512"
proof -
  obtain d0 r0 d r where x: "read_bit (br_new [0, 8, 16, 48]) = Inr (0, br_advance 1 (br_new [0, 8, 16, 48]))"
    "read_one_channel_segments 4704 4 1024 0 (segment_data_default, br_advance 1 (br_new [0, 8, 16, 48])) = Inr (d0, r0)"
    "sd_count d ! 0 = 2" "segment_len_bits d0 0 0 = Inr 2048"
    "segment_data_read 2 4704 4 1024 (br_new [0, 8, 16, 48]) = Inr ((d, False), r)" "segment_len_bits d 0 0 = Inr 512"
    using overwritten_sample by blast
  from segment_resolution_overwritten[OF x(5)] obtain snap where s: "snap 0 = (segment_data_default, br_advance 1 (br_new [0, 8, 16, 48]))"
    "\<forall>ch < 2. read_one_channel_segments 4704 4 1024 ch (snap ch) = Inr (snap (Suc ch))"
    "\<forall>ch < 2. \<forall>seg. seg + 1 < sd_count d ! ch \<longrightarrow>
        (let own = fst (snap (Suc ch)); checked = 8 * sd_resolution own * at2 (sd_len d) ch seg
         in segment_len_bits own ch seg = Inr checked \<and> 1024 \<le> checked
            \<and> (segment_len_bits d ch seg = Inr checked \<longleftrightarrow> sd_resolution own = sd_resolution d))"
    using x(1) by auto
  have "snap (Suc 0) = (d0, r0)" using s(1) s(2)[rule_format, of 0] x(2) by simp
  with s(3)[rule_format, of 0 0] x(3,4,6) have "sd_resolution d0 \<noteq> sd_resolution d" by (auto simp: Let_def)
  then show ?thesis using x by blast
qed

end
