(* ===== verification/DstEncoder.thy ===== *)
theory DstEncoder
  imports DstLossless "HOL-Library.Multiset"
begin

text \<open>
  The candidate search and the public encoding functions of \<open>dst/encoder.rs\<close>: options, telemetry, the
  pre-screen, the candidate matrix, verification, the choice of the smallest candidate, the raw
  fallback policy and the ordered batch encoder. What the code computes in \<open>f64\<close> and how it was compiled are
  the parameter \<open>build\<close>: \<open>lpc_rows\<close>, the linear-prediction fit of a frame (autocorrelation and Levinson-Durbin
  recursion), gives for a layout, an order and a scale the negated, rounded coefficients of each table, and
  \<open>overflow_checks\<close> says whether integer overflow panics (\<open>None\<close>) or wraps. The cast of a coefficient to
  \<open>i32\<close>, its absolute value, pruning, clamping and trimming are modelled. Wall-clock times are left out of the
  telemetry.
\<close>

subsection \<open>Options and telemetry\<close>

datatype raw_fallback_policy = FallbackDisabled | FallbackEnabled
datatype verification_failure_policy = FailOnVerification | AllowRawFallback
datatype encoder_effort = Fast | Balanced | HighCompression
datatype frame_encoding = Predictive | Uncompressed
datatype verification_failure_kind = DecodeError | DecodedDsdMismatch

record encoder_options =
  eo_prediction_order :: nat
  eo_per_channel_filters :: bool
  eo_candidate_orders :: "nat list"
  eo_scales :: "int list"
  eo_prune_thresholds :: "int list"
  eo_verify :: bool
  eo_minimum_savings :: nat
  eo_effort :: encoder_effort
  eo_fast_prescreen :: bool
  eo_parallel_workers :: nat
  eo_raw_fallback :: raw_fallback_policy
  eo_verification_failure_policy :: verification_failure_policy

definition default_candidate_orders :: "nat list" where
  "default_candidate_orders = [4, 8, 12, 16, 24, 32, 48, 64]"

definition default_coefficient_scales :: "int list" where
  "default_coefficient_scales = [255, 192, 128, 96]"

definition default_prune_thresholds :: "int list" where
  "default_prune_thresholds = [0, 1, 2]"

definition encoder_options_default :: encoder_options where
  "encoder_options_default = \<lparr>eo_prediction_order = 16, eo_per_channel_filters = True,
     eo_candidate_orders = default_candidate_orders, eo_scales = default_coefficient_scales,
     eo_prune_thresholds = default_prune_thresholds, eo_verify = True, eo_minimum_savings = 1,
     eo_effort = Balanced, eo_fast_prescreen = True, eo_parallel_workers = 0,
     eo_raw_fallback = FallbackDisabled, eo_verification_failure_policy = FailOnVerification\<rparr>"

record selected_predictor =
  sp_prediction_order :: nat
  sp_table_strategy :: dst_table_strategy
  sp_coefficient_scale :: int
  sp_prune_threshold :: int
  sp_filter_table_lengths :: "nat list"

record telemetry =
  tm_input_raw_bytes :: nat
  tm_raw_dst_bytes :: nat
  tm_encoded_bytes :: nat
  tm_selected_encoding :: "frame_encoding option"
  tm_selected_predictor :: "selected_predictor option"
  tm_predictive_candidates :: nat
  tm_verified_candidates :: nat
  tm_verification_failures :: nat
  tm_decode_errors :: nat
  tm_mismatches :: nat
  tm_last_verification_failure :: "verification_failure_kind option"
  tm_terminal_error :: "encode_failure_class option"
  tm_raw_fallback_reason :: "encode_failure_class option"
  tm_unprofitable_candidates :: nat
  tm_worst_expansion_avoided :: nat
  tm_prescreen_rejected :: bool
  tm_prescreen_sample_bytes :: nat
  tm_prescreen_unique_bytes :: nat
  tm_prescreen_transition_percent :: nat

definition telemetry_new :: "nat \<Rightarrow> telemetry" where
  "telemetry_new input_raw_bytes = \<lparr>tm_input_raw_bytes = input_raw_bytes,
     tm_raw_dst_bytes = min (input_raw_bytes + 1) (2 ^ 64 - 1), tm_encoded_bytes = 0,
     tm_selected_encoding = None, tm_selected_predictor = None, tm_predictive_candidates = 0,
     tm_verified_candidates = 0, tm_verification_failures = 0, tm_decode_errors = 0, tm_mismatches = 0,
     tm_last_verification_failure = None, tm_terminal_error = None, tm_raw_fallback_reason = None,
     tm_unprofitable_candidates = 0, tm_worst_expansion_avoided = 0, tm_prescreen_rejected = False,
     tm_prescreen_sample_bytes = 0, tm_prescreen_unique_bytes = 0, tm_prescreen_transition_percent = 0\<rparr>"

definition saturating_inc64 :: "nat \<Rightarrow> nat" where
  "saturating_inc64 n = min (n + 1) (2 ^ 64 - 1)"

subsection \<open>The pre-screen\<close>

record prescreen_scan =
  ps_seen :: "bool list"
  ps_unique :: nat
  ps_transitions :: nat
  ps_bit_count :: nat
  ps_previous :: "nat option"

definition prescreen_bit :: "u8 \<Rightarrow> nat \<Rightarrow> prescreen_scan \<Rightarrow> prescreen_scan" where
  "prescreen_bit byte b s =
     (let current = unat (drop_bit b byte AND 1);
          s = (case ps_previous s of
                 Some prev \<Rightarrow> if prev \<noteq> current then s\<lparr>ps_transitions := ps_transitions s + 1\<rparr> else s
               | None \<Rightarrow> s)
      in s\<lparr>ps_previous := Some current, ps_bit_count := ps_bit_count s + 1\<rparr>)"

definition prescreen_byte :: "u8 \<Rightarrow> prescreen_scan \<Rightarrow> prescreen_scan" where
  "prescreen_byte byte s =
     fold (prescreen_bit byte) (rev [0..<8])
       (if \<not> ps_seen s ! unat byte
        then s\<lparr>ps_seen := (ps_seen s)[unat byte := True], ps_unique := ps_unique s + 1\<rparr> else s)"

record frame_prescreen =
  fp_sample_bytes :: nat
  fp_unique_bytes :: nat
  fp_transition_percent :: nat
  fp_reject_predictive :: bool

definition fast_prescreen :: "u8 list \<Rightarrow> encoder_options \<Rightarrow> frame_prescreen option" where
  "fast_prescreen dsd opts =
     (if \<not> eo_fast_prescreen opts \<or> dsd = [] then None
      else
        let sample = min (length dsd) 4096;
            s = fold prescreen_byte (take sample dsd)
                  \<lparr>ps_seen = replicate 256 False, ps_unique = 0, ps_transitions = 0, ps_bit_count = 0,
                   ps_previous = None\<rparr>;
            denom = max (ps_bit_count s - 1) 1;
            percent = ps_transitions s * 100 div denom;
            looks_random = (ps_unique s \<ge> 240 \<and> percent \<ge> 48)
        in Some \<lparr>fp_sample_bytes = sample, fp_unique_bytes = ps_unique s, fp_transition_percent = percent,
                 fp_reject_predictive = (eo_effort opts = Fast \<and> looks_random)\<rparr>)"

subsection \<open>The candidate matrix\<close>

definition candidate_layouts :: "encoder_options \<Rightarrow> nat \<Rightarrow> dst_table_strategy list" where
  "candidate_layouts opts channels =
     (if eo_per_channel_filters opts \<and> channels > 1 then [Shared, PerChannel] else [Shared])"

text \<open>\<open>sort_unstable\<close> then \<open>dedup\<close>.\<close>

definition sort_dedup :: "'a :: linorder list \<Rightarrow> 'a list" where
  "sort_dedup xs = remdups_adj (sort xs)"

definition candidate_orders :: "encoder_options \<Rightarrow> dst_encode_error + nat list" where
  "candidate_orders opts =
     (let orders = (if eo_candidate_orders opts = [] then
            (case eo_effort opts of
               Fast \<Rightarrow> [8, 16]
             | Balanced \<Rightarrow> default_candidate_orders
             | HighCompression \<Rightarrow> [4, 8, 12, 16, 24, 32, 48, 64, 96, 128])
          else eo_candidate_orders opts);
          orders = sort_dedup (orders @ [eo_prediction_order opts])
      in res_bind (fold_res (\<lambda>order _. validate_prediction_order order) orders ()) (\<lambda>_. Inr orders))"

definition candidate_scales :: "encoder_options \<Rightarrow> int list" where
  "candidate_scales opts =
     (let scales = (if eo_scales opts = [] then
            (case eo_effort opts of
               Fast \<Rightarrow> [192, 128]
             | Balanced \<Rightarrow> default_coefficient_scales
             | HighCompression \<Rightarrow> [320, 255, 224, 192, 160, 128, 96, 64])
          else eo_scales opts)
      in rev (sort_dedup (map (\<lambda>s. max 1 (min 255 s)) scales)))"

definition candidate_prune_thresholds :: "encoder_options \<Rightarrow> int list" where
  "candidate_prune_thresholds opts =
     (let thresholds = (if eo_prune_thresholds opts = [] then
            (case eo_effort opts of
               Fast \<Rightarrow> [0, 2]
             | Balanced \<Rightarrow> default_prune_thresholds
             | HighCompression \<Rightarrow> [0, 1, 2, 3, 4, 6, 8])
          else eo_prune_thresholds opts)
      in sort_dedup (map (\<lambda>t. max 0 (min 255 t)) thresholds))"

text \<open>A rounded coefficient \<open>-(coeff * scale).round()\<close> is an integer (0 stands for a NaN, an integer beyond the range
  of \<open>i32\<close> for an infinity). \<open>as i32\<close> saturates; \<open>i32::abs\<close> of the least value overflows: it panics in a build
  with overflow checks and is the least value again in one without.\<close>

record encoder_build =
  lpc_rows :: "u8 list \<Rightarrow> nat \<Rightarrow> dst_table_strategy \<Rightarrow> nat \<Rightarrow> int \<Rightarrow> int list list"
  overflow_checks :: bool

definition i32_min :: int where "i32_min = - (2 ^ 31)"

definition as_i32 :: "int \<Rightarrow> int" where
  "as_i32 v = max i32_min (min (2 ^ 31 - 1) v)"

definition i32_abs :: "bool \<Rightarrow> int \<Rightarrow> int option" where
  "i32_abs checks v = (if v = i32_min then if checks then None else Some v else Some \<bar>v\<bar>)"

definition quantize_coefficient :: "bool \<Rightarrow> int \<Rightarrow> int \<Rightarrow> int option" where
  "quantize_coefficient checks prune_threshold rounded =
     (let value = as_i32 rounded in
      map_option (\<lambda>magnitude.
          let pruned = (if magnitude \<le> prune_threshold then 0 else value) in max (-255) (min 255 pruned))
        (i32_abs checks value))"

definition quantize_coefficients :: "bool \<Rightarrow> int list \<Rightarrow> int \<Rightarrow> int list option" where
  "quantize_coefficients checks rounded prune_threshold =
     map_option (\<lambda>quantized.
          let quantized = pop_trailing 0 quantized in if quantized = [] then [0] else quantized)
       (opt_map (quantize_coefficient checks prune_threshold) rounded)"

subsection \<open>The search\<close>

record predictive_candidate =
  pc_bytes :: "u8 list"
  pc_predictor :: selected_predictor

definition is_worth_using :: "nat \<Rightarrow> nat \<Rightarrow> nat \<Rightarrow> bool" where
  "is_worth_using candidate_len raw_len minimum_savings =
     (case checked_add64 candidate_len minimum_savings of None \<Rightarrow> False | Some t \<Rightarrow> t \<le> raw_len)"

definition verify_predictive_candidate ::
  "u8 list \<Rightarrow> nat \<Rightarrow> dst_rate \<Rightarrow> u8 list \<Rightarrow> verification_failure_kind + unit" where
  "verify_predictive_candidate candidate channel_count rate source =
     (case decode_frame_with_rate candidate channel_count rate of
        Inr decoded \<Rightarrow> if decoded = source then Inr () else Inl DecodedDsdMismatch
      | Inl _ \<Rightarrow> Inl DecodeError)"

definition record_verification_failure :: "verification_failure_kind \<Rightarrow> telemetry \<Rightarrow> telemetry" where
  "record_verification_failure kind t =
     (let t = t\<lparr>tm_verification_failures := saturating_inc64 (tm_verification_failures t),
                tm_last_verification_failure := Some kind\<rparr>
      in case kind of
           DecodeError \<Rightarrow> t\<lparr>tm_decode_errors := saturating_inc64 (tm_decode_errors t)\<rparr>
         | DecodedDsdMismatch \<Rightarrow> t\<lparr>tm_mismatches := saturating_inc64 (tm_mismatches t)\<rparr>)"

record search_state =
  se_best :: "predictive_candidate option"
  se_saw_unverified :: bool
  se_telemetry :: telemetry

definition accept_candidate ::
  "encoder_options \<Rightarrow> u8 list \<Rightarrow> selected_predictor \<Rightarrow> search_state \<Rightarrow> search_state" where
  "accept_candidate opts candidate predictor s =
     (let t = se_telemetry s;
          t = t\<lparr>tm_verified_candidates := saturating_inc64 (tm_verified_candidates t)\<rparr>;
          t = (if \<not> is_worth_using (length candidate) (tm_raw_dst_bytes t) (eo_minimum_savings opts)
               then t\<lparr>tm_unprofitable_candidates := saturating_inc64 (tm_unprofitable_candidates t)\<rparr> else t);
          t = (if length candidate > tm_raw_dst_bytes t
               then t\<lparr>tm_worst_expansion_avoided :=
                       max (tm_worst_expansion_avoided t) (length candidate - tm_raw_dst_bytes t)\<rparr> else t);
          best = (case se_best s of
                    None \<Rightarrow> Some \<lparr>pc_bytes = candidate, pc_predictor = predictor\<rparr>
                  | Some current \<Rightarrow> if length candidate < length (pc_bytes current)
                      then Some \<lparr>pc_bytes = candidate, pc_predictor = predictor\<rparr> else Some current)
      in s\<lparr>se_telemetry := t, se_best := best\<rparr>)"

definition try_candidate ::
  "encoder_build \<Rightarrow> u8 list \<Rightarrow> nat \<Rightarrow> dst_rate \<Rightarrow> encoder_options \<Rightarrow> dst_table_strategy \<Rightarrow> nat \<Rightarrow> int \<Rightarrow> int \<Rightarrow>
     search_state \<Rightarrow> search_state option" where
  "try_candidate build dsd channels rate opts layout order scale prune s =
     Option.bind (opt_map (\<lambda>row. quantize_coefficients (overflow_checks build) row prune)
         (lpc_rows build dsd channels layout order scale)) (\<lambda>filters.
      if [] \<in> set filters then Some s
      else Option.bind (encode_predictive_candidate dsd channels filters (table_for_channel layout channels) layout)
        (\<lambda>candidate.
          let t = se_telemetry s;
              s = s\<lparr>se_telemetry := t\<lparr>tm_predictive_candidates := saturating_inc64 (tm_predictive_candidates t)\<rparr>\<rparr>;
              predictor = \<lparr>sp_prediction_order = order, sp_table_strategy = layout, sp_coefficient_scale = scale,
                           sp_prune_threshold = prune, sp_filter_table_lengths = map length filters\<rparr>
          in if eo_verify opts then
               case verify_predictive_candidate candidate channels rate dsd of
                 Inr _ \<Rightarrow> Some (accept_candidate opts candidate predictor s)
               | Inl kind \<Rightarrow> Some (s\<lparr>se_saw_unverified := True,
                                  se_telemetry := record_verification_failure kind (se_telemetry s)\<rparr>)
             else Some (accept_candidate opts candidate predictor s)))"

definition search_matrix ::
  "encoder_build \<Rightarrow> u8 list \<Rightarrow> nat \<Rightarrow> dst_rate \<Rightarrow> encoder_options \<Rightarrow> nat list \<Rightarrow> search_state \<Rightarrow> search_state option" where
  "search_matrix build dsd channels rate opts orders =
     fold_opt (\<lambda>layout. fold_opt (\<lambda>order. fold_opt (\<lambda>scale.
       fold_opt (\<lambda>prune. try_candidate build dsd channels rate opts layout order scale prune)
         (candidate_prune_thresholds opts)) (candidate_scales opts)) orders)
       (candidate_layouts opts channels)"

definition record_prescreen :: "frame_prescreen option \<Rightarrow> telemetry \<Rightarrow> telemetry" where
  "record_prescreen p t =
     (case p of None \<Rightarrow> t
      | Some p \<Rightarrow> t\<lparr>tm_prescreen_sample_bytes := fp_sample_bytes p, tm_prescreen_unique_bytes := fp_unique_bytes p,
                     tm_prescreen_transition_percent := fp_transition_percent p,
                     tm_prescreen_rejected := (fp_reject_predictive p \<or> tm_prescreen_rejected t)\<rparr>)"

definition prescreen_rejects :: "frame_prescreen option \<Rightarrow> bool" where
  "prescreen_rejects p = (case p of None \<Rightarrow> False | Some p \<Rightarrow> fp_reject_predictive p)"

definition encode_predictive_search ::
  "encoder_build \<Rightarrow> u8 list \<Rightarrow> nat \<Rightarrow> dst_rate \<Rightarrow> encoder_options \<Rightarrow> telemetry \<Rightarrow>
     ((dst_encode_error + predictive_candidate) \<times> telemetry) option" where
  "encode_predictive_search build dsd channels rate opts t =
     (case dst_interleaved_frame_len_for_rate rate channels of
        Inl e \<Rightarrow> Some (Inl e, t)
      | Inr expected \<Rightarrow>
          if length dsd \<noteq> expected then Some (Inl (InvalidFrameLength expected (length dsd)), t)
          else case validate_dst_policy PredictiveGeneration rate channels of
            Inl e \<Rightarrow> Some (Inl e, t)
          | Inr _ \<Rightarrow>
              let p = fast_prescreen dsd opts; t = record_prescreen p t;
                  not_beneficial = CompressionNotBeneficial 0 (1 + length dsd) (eo_minimum_savings opts)
              in if prescreen_rejects p then Some (Inl not_beneficial, t)
                 else case candidate_orders opts of
                   Inl e \<Rightarrow> Some (Inl e, t)
                 | Inr orders \<Rightarrow>
                     Option.bind (search_matrix build dsd channels rate opts orders
                         \<lparr>se_best = None, se_saw_unverified = False, se_telemetry = t\<rparr>)
                       (\<lambda>s. Some (case se_best s of
                                Some frame \<Rightarrow> Inr frame
                              | None \<Rightarrow> if se_saw_unverified s then Inl VerificationFailed
                                        else Inl not_beneficial, se_telemetry s)))"

subsection \<open>Frame encoding\<close>

record encoded_frame =
  ef_bytes :: "u8 list"
  ef_encoding :: frame_encoding

type_synonym frame_result = "(dst_encode_error + encoded_frame) \<times> telemetry"

definition finish_encode_error :: "dst_encode_error \<Rightarrow> telemetry \<Rightarrow> (dst_encode_error + 'a) \<times> telemetry" where
  "finish_encode_error err t = (Inl err, t\<lparr>tm_terminal_error := Some (failure_class err)\<rparr>)"

definition raw_fallback_or_error ::
  "u8 list \<Rightarrow> nat \<Rightarrow> dst_rate \<Rightarrow> encoder_options \<Rightarrow> telemetry \<Rightarrow> dst_encode_error \<Rightarrow> frame_result" where
  "raw_fallback_or_error dsd channels rate opts t err =
     (let cls = failure_class err;
          allowed = (eo_raw_fallback opts = FallbackEnabled \<and>
            (cls \<noteq> FcVerificationFailed \<or> eo_verification_failure_policy opts = AllowRawFallback))
      in if allowed then
           case encode_uncompressed_frame_interleaved_with_rate dsd channels rate of
             Inr bytes \<Rightarrow> (Inr \<lparr>ef_bytes = bytes, ef_encoding = Uncompressed\<rparr>,
               t\<lparr>tm_encoded_bytes := length bytes, tm_selected_encoding := Some Uncompressed,
                 tm_raw_fallback_reason := Some cls\<rparr>)
           | Inl raw_err \<Rightarrow> (Inl raw_err, t\<lparr>tm_terminal_error := Some FcRawFallbackEncodingFailed\<rparr>)
         else (Inl err, t\<lparr>tm_terminal_error := Some cls\<rparr>))"

text \<open>\<open>encode_frame_interleaved_with_rate_and_telemetry\<close>; \<open>None\<close> would be a search that does not return.\<close>

definition encode_frame_with_telemetry ::
  "encoder_build \<Rightarrow> u8 list \<Rightarrow> nat \<Rightarrow> dst_rate \<Rightarrow> encoder_options \<Rightarrow> frame_result option" where
  "encode_frame_with_telemetry build dsd channels rate opts =
     (let t = telemetry_new (length dsd) in
      case dst_interleaved_frame_len_for_rate rate channels of
        Inl err \<Rightarrow> Some (finish_encode_error err t)
      | Inr expected \<Rightarrow>
          if length dsd \<noteq> expected then
            Some (finish_encode_error (InvalidFrameLength expected (length dsd)) t)
          else case validate_prediction_order (eo_prediction_order opts) of
            Inl err \<Rightarrow> Some (finish_encode_error err t)
          | Inr _ \<Rightarrow>
              let raw_len = tm_raw_dst_bytes t in
              case validate_dst_policy PredictiveGeneration rate channels of
                Inl err \<Rightarrow> Some (raw_fallback_or_error dsd channels rate opts t err)
              | Inr _ \<Rightarrow>
                  Option.bind (encode_predictive_search build dsd channels rate opts t) (\<lambda>(result, t).
                    case result of
                      Inl err \<Rightarrow> Some (raw_fallback_or_error dsd channels rate opts t err)
                    | Inr candidate \<Rightarrow>
                        if is_worth_using (length (pc_bytes candidate)) raw_len (eo_minimum_savings opts) then
                          Some (Inr \<lparr>ef_bytes = pc_bytes candidate, ef_encoding = Predictive\<rparr>,
                            t\<lparr>tm_encoded_bytes := length (pc_bytes candidate),
                              tm_selected_encoding := Some Predictive,
                              tm_selected_predictor := Some (pc_predictor candidate)\<rparr>)
                        else
                          Some (raw_fallback_or_error dsd channels rate opts t
                            (CompressionNotBeneficial (length (pc_bytes candidate)) raw_len
                              (eo_minimum_savings opts)))))"

definition encode_frame_interleaved_with_rate ::
  "encoder_build \<Rightarrow> u8 list \<Rightarrow> nat \<Rightarrow> dst_rate \<Rightarrow> encoder_options \<Rightarrow> (dst_encode_error + encoded_frame) option" where
  "encode_frame_interleaved_with_rate build dsd channels rate opts =
     map_option fst (encode_frame_with_telemetry build dsd channels rate opts)"

definition encode_frame_interleaved ::
  "encoder_build \<Rightarrow> u8 list \<Rightarrow> nat \<Rightarrow> encoder_options \<Rightarrow> (dst_encode_error + encoded_frame) option" where
  "encode_frame_interleaved build dsd channels opts =
     encode_frame_interleaved_with_rate build dsd channels Dsd64 opts"

text \<open>\<open>encode_predictive_frame_interleaved_with_rate_and_telemetry\<close>: no fallback, no savings check.\<close>

definition encode_predictive_frame_with_telemetry ::
  "encoder_build \<Rightarrow> u8 list \<Rightarrow> nat \<Rightarrow> dst_rate \<Rightarrow> encoder_options \<Rightarrow>
     ((dst_encode_error + u8 list) \<times> telemetry) option" where
  "encode_predictive_frame_with_telemetry build dsd channels rate opts =
     (let t = telemetry_new (length dsd) in
      case dst_interleaved_frame_len_for_rate rate channels of
        Inl err \<Rightarrow> Some (finish_encode_error err t)
      | Inr expected \<Rightarrow>
          if length dsd \<noteq> expected then
            Some (finish_encode_error (InvalidFrameLength expected (length dsd)) t)
          else case validate_dst_policy PredictiveGeneration rate channels of
            Inl err \<Rightarrow> Some (finish_encode_error err t)
          | Inr _ \<Rightarrow>
              Option.bind (encode_predictive_search build dsd channels rate opts t) (\<lambda>(result, t).
                Some (case result of
                  Inl err \<Rightarrow> finish_encode_error err t
                | Inr candidate \<Rightarrow> (Inr (pc_bytes candidate),
                    t\<lparr>tm_encoded_bytes := length (pc_bytes candidate),
                      tm_selected_encoding := Some Predictive,
                      tm_selected_predictor := Some (pc_predictor candidate)\<rparr>))))"

subsection \<open>Ordered batches\<close>

text \<open>Worker \<open>w\<close> handles the frames \<open>w\<close>, \<open>w + n\<close>, \<open>w + 2 n\<close>, ... and sends each result with its index;
  the receiving loop stores what arrives, in whatever order it does.\<close>

function worker_indices :: "nat \<Rightarrow> nat \<Rightarrow> nat \<Rightarrow> nat list" where
  "worker_indices frame_count worker_count index =
     (if index < frame_count \<and> 0 < worker_count
      then index # worker_indices frame_count worker_count (index + worker_count) else [])"
  by pat_completeness auto
termination
  by (relation "measure (\<lambda>(frame_count, _, index). frame_count - index)") auto

declare worker_indices.simps [simp del]

definition worker_sends :: "('f \<Rightarrow> 'r) \<Rightarrow> 'f list \<Rightarrow> nat \<Rightarrow> nat \<Rightarrow> (nat \<times> 'r) list" where
  "worker_sends encode frames worker_count worker =
     map (\<lambda>index. (index, encode (frames ! index))) (worker_indices (length frames) worker_count worker)"

definition collect_results :: "nat \<Rightarrow> (nat \<times> 'r) list \<Rightarrow> 'r option list" where
  "collect_results n received =
     fold (\<lambda>(index, result) ordered. ordered[index := Some result]) received (replicate n None)"

definition batch_worker_count :: "nat \<Rightarrow> encoder_options \<Rightarrow> nat \<Rightarrow> nat" where
  "batch_worker_count workers opts frame_count =
     min (max (max workers (eo_parallel_workers opts)) 1) (max frame_count 1)"

text \<open>\<open>encode_frames_interleaved_ordered\<close>: \<open>received\<close> is what the channel delivers, in its order; an entry that
  stays \<open>None\<close> is the panic of \<open>expect\<close>.\<close>

definition batch_received :: "('f \<Rightarrow> 'r) \<Rightarrow> 'f list \<Rightarrow> nat \<Rightarrow> (nat \<times> 'r) list \<Rightarrow> bool" where
  "batch_received encode frames worker_count received \<longleftrightarrow>
     mset received = mset (concat (map (worker_sends encode frames worker_count) [0..<worker_count]))"

definition encode_frames_interleaved_ordered ::
  "encoder_build \<Rightarrow> u8 list list \<Rightarrow> nat \<Rightarrow> encoder_options \<Rightarrow> nat \<Rightarrow> (nat \<times> frame_result option) list \<Rightarrow>
     frame_result option option list" where
  "encode_frames_interleaved_ordered build frames channels opts workers received =
     (if batch_worker_count workers opts (length frames) \<le> 1 \<or> length frames \<le> 1
      then map (\<lambda>frame. Some (encode_frame_with_telemetry build frame channels Dsd64 opts)) frames
      else collect_results (length frames) received)"

subsection \<open>The matrix as one list\<close>

lemma fold_opt_total:
  assumes "P 0 s"
    and "\<And>k u. k < length xs \<Longrightarrow> P k u \<Longrightarrow> \<exists>v. f (xs ! k) u = Some v \<and> P (Suc k) v"
  shows "\<exists>t. fold_opt f xs s = Some t \<and> P (length xs) t"
  using assms
proof (induction xs arbitrary: s P)
  case Nil
  then show ?case by simp
next
  case (Cons x xs)
  obtain u where u: "f x s = Some u" and Pu: "P (Suc 0) u"
    using Cons.prems(2)[of 0 s] Cons.prems(1) by auto
  have "\<exists>t. fold_opt f xs u = Some t \<and> P (Suc (length xs)) t"
  proof (rule Cons.IH[where P = "\<lambda>k. P (Suc k)", OF Pu])
    fix k u'
    assume "k < length xs" "P (Suc k) u'"
    then show "\<exists>v. f (xs ! k) u' = Some v \<and> P (Suc (Suc k)) v"
      using Cons.prems(2)[of "Suc k" u'] by simp
  qed
  with u show ?case by simp
qed

lemma fold_opt_product_fun:
  "fold_opt (\<lambda>i. fold_opt (f i) ys) xs = fold_opt (\<lambda>(i, j). f i j) (List.product xs ys)"
  by (rule ext) (rule fold_opt_product)

definition candidate_matrix ::
  "encoder_options \<Rightarrow> nat \<Rightarrow> nat list \<Rightarrow> (dst_table_strategy \<times> nat \<times> int \<times> int) list" where
  "candidate_matrix opts channels orders =
     List.product (candidate_layouts opts channels) (List.product orders
       (List.product (candidate_scales opts) (candidate_prune_thresholds opts)))"

lemma search_matrix_flat:
  "search_matrix build dsd channels rate opts orders =
     fold_opt (\<lambda>(layout, order, scale, prune). try_candidate build dsd channels rate opts layout order scale prune)
       (candidate_matrix opts channels orders)"
  unfolding search_matrix_def candidate_matrix_def fold_opt_product_fun by (simp add: split_def)

lemma set_sort_dedup [simp]: "set (sort_dedup xs) = set xs"
  by (simp add: sort_dedup_def)

lemma sort_dedup_Nil [simp]: "sort_dedup xs = [] \<longleftrightarrow> xs = []"
  by (metis set_sort_dedup set_empty)

lemma distinct_remdups_adj_sorted: "sorted xs \<Longrightarrow> distinct (remdups_adj xs)"
proof (induction xs rule: remdups_adj.induct)
  case (3 x y xs)
  show ?case
  proof (cases "x = y")
    case False
    have "x \<notin> set (y # xs)" using "3.prems" False by (auto dest: antisym)
    then show ?thesis using 3 False by simp
  qed (use 3 in simp)
qed simp_all

lemma sort_dedup_sorted: "sorted (sort_dedup xs) \<and> distinct (sort_dedup xs)"
  by (simp add: sort_dedup_def distinct_remdups_adj_sorted)

lemma candidate_orders_ok:
  assumes "candidate_orders opts = Inr orders"
  shows "orders \<noteq> [] \<and> (\<forall>order \<in> set orders. 1 \<le> order \<and> order \<le> 128)"
proof -
  have run: "fold_res (\<lambda>order _. validate_prediction_order order) orders () = Inr ()" and ne: "orders \<noteq> []"
    using assms by (auto simp: candidate_orders_def Let_def res_bind_eq_Inr_iff)
  have "fold_res (\<lambda>order _. validate_prediction_order order) xs () = Inr () \<Longrightarrow>
      \<forall>order \<in> set xs. 1 \<le> order \<and> order \<le> 128" for xs
  proof (induction xs)
    case (Cons x xs)
    from Cons.prems obtain u where "validate_prediction_order x = Inr u"
      "fold_res (\<lambda>order _. validate_prediction_order order) xs u = Inr ()"
      unfolding fold_res.simps res_bind_eq_Inr_iff by blast
    then show ?case using Cons.IH by (simp add: validate_prediction_order_def split: if_splits)
  qed simp
  from this[OF run] ne show ?thesis by simp
qed

lemma candidate_matrix_nonempty:
  assumes "orders \<noteq> []"
  shows "candidate_matrix opts channels orders \<noteq> []"
proof -
  have "candidate_scales opts \<noteq> []" "candidate_prune_thresholds opts \<noteq> []"
    by (auto simp: candidate_scales_def candidate_prune_thresholds_def Let_def default_coefficient_scales_def
        default_prune_thresholds_def split: encoder_effort.splits)
  then have "length (candidate_matrix opts channels orders) \<noteq> 0"
    using assms by (simp add: candidate_matrix_def candidate_layouts_def)
  then show ?thesis by simp
qed

subsection \<open>Every candidate verifies\<close>

text \<open>What the fit promises: one row per table, one coefficient per tap.\<close>

definition fit_ok :: "encoder_build \<Rightarrow> bool" where
  "fit_ok build \<longleftrightarrow> (\<forall>dsd channels layout order scale.
     length (lpc_rows build dsd channels layout order scale) = (if layout = PerChannel then channels else 1)
     \<and> (\<forall>row \<in> set (lpc_rows build dsd channels layout order scale). length row = order))"

text \<open>A coefficient of the fit that saturates to \<open>i32::MIN\<close>, in a build where that panics.\<close>

definition fit_overflows :: "encoder_build \<Rightarrow> u8 list \<Rightarrow> nat \<Rightarrow> dst_table_strategy \<times> nat \<times> int \<times> int \<Rightarrow> bool" where
  "fit_overflows build dsd channels = (\<lambda>(layout, order, scale, prune). overflow_checks build
     \<and> (\<exists>row \<in> set (lpc_rows build dsd channels layout order scale). \<exists>v \<in> set row. v \<le> i32_min))"

lemma quantize_coefficient_value:
  "quantize_coefficient checks prune v = None \<longleftrightarrow> checks \<and> v \<le> i32_min"
  "quantize_coefficient checks prune v = Some q \<Longrightarrow> -255 \<le> q \<and> q \<le> 255"
  by (auto simp: quantize_coefficient_def i32_abs_def as_i32_def i32_min_def Let_def split: if_splits)

lemma quantize_coefficients_panics:
  "quantize_coefficients checks rounded prune = None \<longleftrightarrow> checks \<and> (\<exists>v \<in> set rounded. v \<le> i32_min)"
proof -
  have "opt_map (quantize_coefficient checks prune) rounded = None
      \<longleftrightarrow> (\<exists>v \<in> set rounded. quantize_coefficient checks prune v = None)"
    by (induction rounded) (auto split: bind_splits)
  then show ?thesis by (auto simp: quantize_coefficients_def quantize_coefficient_value(1))
qed

text \<open>In a build without checks the least value counts as small: it is pruned, not clamped to \<open>-255\<close>.\<close>

lemma quantize_least_value:
  assumes "0 \<le> prune" and "v \<le> i32_min"
  shows "quantize_coefficient False prune v = Some 0" and "quantize_coefficient True prune v = None"
  using assms by (auto simp: quantize_coefficient_def i32_abs_def as_i32_def i32_min_def)

lemma quantize_coefficients_range:
  assumes "quantize_coefficients checks rounded prune = Some t" and "rounded \<noteq> []"
  shows "1 \<le> length t \<and> length t \<le> length rounded \<and> (\<forall>c \<in> set t. -255 \<le> c \<and> c \<le> 255)"
proof -
  obtain q where q: "opt_map (quantize_coefficient checks prune) rounded = Some q"
    and t: "t = (if pop_trailing 0 q = [] then [0] else pop_trailing 0 q)"
    using assms(1) by (auto simp: quantize_coefficients_def Let_def)
  have all: "list_all2 (\<lambda>v c. quantize_coefficient checks prune v = Some c) rounded q"
    using q by (simp add: opt_map_eq_Some)
  then have len: "length q = length rounded" by (metis list_all2_lengthD)
  then have "q \<noteq> []" using assms(2) by auto
  from pop_trailing_props[OF this, of 0]
  have p: "pop_trailing 0 q \<noteq> []" "length (pop_trailing 0 q) \<le> length q" "set (pop_trailing 0 q) \<subseteq> set q" by auto
  have "\<forall>c \<in> set q. -255 \<le> c \<and> c \<le> 255"
    using all quantize_coefficient_value(2) by (fastforce simp: list_all2_conv_all_nth in_set_conv_nth)
  moreover have "1 \<le> length (pop_trailing 0 q)" using p(1) by (simp add: Suc_leI)
  ultimately show ?thesis using p t len by auto
qed

definition candidate_filters ::
  "encoder_build \<Rightarrow> u8 list \<Rightarrow> nat \<Rightarrow> dst_table_strategy \<times> nat \<times> int \<times> int \<Rightarrow> int list list option" where
  "candidate_filters build dsd channels = (\<lambda>(layout, order, scale, prune).
     opt_map (\<lambda>row. quantize_coefficients (overflow_checks build) row prune)
       (lpc_rows build dsd channels layout order scale))"

definition candidate_bytes ::
  "encoder_build \<Rightarrow> u8 list \<Rightarrow> nat \<Rightarrow> dst_table_strategy \<times> nat \<times> int \<times> int \<Rightarrow> u8 list option" where
  "candidate_bytes build dsd channels m =
     Option.bind (candidate_filters build dsd channels m) (\<lambda>filters.
       encode_predictive_candidate dsd channels filters (table_for_channel (fst m) channels) (fst m))"

lemma candidate_filters_panic: "candidate_filters build dsd channels m = None \<longleftrightarrow> fit_overflows build dsd channels m"
proof -
  obtain layout order scale prune where m: "m = (layout, order, scale, prune)" by (cases m) auto
  have "opt_map (\<lambda>row. quantize_coefficients (overflow_checks build) row prune) rows = None
      \<longleftrightarrow> (\<exists>row \<in> set rows. quantize_coefficients (overflow_checks build) row prune = None)" for rows
    by (induction rows) (auto split: bind_splits)
  then show ?thesis by (auto simp: candidate_filters_def fit_overflows_def m quantize_coefficients_panics)
qed

lemma candidate_filters_ok:
  assumes "fit_ok build" and "1 \<le> order" and "order \<le> 128"
    and f: "candidate_filters build dsd channels (layout, order, scale, prune) = Some filters"
  shows "filters_ok channels filters layout"
proof -
  let ?rows = "lpc_rows build dsd channels layout order scale"
  have len: "length ?rows = (if layout = PerChannel then channels else 1)"
    and row: "\<And>row. row \<in> set ?rows \<Longrightarrow> length row = order"
    using assms(1) by (auto simp: fit_ok_def)
  have all: "list_all2 (\<lambda>row t. quantize_coefficients (overflow_checks build) row prune = Some t) ?rows filters"
    using f by (simp add: candidate_filters_def opt_map_eq_Some)
  have "1 \<le> length t \<and> length t \<le> 128 \<and> (\<forall>c \<in> set t. -256 \<le> c \<and> c \<le> 255)" if mem: "t \<in> set filters" for t
  proof -
    obtain k where k: "k < length filters" "filters ! k = t" using mem by (auto simp: in_set_conv_nth)
    have "k < length ?rows" using k(1) list_all2_lengthD[OF all] by simp
    then obtain row where r: "row \<in> set ?rows" "quantize_coefficients (overflow_checks build) row prune = Some t"
      using list_all2_nthD[OF all] k(2) nth_mem by blast
    have "row \<noteq> []" using row[OF r(1)] assms(2) by auto
    from quantize_coefficients_range[OF r(2) this] row[OF r(1)] assms(3) show ?thesis by fastforce
  qed
  moreover have "length filters = length ?rows" using all by (metis list_all2_lengthD)
  ultimately show ?thesis using len by (auto simp: filters_ok_def)
qed

lemma try_candidate_panics:
  assumes "fit_overflows build dsd channels (layout, order, scale, prune)"
  shows "try_candidate build dsd channels rate opts layout order scale prune s = None"
  using assms unfolding candidate_filters_panic[symmetric] by (simp add: try_candidate_def candidate_filters_def)

lemma try_candidate_accepts:
  fixes layout :: dst_table_strategy and scale prune :: int
  assumes fit: "fit_ok build" and ch: "1 \<le> channels" "channels \<le> 6" and len: "length dsd = frame_bytes_dsd64 * channels"
    and order: "1 \<le> order" "order \<le> 128"
  defines "m \<equiv> (layout, order, scale, prune)"
  assumes range: "\<not> fit_overflows build dsd channels m"
  shows "\<exists>bytes filters. candidate_bytes build dsd channels m = Some bytes
    \<and> decode_frame_with_rate bytes channels Dsd64 = Inr dsd \<and> candidate_filters build dsd channels m = Some filters
    \<and> try_candidate build dsd channels Dsd64 opts layout order scale prune s
      = Some (accept_candidate opts bytes
          \<lparr>sp_prediction_order = order, sp_table_strategy = layout, sp_coefficient_scale = scale,
           sp_prune_threshold = prune, sp_filter_table_lengths = map length filters\<rparr>
          (s\<lparr>se_telemetry := (se_telemetry s)\<lparr>tm_predictive_candidates :=
             saturating_inc64 (tm_predictive_candidates (se_telemetry s))\<rparr>\<rparr>))"
proof -
  obtain filters where filters: "candidate_filters build dsd channels m = Some filters"
    using range unfolding candidate_filters_panic[symmetric] by blast
  have f: "filters_ok channels filters layout"
    by (rule candidate_filters_ok[OF fit order]) (use filters in \<open>simp add: m_def\<close>)
  then have "[] \<notin> set filters" by (auto simp: filters_ok_def)
  moreover obtain bytes where b: "encode_predictive_candidate dsd channels filters (table_for_channel layout channels) layout
      = Some bytes" "decode_frame_with_rate bytes channels Dsd64 = Inr dsd"
    using candidate_decodes[OF ch f len] by blast
  moreover have "verify_predictive_candidate bytes channels Dsd64 dsd = Inr ()"
    using b(2) by (simp add: verify_predictive_candidate_def)
  ultimately show ?thesis using filters
    by (simp add: try_candidate_def candidate_bytes_def m_def candidate_filters_def Let_def)
qed

text \<open>After \<open>k\<close> candidates of the matrix, all of them verified.\<close>

definition search_inv ::
  "encoder_build \<Rightarrow> u8 list \<Rightarrow> nat \<Rightarrow> (dst_table_strategy \<times> nat \<times> int \<times> int) list \<Rightarrow> telemetry \<Rightarrow> nat \<Rightarrow> search_state \<Rightarrow> bool" where
  "search_inv build dsd channels ms t0 k s \<longleftrightarrow> \<not> se_saw_unverified s
     \<and> tm_verification_failures (se_telemetry s) = tm_verification_failures t0
     \<and> tm_verified_candidates (se_telemetry s) = tm_predictive_candidates (se_telemetry s)
     \<and> (if k = 0 then se_best s = None
        else \<exists>c. se_best s = Some c \<and> decode_frame_with_rate (pc_bytes c) channels Dsd64 = Inr dsd
          \<and> (\<exists>j < k. candidate_bytes build dsd channels (ms ! j) = Some (pc_bytes c))
          \<and> (\<forall>j < k. \<exists>bytes. candidate_bytes build dsd channels (ms ! j) = Some bytes
               \<and> length (pc_bytes c) \<le> length bytes))"

lemma accept_candidate_fields:
  "se_saw_unverified (accept_candidate opts b p s) = se_saw_unverified s"
  "tm_verification_failures (se_telemetry (accept_candidate opts b p s)) = tm_verification_failures (se_telemetry s)"
  "tm_verified_candidates (se_telemetry (accept_candidate opts b p s))
     = saturating_inc64 (tm_verified_candidates (se_telemetry s))"
  "tm_predictive_candidates (se_telemetry (accept_candidate opts b p s)) = tm_predictive_candidates (se_telemetry s)"
  "se_best (accept_candidate opts b p s) = (case se_best s of
      None \<Rightarrow> Some \<lparr>pc_bytes = b, pc_predictor = p\<rparr>
    | Some c \<Rightarrow> if length b < length (pc_bytes c) then Some \<lparr>pc_bytes = b, pc_predictor = p\<rparr> else Some c)"
  by (simp_all add: accept_candidate_def Let_def)

lemma search_matrix_correct:
  assumes fit: "fit_ok build" and ch: "1 \<le> channels" "channels \<le> 6" and len: "length dsd = frame_bytes_dsd64 * channels"
    and orders: "orders \<noteq> []" "\<forall>order \<in> set orders. 1 \<le> order \<and> order \<le> 128"
    and t: "tm_verified_candidates t = tm_predictive_candidates t"
    and range: "\<forall>m \<in> set (candidate_matrix opts channels orders). \<not> fit_overflows build dsd channels m"
  shows "\<exists>s. search_matrix build dsd channels Dsd64 opts orders
      \<lparr>se_best = None, se_saw_unverified = False, se_telemetry = t\<rparr> = Some s
    \<and> search_inv build dsd channels (candidate_matrix opts channels orders) t
        (length (candidate_matrix opts channels orders)) s"
  unfolding search_matrix_flat
proof (rule fold_opt_total)
  let ?ms = "candidate_matrix opts channels orders"
  show "search_inv build dsd channels ?ms t 0 \<lparr>se_best = None, se_saw_unverified = False, se_telemetry = t\<rparr>"
    using t by (simp add: search_inv_def)
  fix k s
  assume k: "k < length ?ms" and inv: "search_inv build dsd channels ?ms t k s"
  obtain layout order scale prune where m: "?ms ! k = (layout, order, scale, prune)" by (cases "?ms ! k") auto
  have mem: "(layout, order, scale, prune) \<in> set ?ms" using k m nth_mem by metis
  then have "order \<in> set orders" by (auto simp: candidate_matrix_def)
  then have o: "1 \<le> order" "order \<le> 128" using orders(2) by auto
  let ?s = "s\<lparr>se_telemetry := (se_telemetry s)\<lparr>tm_predictive_candidates :=
             saturating_inc64 (tm_predictive_candidates (se_telemetry s))\<rparr>\<rparr>"
  obtain bytes p where b: "candidate_bytes build dsd channels (?ms ! k) = Some bytes"
      "decode_frame_with_rate bytes channels Dsd64 = Inr dsd"
    and step: "try_candidate build dsd channels Dsd64 opts layout order scale prune s = Some (accept_candidate opts bytes p ?s)"
    using try_candidate_accepts[OF fit ch len o, of layout scale prune opts s] range mem unfolding m by blast
  have inv': "search_inv build dsd channels ?ms t (Suc k) (accept_candidate opts bytes p ?s)"
  proof (cases "k = 0")
    case True
    then show ?thesis using inv b by (simp add: search_inv_def accept_candidate_fields)
  next
    case False
    then obtain c where c: "se_best s = Some c" "decode_frame_with_rate (pc_bytes c) channels Dsd64 = Inr dsd"
      "\<exists>j < k. candidate_bytes build dsd channels (?ms ! j) = Some (pc_bytes c)"
      "\<forall>j < k. \<exists>bytes. candidate_bytes build dsd channels (?ms ! j) = Some bytes \<and> length (pc_bytes c) \<le> length bytes"
      using inv by (auto simp: search_inv_def)
    show ?thesis
    proof (cases "length bytes < length (pc_bytes c)")
      case True
      have "\<forall>j < Suc k. \<exists>b'. candidate_bytes build dsd channels (?ms ! j) = Some b' \<and> length bytes \<le> length b'"
        using c(4) b(1) True by (auto simp: less_Suc_eq)
      then show ?thesis using inv b c(1) True by (auto simp: search_inv_def accept_candidate_fields)
    next
      case nlt: False
      have "\<forall>j < Suc k. \<exists>b'. candidate_bytes build dsd channels (?ms ! j) = Some b' \<and> length (pc_bytes c) \<le> length b'"
        using c(4) b(1) nlt by (auto simp: less_Suc_eq)
      moreover have "\<exists>j < Suc k. candidate_bytes build dsd channels (?ms ! j) = Some (pc_bytes c)"
        using c(3) less_SucI by blast
      ultimately show ?thesis using inv c(1,2) nlt by (simp add: search_inv_def accept_candidate_fields)
    qed
  qed
  show "\<exists>v. (case ?ms ! k of (layout, order, scale, prune) \<Rightarrow>
      try_candidate build dsd channels Dsd64 opts layout order scale prune) s = Some v
      \<and> search_inv build dsd channels ?ms t (Suc k) v"
    unfolding m using step inv' by simp
qed

subsection \<open>What the search returns\<close>

lemma predictive_policy:
  assumes "validate_dst_policy PredictiveGeneration rate channels = Inr u"
  shows "rate = Dsd64 \<and> 1 \<le> channels \<and> channels \<le> 6"
  using assms
  by (auto simp: validate_dst_policy_def res_bind_eq_Inr_iff enc_validate_channel_count_def
      is_legal_dst_channel_count_def split: if_splits)

lemma predictive_length:
  "1 \<le> channels \<Longrightarrow> channels \<le> 6 \<Longrightarrow>
     dst_interleaved_frame_len_for_rate Dsd64 channels = Inr (frame_bytes_dsd64 * channels)"
  by (simp add: dst_interleaved_frame_len_value frame_bytes_dsd64_def)

lemma record_prescreen_counts [simp]:
  "tm_verified_candidates (record_prescreen p t) = tm_verified_candidates t"
  "tm_predictive_candidates (record_prescreen p t) = tm_predictive_candidates t"
  "tm_verification_failures (record_prescreen p t) = tm_verification_failures t"
  "tm_raw_dst_bytes (record_prescreen p t) = tm_raw_dst_bytes t"
  by (cases p; simp add: record_prescreen_def)+

lemma search_run:
  assumes fit: "fit_ok build" and policy: "validate_dst_policy PredictiveGeneration rate channels = Inr ()"
    and len: "dst_interleaved_frame_len_for_rate rate channels = Inr (length dsd)"
    and pre: "\<not> prescreen_rejects (fast_prescreen dsd opts)" and orders: "candidate_orders opts = Inr orders"
    and t: "tm_verified_candidates t = tm_predictive_candidates t"
    and range: "\<forall>m \<in> set (candidate_matrix opts channels orders). \<not> fit_overflows build dsd channels m"
  shows "\<exists>c t'. encode_predictive_search build dsd channels rate opts t = Some (Inr c, t')
    \<and> decode_frame_with_rate (pc_bytes c) channels rate = Inr dsd
    \<and> (\<exists>m \<in> set (candidate_matrix opts channels orders). candidate_bytes build dsd channels m = Some (pc_bytes c))
    \<and> (\<forall>m \<in> set (candidate_matrix opts channels orders). \<exists>bytes.
         candidate_bytes build dsd channels m = Some bytes \<and> length (pc_bytes c) \<le> length bytes)
    \<and> tm_verification_failures t' = tm_verification_failures t
    \<and> tm_verified_candidates t' = tm_predictive_candidates t'"
proof -
  have p: "rate = Dsd64" "1 \<le> channels" "channels \<le> 6" using predictive_policy[OF policy] by auto
  have l: "length dsd = frame_bytes_dsd64 * channels" using len predictive_length[OF p(2,3)] p(1) by simp
  let ?ms = "candidate_matrix opts channels orders"
  let ?t = "record_prescreen (fast_prescreen dsd opts) t"
  have o: "orders \<noteq> []" "\<forall>order \<in> set orders. 1 \<le> order \<and> order \<le> 128"
    using candidate_orders_ok[OF orders] by auto
  have t': "tm_verified_candidates ?t = tm_predictive_candidates ?t" using t by simp
  obtain s where s: "search_matrix build dsd channels Dsd64 opts orders
      \<lparr>se_best = None, se_saw_unverified = False, se_telemetry = ?t\<rparr> = Some s"
    "search_inv build dsd channels ?ms ?t (length ?ms) s"
    using search_matrix_correct[OF fit p(2,3) l o t' range] by blast
  have "length ?ms \<noteq> 0" using candidate_matrix_nonempty[OF o(1)] by simp
  then obtain c where c: "se_best s = Some c" "decode_frame_with_rate (pc_bytes c) channels Dsd64 = Inr dsd"
    "\<exists>j < length ?ms. candidate_bytes build dsd channels (?ms ! j) = Some (pc_bytes c)"
    "\<forall>j < length ?ms. \<exists>bytes. candidate_bytes build dsd channels (?ms ! j) = Some bytes
       \<and> length (pc_bytes c) \<le> length bytes"
    and f: "tm_verification_failures (se_telemetry s) = tm_verification_failures t"
      "tm_verified_candidates (se_telemetry s) = tm_predictive_candidates (se_telemetry s)"
    using s(2) by (auto simp: search_inv_def)
  have run: "encode_predictive_search build dsd channels rate opts t = Some (Inr c, se_telemetry s)"
    using len policy pre orders s(1) c(1) p(1) by (simp add: encode_predictive_search_def Let_def)
  have "\<exists>m \<in> set ?ms. candidate_bytes build dsd channels m = Some (pc_bytes c)" using c(3) nth_mem by blast
  moreover have "\<forall>m \<in> set ?ms. \<exists>bytes. candidate_bytes build dsd channels m = Some bytes
      \<and> length (pc_bytes c) \<le> length bytes"
    using c(4) by (metis in_set_conv_nth)
  ultimately show ?thesis using run c(2) f p(1) by blast
qed

lemma search_panics:
  assumes policy: "validate_dst_policy PredictiveGeneration rate channels = Inr ()"
    and len: "dst_interleaved_frame_len_for_rate rate channels = Inr (length dsd)"
    and pre: "\<not> prescreen_rejects (fast_prescreen dsd opts)" and orders: "candidate_orders opts = Inr orders"
    and m: "m \<in> set (candidate_matrix opts channels orders)" "fit_overflows build dsd channels m"
  shows "encode_predictive_search build dsd channels rate opts t = None"
proof -
  have "search_matrix build dsd channels rate opts orders s = None" for s
    unfolding search_matrix_flat
    by (rule fold_opt_panics[OF m(1)]) (use m(2) try_candidate_panics in \<open>cases m; simp\<close>)
  then show ?thesis using policy len pre orders by (simp add: encode_predictive_search_def Let_def)
qed

text \<open>Some candidate of the matrix has a coefficient whose absolute value overflows and panics.\<close>

definition search_overflows :: "encoder_build \<Rightarrow> u8 list \<Rightarrow> nat \<Rightarrow> encoder_options \<Rightarrow> bool" where
  "search_overflows build dsd channels opts \<longleftrightarrow> (\<exists>orders. candidate_orders opts = Inr orders
     \<and> (\<exists>m \<in> set (candidate_matrix opts channels orders). fit_overflows build dsd channels m))"

lemma search_entry:
  assumes "\<not> (dst_interleaved_frame_len_for_rate rate channels = Inr (length dsd)
    \<and> (\<exists>u. validate_dst_policy PredictiveGeneration rate channels = Inr u)
    \<and> \<not> prescreen_rejects (fast_prescreen dsd opts) \<and> (\<exists>orders. candidate_orders opts = Inr orders))"
  shows "\<exists>e t'. encode_predictive_search build dsd channels rate opts t = Some (Inl e, t') \<and> e \<noteq> VerificationFailed"
proof -
  have v: "validate_dst_policy PredictiveGeneration rate channels = Inl e \<Longrightarrow> e \<noteq> VerificationFailed" for e
    by (auto simp: validate_dst_policy_def res_bind_eq_Inl_iff enc_validate_channel_count_def split: if_splits)
  have l: "dst_interleaved_frame_len_for_rate rate channels = Inl e \<Longrightarrow> e \<noteq> VerificationFailed" for e
    by (auto simp: dst_interleaved_frame_len_for_rate_def res_bind_eq_Inl_iff enc_validate_channel_count_def ok_or_def
        split: if_splits option.splits)
  have o: "candidate_orders opts = Inl e \<Longrightarrow> e \<noteq> VerificationFailed" for e
  proof -
    have "fold_res (\<lambda>order _. validate_prediction_order order) xs () = Inl e \<Longrightarrow> e \<noteq> VerificationFailed" for xs
    proof (induction xs)
      case (Cons x xs)
      from Cons.prems show ?case
        unfolding fold_res.simps res_bind_eq_Inl_iff
        using Cons.IH by (auto simp: validate_prediction_order_def split: if_splits)
    qed simp
    then show "candidate_orders opts = Inl e \<Longrightarrow> e \<noteq> VerificationFailed"
      by (auto simp: candidate_orders_def Let_def res_bind_eq_Inl_iff)
  qed
  show ?thesis using assms l v o
    by (cases "dst_interleaved_frame_len_for_rate rate channels";
        cases "validate_dst_policy PredictiveGeneration rate channels"; cases "candidate_orders opts")
      (auto simp: encode_predictive_search_def Let_def)
qed

lemma search_sound:
  assumes fit: "fit_ok build" and t: "tm_verified_candidates t = tm_predictive_candidates t"
  shows "case encode_predictive_search build dsd channels rate opts t of
      None \<Rightarrow> search_overflows build dsd channels opts
    | Some (Inr c, t') \<Rightarrow> decode_frame_with_rate (pc_bytes c) channels rate = Inr dsd
    | Some (Inl e, t') \<Rightarrow> e \<noteq> VerificationFailed"
proof (cases "dst_interleaved_frame_len_for_rate rate channels = Inr (length dsd)
    \<and> (\<exists>u. validate_dst_policy PredictiveGeneration rate channels = Inr u)
    \<and> \<not> prescreen_rejects (fast_prescreen dsd opts) \<and> (\<exists>orders. candidate_orders opts = Inr orders)")
  case True
  then obtain orders where o: "candidate_orders opts = Inr orders" by blast
  have c: "validate_dst_policy PredictiveGeneration rate channels = Inr ()"
    "dst_interleaved_frame_len_for_rate rate channels = Inr (length dsd)"
    "\<not> prescreen_rejects (fast_prescreen dsd opts)" using True by auto
  show ?thesis
  proof (cases "\<exists>m \<in> set (candidate_matrix opts channels orders). fit_overflows build dsd channels m")
    case True
    then obtain m where m: "m \<in> set (candidate_matrix opts channels orders)" "fit_overflows build dsd channels m" by blast
    have "search_overflows build dsd channels opts" using o m by (auto simp: search_overflows_def)
    then show ?thesis using search_panics[OF c o m] by simp
  next
    case False
    then have range: "\<forall>m \<in> set (candidate_matrix opts channels orders). \<not> fit_overflows build dsd channels m" by blast
    from search_run[OF fit c o t range] show ?thesis by force
  qed
next
  case False
  from search_entry[OF this, of build t] show ?thesis by force
qed

text \<open>Verification on or off: the same candidates are accepted.\<close>

lemma accept_candidate_verify: "accept_candidate (opts\<lparr>eo_verify := v\<rparr>) = accept_candidate opts"
  by (intro ext) (simp add: accept_candidate_def)

lemma fold_opt_cong:
  "(\<And>x s. x \<in> set xs \<Longrightarrow> f x s = g x s) \<Longrightarrow> fold_opt f xs s = fold_opt g xs s"
proof (induction xs arbitrary: s)
  case (Cons x xs)
  then show ?case by (cases "g x s") auto
qed simp

lemma candidate_lists_verify [simp]:
  "candidate_layouts (opts\<lparr>eo_verify := v\<rparr>) channels = candidate_layouts opts channels"
  "candidate_scales (opts\<lparr>eo_verify := v\<rparr>) = candidate_scales opts"
  "candidate_prune_thresholds (opts\<lparr>eo_verify := v\<rparr>) = candidate_prune_thresholds opts"
  "candidate_orders (opts\<lparr>eo_verify := v\<rparr>) = candidate_orders opts"
  "fast_prescreen dsd (opts\<lparr>eo_verify := v\<rparr>) = fast_prescreen dsd opts"
  by (simp_all add: candidate_layouts_def candidate_scales_def candidate_prune_thresholds_def candidate_orders_def
      fast_prescreen_def)

lemma search_verify_irrelevant:
  assumes fit: "fit_ok build"
  shows "encode_predictive_search build dsd channels rate (opts\<lparr>eo_verify := v\<rparr>) t
    = encode_predictive_search build dsd channels rate opts t"
proof (cases "dst_interleaved_frame_len_for_rate rate channels = Inr (length dsd)
    \<and> (\<exists>u. validate_dst_policy PredictiveGeneration rate channels = Inr u) \<and> (\<exists>orders. candidate_orders opts = Inr orders)")
  case False
  then show ?thesis
    by (auto simp: encode_predictive_search_def Let_def split: sum.splits)
next
  case True
  then obtain orders where orders: "candidate_orders opts = Inr orders" by blast
  have p: "rate = Dsd64" "1 \<le> channels" "channels \<le> 6" using predictive_policy True by blast+
  have l: "length dsd = frame_bytes_dsd64 * channels" using True predictive_length[OF p(2,3)] p(1) by simp
  have sm: "search_matrix build dsd channels rate (opts\<lparr>eo_verify := v\<rparr>) orders = search_matrix build dsd channels rate opts orders"
  proof (rule ext)
    fix s
    show "search_matrix build dsd channels rate (opts\<lparr>eo_verify := v\<rparr>) orders s = search_matrix build dsd channels rate opts orders s"
      unfolding search_matrix_flat candidate_matrix_def candidate_lists_verify
    proof (rule fold_opt_cong)
      fix m s
      assume m: "m \<in> set (List.product (candidate_layouts opts channels) (List.product orders
         (List.product (candidate_scales opts) (candidate_prune_thresholds opts))))"
      obtain layout order scale prune where mm: "m = (layout, order, scale, prune)" by (cases m) auto
      have o: "1 \<le> order" "order \<le> 128" using m mm candidate_orders_ok[OF orders] by auto
      show "(case m of (layout, order, scale, prune) \<Rightarrow>
          try_candidate build dsd channels rate (opts\<lparr>eo_verify := v\<rparr>) layout order scale prune) s
        = (case m of (layout, order, scale, prune) \<Rightarrow> try_candidate build dsd channels rate opts layout order scale prune) s"
      proof (cases "fit_overflows build dsd channels m")
        case True
        then show ?thesis using try_candidate_panics unfolding mm split by metis
      next
        case False
        then show ?thesis
          using try_candidate_accepts[OF fit p(2,3) l o, of layout scale prune "opts\<lparr>eo_verify := v\<rparr>" s]
            try_candidate_accepts[OF fit p(2,3) l o, of layout scale prune opts s]
          unfolding mm split p(1) accept_candidate_verify by auto
      qed
    qed
  qed
  have sav: "eo_minimum_savings (opts\<lparr>eo_verify := v\<rparr>) = eo_minimum_savings opts" by simp
  show ?thesis
    unfolding encode_predictive_search_def Let_def candidate_lists_verify orders sum.case sm sav ..
qed

end
