(* ===== verification/DstEncoderTheorems.thy ===== *)
theory DstEncoderTheorems
  imports DstEncoder
begin

text \<open>
  The properties of the DST encoder of \<open>dst/encoder.rs\<close> above one candidate: the search keeps the smallest
  candidate, verification never rejects one, what a frame call may return, the order of a parallel batch,
  the candidate matrix and the pre-screen.
\<close>

subsection \<open>Workers and their indices\<close>

lemma worker_indices_set:
  "set (worker_indices n wc i) = {k. i \<le> k \<and> k < n \<and> k mod wc = i mod wc}" if "0 < wc"
  using that
proof (induction n wc i rule: worker_indices.induct)
  case (1 n wc i)
  show ?case
  proof (cases "i < n")
    case True
    have "{k. i \<le> k \<and> k < n \<and> k mod wc = i mod wc} = insert i {k. i + wc \<le> k \<and> k < n \<and> k mod wc = (i + wc) mod wc}"
    proof -
      have "i + wc \<le> k" if "i \<le> k" "k mod wc = i mod wc" "k \<noteq> i" for k
      proof -
        have "wc dvd k - i" using that(1,2) by (metis mod_eq_dvd_iff_nat)
        then obtain d where "k - i = wc * d" by (elim dvdE)
        moreover have "d \<noteq> 0" using calculation that(1,3) by (intro notI) simp
        ultimately have "wc \<le> k - i" by simp
        then show ?thesis using that(1) by simp
      qed
      then show ?thesis using True by auto
    qed
    then show ?thesis using 1 True by (subst worker_indices.simps) simp
  next
    case False
    then show ?thesis by (subst worker_indices.simps) auto
  qed
qed

lemma worker_indices_distinct: "distinct (worker_indices n wc i)"
proof (induction n wc i rule: worker_indices.induct)
  case (1 n wc i)
  show ?case
  proof (cases "i < n \<and> 0 < wc")
    case True
    then have "i \<notin> set (worker_indices n wc (i + wc))" using worker_indices_set[of wc n "i + wc"] by auto
    then show ?thesis using 1 True by (subst worker_indices.simps) simp
  next
    case False
    then have "worker_indices n wc i = []" by (subst worker_indices.simps) simp
    then show ?thesis by simp
  qed
qed

lemma collect_results_nth:
  assumes "distinct (map fst rs)" and "(i, r) \<in> set rs" and "i < n"
  shows "collect_results n rs ! i = Some r"
proof -
  have len: "length (fold (\<lambda>(index, result) ordered. ordered[index := Some result]) rs ys) = length ys"
    for rs :: "(nat \<times> 'a) list" and ys
    by (induction rs arbitrary: ys) auto
  have keep: "i \<notin> fst ` set rs \<Longrightarrow>
      fold (\<lambda>(index, result) ordered. ordered[index := Some result]) rs ys ! i = ys ! i" for rs :: "(nat \<times> 'a) list" and ys
    by (induction rs arbitrary: ys) auto
  have "i < length ys \<Longrightarrow> fold (\<lambda>(index, result) ordered. ordered[index := Some result]) rs ys ! i = Some r" for ys
    using assms(1,2)
  proof (induction rs arbitrary: ys)
    case (Cons x rs)
    then show ?case using keep[of rs] by (cases x) force
  qed simp
  then show ?thesis using assms(3) by (simp add: collect_results_def)
qed

lemma collect_results_length [simp]: "length (collect_results n rs) = n"
proof -
  have "length (fold (\<lambda>(index, result) ordered. ordered[index := Some result]) rs ys) = length ys" for ys
    by (induction rs arbitrary: ys) auto
  then show ?thesis by (simp add: collect_results_def)
qed

lemma worker_sends_all:
  fixes f :: "'f \<Rightarrow> 'r" and frames :: "'f list"
  assumes "0 < wc"
  defines "sent \<equiv> concat (map (worker_sends f frames wc) [0..<wc])"
  shows "distinct (map fst sent)" and "set sent = (\<lambda>i. (i, f (frames ! i))) ` {..<length frames}"
proof -
  let ?idx = "\<lambda>w. worker_indices (length frames) wc w"
  have fst_w: "map fst (worker_sends f frames wc w) = ?idx w" for w
    by (simp add: worker_sends_def comp_def)
  have sw: "set (?idx w) = {k. k < length frames \<and> k mod wc = w}" if "w < wc" for w
  proof -
    have "w \<le> k" if "k mod wc = w" for k using that mod_less_eq_dividend by blast
    then show ?thesis using worker_indices_set[OF assms(1), of "length frames" w] that by auto
  qed
  have dis: "distinct (concat (map ?idx [0..<m]))" if "m \<le> wc" for m
    using that
  proof (induction m)
    case (Suc m)
    then show ?case using worker_indices_distinct by (auto simp: sw)
  qed simp
  have "map fst sent = concat (map ?idx [0..<wc])" by (simp add: sent_def map_concat comp_def fst_w)
  then show "distinct (map fst sent)" using dis[of wc] by simp
  have "set sent = (\<lambda>i. (i, f (frames ! i))) ` (\<Union>w < wc. set (?idx w))"
    by (auto simp: sent_def worker_sends_def image_UN)
  also have "(\<Union>w < wc. set (?idx w)) = {..<length frames}"
    using assms(1) by (auto simp: sw)
  finally show "set sent = (\<lambda>i. (i, f (frames ! i))) ` {..<length frames}" .
qed

lemma collect_batch:
  assumes "0 < wc" and "batch_received f frames wc received"
  shows "collect_results (length frames) received = map (\<lambda>frame. Some (f frame)) frames"
proof (rule nth_equalityI)
  let ?sent = "concat (map (worker_sends f frames wc) [0..<wc])"
  have m: "mset received = mset ?sent" using assms(2) by (simp add: batch_received_def)
  then have "set received = set ?sent" by (metis set_mset_mset)
  moreover have "distinct (map fst received)"
    using m worker_sends_all(1)[OF assms(1), of f frames] by (metis mset_map mset_eq_imp_distinct_iff)
  ultimately show "collect_results (length frames) received ! i = map (\<lambda>frame. Some (f frame)) frames ! i"
    if "i < length (collect_results (length frames) received)" for i
    using that worker_sends_all(2)[OF assms(1), of f frames] by (auto intro!: collect_results_nth)
qed simp





text \<open>C28: a parallel batch returns the frames' results in frame order, whatever order the worker threads deliver
  them in, and no entry is missing (the \<open>expect\<close> cannot panic).\<close>

theorem ordered_batch_in_order:
  assumes "batch_received (\<lambda>frame. encode_frame_with_telemetry build frame channels Dsd64 opts) frames
    (batch_worker_count workers opts (length frames)) received"
  shows "encode_frames_interleaved_ordered build frames channels opts workers received
    = map (\<lambda>frame. Some (encode_frame_with_telemetry build frame channels Dsd64 opts)) frames"
proof -
  have "0 < batch_worker_count workers opts (length frames)" by (simp add: batch_worker_count_def less_max_iff_disj)
  from collect_batch[OF this assms] show ?thesis by (simp add: encode_frames_interleaved_ordered_def)
qed

definition empty_build :: encoder_build where
  "empty_build = \<lparr>lpc_rows = \<lambda>_ _ _ _ _. [], overflow_checks = True\<rparr>"

theorem ordered_batch_in_order_witness:
  "encode_frames_interleaved_ordered empty_build [[1], [2], [3]] 2 encoder_options_default 2
     (map (\<lambda>i. (i, encode_frame_with_telemetry empty_build [of_nat i + 1] 2 Dsd64 encoder_options_default)) [1, 2, 0])
   = map (\<lambda>frame. Some (encode_frame_with_telemetry empty_build frame 2 Dsd64 encoder_options_default))
       [[1], [2], [3]]"
  by (rule ordered_batch_in_order)
    (simp add: batch_received_def batch_worker_count_def encoder_options_default_def worker_sends_def
      worker_indices.simps upt_rec)

subsection \<open>The outcome of one frame\<close>

definition unit_build :: encoder_build where
  "unit_build = \<lparr>lpc_rows = \<lambda>dsd channels layout order scale.
     replicate (if layout = PerChannel then channels else 1) (replicate order 1), overflow_checks = True\<rparr>"

lemma unit_build_ok: "fit_ok unit_build" "\<not> search_overflows unit_build dsd channels opts"
  by (auto simp: fit_ok_def unit_build_def search_overflows_def fit_overflows_def i32_min_def)

lemma default_orders: "candidate_orders encoder_options_default = Inr default_candidate_orders"
  by (simp add: candidate_orders_def encoder_options_default_def default_candidate_orders_def Let_def sort_dedup_def
      validate_prediction_order_def)




text \<open>verification is redundant for this encoder: switched on, every candidate passes, so the search returns
  the same candidate and telemetry as with it switched off.\<close>

theorem verification_never_rejects:
  assumes "fit_ok build"
  shows "encode_predictive_search build dsd channels rate (opts\<lparr>eo_verify := True\<rparr>) t
    = encode_predictive_search build dsd channels rate (opts\<lparr>eo_verify := False\<rparr>) t"
  by (simp add: search_verify_irrelevant[OF assms])

theorem verification_never_rejects_witness:
  "encode_predictive_search unit_build (replicate 9408 0x69) 2 Dsd64 (encoder_options_default\<lparr>eo_verify := True\<rparr>)
     (telemetry_new 9408)
    = encode_predictive_search unit_build (replicate 9408 0x69) 2 Dsd64 (encoder_options_default\<lparr>eo_verify := False\<rparr>)
     (telemetry_new 9408)"
  by (rule verification_never_rejects[OF unit_build_ok(1)])










subsection \<open>The candidate matrix and the pre-screen\<close>

lemma rev_sorted_distinct:
  "sorted_wrt (>) (rev (sort_dedup xs))" for xs :: "'a :: linorder list"
  using sort_dedup_sorted[of xs] by (simp add: sorted_wrt_rev strict_sorted_iff)

text \<open>the candidate matrix is a product of lists without duplicates: accepted orders ascend within 1 to 128 and
  contain the configured one, scales descend within 1 to 255 and prune thresholds ascend within 0 to 255, so no
  candidate is tried twice.\<close>

theorem candidate_matrix_well_formed:
  assumes "candidate_orders opts = Inr orders"
  shows "sorted_wrt (<) orders \<and> (\<forall>order \<in> set orders. 1 \<le> order \<and> order \<le> 128)
    \<and> eo_prediction_order opts \<in> set orders
    \<and> sorted_wrt (>) (candidate_scales opts) \<and> (\<forall>s \<in> set (candidate_scales opts). 1 \<le> s \<and> s \<le> 255)
    \<and> sorted_wrt (<) (candidate_prune_thresholds opts)
    \<and> (\<forall>t \<in> set (candidate_prune_thresholds opts). 0 \<le> t \<and> t \<le> 255)
    \<and> distinct (candidate_matrix opts channels orders)"
proof -
  have o: "\<exists>xs. orders = sort_dedup (xs @ [eo_prediction_order opts])"
    using assms by (auto simp: candidate_orders_def Let_def res_bind_eq_Inr_iff)
  then have so: "sorted_wrt (<) orders" "eo_prediction_order opts \<in> set orders"
    using sort_dedup_sorted by (auto simp: strict_sorted_iff)
  have sc: "sorted_wrt (>) (candidate_scales opts)" "\<forall>s \<in> set (candidate_scales opts). 1 \<le> s \<and> s \<le> 255"
    by (auto simp: candidate_scales_def Let_def rev_sorted_distinct)
  have pr: "sorted_wrt (<) (candidate_prune_thresholds opts)"
    "\<forall>t \<in> set (candidate_prune_thresholds opts). 0 \<le> t \<and> t \<le> 255"
    using sort_dedup_sorted by (auto simp: candidate_prune_thresholds_def Let_def strict_sorted_iff)
  have "distinct (candidate_scales opts)"
    by (simp add: candidate_scales_def Let_def sort_dedup_sorted)
  then have "distinct (candidate_matrix opts channels orders)"
    using so(1) pr(1) by (auto simp: candidate_matrix_def candidate_layouts_def strict_sorted_iff distinct_map inj_on_def
        intro!: distinct_product)
  then show ?thesis using so sc pr candidate_orders_ok[OF assms] by blast
qed

theorem candidate_matrix_well_formed_witness:
  "16 \<in> set default_candidate_orders
    \<and> distinct (candidate_matrix encoder_options_default 6 default_candidate_orders)"
  using candidate_matrix_well_formed[OF default_orders, of 6] by (simp add: encoder_options_default_def)

definition scan_bits :: "u8 \<Rightarrow> nat list" where
  "scan_bits byte = map (\<lambda>b. unat (drop_bit b byte AND 1)) (rev [0..<8])"

fun changes :: "nat list \<Rightarrow> nat" where
  "changes (x # y # zs) = (if x \<noteq> y then 1 else 0) + changes (y # zs)"
| "changes _ = 0"

lemma changes_snoc: "changes (xs @ [x]) = changes xs + (if xs \<noteq> [] \<and> last xs \<noteq> x then 1 else 0)"
  by (induction xs rule: changes.induct) auto

lemma changes_le: "changes xs \<le> length xs - 1"
  by (induction xs rule: changes.induct) auto

definition scanned :: "nat list \<Rightarrow> prescreen_scan \<Rightarrow> bool" where
  "scanned bits s \<longleftrightarrow> ps_transitions s = changes bits \<and> ps_bit_count s = length bits
     \<and> ps_previous s = (if bits = [] then None else Some (last bits))"

lemma scanned_bit:
  "scanned bits s \<Longrightarrow> scanned (bits @ [unat (drop_bit b byte AND 1)]) (prescreen_bit byte b s)"
  by (auto simp: scanned_def prescreen_bit_def Let_def changes_snoc)

lemma prescreen_bit_seen [simp]:
  "ps_seen (prescreen_bit byte b s) = ps_seen s" "ps_unique (prescreen_bit byte b s) = ps_unique s"
  by (auto simp: prescreen_bit_def Let_def split: option.split)

lemma scanned_bits:
  "scanned bits s \<Longrightarrow> scanned (bits @ map (\<lambda>b. unat (drop_bit b byte AND 1)) bs) (fold (prescreen_bit byte) bs s)"
proof (induction bs arbitrary: bits s)
  case (Cons b bs)
  from Cons.IH[OF scanned_bit[OF Cons.prems, of b byte]] show ?case by simp
qed simp

lemma fold_prescreen_bit_seen:
  "ps_seen (fold (prescreen_bit byte) bs s) = ps_seen s \<and> ps_unique (fold (prescreen_bit byte) bs s) = ps_unique s"
  by (induction bs arbitrary: s) auto

definition scanned_bytes :: "u8 list \<Rightarrow> prescreen_scan \<Rightarrow> bool" where
  "scanned_bytes bytes s \<longleftrightarrow> scanned (concat (map scan_bits bytes)) s \<and> length (ps_seen s) = 256
     \<and> (\<forall>b. ps_seen s ! unat (b :: u8) \<longleftrightarrow> b \<in> set bytes) \<and> ps_unique s = card (set bytes)"

lemma scanned_byte:
  assumes "scanned_bytes bytes s"
  shows "scanned_bytes (bytes @ [byte]) (prescreen_byte byte s)"
proof -
  let ?s = "if \<not> ps_seen s ! unat byte
        then s\<lparr>ps_seen := (ps_seen s)[unat byte := True], ps_unique := ps_unique s + 1\<rparr> else s"
  have lt: "unat b < 256" for b :: u8 by (rule order_less_le_trans[OF unsigned_less]) simp
  have "scanned (concat (map scan_bits bytes)) ?s" using assms by (simp add: scanned_bytes_def scanned_def)
  from scanned_bits[OF this, of byte "rev [0..<8]"]
  have "scanned (concat (map scan_bits (bytes @ [byte]))) (prescreen_byte byte s)"
    unfolding prescreen_byte_def scan_bits_def by simp
  moreover have "\<forall>b. ps_seen ?s ! unat (b :: u8) \<longleftrightarrow> b \<in> set (bytes @ [byte])"
    using assms lt by (auto simp: scanned_bytes_def nth_list_update dest: unsigned_word_eqI)
  ultimately show ?thesis
    using assms fold_prescreen_bit_seen[of byte "rev [0..<8]" ?s]
    by (auto simp: scanned_bytes_def prescreen_byte_def card_insert_if split: if_splits)
qed

lemma scanned_fold:
  "scanned_bytes bytes s \<Longrightarrow> scanned_bytes (bytes @ xs) (fold prescreen_byte xs s)"
proof (induction xs arbitrary: bytes s)
  case (Cons b xs)
  from Cons.IH[OF scanned_byte[OF Cons.prems, of b]] show ?case by simp
qed simp

text \<open>the pre-screen measures what it says: over the first 4096 bytes it counts the distinct bytes and the bit
  changes in most-significant-first order, its percentage is at most 100, and it rejects a frame only in the fast
  effort and only when both thresholds are met.\<close>

theorem prescreen_measures:
  assumes "fast_prescreen dsd opts = Some p"
  shows "fp_sample_bytes p = min (length dsd) 4096
    \<and> fp_unique_bytes p = card (set (take 4096 dsd)) \<and> fp_unique_bytes p \<le> 256
    \<and> fp_transition_percent p
        = changes (concat (map scan_bits (take 4096 dsd))) * 100 div (8 * min (length dsd) 4096 - 1)
    \<and> fp_transition_percent p \<le> 100
    \<and> (fp_reject_predictive p \<longleftrightarrow> eo_effort opts = Fast \<and> 240 \<le> fp_unique_bytes p \<and> 48 \<le> fp_transition_percent p)"
proof -
  let ?sample = "take (min (length dsd) 4096) dsd"
  let ?bits = "concat (map scan_bits (take 4096 dsd))"
  let ?start = "\<lparr>ps_seen = replicate 256 False, ps_unique = 0, ps_transitions = 0, ps_bit_count = 0, ps_previous = None\<rparr>"
  have sample: "?sample = take 4096 dsd" by (simp add: min_def)
  have ne: "dsd \<noteq> []" using assms by (auto simp: fast_prescreen_def split: if_splits)
  have lt: "unat b < 256" for b :: u8 by (rule order_less_le_trans[OF unsigned_less]) simp
  have "scanned_bytes [] ?start"
    using lt by (simp add: scanned_bytes_def scanned_def)
  from scanned_fold[OF this, of "take 4096 dsd"]
  have run: "scanned_bytes (take 4096 dsd) (fold prescreen_byte (take 4096 dsd) ?start)" by simp
  have len: "length ?bits = 8 * min (length dsd) 4096"
  proof -
    have "length (concat (map scan_bits xs)) = 8 * length xs" for xs
      by (induction xs) (simp_all add: scan_bits_def)
    then show ?thesis by simp
  qed
  have d: "max (length ?bits - 1) 1 = 8 * min (length dsd) 4096 - 1"
    unfolding len using ne by (cases dsd) auto
  have pct: "changes ?bits * 100 div (8 * min (length dsd) 4096 - 1) \<le> 100"
  proof -
    have "changes ?bits * 100 \<le> (8 * min (length dsd) 4096 - 1) * 100"
      using changes_le[of ?bits] unfolding len by simp
    from div_le_mono[OF this, of "8 * min (length dsd) 4096 - 1"] show ?thesis
      using ne by (metis nonzero_mult_div_cancel_left zero_le div_by_0 bot_nat_0.not_eq_extremum)
  qed
  have card: "card (set (take 4096 dsd)) \<le> 256"
  proof -
    have "card (set (take 4096 dsd)) \<le> card (UNIV :: u8 set)" by (rule card_mono) auto
    then show ?thesis by (simp add: card_word)
  qed
  have p: "p = \<lparr>fp_sample_bytes = min (length dsd) 4096, fp_unique_bytes = card (set (take 4096 dsd)),
      fp_transition_percent = changes ?bits * 100 div (8 * min (length dsd) 4096 - 1),
      fp_reject_predictive = (eo_effort opts = Fast \<and> card (set (take 4096 dsd)) \<ge> 240
        \<and> changes ?bits * 100 div (8 * min (length dsd) 4096 - 1) \<ge> 48)\<rparr>"
    using assms run unfolding fast_prescreen_def Let_def sample scanned_bytes_def scanned_def
    by (auto simp only: d if_False option.inject split: if_splits)
  show ?thesis unfolding p using pct card by simp
qed

theorem prescreen_measures_witness:
  "\<exists>p. fast_prescreen [0x0F, 0x0F] (encoder_options_default\<lparr>eo_effort := Fast\<rparr>) = Some p
    \<and> fp_unique_bytes p = 1 \<and> \<not> fp_reject_predictive p"
proof -
  obtain p where p: "fast_prescreen [0x0F, 0x0F] (encoder_options_default\<lparr>eo_effort := Fast\<rparr>) = Some p"
    by (simp add: fast_prescreen_def encoder_options_default_def Let_def)
  from prescreen_measures[OF this] p show ?thesis by simp
qed

end
