(* ===== verification/Galois.thy ===== *)
theory Galois
  imports Prelude
begin

text \<open>
  The field GF(2^16) of \<open>src/ctdb_rs/mod.rs\<close> (module \<open>galois\<close>): the specification, a type of 16-bit
  polynomials modulo \<open>x^16 + x^12 + x^3 + x + 1\<close> made an instance of \<open>field\<close>; the code's exponential and
  logarithm tables; and, in the locale \<open>galois_tables\<close>, what the tables promise to the codec.
\<close>

subsection \<open>The additive group\<close>

typedef gf16 = "UNIV :: u16 set" morphisms word_of gf_of ..

setup_lifting type_definition_gf16

instantiation gf16 :: "{ab_group_add, equal}"
begin

lift_definition zero_gf16 :: gf16 is "0" .
lift_definition plus_gf16 :: "gf16 \<Rightarrow> gf16 \<Rightarrow> gf16" is "(XOR)" .
lift_definition minus_gf16 :: "gf16 \<Rightarrow> gf16 \<Rightarrow> gf16" is "(XOR)" .
lift_definition uminus_gf16 :: "gf16 \<Rightarrow> gf16" is "\<lambda>a. a" .
lift_definition equal_gf16 :: "gf16 \<Rightarrow> gf16 \<Rightarrow> bool" is "(=)" .

instance
  by standard (transfer; simp add: ac_simps)+

end

lemma gf_char2 [simp]: "a + a = (0 :: gf16)"
  by transfer simp

lemma gf_minus_eq_plus [simp]: "a - b = a + (b :: gf16)"
  by transfer simp

lemma gf_uminus_eq [simp]: "- a = (a :: gf16)"
  by transfer simp

lemma gf_add_cancel [simp]: "a + (a + b) = (b :: gf16)"
  by (metis gf_char2 add.assoc add_0)

lemma gf_add_eq_0_iff [simp]: "a + b = (0 :: gf16) \<longleftrightarrow> a = b"
  by transfer (metis xor.left_neutral xor_self_eq xor.assoc)

lemma word_of_0 [simp]: "word_of 0 = 0"
  by (rule zero_gf16.rep_eq)

lemma word_of_eq_0 [simp]: "word_of a = 0 \<longleftrightarrow> a = 0"
  by transfer simp

lemma gf_of_eq_0 [simp]: "gf_of w = 0 \<longleftrightarrow> w = 0"
  by (metis word_of_eq_0 gf_of_inverse UNIV_I)

lemma gf_of_0 [simp]: "gf_of 0 = 0"
  by simp

lemma gf_of_word_of [simp]: "gf_of (word_of a) = a"
  by (rule word_of_inverse)

lemma word_of_gf_of [simp]: "word_of (gf_of w) = w"
  by (simp add: gf_of_inverse)

lemma gf_of_xor: "gf_of (a XOR b) = gf_of a + gf_of b"
  by (metis plus_gf16.rep_eq gf_of_word_of word_of_gf_of)

lemma gf_of_inject_iff [simp]: "gf_of a = gf_of b \<longleftrightarrow> a = b"
  by (metis word_of_gf_of)

subsection \<open>Multiplication\<close>

text \<open>Multiplication by \<open>x\<close>: shift, and subtract the modulus when the degree reaches 16.\<close>

definition times_x_word :: "u16 \<Rightarrow> u16" where
  "times_x_word a = push_bit 1 a XOR (if bit a 15 then 0x100B else 0)"

lift_definition times_x :: "gf16 \<Rightarrow> gf16" is times_x_word .

lemma times_x_add: "times_x (a + b) = times_x a + times_x b"
  by transfer (auto simp: times_x_word_def bit_simps intro!: bit_word_eqI)

lemma times_x_0 [simp]: "times_x 0 = 0"
  by transfer (simp add: times_x_word_def)

lemma times_x_pow_add: "(times_x ^^ i) (a + b) = (times_x ^^ i) a + (times_x ^^ i) b"
  by (induction i) (simp_all add: times_x_add)

lemma times_x_pow_0 [simp]: "(times_x ^^ i) 0 = 0"
  by (induction i) simp_all

lemma times_x_pow_sum: "(times_x ^^ i) (\<Sum>j\<in>A. f j) = (\<Sum>j\<in>A. (times_x ^^ i) (f j))"
  by (induction A rule: infinite_finite_induct) (simp_all add: times_x_pow_add)

definition coeff :: "gf16 \<Rightarrow> nat \<Rightarrow> bool" where
  "coeff a i = bit (word_of a) i"

definition gf_times :: "gf16 \<Rightarrow> gf16 \<Rightarrow> gf16" where
  "gf_times a b = (\<Sum>i<16. if coeff b i then (times_x ^^ i) a else 0)"

lift_definition gf_one :: gf16 is "1" .

lemma coeff_add: "coeff (a + b) i \<longleftrightarrow> coeff a i \<noteq> coeff b i"
  by (simp add: coeff_def plus_gf16.rep_eq bit_simps)

lemma coeff_0 [simp]: "\<not> coeff 0 i"
  by (simp add: coeff_def)

lemma gf_times_add_left: "gf_times (a + b) c = gf_times a c + gf_times b c"
  by (simp add: gf_times_def times_x_pow_add flip: sum.distrib cong: if_cong) (rule sum.cong; simp)

lemma gf_times_add_right: "gf_times a (b + c) = gf_times a b + gf_times a c"
  unfolding gf_times_def sum.distrib[symmetric] by (rule sum.cong) (auto simp: coeff_add)

lemma gf_times_0_left [simp]: "gf_times 0 c = 0"
  by (simp add: gf_times_def cong: if_cong)

lemma gf_times_sum_left: "gf_times (\<Sum>j\<in>A. f j) c = (\<Sum>j\<in>A. gf_times (f j) c)"
  by (induction A rule: infinite_finite_induct) (simp_all add: gf_times_add_left)

lemma times_x_pow_times: "(times_x ^^ i) (gf_times a b) = gf_times ((times_x ^^ i) a) b"
  unfolding gf_times_def times_x_pow_sum
  by (rule sum.cong) (auto simp: funpow_add[THEN fun_cong, symmetric, unfolded o_def] add.commute
      simp flip: comp_apply[of "times_x ^^ _" "times_x ^^ _"] funpow_add)

lemma times_x_pow_one:
  assumes "i < 16"
  shows "(times_x ^^ i) gf_one = gf_of (push_bit i 1)"
  using assms
proof (induction i)
  case 0
  then show ?case by (simp add: gf_one.abs_eq)
next
  case (Suc i)
  then have "(times_x ^^ Suc i) gf_one = times_x (gf_of (push_bit i 1))" by simp
  also have "\<dots> = gf_of (times_x_word (push_bit i 1))"
    by (metis times_x.rep_eq gf_of_word_of word_of_gf_of)
  also have "times_x_word (push_bit i 1) = push_bit (Suc i) 1"
    using Suc.prems by (simp add: times_x_word_def bit_simps)
  finally show ?case .
qed

lemma gf_one_times [simp]: "gf_times gf_one a = a"
proof -
  have "coeff (\<Sum>i<n. if coeff a i then gf_of (push_bit i 1) else 0) j \<longleftrightarrow> j < n \<and> coeff a j" if "n \<le> 16" for n j
    using that
  proof (induction n)
    case (Suc n)
    have "coeff (gf_of (push_bit n 1)) j \<longleftrightarrow> j = n"
      using Suc.prems by (auto simp: coeff_def bit_simps)
    with Suc show ?case by (auto simp: coeff_add less_Suc_eq)
  qed simp
  note bits = this
  have "gf_times gf_one a = (\<Sum>i<16. if coeff a i then gf_of (push_bit i 1) else 0)"
    unfolding gf_times_def by (rule sum.cong) (auto simp: times_x_pow_one)
  moreover have "coeff a j \<Longrightarrow> j < 16" for j
    unfolding coeff_def by (drule bit_imp_le_length) simp
  ultimately have "coeff (gf_times gf_one a) j = coeff a j" for j
    using bits[of 16 j] by auto
  then have "word_of (gf_times gf_one a) = word_of a" unfolding coeff_def by (intro bit_eqI) simp
  then show ?thesis by (metis gf_of_word_of)
qed

lemma gf_times_commute: "gf_times a b = gf_times b a"
proof -
  have "gf_times a b = (\<Sum>i<16. if coeff b i then (times_x ^^ i) (gf_times gf_one a) else 0)"
    by (simp add: gf_times_def[of a b] cong: if_cong)
  also have "\<dots> = (\<Sum>i<16. gf_times (if coeff b i then (times_x ^^ i) gf_one else 0) a)"
    using times_x_pow_times[of _ gf_one a] by (intro sum.cong) simp_all
  also have "\<dots> = gf_times (\<Sum>i<16. if coeff b i then (times_x ^^ i) gf_one else 0) a"
    by (rule gf_times_sum_left[symmetric])
  also have "(\<Sum>i<16. if coeff b i then (times_x ^^ i) gf_one else 0) = b"
    using gf_one_times[of b] by (simp only: gf_times_def)
  finally show ?thesis .
qed

lemma gf_times_right_commute: "gf_times (gf_times a b) c = gf_times (gf_times a c) b"
proof -
  have "gf_times (gf_times a b) c = (\<Sum>i<16. gf_times (if coeff b i then (times_x ^^ i) a else 0) c)"
    unfolding gf_times_sum_left[symmetric] by (simp add: gf_times_def[of a b])
  also have "\<dots> = (\<Sum>i<16. if coeff b i then (times_x ^^ i) (gf_times a c) else 0)"
    by (rule sum.cong) (simp_all add: times_x_pow_times)
  finally show ?thesis by (simp add: gf_times_def[of _ b])
qed

instantiation gf16 :: comm_ring_1
begin

definition one_gf16 :: gf16 where "one_gf16 = gf_one"
definition times_gf16 :: "gf16 \<Rightarrow> gf16 \<Rightarrow> gf16" where "times_gf16 = gf_times"

instance
proof
  fix a b c :: gf16
  show "a * b * c = a * (b * c)"
    unfolding times_gf16_def by (metis gf_times_commute gf_times_right_commute)
  show "a * b = b * a" unfolding times_gf16_def by (rule gf_times_commute)
  show "1 * a = a" by (simp add: times_gf16_def one_gf16_def)
  show "(a + b) * c = a * c + b * c" unfolding times_gf16_def by (rule gf_times_add_left)
  show "(0 :: gf16) \<noteq> 1" unfolding one_gf16_def by transfer simp
qed

end

subsection \<open>The primitive element\<close>

definition alpha :: gf16 where
  "alpha = gf_of 2"

lemma gf_of_1: "gf_of 1 = 1"
  by (simp add: one_gf16_def gf_one.abs_eq)

lemma alpha_times: "alpha * a = times_x a"
proof -
  have "times_x gf_one = alpha"
    unfolding alpha_def gf_one.abs_eq times_x.abs_eq by (simp add: times_x_word_def)
  then show ?thesis using times_x_pow_times[of 1 gf_one a] by (simp add: times_gf16_def)
qed

lemma alpha_pow: "alpha ^ n = (times_x ^^ n) 1"
  by (induction n) (simp_all add: alpha_times)

text \<open>An executable product, for the computations below.\<close>

fun mul_bits :: "nat list \<Rightarrow> u16 \<Rightarrow> u16 \<Rightarrow> u16" where
  "mul_bits [] u v = 0"
| "mul_bits (i # is) u v = (if bit v i then u else 0) XOR mul_bits is (times_x_word u) v"

definition mul_word :: "u16 \<Rightarrow> u16 \<Rightarrow> u16" where
  "mul_word = mul_bits [0, 1, 2, 3, 4, 5, 6, 7, 8, 9, 10, 11, 12, 13, 14, 15]"

lemma mul_bits_sum:
  "(\<Sum>i<n. if bit v (k + i) then (times_x ^^ i) (gf_of u) else 0) = gf_of (mul_bits [k..<k + n] u v)"
proof (induction n arbitrary: k u)
  case (Suc n)
  have "times_x (gf_of u) = gf_of (times_x_word u)"
    by (metis times_x.rep_eq gf_of_word_of word_of_gf_of)
  then have "(\<Sum>i<n. if bit v (k + Suc i) then (times_x ^^ Suc i) (gf_of u) else 0)
      = (\<Sum>i<n. if bit v (Suc k + i) then (times_x ^^ i) (gf_of (times_x_word u)) else 0)"
    by (intro sum.cong) (simp_all add: funpow_Suc_right del: funpow.simps)
  moreover have "[k..<k + Suc n] = k # [Suc k..<Suc k + n]" by (simp add: upt_conv_Cons)
  ultimately show ?case using Suc.IH[of "Suc k" "times_x_word u"]
    by (simp add: sum.lessThan_Suc_shift gf_of_xor del: sum.lessThan_Suc upt_Suc cong: if_cong)
qed simp

lemma gf_of_times: "gf_of u * gf_of v = gf_of (mul_word u v)"
proof -
  have "[0..<0 + 16] = [0, 1, 2, 3, 4, 5, 6, 7, 8, 9, 10, 11, 12, 13, 14, 15]" by (simp add: upt_rec)
  then show ?thesis using mul_bits_sum[of v 0 u 16]
    by (simp add: times_gf16_def gf_times_def coeff_def mul_word_def)
qed

text \<open>Square and multiply, least significant exponent bit first.\<close>

definition square_word :: "u16 \<Rightarrow> u16" where
  "square_word r = mul_word r r"

fun pow_word :: "u16 \<Rightarrow> bool list \<Rightarrow> u16" where
  "pow_word a [] = 1"
| "pow_word a (b # bs) = (if b then mul_word (square_word (pow_word a bs)) a else square_word (pow_word a bs))"

fun exponent :: "bool list \<Rightarrow> nat" where
  "exponent [] = 0"
| "exponent (b # bs) = (if b then 1 else 0) + 2 * exponent bs"

lemma gf_of_power: "gf_of a ^ exponent bs = gf_of (pow_word a bs)"
proof (induction bs)
  case (Cons b bs)
  have "gf_of a ^ (2 * exponent bs) = gf_of (mul_word (pow_word a bs) (pow_word a bs))"
    using Cons.IH by (metis gf_of_times power2_eq_square power_mult mult.commute)
  then show ?case
    by (simp add: gf_of_times[symmetric] square_word_def mult.commute)
qed (simp add: gf_of_1)

lemmas pow_word_simps = pow_word.simps if_True if_False square_word_def mul_word_def mul_bits.simps times_x_word_def

text \<open>\<open>alpha\<close> has order 65535 = 3 * 5 * 17 * 257: it returns to 1 there and at none of the maximal divisors.\<close>

lemma alpha_power_words:
  "pow_word 2 [True, True, True, True, True, True, True, True] = 36242"
  "pow_word 2 [True, True, True, True, False, False, False, False, True, True, True, True] = 19832"
  "pow_word 2 [True, True, False, False, True, True, False, False, True, True, False, False, True, True] = 7400"
  "pow_word 2 [True, False, True, False, True, False, True, False, True, False, True, False, True, False, True] = 350"
  "pow_word 2 [True, True, True, True, True, True, True, True, True, True, True, True, True, True, True, True] = 1"
  by (simp_all add: pow_word_simps)

lemma alpha_order: "alpha ^ 65535 = 1"
  using gf_of_power[of 2 "[True, True, True, True, True, True, True, True, True, True, True, True, True, True, True, True]"]
  unfolding alpha_power_words by (simp add: alpha_def gf_of_1)

lemma alpha_proper_divisors:
  "alpha ^ 255 \<noteq> 1" "alpha ^ 3855 \<noteq> 1" "alpha ^ 13107 \<noteq> 1" "alpha ^ 21845 \<noteq> 1"
  using gf_of_power[of 2 "[True, True, True, True, True, True, True, True]"]
    gf_of_power[of 2 "[True, True, True, True, False, False, False, False, True, True, True, True]"]
    gf_of_power[of 2 "[True, True, False, False, True, True, False, False, True, True, False, False, True, True]"]
    gf_of_power[of 2 "[True, False, True, False, True, False, True, False, True, False, True, False, True, False, True]"]
  unfolding alpha_power_words by (simp_all add: alpha_def gf_of_1[symmetric])

lemma coprime_or_dvd:
  assumes "\<forall>d \<in> {2..<p}. \<not> d dvd p" and "0 < p"
  shows "coprime k p \<or> p dvd (k :: nat)"
proof -
  let ?g = "gcd k p"
  have "?g dvd p" "?g dvd k" by simp_all
  moreover have "?g \<le> p" "0 < ?g" using assms(2) by (simp_all add: gcd_le2_nat)
  moreover have "?g \<notin> {2..<p}" using assms(1) \<open>?g dvd p\<close> by blast
  ultimately have "?g = 1 \<or> ?g = p" by (simp only: atLeastLessThan_iff) arith
  then show ?thesis by (metis \<open>?g dvd k\<close> coprime_iff_gcd_eq_1)
qed

lemma small_primes:
  "\<forall>d \<in> {2..<3}. \<not> d dvd (3 :: nat)" "\<forall>d \<in> {2..<5}. \<not> d dvd (5 :: nat)"
  "\<forall>d \<in> {2..<17}. \<not> d dvd (17 :: nat)" "\<forall>d \<in> {2..<257}. \<not> d dvd (257 :: nat)"
  by code_simp+

lemma dvd_65535:
  assumes "k dvd 65535" and "1 < k"
  shows "3 dvd k \<or> 5 dvd k \<or> 17 dvd k \<or> 257 dvd (k :: nat)"
proof (rule ccontr)
  assume "\<not> ?thesis"
  then have "coprime k 3" "coprime k 5" "coprime k 17" "coprime k 257"
    using coprime_or_dvd small_primes by (metis zero_less_numeral)+
  then have "coprime k (3 * 5 * 17 * 257)" by (simp only: coprime_mult_right_iff simp_thms)
  then have "coprime k 65535" by simp
  then show False using assms by (metis coprime_common_divisor dvd_refl nat_dvd_1_iff_1 less_irrefl)
qed

lemma alpha_power_one:
  assumes "alpha ^ n = 1" and "0 < n"
  shows "65535 \<le> n"
proof (rule ccontr)
  assume lt: "\<not> 65535 \<le> n"
  define g where "g = gcd n 65535"
  obtain x y where "n * x = 65535 * y + g" using bezout_nat[of n 65535] assms(2) by (auto simp: g_def)
  then have "(alpha ^ n) ^ x = (alpha ^ 65535) ^ y * alpha ^ g" by (simp flip: power_mult power_add)
  then have g1: "alpha ^ g = 1" using assms(1) alpha_order by simp
  have "g dvd 65535" by (simp add: g_def)
  then obtain k where k: "65535 = g * k" by (elim dvdE)
  have "g \<le> n" using assms(2) by (simp add: g_def gcd_le1_nat)
  with lt k have "1 < k" by (cases "k = 0 \<or> k = 1") auto
  moreover have "k dvd 65535" using k by (metis dvd_triv_right)
  ultimately have d: "3 dvd k \<or> 5 dvd k \<or> 17 dvd k \<or> 257 dvd k" using dvd_65535 by blast
  have ex: "alpha ^ m = 1" if dv: "p dvd k" and m: "65535 = p * m" "0 < p" for p m
  proof -
    obtain q where "k = p * q" using dv by (elim dvdE)
    then have "p * (g * q) = p * m" using k m(1) by (metis mult.left_commute)
    then have "m = g * q" using m(2) by simp
    then show ?thesis using g1 by (simp add: power_mult)
  qed
  show False using d ex[of 3 21845] ex[of 5 13107] ex[of 17 3855] ex[of 257 255] alpha_proper_divisors by auto
qed

subsection \<open>Every nonzero element is a power of alpha\<close>

lemma alpha_pow_unit: "alpha ^ n * alpha ^ (65535 * n - n) = 1"
proof -
  have "n + (65535 * n - n) = 65535 * n" by simp
  then show ?thesis by (metis power_add power_mult alpha_order power_one)
qed

lemma alpha_pow_nonzero [simp]: "alpha ^ n \<noteq> 0"
  using alpha_pow_unit[of n] by auto

lemma alpha_nonzero [simp]: "alpha \<noteq> 0"
  using alpha_pow_nonzero[of 1] by simp

lemma alpha_pow_inject:
  assumes "alpha ^ i = alpha ^ j" and "i < 65535" and "j < 65535"
  shows "i = j"
proof -
  have "i \<ge> j" if "alpha ^ i = alpha ^ j" "j < 65535" for i j
  proof (rule ccontr)
    assume "\<not> i \<ge> j"
    then have "alpha ^ j = alpha ^ i * alpha ^ (j - i)" by (simp flip: power_add)
    then have "alpha ^ i * alpha ^ (65535 * i - i) = alpha ^ i * alpha ^ (65535 * i - i) * alpha ^ (j - i)"
      using that(1) by (metis mult.assoc mult.commute)
    then have "alpha ^ (j - i) = 1" unfolding alpha_pow_unit by simp
    then show False using alpha_power_one[of "j - i"] \<open>\<not> i \<ge> j\<close> that(2) by simp
  qed
  then show ?thesis using assms by (metis order_antisym)
qed

lemma card_gf16: "card (UNIV :: gf16 set) = 65536"
  using type_definition.card[OF type_definition_gf16] by (simp add: card_word)

lemma alpha_generates:
  assumes "a \<noteq> 0"
  shows "\<exists>n < 65535. a = alpha ^ n"
proof -
  let ?P = "(\<lambda>n. alpha ^ n) ` {..<65535}"
  have "card ?P = 65535"
    by (subst card_image) (auto intro!: inj_onI alpha_pow_inject)
  moreover have "?P \<subseteq> UNIV - {0}" by auto
  moreover have fin: "finite (UNIV :: gf16 set)" by (rule card_ge_0_finite) (simp add: card_gf16)
  moreover have "card (UNIV - {0 :: gf16}) = 65535" by (subst card_Diff_singleton) (simp_all add: card_gf16)
  ultimately have "?P = UNIV - {0}" by (intro card_subset_eq) (auto intro: finite_subset)
  then show ?thesis using assms by blast
qed

lemma gf_power_65535: "a \<noteq> 0 \<Longrightarrow> (a :: gf16) ^ 65535 = 1"
  using alpha_generates[of a] alpha_order by (metis power_mult mult.commute power_one)

instantiation gf16 :: field
begin

definition inverse_gf16 :: "gf16 \<Rightarrow> gf16" where "inverse_gf16 a = a ^ 65534"
definition divide_gf16 :: "gf16 \<Rightarrow> gf16 \<Rightarrow> gf16" where "divide_gf16 a b = a * inverse b"

instance
proof
  fix a b :: gf16
  show "a \<noteq> 0 \<Longrightarrow> inverse a * a = 1"
    using gf_power_65535[of a] power_Suc[of a 65534] by (simp add: inverse_gf16_def mult.commute)
  show "a div b = a * inverse b" by (rule divide_gf16_def)
  show "inverse (0 :: gf16) = 0" by (simp add: inverse_gf16_def)
qed

end

subsection \<open>The tables of the code\<close>

record galois16 =
  exp_tbl :: "u16 list"
  log_tbl :: "u16 list"

definition gf_max :: nat where "gf_max = 65535"

lemma gf_max_simp [simp]: "gf_max = 65535"
  by (simp add: gf_max_def)

definition primitive_poly :: "32 word" where "primitive_poly = 0x1100B"

definition next_power :: "32 word \<Rightarrow> 32 word" where
  "next_power d =
     (let d = push_bit 1 d in if drop_bit 16 d AND 1 \<noteq> 0 then (d XOR primitive_poly) AND 0xFFFF else d)"

definition table_step :: "nat \<Rightarrow> u16 list \<times> u16 list \<times> 32 word \<Rightarrow> u16 list \<times> u16 list \<times> 32 word" where
  "table_step i = (\<lambda>(exps, logs, d).
     (exps[i := ucast d, gf_max + i := ucast d], logs[unat d := of_nat i], next_power d))"

definition generate_tables :: "u16 list \<times> u16 list" where
  "generate_tables =
     (case fold table_step [0..<gf_max] (replicate (gf_max * 2) 0, replicate (gf_max + 1) 0, 1) of
        (exps, logs, _) \<Rightarrow> (exps, logs))"

definition galois_new :: galois16 where
  "galois_new = (case generate_tables of (e, l) \<Rightarrow> \<lparr>exp_tbl = e, log_tbl = l\<rparr>)"

definition log_of :: "galois16 \<Rightarrow> u16 \<Rightarrow> nat" where
  "log_of gf a = unat (log_tbl gf ! unat a)"

definition alpha_pow :: "galois16 \<Rightarrow> nat \<Rightarrow> u16" where
  "alpha_pow gf n = exp_tbl gf ! (n mod gf_max)"

definition gf_log :: "galois16 \<Rightarrow> u16 \<Rightarrow> nat option" where
  "gf_log gf a = (if a = 0 then None else Some (log_of gf a))"

definition gf_mul :: "galois16 \<Rightarrow> u16 \<Rightarrow> u16 \<Rightarrow> u16" where
  "gf_mul gf a b = (if a = 0 \<or> b = 0 then 0 else exp_tbl gf ! (log_of gf a + log_of gf b))"

text \<open>\<open>div\<close> and \<open>inv\<close> assert a nonzero divisor: \<open>None\<close> is the panic.\<close>

definition gf_div :: "galois16 \<Rightarrow> u16 \<Rightarrow> u16 \<Rightarrow> u16 option" where
  "gf_div gf a b =
     (if b = 0 then None
      else Some (if a = 0 then 0 else exp_tbl gf ! (log_of gf a + gf_max - log_of gf b)))"

definition gf_pow :: "galois16 \<Rightarrow> u16 \<Rightarrow> nat \<Rightarrow> u16" where
  "gf_pow gf a n = (if a = 0 then 0 else exp_tbl gf ! ((log_of gf a * n mod 2 ^ 64) mod gf_max))"

definition mul_exp :: "galois16 \<Rightarrow> u16 \<Rightarrow> nat \<Rightarrow> u16" where
  "mul_exp gf a n = (if a = 0 then 0 else exp_tbl gf ! (log_of gf a + n mod gf_max))"

definition div_exp :: "galois16 \<Rightarrow> u16 \<Rightarrow> nat \<Rightarrow> u16" where
  "div_exp gf a n = (if a = 0 then 0 else exp_tbl gf ! (log_of gf a + gf_max - n mod gf_max))"

definition gf_inv :: "galois16 \<Rightarrow> u16 \<Rightarrow> u16 option" where
  "gf_inv gf a = (if a = 0 then None else Some (exp_tbl gf ! (gf_max - log_of gf a)))"

text \<open>Every table index that the methods of \<open>Galois16\<close> compute is inside its table, and no subtraction of a
  logarithm or exponent is negative: \<open>alpha_pow\<close> and \<open>pow\<close>, \<open>log\<close>, \<open>mul\<close>, \<open>div\<close>, \<open>mul_exp\<close>, \<open>div_exp\<close> and \<open>inv\<close>,
  in this order.\<close>

definition lookups_in_range :: "galois16 \<Rightarrow> bool" where
  "lookups_in_range gf \<longleftrightarrow>
     (\<forall>n. n mod gf_max < length (exp_tbl gf))
     \<and> (\<forall>a :: u16. unat a < length (log_tbl gf))
     \<and> (\<forall>a b. a \<noteq> 0 \<longrightarrow> b \<noteq> 0 \<longrightarrow> log_of gf a + log_of gf b < length (exp_tbl gf)
          \<and> log_of gf b \<le> log_of gf a + gf_max \<and> log_of gf a + gf_max - log_of gf b < length (exp_tbl gf))
     \<and> (\<forall>a n. a \<noteq> 0 \<longrightarrow> log_of gf a + n mod gf_max < length (exp_tbl gf)
          \<and> n mod gf_max \<le> log_of gf a + gf_max \<and> log_of gf a + gf_max - n mod gf_max < length (exp_tbl gf)
          \<and> log_of gf a \<le> gf_max \<and> gf_max - log_of gf a < length (exp_tbl gf))"

subsection \<open>What the tables promise\<close>

locale galois_tables =
  fixes gf :: galois16
  assumes exp_nth: "i < 131070 \<Longrightarrow> exp_tbl gf ! i = word_of (alpha ^ i)"
    and log_nth: "k < 65535 \<Longrightarrow> log_tbl gf ! unat (word_of (alpha ^ k)) = of_nat k"
    and exp_length: "length (exp_tbl gf) = 131070"
    and log_length: "length (log_tbl gf) = 65536"
begin

lemma log_of_power:
  assumes "k < 65535"
  shows "log_of gf (word_of (alpha ^ k)) = k"
  using assms by (simp add: log_of_def log_nth take_bit_eq_mod unsigned_of_nat)

lemma log_of_nonzero:
  assumes "a \<noteq> 0"
  obtains k where "k < 65535" "log_of gf a = k" "gf_of a = alpha ^ k"
proof -
  have "gf_of a \<noteq> 0" using assms by simp
  then obtain k where k: "k < 65535" "gf_of a = alpha ^ k" using alpha_generates by blast
  then have "a = word_of (alpha ^ k)" by (metis word_of_gf_of)
  then show thesis using that[of k] k log_of_power by simp
qed

lemma log_of_lt: "a \<noteq> 0 \<Longrightarrow> log_of gf a < 65535"
  by (metis log_of_nonzero)

lemma lookups_ok: "lookups_in_range gf"
proof -
  have n: "n mod 65535 < 65535" for n :: nat by simp
  have a: "unat a < 65536" for a :: u16 by (rule order_less_le_trans[OF unsigned_less]) simp
  have l: "log_of gf a + n mod 65535 < 131070" "n mod 65535 \<le> log_of gf a + 65535"
    "log_of gf a + 65535 - n mod 65535 < 131070" if "a \<noteq> 0" for a n
    using log_of_lt[OF that] n[of n] by linarith+
  have d: "log_of gf a + log_of gf b < 131070" "log_of gf b \<le> log_of gf a + 65535"
    "log_of gf a + 65535 - log_of gf b < 131070" if "a \<noteq> 0" "b \<noteq> 0" for a b
    using log_of_lt[OF that(1)] log_of_lt[OF that(2)] by linarith+
  have e: "n mod 65535 < 131070" for n :: nat using n[of n] by linarith
  show ?thesis
    unfolding lookups_in_range_def gf_max_simp exp_length log_length
    using a l d e less_imp_le[OF log_of_lt] by auto
qed

lemma gf_of_exp [simp]: "i < 131070 \<Longrightarrow> gf_of (exp_tbl gf ! i) = alpha ^ i"
  by (simp add: exp_nth)

lemma alpha_pow_mod: "alpha ^ (n mod 65535) = alpha ^ n"
proof -
  have "alpha ^ n = (alpha ^ 65535) ^ (n div 65535) * alpha ^ (n mod 65535)"
    by (simp only: mult_div_mod_eq flip: power_mult power_add)
  then show ?thesis by (simp only: alpha_order power_one mult_1)
qed

lemma gf_of_alpha_pow: "gf_of (alpha_pow gf n) = alpha ^ n"
proof -
  have "n mod 65535 < 131070" using mod_less_divisor[of 65535 n] by linarith
  then show ?thesis by (simp add: alpha_pow_def alpha_pow_mod)
qed

lemma gf_of_mul [simp]: "gf_of (gf_mul gf a b) = gf_of a * gf_of b"
proof (cases "a = 0 \<or> b = 0")
  case False
  then obtain i j where "i < 65535" "log_of gf a = i" "gf_of a = alpha ^ i"
    "j < 65535" "log_of gf b = j" "gf_of b = alpha ^ j" by (meson log_of_nonzero)
  then show ?thesis using False by (simp add: gf_mul_def power_add)
qed (auto simp: gf_mul_def)

lemma alpha_pow_diff:
  assumes "j < 65535"
  shows "alpha ^ (i + 65535 - j) = alpha ^ i / alpha ^ j"
proof -
  have "alpha ^ (i + 65535 - j) * alpha ^ j = alpha ^ i * alpha ^ 65535"
    using assms by (simp flip: power_add)
  then show ?thesis
    by (metis alpha_order mult.right_neutral nonzero_mult_div_cancel_right alpha_pow_nonzero)
qed

lemma gf_div_value: "b \<noteq> 0 \<Longrightarrow> gf_div gf a b = Some (word_of (gf_of a / gf_of b))"
proof -
  assume b: "b \<noteq> 0"
  then obtain j where j: "j < 65535" "log_of gf b = j" "gf_of b = alpha ^ j" by (rule log_of_nonzero)
  show ?thesis
  proof (cases "a = 0")
    case False
    then obtain i where "i < 65535" "log_of gf a = i" "gf_of a = alpha ^ i" by (rule log_of_nonzero)
    then show ?thesis using False b j alpha_pow_diff[of j i] by (simp add: gf_div_def exp_nth)
  qed (use b in \<open>simp add: gf_div_def\<close>)
qed

lemma gf_of_mul_exp [simp]: "gf_of (mul_exp gf a n) = gf_of a * alpha ^ n"
proof (cases "a = 0")
  case False
  then obtain i where "i < 65535" "log_of gf a = i" "gf_of a = alpha ^ i" by (rule log_of_nonzero)
  moreover have "n mod 65535 < 65535" by simp
  ultimately show ?thesis using False alpha_pow_mod[of n] by (simp add: mul_exp_def power_add)
qed (simp add: mul_exp_def)

lemma gf_of_div_exp [simp]: "gf_of (div_exp gf a n) = gf_of a / alpha ^ n"
proof (cases "a = 0")
  case False
  then obtain i where "i < 65535" "log_of gf a = i" "gf_of a = alpha ^ i" by (rule log_of_nonzero)
  moreover have "n mod 65535 < 65535" by simp
  ultimately show ?thesis using False alpha_pow_mod[of n] alpha_pow_diff[of "n mod 65535" i]
    by (simp add: div_exp_def)
qed (simp add: div_exp_def)

lemma gf_inv_value: "a \<noteq> 0 \<Longrightarrow> gf_inv gf a = Some (word_of (inverse (gf_of a)))"
proof -
  assume "a \<noteq> 0"
  moreover from this obtain i where "i < 65535" "log_of gf a = i" "gf_of a = alpha ^ i" by (rule log_of_nonzero)
  ultimately show ?thesis using alpha_pow_diff[of i 0] by (simp add: gf_inv_def exp_nth inverse_eq_divide)
qed

lemma gf_of_pow: "n < 2 ^ 48 \<Longrightarrow> a \<noteq> 0 \<Longrightarrow> gf_of (gf_pow gf a n) = gf_of a ^ n"
proof -
  assume n: "n < 2 ^ 48" and a: "a \<noteq> 0"
  obtain i where i: "i < 65535" "log_of gf a = i" "gf_of a = alpha ^ i" using a by (rule log_of_nonzero)
  have "i * n < 65535 * 2 ^ 48" using i(1) n by (intro mult_strict_mono) simp_all
  then have "i * n < 2 ^ 64" by simp
  moreover have "i * n mod 65535 < 131070" using mod_less_divisor[of 65535 "i * n"] by linarith
  ultimately show ?thesis using a i alpha_pow_mod[of "i * n"] by (simp add: gf_pow_def power_mult)
qed

end

subsection \<open>The generated tables keep the promise\<close>

lemma next_power_word:
  "next_power (ucast a) = ucast (times_x_word a)"
proof (rule bit_word_eqI)
  fix n assume n: "n < LENGTH(32)"
  define P :: "32 word" where "P = push_bit 1 (ucast a)"
  define Q where "Q = push_bit 1 a"
  have a16: "bit a m \<Longrightarrow> m < 16" for m by (drule bit_imp_le_length) simp
  have P: "bit P m \<longleftrightarrow> 1 \<le> m \<and> bit a (m - 1)" if "m < 32" for m
    using that a16 unfolding P_def by (auto simp only: bit_push_bit_iff bit_ucast_iff) simp_all
  have Q: "bit Q m \<longleftrightarrow> 1 \<le> m \<and> bit a (m - 1)" if "m < 16" for m
    using that unfolding Q_def by (auto simp only: bit_push_bit_iff) simp_all
  have b15: "drop_bit 16 P AND 1 \<noteq> 0 \<longleftrightarrow> bit a 15"
    unfolding and_one_eq mod_2_eq_odd by (simp add: P bit_0[symmetric] bit_drop_bit_eq del: bit_0)
  have m: "bit (0xFFFF :: 32 word) n \<longleftrightarrow> n < 16"
  proof -
    have "(0xFFFF :: 32 word) = mask 16" by (simp add: mask_eq_exp_minus_1)
    then show ?thesis using n by (simp only: bit_mask_iff) simp
  qed
  have p: "n < 16 \<Longrightarrow> bit (0x1100B :: 32 word) n \<longleftrightarrow> bit (0x100B :: u16) n"
    by (auto simp: bit_simps less_Suc_eq numeral_eq_Suc)
  have l: "next_power (ucast a) = (if bit a 15 then (P XOR 0x1100B) AND 0xFFFF else P)"
    unfolding next_power_def Let_def P_def[symmetric] primitive_poly_def b15 ..
  have r: "times_x_word a = Q XOR (if bit a 15 then 0x100B else 0)"
    unfolding times_x_word_def Q_def ..
  show "bit (next_power (ucast a)) n = bit (ucast (times_x_word a) :: 32 word) n"
  proof (cases "n < 16")
    case True
    then show ?thesis using n m p P[of n] Q[of n] unfolding l r bit_ucast_iff
      by (cases "bit a 15") (simp_all only: if_True if_False bit_and_iff bit_xor_iff xor.right_neutral, simp_all)
  next
    case False
    then have "\<not> bit P n" if "\<not> bit a 15" using P[of n] n that a16[of "n - 1"] by (cases "n = 16") auto
    moreover have "\<not> bit (ucast (times_x_word a) :: 32 word) n"
      using False by (auto simp: bit_ucast_iff dest: bit_imp_le_length)
    ultimately show ?thesis using m False unfolding l by (auto simp only: bit_and_iff split: if_splits)
  qed
qed

definition tables_upto :: "nat \<Rightarrow> u16 list \<times> u16 list \<times> 32 word \<Rightarrow> bool" where
  "tables_upto k = (\<lambda>(exps, logs, d).
     length exps = 131070 \<and> length logs = 65536 \<and> d = ucast (word_of (alpha ^ k))
     \<and> (\<forall>i < k. exps ! i = word_of (alpha ^ i) \<and> exps ! (65535 + i) = word_of (alpha ^ i)
          \<and> logs ! unat (word_of (alpha ^ i)) = of_nat i))"

lemma word_of_alpha_Suc: "word_of (alpha ^ Suc k) = times_x_word (word_of (alpha ^ k))"
  by (simp add: alpha_times times_x.rep_eq)

lemma unat_ucast32 [simp]: "unat (ucast (a :: u16) :: 32 word) = unat a"
proof -
  have "unat a < 2 ^ 16" by (rule order_less_le_trans[OF unsigned_less]) simp
  also have "(2 :: nat) ^ 16 < 2 ^ 32" by simp
  finally show ?thesis by (simp add: unsigned_ucast_eq take_bit_nat_eq_self del: power_numeral)
qed

lemma ucast_ucast16 [simp]: "ucast (ucast (a :: u16) :: 32 word) = a"
  by (rule bit_word_eqI) (simp add: bit_simps)

lemma table_step_upto:
  assumes "tables_upto k t" and "k < 65535"
  shows "tables_upto (Suc k) (table_step k t)"
proof -
  obtain exps logs d where t: "t = (exps, logs, d)" by (cases t) auto
  have d: "d = ucast (word_of (alpha ^ k))" and len: "length exps = 131070" "length logs = 65536"
    and tab: "\<And>i. i < k \<Longrightarrow> exps ! i = word_of (alpha ^ i) \<and> exps ! (65535 + i) = word_of (alpha ^ i)
          \<and> logs ! unat (word_of (alpha ^ i)) = of_nat i"
    using assms(1) by (auto simp: tables_upto_def t)
  have lt: "unat (word_of (alpha ^ i)) < 65536" for i
    by (rule order_less_le_trans[OF unsigned_less]) simp
  have ne: "unat (word_of (alpha ^ k)) \<noteq> unat (word_of (alpha ^ i))" if "i < k" for i
    using that alpha_pow_inject[of k i] assms(2) by (metis unsigned_word_eqI word_of_inject less_trans less_irrefl)
  have "next_power d = ucast (word_of (alpha ^ Suc k))"
    unfolding d next_power_word word_of_alpha_Suc ..
  then show ?thesis
    using assms(2) len tab lt ne
    by (auto simp: tables_upto_def t table_step_def d less_Suc_eq nth_list_update)
qed

lemma tables_fold:
  "k \<le> 65535 \<Longrightarrow> tables_upto k (fold table_step [0..<k] (replicate 131070 0, replicate 65536 0, 1))"
proof (induction k)
  case 0
  have "ucast (word_of 1) = (1 :: 32 word)" by (simp add: one_gf16_def gf_one.rep_eq)
  then show ?case by (simp add: tables_upto_def)
next
  case (Suc k)
  then show ?case using table_step_upto[of k] by simp
qed

lemma galois_new_tables: "galois_tables galois_new"
proof -
  have "fold table_step [0..<gf_max] (replicate (gf_max * 2) 0, replicate (gf_max + 1) 0, 1)
      = fold table_step [0..<65535] (replicate 131070 0, replicate 65536 0, 1)"
    unfolding gf_max_simp by (simp only: arith_simps numeral_plus_one)
  moreover obtain exps logs d where
    f: "fold table_step [0..<65535] (replicate 131070 0, replicate 65536 0, 1) = (exps, logs, d)"
    by (metis prod_cases3)
  ultimately have g: "galois_new = \<lparr>exp_tbl = exps, log_tbl = logs\<rparr>"
    unfolding galois_new_def generate_tables_def by (simp only: prod.case)
  have t: "i < 65535 \<Longrightarrow> exps ! i = word_of (alpha ^ i) \<and> exps ! (65535 + i) = word_of (alpha ^ i)
      \<and> logs ! unat (word_of (alpha ^ i)) = of_nat i" for i
    using tables_fold[of 65535] unfolding f tables_upto_def by simp
  have len: "length exps = 131070" "length logs = 65536"
    using tables_fold[of 65535] unfolding f tables_upto_def by simp_all
  show ?thesis
  proof
    fix i :: nat assume i: "i < 131070"
    have "exps ! i = word_of (alpha ^ i)"
    proof (cases "i < 65535")
      case False
      then have "exps ! i = word_of (alpha ^ (i - 65535))" using t[of "i - 65535"] i by simp
      also have "alpha ^ (i - 65535) = alpha ^ i" using False alpha_order
        by (metis le_add_diff_inverse mult_1 not_less power_add)
      finally show ?thesis .
    qed (use t in blast)
    then show "exp_tbl galois_new ! i = word_of (alpha ^ i)" by (simp add: g)
  next
    fix k :: nat assume "k < 65535"
    then show "log_tbl galois_new ! unat (word_of (alpha ^ k)) = of_nat k" using t by (simp add: g)
  qed (simp_all add: g len)
qed

interpretation tables: galois_tables galois_new
  by (rule galois_new_tables)


lemma word_of_times: "word_of (gf_of u * gf_of v) = mul_word u v"
  by (simp add: gf_of_times)

text \<open>C33: the tables of \<open>Galois16::new\<close> implement the field GF(2^16) of the primitive polynomial 0x1100B: \<open>mul\<close> is the
  carry-less product modulo the polynomial (\<open>mul_word\<close>, which uses no table), \<open>div\<close> is its inverse and panics exactly on a
  zero divisor, and \<open>alpha_pow\<close>, \<open>mul_exp\<close>, \<open>div_exp\<close> multiply and divide by powers of alpha for every exponent.\<close>

theorem galois_tables_are_the_field:
  "gf_mul galois_new a b = mul_word a b
     \<and> (gf_div galois_new a b = None \<longleftrightarrow> b = 0)
     \<and> map_option (mul_word b) (gf_div galois_new a b) = (if b = 0 then None else Some a)
     \<and> mul_exp galois_new a n = mul_word a (alpha_pow galois_new n)
     \<and> mul_word (div_exp galois_new a n) (alpha_pow galois_new n) = a
     \<and> alpha_pow galois_new 0 = 1
     \<and> alpha_pow galois_new (Suc n) = mul_word 2 (alpha_pow galois_new n)"
proof -
  have w: "u = v \<longleftrightarrow> gf_of u = gf_of v" for u v by simp
  have m: "gf_of (mul_word u v) = gf_of u * gf_of v" for u v by (simp add: gf_of_times)
  have "gf_div galois_new a 0 = None" by (simp add: gf_div_def)
  then have div: "gf_div galois_new a b = (if b = 0 then None else Some (word_of (gf_of a / gf_of b)))"
    using tables.gf_div_value by simp
  have two: "gf_of 2 = alpha" by (simp add: alpha_def)
  have "gf_mul galois_new a b = mul_word a b" unfolding w m by simp
  moreover have "gf_div galois_new a b = None \<longleftrightarrow> b = 0" by (simp add: div)
  moreover have "map_option (mul_word b) (gf_div galois_new a b) = (if b = 0 then None else Some a)"
  proof -
    have "mul_word b (word_of (gf_of a / gf_of b)) = a" if "b \<noteq> 0" unfolding w m using that by simp
    then show ?thesis by (simp add: div)
  qed
  moreover have "mul_exp galois_new a n = mul_word a (alpha_pow galois_new n)"
    unfolding w m by (simp add: tables.gf_of_alpha_pow)
  moreover have "mul_word (div_exp galois_new a n) (alpha_pow galois_new n) = a"
    unfolding w m by (simp add: tables.gf_of_alpha_pow)
  moreover have "alpha_pow galois_new 0 = 1" unfolding w by (simp add: tables.gf_of_alpha_pow gf_of_1)
  moreover have "alpha_pow galois_new (Suc n) = mul_word 2 (alpha_pow galois_new n)"
    unfolding w m by (simp add: tables.gf_of_alpha_pow two)
  ultimately show ?thesis by blast
qed

end
