(* ===== verification/CtdbSyndrome.thy ===== *)
theory CtdbSyndrome
  imports Galois "HOL-Library.Monad_Syntax"
begin

text \<open>
  The module \<open>syndrome\<close> of \<open>src/ctdb_rs/mod.rs\<close>: generator polynomial, LFSR parity, parity bytes and syndromes. A CD
  sample is the 16-bit word of its bits (\<open>i16_to_u16_bits\<close> and \<open>u16_to_i16_bits\<close> are casts); a parity or
  syndrome matrix is a list of columns. A panic is \<open>None\<close>: a failed \<open>assert\<close> or \<open>expect\<close>, an index outside its slice
  (\<open>read_cell\<close>, \<open>write_cell\<close>) or a negative \<open>usize\<close> difference (\<open>checked_sub\<close>). Each operation that indexes has a
  total twin (\<open>_cells\<close>, \<open>lfsr_next\<close>) and a lemma saying when it returns and that it then computes the twin; the other
  lemmas say that the syndromes of a column are the values of its data polynomial at the powers of \<open>alpha\<close>.
\<close>

subsection \<open>Errors inside panics\<close>

text \<open>\<open>?\<close> inside the panic option.\<close>

definition exec_bind :: "('e + 'a) option \<Rightarrow> ('a \<Rightarrow> ('e + 'b) option) \<Rightarrow> ('e + 'b) option" where
  "exec_bind m f = Option.bind m (\<lambda>r. case r of Inl e \<Rightarrow> Some (Inl e) | Inr x \<Rightarrow> f x)"

lemma exec_bind_simps [simp]:
  "exec_bind (Some (Inr x)) f = f x" "exec_bind (Some (Inl e)) f = Some (Inl e)" "exec_bind None f = None"
  by (simp_all add: exec_bind_def)

lemma exec_bind_eq_Inr: "exec_bind m f = Some (Inr y) \<longleftrightarrow> (\<exists>x. m = Some (Inr x) \<and> f x = Some (Inr y))"
  by (cases m) (auto simp: exec_bind_def split: sum.splits)

subsection \<open>Errors and geometry\<close>

datatype ctdb_rs_error =
    InvalidNpar nat
  | InvalidAudioLength nat nat
  | InvalidParityLength nat nat
  | InvalidParityShape nat nat

type_synonym matrix = "u16 list list"

definition ctdb_stride :: nat where "ctdb_stride = 11760"

definition i16_to_u16_bits :: "u16 \<Rightarrow> u16" where "i16_to_u16_bits sample = sample"
definition u16_to_i16_bits :: "u16 \<Rightarrow> u16" where "u16_to_i16_bits w = w"

definition validate_npar :: "nat \<Rightarrow> ctdb_rs_error + unit" where
  "validate_npar npar = (if npar \<in> {4, 8, 16} then Inr () else Inl (InvalidNpar npar))"

definition data_row_count :: "nat \<Rightarrow> (ctdb_rs_error + nat) option" where
  "data_row_count audio_words =
     (if audio_words < ctdb_stride * 2 then Some (Inl (InvalidAudioLength audio_words ctdb_stride))
      else map_option Inr (checked_sub (audio_words div ctdb_stride) 2))"

subsection \<open>Generator and shift register\<close>

text \<open>The loops that update an array in place from the next cell, left to right.\<close>

definition shift_update :: "(nat \<Rightarrow> u16 \<Rightarrow> u16 \<Rightarrow> u16 option) \<Rightarrow> nat \<Rightarrow> u16 list \<Rightarrow> u16 list option" where
  "shift_update f m xs =
     fold_opt (\<lambda>j xs. do {
       this \<leftarrow> read_cell xs j;
       next \<leftarrow> read_cell xs (j + 1);
       v \<leftarrow> f j this next;
       write_cell xs j v }) [0..<m] xs"

definition multiply_root :: "galois16 \<Rightarrow> nat \<Rightarrow> nat \<Rightarrow> u16 list \<Rightarrow> u16 list option" where
  "multiply_root gf npar root_exp gx =
     (let root = alpha_pow gf root_exp in do {
        top \<leftarrow> checked_sub npar 1;
        gx \<leftarrow> shift_update (\<lambda>j this next. Some (gf_mul gf this root XOR next)) top gx;
        constant \<leftarrow> read_cell gx top;
        write_cell gx top (gf_mul gf constant root) })"

definition make_generator_poly :: "galois16 \<Rightarrow> nat \<Rightarrow> (ctdb_rs_error + u16 list) option" where
  "make_generator_poly gf npar =
     exec_bind (Some (validate_npar npar)) (\<lambda>_.
       map_option Inr (do {
         top \<leftarrow> checked_sub npar 1;
         gx \<leftarrow> write_cell (replicate npar 0) top 1;
         fold_opt (multiply_root gf npar) [0..<npar] gx }))"

definition update_lfsr :: "galois16 \<Rightarrow> u16 list \<Rightarrow> u16 \<Rightarrow> u16 list \<Rightarrow> u16 list option" where
  "update_lfsr gf gx data_word wr =
     do {
       first \<leftarrow> read_cell wr 0;
       let feedback = first XOR data_word;
       top \<leftarrow> checked_sub (length wr) 1;
       wr \<leftarrow> shift_update (\<lambda>i this next. do {
           g \<leftarrow> read_cell gx i;
           Some (next XOR gf_mul gf g feedback) }) top wr;
       g \<leftarrow> read_cell gx top;
       write_cell wr top (gf_mul gf g feedback) }"

definition compute_column_parity :: "galois16 \<Rightarrow> u16 list \<Rightarrow> u16 list \<Rightarrow> nat \<Rightarrow> u16 list option" where
  "compute_column_parity gf gx column_data npar =
     (if length gx \<noteq> npar then None else fold_opt (update_lfsr gf gx) column_data (replicate npar 0))"

text \<open>Every column is an independent register; the parallel loop is an \<open>opt_map\<close> over the columns.\<close>

definition compute_parity_matrix_from_audio ::
  "galois16 \<Rightarrow> u16 list \<Rightarrow> nat \<Rightarrow> (ctdb_rs_error + matrix) option" where
  "compute_parity_matrix_from_audio gf audio npar =
     exec_bind (data_row_count (length audio)) (\<lambda>rows.
     exec_bind (make_generator_poly gf npar) (\<lambda>gx.
       map_option Inr (opt_map (\<lambda>col.
           fold_opt (\<lambda>row wr. do {
             sample \<leftarrow> read_cell audio (ctdb_stride + row * ctdb_stride + col);
             update_lfsr gf gx (i16_to_u16_bits sample) wr }) [0..<rows] (replicate npar 0))
         [0..<ctdb_stride])))"

definition compute_parity_matrix_from_u16_words ::
  "galois16 \<Rightarrow> u16 list \<Rightarrow> nat \<Rightarrow> (ctdb_rs_error + matrix) option" where
  "compute_parity_matrix_from_u16_words gf words npar =
     exec_bind (data_row_count (length words)) (\<lambda>rows.
     exec_bind (make_generator_poly gf npar) (\<lambda>gx.
       map_option Inr (opt_map (\<lambda>col.
           fold_opt (\<lambda>row wr. do {
             w \<leftarrow> read_cell words (ctdb_stride + row * ctdb_stride + col);
             update_lfsr gf gx w wr }) [0..<rows] (replicate npar 0))
         [0..<ctdb_stride])))"

subsection \<open>Parity bytes\<close>

definition from_le_bytes :: "u8 \<Rightarrow> u8 \<Rightarrow> u16" where
  "from_le_bytes lo hi = ucast lo OR push_bit 8 (ucast hi)"

definition to_le_bytes :: "u16 \<Rightarrow> u8 list" where
  "to_le_bytes w = [ucast w, ucast (drop_bit 8 w)]"

text \<open>Cell \<open>[j][i]\<close> is stored at \<open>(j + i * stride) * 2\<close>: symbol-major, column by column.\<close>

definition try_bytes_to_parity :: "u8 list \<Rightarrow> nat \<Rightarrow> nat \<Rightarrow> (ctdb_rs_error + matrix) option" where
  "try_bytes_to_parity data stride npar =
     exec_bind (Some (validate_npar npar)) (\<lambda>_.
       let need = stride * npar * 2 in
       if length data < need then Some (Inl (InvalidParityLength (length data) need))
       else map_option Inr (opt_map (\<lambda>j. opt_map (\<lambda>i. do {
           let offset = (j + i * stride) * 2;
           lo \<leftarrow> read_cell data offset;
           hi \<leftarrow> read_cell data (offset + 1);
           Some (from_le_bytes lo hi) }) [0..<npar]) [0..<stride]))"

definition bytes_to_parity :: "u8 list \<Rightarrow> nat \<Rightarrow> nat \<Rightarrow> matrix option" where
  "bytes_to_parity data stride npar =
     do { r \<leftarrow> try_bytes_to_parity data stride npar; case r of Inr parity \<Rightarrow> Some parity | Inl _ \<Rightarrow> None }"

definition parity_shape_ok :: "matrix \<Rightarrow> nat \<Rightarrow> nat \<Rightarrow> bool" where
  "parity_shape_ok parity stride npar \<longleftrightarrow>
     stride \<le> length parity \<and> (\<forall>row \<in> set (take stride parity). npar \<le> length row)"

definition parity_to_bytes :: "matrix \<Rightarrow> nat \<Rightarrow> nat \<Rightarrow> u8 list option" where
  "parity_to_bytes parity stride npar =
     (if parity_shape_ok parity stride npar
      then map_option concat (opt_map (\<lambda>i. map_option concat (opt_map (\<lambda>j. do {
             row \<leftarrow> read_cell parity j;
             symbol \<leftarrow> read_cell row i;
             Some (to_le_bytes symbol) }) [0..<stride])) [0..<npar])
      else None)"

definition check_parity_shape :: "matrix \<Rightarrow> nat \<Rightarrow> nat \<Rightarrow> ctdb_rs_error + unit" where
  "check_parity_shape parity stride npar =
     (if parity_shape_ok parity stride npar then Inr () else Inl (InvalidParityShape stride npar))"

subsection \<open>Syndromes\<close>

text \<open>The column that the word offset rotates into place: 64-bit subtraction, then \<open>rem_euclid\<close>.\<close>

definition rotated_column :: "nat \<Rightarrow> int \<Rightarrow> nat \<Rightarrow> nat" where
  "rotated_column stride word_offset y = nat (signed_take_bit 63 (int y - word_offset) mod int stride)"

definition add_symbol :: "galois16 \<Rightarrow> nat \<Rightarrow> u16 list \<Rightarrow> nat \<Rightarrow> u16 list \<Rightarrow> u16 list option" where
  "add_symbol gf npar par_row x1 row =
     do {
       par \<leftarrow> read_cell par_row x1;
       if par \<noteq> 0 then do {
         logarithm \<leftarrow> gf_log gf par;
         let llo = logarithm + gf_max;
         fold_opt (\<lambda>x row. do {
           k \<leftarrow> checked_sub llo ((1 + x1) * x);
           e \<leftarrow> read_cell (exp_tbl gf) k;
           cell \<leftarrow> read_cell row x;
           write_cell row x (cell XOR e) }) [0..<npar] row }
       else Some row }"

definition column_syndrome :: "galois16 \<Rightarrow> nat \<Rightarrow> u16 list \<Rightarrow> u16 list option" where
  "column_syndrome gf npar par_row = fold_opt (add_symbol gf npar par_row) [0..<npar] (replicate npar 0)"

definition parity_to_syndrome_with_word_offset ::
  "galois16 \<Rightarrow> matrix \<Rightarrow> nat \<Rightarrow> nat \<Rightarrow> int \<Rightarrow> (ctdb_rs_error + matrix) option" where
  "parity_to_syndrome_with_word_offset gf parity npar stride word_offset =
     exec_bind (Some (validate_npar npar)) (\<lambda>_.
     exec_bind (Some (check_parity_shape parity stride npar)) (\<lambda>_.
       map_option Inr (opt_map (\<lambda>y. do {
         par_row \<leftarrow> read_cell parity (rotated_column stride word_offset y);
         column_syndrome gf npar par_row }) [0..<stride])))"

definition parity_to_syndrome ::
  "galois16 \<Rightarrow> matrix \<Rightarrow> nat \<Rightarrow> nat \<Rightarrow> int \<Rightarrow> (ctdb_rs_error + matrix) option" where
  "parity_to_syndrome gf parity npar stride sample_offset =
     parity_to_syndrome_with_word_offset gf parity npar stride (sample_offset * 2)"

definition xor_syndrome_matrices :: "matrix \<Rightarrow> matrix \<Rightarrow> matrix option" where
  "xor_syndrome_matrices lhs rhs =
     (if length lhs = length rhs \<and> (\<forall>(a, b) \<in> set (zip lhs rhs). length a = length b)
      then Some (map2 (map2 (XOR)) lhs rhs) else None)"

subsection \<open>Rows of the image\<close>

lemma data_row_count_Inr:
  "data_row_count n = Some (Inr rows) \<longleftrightarrow> ctdb_stride * 2 \<le> n \<and> rows = n div ctdb_stride - 2"
proof -
  have "2 \<le> n div ctdb_stride" if "ctdb_stride * 2 \<le> n"
    using div_le_mono[OF that, of ctdb_stride] by (simp add: ctdb_stride_def)
  then show ?thesis by (auto simp: data_row_count_def checked_sub_def)
qed

lemma data_row_count_bound:
  assumes "data_row_count n = Some (Inr rows)"
  shows "2 * ctdb_stride \<le> n" and "ctdb_stride + rows * ctdb_stride + ctdb_stride \<le> n"
proof -
  have r: "rows = n div ctdb_stride - 2" and n: "ctdb_stride * 2 \<le> n"
    using assms by (auto simp: data_row_count_Inr)
  show "2 * ctdb_stride \<le> n" using n by simp
  have "2 \<le> n div ctdb_stride" using n div_le_mono[OF n, of ctdb_stride] by (simp add: ctdb_stride_def)
  then have "rows + 2 = n div ctdb_stride" unfolding r by simp
  then have "(rows + 2) * ctdb_stride \<le> n" using div_times_less_eq_dividend[of n ctdb_stride] by simp
  then show "ctdb_stride + rows * ctdb_stride + ctdb_stride \<le> n" by (simp add: algebra_simps)
qed

lemma data_row_count_cases:
  obtains (error) e where "data_row_count n = Some (Inl e)" | (rows) rows where "data_row_count n = Some (Inr rows)"
proof (cases "n < ctdb_stride * 2")
  case False
  then show ?thesis using that(2) by (auto simp: data_row_count_Inr)
qed (use that(1) in \<open>simp add: data_row_count_def\<close>)

lemma protected_index_bound:
  assumes "data_row_count n = Some (Inr rows)" and "row < rows" and "col < ctdb_stride"
  shows "ctdb_stride + row * ctdb_stride + col < n"
proof -
  have "Suc row * ctdb_stride \<le> rows * ctdb_stride" using assms(2) by (intro mult_right_mono) simp_all
  then show ?thesis using data_row_count_bound(2)[OF assms(1)] assms(3) by simp
qed

subsection \<open>In-place loops\<close>

text \<open>A loop over the first cells of an array, each replaced by a function of itself.\<close>

lemma cells_in_place:
  assumes "m \<le> length xs" and "\<And>j zs. j < m \<Longrightarrow> length zs = length xs \<Longrightarrow> step j zs = Some (zs[j := f j (zs ! j)])"
  shows "fold_opt step [0..<m] xs = Some (map (\<lambda>j. f j (xs ! j)) [0..<m] @ drop m xs)"
  using assms
proof (induction m)
  case (Suc m)
  let ?ys = "map (\<lambda>j. f j (xs ! j)) [0..<m] @ drop m xs"
  have "fold_opt step [0..<m] xs = Some ?ys" using Suc by simp
  moreover have "step m ?ys = Some (?ys[m := f m (?ys ! m)])" using Suc.prems by simp
  moreover have "?ys[m := f m (?ys ! m)] = map (\<lambda>j. f j (xs ! j)) [0..<Suc m] @ drop (Suc m) xs"
    using Suc.prems(1) by (simp add: list_update_append nth_append flip: Cons_nth_drop_Suc)
  ultimately show ?case by (simp add: fold_opt_append)
qed simp

definition shift_cells :: "(nat \<Rightarrow> u16 \<Rightarrow> u16 \<Rightarrow> u16) \<Rightarrow> nat \<Rightarrow> u16 list \<Rightarrow> u16 list" where
  "shift_cells f m xs = fold (\<lambda>j xs. xs[j := f j (xs ! j) (xs ! (j + 1))]) [0..<m] xs"

lemma shift_cells_length [simp]: "length (shift_cells f m xs) = length xs"
proof -
  have "length (fold (\<lambda>j xs. xs[j := f j (xs ! j) (xs ! (j + 1))]) js xs) = length xs" for js
    by (induction js arbitrary: xs) simp_all
  then show ?thesis by (simp add: shift_cells_def)
qed

lemma shift_cells_nth:
  "m < length xs \<Longrightarrow>
     shift_cells f m xs ! j = (if j < m then f j (xs ! j) (xs ! (j + 1)) else xs ! j)"
proof (induction m arbitrary: j)
  case (Suc m)
  then have "shift_cells f (Suc m) xs
      = (shift_cells f m xs)[m := f m (shift_cells f m xs ! m) (shift_cells f m xs ! (m + 1))]"
    by (simp add: shift_cells_def)
  then show ?case using Suc by (auto simp: nth_list_update)
qed (simp add: shift_cells_def)

lemma shift_update_total:
  assumes "m < length xs" and "\<And>j this next. j < m \<Longrightarrow> f j this next = Some (g j this next)"
  shows "shift_update f m xs = Some (shift_cells g m xs)"
proof -
  have "fold_opt (\<lambda>j xs. do { this \<leftarrow> read_cell xs j; next \<leftarrow> read_cell xs (j + 1); v \<leftarrow> f j this next; write_cell xs j v })
      [0..<m] xs = Some (shift_cells g m xs) \<and> length (shift_cells g m xs) = length xs"
    unfolding shift_cells_def
    by (rule fold_opt_pure[where P = "\<lambda>zs. length zs = length xs"]) (use assms in auto)
  then show ?thesis by (simp add: shift_update_def)
qed

definition multiply_root_cells :: "galois16 \<Rightarrow> nat \<Rightarrow> nat \<Rightarrow> u16 list \<Rightarrow> u16 list" where
  "multiply_root_cells gf npar root_exp gx =
     (let root = alpha_pow gf root_exp;
          gx = shift_cells (\<lambda>j this next. gf_mul gf this root XOR next) (npar - 1) gx
      in gx[npar - 1 := gf_mul gf (gx ! (npar - 1)) root])"

lemma multiply_root_total:
  assumes "0 < npar" and "length gx = npar"
  shows "multiply_root gf npar k gx = Some (multiply_root_cells gf npar k gx) \<and> length (multiply_root_cells gf npar k gx) = npar"
proof -
  have "shift_update (\<lambda>j this next. Some (gf_mul gf this (alpha_pow gf k) XOR next)) (npar - 1) gx
      = Some (shift_cells (\<lambda>j this next. gf_mul gf this (alpha_pow gf k) XOR next) (npar - 1) gx)"
    by (rule shift_update_total) (use assms in simp_all)
  then show ?thesis using assms by (simp add: multiply_root_def multiply_root_cells_def checked_sub_def Let_def)
qed

definition generator_cells :: "galois16 \<Rightarrow> nat \<Rightarrow> u16 list" where
  "generator_cells gf npar = fold (multiply_root_cells gf npar) [0..<npar] ((replicate npar 0)[npar - 1 := 1])"

lemma make_generator_poly_eq:
  "make_generator_poly gf npar
    = Some (if npar \<in> {4, 8, 16} then Inr (generator_cells gf npar) else Inl (InvalidNpar npar))"
proof (cases "npar \<in> {4, 8, 16}")
  case True
  then have n: "0 < npar" by auto
  have "fold_opt (multiply_root gf npar) [0..<npar] ((replicate npar 0)[npar - 1 := 1]) = Some (generator_cells gf npar)
      \<and> length (generator_cells gf npar) = npar"
    unfolding generator_cells_def
    by (rule fold_opt_pure[where P = "\<lambda>gx. length gx = npar"]) (simp_all add: multiply_root_total n)
  then show ?thesis
    using True n by (simp add: make_generator_poly_def validate_npar_def checked_sub_def del: replicate_Suc)
qed (simp add: make_generator_poly_def validate_npar_def)

text \<open>One step of the register, and the register after a column.\<close>

definition lfsr_next :: "galois16 \<Rightarrow> u16 list \<Rightarrow> u16 \<Rightarrow> u16 list \<Rightarrow> u16 list" where
  "lfsr_next gf gx data_word wr =
     (let npar = length wr;
          feedback = wr ! 0 XOR data_word;
          wr = shift_cells (\<lambda>i this next. next XOR gf_mul gf (gx ! i) feedback) (npar - 1) wr
      in wr[npar - 1 := gf_mul gf (gx ! (npar - 1)) feedback])"

lemma lfsr_next_length [simp]: "length (lfsr_next gf gx d wr) = length wr"
  by (simp add: lfsr_next_def Let_def)

lemma lfsr_run_length [simp]: "length (fold (lfsr_next gf gx) ds wr) = length wr"
  by (induction ds arbitrary: wr) simp_all

lemma update_lfsr_total:
  assumes "0 < length wr" and "length gx = length wr"
  shows "update_lfsr gf gx d wr = Some (lfsr_next gf gx d wr)"
proof -
  have "shift_update (\<lambda>i this next. do { g \<leftarrow> read_cell gx i; Some (next XOR gf_mul gf g (wr ! 0 XOR d)) }) (length wr - 1) wr
      = Some (shift_cells (\<lambda>i this next. next XOR gf_mul gf (gx ! i) (wr ! 0 XOR d)) (length wr - 1) wr)"
    by (rule shift_update_total) (use assms in simp_all)
  moreover have "checked_sub (length wr) 1 = Some (length wr - 1)" using assms(1) unfolding checked_sub_def by presburger
  ultimately show ?thesis using assms by (simp add: update_lfsr_def lfsr_next_def Let_def)
qed

lemma lfsr_run_total:
  assumes "0 < npar" and "length gx = npar" and "length wr = npar" and "\<And>i wr. i \<in> set is \<Longrightarrow> body i wr = update_lfsr gf gx (d i) wr"
  shows "fold_opt body is wr = Some (fold (lfsr_next gf gx) (map d is) wr)"
proof -
  have "fold_opt body is wr = Some (fold (\<lambda>i. lfsr_next gf gx (d i)) is wr)
      \<and> length (fold (\<lambda>i. lfsr_next gf gx (d i)) is wr) = npar"
    by (rule fold_opt_pure[where P = "\<lambda>wr. length wr = npar"]) (simp_all add: assms update_lfsr_total)
  then show ?thesis by (simp add: fold_map comp_def)
qed

lemma lfsr_data_total:
  assumes "0 < npar" and "length gx = npar" and "length wr = npar"
  shows "fold_opt (update_lfsr gf gx) ds wr = Some (fold (lfsr_next gf gx) ds wr)"
  using lfsr_run_total[OF assms, of ds _ gf "\<lambda>d. d"] by simp

text \<open>The protected words of a column.\<close>

definition column_words :: "u16 list \<Rightarrow> nat \<Rightarrow> nat \<Rightarrow> u16 list" where
  "column_words audio rows col =
     map (\<lambda>row. i16_to_u16_bits (audio ! (ctdb_stride + row * ctdb_stride + col))) [0..<rows]"

lemma generator_cells_length: "0 < npar \<Longrightarrow> length (generator_cells gf npar) = npar"
proof -
  assume "0 < npar"
  then have "length gx = npar \<Longrightarrow> length (fold (multiply_root_cells gf npar) ks gx) = npar" for ks gx
    using multiply_root_total by (induction ks arbitrary: gx) auto
  then show ?thesis by (simp add: generator_cells_def del: replicate_Suc)
qed

lemma parity_matrix_total:
  assumes "data_row_count (length audio) = Some (Inr rows)" and "make_generator_poly gf npar = Some (Inr gx)"
  shows "compute_parity_matrix_from_audio gf audio npar
    = Some (Inr (map (\<lambda>col. fold (lfsr_next gf gx) (column_words audio rows col) (replicate npar 0)) [0..<ctdb_stride]))"
proof -
  have n: "0 < npar" and gx: "length gx = npar"
    using assms(2) generator_cells_length[of npar gf] by (auto simp: make_generator_poly_eq split: if_splits)
  have "fold_opt (\<lambda>row wr. do {
        sample \<leftarrow> read_cell audio (ctdb_stride + row * ctdb_stride + col);
        update_lfsr gf gx (i16_to_u16_bits sample) wr }) [0..<rows] (replicate npar 0)
      = Some (fold (lfsr_next gf gx) (column_words audio rows col) (replicate npar 0))" if "col < ctdb_stride" for col
    using lfsr_run_total[OF n gx, of "replicate npar 0" "[0..<rows]" _ gf
        "\<lambda>row. i16_to_u16_bits (audio ! (ctdb_stride + row * ctdb_stride + col))"]
      protected_index_bound[OF assms(1) _ that]
    by (simp add: column_words_def)
  from opt_map_total[of "[0..<ctdb_stride]", OF this] show ?thesis
    using assms by (simp add: compute_parity_matrix_from_audio_def)
qed

subsection \<open>Polynomials with the highest coefficient first\<close>

lemma sum_split_factor:
  "(\<Sum>i\<in>A. (a i + b i * c) * p i) = (\<Sum>i\<in>A. a i * p i) + (\<Sum>i\<in>A. b i * p i) * (c :: 'a :: comm_ring_1)"
  by (simp add: distrib_right sum.distrib sum_distrib_right mult.assoc mult.commute[of c])

definition poly_at :: "u16 list \<Rightarrow> gf16 \<Rightarrow> gf16" where
  "poly_at ws r = (\<Sum>i<length ws. gf_of (ws ! i) * r ^ (length ws - 1 - i))"

lemma poly_at_Nil [simp]: "poly_at [] r = 0"
  by (simp add: poly_at_def)

lemma poly_at_snoc: "poly_at (ws @ [w]) r = poly_at ws r * r + gf_of w"
proof -
  have "(\<Sum>i<length ws. gf_of ((ws @ [w]) ! i) * r ^ (length ws - i))
      = (\<Sum>i<length ws. gf_of (ws ! i) * r ^ (length ws - 1 - i) * r)"
  proof (rule sum.cong[OF refl])
    fix i assume "i \<in> {..<length ws}"
    then show "gf_of ((ws @ [w]) ! i) * r ^ (length ws - i) = gf_of (ws ! i) * r ^ (length ws - 1 - i) * r"
      by (simp add: nth_append Suc_diff_Suc flip: power_Suc2)
  qed
  then show ?thesis by (simp add: poly_at_def sum_distrib_right)
qed

lemma poly_at_Suc:
  assumes "length ws = Suc n"
  shows "poly_at ws r = (\<Sum>i<n. gf_of (ws ! i) * r ^ (n - i)) + gf_of (ws ! n)"
  using assms by (simp add: poly_at_def)

lemma poly_at_split_first:
  assumes "length ws = Suc n"
  shows "poly_at ws r = gf_of (ws ! 0) * r ^ n + (\<Sum>i<n. gf_of (ws ! Suc i) * r ^ (n - Suc i))"
  using assms by (simp add: poly_at_def sum.lessThan_Suc_shift del: sum.lessThan_Suc)

lemma poly_at_replicate0 [simp]: "poly_at (replicate n 0) r = 0"
  by (simp add: poly_at_def)

subsection \<open>Generator and shift register in the field\<close>

context galois_tables begin

lemma multiply_root_value:
  assumes "length gx = Suc n"
  shows "length (multiply_root_cells gf (Suc n) k gx) = Suc n"
    and "j < n \<Longrightarrow> gf_of (multiply_root_cells gf (Suc n) k gx ! j) = gf_of (gx ! j) * alpha ^ k + gf_of (gx ! Suc j)"
    and "gf_of (multiply_root_cells gf (Suc n) k gx ! n) = gf_of (gx ! n) * alpha ^ k"
  using assms by (simp_all add: multiply_root_cells_def Let_def shift_cells_nth gf_of_xor gf_of_alpha_pow)

lemma multiply_root_poly:
  assumes "length gx = Suc n"
  shows "poly_at (multiply_root_cells gf (Suc n) k gx) r = poly_at gx r * (r + alpha ^ k) + gf_of (gx ! 0) * r ^ Suc n"
proof -
  let ?g = "multiply_root_cells gf (Suc n) k gx"
  note v = multiply_root_value[OF assms, where k = k]
  have "poly_at ?g r = (\<Sum>i<n. (gf_of (gx ! Suc i) + gf_of (gx ! i) * alpha ^ k) * r ^ (n - i)) + gf_of (gx ! n) * alpha ^ k"
    unfolding poly_at_Suc[OF v(1)] v(3) by (simp add: v(2) add.commute)
  also have "\<dots> = poly_at gx r * alpha ^ k + (\<Sum>i<n. gf_of (gx ! Suc i) * r ^ (n - i))"
    unfolding poly_at_Suc[OF assms] sum_split_factor by (simp add: distrib_right)
  also have "(\<Sum>i<n. gf_of (gx ! Suc i) * r ^ (n - i)) = r * (\<Sum>i<n. gf_of (gx ! Suc i) * r ^ (n - Suc i))"
    unfolding sum_distrib_left by (intro sum.cong refl) (simp add: Suc_diff_Suc mult.left_commute flip: power_Suc)
  also have "\<dots> = poly_at gx r * r + gf_of (gx ! 0) * r ^ Suc n"
    unfolding poly_at_split_first[OF assms] by (simp add: algebra_simps)
  finally show ?thesis by (simp add: distrib_left ac_simps)
qed

text \<open>After \<open>k < npar\<close> roots the array is their product, its leading one \<open>k\<close> cells from the end.\<close>

lemma generator_upto:
  assumes "k \<le> n"
  shows "length (fold (multiply_root_cells gf (Suc n)) [0..<k] ((replicate (Suc n) 0)[n := 1])) = Suc n
    \<and> (\<forall>i < n - k. gf_of (fold (multiply_root_cells gf (Suc n)) [0..<k] ((replicate (Suc n) 0)[n := 1]) ! i) = 0)
    \<and> gf_of (fold (multiply_root_cells gf (Suc n)) [0..<k] ((replicate (Suc n) 0)[n := 1]) ! (n - k)) = 1
    \<and> (\<forall>r. poly_at (fold (multiply_root_cells gf (Suc n)) [0..<k] ((replicate (Suc n) 0)[n := 1])) r = (\<Prod>j<k. r + alpha ^ j))"
  using assms
proof (induction k)
  case 0
  have "poly_at ((replicate (Suc n) 0)[n := 1]) r = 1" for r
    by (simp add: poly_at_def gf_of_1 nth_list_update if_distrib sum.neutral del: replicate_Suc)
  then show ?case by (simp add: gf_of_1 del: replicate_Suc)
next
  case (Suc k)
  let ?g = "fold (multiply_root_cells gf (Suc n)) [0..<k] ((replicate (Suc n) 0)[n := 1])"
  have g: "length ?g = Suc n" "\<And>i. i < n - k \<Longrightarrow> gf_of (?g ! i) = 0" "gf_of (?g ! (n - k)) = 1"
    "\<And>r. poly_at ?g r = (\<Prod>j<k. r + alpha ^ j)"
    using Suc by (simp_all del: replicate_Suc)
  have z: "gf_of (?g ! 0) = 0" using g(2)[of 0] Suc.prems by simp
  have "gf_of (multiply_root_cells gf (Suc n) k ?g ! i) = 0" if "i < n - Suc k" for i
    using multiply_root_value(2)[OF g(1), of i k] g(2)[of i] g(2)[of "Suc i"] that by simp
  moreover have "gf_of (multiply_root_cells gf (Suc n) k ?g ! (n - Suc k)) = 1"
    using multiply_root_value(2)[OF g(1), of "n - Suc k" k] g(2)[of "n - Suc k"] g(3) Suc.prems
    by (simp add: Suc_diff_Suc)
  moreover have "poly_at (multiply_root_cells gf (Suc n) k ?g) r = (\<Prod>j<Suc k. r + alpha ^ j)" for r
    unfolding multiply_root_poly[OF g(1)] g(4) z by simp
  ultimately show ?case using multiply_root_value(1)[OF g(1), of k] by (simp del: replicate_Suc)
qed

lemma generator_roots:
  assumes "make_generator_poly gf npar = Some (Inr gx)"
  shows "npar \<in> {4, 8, 16}" and "length gx = npar" and "k < npar \<Longrightarrow> poly_at gx (alpha ^ k) = (alpha ^ k) ^ npar"
proof -
  show n: "npar \<in> {4, 8, 16}"
    using assms by (auto simp: make_generator_poly_eq split: if_splits)
  then obtain n where n': "npar = Suc n" by (cases npar) auto
  let ?g = "fold (multiply_root_cells gf (Suc n)) [0..<n] ((replicate (Suc n) 0)[n := 1])"
  have g: "length ?g = Suc n" "gf_of (?g ! 0) = 1" "\<And>r. poly_at ?g r = (\<Prod>j<n. r + alpha ^ j)"
    using generator_upto[of n n] by (simp_all del: replicate_Suc)
  have gx: "gx = multiply_root_cells gf (Suc n) n ?g"
    using assms n by (simp add: make_generator_poly_eq generator_cells_def n' del: replicate_Suc split: if_splits)
  show "length gx = npar" unfolding gx n' by (rule multiply_root_value(1)[OF g(1)])
  assume k: "k < npar"
  have "poly_at gx (alpha ^ k) = (\<Prod>j<Suc n. alpha ^ k + alpha ^ j) + (alpha ^ k) ^ Suc n"
    unfolding gx multiply_root_poly[OF g(1)] g(2,3) by simp
  also have "(\<Prod>j<Suc n. alpha ^ k + alpha ^ j) = 0"
    using k n' by (intro prod_zero) auto
  finally show "poly_at gx (alpha ^ k) = (alpha ^ k) ^ npar" by (simp add: n')
qed

lemma lfsr_next_poly:
  assumes "length wr = Suc n" and "length gx = Suc n" and root: "poly_at gx r = r ^ Suc n"
  shows "poly_at (lfsr_next gf gx d wr) r = poly_at wr r * r + gf_of d * r ^ Suc n"
proof -
  let ?fb = "gf_of (wr ! 0) + gf_of d"
  let ?w = "lfsr_next gf gx d wr"
  have len: "length ?w = Suc n" using assms(1) by simp
  have v: "j < n \<Longrightarrow> gf_of (?w ! j) = gf_of (wr ! Suc j) + gf_of (gx ! j) * ?fb" for j
    using assms(1) by (simp add: lfsr_next_def Let_def shift_cells_nth gf_of_xor)
  have last: "gf_of (?w ! n) = gf_of (gx ! n) * ?fb"
    using assms(1) by (simp add: lfsr_next_def Let_def gf_of_xor)
  have "poly_at ?w r = (\<Sum>i<n. (gf_of (wr ! Suc i) + gf_of (gx ! i) * ?fb) * r ^ (n - i)) + gf_of (gx ! n) * ?fb"
    unfolding poly_at_Suc[OF len] last by (simp add: v del: gf_of_eq_0)
  also have "\<dots> = (\<Sum>i<n. gf_of (wr ! Suc i) * r ^ (n - i)) + poly_at gx r * ?fb"
    unfolding poly_at_Suc[OF assms(2)] sum_split_factor by (simp add: distrib_right)
  also have "(\<Sum>i<n. gf_of (wr ! Suc i) * r ^ (n - i)) = r * (\<Sum>i<n. gf_of (wr ! Suc i) * r ^ (n - Suc i))"
    unfolding sum_distrib_left by (intro sum.cong refl) (simp add: Suc_diff_Suc mult.left_commute flip: power_Suc)
  also have "\<dots> = poly_at wr r * r + gf_of (wr ! 0) * r ^ Suc n"
    unfolding poly_at_split_first[OF assms(1)] by (simp add: algebra_simps)
  finally show ?thesis unfolding root by (simp add: distrib_left distrib_right ac_simps)
qed

text \<open>The register holds the remainder of the shifted data: at a root of the generator, \<open>r^npar\<close> times the data.\<close>

lemma parity_poly:
  assumes "length gx = Suc n" and "poly_at gx r = r ^ Suc n"
  shows "length (fold (lfsr_next gf gx) ds (replicate (Suc n) 0)) = Suc n
    \<and> poly_at (fold (lfsr_next gf gx) ds (replicate (Suc n) 0)) r = poly_at ds r * r ^ Suc n"
proof (induction ds rule: rev_induct)
  case (snoc d ds)
  then show ?case
    using lfsr_next_poly[OF _ assms, of "fold (lfsr_next gf gx) ds (replicate (Suc n) 0)" d]
    by (simp add: poly_at_snoc algebra_simps del: replicate_Suc)
qed (simp del: replicate_Suc)

end

subsection \<open>Syndromes are values of the data polynomial\<close>

definition add_symbol_cells :: "galois16 \<Rightarrow> nat \<Rightarrow> u16 list \<Rightarrow> nat \<Rightarrow> u16 list \<Rightarrow> u16 list" where
  "add_symbol_cells gf npar par_row x1 row =
     (let par = par_row ! x1 in
      if par \<noteq> 0 then
        let llo = log_of gf par + gf_max in
        map (\<lambda>x. row ! x XOR exp_tbl gf ! (llo - (1 + x1) * x)) [0..<npar]
      else row)"

definition syndrome_cells :: "galois16 \<Rightarrow> nat \<Rightarrow> u16 list \<Rightarrow> u16 list" where
  "syndrome_cells gf npar par_row = fold (add_symbol_cells gf npar par_row) [0..<npar] (replicate npar 0)"

context galois_tables begin

lemma add_symbol_cells_length: "length row = npar \<Longrightarrow> length (add_symbol_cells gf npar par x1 row) = npar"
  by (simp add: add_symbol_cells_def Let_def)

lemma add_symbol_cells_value:
  assumes "length row = npar" and "x < npar" and "x1 < npar" and "npar \<le> 16"
  shows "gf_of (add_symbol_cells gf npar par x1 row ! x) = gf_of (row ! x) + gf_of (par ! x1) / alpha ^ ((1 + x1) * x)"
proof (cases "par ! x1 = 0")
  case False
  then obtain i where i: "i < 65535" "log_of gf (par ! x1) = i" "gf_of (par ! x1) = alpha ^ i" by (rule log_of_nonzero)
  have "(1 + x1) * x \<le> 16 * 16" using assms by (intro mult_mono) simp_all
  then have j: "(1 + x1) * x < 65535" by simp
  show ?thesis
    using False i assms(2) alpha_pow_diff[OF j, of i] by (simp add: add_symbol_cells_def Let_def gf_of_xor)
qed (simp add: add_symbol_cells_def)

lemma syndrome_cells_value:
  assumes "npar \<le> 16" and "x < npar"
  shows "length (syndrome_cells gf npar par) = npar"
    and "gf_of (syndrome_cells gf npar par ! x) = (\<Sum>x1<npar. gf_of (par ! x1) / alpha ^ ((1 + x1) * x))"
proof -
  have "m \<le> npar \<Longrightarrow> length (fold (add_symbol_cells gf npar par) [0..<m] (replicate npar 0)) = npar
    \<and> gf_of (fold (add_symbol_cells gf npar par) [0..<m] (replicate npar 0) ! x)
      = (\<Sum>x1<m. gf_of (par ! x1) / alpha ^ ((1 + x1) * x))" for m
  proof (induction m)
    case (Suc m)
    then show ?case using add_symbol_cells_value[OF _ assms(2) _ assms(1), of _ m par] add_symbol_cells_length[of _ npar par m]
      by simp
  qed (use assms(2) in simp)
  from this[of npar] show "length (syndrome_cells gf npar par) = npar"
    and "gf_of (syndrome_cells gf npar par ! x) = (\<Sum>x1<npar. gf_of (par ! x1) / alpha ^ ((1 + x1) * x))"
    by (simp_all add: syndrome_cells_def)
qed

text \<open>With at most 16 symbols every index stays in range.\<close>

lemma add_symbol_total:
  assumes "npar \<le> 16" and "x1 < npar" and "npar \<le> length par" and "length row = npar"
  shows "add_symbol gf npar par x1 row = Some (add_symbol_cells gf npar par x1 row)"
proof (cases "par ! x1 = 0")
  case False
  let ?llo = "log_of gf (par ! x1) + gf_max"
  have llo: "65535 \<le> ?llo" "?llo < 131070" using log_of_lt[OF False] by simp_all
  have step: "do { k \<leftarrow> checked_sub ?llo ((1 + x1) * x); e \<leftarrow> read_cell (exp_tbl gf) k; cell \<leftarrow> read_cell zs x;
        write_cell zs x (cell XOR e) } = Some (zs[x := zs ! x XOR exp_tbl gf ! (?llo - (1 + x1) * x)])"
    if "x < npar" and "length zs = length row" for x zs
  proof -
    have "(1 + x1) * x \<le> 16 * 16" using that assms by (intro mult_mono) simp_all
    then have "(1 + x1) * x \<le> ?llo" "?llo - (1 + x1) * x < length (exp_tbl gf)"
      using llo unfolding exp_length by linarith+
    then show ?thesis using that assms(4) by (simp add: checked_sub_def del: gf_max_simp)
  qed
  show ?thesis
    using False assms cells_in_place[OF _ step, of npar row] by (simp add: add_symbol_def add_symbol_cells_def gf_log_def)
qed (use assms in \<open>simp add: add_symbol_def add_symbol_cells_def\<close>)

lemma column_syndrome_total:
  assumes "npar \<le> 16" and "npar \<le> length par"
  shows "column_syndrome gf npar par = Some (syndrome_cells gf npar par)"
proof -
  have "fold_opt (add_symbol gf npar par) [0..<npar] (replicate npar 0) = Some (syndrome_cells gf npar par)
      \<and> length (syndrome_cells gf npar par) = npar"
    unfolding syndrome_cells_def
    by (rule fold_opt_pure[where P = "\<lambda>row. length row = npar"])
      (simp_all add: add_symbol_total assms add_symbol_cells_length)
  then show ?thesis by (simp add: column_syndrome_def)
qed

lemma syndrome_cells_poly:
  assumes "npar \<le> 16" and "x < npar" and "length par = npar"
  shows "gf_of (syndrome_cells gf npar par ! x) * (alpha ^ x) ^ npar = poly_at par (alpha ^ x)"
proof -
  have "gf_of (par ! i) / alpha ^ ((1 + i) * x) * (alpha ^ x) ^ npar = gf_of (par ! i) * (alpha ^ x) ^ (npar - 1 - i)"
    if "i < npar" for i
  proof -
    have "(1 + i) * x + x * (npar - 1 - i) = x * ((1 + i) + (npar - 1 - i))" by (simp add: algebra_simps)
    also have "(1 + i) + (npar - 1 - i) = npar" using that by simp
    finally have "(alpha ^ x) ^ npar = alpha ^ ((1 + i) * x) * (alpha ^ x) ^ (npar - 1 - i)"
      by (metis power_add power_mult)
    then show ?thesis by simp
  qed
  then show ?thesis
    using assms(3) by (simp add: syndrome_cells_value[OF assms(1,2)] poly_at_def sum_distrib_right)
qed

text \<open>The syndromes of the parity of a column.\<close>

lemma parity_syndrome:
  assumes gx: "make_generator_poly gf npar = Some (Inr gx)" and x: "x < npar"
  shows "gf_of (syndrome_cells gf npar (fold (lfsr_next gf gx) ds (replicate npar 0)) ! x) = poly_at ds (alpha ^ x)"
proof -
  have n: "npar \<le> 16" using generator_roots(1)[OF gx] by auto
  obtain n' where n': "npar = Suc n'" using x by (cases npar) auto
  let ?par = "fold (lfsr_next gf gx) ds (replicate npar 0)"
  have "length ?par = npar \<and> poly_at ?par (alpha ^ x) = poly_at ds (alpha ^ x) * (alpha ^ x) ^ npar"
    using parity_poly[of gx n' "alpha ^ x" ds] generator_roots(2,3)[OF gx] x unfolding n' by simp
  then have "gf_of (syndrome_cells gf npar ?par ! x) * (alpha ^ x) ^ npar = poly_at ds (alpha ^ x) * (alpha ^ x) ^ npar"
    using syndrome_cells_poly[OF n x, of ?par] by simp
  then show ?thesis by simp
qed

end

lemma rotated_column_0: "y < stride \<Longrightarrow> stride < 2 ^ 62 \<Longrightarrow> rotated_column stride 0 y = y"
proof -
  assume y: "y < stride" and s: "stride < 2 ^ 62"
  have "int y < 2 ^ 63" using y s by simp
  then have "signed_take_bit 63 (int y) = int y" by (intro signed_take_bit_int_eq_self) simp_all
  then show ?thesis using y by (simp add: rotated_column_def)
qed

subsection \<open>Parity bytes round trip\<close>

lemma nth_concat_blocks:
  assumes "\<forall>i < n. length (f i) = m" and "i < n" and "k < m"
  shows "concat (map f [0..<n]) ! (i * m + k) = f i ! k"
  using assms
proof (induction n)
  case (Suc n)
  have len: "length (concat (map f [0..<l])) = l * m" if "l \<le> Suc n" for l
    using that Suc.prems(1) by (induction l) auto
  show ?case
  proof (cases "i = n")
    case True
    then show ?thesis using len[of n] by (simp add: nth_append)
  next
    case False
    then have "i < n" using Suc.prems(2) by simp
    moreover have "i * m + k < n * m"
    proof -
      have "Suc i * m \<le> n * m" using \<open>i < n\<close> by (intro mult_right_mono) simp_all
      then show ?thesis using Suc.prems(3) by simp
    qed
    ultimately show ?thesis using Suc len[of n] by (simp add: nth_append)
  qed
qed simp

lemma length_concat_blocks:
  "\<forall>i < n. length (f i) = m \<Longrightarrow> length (concat (map f [0..<n])) = n * m"
  by (induction n) auto

lemma le_bytes_round_trip: "from_le_bytes (to_le_bytes w ! 0) (to_le_bytes w ! 1) = w"
proof (rule bit_word_eqI)
  fix n assume "n < LENGTH(16)"
  then show "bit (from_le_bytes (to_le_bytes w ! 0) (to_le_bytes w ! 1)) n = bit w n"
    by (cases "n < 8") (auto simp: from_le_bytes_def to_le_bytes_def bit_simps)
qed

lemma parity_bytes_nth:
  assumes "i < npar" and "j < stride" and "k < 2"
  shows "concat (map (\<lambda>i. concat (map (\<lambda>j. to_le_bytes (parity ! j ! i)) [0..<stride])) [0..<npar])
      ! ((j + i * stride) * 2 + k) = to_le_bytes (parity ! j ! i) ! k"
proof -
  let ?row = "\<lambda>i. concat (map (\<lambda>j. to_le_bytes (parity ! j ! i)) [0..<stride])"
  have len: "length (?row i) = stride * 2" for i
    by (rule length_concat_blocks) (simp add: to_le_bytes_def)
  have idx: "(j + i * stride) * 2 + k = i * (stride * 2) + (j * 2 + k)" by (simp add: algebra_simps)
  have "j * 2 + k < stride * 2" using assms(2,3) by linarith
  then have "concat (map ?row [0..<npar]) ! ((j + i * stride) * 2 + k) = ?row i ! (j * 2 + k)"
    unfolding idx using len assms(1) by (intro nth_concat_blocks) auto
  also have "\<dots> = to_le_bytes (parity ! j ! i) ! k"
    by (rule nth_concat_blocks) (simp_all add: to_le_bytes_def assms(2,3))
  finally show ?thesis .
qed

lemma try_bytes_to_parity_Inr:
  "try_bytes_to_parity data stride npar = Some (Inr parity) \<longleftrightarrow> npar \<in> {4, 8, 16} \<and> stride * npar * 2 \<le> length data
    \<and> parity = map (\<lambda>j. map (\<lambda>i. from_le_bytes (data ! ((j + i * stride) * 2)) (data ! ((j + i * stride) * 2 + 1)))
        [0..<npar]) [0..<stride]"
  and try_bytes_to_parity_returns: "try_bytes_to_parity data stride npar \<noteq> None"
proof -
  have in_range: "(j + i * stride) * 2 + 1 < stride * npar * 2" if "i < npar" "j < stride" for i j
  proof -
    have "Suc i * stride \<le> npar * stride" using that(1) by (intro mult_right_mono) simp_all
    then show ?thesis using that(2) by (simp add: algebra_simps)
  qed
  have cells: "opt_map (\<lambda>j. opt_map (\<lambda>i. do { let offset = (j + i * stride) * 2; lo \<leftarrow> read_cell data offset;
        hi \<leftarrow> read_cell data (offset + 1); Some (from_le_bytes lo hi) }) [0..<npar]) [0..<stride]
      = Some (map (\<lambda>j. map (\<lambda>i. from_le_bytes (data ! ((j + i * stride) * 2)) (data ! ((j + i * stride) * 2 + 1)))
          [0..<npar]) [0..<stride])" if need: "stride * npar * 2 \<le> length data"
  proof (intro opt_map_total, goal_cases)
    case (1 j i)
    then show ?case using in_range[of i j] need by (simp add: Let_def)
  qed
  show "try_bytes_to_parity data stride npar \<noteq> None"
    using cells by (auto simp: try_bytes_to_parity_def validate_npar_def Let_def)
  show "try_bytes_to_parity data stride npar = Some (Inr parity) \<longleftrightarrow> npar \<in> {4, 8, 16} \<and> stride * npar * 2 \<le> length data
    \<and> parity = map (\<lambda>j. map (\<lambda>i. from_le_bytes (data ! ((j + i * stride) * 2)) (data ! ((j + i * stride) * 2 + 1)))
        [0..<npar]) [0..<stride]"
    using cells by (auto simp: try_bytes_to_parity_def validate_npar_def Let_def)
qed

lemma parity_to_bytes_total:
  assumes "parity_shape_ok parity stride npar"
  shows "parity_to_bytes parity stride npar
    = Some (concat (map (\<lambda>i. concat (map (\<lambda>j. to_le_bytes (parity ! j ! i)) [0..<stride])) [0..<npar]))"
proof -
  have cell: "do { row \<leftarrow> read_cell parity j; symbol \<leftarrow> read_cell row i; Some (to_le_bytes symbol) }
      = Some (to_le_bytes (parity ! j ! i))" if "i < npar" "j < stride" for i j
  proof -
    have "j < length parity" using assms that(2) by (simp add: parity_shape_ok_def)
    moreover then have "parity ! j \<in> set (take stride parity)" using that(2) by (auto simp: in_set_conv_nth)
    then have "npar \<le> length (parity ! j)" using assms by (simp add: parity_shape_ok_def)
    ultimately show ?thesis using that(1) by simp
  qed
  have "opt_map (\<lambda>j. do { row \<leftarrow> read_cell parity j; symbol \<leftarrow> read_cell row i; Some (to_le_bytes symbol) }) [0..<stride]
      = Some (map (\<lambda>j. to_le_bytes (parity ! j ! i)) [0..<stride])" if "i < npar" for i
    using cell[OF that] by (intro opt_map_total) simp
  then have "opt_map (\<lambda>i. map_option concat (opt_map (\<lambda>j. do { row \<leftarrow> read_cell parity j; symbol \<leftarrow> read_cell row i;
        Some (to_le_bytes symbol) }) [0..<stride])) [0..<npar]
      = Some (map (\<lambda>i. concat (map (\<lambda>j. to_le_bytes (parity ! j ! i)) [0..<stride])) [0..<npar])"
    by (intro opt_map_total) simp
  then show ?thesis using assms by (simp add: parity_to_bytes_def)
qed

lemma parity_bytes_inverse:
  assumes "npar \<in> {4, 8, 16}" and "length parity = stride" and "\<forall>row \<in> set parity. length row = npar"
  shows "\<exists>bytes. parity_to_bytes parity stride npar = Some bytes \<and> length bytes = stride * npar * 2
    \<and> try_bytes_to_parity bytes stride npar = Some (Inr parity)"
proof -
  let ?bytes = "concat (map (\<lambda>i. concat (map (\<lambda>j. to_le_bytes (parity ! j ! i)) [0..<stride])) [0..<npar])"
  have row: "length (concat (map (\<lambda>j. to_le_bytes (parity ! j ! i)) [0..<stride])) = stride * 2" for i
    by (rule length_concat_blocks) (simp add: to_le_bytes_def)
  have len: "length ?bytes = stride * npar * 2"
    by (subst length_concat_blocks[where m = "stride * 2"]) (simp_all add: row)
  have cell: "from_le_bytes (?bytes ! ((j + i * stride) * 2)) (?bytes ! ((j + i * stride) * 2 + 1)) = parity ! j ! i"
    if "i < npar" "j < stride" for i j
    using parity_bytes_nth[OF that, of 0] parity_bytes_nth[OF that, of 1] le_bytes_round_trip by simp
  have "map (\<lambda>j. map (\<lambda>i. from_le_bytes (?bytes ! ((j + i * stride) * 2)) (?bytes ! ((j + i * stride) * 2 + 1)))
      [0..<npar]) [0..<stride] = parity"
  proof (rule nth_equalityI)
    fix j assume j: "j < length (map (\<lambda>j. map (\<lambda>i. from_le_bytes (?bytes ! ((j + i * stride) * 2))
      (?bytes ! ((j + i * stride) * 2 + 1))) [0..<npar]) [0..<stride])"
    then have "length (parity ! j) = npar" using assms(2,3) by simp
    then show "map (\<lambda>j. map (\<lambda>i. from_le_bytes (?bytes ! ((j + i * stride) * 2))
      (?bytes ! ((j + i * stride) * 2 + 1))) [0..<npar]) [0..<stride] ! j = parity ! j"
      using j cell by (intro nth_equalityI) simp_all
  qed (simp add: assms(2))
  then have "try_bytes_to_parity ?bytes stride npar = Some (Inr parity)"
    using assms(1) len by (simp add: try_bytes_to_parity_Inr)
  moreover have "parity_to_bytes parity stride npar = Some ?bytes"
    using assms(2,3) by (intro parity_to_bytes_total) (simp add: parity_shape_ok_def)
  ultimately show ?thesis using len by blast
qed

text \<open>Parity matrices survive their byte form: what \<open>parity_to_bytes\<close> writes for a stride x npar matrix, \<open>try_bytes_to_parity\<close>
  reads back.\<close>

theorem parity_bytes_round_trip:
  assumes "npar \<in> {4, 8, 16}" and "length parity = stride" and "\<forall>row \<in> set parity. length row = npar"
  shows "Option.bind (parity_to_bytes parity stride npar) (\<lambda>bytes. bytes_to_parity bytes stride npar) = Some parity"
  using parity_bytes_inverse[OF assms] by (auto simp: bytes_to_parity_def)

theorem parity_bytes_round_trip_witness:
  "Option.bind (parity_to_bytes [[1, 2, 3, 4], [5, 6, 7, 8], [9, 10, 11, 12]] 3 4) (\<lambda>bytes. bytes_to_parity bytes 3 4)
    = Some [[1, 2, 3, 4], [5, 6, 7, 8], [9, 10, 11, 12]]"
  by (rule parity_bytes_round_trip) simp_all


subsection \<open>Code words\<close>

lemma poly_at_append: "poly_at (xs @ ys) r = poly_at xs r * r ^ length ys + poly_at ys r"
proof (induction ys rule: rev_induct)
  case (snoc y ys)
  then show ?case by (simp add: poly_at_snoc algebra_simps flip: append_assoc)
qed simp

text \<open>the parity of a column makes it a word of the systematic Reed-Solomon code: for every column, the polynomial of the data
  followed by its parity has \<open>npar\<close> coefficients more than the data and vanishes at alpha^0, ..., alpha^(npar-1).\<close>

theorem column_parity_code_word:
  assumes "make_generator_poly galois_new npar = Some (Inr gx)"
  shows "\<exists>par. compute_column_parity galois_new gx column_data npar = Some par \<and> length par = npar
    \<and> (\<forall>x < npar. poly_at (column_data @ par) (alpha ^ x) = 0)"
proof -
  note g = tables.generator_roots[OF assms]
  obtain n where n: "npar = Suc n" using g(1) by (cases npar) auto
  let ?par = "fold (lfsr_next galois_new gx) column_data (replicate npar 0)"
  have p: "length ?par = npar \<and> poly_at ?par (alpha ^ x) = poly_at column_data (alpha ^ x) * (alpha ^ x) ^ npar" if "x < npar" for x
    using tables.parity_poly[of gx n "alpha ^ x" column_data] g(2,3) that unfolding n by simp
  have "compute_column_parity galois_new gx column_data npar = Some ?par"
    using g(2) n lfsr_data_total[of npar gx "replicate npar 0"] by (simp add: compute_column_parity_def del: replicate_Suc)
  moreover have "poly_at (column_data @ ?par) (alpha ^ x) = 0" if "x < npar" for x
    using p[OF that] unfolding poly_at_append by simp
  ultimately show ?thesis using p[of 0] n by simp
qed

theorem column_parity_code_word_witness:
  "\<exists>gx par. make_generator_poly galois_new 4 = Some (Inr gx) \<and> compute_column_parity galois_new gx [1, 2, 3] 4 = Some par
     \<and> poly_at ([1, 2, 3] @ par) (alpha ^ 3) = 0"
proof -
  obtain gx where g: "make_generator_poly galois_new 4 = Some (Inr gx)" by (simp add: make_generator_poly_eq)
  from column_parity_code_word[OF g, of "[1, 2, 3]"] g show ?thesis by auto
qed

text \<open>The two entry points agree.\<close>

lemma parity_matrix_from_words_agrees:
  "compute_parity_matrix_from_u16_words gf (map i16_to_u16_bits audio) npar = compute_parity_matrix_from_audio gf audio npar"
proof -
  have "map i16_to_u16_bits audio = audio" by (simp add: i16_to_u16_bits_def[abs_def])
  then show ?thesis
    by (simp add: compute_parity_matrix_from_u16_words_def compute_parity_matrix_from_audio_def i16_to_u16_bits_def)
qed

end
