(* ===== verification/RsAlgebra.thy ===== *)
theory RsAlgebra
  imports Complex_Main
begin

text \<open>
  The algebra behind the Reed-Solomon decoder of \<open>src/ctdb_rs/mod.rs\<close>, over any field: the root bound of
  polynomial functions, the Vandermonde argument, linear recurrences and the Berlekamp-Massey invariant,
  the key equation and Forney's formula. Nothing here mentions the code.
\<close>

subsection \<open>Roots of polynomial functions\<close>

lemma poly_fun_zero:
  fixes c :: "nat \<Rightarrow> 'a :: idom"
  assumes "\<And>x. x \<in> S \<Longrightarrow> (\<Sum>i\<le>n. c i * x ^ i) = 0" and "n < card S"
  shows "(\<Sum>i\<le>n. c i * z ^ i) = 0"
  using assms
proof (induction n arbitrary: c S z)
  case 0
  then obtain x where "x \<in> S" by fastforce
  then show ?case using "0.prems"(1)[of x] by simp
next
  case (Suc n)
  have "finite S" using Suc.prems(2) by (intro card_ge_0_finite) simp
  obtain a where a: "a \<in> S" using Suc.prems(2) by fastforce
  obtain b where b: "\<And>z. (\<Sum>i\<le>Suc n. c i * z ^ i) = (z - a) * (\<Sum>i<Suc n. b i * z ^ i)"
    using polyfun_linear_factor_root[OF Suc.prems(1)[OF a]] by blast
  have "(\<Sum>i\<le>n. b i * x ^ i) = 0" if "x \<in> S - {a}" for x
    using Suc.prems(1)[of x] b[of x] that by (simp add: lessThan_Suc_atMost)
  moreover have "n < card (S - {a})" using Suc.prems(2) a \<open>finite S\<close> by simp
  ultimately have "(\<Sum>i\<le>n. b i * z ^ i) = 0" using Suc.IH[of "S - {a}" b z] by blast
  then show ?case using b[of z] by (simp add: lessThan_Suc_atMost)
qed

lemma poly_fun_zero_less:
  fixes c :: "nat \<Rightarrow> 'a :: idom"
  assumes "\<And>x. x \<in> S \<Longrightarrow> (\<Sum>i<n. c i * x ^ i) = 0" and "n \<le> card S" and "0 < n"
  shows "(\<Sum>i<n. c i * z ^ i) = 0"
  using assms poly_fun_zero[where S = S and n = "n - 1" and c = c and z = z] by (cases n) (simp_all add: lessThan_Suc_atMost)

lemma prod_minus_coeffs:
  fixes X :: "'i \<Rightarrow> 'a :: comm_ring_1"
  assumes "finite A"
  shows "\<exists>c. \<forall>x. (\<Prod>j\<in>A. x - X j) = (\<Sum>i\<le>card A. c i * x ^ i)"
  using assms
proof (induction A)
  case (insert a A)
  then obtain c where c: "\<And>x. (\<Prod>j\<in>A. x - X j) = (\<Sum>i\<le>card A. c i * x ^ i)" by blast
  let ?n = "card A"
  let ?d = "\<lambda>i. (if i = 0 then 0 else c (i - 1)) - (if i \<le> ?n then X a * c i else 0)"
  have "(\<Prod>j\<in>insert a A. x - X j) = (\<Sum>i\<le>Suc ?n. ?d i * x ^ i)" for x
  proof -
    have "(\<Sum>i\<le>Suc ?n. ?d i * x ^ i)
        = (\<Sum>i\<le>Suc ?n. (if i = 0 then 0 else c (i - 1)) * x ^ i) - (\<Sum>i\<le>Suc ?n. (if i \<le> ?n then X a * c i else 0) * x ^ i)"
      by (simp only: left_diff_distrib sum_subtractf)
    also have "(\<Sum>i\<le>Suc ?n. (if i = 0 then 0 else c (i - 1)) * x ^ i) = x * (\<Sum>i\<le>?n. c i * x ^ i)"
      by (subst sum.atMost_Suc_shift) (simp add: sum_distrib_left ac_simps)
    also have "(\<Sum>i\<le>Suc ?n. (if i \<le> ?n then X a * c i else 0) * x ^ i) = X a * (\<Sum>i\<le>?n. c i * x ^ i)"
      by (simp add: sum_distrib_left ac_simps)
    finally show ?thesis using insert.hyps by (simp add: c left_diff_distrib)
  qed
  then show ?case using insert.hyps by (intro exI[of _ ?d]) simp
qed (auto intro: exI[of _ "\<lambda>_. 1"])

lemma vandermonde:
  fixes X y :: "'i \<Rightarrow> 'a :: idom"
  assumes "finite E" and "inj_on X E" and "\<And>t. t < card E \<Longrightarrow> (\<Sum>l\<in>E. y l * X l ^ t) = 0" and "l \<in> E"
  shows "y l = 0"
proof -
  let ?A = "E - {l}"
  have ca: "card ?A < card E" using assms(1,4) by (rule card_Diff1_less)
  obtain c where c: "\<And>x. (\<Prod>j\<in>?A. x - X j) = (\<Sum>i\<le>card ?A. c i * x ^ i)"
    using prod_minus_coeffs[of ?A X] assms(1) by auto
  have "(\<Sum>m\<in>E. y m * (\<Sum>i\<le>card ?A. c i * X m ^ i)) = (\<Sum>i\<le>card ?A. c i * (\<Sum>m\<in>E. y m * X m ^ i))"
    unfolding sum_distrib_left by (subst sum.swap) (simp add: ac_simps)
  also have "\<dots> = 0" using ca assms(3) by (intro sum.neutral) auto
  finally have "(\<Sum>m\<in>E. y m * (\<Prod>j\<in>?A. X m - X j)) = 0" by (simp add: c)
  moreover have "(\<Prod>j\<in>?A. X m - X j) = 0" if "m \<in> ?A" for m
    using that assms(1) by (intro prod_zero) auto
  then have "(\<Sum>m\<in>E. y m * (\<Prod>j\<in>?A. X m - X j)) = y l * (\<Prod>j\<in>?A. X l - X j)"
    using assms(1,4) by (subst sum.remove[of _ l]) (auto intro!: sum.neutral)
  moreover have "(\<Prod>j\<in>?A. X l - X j) \<noteq> 0"
    using assms(1,2,4) by (auto simp: prod_zero_iff inj_on_def)
  ultimately show ?thesis by simp
qed

lemma locator_exists:
  fixes X :: "'i \<Rightarrow> 'a :: comm_ring_1"
  assumes "finite A"
  shows "\<exists>c. c 0 = 1 \<and> (\<forall>z. (\<Prod>j\<in>A. 1 - X j * z) = (\<Sum>i\<le>card A. c i * z ^ i))"
  using assms
proof (induction A)
  case (insert a A)
  then obtain c where c0: "c 0 = 1" and c: "\<And>z. (\<Prod>j\<in>A. 1 - X j * z) = (\<Sum>i\<le>card A. c i * z ^ i)" by blast
  let ?n = "card A"
  let ?d = "\<lambda>i. (if i \<le> ?n then c i else 0) - (if i = 0 then 0 else X a * c (i - 1))"
  have "(\<Prod>j\<in>insert a A. 1 - X j * z) = (\<Sum>i\<le>Suc ?n. ?d i * z ^ i)" for z
  proof -
    have "(\<Sum>i\<le>Suc ?n. ?d i * z ^ i)
        = (\<Sum>i\<le>Suc ?n. (if i \<le> ?n then c i else 0) * z ^ i) - (\<Sum>i\<le>Suc ?n. (if i = 0 then 0 else X a * c (i - 1)) * z ^ i)"
      by (simp only: left_diff_distrib sum_subtractf)
    also have "(\<Sum>i\<le>Suc ?n. (if i = 0 then 0 else X a * c (i - 1)) * z ^ i) = X a * z * (\<Sum>i\<le>?n. c i * z ^ i)"
      by (subst sum.atMost_Suc_shift) (simp add: sum_distrib_left ac_simps)
    also have "(\<Sum>i\<le>Suc ?n. (if i \<le> ?n then c i else 0) * z ^ i) = (\<Sum>i\<le>?n. c i * z ^ i)" by simp
    finally show ?thesis using insert.hyps by (simp add: c left_diff_distrib)
  qed
  then show ?case using insert.hyps c0 by (intro exI[of _ ?d]) simp
qed (auto intro: exI[of _ "\<lambda>_. 1"])

subsection \<open>Linear recurrences\<close>

text \<open>\<open>discrepancy C L s k\<close> is what the recurrence \<open>C\<close> of length \<open>L\<close> misses at index \<open>k\<close>.\<close>

definition discrepancy :: "(nat \<Rightarrow> 'a :: comm_ring_1) \<Rightarrow> nat \<Rightarrow> (nat \<Rightarrow> 'a) \<Rightarrow> nat \<Rightarrow> 'a" where
  "discrepancy C L s k = (\<Sum>i\<le>L. C i * s (k - i))"

definition generates :: "(nat \<Rightarrow> 'a :: comm_ring_1) \<Rightarrow> nat \<Rightarrow> (nat \<Rightarrow> 'a) \<Rightarrow> nat \<Rightarrow> bool" where
  "generates C L s n \<longleftrightarrow> (\<forall>k. L \<le> k \<and> k < n \<longrightarrow> discrepancy C L s k = 0)"

definition connection :: "(nat \<Rightarrow> 'a :: comm_ring_1) \<Rightarrow> nat \<Rightarrow> bool" where
  "connection C L \<longleftrightarrow> C 0 = 1 \<and> (\<forall>i > L. C i = 0)"

lemma discrepancy_extend:
  assumes "\<forall>i > L. C i = 0" and "L \<le> M"
  shows "discrepancy C M s k = discrepancy C L s k"
  unfolding discrepancy_def using assms by (intro sum.mono_neutral_right) auto

text \<open>A recurrence that fails at \<open>n\<close> and one that does not have lengths adding up to more than \<open>n\<close>.\<close>

lemma length_change:
  assumes "connection C L" and "generates C L s n" and "discrepancy C L s n \<noteq> 0"
    and "connection D M" and "generates D M s (Suc n)"
  shows "n < L + M"
proof (rule ccontr)
  assume "\<not> n < L + M"
  then have le: "L + M \<le> n" by simp
  have "(\<Sum>i\<le>M. D i * discrepancy C L s (n - i)) = (\<Sum>j\<le>L. C j * discrepancy D M s (n - j))"
    unfolding discrepancy_def sum_distrib_left by (subst sum.swap) (simp add: ac_simps diff_commute)
  also have "\<dots> = 0"
  proof (intro sum.neutral ballI)
    fix j assume "j \<in> {..L}"
    then have "M \<le> n - j \<and> n - j < Suc n" using le by auto
    then show "C j * discrepancy D M s (n - j) = 0" using assms(5) by (simp add: generates_def)
  qed
  finally have "(\<Sum>i\<le>M. D i * discrepancy C L s (n - i)) = 0" .
  moreover have "D i * discrepancy C L s (n - i) = 0" if "i \<in> {..M} - {0}" for i
  proof -
    have "L \<le> n - i \<and> n - i < n" using that le by auto
    then show ?thesis using assms(2) by (simp add: generates_def)
  qed
  ultimately have "D 0 * discrepancy C L s n = 0"
    by (subst (asm) sum.remove[of _ 0]) (simp_all add: sum.neutral)
  then show False using assms(3,4) by (simp add: connection_def)
qed

subsection \<open>The Berlekamp-Massey invariant\<close>

text \<open>State before index \<open>n\<close>: the connection polynomial \<open>C\<close> of length \<open>L\<close>, the polynomial \<open>B\<close> from before the last
  length change \<open>m\<close> indices ago and its discrepancy \<open>b\<close>; before any change \<open>m = n + 1\<close> and \<open>B = 1\<close>.\<close>

definition bm_inv :: "(nat \<Rightarrow> 'a :: field) \<Rightarrow> nat \<Rightarrow> (nat \<Rightarrow> 'a) \<Rightarrow> (nat \<Rightarrow> 'a) \<Rightarrow> nat \<Rightarrow> nat \<Rightarrow> 'a \<Rightarrow> bool" where
  "bm_inv s n C B L m b \<longleftrightarrow> connection C L \<and> L \<le> n \<and> generates C L s n \<and> b \<noteq> 0 \<and> 1 \<le> m
     \<and> (L = 0 \<and> m = n + 1 \<and> b = 1 \<and> B = (\<lambda>i. if i = 0 then 1 else 0)
        \<or> m \<le> n \<and> L \<noteq> 0 \<and> (\<exists>K. (\<forall>i > K. B i = 0) \<and> K \<le> n - m \<and> L + K = n - m + 1
             \<and> generates B K s (n - m) \<and> discrepancy B K s (n - m) = b))"

lemma bm_inv_start: "bm_inv s 0 (\<lambda>i. if i = 0 then 1 else 0) (\<lambda>i. if i = 0 then 1 else 0) 0 1 1"
  by (simp add: bm_inv_def connection_def generates_def)

lemma bm_inv_skip:
  assumes "bm_inv s n C B L m b" and "discrepancy C L s n = 0"
  shows "bm_inv s (Suc n) C B L (m + 1) b"
  using assms by (auto simp: bm_inv_def generates_def less_Suc_eq)

definition bm_update :: "nat \<Rightarrow> nat \<Rightarrow> 'a :: field \<Rightarrow> (nat \<Rightarrow> 'a) \<Rightarrow> (nat \<Rightarrow> 'a) \<Rightarrow> nat \<Rightarrow> 'a" where
  "bm_update N m q C B i = C i - (if m \<le> i \<and> i \<le> N then q * B (i - m) else 0)"

lemma discrepancy_shift:
  assumes "\<forall>i > K. B i = 0" and "K + m \<le> M" and "M \<le> N" and "M \<le> k"
  shows "(\<Sum>i\<le>M. (if m \<le> i \<and> i \<le> N then q * B (i - m) else 0) * s (k - i)) = q * discrepancy B K s (k - m)"
proof -
  have "(\<Sum>i\<le>M. (if m \<le> i \<and> i \<le> N then q * B (i - m) else 0) * s (k - i))
      = (\<Sum>i\<in>{m..K + m}. q * B (i - m) * s (k - i))"
    using assms by (intro sum.mono_neutral_cong_right) auto
  also have "\<dots> = (\<Sum>j\<le>K. q * B j * s (k - m - j))"
    by (rule sum.reindex_bij_witness[of _ "\<lambda>j. j + m" "\<lambda>i. i - m"]) auto
  finally show ?thesis by (simp add: discrepancy_def sum_distrib_left ac_simps)
qed

lemma bm_inv_update:
  fixes s :: "nat \<Rightarrow> 'a :: field"
  assumes inv: "bm_inv s n C B L m b" and d: "discrepancy C L s n = d" "d \<noteq> 0" and N: "n < N"
  defines "C' \<equiv> bm_update N m (d / b) C B"
  shows "if 2 * L \<le> n then bm_inv s (Suc n) C' C (Suc n - L) 1 d else bm_inv s (Suc n) C' B L (m + 1) b"
proof -
  have C: "connection C L" "L \<le> n" "generates C L s n" "b \<noteq> 0" "1 \<le> m" using inv by (auto simp: bm_inv_def)
  show ?thesis
  proof (cases "L = 0")
    case True
    then have m: "m = n + 1" "b = 1" "B = (\<lambda>i. if i = 0 then 1 else 0)" using inv by (auto simp: bm_inv_def)
    have "connection C' (Suc n)"
      using C(1) True m by (auto simp: connection_def C'_def bm_update_def)
    then show ?thesis using True C d by (auto simp: bm_inv_def generates_def connection_def)
  next
    case False
    then obtain K where K: "\<forall>i > K. B i = 0" "K \<le> n - m" "m \<le> n" "L + K = n - m + 1"
      "generates B K s (n - m)" "discrepancy B K s (n - m) = b"
      using inv by (auto simp: bm_inv_def)
    define M where "M = (if 2 * L \<le> n then Suc n - L else L)"
    have M: "L \<le> M" "K + m \<le> M" "M \<le> Suc n" "K + m = Suc n - L" using K C(2) by (auto simp: M_def)
    have "Suc n - L \<le> n" using False C(2) by simp
    then have Mn: "M \<le> n" using C(2) by (simp add: M_def)
    have conn: "connection C' M"
      using C(1,5) K(1) M by (auto simp: connection_def C'_def bm_update_def)
    have val: "discrepancy C' M s k = discrepancy C L s k - d / b * discrepancy B K s (k - m)" if "M \<le> k" for k
    proof -
      have "discrepancy C' M s k = discrepancy C M s k
          - (\<Sum>i\<le>M. (if m \<le> i \<and> i \<le> N then d / b * B (i - m) else 0) * s (k - i))"
        by (simp only: discrepancy_def C'_def bm_update_def left_diff_distrib sum_subtractf)
      also have "discrepancy C M s k = discrepancy C L s k"
        using C(1) M(1) by (intro discrepancy_extend) (auto simp: connection_def)
      finally show ?thesis using discrepancy_shift[OF K(1) M(2), of N k "d / b" s] that Mn N by simp
    qed
    have gen: "generates C' M s (Suc n)"
      unfolding generates_def
    proof (intro allI impI)
      fix k assume k: "M \<le> k \<and> k < Suc n"
      show "discrepancy C' M s k = 0"
      proof (cases "k = n")
        case True
        then show ?thesis using val[of n] k d(1) K(6) C(4) by simp
      next
        case nn: False
        then have "discrepancy C L s k = 0" using k M(1) C(3) by (simp add: generates_def)
        moreover have "K \<le> k - m \<and> k - m < n - m" using k nn M(2) K(3) by auto
        then have "discrepancy B K s (k - m) = 0" using K(5) by (simp add: generates_def)
        ultimately show ?thesis using val[of k] k by simp
      qed
    qed
    show ?thesis
    proof (cases "2 * L \<le> n")
      case True
      then show ?thesis using conn gen C d M_def by (auto simp: bm_inv_def connection_def)
    next
      case nle: False
      then show ?thesis using conn gen C K False M_def by (auto simp: bm_inv_def)
    qed
  qed
qed

text \<open>The length never exceeds that of any recurrence of the whole sequence.\<close>

lemma bm_length_bound:
  assumes "bm_inv s n C B L m b" and "discrepancy C L s n \<noteq> 0" and "connection D M" and "generates D M s (Suc n)"
  shows "Suc n - L \<le> M"
  using length_change[of C L s n D M] assms by (auto simp: bm_inv_def)

subsection \<open>Power sums and their locator\<close>

text \<open>Errors at the locations \<open>E\<close> with distinct nonzero locators \<open>X\<close> and nonzero magnitudes \<open>e\<close>.\<close>

definition error_pattern :: "'i set \<Rightarrow> ('i \<Rightarrow> 'a :: field) \<Rightarrow> ('i \<Rightarrow> 'a) \<Rightarrow> bool" where
  "error_pattern E X e \<longleftrightarrow> finite E \<and> inj_on X E \<and> (\<forall>l \<in> E. X l \<noteq> 0) \<and> (\<forall>l \<in> E. e l \<noteq> 0)"

definition power_sum :: "'i set \<Rightarrow> ('i \<Rightarrow> 'a :: field) \<Rightarrow> ('i \<Rightarrow> 'a) \<Rightarrow> nat \<Rightarrow> 'a" where
  "power_sum E X e k = (\<Sum>l\<in>E. e l * X l ^ k)"

definition poly_val :: "(nat \<Rightarrow> 'a :: field) \<Rightarrow> nat \<Rightarrow> 'a \<Rightarrow> 'a" where
  "poly_val C n z = (\<Sum>i\<le>n. C i * z ^ i)"

lemma poly_val_cut: "\<forall>i > n. C i = 0 \<Longrightarrow> n \<le> m \<Longrightarrow> poly_val C m z = poly_val C n z"
  unfolding poly_val_def by (rule sum.mono_neutral_right) auto

lemma poly_at_0:
  fixes C :: "nat \<Rightarrow> 'a :: field"
  shows "(\<Sum>i\<le>n. C i * 0 ^ i) = C 0" and "0 < n \<Longrightarrow> (\<Sum>i<n. C i * 0 ^ i) = C 0"
proof -
  show a: "(\<Sum>i\<le>n. C i * 0 ^ i) = C 0" for n by (induction n) simp_all
  show "0 < n \<Longrightarrow> (\<Sum>i<n. C i * 0 ^ i) = C 0" using a[of "n - 1"] by (cases n) (simp_all add: lessThan_Suc_atMost)
qed

lemma power_reverse:
  assumes "(x :: 'a :: field) \<noteq> 0" and "i \<le> k"
  shows "x ^ (k - i) = x ^ k * (1 / x) ^ i"
  using assms by (simp add: power_diff power_one_over field_simps)

lemma discrepancy_power_sum:
  assumes "error_pattern E X e" and "L \<le> k"
  shows "discrepancy C L (power_sum E X e) k = (\<Sum>l\<in>E. e l * X l ^ k * poly_val C L (1 / X l))"
proof -
  have "discrepancy C L (power_sum E X e) k = (\<Sum>i\<le>L. \<Sum>l\<in>E. C i * (e l * X l ^ (k - i)))"
    by (simp add: discrepancy_def power_sum_def sum_distrib_left)
  also have "\<dots> = (\<Sum>l\<in>E. \<Sum>i\<le>L. C i * (e l * X l ^ (k - i)))" by (rule sum.swap)
  also have "\<dots> = (\<Sum>l\<in>E. e l * X l ^ k * poly_val C L (1 / X l))"
  proof (rule sum.cong[OF refl])
    fix l assume l: "l \<in> E"
    then have x: "X l \<noteq> 0" using assms(1) by (simp add: error_pattern_def)
    have "X l ^ (k - i) = X l ^ k * (1 / X l) ^ i" if "i \<le> L" for i
      using power_reverse[OF x] that assms(2) by auto
    then show "(\<Sum>i\<le>L. C i * (e l * X l ^ (k - i))) = e l * X l ^ k * poly_val C L (1 / X l)"
      by (simp add: poly_val_def sum_distrib_left ac_simps)
  qed
  finally show ?thesis .
qed

text \<open>The true locator polynomial is a recurrence of the power sums.\<close>

lemma locator_generates:
  assumes "error_pattern E X e"
  shows "\<exists>D. connection D (card E) \<and> (\<forall>n. generates D (card E) (power_sum E X e) n)"
proof -
  obtain c where c: "c 0 = 1" "\<And>z. (\<Prod>j\<in>E. 1 - X j * z) = (\<Sum>i\<le>card E. c i * z ^ i)"
    using locator_exists[of E X] assms by (auto simp: error_pattern_def)
  define D where "D i = (if i \<le> card E then c i else 0)" for i
  have root: "poly_val D (card E) (1 / X l) = 0" if "l \<in> E" for l
  proof -
    have "(\<Prod>j\<in>E. 1 - X j * (1 / X l)) = 0"
      using that assms by (intro prod_zero) (auto simp: error_pattern_def)
    then show ?thesis using c(2)[of "1 / X l"] by (simp add: poly_val_def D_def)
  qed
  have "connection D (card E)" using c(1) by (simp add: connection_def D_def)
  moreover have "generates D (card E) (power_sum E X e) n" for n
    using root by (simp add: generates_def discrepancy_power_sum[OF assms])
  ultimately show ?thesis by blast
qed

text \<open>A recurrence of the first \<open>2 * card E\<close> power sums that is no longer than \<open>card E\<close> vanishes at every inverse locator.\<close>

lemma recurrence_roots:
  assumes e: "error_pattern E X e" and C: "connection C L" "L \<le> card E"
    and gen: "generates C L (power_sum E X e) n" "2 * card E \<le> n" and l: "l \<in> E"
  shows "poly_val C (card E) (1 / X l) = 0"
proof -
  let ?v = "card E"
  let ?y = "\<lambda>l. e l * X l ^ ?v * poly_val C ?v (1 / X l)"
  have "(\<Sum>l\<in>E. ?y l * X l ^ t) = 0" if "t < ?v" for t
  proof -
    have "discrepancy C L (power_sum E X e) (?v + t) = 0" using gen C(2) that by (simp add: generates_def)
    moreover have "discrepancy C ?v (power_sum E X e) (?v + t) = discrepancy C L (power_sum E X e) (?v + t)"
      using C by (intro discrepancy_extend) (auto simp: connection_def)
    ultimately have "(\<Sum>l\<in>E. e l * X l ^ (?v + t) * poly_val C ?v (1 / X l)) = 0"
      by (simp add: discrepancy_power_sum[OF e])
    then show ?thesis by (simp add: power_add ac_simps)
  qed
  from vandermonde[OF _ _ this l] have "?y l = 0" using e by (auto simp: error_pattern_def)
  then show ?thesis using e l by (simp add: error_pattern_def)
qed

lemma card_inverse_locators:
  assumes "error_pattern E X e"
  shows "card ((\<lambda>l. 1 / X l) ` E) = card E"
  using assms by (intro card_image) (auto simp: error_pattern_def inj_on_def)

text \<open>So its roots are exactly the inverse locators, and its degree is exactly \<open>card E\<close>.\<close>

lemma roots_exactly:
  assumes e: "error_pattern E X e" and C: "C 0 = 1"
    and roots: "\<And>l. l \<in> E \<Longrightarrow> poly_val C (card E) (1 / X l) = 0" and z: "poly_val C (card E) z = 0"
  shows "z \<in> (\<lambda>l. 1 / X l) ` E"
proof (rule ccontr)
  let ?S = "(\<lambda>l. 1 / X l) ` E"
  assume n: "z \<notin> ?S"
  have "card (insert z ?S) = card E + 1"
    using e n card_inverse_locators[OF e] by (simp add: error_pattern_def)
  moreover have "(\<Sum>i\<le>card E. C i * x ^ i) = 0" if "x \<in> insert z ?S" for x
    using roots z that by (auto simp: poly_val_def)
  ultimately have "(\<Sum>i\<le>card E. C i * 0 ^ i) = 0"
    using poly_fun_zero[where S = "insert z ?S" and n = "card E" and c = C and z = 0] by simp
  then show False using C by (simp add: poly_at_0)
qed

lemma degree_exactly:
  assumes e: "error_pattern E X e" and C: "C 0 = 1"
    and roots: "\<And>l. l \<in> E \<Longrightarrow> poly_val C (card E) (1 / X l) = 0"
  shows "C (card E) \<noteq> 0"
proof (cases "card E = 0")
  case False
  show ?thesis
  proof
    assume z: "C (card E) = 0"
    have "(\<Sum>i<card E. C i * x ^ i) = 0" if "x \<in> (\<lambda>l. 1 / X l) ` E" for x
      using roots that z by (auto simp: poly_val_def simp flip: lessThan_Suc_atMost)
    from poly_fun_zero_less[OF this, where z = 0] have "(\<Sum>i<card E. C i * 0 ^ i) = 0"
      using False card_inverse_locators[OF e] by simp
    then show False using C False by (simp add: poly_at_0)
  qed
qed (use C in simp)

subsection \<open>Forney's formula\<close>

text \<open>The evaluator \<open>S(z) C(z)\<close> modulo \<open>z^N\<close>, and the contribution of one location to it.\<close>

definition evaluator :: "(nat \<Rightarrow> 'a :: field) \<Rightarrow> (nat \<Rightarrow> 'a) \<Rightarrow> nat \<Rightarrow> 'a" where
  "evaluator C s t = (\<Sum>i\<le>t. C i * s (t - i))"

definition quotient_at :: "(nat \<Rightarrow> 'a :: field) \<Rightarrow> nat \<Rightarrow> 'a \<Rightarrow> 'a \<Rightarrow> 'a" where
  "quotient_at C n x z = (\<Sum>i<n. C i * z ^ i * (\<Sum>u<n - i. (x * z) ^ u))"

text \<open>The formal derivative.\<close>

definition derivative_at :: "(nat \<Rightarrow> 'a :: field) \<Rightarrow> nat \<Rightarrow> 'a \<Rightarrow> 'a" where
  "derivative_at C n z = (\<Sum>i\<in>{1..n}. of_nat i * C i * z ^ (i - 1))"

lemma triangle_sum: "(\<Sum>t<(n :: nat). \<Sum>i\<le>t. f i (t - i)) = (\<Sum>i<n. \<Sum>u<n - i. f i u)"
proof -
  have "(\<Sum>t<n. \<Sum>i\<le>t. f i (t - i)) = (\<Sum>(t, i)\<in>(SIGMA t:{..<n}. {..t}). f i (t - i))"
    by (simp add: sum.Sigma)
  also have "\<dots> = (\<Sum>(i, u)\<in>(SIGMA i:{..<n}. {..<n - i}). f i u)"
    by (rule sum.reindex_bij_witness[of _ "\<lambda>(i, u). (i + u, i)" "\<lambda>(t, i). (i, t - i)"]) auto
  also have "\<dots> = (\<Sum>i<n. \<Sum>u<n - i. f i u)" by (simp add: sum.Sigma)
  finally show ?thesis .
qed

lemma evaluator_value:
  assumes "finite E"
  shows "(\<Sum>t<n. evaluator C (power_sum E X e) t * z ^ t) = (\<Sum>l\<in>E. e l * quotient_at C n (X l) z)"
proof -
  have split: "evaluator C (power_sum E X e) t * z ^ t
      = (\<Sum>l\<in>E. e l * (\<Sum>i\<le>t. C i * z ^ i * (X l * z) ^ (t - i)))" for t
  proof -
    have "C i * (e l * X l ^ (t - i)) * z ^ t = e l * (C i * z ^ i * (X l * z) ^ (t - i))" if "i \<le> t" for i l
      using that by (simp add: power_mult_distrib ac_simps flip: power_add)
    note shift = this
    have "evaluator C (power_sum E X e) t * z ^ t = (\<Sum>i\<le>t. \<Sum>l\<in>E. C i * (e l * X l ^ (t - i)) * z ^ t)"
      by (simp add: evaluator_def power_sum_def sum_distrib_left sum_distrib_right)
    also have "\<dots> = (\<Sum>i\<le>t. \<Sum>l\<in>E. e l * (C i * z ^ i * (X l * z) ^ (t - i)))"
      by (intro sum.cong refl shift) simp
    finally have "evaluator C (power_sum E X e) t * z ^ t
        = (\<Sum>i\<le>t. \<Sum>l\<in>E. e l * (C i * z ^ i * (X l * z) ^ (t - i)))" .
    then show ?thesis by (subst (asm) sum.swap) (simp add: sum_distrib_left)
  qed
  have "(\<Sum>t<n. evaluator C (power_sum E X e) t * z ^ t)
      = (\<Sum>l\<in>E. e l * (\<Sum>t<n. \<Sum>i\<le>t. C i * z ^ i * (X l * z) ^ (t - i)))"
    unfolding split by (subst sum.swap) (simp add: sum_distrib_left)
  also have "\<dots> = (\<Sum>l\<in>E. e l * quotient_at C n (X l) z)"
    unfolding triangle_sum[of "\<lambda>i u. C i * z ^ i * (_ * z) ^ u"] quotient_at_def by (simp add: sum_distrib_left)
  finally show ?thesis .
qed

lemma geometric: "(1 - y) * (\<Sum>u<n. y ^ u) = 1 - y ^ n" for y :: "'a :: field"
  by (metis one_diff_power_eq)

text \<open>Where \<open>C\<close> vanishes at \<open>1 / x\<close>, the quotient is \<open>C(z) / (1 - x z)\<close>.\<close>

lemma quotient_times:
  assumes "x \<noteq> 0" and "poly_val C n (1 / x) = 0"
  shows "(1 - x * z) * quotient_at C n x z = poly_val C n z"
proof -
  have "(1 - x * z) * quotient_at C n x z = (\<Sum>i<n. C i * z ^ i * (1 - (x * z) ^ (n - i)))"
    by (simp add: quotient_at_def sum_distrib_left mult.left_commute geometric[symmetric])
  also have "\<dots> = (\<Sum>i\<le>n. C i * z ^ i * (1 - (x * z) ^ (n - i)))"
    by (simp flip: lessThan_Suc_atMost)
  also have "\<dots> = poly_val C n z - (\<Sum>i\<le>n. C i * z ^ i * (x * z) ^ (n - i))"
    by (simp add: poly_val_def right_diff_distrib sum_subtractf)
  also have "(\<Sum>i\<le>n. C i * z ^ i * (x * z) ^ (n - i)) = (\<Sum>i\<le>n. (x * z) ^ n * (C i * (1 / x) ^ i))"
  proof (rule sum.cong[OF refl])
    fix i assume "i \<in> {..n}"
    then have "z ^ i * (x * z) ^ (n - i) = (x * z) ^ n * (1 / x) ^ i"
      using assms(1) power_reverse[of x i n]
      by (simp add: power_mult_distrib ac_simps flip: power_add)
    then show "C i * z ^ i * (x * z) ^ (n - i) = (x * z) ^ n * (C i * (1 / x) ^ i)" by (simp add: ac_simps)
  qed
  also have "\<dots> = 0" using assms(2) by (simp add: poly_val_def flip: sum_distrib_left)
  finally show ?thesis by simp
qed

text \<open>At \<open>z = 1 / x\<close> it is \<open>- z C'(z)\<close>.\<close>

lemma quotient_at_root:
  assumes "x \<noteq> 0" and "poly_val C n (1 / x) = 0"
  shows "quotient_at C n x (1 / x) = - (1 / x * derivative_at C n (1 / x))"
proof -
  let ?z = "1 / x"
  have "quotient_at C n x ?z = (\<Sum>i<n. of_nat (n - i) * (C i * ?z ^ i))"
    using assms(1) by (simp add: quotient_at_def ac_simps)
  also have "\<dots> = (\<Sum>i\<le>n. of_nat (n - i) * (C i * ?z ^ i))"
    by (simp flip: lessThan_Suc_atMost)
  also have "\<dots> = (\<Sum>i\<le>n. (of_nat n - of_nat i) * (C i * ?z ^ i))"
    by (intro sum.cong) (simp_all add: of_nat_diff)
  also have "\<dots> = of_nat n * poly_val C n ?z - (\<Sum>i\<le>n. of_nat i * (C i * ?z ^ i))"
    by (simp only: left_diff_distrib sum_subtractf poly_val_def sum_distrib_left)
  also have "(\<Sum>i\<le>n. of_nat i * (C i * ?z ^ i)) = (\<Sum>i\<in>{1..n}. of_nat i * (C i * ?z ^ i))"
    by (intro sum.mono_neutral_right) (auto simp: Suc_le_eq)
  also have "\<dots> = ?z * derivative_at C n ?z"
    unfolding derivative_at_def sum_distrib_left
  proof (rule sum.cong[OF refl])
    fix i assume "i \<in> {1..n}"
    then have "?z ^ i = ?z * ?z ^ (i - 1)" by (cases i) simp_all
    then show "of_nat i * (C i * ?z ^ i) = ?z * (of_nat i * C i * ?z ^ (i - 1))" by (simp add: ac_simps)
  qed
  finally show ?thesis using assms(2) by simp
qed

lemma evaluator_tail:
  assumes "error_pattern E X e" and "connection C (card E)" and "\<And>l. l \<in> E \<Longrightarrow> poly_val C (card E) (1 / X l) = 0"
    and "card E \<le> t"
  shows "evaluator C (power_sum E X e) t = 0"
proof -
  have "evaluator C (power_sum E X e) t = discrepancy C t (power_sum E X e) t"
    by (simp add: evaluator_def discrepancy_def)
  also have "\<dots> = discrepancy C (card E) (power_sum E X e) t"
    using assms(2,4) by (intro discrepancy_extend) (auto simp: connection_def)
  finally show ?thesis using assms(3) by (simp add: discrepancy_power_sum[OF assms(1,4)])
qed

text \<open>The magnitude at \<open>l\<close> from the evaluator and the derivative; the derivative is not zero.\<close>

lemma forney_formula:
  assumes e: "error_pattern E X e" and C: "connection C (card E)"
    and roots: "\<And>l. l \<in> E \<Longrightarrow> poly_val C (card E) (1 / X l) = 0" and l: "l \<in> E" and N: "card E \<le> N"
  shows "derivative_at C (card E) (1 / X l) \<noteq> 0"
    and "(\<Sum>t<N. evaluator C (power_sum E X e) t * (1 / X l) ^ t)
      = - (e l * (1 / X l * derivative_at C (card E) (1 / X l)))"
proof -
  let ?v = "card E"
  have x: "X m \<noteq> 0" if "m \<in> E" for m using e that by (simp add: error_pattern_def)
  have other: "quotient_at C ?v (X m) (1 / X l) = 0" if "m \<in> E" "m \<noteq> l" for m
  proof -
    have "1 - X m * (1 / X l) \<noteq> 0"
      using e that l x[OF l] by (auto simp: error_pattern_def inj_on_def field_simps)
    then show ?thesis using quotient_times[OF x[OF that(1)] roots[OF that(1)], of "1 / X l"] roots[OF l]
      by (simp only: mult_eq_0_iff simp_thms)
  qed
  have fin: "finite E" using e by (simp add: error_pattern_def)
  have "(\<Sum>t<N. evaluator C (power_sum E X e) t * (1 / X l) ^ t)
      = (\<Sum>t<?v. evaluator C (power_sum E X e) t * (1 / X l) ^ t)"
    using N evaluator_tail[OF e C roots] by (intro sum.mono_neutral_right) auto
  also have "\<dots> = e l * quotient_at C ?v (X l) (1 / X l)"
    using other l fin by (simp add: evaluator_value sum.remove[of E l] sum.neutral)
  finally show "(\<Sum>t<N. evaluator C (power_sum E X e) t * (1 / X l) ^ t)
      = - (e l * (1 / X l * derivative_at C ?v (1 / X l)))"
    using quotient_at_root[OF x[OF l] roots[OF l]] by simp
  show "derivative_at C ?v (1 / X l) \<noteq> 0"
  proof
    assume "derivative_at C ?v (1 / X l) = 0"
    then have q0: "quotient_at C ?v (X l) (1 / X l) = 0" using quotient_at_root[OF x[OF l] roots[OF l]] by simp
    have ql: "quotient_at C ?v (X l) (1 / X m) = 0" if "m \<in> E" for m
    proof (cases "m = l")
      case False
      then have "1 - X l * (1 / X m) \<noteq> 0"
        using e that l x[OF that] by (auto simp: error_pattern_def inj_on_def field_simps)
      then show ?thesis using quotient_times[OF x[OF l] roots[OF l], of "1 / X m"] roots[OF that]
        by (simp only: mult_eq_0_iff simp_thms)
    qed (use q0 in simp)
    define q where "q t = evaluator C (power_sum {l} X (\<lambda>_. 1)) t" for t
    have q: "(\<Sum>t<?v. q t * z ^ t) = quotient_at C ?v (X l) z" for z
      by (simp add: q_def evaluator_value)
    have pos: "0 < ?v" using l fin by (auto simp: card_gt_0_iff)
    have "(\<Sum>t<?v. q t * 0 ^ t) = 0"
      using poly_fun_zero_less[where S = "(\<lambda>l. 1 / X l) ` E" and c = q and n = ?v and z = 0]
        q ql card_inverse_locators[OF e] pos by auto
    then have "q 0 = 0" using poly_at_0(2)[OF pos, of q] by simp
    then show False using C by (simp add: q_def evaluator_def power_sum_def connection_def)
  qed
qed

end
