(* ===== verification/CtdbDecoder.thy ===== *)
theory CtdbDecoder
  imports CtdbSyndrome RsAlgebra
begin

text \<open>
  The module \<open>decoder\<close> of \<open>src/ctdb_rs/mod.rs\<close>: Berlekamp-Massey, Chien search, Forney magnitudes and the
  decoding of one column. The code returns \<open>Option\<close>; a division by zero, an index outside its slice or a negative
  \<open>usize\<close> difference panics, so a function that divides, indexes or subtracts has an outer \<open>option\<close> whose \<open>None\<close> is
  that panic, and the lemmas \<open>_total\<close> show that it never happens. (\<open>chien_search\<close> and \<open>eval_poly_at_alpha_exp\<close> iterate
  over their own ranges and index nothing.)
\<close>

subsection \<open>Berlekamp-Massey\<close>

record located_error =
  le_row :: nat
  le_magnitude :: u16

definition all_zero :: "u16 list \<Rightarrow> bool" where
  "all_zero words \<longleftrightarrow> (\<forall>x \<in> set words. x = 0)"

record bm_state =
  bm_c :: "u16 list"
  bm_b :: "u16 list"
  bm_degree :: nat
  bm_m :: nat
  bm_last :: u16

definition bm_discrepancy :: "galois16 \<Rightarrow> u16 list \<Rightarrow> nat \<Rightarrow> u16 list \<Rightarrow> nat \<Rightarrow> u16 option" where
  "bm_discrepancy gf syndromes n c degree =
     do {
       start \<leftarrow> read_cell syndromes n;
       fold_opt (\<lambda>i discrepancy. do {
         ci \<leftarrow> read_cell c i;
         if ci = 0 then Some discrepancy
         else do {
           k \<leftarrow> checked_sub n i;
           sk \<leftarrow> read_cell syndromes k;
           Some (if sk \<noteq> 0 then discrepancy XOR gf_mul gf ci sk else discrepancy) } })
         [1..<min degree n + 1] start }"

text \<open>Add \<open>q\<close> times \<open>b\<close>, shifted by \<open>m\<close>, to \<open>k\<close> cells of \<open>c\<close>.\<close>

definition add_shifted :: "galois16 \<Rightarrow> u16 \<Rightarrow> u16 list \<Rightarrow> nat \<Rightarrow> nat \<Rightarrow> u16 list \<Rightarrow> u16 list option" where
  "add_shifted gf q b m k c =
     fold_opt (\<lambda>j c. do {
       bj \<leftarrow> read_cell b j;
       if bj = 0 then Some c
       else do {
         cell \<leftarrow> read_cell c (j + m);
         write_cell c (j + m) (cell XOR gf_mul gf q bj) } }) [0..<k] c"

definition bm_step :: "galois16 \<Rightarrow> u16 list \<Rightarrow> nat \<Rightarrow> nat \<Rightarrow> bm_state \<Rightarrow> bm_state option" where
  "bm_step gf syndromes npar n s =
     do {
       discrepancy \<leftarrow> bm_discrepancy gf syndromes n (bm_c s) (bm_degree s);
       if discrepancy = 0 then Some (s\<lparr>bm_m := bm_m s + 1\<rparr>)
       else do {
         let previous_c = bm_c s;
         scale \<leftarrow> gf_div gf discrepancy (bm_last s);
         c \<leftarrow> (if bm_m s \<le> npar
               then do {
                 k \<leftarrow> checked_sub npar (bm_m s);
                 add_shifted gf scale (bm_b s) (bm_m s) (k + 1) (bm_c s) }
               else Some (bm_c s));
         let s = s\<lparr>bm_c := c\<rparr>;
         if 2 * bm_degree s \<le> n
         then do {
           degree \<leftarrow> checked_sub (n + 1) (bm_degree s);
           Some (s\<lparr>bm_degree := degree, bm_b := previous_c, bm_last := discrepancy, bm_m := 1\<rparr>) }
         else Some (s\<lparr>bm_m := bm_m s + 1\<rparr>) } }"

definition bm_start :: "nat \<Rightarrow> bm_state" where
  "bm_start npar = \<lparr>bm_c = (replicate (npar + 1) 0)[0 := 1], bm_b = (replicate (npar + 1) 0)[0 := 1],
     bm_degree = 0, bm_m = 1, bm_last = 1\<rparr>"

definition last_nonzero :: "u16 list \<Rightarrow> nat" where
  "last_nonzero c = (case rev (filter (\<lambda>i. c ! i \<noteq> 0) [0..<length c]) of [] \<Rightarrow> 0 | i # _ \<Rightarrow> i)"

definition berlekamp_massey :: "galois16 \<Rightarrow> u16 list \<Rightarrow> nat \<Rightarrow> (u16 list \<times> nat) option option" where
  "berlekamp_massey gf syndromes npar =
     (if length syndromes < npar then Some None
      else do {
        first \<leftarrow> slice_to syndromes npar;
        if all_zero first then Some (Some ([1], 0))
        else do {
          s \<leftarrow> fold_opt (bm_step gf syndromes npar) [0..<npar] (bm_start npar);
          let actual_degree = last_nonzero (bm_c s);
          sigma \<leftarrow> slice_to (bm_c s) (actual_degree + 1);
          Some (Some (sigma, actual_degree)) } })"

subsection \<open>Chien search\<close>

definition eval_poly_at_alpha_exp :: "galois16 \<Rightarrow> u16 list \<Rightarrow> nat \<Rightarrow> u16" where
  "eval_poly_at_alpha_exp gf poly alpha_exp =
     fold (\<lambda>(degree, coeff) out. if coeff \<noteq> 0 then out XOR mul_exp gf coeff ((alpha_exp * degree) mod gf_max) else out)
       (enumerate 0 poly) 0"

definition inverse_exp :: "nat \<Rightarrow> nat" where
  "inverse_exp locator_exp = (gf_max - locator_exp mod gf_max) mod gf_max"

definition chien_search :: "galois16 \<Rightarrow> u16 list \<Rightarrow> nat \<Rightarrow> nat \<Rightarrow> nat list option" where
  "chien_search gf sigma error_count stridecount =
     (if error_count = 0 then Some []
      else if stridecount = 0 \<or> stridecount > gf_max then None
      else
        Option.bind (fold_opt (\<lambda>locator_exp rows.
            if eval_poly_at_alpha_exp gf sigma (inverse_exp locator_exp) = 0 then
              let rows = rows @ [stridecount - 1 - locator_exp]
              in if length rows > error_count then None else Some rows
            else Some rows) [0..<stridecount] [])
          (\<lambda>rows. if length rows = error_count then Some (sort rows) else None))"

subsection \<open>Forney\<close>

definition syndrome_evaluator :: "galois16 \<Rightarrow> u16 list \<Rightarrow> u16 list \<Rightarrow> nat \<Rightarrow> u16 list option" where
  "syndrome_evaluator gf syndromes sigma npar =
     fold_opt (\<lambda>(i, a) omega.
         if a = 0 \<or> i \<ge> npar then Some omega
         else do { k \<leftarrow> checked_sub npar i; add_shifted gf a syndromes i k omega })
       (enumerate 0 sigma) (replicate npar 0)"

definition sigma_derivative_at :: "galois16 \<Rightarrow> u16 list \<Rightarrow> nat \<Rightarrow> u16 option" where
  "sigma_derivative_at gf sigma z_exp =
     fold_opt (\<lambda>degree out. do {
         coeff \<leftarrow> read_cell sigma degree;
         if coeff = 0 then Some out
         else do {
           d \<leftarrow> checked_sub degree 1;
           Some (out XOR mul_exp gf coeff ((z_exp * d) mod gf_max)) } })
       (filter odd [1..<length sigma]) 0"

fun forney_rows :: "galois16 \<Rightarrow> u16 list \<Rightarrow> u16 list \<Rightarrow> nat \<Rightarrow> nat list \<Rightarrow> u16 list option option" where
  "forney_rows gf omega sigma stridecount [] = Some (Some [])"
| "forney_rows gf omega sigma stridecount (row # rows) =
     (if row \<ge> stridecount then Some None
      else do {
        top \<leftarrow> checked_sub stridecount 1;
        locator_exp \<leftarrow> checked_sub top row;
        let z_exp = inverse_exp locator_exp;
        let omega_value = eval_poly_at_alpha_exp gf omega z_exp;
        derivative_value \<leftarrow> sigma_derivative_at gf sigma z_exp;
        if derivative_value = 0 then Some None
        else do {
          q \<leftarrow> gf_div gf omega_value derivative_value;
          map_option (map_option ((#) (gf_mul gf (alpha_pow gf locator_exp) q)))
            (forney_rows gf omega sigma stridecount rows) } })"

definition forney ::
  "galois16 \<Rightarrow> u16 list \<Rightarrow> u16 list \<Rightarrow> nat list \<Rightarrow> nat \<Rightarrow> nat \<Rightarrow> u16 list option option" where
  "forney gf syndromes sigma error_positions npar stridecount =
     (if length syndromes < npar \<or> stridecount = 0 \<or> stridecount > gf_max then Some None
      else do {
        omega \<leftarrow> syndrome_evaluator gf syndromes sigma npar;
        forney_rows gf omega sigma stridecount error_positions })"

subsection \<open>One column\<close>

fun residual_rows ::
  "galois16 \<Rightarrow> nat \<Rightarrow> nat \<Rightarrow> located_error list \<Rightarrow> u16 list \<Rightarrow> u16 list option option" where
  "residual_rows gf npar stridecount [] residual = Some (Some residual)"
| "residual_rows gf npar stridecount (c # cs) residual =
     (if le_row c \<ge> stridecount then Some None
      else do {
        top \<leftarrow> checked_sub stridecount 1;
        locator_exp \<leftarrow> checked_sub top (le_row c);
        residual \<leftarrow> fold_opt (\<lambda>k residual. do {
            cell \<leftarrow> read_cell residual k;
            write_cell residual k (cell XOR mul_exp gf (le_magnitude c) ((locator_exp * k) mod gf_max)) })
          [0..<npar] residual;
        residual_rows gf npar stridecount cs residual })"

definition residual_after_correction ::
  "galois16 \<Rightarrow> u16 list \<Rightarrow> located_error list \<Rightarrow> nat \<Rightarrow> nat \<Rightarrow> u16 list option option" where
  "residual_after_correction gf syndromes corrections npar stridecount =
     (if length syndromes < npar \<or> stridecount = 0 \<or> stridecount > gf_max then Some None
      else do {
        residual \<leftarrow> slice_to syndromes npar;
        residual_rows gf npar stridecount corrections residual })"

definition located :: "nat list \<Rightarrow> u16 list \<Rightarrow> located_error list" where
  "located positions magnitudes = map2 (\<lambda>row magnitude. \<lparr>le_row = row, le_magnitude = magnitude\<rparr>) positions magnitudes"

text \<open>A chain of \<open>?\<close> on the inner option, inside the panic option.\<close>

definition then_some :: "'a option option \<Rightarrow> ('a \<Rightarrow> 'b option option) \<Rightarrow> 'b option option" where
  "then_some m f = Option.bind m (\<lambda>r. case r of None \<Rightarrow> Some None | Some x \<Rightarrow> f x)"

definition decode_column_syndromes ::
  "galois16 \<Rightarrow> u16 list \<Rightarrow> nat \<Rightarrow> nat \<Rightarrow> located_error list option option" where
  "decode_column_syndromes gf syndromes npar stridecount =
     (if length syndromes < npar then Some None
      else do {
        first \<leftarrow> slice_to syndromes npar;
        if all_zero first then Some (Some [])
        else
          then_some (berlekamp_massey gf syndromes npar) (\<lambda>(sigma, error_count).
            if error_count = 0 \<or> error_count > npar div 2 then Some None
            else
              then_some (Some (chien_search gf sigma error_count stridecount)) (\<lambda>positions.
              then_some (forney gf syndromes sigma positions npar stridecount) (\<lambda>magnitudes.
                let corrections = located positions magnitudes in
                then_some (residual_after_correction gf syndromes corrections npar stridecount) (\<lambda>residual.
                  Some (if all_zero residual then Some corrections else None))))) })"

lemma then_some_simps [simp]:
  "then_some (Some (Some x)) f = f x" "then_some (Some None) f = Some None" "then_some None f = None"
  by (simp_all add: then_some_def)

lemma then_some_eq_Some: "then_some m f = Some (Some y) \<longleftrightarrow> (\<exists>x. m = Some (Some x) \<and> f x = Some (Some y))"
  by (auto simp: then_some_def bind_eq_Some_conv split: option.splits)

subsection \<open>When the loops return\<close>

definition discrepancy_cells :: "galois16 \<Rightarrow> u16 list \<Rightarrow> nat \<Rightarrow> u16 list \<Rightarrow> nat \<Rightarrow> u16" where
  "discrepancy_cells gf syndromes n c degree =
     fold (\<lambda>i discrepancy. if c ! i \<noteq> 0 \<and> syndromes ! (n - i) \<noteq> 0
             then discrepancy XOR gf_mul gf (c ! i) (syndromes ! (n - i)) else discrepancy)
       [1..<min degree n + 1] (syndromes ! n)"

lemma bm_discrepancy_total:
  assumes "n < length syn" and "degree < length c"
  shows "bm_discrepancy gf syn n c degree = Some (discrepancy_cells gf syn n c degree)"
proof -
  have "fold_opt (\<lambda>i discrepancy. do {
         ci \<leftarrow> read_cell c i;
         if ci = 0 then Some discrepancy
         else do {
           k \<leftarrow> checked_sub n i;
           sk \<leftarrow> read_cell syn k;
           Some (if sk \<noteq> 0 then discrepancy XOR gf_mul gf ci sk else discrepancy) } })
         [1..<min degree n + 1] (syn ! n) = Some (discrepancy_cells gf syn n c degree) \<and> True"
    unfolding discrepancy_cells_def
    by (rule fold_opt_pure[where P = "\<lambda>_. True"]) (use assms in \<open>auto simp: checked_sub_def less_Suc_eq_le\<close>)
  then show ?thesis using assms by (simp add: bm_discrepancy_def)
qed

definition add_shifted_cells :: "galois16 \<Rightarrow> u16 \<Rightarrow> u16 list \<Rightarrow> nat \<Rightarrow> nat \<Rightarrow> u16 list \<Rightarrow> u16 list" where
  "add_shifted_cells gf q b m k c =
     fold (\<lambda>j c. if b ! j \<noteq> 0 then c[j + m := c ! (j + m) XOR gf_mul gf q (b ! j)] else c) [0..<k] c"

lemma add_shifted_total:
  assumes "k \<le> length b" and "m + k \<le> length c"
  shows "add_shifted gf q b m k c = Some (add_shifted_cells gf q b m k c)"
proof -
  have "add_shifted gf q b m k c = Some (add_shifted_cells gf q b m k c) \<and> length (add_shifted_cells gf q b m k c) = length c"
    unfolding add_shifted_def add_shifted_cells_def
    by (rule fold_opt_pure[where P = "\<lambda>zs. length zs = length c"]) (use assms in auto)
  then show ?thesis ..
qed

definition evaluator_cells :: "galois16 \<Rightarrow> u16 list \<Rightarrow> u16 list \<Rightarrow> nat \<Rightarrow> u16 list" where
  "evaluator_cells gf syndromes sigma npar =
     fold (\<lambda>(i, a) omega. if a = 0 \<or> i \<ge> npar then omega else add_shifted_cells gf a syndromes i (npar - i) omega)
       (enumerate 0 sigma) (replicate npar 0)"

lemma add_shifted_cells_length [simp]: "length (add_shifted_cells gf q b m k c) = length c"
proof -
  have "length (fold (\<lambda>j c. if b ! j \<noteq> 0 then c[j + m := c ! (j + m) XOR gf_mul gf q (b ! j)] else c) js c) = length c" for js
    by (induction js arbitrary: c) simp_all
  then show ?thesis by (simp add: add_shifted_cells_def)
qed

lemma syndrome_evaluator_total:
  assumes "npar \<le> length syn"
  shows "syndrome_evaluator gf syn sigma npar = Some (evaluator_cells gf syn sigma npar)"
proof -
  have "syndrome_evaluator gf syn sigma npar = Some (evaluator_cells gf syn sigma npar)
      \<and> length (evaluator_cells gf syn sigma npar) = npar"
    unfolding syndrome_evaluator_def evaluator_cells_def
    by (rule fold_opt_pure[where P = "\<lambda>zs. length zs = npar"])
      (use assms in \<open>auto simp: add_shifted_total checked_sub_def\<close>)
  then show ?thesis ..
qed

definition derivative_cells :: "galois16 \<Rightarrow> u16 list \<Rightarrow> nat \<Rightarrow> u16" where
  "derivative_cells gf sigma z_exp =
     fold (\<lambda>degree out. if sigma ! degree \<noteq> 0
             then out XOR mul_exp gf (sigma ! degree) ((z_exp * (degree - 1)) mod gf_max) else out)
       (filter odd [1..<length sigma]) 0"

lemma sigma_derivative_total [simp]: "sigma_derivative_at gf sigma z = Some (derivative_cells gf sigma z)"
proof -
  have "sigma_derivative_at gf sigma z = Some (derivative_cells gf sigma z) \<and> True"
    unfolding sigma_derivative_at_def derivative_cells_def
    by (rule fold_opt_pure[where P = "\<lambda>_. True"]) (auto simp: checked_sub_def)
  then show ?thesis ..
qed

lemma last_nonzero_lt: "c \<noteq> [] \<Longrightarrow> last_nonzero c < length c"
proof -
  assume c: "c \<noteq> []"
  have "i < length c" if "rev (filter (\<lambda>i. c ! i \<noteq> 0) [0..<length c]) = i # is" for i "is"
  proof -
    have "i \<in> set (rev (filter (\<lambda>i. c ! i \<noteq> 0) [0..<length c]))" unfolding that by simp
    then show ?thesis by simp
  qed
  then show ?thesis using c by (auto simp: last_nonzero_def split: list.splits)
qed

subsection \<open>The loops in the field\<close>

definition cf :: "u16 list \<Rightarrow> nat \<Rightarrow> gf16" where
  "cf c i = (if i < length c then gf_of (c ! i) else 0)"

lemma cf_out [simp]: "length c \<le> i \<Longrightarrow> cf c i = 0"
  by (simp add: cf_def)

definition bm_ok :: "(nat \<Rightarrow> gf16) \<Rightarrow> nat \<Rightarrow> nat \<Rightarrow> nat \<Rightarrow> bm_state \<Rightarrow> bool" where
  "bm_ok s npar bound n st \<longleftrightarrow> length (bm_c st) = npar + 1 \<and> length (bm_b st) = npar + 1 \<and> bm_degree st \<le> bound
     \<and> bm_inv s n (cf (bm_c st)) (cf (bm_b st)) (bm_degree st) (bm_m st) (gf_of (bm_last st))"

lemma fold_xor_sum:
  "gf_of (fold (\<lambda>i acc. if P i then acc XOR f i else acc) is a) = gf_of a + (\<Sum>i\<leftarrow>is. if P i then gf_of (f i) else 0)"
  by (induction "is" arbitrary: a) (simp_all add: gf_of_xor add.assoc)

context galois_tables begin

lemma fold_xor_eval:
  "gf_of (fold (\<lambda>(degree, coeff) out. if coeff \<noteq> 0 then out XOR mul_exp gf coeff ((z * degree) mod gf_max) else out)
      (enumerate k poly) a) = gf_of a + (\<Sum>i<length poly. gf_of (poly ! i) * alpha ^ (z * (k + i)))"
proof (induction poly arbitrary: k a)
  case (Cons p poly)
  have "alpha ^ ((z * k) mod 65535) = alpha ^ (z * k)" by (rule alpha_pow_mod)
  then show ?case
    using Cons[of "Suc k"] by (auto simp: sum.lessThan_Suc_shift gf_of_xor add.assoc simp del: sum.lessThan_Suc)
qed simp

lemma eval_poly_value:
  "gf_of (eval_poly_at_alpha_exp gf poly z) = (\<Sum>i<length poly. cf poly i * (alpha ^ z) ^ i)"
  using fold_xor_eval[of z 0 poly 0]
  by (simp add: eval_poly_at_alpha_exp_def cf_def power_mult)

lemma eval_poly_poly_val:
  assumes "length poly \<le> Suc n"
  shows "gf_of (eval_poly_at_alpha_exp gf poly z) = poly_val (cf poly) n (alpha ^ z)"
  unfolding eval_poly_value poly_val_def
  using assms by (intro sum.mono_neutral_left) auto

lemma alpha_inverse_exp: "alpha ^ inverse_exp k = 1 / alpha ^ k"
proof -
  have "alpha ^ inverse_exp k = alpha ^ (65535 - k mod 65535)" by (simp add: inverse_exp_def alpha_pow_mod)
  also have "\<dots> = alpha ^ 0 / alpha ^ (k mod 65535)" using alpha_pow_diff[of "k mod 65535" 0] by simp
  finally show ?thesis by (simp add: alpha_pow_mod)
qed

lemma add_shifted_cells_nth:
  assumes "m + k \<le> length c" and "i < length c"
  shows "gf_of (add_shifted_cells gf q b m k c ! i) = gf_of (c ! i) + (if m \<le> i \<and> i < m + k then gf_of q * gf_of (b ! (i - m)) else 0)"
  using assms(1)
proof (induction k)
  case (Suc k)
  let ?c = "add_shifted_cells gf q b m k c"
  have "add_shifted_cells gf q b m (Suc k) c = (if b ! k \<noteq> 0 then ?c[k + m := ?c ! (k + m) XOR gf_mul gf q (b ! k)] else ?c)"
    by (simp add: add_shifted_cells_def)
  then show ?case
    using Suc assms(2)
    by (cases "i = m + k") (auto simp: nth_list_update gf_of_xor add.commute[of k m] less_Suc_eq)
qed (auto simp: add_shifted_cells_def)

lemma discrepancy_cells_value:
  assumes "degree \<le> n" and "degree < length c" and "n < length syn" and "gf_of (c ! 0) = 1"
    and s: "\<And>k. k \<le> n \<Longrightarrow> gf_of (syn ! k) = s k"
  shows "gf_of (discrepancy_cells gf syn n c degree) = discrepancy (cf c) degree s n"
proof -
  have "gf_of (discrepancy_cells gf syn n c degree) = gf_of (syn ! n)
      + (\<Sum>i\<leftarrow>[1..<degree + 1]. if c ! i \<noteq> 0 \<and> syn ! (n - i) \<noteq> 0 then gf_of (gf_mul gf (c ! i) (syn ! (n - i))) else 0)"
    using assms(1) unfolding discrepancy_cells_def fold_xor_sum by (simp add: min_def)
  also have "(\<Sum>i\<leftarrow>[1..<degree + 1]. if c ! i \<noteq> 0 \<and> syn ! (n - i) \<noteq> 0 then gf_of (gf_mul gf (c ! i) (syn ! (n - i))) else 0)
      = (\<Sum>i\<in>{1..degree}. cf c i * s (n - i))"
  proof -
    have "(if c ! i \<noteq> 0 \<and> syn ! (n - i) \<noteq> 0 then gf_of (gf_mul gf (c ! i) (syn ! (n - i))) else 0) = cf c i * s (n - i)"
      if "i \<in> {1..<degree + 1}" for i
      using that assms(2) s[of "n - i"] by (auto simp: cf_def)
    then show ?thesis
      unfolding sum_list_distinct_conv_sum_set[OF distinct_upt] set_upt by (intro sum.cong) auto
  qed
  also have "gf_of (syn ! n) + \<dots> = (\<Sum>i\<le>degree. cf c i * s (n - i))"
  proof -
    have "{..degree} = insert 0 {1..degree}" by auto
    then show ?thesis using assms(2,4) s[of n] by (auto simp: cf_def)
  qed
  finally show ?thesis by (simp add: discrepancy_def)
qed

subsection \<open>Berlekamp-Massey finds a recurrence no longer than the locator\<close>

lemma bm_start_ok: "bm_ok s npar bound 0 (bm_start npar)"
proof -
  have "cf ((replicate (npar + 1) 0)[0 := 1]) = (\<lambda>i. if i = 0 then 1 else 0)"
    by (auto simp: cf_def gf_of_1 nth_list_update nth_Cons' fun_eq_iff)
  then show ?thesis using bm_inv_start by (simp add: bm_ok_def bm_start_def gf_of_1 del: replicate_Suc)
qed

lemma bm_step_ok:
  assumes ok: "bm_ok s npar bound n st" and n: "n < npar" and len: "npar \<le> length syn"
    and s: "\<And>k. k < npar \<Longrightarrow> gf_of (syn ! k) = s k"
    and D: "connection D bound" "generates D bound s npar"
  shows "\<exists>st'. bm_step gf syn npar n st = Some st' \<and> bm_ok s npar bound (Suc n) st'"
proof -
  let ?C = "cf (bm_c st)" and ?B = "cf (bm_b st)" and ?L = "bm_degree st"
  let ?d = "discrepancy_cells gf syn n (bm_c st) ?L"
  have inv: "bm_inv s n ?C ?B ?L (bm_m st) (gf_of (bm_last st))"
    and lens: "length (bm_c st) = npar + 1" "length (bm_b st) = npar + 1" and L: "?L \<le> bound"
    using ok by (auto simp: bm_ok_def)
  then have Ln: "?L \<le> n" and c0: "gf_of (bm_c st ! 0) = 1" and b0: "gf_of (bm_last st) \<noteq> 0" and m1: "1 \<le> bm_m st"
    by (auto simp: bm_inv_def connection_def cf_def)
  have d: "gf_of ?d = discrepancy ?C ?L s n"
    using discrepancy_cells_value[OF Ln, of "bm_c st" syn s] Ln c0 lens n len s by simp
  have run: "bm_discrepancy gf syn n (bm_c st) ?L = Some ?d"
    using n len Ln lens by (intro bm_discrepancy_total) simp_all
  show ?thesis
  proof (cases "?d = 0")
    case True
    then have "bm_inv s (Suc n) ?C ?B ?L (bm_m st + 1) (gf_of (bm_last st))"
      using bm_inv_skip[OF inv] d by simp
    then show ?thesis using True lens L run by (simp add: bm_step_def bm_ok_def)
  next
    case False
    then have dn: "discrepancy ?C ?L s n \<noteq> 0" using d by (metis gf_of_eq_0)
    let ?q = "word_of (gf_of ?d / gf_of (bm_last st))"
    have "bm_last st \<noteq> 0" using b0 by auto
    then have div: "gf_div gf ?d (bm_last st) = Some ?q" by (rule gf_div_value)
    define c where "c = (if bm_m st \<le> npar then add_shifted_cells gf ?q (bm_b st) (bm_m st) (npar - bm_m st + 1) (bm_c st) else bm_c st)"
    have lc: "length c = npar + 1" using lens by (simp add: c_def)
    have add: "(if bm_m st \<le> npar then do { k \<leftarrow> checked_sub npar (bm_m st); add_shifted gf ?q (bm_b st) (bm_m st) (k + 1) (bm_c st) }
        else Some (bm_c st)) = Some c"
      using lens m1 by (simp add: c_def checked_sub_def add_shifted_total)
    have sub: "checked_sub (n + 1) ?L = Some (n + 1 - ?L)" using Ln by (simp add: checked_sub_def)
    have cfc: "cf c = bm_update npar (bm_m st) (gf_of ?d / gf_of (bm_last st)) ?C ?B"
    proof
      fix i
      show "cf c i = bm_update npar (bm_m st) (gf_of ?d / gf_of (bm_last st)) ?C ?B i"
      proof (cases "i < npar + 1")
        case True
        then show ?thesis
          using add_shifted_cells_nth[of "bm_m st" "npar - bm_m st + 1" "bm_c st" i ?q "bm_b st"] lens lc
          by (auto simp: cf_def bm_update_def c_def)
      next
        case False
        then show ?thesis using lens lc by (simp add: cf_def bm_update_def)
      qed
    qed
    have upd: "if 2 * ?L \<le> n then bm_inv s (Suc n) (cf c) ?C (Suc n - ?L) 1 (gf_of ?d)
        else bm_inv s (Suc n) (cf c) ?B ?L (bm_m st + 1) (gf_of (bm_last st))"
      unfolding cfc using bm_inv_update[OF inv d[symmetric] _ n] dn d by simp
    have "generates D bound s (Suc n)" using D(2) n by (auto simp: generates_def)
    then have bd: "Suc n - ?L \<le> bound" using bm_length_bound[OF inv dn D(1)] by blast
    show ?thesis using False div upd lens lc L bd
      unfolding bm_step_def run bind.bind_lunit
      by (simp add: add sub[simplified] bm_ok_def Let_def split: if_splits)
  qed
qed

lemma bm_run_ok:
  assumes len: "npar \<le> length syn" and s: "\<And>k. k < npar \<Longrightarrow> gf_of (syn ! k) = s k"
    and D: "connection D bound" "generates D bound s npar"
  shows "\<exists>st. fold_opt (bm_step gf syn npar) [0..<npar] (bm_start npar) = Some st \<and> bm_ok s npar bound npar st"
proof -
  have "m \<le> npar \<Longrightarrow> \<exists>st. fold_opt (bm_step gf syn npar) [0..<m] (bm_start npar) = Some st \<and> bm_ok s npar bound m st" for m
  proof (induction m)
    case (Suc m)
    then obtain st where "fold_opt (bm_step gf syn npar) [0..<m] (bm_start npar) = Some st" "bm_ok s npar bound m st"
      by auto
    moreover then obtain st' where "bm_step gf syn npar m st = Some st'" "bm_ok s npar bound (Suc m) st'"
      using bm_step_ok[OF _ _ len s D, of m st] Suc.prems by auto
    ultimately show ?case by (simp add: fold_opt_append)
  qed (use bm_start_ok in simp)
  then show ?thesis by blast
qed

end

subsection \<open>A column with few errors\<close>

text \<open>Row \<open>r\<close> of \<open>rows\<close> has the locator \<open>alpha^(rows - 1 - r)\<close>; \<open>column_errors\<close>: errors \<open>e\<close> at the rows \<open>E\<close>, at most half the parity,
  give these syndromes.\<close>

definition row_locator :: "nat \<Rightarrow> nat \<Rightarrow> gf16" where
  "row_locator rows r = alpha ^ (rows - 1 - r)"

definition column_errors :: "nat \<Rightarrow> nat \<Rightarrow> nat set \<Rightarrow> (nat \<Rightarrow> u16) \<Rightarrow> u16 list \<Rightarrow> bool" where
  "column_errors npar rows E e syn \<longleftrightarrow> 1 \<le> npar \<and> npar \<le> 16 \<and> 1 \<le> rows \<and> rows \<le> 65535 \<and> E \<subseteq> {..<rows}
     \<and> card E \<le> npar div 2 \<and> (\<forall>r \<in> E. e r \<noteq> 0) \<and> npar \<le> length syn
     \<and> (\<forall>k < npar. gf_of (syn ! k) = power_sum E (row_locator rows) (gf_of \<circ> e) k)"

lemma column_pattern:
  assumes "column_errors npar rows E e syn"
  shows "error_pattern E (row_locator rows) (gf_of \<circ> e)" and "2 * card E \<le> npar" and "card E \<le> npar"
proof -
  have "finite E" using assms by (auto simp: column_errors_def intro: finite_subset)
  moreover have "r = r'" if "r \<in> E" "r' \<in> E" "row_locator rows r = row_locator rows r'" for r r'
  proof -
    have lt: "r < rows" "r' < rows" using assms that(1,2) by (auto simp: column_errors_def)
    then have "rows - 1 - r = rows - 1 - r'"
      using that(3) assms by (intro alpha_pow_inject) (auto simp: row_locator_def column_errors_def)
    then show ?thesis using lt by simp
  qed
  ultimately show "error_pattern E (row_locator rows) (gf_of \<circ> e)"
    using assms by (auto simp: error_pattern_def inj_on_def row_locator_def column_errors_def)
  have "card E \<le> npar div 2" using assms by (simp add: column_errors_def)
  then show "2 * card E \<le> npar" by linarith
  then show "card E \<le> npar" by simp
qed

lemma column_all_zero:
  assumes "column_errors npar rows E e syn"
  shows "all_zero (take npar syn) \<longleftrightarrow> E = {}"
proof
  assume "E = {}"
  then show "all_zero (take npar syn)"
    using assms by (auto simp: all_zero_def column_errors_def power_sum_def in_set_conv_nth)
next
  note p = column_pattern[OF assms]
  assume z: "all_zero (take npar syn)"
  have "(\<Sum>l\<in>E. (gf_of \<circ> e) l * row_locator rows l ^ t) = 0" if "t < card E" for t
  proof -
    have "t < npar" using that p(3) by simp
    then have "syn ! t \<in> set (take npar syn)" using assms by (auto simp: column_errors_def in_set_conv_nth)
    then have "syn ! t = 0" using z by (simp add: all_zero_def)
    moreover have "gf_of (syn ! t) = power_sum E (row_locator rows) (gf_of \<circ> e) t"
      using assms \<open>t < npar\<close> by (simp add: column_errors_def)
    ultimately show ?thesis by (simp add: power_sum_def)
  qed
  from vandermonde[OF _ _ this] p(1) have "\<forall>l \<in> E. (gf_of \<circ> e) l = 0" by (auto simp: error_pattern_def)
  then show "E = {}" using p(1) by (auto simp: error_pattern_def)
qed

lemma last_nonzero_eq:
  assumes "d < length c" and "c ! d \<noteq> 0" and "\<And>i. d < i \<Longrightarrow> i < length c \<Longrightarrow> c ! i = 0"
  shows "last_nonzero c = d"
proof -
  have "[0..<length c] = [0..<d] @ d # [Suc d..<length c]"
    using assms(1) by (metis upt_add_eq_append upt_conv_Cons le0 less_or_eq_imp_le le_add_diff_inverse add_0)
  moreover have "filter (\<lambda>i. c ! i \<noteq> 0) [Suc d..<length c] = []" using assms(3) by (simp add: filter_empty_conv)
  ultimately show ?thesis using assms(2) by (simp add: last_nonzero_def)
qed

text \<open>What Berlekamp-Massey returns: a polynomial of degree \<open>card E\<close> with constant term 1 and the inverse locators as roots.\<close>

definition is_locator :: "u16 list \<Rightarrow> nat \<Rightarrow> nat set \<Rightarrow> bool" where
  "is_locator sigma rows E \<longleftrightarrow> length sigma = card E + 1 \<and> connection (cf sigma) (card E)
     \<and> (\<forall>r \<in> E. poly_val (cf sigma) (card E) (1 / row_locator rows r) = 0)"

context galois_tables begin

lemma berlekamp_massey_locator:
  assumes col: "column_errors npar rows E e syn"
  shows "\<exists>sigma. berlekamp_massey gf syn npar = Some (Some (sigma, card E)) \<and> is_locator sigma rows E"
proof (cases "E = {}")
  case True
  have "all_zero (take npar syn)" using column_all_zero[OF col] True by simp
  moreover have "npar \<le> length syn" using col by (simp add: column_errors_def)
  moreover have "is_locator [1] rows E"
    using True by (auto simp: is_locator_def connection_def cf_def gf_of_1)
  ultimately show ?thesis using True by (simp add: berlekamp_massey_def)
next
  case False
  note p = column_pattern[OF col]
  let ?s = "power_sum E (row_locator rows) (gf_of \<circ> e)"
  obtain D where D: "connection D (card E)" "\<And>n. generates D (card E) ?s n"
    using locator_generates[OF p(1)] by blast
  have len: "npar \<le> length syn" and s: "\<And>k. k < npar \<Longrightarrow> gf_of (syn ! k) = ?s k"
    using col by (auto simp: column_errors_def)
  obtain st where run: "fold_opt (bm_step gf syn npar) [0..<npar] (bm_start npar) = Some st"
    and ok: "bm_ok ?s npar (card E) npar st"
    using bm_run_ok[OF len s D(1) D(2)] by blast
  let ?c = "bm_c st"
  have lc: "length ?c = npar + 1" and L: "bm_degree st \<le> card E"
    and C: "connection (cf ?c) (bm_degree st)" "generates (cf ?c) (bm_degree st) ?s npar"
    using ok by (auto simp: bm_ok_def bm_inv_def)
  have roots: "poly_val (cf ?c) (card E) (1 / row_locator rows r) = 0" if "r \<in> E" for r
    using recurrence_roots[OF p(1) C(1) L C(2) p(2) that] .
  have c0: "cf ?c 0 = 1" using C(1) by (simp add: connection_def)
  have top: "cf ?c (card E) \<noteq> 0" using degree_exactly[OF p(1) c0 roots] .
  have above: "\<And>i. card E < i \<Longrightarrow> cf ?c i = 0" using C(1) L by (simp add: connection_def)
  have "last_nonzero ?c = card E"
  proof (rule last_nonzero_eq)
    show "card E < length ?c" using p(3) lc by simp
    then show "?c ! card E \<noteq> 0" using top by (auto simp: cf_def)
    show "?c ! i = 0" if "card E < i" "i < length ?c" for i using above[OF that(1)] that(2) by (simp add: cf_def)
  qed
  moreover have "\<not> all_zero (take npar syn)" using column_all_zero[OF col] False by simp
  ultimately have bm: "berlekamp_massey gf syn npar = Some (Some (take (card E + 1) ?c, card E))"
    using run len lc p(3) by (simp add: berlekamp_massey_def Let_def)
  have cft: "cf (take (card E + 1) ?c) = cf ?c"
  proof
    fix i
    show "cf (take (card E + 1) ?c) i = cf ?c i"
      using above[of i] lc p(3) by (cases "i < card E + 1") (simp_all add: cf_def)
  qed
  have "is_locator (take (card E + 1) ?c) rows E"
    unfolding is_locator_def cft using roots c0 above lc p(3) by (simp add: connection_def)
  then show ?thesis using bm by blast
qed

lemma chien_root:
  assumes col: "column_errors npar rows E e syn" and sig: "is_locator sigma rows E" and k: "k < rows"
  shows "eval_poly_at_alpha_exp gf sigma (inverse_exp k) = 0 \<longleftrightarrow> rows - 1 - k \<in> E"
proof -
  note p = column_pattern[OF col]
  have v: "gf_of (eval_poly_at_alpha_exp gf sigma (inverse_exp k)) = poly_val (cf sigma) (card E) (1 / alpha ^ k)"
    using sig eval_poly_poly_val[of sigma "card E" "inverse_exp k"] by (simp add: is_locator_def alpha_inverse_exp)
  have loc: "row_locator rows (rows - 1 - k) = alpha ^ k" using k by (simp add: row_locator_def)
  have "poly_val (cf sigma) (card E) (1 / alpha ^ k) = 0 \<longleftrightarrow> rows - 1 - k \<in> E"
  proof
    assume "poly_val (cf sigma) (card E) (1 / alpha ^ k) = 0"
    then have "1 / alpha ^ k \<in> (\<lambda>l. 1 / row_locator rows l) ` E"
      using roots_exactly[OF p(1), of "cf sigma"] sig by (simp add: is_locator_def connection_def)
    then obtain r where r: "r \<in> E" "1 / alpha ^ k = 1 / row_locator rows r" by blast
    then have "alpha ^ k = alpha ^ (rows - 1 - r)" by (simp add: row_locator_def)
    then have "k = rows - 1 - r" using k col by (intro alpha_pow_inject) (auto simp: column_errors_def)
    moreover have "r < rows" using r(1) col by (auto simp: column_errors_def)
    ultimately show "rows - 1 - k \<in> E" using r(1) by simp
  next
    assume "rows - 1 - k \<in> E"
    then show "poly_val (cf sigma) (card E) (1 / alpha ^ k) = 0" using sig loc by (auto simp: is_locator_def)
  qed
  then show ?thesis using v by (metis gf_of_eq_0)
qed

lemma chien_search_rows:
  assumes col: "column_errors npar rows E e syn" and sig: "is_locator sigma rows E"
  shows "chien_search gf sigma (card E) rows = Some (sorted_list_of_set E)"
proof (cases "card E = 0")
  case True
  then show ?thesis using column_pattern(1)[OF col] by (simp add: chien_search_def error_pattern_def)
next
  case False
  have fin: "finite E" using column_pattern(1)[OF col] by (simp add: error_pattern_def)
  have rows: "1 \<le> rows" "rows \<le> 65535" and E: "E \<subseteq> {..<rows}" using col by (auto simp: column_errors_def)
  let ?found = "\<lambda>m. map (\<lambda>k. rows - 1 - k) (filter (\<lambda>k. rows - 1 - k \<in> E) [0..<m])"
  have set: "set (?found m) \<subseteq> E" for m by auto
  have dis: "distinct (?found m)" if "m \<le> rows" for m
    using that by (auto simp: distinct_map inj_on_def)
  have le: "length (?found m) \<le> card E" if "m \<le> rows" for m
    using card_mono[OF fin set[of m]] distinct_card[OF dis[OF that]] by simp
  let ?step = "\<lambda>locator_exp rows'. if eval_poly_at_alpha_exp gf sigma (inverse_exp locator_exp) = 0
      then let rows' = rows' @ [rows - 1 - locator_exp] in if length rows' > card E then None else Some rows' else Some rows'"
  have run: "m \<le> rows \<Longrightarrow> fold_opt ?step [0..<m] [] = Some (?found m)" for m
  proof (induction m)
    case (Suc m)
    then have "fold_opt ?step [0..<m] [] = Some (?found m)" by simp
    moreover have "?step m (?found m) = Some (?found (Suc m))"
      using chien_root[OF col sig, of m] le[OF Suc.prems] Suc.prems
      by (auto simp: Let_def split: if_splits)
    ultimately show ?case
      by (simp only: upt_Suc_append[OF le0] fold_opt_append fold_opt.simps bind.bind_lunit)
  qed simp
  have all: "set (?found rows) = E"
  proof
    show "E \<subseteq> set (?found rows)"
    proof
      fix r assume r: "r \<in> E"
      then have "r = rows - 1 - (rows - 1 - r)" "rows - 1 - r < rows" using E by auto
      then show "r \<in> set (?found rows)" using r by force
    qed
  qed (rule set)
  then have "length (?found rows) = card E" using distinct_card[OF dis[of rows]] by simp
  moreover have "sort (?found rows) = sorted_list_of_set E"
    using all dis[of rows] by (metis order_refl sorted_list_of_set_sort_remdups distinct_remdups_id)
  ultimately show ?thesis using False rows run[of rows] by (simp add: chien_search_def)
qed

end

subsection \<open>Magnitudes and residual\<close>

context galois_tables begin

lemma evaluator_cells_value:
  assumes len: "npar \<le> length syn" and s: "\<And>k. k < npar \<Longrightarrow> gf_of (syn ! k) = s k" and t: "t < npar"
  shows "length (evaluator_cells gf syn sigma npar) = npar"
    and "gf_of (evaluator_cells gf syn sigma npar ! t) = evaluator (cf sigma) s t"
proof -
  let ?f = "\<lambda>(i, a) omega. if a = 0 \<or> i \<ge> npar then omega else add_shifted_cells gf a syn i (npar - i) omega"
  have "length (fold ?f (enumerate k sg) omega) = npar
    \<and> gf_of (fold ?f (enumerate k sg) omega ! t)
      = gf_of (omega ! t) + (\<Sum>i<length sg. if k + i \<le> t then gf_of (sg ! i) * s (t - (k + i)) else 0)"
    if "length omega = npar" for k sg omega
    using that
  proof (induction sg arbitrary: k omega)
    case (Cons a sg)
    let ?o = "?f (k, a) omega"
    have lo: "length ?o = npar" using Cons.prems by simp
    have "gf_of (?o ! t) = gf_of (omega ! t) + (if k \<le> t then gf_of a * s (t - k) else 0)"
      using Cons.prems t s[of "t - k"] add_shifted_cells_nth[of k "npar - k" omega t a syn] by auto
    then show ?case using Cons.IH[OF lo, of "Suc k"]
      by (auto simp: sum.lessThan_Suc_shift add.assoc simp del: sum.lessThan_Suc intro!: sum.cong)
  qed simp
  from this[of "replicate npar 0" 0 sigma, unfolded add_0]
  have l: "length (evaluator_cells gf syn sigma npar) = npar"
    and v: "gf_of (evaluator_cells gf syn sigma npar ! t)
      = (\<Sum>i<length sigma. if i \<le> t then gf_of (sigma ! i) * s (t - i) else 0)"
    using t by (simp_all add: evaluator_cells_def)
  show "length (evaluator_cells gf syn sigma npar) = npar" by (rule l)
  have "(\<Sum>i<length sigma. if i \<le> t then gf_of (sigma ! i) * s (t - i) else 0)
      = (\<Sum>i<length sigma. if i \<le> t then cf sigma i * s (t - i) else 0)"
    by (intro sum.cong) (auto simp: cf_def)
  also have "\<dots> = (\<Sum>i\<in>{..<length sigma} \<inter> {..t}. cf sigma i * s (t - i))"
    by (simp add: sum.inter_restrict)
  also have "\<dots> = (\<Sum>i\<le>t. cf sigma i * s (t - i))"
    by (intro sum.mono_neutral_left) (auto simp: cf_def split: if_splits)
  finally show "gf_of (evaluator_cells gf syn sigma npar ! t) = evaluator (cf sigma) s t"
    unfolding v evaluator_def .
qed

lemma of_nat_gf: "of_nat i = (if odd i then 1 else (0 :: gf16))"
  by (induction i) auto

lemma derivative_value:
  assumes "length sigma = n + 1"
  shows "gf_of (derivative_cells gf sigma z) = derivative_at (cf sigma) n (alpha ^ z)"
proof -
  have "gf_of (derivative_cells gf sigma z) = (\<Sum>d\<leftarrow>filter odd [1..<length sigma].
      if sigma ! d \<noteq> 0 then gf_of (mul_exp gf (sigma ! d) ((z * (d - 1)) mod gf_max)) else 0)"
    unfolding derivative_cells_def fold_xor_sum by simp
  also have "\<dots> = (\<Sum>d\<in>{d \<in> {1..n}. odd d}. if sigma ! d \<noteq> 0 then gf_of (mul_exp gf (sigma ! d) ((z * (d - 1)) mod gf_max)) else 0)"
    using assms by (subst sum_list_distinct_conv_sum_set) (auto intro!: sum.cong)
  also have "\<dots> = (\<Sum>d\<in>{d \<in> {1..n}. odd d}. of_nat d * cf sigma d * (alpha ^ z) ^ (d - 1))"
    using assms by (intro sum.cong refl) (auto simp: cf_def of_nat_gf alpha_pow_mod power_mult)
  also have "\<dots> = derivative_at (cf sigma) n (alpha ^ z)"
    unfolding derivative_at_def by (intro sum.mono_neutral_left) (auto simp: of_nat_gf)
  finally show ?thesis .
qed

lemma forney_row:
  assumes col: "column_errors npar rows E e syn" and sig: "is_locator sigma rows E" and r: "r \<in> E"
  defines "z \<equiv> inverse_exp (rows - 1 - r)"
  shows "derivative_cells gf sigma z \<noteq> 0"
    and "\<exists>q. gf_div gf (eval_poly_at_alpha_exp gf (evaluator_cells gf syn sigma npar) z) (derivative_cells gf sigma z) = Some q
      \<and> gf_mul gf (alpha_pow gf (rows - 1 - r)) q = e r"
proof -
  note p = column_pattern[OF col]
  let ?X = "row_locator rows" and ?e = "gf_of \<circ> e"
  let ?s = "power_sum E ?X ?e"
  let ?omega = "evaluator_cells gf syn sigma npar"
  have len: "npar \<le> length syn" and s: "\<And>k. k < npar \<Longrightarrow> gf_of (syn ! k) = ?s k" and n1: "1 \<le> npar"
    using col by (auto simp: column_errors_def)
  have conn: "connection (cf sigma) (card E)" and ls: "length sigma = card E + 1"
    and roots: "\<And>l. l \<in> E \<Longrightarrow> poly_val (cf sigma) (card E) (1 / ?X l) = 0"
    using sig by (auto simp: is_locator_def)
  have az: "alpha ^ z = 1 / ?X r" by (simp add: z_def alpha_inverse_exp row_locator_def)
  have X: "?X r \<noteq> 0" by (simp add: row_locator_def)
  note f = forney_formula[OF p(1) conn roots r p(3)]
  have d: "gf_of (derivative_cells gf sigma z) = derivative_at (cf sigma) (card E) (1 / ?X r)"
    using derivative_value[OF ls, of z] by (simp only: az)
  then have "gf_of (derivative_cells gf sigma z) \<noteq> 0" using f(1) by simp
  then show nz: "derivative_cells gf sigma z \<noteq> 0" by (metis gf_of_eq_0)
  have lo: "length ?omega = npar" using evaluator_cells_value(1)[where t = 0, OF len s] n1 by simp
  have "gf_of (eval_poly_at_alpha_exp gf ?omega z) = (\<Sum>t<npar. evaluator (cf sigma) ?s t * (1 / ?X r) ^ t)"
    unfolding eval_poly_value lo az
    by (intro sum.cong refl) (use evaluator_cells_value(2)[OF len s] lo in \<open>simp add: cf_def\<close>)
  then have o: "gf_of (eval_poly_at_alpha_exp gf ?omega z) = gf_of (e r) * (1 / ?X r * derivative_at (cf sigma) (card E) (1 / ?X r))"
    using f(2) by simp
  let ?q = "word_of (gf_of (eval_poly_at_alpha_exp gf ?omega z) / gf_of (derivative_cells gf sigma z))"
  have "gf_of (gf_mul gf (alpha_pow gf (rows - 1 - r)) ?q) = gf_of (e r)"
    using X f(1) unfolding gf_of_mul gf_of_alpha_pow word_of_gf_of o d gf_of_word_of
    by (simp add: row_locator_def)
  then have "gf_mul gf (alpha_pow gf (rows - 1 - r)) ?q = e r" by (simp only: gf_of_inject_iff)
  then show "\<exists>q. gf_div gf (eval_poly_at_alpha_exp gf ?omega z) (derivative_cells gf sigma z) = Some q
      \<and> gf_mul gf (alpha_pow gf (rows - 1 - r)) q = e r"
    using gf_div_value[OF nz] by blast
qed

lemma forney_magnitudes:
  assumes col: "column_errors npar rows E e syn" and sig: "is_locator sigma rows E"
  shows "forney gf syn sigma (sorted_list_of_set E) npar rows = Some (Some (map e (sorted_list_of_set E)))"
proof -
  have E: "E \<subseteq> {..<rows}" "finite E" and rows: "1 \<le> rows" "rows \<le> 65535" and len: "npar \<le> length syn"
    using col by (auto simp: column_errors_def intro: finite_subset)
  have "set rs \<subseteq> E \<Longrightarrow> forney_rows gf (evaluator_cells gf syn sigma npar) sigma rows rs = Some (Some (map e rs))" for rs
  proof (induction rs)
    case (Cons r rs)
    then have r: "r \<in> E" "r < rows" using E(1) by auto
    have sub: "checked_sub rows 1 = Some (rows - 1)" "checked_sub (rows - 1) r = Some (rows - 1 - r)"
      using r(2) by (simp_all add: checked_sub_def)
    from forney_row[OF col sig r(1)] show ?case using Cons r(2) sub by (auto simp: Let_def)
  qed simp
  then show ?thesis using E(2) rows len by (simp add: forney_def syndrome_evaluator_total)
qed

end

context galois_tables begin

text \<open>Each correction removes its term from every syndrome.\<close>

lemma residual_value:
  assumes rows: "1 \<le> rows" "rows \<le> 65535" and len: "npar \<le> length syn"
    and rs: "\<forall>c \<in> set corrections. le_row c < rows"
  shows "\<exists>residual. residual_after_correction gf syn corrections npar rows = Some (Some residual) \<and> length residual = npar
    \<and> (\<forall>k < npar. gf_of (residual ! k) = gf_of (syn ! k)
         + (\<Sum>c\<leftarrow>corrections. gf_of (le_magnitude c) * row_locator rows (le_row c) ^ k))"
proof -
  have "\<exists>residual. residual_rows gf npar rows cs res = Some (Some residual) \<and> length residual = npar
      \<and> (\<forall>k < npar. gf_of (residual ! k) = gf_of (res ! k)
           + (\<Sum>c\<leftarrow>cs. gf_of (le_magnitude c) * row_locator rows (le_row c) ^ k))"
    if "length res = npar" "\<forall>c \<in> set cs. le_row c < rows" for cs res
    using that
  proof (induction cs arbitrary: res)
    case (Cons c cs)
    let ?f = "\<lambda>k. mul_exp gf (le_magnitude c) (((rows - 1 - le_row c) * k) mod gf_max)"
    let ?res = "map (\<lambda>k. res ! k XOR ?f k) [0..<npar]"
    have sub: "checked_sub rows 1 = Some (rows - 1)" "checked_sub (rows - 1) (le_row c) = Some (rows - 1 - le_row c)"
      using Cons.prems(2) by (auto simp: checked_sub_def)
    have "fold_opt (\<lambda>k residual. do { cell \<leftarrow> read_cell residual k; write_cell residual k (cell XOR ?f k) }) [0..<npar] res = Some ?res"
      using cells_in_place[of npar res _ "\<lambda>k v. v XOR ?f k"] Cons.prems(1) by simp
    then have st: "residual_rows gf npar rows (c # cs) res = residual_rows gf npar rows cs ?res"
      using Cons.prems(2) sub by simp
    have g: "gf_of (?res ! k) = gf_of (res ! k) + gf_of (le_magnitude c) * row_locator rows (le_row c) ^ k" if "k < npar" for k
      using that by (simp add: gf_of_xor alpha_pow_mod power_mult row_locator_def)
    obtain residual where "residual_rows gf npar rows cs ?res = Some (Some residual)" "length residual = npar"
      "\<forall>k < npar. gf_of (residual ! k) = gf_of (?res ! k)
         + (\<Sum>c\<leftarrow>cs. gf_of (le_magnitude c) * row_locator rows (le_row c) ^ k)"
      using Cons.IH[of ?res] Cons.prems(2) by auto
    then show ?case unfolding st using g by (simp add: add.assoc)
  qed simp
  from this[of "take npar syn" corrections] rs len rows show ?thesis
    by (simp add: residual_after_correction_def)
qed

text \<open>Few errors in a column are found exactly.\<close>

lemma column_repair:
  assumes col: "column_errors npar rows E e syn"
  defines "rs \<equiv> sorted_list_of_set E"
  shows "\<exists>sigma. berlekamp_massey gf syn npar = Some (Some (sigma, card E))
    \<and> chien_search gf sigma (card E) rows = Some rs
    \<and> forney gf syn sigma rs npar rows = Some (Some (map e rs))
    \<and> (\<exists>residual. residual_after_correction gf syn (located rs (map e rs)) npar rows = Some (Some residual) \<and> all_zero residual)"
proof -
  obtain sigma where sig: "berlekamp_massey gf syn npar = Some (Some (sigma, card E))" "is_locator sigma rows E"
    using berlekamp_massey_locator[OF col] by blast
  have E: "E \<subseteq> {..<rows}" and rows: "1 \<le> rows" "rows \<le> 65535" and len: "npar \<le> length syn"
    and s: "\<And>k. k < npar \<Longrightarrow> gf_of (syn ! k) = power_sum E (row_locator rows) (gf_of \<circ> e) k"
    using col by (auto simp: column_errors_def)
  have fin: "finite E" using column_pattern(1)[OF col] by (simp add: error_pattern_def)
  let ?cs = "located rs (map e rs)"
  have cs: "?cs = map (\<lambda>r. \<lparr>le_row = r, le_magnitude = e r\<rparr>) rs"
    by (simp add: located_def zip_map2 zip_same_conv_map)
  have "\<forall>c \<in> set ?cs. le_row c < rows" using E fin unfolding cs by (auto simp: rs_def)
  from residual_value[OF rows len this] obtain residual where
    r: "residual_after_correction gf syn ?cs npar rows = Some (Some residual)" "length residual = npar"
    and v: "\<And>k. k < npar \<Longrightarrow> gf_of (residual ! k) = gf_of (syn ! k)
         + (\<Sum>c\<leftarrow>?cs. gf_of (le_magnitude c) * row_locator rows (le_row c) ^ k)" by blast
  have sum: "(\<Sum>c\<leftarrow>?cs. gf_of (le_magnitude c) * row_locator rows (le_row c) ^ k)
      = power_sum E (row_locator rows) (gf_of \<circ> e) k" for k
    using fin unfolding cs by (simp add: rs_def power_sum_def comp_def sum_list_distinct_conv_sum_set)
  have "residual ! k = 0" if "k < npar" for k
    using v[OF that] s[OF that] unfolding sum by (metis gf_char2 gf_of_eq_0)
  then have "all_zero residual" using r(2) by (auto simp: all_zero_def in_set_conv_nth)
  then show ?thesis
    using sig chien_search_rows[OF col sig(2)] forney_magnitudes[OF col sig(2)] r(1) unfolding rs_def by blast
qed

end

text \<open>C6: the decoder of one column is complete up to half the parity: for any errors at no more than \<open>npar / 2\<close> of at
  most 65535 rows it returns exactly their rows, in order, with their magnitudes, and no division panics.\<close>

theorem decode_column_complete:
  assumes "column_errors npar rows E e syn"
  shows "decode_column_syndromes galois_new syn npar rows
    = Some (Some (map (\<lambda>r. \<lparr>le_row = r, le_magnitude = e r\<rparr>) (sorted_list_of_set E)))"
proof -
  have len: "npar \<le> length syn" and half: "card E \<le> npar div 2" using assms by (auto simp: column_errors_def)
  have cs: "located (sorted_list_of_set E) (map e (sorted_list_of_set E))
      = map (\<lambda>r. \<lparr>le_row = r, le_magnitude = e r\<rparr>) (sorted_list_of_set E)"
    by (simp add: located_def zip_map2 zip_same_conv_map)
  show ?thesis
  proof (cases "E = {}")
    case True
    then show ?thesis using len column_all_zero[OF assms] by (simp add: decode_column_syndromes_def)
  next
    case False
    have "card E \<noteq> 0" using False column_pattern(1)[OF assms] by (simp add: error_pattern_def)
    then show ?thesis
      using False len half column_all_zero[OF assms] tables.column_repair[OF assms] cs
      by (auto simp: decode_column_syndromes_def Let_def)
  qed
qed

theorem decode_column_complete_witness:
  "\<exists>syn. decode_column_syndromes galois_new syn 4 120
     = Some (Some [\<lparr>le_row = 0, le_magnitude = 0x1111\<rparr>, \<lparr>le_row = 7, le_magnitude = 0x2222\<rparr>])"
proof -
  let ?e = "\<lambda>r :: nat. if r = 0 then 0x1111 else 0x2222 :: u16"
  let ?syn = "map (\<lambda>k. word_of (power_sum {0, 7} (row_locator 120) (gf_of \<circ> ?e) k)) [0..<4]"
  have "column_errors 4 120 {0, 7} ?e ?syn" by (simp add: column_errors_def)
  from decode_column_complete[OF this] show ?thesis by auto
qed

lemma decode_column_explains:
  assumes "decode_column_syndromes galois_new syn npar rows = Some (Some corrections)"
  shows "length corrections \<le> npar div 2 \<and> sorted_wrt (<) (map le_row corrections)
    \<and> (\<forall>c \<in> set corrections. le_row c < rows)
    \<and> (\<forall>k < npar. gf_of (syn ! k)
         = (\<Sum>c\<leftarrow>corrections. gf_of (le_magnitude c) * row_locator rows (le_row c) ^ k))"
proof (cases "all_zero (take npar syn)")
  case True
  then have "corrections = []" and len: "npar \<le> length syn"
    using assms by (auto simp: decode_column_syndromes_def split: if_splits)
  moreover have "syn ! k = 0" if "k < npar" for k
  proof -
    have "take npar syn ! k \<in> set (take npar syn)" using len that by (intro nth_mem) simp
    then show ?thesis using True that by (simp add: all_zero_def)
  qed
  ultimately show ?thesis by simp
next
  case False
  then have len: "npar \<le> length syn" using assms by (auto simp: decode_column_syndromes_def split: if_splits)
  from assms False len obtain sigma n positions magnitudes residual where
    n: "n \<noteq> 0" "n \<le> npar div 2" and pos: "chien_search galois_new sigma n rows = Some positions"
    and mag: "forney galois_new syn sigma positions npar rows = Some (Some magnitudes)"
    and cs: "corrections = located positions magnitudes"
    and res: "residual_after_correction galois_new syn corrections npar rows = Some (Some residual)" "all_zero residual"
    by (auto simp: decode_column_syndromes_def then_some_eq_Some Let_def split: if_splits)
  have rows: "1 \<le> rows" "rows \<le> 65535"
    using res(1) by (auto simp: residual_after_correction_def split: if_splits)
  have "length magnitudes = length positions \<and> set positions \<subseteq> {..<rows}"
  proof -
    have "forney_rows gf omega sigma rows ps = Some (Some ms) \<Longrightarrow> length ms = length ps \<and> set ps \<subseteq> {..<rows}" for gf omega ps ms
      by (induction ps arbitrary: ms) (auto simp: Let_def bind_eq_Some_conv split: if_splits)
    then show ?thesis using mag by (fastforce simp: forney_def bind_eq_Some_conv split: if_splits)
  qed
  then have rowset: "map le_row corrections = positions" "\<forall>c \<in> set corrections. le_row c < rows" and lc: "length corrections = length positions"
    by (auto simp: cs located_def map2_map_map comp_def dest: set_zip_leftD intro!: nth_equalityI)
  let ?found = "\<lambda>m. map (\<lambda>k. rows - 1 - k) (filter (\<lambda>k. eval_poly_at_alpha_exp galois_new sigma (inverse_exp k) = 0) [0..<m])"
  have "length positions = n \<and> sorted_wrt (<) positions"
  proof -
    let ?step = "\<lambda>locator_exp rows'. if eval_poly_at_alpha_exp galois_new sigma (inverse_exp locator_exp) = 0
      then let rows' = rows' @ [rows - 1 - locator_exp] in if length rows' > n then None else Some rows' else Some rows'"
    have "fold_opt ?step [0..<m] [] = Some r \<Longrightarrow> r = ?found m" for m r
    proof (induction m arbitrary: r)
      case (Suc m)
      from Suc.prems obtain r' where "fold_opt ?step [0..<m] [] = Some r'" "?step m r' = Some r"
        unfolding upt_Suc_append[OF le0] fold_opt_append by (auto simp: bind_eq_Some_conv)
      then show ?case using Suc.IH[of r'] by (auto simp: Let_def split: if_splits)
    qed simp
    then have "length positions = n \<and> positions = sort (?found rows)"
      using pos n(1) by (auto simp: chien_search_def bind_eq_Some_conv split: if_splits)
    moreover have "distinct (?found rows)" by (auto simp: distinct_map inj_on_def)
    ultimately show ?thesis unfolding strict_sorted_iff by (metis distinct_sort sorted_sort)
  qed
  moreover have "gf_of (syn ! k) = (\<Sum>c\<leftarrow>corrections. gf_of (le_magnitude c) * row_locator rows (le_row c) ^ k)"
    if k: "k < npar" for k
  proof -
    have "residual ! k = 0 \<and> gf_of (residual ! k) = gf_of (syn ! k)
         + (\<Sum>c\<leftarrow>corrections. gf_of (le_magnitude c) * row_locator rows (le_row c) ^ k)"
      using tables.residual_value[OF rows len rowset(2)] res k by (auto simp: all_zero_def)
    then show ?thesis by (metis gf_of_0 gf_add_eq_0_iff)
  qed
  ultimately show ?thesis using n(2) rowset lc by simp
qed

text \<open>C32: the decoder of one column is sound on every input: if it returns corrections, there are at most \<open>npar / 2\<close> of
  them, at distinct rows of the column, and they explain every syndrome.\<close>

theorem decode_column_sound:
  assumes "decode_column_syndromes galois_new syn npar rows = Some (Some corrections)"
  shows "length corrections \<le> npar div 2 \<and> sorted_wrt (<) (map le_row corrections)
    \<and> (\<forall>c \<in> set corrections. le_row c < rows)
    \<and> (\<forall>k < npar. gf_of (syn ! k)
         = (\<Sum>c\<leftarrow>corrections. gf_of (le_magnitude c) * row_locator rows (le_row c) ^ k))"
  by (rule decode_column_explains[OF assms])

theorem decode_column_sound_witness:
  "\<exists>syn corrections. decode_column_syndromes galois_new syn 4 120 = Some (Some corrections)
     \<and> length corrections \<le> 2 \<and> corrections \<noteq> []"
proof -
  let ?syn = "map (\<lambda>k. word_of (power_sum {5} (row_locator 120) (\<lambda>_. gf_of 3) k)) [0..<4]"
  have "column_errors 4 120 {5} (\<lambda>_. 3) ?syn" by (simp add: column_errors_def comp_def)
  from decode_column_complete[OF this]
  have d: "decode_column_syndromes galois_new ?syn 4 120 = Some (Some [\<lparr>le_row = 5, le_magnitude = 3\<rparr>])" by simp
  have "length [\<lparr>le_row = 5, le_magnitude = 3 :: u16\<rparr>] \<le> 4 div 2" using decode_column_sound[OF d] by blast
  then show ?thesis using d by (intro exI[of _ ?syn] exI[of _ "[\<lparr>le_row = 5, le_magnitude = 3\<rparr>]"]) simp
qed

end
