(* ===== verification/CtdbCodec.thy ===== *)
theory CtdbCodec
  imports CtdbDecoder
begin

text \<open>
  The module \<open>codec\<close> of \<open>src/ctdb_rs/mod.rs\<close>: computing parity, verifying and repairing a disc image. A call
  returns \<open>None\<close> when the code would panic and otherwise its \<open>Result\<close>; \<open>repair\<close> mutates the samples in place,
  so it also returns them. Error messages are kept as the error they render.
\<close>

subsection \<open>Results\<close>

datatype repair_error =
    Uncorrectable nat nat nat
  | InvalidParity ctdb_rs_error
  | InvalidInput ctdb_rs_error

fun repair_error_from :: "ctdb_rs_error \<Rightarrow> repair_error" where
  "repair_error_from (InvalidParityLength got need) = InvalidParity (InvalidParityLength got need)"
| "repair_error_from (InvalidParityShape stride npar) = InvalidParity (InvalidParityShape stride npar)"
| "repair_error_from other = InvalidInput other"

definition map_err :: "('e \<Rightarrow> 'f) \<Rightarrow> 'e + 'a \<Rightarrow> 'f + 'a" where
  "map_err f m = (case m of Inl e \<Rightarrow> Inl (f e) | Inr x \<Rightarrow> Inr x)"

definition map_panic_err :: "('e \<Rightarrow> 'f) \<Rightarrow> ('e + 'a) option \<Rightarrow> ('f + 'a) option" where
  "map_panic_err f m = map_option (map_err f) m"

lemma map_panic_err_simps [simp]:
  "map_panic_err f (Some (Inr x)) = Some (Inr x)" "map_panic_err f (Some (Inl e)) = Some (Inl (f e))" "map_panic_err f None = None"
  by (simp_all add: map_panic_err_def map_err_def)

lemma map_panic_err_Inr: "map_panic_err f m = Some (Inr x) \<longleftrightarrow> m = Some (Inr x)"
  by (cases m; cases "the m") (auto simp: map_panic_err_def map_err_def)

text \<open>A \<open>for\<close> loop whose body may return early or panic.\<close>

fun fold_exec :: "('i \<Rightarrow> 's \<Rightarrow> ('e + 's) option) \<Rightarrow> 'i list \<Rightarrow> 's \<Rightarrow> ('e + 's) option" where
  "fold_exec f [] s = Some (Inr s)"
| "fold_exec f (i # is) s = exec_bind (f i s) (fold_exec f is)"

definition ok_or_panic :: "'e \<Rightarrow> 'a option option \<Rightarrow> ('e + 'a) option" where
  "ok_or_panic e m = map_option (ok_or e) m"

lemma ok_or_panic_eq_Inr: "ok_or_panic e m = Some (Inr x) \<longleftrightarrow> m = Some (Some x)"
  by (cases m) (auto simp: ok_or_panic_def ok_or_eq_Inr_iff)

subsection \<open>Parity\<close>

definition try_compute_parity :: "galois16 \<Rightarrow> u16 list \<Rightarrow> nat \<Rightarrow> (ctdb_rs_error + u8 list) option" where
  "try_compute_parity gf audio npar =
     exec_bind (compute_parity_matrix_from_audio gf audio npar) (\<lambda>parity.
       map_option Inr (parity_to_bytes parity ctdb_stride npar))"

definition compute_parity :: "galois16 \<Rightarrow> u16 list \<Rightarrow> nat \<Rightarrow> u8 list option" where
  "compute_parity gf audio npar =
     Option.bind (try_compute_parity gf audio npar) (\<lambda>r. case r of Inl e \<Rightarrow> None | Inr bytes \<Rightarrow> Some bytes)"

definition syndrome_delta_with_word_offset ::
  "galois16 \<Rightarrow> u16 list \<Rightarrow> u8 list \<Rightarrow> nat \<Rightarrow> int \<Rightarrow> (repair_error + matrix) option" where
  "syndrome_delta_with_word_offset gf audio parity_bytes npar word_offset =
     exec_bind (map_panic_err repair_error_from (Some (validate_npar npar))) (\<lambda>_.
     exec_bind (map_panic_err repair_error_from (compute_parity_matrix_from_audio gf audio npar)) (\<lambda>computed.
     exec_bind (map_panic_err repair_error_from (try_bytes_to_parity parity_bytes ctdb_stride npar)) (\<lambda>provided.
     exec_bind (map_panic_err repair_error_from
         (parity_to_syndrome_with_word_offset gf computed npar ctdb_stride 0)) (\<lambda>computed_syndrome.
     exec_bind (map_panic_err repair_error_from
         (parity_to_syndrome_with_word_offset gf provided npar ctdb_stride word_offset)) (\<lambda>provided_syndrome.
       map_option Inr (xor_syndrome_matrices computed_syndrome provided_syndrome))))))"

subsection \<open>Verification\<close>

record verify_result =
  vr_matches :: bool
  vr_error_columns :: nat
  vr_nonzero_syndromes :: nat
  vr_column_magnitudes :: "u16 list"

definition column_magnitude :: "u16 list \<Rightarrow> u16" where
  "column_magnitude column = fold (\<lambda>value magnitude. magnitude OR value) column 0"

definition verify_result_from_syndromes :: "matrix \<Rightarrow> verify_result" where
  "verify_result_from_syndromes syndromes =
     (let (error_columns, nonzero, magnitudes) =
            fold (\<lambda>column (error_columns, nonzero, magnitudes).
                let magnitude = column_magnitude column;
                    nonzero = nonzero + length (filter (\<lambda>value. value \<noteq> 0) column)
                in (if magnitude \<noteq> 0 then error_columns + 1 else error_columns, nonzero, magnitudes @ [magnitude]))
              syndromes (0, 0, [])
      in \<lparr>vr_matches = (error_columns = 0), vr_error_columns = error_columns, vr_nonzero_syndromes = nonzero,
          vr_column_magnitudes = magnitudes\<rparr>)"

definition try_verify_with_word_offset ::
  "galois16 \<Rightarrow> u16 list \<Rightarrow> u8 list \<Rightarrow> nat \<Rightarrow> int \<Rightarrow> (repair_error + verify_result) option" where
  "try_verify_with_word_offset gf audio parity_bytes npar word_offset =
     exec_bind (syndrome_delta_with_word_offset gf audio parity_bytes npar word_offset) (\<lambda>syndromes.
       Some (Inr (verify_result_from_syndromes syndromes)))"

definition try_verify_with_sample_offset ::
  "galois16 \<Rightarrow> u16 list \<Rightarrow> u8 list \<Rightarrow> nat \<Rightarrow> int \<Rightarrow> (repair_error + verify_result) option" where
  "try_verify_with_sample_offset gf audio parity_bytes npar sample_offset =
     try_verify_with_word_offset gf audio parity_bytes npar (sample_offset * 2)"

definition try_verify ::
  "galois16 \<Rightarrow> u16 list \<Rightarrow> u8 list \<Rightarrow> nat \<Rightarrow> int \<Rightarrow> (repair_error + verify_result) option" where
  "try_verify gf audio parity_bytes npar offset = try_verify_with_sample_offset gf audio parity_bytes npar offset"

definition ctdb_verify :: "galois16 \<Rightarrow> u16 list \<Rightarrow> u8 list \<Rightarrow> nat \<Rightarrow> int \<Rightarrow> verify_result option" where
  "ctdb_verify gf audio parity_bytes npar offset =
     Option.bind (try_verify gf audio parity_bytes npar offset)
       (\<lambda>r. case r of Inl e \<Rightarrow> None | Inr v \<Rightarrow> Some v)"

subsection \<open>Repair\<close>

record repair_result =
  rr_corrected_samples :: nat
  rr_error_positions :: "(nat \<times> nat) list"

definition repair_column ::
  "galois16 \<Rightarrow> nat \<Rightarrow> nat \<Rightarrow> nat \<Rightarrow> u16 list \<Rightarrow> (repair_error + (nat \<times> nat \<times> u16) list) option" where
  "repair_column gf npar stridecount column column_syndromes =
     (let max_correctable = npar div 2 in
      if all_zero column_syndromes then Some (Inr [])
      else
        exec_bind (ok_or_panic (Uncorrectable column 0 max_correctable) (berlekamp_massey gf column_syndromes npar))
          (\<lambda>(sigma, errors_found).
            let uncorrectable = Uncorrectable column errors_found max_correctable in
            if errors_found = 0 \<or> errors_found > max_correctable then Some (Inl uncorrectable)
            else
              exec_bind (Some (ok_or uncorrectable (chien_search gf sigma errors_found stridecount))) (\<lambda>positions.
              exec_bind (ok_or_panic uncorrectable
                  (forney gf column_syndromes sigma positions npar stridecount)) (\<lambda>magnitudes.
              let corrections = located positions magnitudes in
              exec_bind (ok_or_panic uncorrectable
                  (residual_after_correction gf column_syndromes corrections npar stridecount)) (\<lambda>residual.
                if \<not> all_zero residual then Some (Inl uncorrectable)
                else Some (Inr (map (\<lambda>c. (le_row c, column, le_magnitude c)) corrections)))))))"

definition sample_index :: "nat \<Rightarrow> nat \<Rightarrow> nat" where
  "sample_index row column = ctdb_stride + row * ctdb_stride + column"

definition apply_correction :: "nat \<times> nat \<times> u16 \<Rightarrow> u16 list \<Rightarrow> u16 list option" where
  "apply_correction = (\<lambda>(row, column, magnitude) audio.
     let idx = sample_index row column in do {
       sample \<leftarrow> read_cell audio idx;
       let fixed = i16_to_u16_bits sample XOR magnitude;
       write_cell audio idx (u16_to_i16_bits fixed) })"

definition repair_with_word_offset ::
  "galois16 \<Rightarrow> u16 list \<Rightarrow> u8 list \<Rightarrow> nat \<Rightarrow> int \<Rightarrow> ((repair_error + repair_result) \<times> u16 list) option" where
  "repair_with_word_offset gf audio parity_bytes npar word_offset =
     do {
       outcome \<leftarrow>
         exec_bind (map_panic_err repair_error_from (Some (validate_npar npar))) (\<lambda>_.
         exec_bind (map_panic_err repair_error_from (data_row_count (length audio))) (\<lambda>stridecount.
         exec_bind (syndrome_delta_with_word_offset gf audio parity_bytes npar word_offset) (\<lambda>syndromes.
           fold_exec (\<lambda>(column, column_syndromes) all_corrections.
               exec_bind (repair_column gf npar stridecount column column_syndromes)
                 (\<lambda>corrections. Some (Inr (all_corrections @ corrections))))
             (enumerate 0 syndromes) [])));
       case outcome of
         Inl e \<Rightarrow> Some (Inl e, audio)
       | Inr all_corrections \<Rightarrow> do {
           repaired \<leftarrow> fold_opt apply_correction all_corrections audio;
           Some (Inr \<lparr>rr_corrected_samples = length all_corrections,
                      rr_error_positions = map (\<lambda>(row, column, _). (row, column)) all_corrections\<rparr>,
                 repaired) } }"

definition repair_with_sample_offset ::
  "galois16 \<Rightarrow> u16 list \<Rightarrow> u8 list \<Rightarrow> nat \<Rightarrow> int \<Rightarrow> ((repair_error + repair_result) \<times> u16 list) option" where
  "repair_with_sample_offset gf audio parity_bytes npar sample_offset =
     repair_with_word_offset gf audio parity_bytes npar (sample_offset * 2)"

definition ctdb_repair ::
  "galois16 \<Rightarrow> u16 list \<Rightarrow> u8 list \<Rightarrow> nat \<Rightarrow> int \<Rightarrow> ((repair_error + repair_result) \<times> u16 list) option" where
  "ctdb_repair gf audio parity_bytes npar offset = repair_with_sample_offset gf audio parity_bytes npar offset"

subsection \<open>The syndromes that are compared\<close>

lemma sample_index_bound:
  assumes "data_row_count n = Some (Inr rows)" and "row < rows" and "column < ctdb_stride"
  shows "sample_index row column < n"
  using protected_index_bound[OF assms] by (simp add: sample_index_def)

lemma sample_index_inject:
  assumes "column < ctdb_stride" and "column' < ctdb_stride"
  shows "sample_index row column = sample_index row' column' \<longleftrightarrow> row = row' \<and> column = column'"
proof
  assume "sample_index row column = sample_index row' column'"
  then have eq: "column + ctdb_stride * row = column' + ctdb_stride * row'" by (simp add: sample_index_def ac_simps)
  have "row = (column + ctdb_stride * row) div ctdb_stride" "column = (column + ctdb_stride * row) mod ctdb_stride"
    using assms(1) by simp_all
  then show "row = row' \<and> column = column'" using eq assms(2) by simp
qed simp

lemma column_words_nth:
  "row < rows \<Longrightarrow> column_words audio rows col ! row = audio ! sample_index row col"
  by (simp add: column_words_def sample_index_def i16_to_u16_bits_def)

lemma bytes_to_parity_shape:
  assumes "try_bytes_to_parity bytes stride npar = Some (Inr parity)"
  shows "npar \<in> {4, 8, 16}" and "length parity = stride" and "\<forall>row \<in> set parity. length row = npar"
  using assms by (auto simp: try_bytes_to_parity_Inr)

lemma rotated_column_lt: "0 < stride \<Longrightarrow> rotated_column stride word_offset y < stride"
proof -
  assume s: "0 < stride"
  then have "signed_take_bit 63 (int y - word_offset) mod int stride < int stride" by simp
  then show ?thesis using s by (simp add: rotated_column_def nat_less_iff)
qed

text \<open>For the offsets that \<open>repair\<close> and \<open>verify\<close> take, an \<open>i32\<close> doubled, the 64-bit subtraction does not wrap.\<close>

lemma rotated_column_exact:
  assumes "- (2 ^ 31) \<le> offset" and "offset < 2 ^ 31" and "y < stride" and "stride < 2 ^ 62"
  shows "rotated_column stride (offset * 2) y = nat ((int y - offset * 2) mod int stride)"
proof -
  have "int y < 2 ^ 62" using assms(3,4) by simp
  then have "- (2 ^ 63) \<le> int y - offset * 2" "int y - offset * 2 < 2 ^ 63" using assms(1,2) by simp_all
  then have "signed_take_bit 63 (int y - offset * 2) = int y - offset * 2" by (intro signed_take_bit_int_eq_self) simp_all
  then show ?thesis by (simp add: rotated_column_def)
qed

text \<open>The delta of column \<open>y\<close> at \<open>k\<close>: the data polynomial at \<open>alpha^k\<close>, plus what the stored parity says.\<close>

definition delta_ok :: "u16 list \<Rightarrow> nat \<Rightarrow> matrix \<Rightarrow> nat \<Rightarrow> int \<Rightarrow> matrix \<Rightarrow> bool" where
  "delta_ok audio rows parity npar word_offset syndromes \<longleftrightarrow> length syndromes = ctdb_stride
     \<and> (\<forall>y < ctdb_stride. length (syndromes ! y) = npar \<and> (\<forall>k < npar. gf_of (syndromes ! y ! k)
          = poly_at (column_words audio rows y) (alpha ^ k)
            + gf_of (syndrome_cells galois_new npar (parity ! rotated_column ctdb_stride word_offset y) ! k)))"

lemma delta_run:
  assumes rows: "data_row_count (length audio) = Some (Inr rows)"
    and parity: "try_bytes_to_parity bytes ctdb_stride npar = Some (Inr parity)"
  shows "\<exists>syndromes. syndrome_delta_with_word_offset galois_new audio bytes npar word_offset = Some (Inr syndromes)
    \<and> delta_ok audio rows parity npar word_offset syndromes"
proof -
  note shape = bytes_to_parity_shape[OF parity]
  have n16: "npar \<le> 16" and vn: "validate_npar npar = Inr ()" using shape(1) by (auto simp: validate_npar_def)
  obtain gx where gx: "make_generator_poly galois_new npar = Some (Inr gx)"
    using shape(1) by (auto simp: make_generator_poly_eq)
  define computed where "computed = map (\<lambda>col. fold (lfsr_next galois_new gx) (column_words audio rows col) (replicate npar 0))
              [0..<ctdb_stride]"
  have comp: "compute_parity_matrix_from_audio galois_new audio npar = Some (Inr computed)"
    using parity_matrix_total[OF rows gx] by (simp add: computed_def)
  have computed_shape: "length computed = ctdb_stride" "\<forall>row \<in> set computed. length row = npar"
    by (auto simp: computed_def)
  let ?c = "map (\<lambda>y. syndrome_cells galois_new npar (computed ! rotated_column ctdb_stride 0 y)) [0..<ctdb_stride]"
  let ?p = "map (\<lambda>y. syndrome_cells galois_new npar (parity ! rotated_column ctdb_stride word_offset y)) [0..<ctdb_stride]"
  let ?s = "map2 (map2 (XOR)) ?c ?p"
  have lens: "length (syndrome_cells galois_new npar par) = npar" for par
    using tables.syndrome_cells_value(1)[where x = 0, OF n16] shape(1) by auto
  have xor: "xor_syndrome_matrices ?c ?p = Some ?s"
    unfolding xor_syndrome_matrices_def by (auto simp: lens set_zip)
  have syndromes: "parity_to_syndrome_with_word_offset galois_new matrix npar ctdb_stride off
      = Some (Inr (map (\<lambda>y. syndrome_cells galois_new npar (matrix ! rotated_column ctdb_stride off y)) [0..<ctdb_stride]))"
    if "length matrix = ctdb_stride" "\<forall>row \<in> set matrix. length row = npar" for matrix off
  proof -
    have "parity_shape_ok matrix ctdb_stride npar" using that by (auto simp: parity_shape_ok_def dest: in_set_takeD)
    moreover have "do { par_row \<leftarrow> read_cell matrix (rotated_column ctdb_stride off y); column_syndrome galois_new npar par_row }
        = Some (syndrome_cells galois_new npar (matrix ! rotated_column ctdb_stride off y))" for y
    proof -
      have "rotated_column ctdb_stride off y < length matrix"
        using that(1) rotated_column_lt by (simp add: ctdb_stride_def)
      then show ?thesis using that(2) n16 by (simp add: tables.column_syndrome_total)
    qed
    then have "opt_map (\<lambda>y. do { par_row \<leftarrow> read_cell matrix (rotated_column ctdb_stride off y); column_syndrome galois_new npar par_row })
        [0..<ctdb_stride]
      = Some (map (\<lambda>y. syndrome_cells galois_new npar (matrix ! rotated_column ctdb_stride off y)) [0..<ctdb_stride])"
      by (intro opt_map_total)
    ultimately show ?thesis using vn by (simp add: parity_to_syndrome_with_word_offset_def check_parity_shape_def)
  qed
  have run: "syndrome_delta_with_word_offset galois_new audio bytes npar word_offset = Some (Inr ?s)"
    using comp parity vn xor syndromes[OF computed_shape, of 0] syndromes[OF shape(2,3), of word_offset]
    by (simp add: syndrome_delta_with_word_offset_def)
  have "gf_of (?s ! y ! k) = poly_at (column_words audio rows y) (alpha ^ k)
      + gf_of (syndrome_cells galois_new npar (parity ! rotated_column ctdb_stride word_offset y) ! k)"
    if y: "y < ctdb_stride" and k: "k < npar" for y k
  proof -
    have "rotated_column ctdb_stride 0 y = y" using y by (intro rotated_column_0) (simp_all add: ctdb_stride_def)
    then have "?s ! y ! k = syndrome_cells galois_new npar (computed ! y) ! k
        XOR syndrome_cells galois_new npar (parity ! rotated_column ctdb_stride word_offset y) ! k"
      using y k by (simp add: lens)
    moreover have "computed ! y = fold (lfsr_next galois_new gx) (column_words audio rows y) (replicate npar 0)"
      using y by (simp add: computed_def)
    ultimately show ?thesis using tables.parity_syndrome[OF gx k] by (simp add: gf_of_xor)
  qed
  then have "delta_ok audio rows parity npar word_offset ?s" by (simp add: delta_ok_def lens)
  then show ?thesis using run by blast
qed

lemma delta_inputs:
  assumes "syndrome_delta_with_word_offset galois_new audio bytes npar word_offset = Some (Inr syndromes)"
  shows "\<exists>rows parity. data_row_count (length audio) = Some (Inr rows) \<and> try_bytes_to_parity bytes ctdb_stride npar = Some (Inr parity)"
  using assms
  by (auto simp: syndrome_delta_with_word_offset_def exec_bind_eq_Inr map_panic_err_Inr compute_parity_matrix_from_audio_def)

subsection \<open>Repair restores the image\<close>

text \<open>The rows of column \<open>col\<close> where the damaged samples differ.\<close>

definition damaged_rows :: "u16 list \<Rightarrow> u16 list \<Rightarrow> nat \<Rightarrow> nat \<Rightarrow> nat set" where
  "damaged_rows original damaged rows col =
     {row. row < rows \<and> damaged ! sample_index row col \<noteq> original ! sample_index row col}"

lemma poly_at_words_sum:
  assumes "length xs = rows" and "length ys = rows"
  shows "poly_at xs (alpha ^ k) + poly_at ys (alpha ^ k)
    = power_sum {row. row < rows \<and> xs ! row \<noteq> ys ! row} (row_locator rows) (\<lambda>row. gf_of (xs ! row XOR ys ! row)) k"
proof -
  have exp: "(alpha ^ k) ^ (rows - 1 - i) = row_locator rows i ^ k" for i
    unfolding row_locator_def by (simp add: power_mult[symmetric] mult.commute)
  have "poly_at xs (alpha ^ k) + poly_at ys (alpha ^ k) = (\<Sum>i<rows. gf_of (xs ! i XOR ys ! i) * row_locator rows i ^ k)"
    using assms by (simp only: poly_at_def exp gf_of_xor distrib_right sum.distrib)
  also have "\<dots> = (\<Sum>i\<in>{row. row < rows \<and> xs ! row \<noteq> ys ! row}. gf_of (xs ! i XOR ys ! i) * row_locator rows i ^ k)"
    by (intro sum.mono_neutral_right) auto
  finally show ?thesis by (simp add: power_sum_def)
qed

lemma column_words_length [simp]: "length (column_words audio rows col) = rows"
  by (simp add: column_words_def)

text \<open>With the parity of the original, the delta of a column is the syndrome of its damage.\<close>

lemma delta_column_errors:
  assumes delta: "delta_ok damaged rows parity npar 0 syndromes" and gx: "make_generator_poly galois_new npar = Some (Inr gx)"
    and parity: "\<And>y. y < ctdb_stride \<Longrightarrow>
      parity ! y = fold (lfsr_next galois_new gx) (column_words original rows y) (replicate npar 0)"
    and rows: "1 \<le> rows" "rows \<le> 65535" and y: "y < ctdb_stride"
    and few: "card (damaged_rows original damaged rows y) \<le> npar div 2"
  shows "column_errors npar rows (damaged_rows original damaged rows y)
    (\<lambda>row. damaged ! sample_index row y XOR original ! sample_index row y) (syndromes ! y)"
proof -
  have n: "npar \<in> {4, 8, 16}" using tables.generator_roots(1)[OF gx] .
  have len: "length (syndromes ! y) = npar" using delta y by (simp add: delta_ok_def)
  have "gf_of (syndromes ! y ! k) = power_sum (damaged_rows original damaged rows y) (row_locator rows)
      (\<lambda>row. gf_of (damaged ! sample_index row y XOR original ! sample_index row y)) k" if k: "k < npar" for k
  proof -
    have "rotated_column ctdb_stride 0 y = y" using y by (intro rotated_column_0) (simp_all add: ctdb_stride_def)
    then have "gf_of (syndromes ! y ! k) = poly_at (column_words damaged rows y) (alpha ^ k)
        + poly_at (column_words original rows y) (alpha ^ k)"
      using delta y k parity[OF y] tables.parity_syndrome[OF gx k] by (simp add: delta_ok_def)
    also have "\<dots> = power_sum (damaged_rows original damaged rows y) (row_locator rows)
        (\<lambda>row. gf_of (column_words damaged rows y ! row XOR column_words original rows y ! row)) k"
      by (subst poly_at_words_sum) (auto simp: damaged_rows_def column_words_nth intro!: arg_cong2[where f = "\<lambda>E e. power_sum E _ e k"])
    also have "\<dots> = power_sum (damaged_rows original damaged rows y) (row_locator rows)
        (\<lambda>row. gf_of (damaged ! sample_index row y XOR original ! sample_index row y)) k"
      unfolding power_sum_def by (intro sum.cong) (auto simp: damaged_rows_def column_words_nth)
    finally show ?thesis .
  qed
  moreover have "damaged_rows original damaged rows y \<subseteq> {..<rows}" by (auto simp: damaged_rows_def)
  moreover have "damaged ! sample_index row y XOR original ! sample_index row y \<noteq> 0"
    if "row \<in> damaged_rows original damaged rows y" for row
    using that by (auto simp: damaged_rows_def) (metis gf_of_xor gf_add_eq_0_iff gf_of_0 gf_of_inject_iff)
  ultimately show ?thesis
    using n rows few len by (auto simp: column_errors_def comp_def)
qed

lemma repair_column_errors:
  assumes col: "column_errors npar rows E e syn" and len: "length syn = npar"
  shows "repair_column galois_new npar rows column syn = Some (Inr (map (\<lambda>row. (row, column, e row)) (sorted_list_of_set E)))"
proof (cases "E = {}")
  case True
  then show ?thesis using column_all_zero[OF col] len by (simp add: repair_column_def)
next
  case False
  have "card E \<noteq> 0" using False column_pattern(1)[OF col] by (simp add: error_pattern_def)
  moreover have "card E \<le> npar div 2" using col by (simp add: column_errors_def)
  moreover have "map (\<lambda>c. (le_row c, column, le_magnitude c)) (located (sorted_list_of_set E) (map e (sorted_list_of_set E)))
      = map (\<lambda>row. (row, column, e row)) (sorted_list_of_set E)"
    by (simp add: located_def zip_map2 zip_same_conv_map)
  ultimately show ?thesis
    using False column_all_zero[OF col] len tables.column_repair[OF col]
    by (auto simp: repair_column_def ok_or_panic_def Let_def)
qed

lemma fold_exec_columns:
  assumes "\<And>y. y < length syndromes \<Longrightarrow> f (k + y) (syndromes ! y) = Some (Inr (g (k + y)))"
  shows "fold_exec (\<lambda>(column, column_syndromes) acc. exec_bind (f column column_syndromes) (\<lambda>cs. Some (Inr (acc @ cs))))
      (enumerate k syndromes) acc = Some (Inr (acc @ concat (map g [k..<k + length syndromes])))"
  using assms
proof (induction syndromes arbitrary: k acc)
  case (Cons s syndromes)
  have "f (Suc k + y) (syndromes ! y) = Some (Inr (g (Suc k + y)))" if "y < length syndromes" for y
    using Cons.prems[of "Suc y"] that by simp
  moreover have "[k..<k + length (s # syndromes)] = k # [Suc k..<Suc k + length syndromes]"
    by (simp add: upt_conv_Cons del: upt_Suc)
  ultimately show ?case
    using Cons.prems[of 0] Cons.IH[of "Suc k" "acc @ g k"] by (simp del: upt_Suc)
qed simp

text \<open>In range a correction changes one sample.\<close>

definition correct_cell :: "nat \<times> nat \<times> u16 \<Rightarrow> u16 list \<Rightarrow> u16 list" where
  "correct_cell = (\<lambda>(row, column, magnitude) audio.
     audio[sample_index row column := audio ! sample_index row column XOR magnitude])"

lemma correct_cell_length [simp]: "length (correct_cell c audio) = length audio"
  by (simp add: correct_cell_def split: prod.splits)

lemma correct_cells_length [simp]: "length (fold correct_cell cs audio) = length audio"
  by (induction cs arbitrary: audio) simp_all

lemma apply_corrections_total:
  assumes "\<forall>(row, column, m) \<in> set cs. row < rows \<and> column < ctdb_stride" and "data_row_count (length audio) = Some (Inr rows)"
  shows "fold_opt apply_correction cs audio = Some (fold correct_cell cs audio)"
proof -
  have "fold_opt apply_correction cs audio = Some (fold correct_cell cs audio) \<and> length (fold correct_cell cs audio) = length audio"
  proof (rule fold_opt_pure[where P = "\<lambda>xs. length xs = length audio"])
    fix c and xs :: "u16 list" assume "c \<in> set cs" and "length xs = length audio"
    then show "apply_correction c xs = Some (correct_cell c xs) \<and> length (correct_cell c xs) = length audio"
      using assms sample_index_bound[OF assms(2)]
      by (cases c) (auto simp: apply_correction_def correct_cell_def Let_def i16_to_u16_bits_def u16_to_i16_bits_def)
  qed simp
  then show ?thesis ..
qed

lemma apply_corrections:
  assumes "distinct (map (\<lambda>(row, column, _). sample_index row column) cs)"
    and "\<forall>(row, column, _) \<in> set cs. sample_index row column < length audio"
  shows "length (fold correct_cell cs audio) = length audio
    \<and> (\<forall>(row, column, magnitude) \<in> set cs.
         fold correct_cell cs audio ! sample_index row column = audio ! sample_index row column XOR magnitude)
    \<and> (\<forall>i. i \<notin> (\<lambda>(row, column, _). sample_index row column) ` set cs \<longrightarrow> fold correct_cell cs audio ! i = audio ! i)"
  using assms
proof (induction cs arbitrary: audio)
  case (Cons c cs)
  obtain row column magnitude where c: "c = (row, column, magnitude)" by (cases c) auto
  let ?a = "correct_cell c audio"
  have a: "?a = audio[sample_index row column := audio ! sample_index row column XOR magnitude]"
    by (simp add: correct_cell_def c)
  have ih: "length (fold correct_cell cs ?a) = length ?a"
    "\<And>r k m. (r, k, m) \<in> set cs \<Longrightarrow> fold correct_cell cs ?a ! sample_index r k = ?a ! sample_index r k XOR m"
    "\<And>i. i \<notin> (\<lambda>(row, column, _). sample_index row column) ` set cs \<Longrightarrow> fold correct_cell cs ?a ! i = ?a ! i"
    using Cons.IH[of ?a] Cons.prems by (auto simp: a)
  have new: "sample_index row column \<notin> (\<lambda>(row, column, _). sample_index row column) ` set cs"
    using Cons.prems(1) by (simp add: c)
  have other: "?a ! sample_index r k = audio ! sample_index r k" if "(r, k, m) \<in> set cs" for r k m
  proof -
    have "sample_index r k \<in> (\<lambda>(row, column, _). sample_index row column) ` set cs"
      using that by (intro image_eqI[of _ _ "(r, k, m)"]) simp_all
    then have "sample_index r k \<noteq> sample_index row column" using new by metis
    then show ?thesis unfolding a by simp
  qed
  have lt: "sample_index row column < length audio" using Cons.prems(2) by (simp add: c)
  show ?case
    using ih other new lt by (auto simp: c a[unfolded c])
qed simp

lemma rr_error_positions_simp:
  "rr_error_positions \<lparr>rr_corrected_samples = n, rr_error_positions = ps\<rparr> = ps"
  "rr_corrected_samples \<lparr>rr_corrected_samples = n, rr_error_positions = ps\<rparr> = n"
  by simp_all

text \<open>What \<open>compute_parity\<close> stored for the original.\<close>

lemma compute_parity_inverse:
  assumes "compute_parity galois_new audio npar = Some bytes"
  shows "\<exists>rows gx parity. data_row_count (length audio) = Some (Inr rows) \<and> make_generator_poly galois_new npar = Some (Inr gx)
    \<and> try_bytes_to_parity bytes ctdb_stride npar = Some (Inr parity)
    \<and> (\<forall>y < ctdb_stride. parity ! y = fold (lfsr_next galois_new gx) (column_words audio rows y) (replicate npar 0))"
proof -
  obtain r where r: "try_compute_parity galois_new audio npar = Some r" "(case r of Inl e \<Rightarrow> None | Inr bytes \<Rightarrow> Some bytes) = Some bytes"
    using assms by (auto simp: compute_parity_def bind_eq_Some_conv)
  then have run: "try_compute_parity galois_new audio npar = Some (Inr bytes)" by (cases r) simp_all
  then obtain rows gx where rg: "data_row_count (length audio) = Some (Inr rows)" "make_generator_poly galois_new npar = Some (Inr gx)"
    by (auto simp: try_compute_parity_def exec_bind_eq_Inr compute_parity_matrix_from_audio_def)
  let ?P = "map (\<lambda>col. fold (lfsr_next galois_new gx) (column_words audio rows col) (replicate npar 0)) [0..<ctdb_stride]"
  have b: "parity_to_bytes ?P ctdb_stride npar = Some bytes"
    using run parity_matrix_total[OF rg] by (simp add: try_compute_parity_def)
  have "\<forall>row \<in> set ?P. length row = npar" by simp
  from parity_bytes_inverse[OF tables.generator_roots(1)[OF rg(2)] _ this, of ctdb_stride] b
  have "try_bytes_to_parity bytes ctdb_stride npar = Some (Inr ?P)" by simp
  then show ?thesis using rg by auto
qed

lemma repair_restores:
  assumes parity: "compute_parity galois_new original npar = Some bytes"
    and len: "length damaged = length original"
    and rows: "data_row_count (length original) = Some (Inr rows)" "1 \<le> rows" "rows \<le> 65535"
    and few: "\<forall>col < ctdb_stride. card (damaged_rows original damaged rows col) \<le> npar div 2"
  shows "\<exists>result repaired. ctdb_repair galois_new damaged bytes npar 0 = Some (Inr result, repaired)
    \<and> (\<forall>row < rows. \<forall>col < ctdb_stride. repaired ! sample_index row col = original ! sample_index row col)
    \<and> (\<forall>i. i < ctdb_stride \<or> ctdb_stride + rows * ctdb_stride \<le> i \<longrightarrow> repaired ! i = damaged ! i)
    \<and> rr_error_positions result = concat (map (\<lambda>col. map (\<lambda>row. (row, col))
         (sorted_list_of_set (damaged_rows original damaged rows col))) [0..<ctdb_stride])
    \<and> rr_corrected_samples result = length (rr_error_positions result)"
proof -
  obtain gx P where gx: "make_generator_poly galois_new npar = Some (Inr gx)"
    and P: "try_bytes_to_parity bytes ctdb_stride npar = Some (Inr P)"
    and Py: "\<And>y. y < ctdb_stride \<Longrightarrow> P ! y = fold (lfsr_next galois_new gx) (column_words original rows y) (replicate npar 0)"
    using compute_parity_inverse[OF parity] rows(1) by auto
  have drows: "data_row_count (length damaged) = Some (Inr rows)" using rows(1) len by simp
  obtain S where run: "syndrome_delta_with_word_offset galois_new damaged bytes npar 0 = Some (Inr S)"
    and delta: "delta_ok damaged rows P npar 0 S"
    using delta_run[OF drows P, of 0] by blast
  let ?E = "damaged_rows original damaged rows"
  let ?e = "\<lambda>col row. damaged ! sample_index row col XOR original ! sample_index row col"
  let ?g = "\<lambda>col. map (\<lambda>row. (row, col, ?e col row)) (sorted_list_of_set (?E col))"
  have LS: "length S = ctdb_stride" and Sy: "\<And>y. y < ctdb_stride \<Longrightarrow> length (S ! y) = npar"
    using delta by (auto simp: delta_ok_def)
  have col: "column_errors npar rows (?E y) (?e y) (S ! y)" if "y < ctdb_stride" for y
    using delta_column_errors[OF delta gx Py rows(2,3) that] few that by blast
  have "repair_column galois_new npar rows y (S ! y) = Some (Inr (?g y))" if "y < length S" for y
    using that repair_column_errors[OF col Sy] LS by simp
  from fold_exec_columns[of S "repair_column galois_new npar rows" 0 ?g "[]"] this
  have fold: "fold_exec (\<lambda>(column, column_syndromes) acc. exec_bind (repair_column galois_new npar rows column column_syndromes)
        (\<lambda>cs. Some (Inr (acc @ cs)))) (enumerate 0 S) [] = Some (Inr (concat (map ?g [0..<ctdb_stride])))"
    by (simp add: LS)
  let ?cs = "concat (map ?g [0..<ctdb_stride])"
  let ?repaired = "fold correct_cell ?cs damaged"
  let ?result = "\<lparr>rr_corrected_samples = length ?cs, rr_error_positions = map (\<lambda>(row, column, _). (row, column)) ?cs\<rparr>"
  have vn: "validate_npar npar = Inr ()" using bytes_to_parity_shape(1)[OF P] by (auto simp: validate_npar_def)
  have fin: "finite (?E col)" for col by (simp add: damaged_rows_def)
  have mem: "(row, col, m) \<in> set ?cs \<longleftrightarrow> col < ctdb_stride \<and> row \<in> ?E col \<and> m = ?e col row" for row col m
    using fin by auto
  have "\<forall>(row, column, m) \<in> set ?cs. row < rows \<and> column < ctdb_stride"
    using mem by (auto simp: damaged_rows_def)
  from apply_corrections_total[OF this drows]
  have res: "ctdb_repair galois_new damaged bytes npar 0 = Some (Inr ?result, ?repaired)"
    using run drows vn fold
    by (simp add: ctdb_repair_def repair_with_sample_offset_def repair_with_word_offset_def)
  have dist: "distinct (map (\<lambda>(row, column, _). sample_index row column) ?cs)"
  proof -
    have "distinct (map (\<lambda>(row, column, _). sample_index row column) (concat (map ?g [0..<n])))" if "n \<le> ctdb_stride" for n
      using that
    proof (induction n)
      case (Suc n)
      then show ?case
        using fin by (auto simp: distinct_map inj_on_def sample_index_inject)
    qed simp
    then show ?thesis by simp
  qed
  have bound: "\<forall>(row, column, _) \<in> set ?cs. sample_index row column < length damaged"
    using sample_index_bound[OF drows] by (auto simp: damaged_rows_def)
  note ap = apply_corrections[OF dist bound]
  have "?repaired ! sample_index row col = original ! sample_index row col" if "row < rows" "col < ctdb_stride" for row col
  proof (cases "row \<in> ?E col")
    case True
    then have "(row, col, ?e col row) \<in> set ?cs" using that mem by blast
    then have "?repaired ! sample_index row col = damaged ! sample_index row col XOR ?e col row" using ap by blast
    then show ?thesis by (simp flip: xor.assoc)
  next
    case False
    have "sample_index row col \<notin> (\<lambda>(row, column, _). sample_index row column) ` set ?cs"
      using False that mem sample_index_inject by fastforce
    then have "?repaired ! sample_index row col = damaged ! sample_index row col" using ap by blast
    then show ?thesis using False that by (simp add: damaged_rows_def)
  qed
  moreover have "?repaired ! i = damaged ! i" if "i < ctdb_stride \<or> ctdb_stride + rows * ctdb_stride \<le> i" for i
  proof -
    have "sample_index row col \<noteq> i" if "row < rows" "col < ctdb_stride" for row col
    proof -
      have "Suc row * ctdb_stride \<le> rows * ctdb_stride" using that(1) by (intro mult_right_mono) simp_all
      then show ?thesis using that(2) \<open>i < ctdb_stride \<or> _\<close> by (auto simp: sample_index_def)
    qed
    note outside = this
    have "i \<notin> (\<lambda>(row, column, _). sample_index row column) ` set ?cs"
    proof
      assume "i \<in> (\<lambda>(row, column, _). sample_index row column) ` set ?cs"
      then obtain row col where "i = sample_index row col" "row < rows" "col < ctdb_stride"
        using fin by (auto simp: damaged_rows_def)
      with outside[of row col] show False by simp
    qed
    then show ?thesis using ap by blast
  qed
  moreover have "map (\<lambda>(row, column, _). (row, column)) ?cs
      = concat (map (\<lambda>col. map (\<lambda>row. (row, col)) (sorted_list_of_set (?E col))) [0..<ctdb_stride])"
    by (simp add: map_concat comp_def)
  then have "rr_error_positions ?result
      = concat (map (\<lambda>col. map (\<lambda>row. (row, col)) (sorted_list_of_set (?E col))) [0..<ctdb_stride])"
    by (simp only: rr_error_positions_simp)
  moreover have "rr_corrected_samples ?result = length (rr_error_positions ?result)"
    by (simp only: rr_error_positions_simp length_map)
  ultimately show ?thesis using res by blast
qed

lemma compute_parity_exists:
  assumes "data_row_count (length audio) = Some (Inr rows)" and "npar \<in> {4, 8, 16}"
  shows "\<exists>bytes. compute_parity galois_new audio npar = Some bytes"
proof -
  obtain gx where gx: "make_generator_poly galois_new npar = Some (Inr gx)"
    using assms(2) by (simp add: make_generator_poly_eq)
  have "parity_shape_ok (map (\<lambda>col. fold (lfsr_next galois_new gx) (column_words audio rows col) (replicate npar 0))
      [0..<ctdb_stride]) ctdb_stride npar"
    by (auto simp: parity_shape_ok_def)
  from parity_to_bytes_total[OF this] show ?thesis
    using parity_matrix_total[OF assms(1) gx] by (simp add: compute_parity_def try_compute_parity_def)
qed

text \<open>C2: repair restores a damaged image: with the parity of the original, if no column has more than \<open>npar / 2\<close> damaged
  samples among its (at most 65535) protected rows, every protected sample is restored, every other sample is left
  alone, and exactly the damaged positions are reported, column by column.\<close>

theorem repair_restores_image:
  assumes parity: "compute_parity galois_new original npar = Some bytes"
    and len: "length damaged = length original"
    and rows: "data_row_count (length original) = Some (Inr rows)" "1 \<le> rows" "rows \<le> 65535"
    and few: "\<forall>col < ctdb_stride. card (damaged_rows original damaged rows col) \<le> npar div 2"
  shows "\<exists>result repaired. ctdb_repair galois_new damaged bytes npar 0 = Some (Inr result, repaired)
    \<and> (\<forall>row < rows. \<forall>col < ctdb_stride. repaired ! sample_index row col = original ! sample_index row col)
    \<and> (\<forall>i. i < ctdb_stride \<or> ctdb_stride + rows * ctdb_stride \<le> i \<longrightarrow> repaired ! i = damaged ! i)
    \<and> rr_error_positions result = concat (map (\<lambda>col. map (\<lambda>row. (row, col))
         (sorted_list_of_set (damaged_rows original damaged rows col))) [0..<ctdb_stride])
    \<and> rr_corrected_samples result = length (rr_error_positions result)"
  by (rule repair_restores[OF assms])

theorem repair_restores_image_witness:
  "\<exists>bytes result repaired. compute_parity galois_new (replicate 35280 0) 4 = Some bytes
     \<and> ctdb_repair galois_new ((replicate 35280 0)[11767 := 5]) bytes 4 0 = Some (Inr result, repaired)
     \<and> repaired ! 11767 = 0"
proof -
  let ?a = "replicate 35280 0 :: u16 list"
  have rows: "data_row_count (length ?a) = Some (Inr 1)" by (simp add: data_row_count_Inr ctdb_stride_def)
  obtain bytes where b: "compute_parity galois_new ?a 4 = Some bytes" using compute_parity_exists[OF rows, of 4] by auto
  have "card (damaged_rows ?a (?a[11767 := 5]) 1 col) \<le> 4 div 2" for col
  proof -
    have "card (damaged_rows ?a (?a[11767 := 5]) 1 col) \<le> card {..<1 :: nat}"
      by (rule card_mono) (auto simp: damaged_rows_def)
    then show ?thesis by simp
  qed
  then have few: "\<forall>col < ctdb_stride. card (damaged_rows ?a (?a[11767 := 5]) 1 col) \<le> 4 div 2" by blast
  obtain result repaired where r: "ctdb_repair galois_new (?a[11767 := 5]) bytes 4 0 = Some (Inr result, repaired)"
    and s: "\<And>row col. row < 1 \<Longrightarrow> col < ctdb_stride \<Longrightarrow> repaired ! sample_index row col = ?a ! sample_index row col"
    using repair_restores_image[OF b _ rows _ _ few] by auto
  have "repaired ! sample_index 0 7 = ?a ! sample_index 0 7" by (rule s) (simp_all add: ctdb_stride_def)
  then have "repaired ! 11767 = 0" by (simp add: sample_index_def ctdb_stride_def)
  then show ?thesis using b r by blast
qed

subsection \<open>What verification reports\<close>

lemma column_magnitude_zero: "column_magnitude column = 0 \<longleftrightarrow> all_zero column"
proof -
  have "fold (\<lambda>value magnitude. magnitude OR value) column m = 0 \<longleftrightarrow> m = 0 \<and> all_zero column" for m
    by (induction column arbitrary: m) (auto simp: all_zero_def or_eq_0_iff)
  then show ?thesis by (simp add: column_magnitude_def)
qed

lemma verify_result_value:
  "verify_result_from_syndromes syndromes =
     \<lparr>vr_matches = (\<forall>column \<in> set syndromes. all_zero column),
      vr_error_columns = length (filter (\<lambda>column. \<not> all_zero column) syndromes),
      vr_nonzero_syndromes = length (filter (\<lambda>value. value \<noteq> 0) (concat syndromes)),
      vr_column_magnitudes = map column_magnitude syndromes\<rparr>"
proof -
  have "fold (\<lambda>column (error_columns, nonzero, magnitudes).
        let magnitude = column_magnitude column; nonzero = nonzero + length (filter (\<lambda>value. value \<noteq> 0) column)
        in (if magnitude \<noteq> 0 then error_columns + 1 else error_columns, nonzero, magnitudes @ [magnitude])) syndromes (a, b, c)
      = (a + length (filter (\<lambda>column. \<not> all_zero column) syndromes),
         b + length (filter (\<lambda>value. value \<noteq> 0) (concat syndromes)), c @ map column_magnitude syndromes)" for a b c
    by (induction syndromes arbitrary: a b c) (simp_all add: Let_def column_magnitude_zero)
  moreover have "filter (\<lambda>column. \<not> all_zero column) syndromes = [] \<longleftrightarrow> (\<forall>column \<in> set syndromes. all_zero column)"
    by (simp add: filter_empty_conv)
  ultimately show ?thesis by (simp add: verify_result_from_syndromes_def Let_def)
qed

subsection \<open>Repair is sound\<close>

lemma repair_column_explains:
  assumes "repair_column galois_new npar rows column syn = Some (Inr cs)" and len: "length syn = npar"
  shows "(\<forall>(row, col, m) \<in> set cs. row < rows \<and> col = column) \<and> length cs \<le> npar div 2
    \<and> (\<forall>k < npar. gf_of (syn ! k) = (\<Sum>(row, col, m)\<leftarrow>cs. gf_of m * row_locator rows row ^ k))"
proof -
  obtain corrections where d: "decode_column_syndromes galois_new syn npar rows = Some (Some corrections)"
    and cs: "cs = map (\<lambda>c. (le_row c, column, le_magnitude c)) corrections"
  proof (cases "all_zero syn")
    case True
    then show ?thesis using that[of "[]"] assms by (simp add: repair_column_def decode_column_syndromes_def)
  next
    case False
    with assms(1) obtain sigma n positions magnitudes residual where
      "berlekamp_massey galois_new syn npar = Some (Some (sigma, n))" "n \<noteq> 0" "\<not> npar div 2 < n"
      "chien_search galois_new sigma n rows = Some positions"
      "forney galois_new syn sigma positions npar rows = Some (Some magnitudes)"
      "residual_after_correction galois_new syn (located positions magnitudes) npar rows = Some (Some residual)" "all_zero residual"
      "cs = map (\<lambda>c. (le_row c, column, le_magnitude c)) (located positions magnitudes)"
      by (auto simp: repair_column_def Let_def exec_bind_eq_Inr ok_or_panic_eq_Inr ok_or_eq_Inr_iff split: if_splits)
    then show ?thesis using that[of "located positions magnitudes"] False len
      by (simp add: decode_column_syndromes_def Let_def)
  qed
  from decode_column_explains[OF d] show ?thesis unfolding cs by (auto simp: comp_def)
qed

lemma correct_cell_poly:
  assumes "row < rows" and "column < ctdb_stride" and "y < ctdb_stride" and "sample_index row column < length audio"
  shows "poly_at (column_words (correct_cell (row, column, m) audio) rows y) (alpha ^ k)
    = poly_at (column_words audio rows y) (alpha ^ k) + (if column = y then gf_of m * row_locator rows row ^ k else 0)"
proof -
  let ?a = "correct_cell (row, column, m) audio"
  have a: "?a = audio[sample_index row column := audio ! sample_index row column XOR m]"
    by (simp add: correct_cell_def)
  have cell: "gf_of (column_words ?a rows y ! i) = gf_of (column_words audio rows y ! i)
      + (if i = row \<and> column = y then gf_of m else 0)" if "i < rows" for i
    using that assms sample_index_inject[of column y row i]
    by (auto simp: column_words_nth a nth_list_update gf_of_xor)
  have exp: "(alpha ^ k) ^ (rows - Suc i) = row_locator rows i ^ k" for i
    unfolding row_locator_def by (simp add: power_mult[symmetric] mult.commute)
  have "poly_at (column_words ?a rows y) (alpha ^ k)
      = (\<Sum>i<rows. gf_of (column_words audio rows y ! i) * row_locator rows i ^ k)
        + (\<Sum>i<rows. (if i = row \<and> column = y then gf_of m else 0) * row_locator rows i ^ k)"
    by (simp add: poly_at_def exp cell distrib_right sum.distrib)
  also have "(\<Sum>i<rows. (if i = row \<and> column = y then gf_of m else 0) * row_locator rows i ^ k)
      = (\<Sum>i\<in>{row}. (if column = y then gf_of m else 0) * row_locator rows i ^ k)"
    using assms(1) by (intro sum.mono_neutral_cong_right) auto
  finally show ?thesis by (simp add: poly_at_def exp)
qed

lemma apply_corrections_poly:
  assumes "\<forall>(row, column, m) \<in> set cs. row < rows \<and> column < ctdb_stride" and "data_row_count (length audio) = Some (Inr rows)"
    and "y < ctdb_stride"
  shows "length (fold correct_cell cs audio) = length audio
    \<and> poly_at (column_words (fold correct_cell cs audio) rows y) (alpha ^ k)
      = poly_at (column_words audio rows y) (alpha ^ k)
        + (\<Sum>(row, column, m)\<leftarrow>cs. if column = y then gf_of m * row_locator rows row ^ k else 0)"
  using assms
proof (induction cs arbitrary: audio)
  case (Cons c cs)
  obtain row column m where c: "c = (row, column, m)" by (cases c) auto
  have lt: "row < rows" "column < ctdb_stride" using Cons.prems(1) by (auto simp: c)
  have "sample_index row column < length audio" using sample_index_bound[OF Cons.prems(2) lt] .
  from correct_cell_poly[OF lt Cons.prems(3) this, of m k] show ?case
    using Cons.IH[of "correct_cell c audio"] Cons.prems by (simp add: c add.assoc)
qed simp

lemma fold_exec_inverse:
  assumes "fold_exec (\<lambda>(column, column_syndromes) acc. exec_bind (f column column_syndromes) (\<lambda>cs. Some (Inr (acc @ cs))))
      (enumerate k syndromes) acc = Some (Inr cs)"
  shows "\<exists>g. (\<forall>y < length syndromes. f (k + y) (syndromes ! y) = Some (Inr (g (k + y))))
    \<and> cs = acc @ concat (map g [k..<k + length syndromes])"
  using assms
proof (induction syndromes arbitrary: k acc)
  case (Cons s syndromes)
  from Cons.prems obtain c where c: "f k s = Some (Inr c)"
    and rest: "fold_exec (\<lambda>(column, column_syndromes) acc. exec_bind (f column column_syndromes) (\<lambda>cs. Some (Inr (acc @ cs))))
      (enumerate (Suc k) syndromes) (acc @ c) = Some (Inr cs)"
    by (auto simp: exec_bind_eq_Inr)
  from Cons.IH[OF rest] obtain g where g: "\<forall>y < length syndromes. f (Suc k + y) (syndromes ! y) = Some (Inr (g (Suc k + y)))"
    "cs = (acc @ c) @ concat (map g [Suc k..<Suc k + length syndromes])" by blast
  have "[k..<k + length (s # syndromes)] = k # [Suc k..<Suc k + length syndromes]"
    by (simp add: upt_conv_Cons del: upt_Suc)
  moreover have "map (g(k := c)) [Suc k..<Suc k + length syndromes] = map g [Suc k..<Suc k + length syndromes]"
    by (intro map_cong) auto
  ultimately have "cs = acc @ concat (map (g(k := c)) [k..<k + length (s # syndromes)])"
    using g(2) by (simp only: list.map concat.simps fun_upd_same append_assoc)
  moreover have "f (k + y) ((s # syndromes) ! y) = Some (Inr ((g(k := c)) (k + y)))" if "y < length (s # syndromes)" for y
    using that g(1) c by (cases y) simp_all
  ultimately show ?case by blast
qed simp

lemma repair_outcome_Inr:
  "do { outcome \<leftarrow> m; case outcome of Inl e \<Rightarrow> Some (Inl e, a) | Inr x \<Rightarrow> do { b \<leftarrow> g x; Some (Inr (f x), b) } } = Some (Inr y, b)
    \<longleftrightarrow> (\<exists>x. m = Some (Inr x) \<and> y = f x \<and> g x = Some b)"
  by (cases m; cases "the m") (auto simp: bind_eq_Some_conv)

lemma repair_outcome_Inl:
  "do { outcome \<leftarrow> m; case outcome of Inl e \<Rightarrow> Some (Inl e, a) | Inr x \<Rightarrow> do { b \<leftarrow> g x; Some (Inr (f x), b) } } = Some (Inl e, b)
    \<longleftrightarrow> m = Some (Inl e) \<and> b = a"
  by (cases m; cases "the m") (auto simp: bind_eq_Some_conv)

text \<open>The corrections of a run over all columns: those of each column explain its syndromes and lie in the image.\<close>

lemma repair_columns:
  assumes S: "syndrome_delta_with_word_offset galois_new audio bytes npar w = Some (Inr S)"
    and rows: "data_row_count (length audio) = Some (Inr rows)"
    and fold: "fold_exec (\<lambda>(column, column_syndromes) acc. exec_bind (repair_column galois_new npar rows column column_syndromes)
        (\<lambda>cs. Some (Inr (acc @ cs)))) (enumerate 0 S) [] = Some (Inr cs)"
  shows "(\<exists>g. cs = concat (map g [0..<ctdb_stride])
      \<and> (\<forall>y < ctdb_stride. (\<forall>(row, col, m) \<in> set (g y). row < rows \<and> col = y) \<and> length (g y) \<le> npar div 2
          \<and> (\<forall>k < npar. gf_of (S ! y ! k) = (\<Sum>(row, col, m)\<leftarrow>g y. gf_of m * row_locator rows row ^ k))))
    \<and> (\<forall>(row, column, m) \<in> set cs. row < rows \<and> column < ctdb_stride)"
proof -
  obtain P where P: "try_bytes_to_parity bytes ctdb_stride npar = Some (Inr P)" using delta_inputs[OF S] by blast
  have dS: "delta_ok audio rows P npar w S" using delta_run[OF rows P, of w] S by auto
  then have LS: "length S = ctdb_stride" and Sy: "\<And>y. y < ctdb_stride \<Longrightarrow> length (S ! y) = npar"
    by (auto simp: delta_ok_def)
  obtain g where g: "\<And>y. y < ctdb_stride \<Longrightarrow> repair_column galois_new npar rows y (S ! y) = Some (Inr (g y))"
    and cs: "cs = concat (map g [0..<ctdb_stride])"
    using fold_exec_inverse[OF fold] LS by auto
  have ex: "(\<forall>(row, col, m) \<in> set (g y). row < rows \<and> col = y) \<and> length (g y) \<le> npar div 2
      \<and> (\<forall>k < npar. gf_of (S ! y ! k) = (\<Sum>(row, col, m)\<leftarrow>g y. gf_of m * row_locator rows row ^ k))"
    if "y < ctdb_stride" for y
    using repair_column_explains[OF g[OF that] Sy[OF that]] .
  moreover have "\<forall>(row, column, m) \<in> set cs. row < rows \<and> column < ctdb_stride"
    using ex by (fastforce simp: cs)
  ultimately show ?thesis using cs by blast
qed

text \<open>What a successful repair did.\<close>

lemma repair_success:
  assumes "ctdb_repair galois_new audio bytes npar offset = Some (Inr result, repaired)"
  shows "\<exists>rows cs S'. data_row_count (length audio) = Some (Inr rows)
    \<and> (\<forall>(row, column, m) \<in> set cs. row < rows \<and> column < ctdb_stride)
    \<and> repaired = fold correct_cell cs audio
    \<and> result = \<lparr>rr_corrected_samples = length cs, rr_error_positions = map (\<lambda>(row, column, _). (row, column)) cs\<rparr>
    \<and> syndrome_delta_with_word_offset galois_new repaired bytes npar (offset * 2) = Some (Inr S')
    \<and> (\<forall>column \<in> set S'. all_zero column)"
proof -
  note run = assms[unfolded ctdb_repair_def repair_with_sample_offset_def repair_with_word_offset_def repair_outcome_Inr]
  then obtain cs rows S where rows: "data_row_count (length audio) = Some (Inr rows)"
    and S: "syndrome_delta_with_word_offset galois_new audio bytes npar (offset * 2) = Some (Inr S)"
    and fold: "fold_exec (\<lambda>(column, column_syndromes) acc. exec_bind (repair_column galois_new npar rows column column_syndromes)
        (\<lambda>cs. Some (Inr (acc @ cs)))) (enumerate 0 S) [] = Some (Inr cs)"
    and run_cs: "fold_opt apply_correction cs audio = Some repaired"
    and result: "result = \<lparr>rr_corrected_samples = length cs, rr_error_positions = map (\<lambda>(row, column, _). (row, column)) cs\<rparr>"
    unfolding exec_bind_eq_Inr map_panic_err_Inr by auto
  obtain P where P: "try_bytes_to_parity bytes ctdb_stride npar = Some (Inr P)" using delta_inputs[OF S] by blast
  have dS: "delta_ok audio rows P npar (offset * 2) S" using delta_run[OF rows P, of "offset * 2"] S by auto
  from repair_columns[OF S rows fold] obtain g where cs: "cs = concat (map g [0..<ctdb_stride])"
    and ex: "\<And>y. y < ctdb_stride \<Longrightarrow> (\<forall>(row, col, m) \<in> set (g y). row < rows \<and> col = y) \<and> length (g y) \<le> npar div 2
      \<and> (\<forall>k < npar. gf_of (S ! y ! k) = (\<Sum>(row, col, m)\<leftarrow>g y. gf_of m * row_locator rows row ^ k))"
    and range: "\<forall>(row, column, m) \<in> set cs. row < rows \<and> column < ctdb_stride" by blast
  have r: "repaired = fold correct_cell cs audio"
    "result = \<lparr>rr_corrected_samples = length cs, rr_error_positions = map (\<lambda>(row, column, _). (row, column)) cs\<rparr>"
    using run_cs apply_corrections_total[OF range rows] result by simp_all
  have len: "length repaired = length audio"
    using apply_corrections_poly[OF range rows, of 0 0] by (simp add: r(1) ctdb_stride_def)
  have rows': "data_row_count (length repaired) = Some (Inr rows)" using rows len by simp
  obtain S' where S': "syndrome_delta_with_word_offset galois_new repaired bytes npar (offset * 2) = Some (Inr S')"
    and dS': "delta_ok repaired rows P npar (offset * 2) S'"
    using delta_run[OF rows' P, of "offset * 2"] by blast
  have "all_zero (S' ! y)" if y: "y < ctdb_stride" for y
  proof -
    have "S' ! y ! k = 0" if k: "k < npar" for k
    proof -
      have part: "(\<Sum>(row, column, m)\<leftarrow>concat (map g [0..<n]). if column = y then gf_of m * row_locator rows row ^ k else 0)
          = (if y < n then \<Sum>(row, column, m)\<leftarrow>g y. gf_of m * row_locator rows row ^ k else 0)" if "n \<le> ctdb_stride" for n
        using that
      proof (induction n)
        case (Suc n)
        have "(\<Sum>(row, column, m)\<leftarrow>g n. if column = y then gf_of m * row_locator rows row ^ k else 0)
            = (if n = y then \<Sum>(row, column, m)\<leftarrow>g y. gf_of m * row_locator rows row ^ k else 0)"
        proof -
          have "(case c of (row, column, m) \<Rightarrow> if column = y then gf_of m * row_locator rows row ^ k else 0)
              = (if n = y then case c of (row, column, m) \<Rightarrow> gf_of m * row_locator rows row ^ k else 0)"
            if "c \<in> set (g n)" for c
            using ex[of n] Suc.prems that by (cases c) auto
          then have "map (\<lambda>(row, column, m). if column = y then gf_of m * row_locator rows row ^ k else 0) (g n)
              = map (\<lambda>c. if n = y then case c of (row, column, m) \<Rightarrow> gf_of m * row_locator rows row ^ k else 0) (g n)"
            by (intro map_cong) auto
          from arg_cong[OF this, of sum_list] show ?thesis by (cases "n = y") simp_all
        qed
        then show ?case using Suc by (auto simp: less_Suc_eq)
      qed simp
      have "gf_of (S' ! y ! k) = gf_of (S ! y ! k)
          + (\<Sum>(row, column, m)\<leftarrow>cs. if column = y then gf_of m * row_locator rows row ^ k else 0)"
        using dS dS' y k apply_corrections_poly[OF range rows y, of k] by (simp add: delta_ok_def r(1) ac_simps)
      also have "(\<Sum>(row, column, m)\<leftarrow>cs. if column = y then gf_of m * row_locator rows row ^ k else 0) = gf_of (S ! y ! k)"
        using part[of ctdb_stride] ex[OF y] y k by (simp add: cs)
      finally show ?thesis by simp
    qed
    then show ?thesis using dS' y by (auto simp: all_zero_def in_set_conv_nth delta_ok_def)
  qed
  then have "\<forall>column \<in> set S'. all_zero column" using dS' by (auto simp: in_set_conv_nth delta_ok_def)
  then show ?thesis using rows range r S' by blast
qed

text \<open>C4: repair is sound on every input and every offset: after a successful repair the image verifies against the same parity,
  every reported position is inside the protected area; after a failed one the samples are untouched.\<close>

theorem repair_then_verify:
  assumes "ctdb_repair galois_new audio bytes npar offset = Some (outcome, repaired)"
  shows "case outcome of
      Inl e \<Rightarrow> repaired = audio
    | Inr result \<Rightarrow> length repaired = length audio
        \<and> (\<forall>(row, column) \<in> set (rr_error_positions result). sample_index row column < length audio)
        \<and> (\<exists>v. ctdb_verify galois_new repaired bytes npar offset = Some v \<and> vr_matches v \<and> vr_error_columns v = 0)"
proof (cases outcome)
  case (Inl e)
  then show ?thesis
    using assms[unfolded Inl ctdb_repair_def repair_with_sample_offset_def repair_with_word_offset_def repair_outcome_Inl]
    by simp
next
  case (Inr result)
  from repair_success[OF assms[unfolded Inr]] obtain rows cs S' where
    rows: "data_row_count (length audio) = Some (Inr rows)"
    and range: "\<forall>(row, column, m) \<in> set cs. row < rows \<and> column < ctdb_stride"
    and r: "repaired = fold correct_cell cs audio"
      "result = \<lparr>rr_corrected_samples = length cs, rr_error_positions = map (\<lambda>(row, column, _). (row, column)) cs\<rparr>"
    and S': "syndrome_delta_with_word_offset galois_new repaired bytes npar (offset * 2) = Some (Inr S')"
      "\<forall>column \<in> set S'. all_zero column"
    apply (elim exE conjE) by (rule that)
  have "length repaired = length audio"
    using apply_corrections_poly[OF range rows, of 0 0] by (simp add: r(1) ctdb_stride_def)
  moreover have "\<forall>(row, column) \<in> set (rr_error_positions result). sample_index row column < length audio"
    using range sample_index_bound[OF rows] by (auto simp: r(2))
  moreover have "\<exists>v. ctdb_verify galois_new repaired bytes npar offset = Some v \<and> vr_matches v \<and> vr_error_columns v = 0"
    using S' by (simp add: ctdb_verify_def try_verify_def try_verify_with_sample_offset_def try_verify_with_word_offset_def
        verify_result_value filter_empty_conv)
  ultimately show ?thesis by (simp add: Inr)
qed


theorem repair_then_verify_witness:
  "\<exists>bytes result repaired v. ctdb_repair galois_new ((replicate 35280 0)[11767 := 5]) bytes 4 0 = Some (Inr result, repaired)
     \<and> ctdb_verify galois_new repaired bytes 4 0 = Some v \<and> vr_matches v"
proof -
  let ?a = "replicate 35280 0 :: u16 list"
  have rows: "data_row_count (length ?a) = Some (Inr 1)" by (simp add: data_row_count_Inr ctdb_stride_def)
  obtain bytes where b: "compute_parity galois_new ?a 4 = Some bytes" using compute_parity_exists[OF rows, of 4] by auto
  have "card (damaged_rows ?a (?a[11767 := 5]) 1 col) \<le> 4 div 2" for col
  proof -
    have "card (damaged_rows ?a (?a[11767 := 5]) 1 col) \<le> card {..<1 :: nat}"
      by (rule card_mono) (auto simp: damaged_rows_def)
    then show ?thesis by simp
  qed
  then have few: "\<forall>col < ctdb_stride. card (damaged_rows ?a (?a[11767 := 5]) 1 col) \<le> 4 div 2" by blast
  obtain result repaired where r: "ctdb_repair galois_new (?a[11767 := 5]) bytes 4 0 = Some (Inr result, repaired)"
    using repair_restores[OF b _ rows _ _ few] by auto
  from repair_then_verify[OF r] show ?thesis using r by auto
qed

subsection \<open>No panic\<close>

definition returns :: "'a option \<Rightarrow> bool" where "returns m \<longleftrightarrow> m \<noteq> None"

lemma returns_Some [simp]: "returns (Some x)"
  by (simp add: returns_def)













text \<open>the counts of \<open>verify\<close>: it matches exactly when every syndrome of every column is zero, \<open>error_columns\<close> counts the
  columns with a nonzero syndrome, \<open>nonzero_syndromes\<close> the nonzero values, and a column's magnitude is zero exactly when
  the column is clean.\<close>

theorem verify_counts:
  "verify_result_from_syndromes syndromes =
     \<lparr>vr_matches = list_all (list_all (\<lambda>value. value = 0)) syndromes,
      vr_error_columns = length (filter (\<lambda>column. list_ex (\<lambda>value. value \<noteq> 0) column) syndromes),
      vr_nonzero_syndromes = length (filter (\<lambda>value. value \<noteq> 0) (concat syndromes)),
      vr_column_magnitudes = map column_magnitude syndromes\<rparr>
   \<and> (column_magnitude column = 0 \<longleftrightarrow> list_all (\<lambda>value. value = 0) column)"
proof -
  have z: "all_zero c \<longleftrightarrow> list_all (\<lambda>value. value = 0) c" for c by (simp add: all_zero_def list_all_iff)
  have "(\<not> all_zero c) = list_ex (\<lambda>value. value \<noteq> 0) c" for c by (auto simp: all_zero_def list_ex_iff)
  then show ?thesis
    unfolding verify_result_value column_magnitude_zero by (simp add: z list_all_iff)
qed

end
