(* ===== verification/Utf8Text.thy ===== *)
theory Utf8Text
  imports Prelude
begin

text \<open>
  Rust's \<open>String\<close> and \<open>str\<close> as the text input of the file picker uses them. A string is the list of its Unicode
  scalar values; positions are byte offsets of its UTF-8 encoding, so an offset is usable only on a character boundary:
  slicing, inserting or removing elsewhere panics, which is \<open>None\<close> here. The loops that look for the neighbouring boundary
  are the ones of \<open>src/crates/tui-file-picker/src/text_input.rs\<close>; the lemmas turn them into list operations on the
  characters before and after the offset.
\<close>

type_synonym uchar = nat
type_synonym ustr = "uchar list"

subsection \<open>Strings\<close>

definition len_utf8 :: "uchar \<Rightarrow> nat" where
  "len_utf8 c = (if c < 0x80 then 1 else if c < 0x800 then 2 else if c < 0x10000 then 3 else 4)"

definition byte_len :: "ustr \<Rightarrow> nat" where
  "byte_len t = sum_list (map len_utf8 t)"

fun split_at_byte :: "ustr \<Rightarrow> nat \<Rightarrow> (ustr \<times> ustr) option" where
  "split_at_byte [] i = (if i = 0 then Some ([], []) else None)"
| "split_at_byte (c # t) i =
     (if i = 0 then Some ([], c # t)
      else if i < len_utf8 c then None
      else map_option (\<lambda>(a, b). (c # a, b)) (split_at_byte t (i - len_utf8 c)))"

definition is_char_boundary :: "ustr \<Rightarrow> nat \<Rightarrow> bool" where
  "is_char_boundary t i \<longleftrightarrow> split_at_byte t i \<noteq> None"

definition str_slice :: "ustr \<Rightarrow> nat \<Rightarrow> nat \<Rightarrow> ustr option" where
  "str_slice t i j =
     (if i \<le> j then Option.bind (split_at_byte t j) (\<lambda>(a, _). map_option snd (split_at_byte a i)) else None)"

definition str_replace_range :: "ustr \<Rightarrow> nat \<Rightarrow> nat \<Rightarrow> ustr \<Rightarrow> ustr option" where
  "str_replace_range t i j r =
     (if i \<le> j then
        Option.bind (split_at_byte t i) (\<lambda>(a, _).
        Option.bind (split_at_byte t j) (\<lambda>(_, b). Some (a @ r @ b)))
      else None)"

definition str_insert :: "ustr \<Rightarrow> nat \<Rightarrow> ustr \<Rightarrow> ustr option" where
  "str_insert t i s = map_option (\<lambda>(a, b). a @ s @ b) (split_at_byte t i)"

definition str_remove :: "ustr \<Rightarrow> nat \<Rightarrow> ustr option" where
  "str_remove t i = Option.bind (split_at_byte t i) (\<lambda>(a, b). case b of [] \<Rightarrow> None | _ # b \<Rightarrow> Some (a @ b))"

definition str_truncate :: "ustr \<Rightarrow> nat \<Rightarrow> ustr option" where
  "str_truncate t i = (if i \<le> byte_len t then map_option fst (split_at_byte t i) else Some t)"

definition first_char :: "ustr \<Rightarrow> nat \<Rightarrow> nat \<Rightarrow> uchar option" where
  "first_char t i j = Option.bind (str_slice t i j) (\<lambda>s. case s of [] \<Rightarrow> None | c # _ \<Rightarrow> Some c)"

text \<open>\<open>char::is_whitespace\<close>: the characters with the property White_Space.\<close>

definition is_whitespace :: "uchar \<Rightarrow> bool" where
  "is_whitespace c \<longleftrightarrow> (9 \<le> c \<and> c \<le> 13) \<or> c = 32 \<or> c = 0x85 \<or> c = 0xA0 \<or> c = 0x1680 \<or> (0x2000 \<le> c \<and> c \<le> 0x200A)
     \<or> c = 0x2028 \<or> c = 0x2029 \<or> c = 0x202F \<or> c = 0x205F \<or> c = 0x3000"

definition is_path_separator :: "uchar \<Rightarrow> bool" where
  "is_path_separator c \<longleftrightarrow> c = 47 \<or> c = 92"

subsection \<open>The neighbouring boundaries\<close>

text \<open>\<open>while i > 0 && !text.is_char_boundary(i) { i -= 1 }\<close> and its mirror.\<close>

fun back_to_boundary :: "ustr \<Rightarrow> nat \<Rightarrow> nat" where
  "back_to_boundary t 0 = 0"
| "back_to_boundary t (Suc i) = (if is_char_boundary t (Suc i) then Suc i else back_to_boundary t i)"

function forward_to_boundary :: "ustr \<Rightarrow> nat \<Rightarrow> nat" where
  "forward_to_boundary t i =
     (if i < byte_len t \<and> \<not> is_char_boundary t i then forward_to_boundary t (i + 1) else i)"
  by auto
termination by (relation "measure (\<lambda>(t, i). byte_len t - i)") auto

declare forward_to_boundary.simps [simp del]

definition prev_boundary_before :: "ustr \<Rightarrow> nat \<Rightarrow> nat option" where
  "prev_boundary_before t pos = (if pos = 0 then None else Some (back_to_boundary t (pos - 1)))"

definition next_boundary_after :: "ustr \<Rightarrow> nat \<Rightarrow> nat option" where
  "next_boundary_after t pos = (if pos \<ge> byte_len t then None else Some (forward_to_boundary t (pos + 1)))"

lemma back_to_boundary_le: "back_to_boundary t i \<le> i"
  by (induction i) auto

lemma forward_to_boundary_ge: "i \<le> forward_to_boundary t i"
proof (induction t i rule: forward_to_boundary.induct)
  case (1 t i)
  then show ?case by (subst forward_to_boundary.simps) auto
qed

text \<open>The three scanning loops of the word and path movements; \<open>P\<close> is the class of characters passed over, respectively
  the class of the character the scan stops after.\<close>

function skip_back :: "(uchar \<Rightarrow> bool) \<Rightarrow> ustr \<Rightarrow> nat \<Rightarrow> nat option" where
  "skip_back P t pos =
     (if pos = 0 then Some 0
      else
        let prev = back_to_boundary t (pos - 1) in
        Option.bind (first_char t prev pos) (\<lambda>c. if P c then skip_back P t prev else Some pos))"
  by auto
termination
proof (relation "measure (\<lambda>(P, t, pos). pos)")
  fix t :: ustr and pos prev :: nat
  assume "pos \<noteq> 0" "prev = back_to_boundary t (pos - 1)"
  then show "((P, t, prev), P, t, pos) \<in> measure (\<lambda>(P, t, pos). pos)" for P :: "uchar \<Rightarrow> bool"
    using back_to_boundary_le[of t "pos - 1"] by simp
qed simp

function skip_forward :: "(uchar \<Rightarrow> bool) \<Rightarrow> ustr \<Rightarrow> nat \<Rightarrow> nat option" where
  "skip_forward P t pos =
     (if pos \<ge> byte_len t then Some pos
      else
        let next = forward_to_boundary t (pos + 1) in
        Option.bind (first_char t pos next) (\<lambda>c. if P c then skip_forward P t next else Some pos))"
  by auto
termination
proof (relation "measure (\<lambda>(P, t, pos). byte_len t - pos)")
  fix t :: ustr and pos "next" :: nat
  assume "\<not> byte_len t \<le> pos" "next = forward_to_boundary t (pos + 1)"
  then show "((P, t, next), P, t, pos) \<in> measure (\<lambda>(P, t, pos). byte_len t - pos)" for P :: "uchar \<Rightarrow> bool"
    using forward_to_boundary_ge[of "pos + 1" t] by simp
qed simp

function skip_through :: "(uchar \<Rightarrow> bool) \<Rightarrow> ustr \<Rightarrow> nat \<Rightarrow> nat option" where
  "skip_through P t pos =
     (if pos \<ge> byte_len t then Some pos
      else
        let next = forward_to_boundary t (pos + 1) in
        Option.bind (first_char t pos next) (\<lambda>c. if P c then Some next else skip_through P t next))"
  by auto
termination
proof (relation "measure (\<lambda>(P, t, pos). byte_len t - pos)")
  fix t :: ustr and pos "next" :: nat
  assume "\<not> byte_len t \<le> pos" "next = forward_to_boundary t (pos + 1)"
  then show "((P, t, next), P, t, pos) \<in> measure (\<lambda>(P, t, pos). byte_len t - pos)" for P :: "uchar \<Rightarrow> bool"
    using forward_to_boundary_ge[of "pos + 1" t] by simp
qed simp

declare skip_back.simps [simp del] skip_forward.simps [simp del] skip_through.simps [simp del]

subsection \<open>Splitting at a byte offset\<close>

lemma len_utf8_pos [simp]: "0 < len_utf8 c" "len_utf8 c \<noteq> 0"
  by (simp_all add: len_utf8_def)

lemma byte_len_simps [simp]:
  "byte_len [] = 0" "byte_len (c # t) = len_utf8 c + byte_len t" "byte_len (a @ b) = byte_len a + byte_len b"
  by (simp_all add: byte_len_def)

lemma byte_len_0 [simp]: "byte_len t = 0 \<longleftrightarrow> t = []"
  by (cases t) simp_all

lemma byte_len_pos [simp]: "0 < byte_len t \<longleftrightarrow> t \<noteq> []"
  by (cases t) simp_all

lemma byte_len_rev [simp]: "byte_len (rev t) = byte_len t"
  by (induction t) simp_all

lemma split_at_byte_Some: "split_at_byte t i = Some (a, b) \<longleftrightarrow> t = a @ b \<and> i = byte_len a"
proof (induction t arbitrary: i a)
  case (Cons c t)
  show ?case
  proof (cases "a")
    case Nil
    then show ?thesis by (auto simp: split: if_splits)
  next
    case (Cons c' a')
    then show ?thesis using Cons.IH[of "i - len_utf8 c" a'] by (auto split: prod.splits)
  qed
qed auto

lemma split_at_byte_append [simp]: "split_at_byte (a @ b) (byte_len a) = Some (a, b)"
  by (simp add: split_at_byte_Some)

lemma split_at_byte_all [simp]: "split_at_byte t (byte_len t) = Some (t, [])" "split_at_byte t 0 = Some ([], t)"
  by (simp_all add: split_at_byte_Some)

lemma boundary_split: "is_char_boundary t i \<longleftrightarrow> (\<exists>a b. t = a @ b \<and> i = byte_len a)"
  by (auto simp: is_char_boundary_def split_at_byte_Some)

lemma boundary_ends [simp]: "is_char_boundary t 0" "is_char_boundary t (byte_len t)"
  by (simp_all add: is_char_boundary_def)

lemma boundary_append [simp]: "is_char_boundary (a @ b) (byte_len a)"
  by (auto simp: boundary_split)

lemma boundary_le: "is_char_boundary t i \<Longrightarrow> i \<le> byte_len t"
  by (auto simp: boundary_split)

lemma no_boundary_inside:
  assumes "0 < k" and "k < len_utf8 c"
  shows "\<not> is_char_boundary (a @ c # b) (byte_len a + k)"
proof
  assume "is_char_boundary (a @ c # b) (byte_len a + k)"
  then obtain a' b' where t: "a @ c # b = a' @ b'" and l: "byte_len a + k = byte_len a'" by (auto simp: boundary_split)
  from t consider u where "a = a' @ u" | u where "a' = a @ c # u"
    by (fastforce simp: append_eq_append_conv2 Cons_eq_append_conv)
  then show False using l assms by cases simp_all
qed

lemma boundaries_ordered:
  assumes "t = a @ b" and "t = a' @ b'" and "byte_len a \<le> byte_len a'"
  shows "\<exists>m. a' = a @ m \<and> b = m @ b'"
proof -
  from assms(1,2) have "a @ b = a' @ b'" by simp
  then consider u where "a = a' @ u" "u @ b = b'" | u where "a' = a @ u" "b = u @ b'"
    by (auto simp: append_eq_append_conv2)
  then show ?thesis
  proof cases
    case 1
    then have "u = []" using assms(3) by simp
    then show ?thesis using 1 by simp
  qed blast
qed

lemma str_slice_value [simp]: "str_slice (a @ m @ b) (byte_len a) (byte_len a + byte_len m) = Some m"
proof -
  have "split_at_byte (a @ m @ b) (byte_len a + byte_len m) = Some (a @ m, b)" by (simp add: split_at_byte_Some)
  then show ?thesis by (simp add: str_slice_def)
qed

lemma str_replace_range_value [simp]:
  "str_replace_range (a @ m @ b) (byte_len a) (byte_len a + byte_len m) r = Some (a @ r @ b)"
proof -
  have "split_at_byte (a @ m @ b) (byte_len a + byte_len m) = Some (a @ m, b)" by (simp add: split_at_byte_Some)
  then show ?thesis by (simp add: str_replace_range_def)
qed

lemma str_insert_value [simp]: "str_insert (a @ b) (byte_len a) s = Some (a @ s @ b)"
  by (simp add: str_insert_def)

lemma str_remove_value [simp]: "str_remove (a @ c # b) (byte_len a) = Some (a @ b)"
  by (simp add: str_remove_def)

lemma str_truncate_value [simp]: "str_truncate (a @ b) (byte_len a) = Some a"
  by (simp add: str_truncate_def)

subsection \<open>The loops on characters\<close>

lemma back_to_boundary_inside:
  "k < len_utf8 c \<Longrightarrow> back_to_boundary (a @ c # b) (byte_len a + k) = byte_len a"
proof (induction k)
  case 0
  show ?case by (cases "byte_len a") (simp_all add: is_char_boundary_def split_at_byte_Some, metis boundary_append boundary_split)
next
  case (Suc k)
  then show ?case using no_boundary_inside[of "Suc k" c a b] by simp
qed

lemma back_to_boundary_fix: "is_char_boundary t i \<Longrightarrow> back_to_boundary t i = i"
  by (cases i) simp_all

lemma back_to_boundary_boundary: "is_char_boundary t (back_to_boundary t i)"
  by (induction i) simp_all

lemma prev_boundary_value [simp]: "back_to_boundary (a @ c # b) (byte_len a + len_utf8 c - Suc 0) = byte_len a"
proof -
  have "byte_len a + len_utf8 c - Suc 0 = byte_len a + (len_utf8 c - 1)" using len_utf8_pos(1)[of c] by linarith
  then show ?thesis using back_to_boundary_inside[of "len_utf8 c - 1" c a b] by simp
qed

lemma forward_to_boundary_inside:
  "0 < k \<Longrightarrow> k \<le> len_utf8 c \<Longrightarrow> forward_to_boundary (a @ c # b) (byte_len a + k) = byte_len a + len_utf8 c"
proof (induction "len_utf8 c - k" arbitrary: k)
  case 0
  then have "k = len_utf8 c" by simp
  moreover have "is_char_boundary (a @ c # b) (byte_len a + len_utf8 c)"
    using boundary_append[of "a @ [c]" b] by simp
  ultimately show ?case by (subst forward_to_boundary.simps) simp
next
  case (Suc d)
  then have k: "k < len_utf8 c" by simp
  have "forward_to_boundary (a @ c # b) (byte_len a + Suc k) = byte_len a + len_utf8 c"
    using Suc.hyps(1)[of "Suc k"] Suc.hyps(2) k by simp
  then show ?case using no_boundary_inside[of k c a b] Suc.prems k by (subst forward_to_boundary.simps) simp
qed

lemma next_boundary_value [simp]: "forward_to_boundary (a @ c # b) (Suc (byte_len a)) = byte_len a + len_utf8 c"
proof -
  have "1 \<le> len_utf8 c" using len_utf8_pos(1)[of c] by linarith
  then show ?thesis using forward_to_boundary_inside[of 1 c a b] by simp
qed

lemma first_char_value [simp]: "first_char (a @ c # b) (byte_len a) (byte_len a + len_utf8 c) = Some c"
  using str_slice_value[of a "[c]" b] by (simp add: first_char_def)

lemma skip_back_value: "skip_back P (a @ b) (byte_len a) = Some (byte_len (rev (dropWhile P (rev a))))"
proof (induction a arbitrary: b rule: rev_induct)
  case (snoc c a)
  show ?case using snoc[of "c # b"] by (subst skip_back.simps) (simp add: Let_def)
qed (simp add: skip_back.simps)

lemma skip_forward_value: "skip_forward P (a @ b) (byte_len a) = Some (byte_len (a @ takeWhile P b))"
proof (induction b arbitrary: a)
  case (Cons c b)
  show ?case using Cons[of "a @ [c]"] by (subst skip_forward.simps) (simp add: Let_def)
qed (simp add: skip_forward.simps)

fun take_through :: "(uchar \<Rightarrow> bool) \<Rightarrow> ustr \<Rightarrow> ustr" where
  "take_through P [] = []"
| "take_through P (c # t) = (if P c then [c] else c # take_through P t)"

lemma skip_through_value: "skip_through P (a @ b) (byte_len a) = Some (byte_len (a @ take_through P b))"
proof (induction b arbitrary: a)
  case (Cons c b)
  show ?case using Cons[of "a @ [c]"] by (subst skip_through.simps) (simp add: Let_def)
qed (simp add: skip_through.simps)

lemma take_through_prefix: "\<exists>r. t = take_through P t @ r"
  by (induction t) auto

subsection \<open>Two scans in a row\<close>

definition drop_back :: "(uchar \<Rightarrow> bool) \<Rightarrow> ustr \<Rightarrow> ustr" where
  "drop_back P l = rev (dropWhile P (rev l))"

lemma drop_back_prefix: "\<exists>u. l = drop_back P l @ u"
proof -
  have "rev (takeWhile P (rev l) @ dropWhile P (rev l)) = l" by (simp only: takeWhile_dropWhile_id rev_rev_ident)
  then have "l = drop_back P l @ rev (takeWhile P (rev l))" by (simp only: drop_back_def rev_append)
  then show ?thesis ..
qed

lemma skip_back_back: "skip_back P (l @ r) (byte_len l) = Some (byte_len (drop_back P l))"
  by (simp add: skip_back_value drop_back_def)

lemma skip_back_again: "skip_back Q (l @ r) (byte_len (drop_back P l)) = Some (byte_len (drop_back Q (drop_back P l)))"
proof -
  obtain u where "l = drop_back P l @ u" using drop_back_prefix by blast
  then have t: "l @ r = drop_back P l @ (u @ r)" by (metis append_assoc)
  show ?thesis unfolding t by (rule skip_back_back)
qed

lemma skip_forward_again:
  "skip_forward Q (l @ r) (byte_len l + byte_len (takeWhile P r))
     = Some (byte_len l + byte_len (takeWhile P r) + byte_len (takeWhile Q (dropWhile P r)))"
proof -
  have "l @ r = (l @ takeWhile P r) @ dropWhile P r" by simp
  then show ?thesis using skip_forward_value[of Q "l @ takeWhile P r" "dropWhile P r"] by simp
qed

definition drop_through :: "(uchar \<Rightarrow> bool) \<Rightarrow> ustr \<Rightarrow> ustr" where
  "drop_through P t = drop (length (take_through P t)) t"

lemma take_drop_through: "take_through P t @ drop_through P t = t"
  using take_through_prefix[of t P] by (metis append_eq_conv_conj drop_through_def)

lemma skip_forward_after_through:
  "skip_forward Q (l @ r) (byte_len l + byte_len (take_through P r))
     = Some (byte_len l + byte_len (take_through P r) + byte_len (takeWhile Q (drop_through P r)))"
proof -
  have "l @ r = (l @ take_through P r) @ drop_through P r" by (simp add: take_drop_through)
  then show ?thesis using skip_forward_value[of Q "l @ take_through P r" "drop_through P r"] by simp
qed

end
