(* ===== verification/Clipboard.thy ===== *)
theory Clipboard
  imports Utf8Text
begin

text \<open>
  The logical clipboard of \<open>src/crates/tui-file-picker/src/text_input.rs\<close> (lines 8-300): the process-lifetime value with its
  generation counter, the thread-scoped value that replaces it during a replay, and the host publisher. The static cells
  and the thread-local cells are the fields of one record; publisher functions are known by a number, and calling one
  appends to \<open>cb_published\<close>. The last part interleaves the copies of several threads under the copy lock.
\<close>

subsection \<open>State\<close>

datatype clipboard_origin = TonepoetCopy | HostRead | TerminalPaste

record clipboard_snapshot =
  cs_text :: ustr
  cs_generation :: "64 word"
  cs_origin :: clipboard_origin

record logical_clipboard_state =
  lc_generation :: "64 word"
  lc_snapshot :: "clipboard_snapshot option"

record clipboard =
  cb_process :: logical_clipboard_state
  cb_scoped :: "clipboard_snapshot option"
  cb_hook :: "nat option"
  cb_scoped_hook :: "nat option"
  cb_published :: "(nat \<times> ustr) list"

definition clipboard_start :: clipboard where
  "clipboard_start = \<lparr>cb_process = \<lparr>lc_generation = 0, lc_snapshot = None\<rparr>, cb_scoped = None, cb_hook = None,
     cb_scoped_hook = None, cb_published = []\<rparr>"

subsection \<open>Operations\<close>

definition next_generation :: "64 word \<Rightarrow> 64 word" where
  "next_generation current = (let n = current + 1 in if n = 0 then 1 else n)"

definition update_scoped_logical_clipboard ::
  "ustr \<Rightarrow> clipboard_origin \<Rightarrow> bool \<Rightarrow> clipboard \<Rightarrow> clipboard_snapshot option \<times> clipboard" where
  "update_scoped_logical_clipboard text origin preserve_generation_if_equal cb =
     (case cb_scoped cb of
        None \<Rightarrow> (None, cb)
      | Some current \<Rightarrow>
          if preserve_generation_if_equal \<and> cs_text current = text then (Some current, cb)
          else
            let snapshot = \<lparr>cs_text = text, cs_generation = next_generation (cs_generation current), cs_origin = origin\<rparr>
            in (Some snapshot, cb\<lparr>cb_scoped := Some snapshot\<rparr>))"

definition replace_process_logical_clipboard ::
  "ustr \<Rightarrow> clipboard_origin \<Rightarrow> bool \<Rightarrow> clipboard \<Rightarrow> clipboard_snapshot \<times> clipboard" where
  "replace_process_logical_clipboard text origin preserve_generation_if_equal cb =
     (let state = cb_process cb;
          generation = next_generation (lc_generation state);
          snapshot = \<lparr>cs_text = text, cs_generation = generation, cs_origin = origin\<rparr>;
          replaced = (snapshot, cb\<lparr>cb_process := \<lparr>lc_generation = generation, lc_snapshot = Some snapshot\<rparr>\<rparr>)
      in case lc_snapshot state of
           Some current \<Rightarrow> if preserve_generation_if_equal \<and> cs_text current = text then (current, cb) else replaced
         | None \<Rightarrow> replaced)"

definition set_logical_clipboard ::
  "ustr \<Rightarrow> clipboard_origin \<Rightarrow> bool \<Rightarrow> clipboard \<Rightarrow> clipboard_snapshot \<times> clipboard" where
  "set_logical_clipboard text origin preserve cb =
     (case update_scoped_logical_clipboard text origin preserve cb of
        (Some snapshot, cb) \<Rightarrow> (snapshot, cb)
      | (None, cb) \<Rightarrow> replace_process_logical_clipboard text origin preserve cb)"

definition retain_logical_clipboard_text :: "ustr \<Rightarrow> clipboard \<Rightarrow> clipboard_snapshot \<times> clipboard" where
  "retain_logical_clipboard_text text = set_logical_clipboard text TonepoetCopy False"

definition observe_host_clipboard_text :: "ustr \<Rightarrow> clipboard \<Rightarrow> clipboard_snapshot \<times> clipboard" where
  "observe_host_clipboard_text text = set_logical_clipboard text HostRead True"

definition observe_terminal_clipboard_text :: "ustr \<Rightarrow> clipboard \<Rightarrow> clipboard_snapshot \<times> clipboard" where
  "observe_terminal_clipboard_text text = set_logical_clipboard text TerminalPaste False"

definition logical_clipboard_snapshot :: "clipboard \<Rightarrow> clipboard_snapshot option" where
  "logical_clipboard_snapshot cb = (case cb_scoped cb of Some snapshot \<Rightarrow> Some snapshot | None \<Rightarrow> lc_snapshot (cb_process cb))"

definition mirror_host_clipboard_text :: "ustr \<Rightarrow> clipboard \<Rightarrow> clipboard" where
  "mirror_host_clipboard_text text cb =
     (case cb_scoped_hook cb of
        Some hook \<Rightarrow> cb\<lparr>cb_published := cb_published cb @ [(hook, text)]\<rparr>
      | None \<Rightarrow>
          if cb_scoped cb \<noteq> None then cb
          else case cb_hook cb of
                 Some hook \<Rightarrow> cb\<lparr>cb_published := cb_published cb @ [(hook, text)]\<rparr>
               | None \<Rightarrow> cb)"

definition write_shared_text_clipboard_with_snapshot :: "ustr \<Rightarrow> clipboard \<Rightarrow> clipboard_snapshot \<times> clipboard" where
  "write_shared_text_clipboard_with_snapshot text cb =
     (let (snapshot, cb) = retain_logical_clipboard_text text cb in (snapshot, mirror_host_clipboard_text text cb))"

definition write_shared_text_clipboard :: "ustr \<Rightarrow> clipboard \<Rightarrow> clipboard" where
  "write_shared_text_clipboard text cb = snd (write_shared_text_clipboard_with_snapshot text cb)"

definition set_shared_clipboard_publish_hook :: "nat \<Rightarrow> clipboard \<Rightarrow> bool \<times> clipboard" where
  "set_shared_clipboard_publish_hook hook cb =
     (if cb_hook cb = None then (True, cb\<lparr>cb_hook := Some hook\<rparr>) else (False, cb))"

definition read_shared_text_clipboard :: "clipboard \<Rightarrow> ustr" where
  "read_shared_text_clipboard cb = (case logical_clipboard_snapshot cb of Some snapshot \<Rightarrow> cs_text snapshot | None \<Rightarrow> [])"

definition with_scoped_shared_text_clipboard :: "ustr \<Rightarrow> (clipboard \<Rightarrow> 'r \<times> clipboard) \<Rightarrow> clipboard \<Rightarrow> 'r \<times> clipboard" where
  "with_scoped_shared_text_clipboard initial f cb =
     (let previous = cb_scoped cb;
          generation = (case previous of Some snapshot \<Rightarrow> next_generation (cs_generation snapshot) | None \<Rightarrow> 1);
          (r, cb) = f (cb\<lparr>cb_scoped := Some \<lparr>cs_text = initial, cs_generation = generation, cs_origin = HostRead\<rparr>\<rparr>)
      in (r, cb\<lparr>cb_scoped := previous\<rparr>))"

definition with_scoped_publish_hook :: "nat \<Rightarrow> (clipboard \<Rightarrow> 'r \<times> clipboard) \<Rightarrow> clipboard \<Rightarrow> 'r \<times> clipboard" where
  "with_scoped_publish_hook hook f cb =
     (let previous = cb_scoped_hook cb;
          (r, cb) = f (cb\<lparr>cb_scoped_hook := Some hook\<rparr>)
      in (r, cb\<lparr>cb_scoped_hook := previous\<rparr>))"

subsection \<open>Generations\<close>

lemmas clipboard_defs =
  set_logical_clipboard_def update_scoped_logical_clipboard_def replace_process_logical_clipboard_def
  retain_logical_clipboard_text_def observe_host_clipboard_text_def observe_terminal_clipboard_text_def
  logical_clipboard_snapshot_def read_shared_text_clipboard_def Let_def

lemma next_generation_nonzero: "next_generation g \<noteq> 0"
  by (simp add: next_generation_def Let_def)

lemma next_generation_new: "next_generation g \<noteq> g"
proof -
  have "(-1 :: 64 word) \<noteq> 1" by simp
  moreover have "g + 1 = 0 \<Longrightarrow> g = -1" by (simp add: add_eq_0_iff2)
  ultimately show ?thesis by (auto simp: next_generation_def Let_def)
qed

text \<open>A clipboard whose process value carries the counter; every operation keeps it, so generations are never reused in a row.\<close>

definition clipboard_ok :: "clipboard \<Rightarrow> bool" where
  "clipboard_ok cb \<longleftrightarrow> (case lc_snapshot (cb_process cb) of
       Some s \<Rightarrow> cs_generation s = lc_generation (cb_process cb) \<and> cs_generation s \<noteq> 0
     | None \<Rightarrow> True)
     \<and> (case cb_scoped cb of Some s \<Rightarrow> cs_generation s \<noteq> 0 | None \<Rightarrow> True)"

text \<open>every way of setting the clipboard, with and without a scoped value: the snapshot returned is the one read back, it has the
  new text and a nonzero generation; the generation differs from the one before, except that reading the same text from the
  host again keeps the snapshot as it is; a scoped write leaves the process value alone; the invariant is kept.\<close>

theorem clipboard_generations:
  assumes "clipboard_ok cb" and "set_logical_clipboard text origin preserve cb = (snapshot, cb')"
  shows "clipboard_ok cb' \<and> logical_clipboard_snapshot cb' = Some snapshot \<and> read_shared_text_clipboard cb' = text
    \<and> cs_generation snapshot \<noteq> 0
    \<and> (case logical_clipboard_snapshot cb of
         None \<Rightarrow> cs_origin snapshot = origin
       | Some old \<Rightarrow> if preserve \<and> cs_text old = text then snapshot = old \<and> cb' = cb
                    else cs_generation snapshot \<noteq> cs_generation old \<and> cs_origin snapshot = origin)
    \<and> (cb_scoped cb \<noteq> None \<longrightarrow> cb_process cb' = cb_process cb)
    \<and> cb_published cb' = cb_published cb"
  using assms
  by (auto simp: clipboard_defs clipboard_ok_def next_generation_nonzero next_generation_new
      split: option.splits if_splits)

theorem clipboard_generations_witness:
  "\<exists>snapshot cb'. set_logical_clipboard [104, 105] TonepoetCopy False clipboard_start = (snapshot, cb')
     \<and> clipboard_ok cb' \<and> read_shared_text_clipboard cb' = [104, 105]"
proof -
  obtain snapshot cb' where s: "set_logical_clipboard [104, 105] TonepoetCopy False clipboard_start = (snapshot, cb')" by fastforce
  have "clipboard_ok clipboard_start" by (simp add: clipboard_ok_def clipboard_start_def)
  from clipboard_generations[OF this s] s show ?thesis by blast
qed

text \<open>a scoped clipboard is invisible outside: whatever the closure writes, the process value, the earlier scoped value and the
  process publisher's log are as before; inside, reading gives the initial text.\<close>

theorem scoped_clipboard_isolated:
  "snd (with_scoped_shared_text_clipboard initial
      (\<lambda>cb. (read_shared_text_clipboard cb, write_shared_text_clipboard text (snd (observe_terminal_clipboard_text pasted cb)))) cb)
     = (case cb_scoped_hook cb of None \<Rightarrow> cb | Some hook \<Rightarrow> cb\<lparr>cb_published := cb_published cb @ [(hook, text)]\<rparr>)
   \<and> fst (with_scoped_shared_text_clipboard initial
      (\<lambda>cb. (read_shared_text_clipboard cb, write_shared_text_clipboard text (snd (observe_terminal_clipboard_text pasted cb)))) cb)
     = initial"
  by (simp add: with_scoped_shared_text_clipboard_def clipboard_defs write_shared_text_clipboard_def
      write_shared_text_clipboard_with_snapshot_def mirror_host_clipboard_text_def split: option.splits)

subsection \<open>Concurrent copies\<close>

text \<open>A copy of a text by thread \<open>i\<close>: take the copy lock, retain, publish, release. The state of mutex \<open>LOGICAL_CLIPBOARD\<close> is
  taken and released inside \<open>retain\<close>, one step.\<close>

datatype copy_phase = Idle | Holding ustr | Kept ustr | Mirrored

record copy_system =
  sys_phase :: "nat \<Rightarrow> copy_phase"
  sys_lock :: "nat option"
  sys_clipboard :: clipboard

inductive copy_step :: "copy_system \<Rightarrow> copy_system \<Rightarrow> bool" where
  acquire: "sys_phase s i = Idle \<Longrightarrow> sys_lock s = None \<Longrightarrow>
      copy_step s (s\<lparr>sys_phase := (sys_phase s)(i := Holding text), sys_lock := Some i\<rparr>)"
| retain: "sys_phase s i = Holding text \<Longrightarrow>
      copy_step s (s\<lparr>sys_phase := (sys_phase s)(i := Kept text),
        sys_clipboard := snd (retain_logical_clipboard_text text (sys_clipboard s))\<rparr>)"
| mirror: "sys_phase s i = Kept text \<Longrightarrow>
      copy_step s (s\<lparr>sys_phase := (sys_phase s)(i := Mirrored),
        sys_clipboard := mirror_host_clipboard_text text (sys_clipboard s)\<rparr>)"
| release: "sys_phase s i = Mirrored \<Longrightarrow>
      copy_step s (s\<lparr>sys_phase := (sys_phase s)(i := Idle), sys_lock := None\<rparr>)"

inductive_cases copy_stepE: "copy_step s s'"

definition copy_start :: "nat \<Rightarrow> copy_system" where
  "copy_start hook = \<lparr>sys_phase = (\<lambda>_. Idle), sys_lock = None, sys_clipboard = clipboard_start\<lparr>cb_hook := Some hook\<rparr>\<rparr>"

text \<open>Only the lock's holder is inside; the last publication is the current value, except between retaining and publishing.\<close>

definition copy_inv :: "nat \<Rightarrow> copy_system \<Rightarrow> bool" where
  "copy_inv hook s \<longleftrightarrow> (\<forall>i. sys_phase s i \<noteq> Idle \<longrightarrow> sys_lock s = Some i)
     \<and> (\<forall>i. sys_lock s = Some i \<longrightarrow> sys_phase s i \<noteq> Idle)
     \<and> cb_hook (sys_clipboard s) = Some hook \<and> cb_scoped (sys_clipboard s) = None \<and> cb_scoped_hook (sys_clipboard s) = None
     \<and> (\<forall>i text. sys_phase s i = Kept text \<longrightarrow> read_shared_text_clipboard (sys_clipboard s) = text)
     \<and> ((\<forall>i text. sys_phase s i \<noteq> Kept text) \<longrightarrow>
          read_shared_text_clipboard (sys_clipboard s)
            = (if cb_published (sys_clipboard s) = [] then [] else snd (last (cb_published (sys_clipboard s)))))"

lemma retain_unscoped:
  assumes "cb_scoped cb = None"
  shows "read_shared_text_clipboard (snd (retain_logical_clipboard_text text cb)) = text"
    and "cb_scoped (snd (retain_logical_clipboard_text text cb)) = None"
    and "cb_hook (snd (retain_logical_clipboard_text text cb)) = cb_hook cb"
    and "cb_scoped_hook (snd (retain_logical_clipboard_text text cb)) = cb_scoped_hook cb"
    and "cb_published (snd (retain_logical_clipboard_text text cb)) = cb_published cb"
  using assms by (auto simp: clipboard_defs split: option.splits)

lemma holder_alone:
  "copy_inv hook s \<Longrightarrow> sys_phase s i \<noteq> Idle \<Longrightarrow> sys_lock s = Some i \<and> (\<forall>j. j \<noteq> i \<longrightarrow> sys_phase s j = Idle)"
  unfolding copy_inv_def by (metis option.inject)

lemma copy_inv_clipboard:
  "copy_inv hook s \<Longrightarrow> cb_hook (sys_clipboard s) = Some hook \<and> cb_scoped (sys_clipboard s) = None
     \<and> cb_scoped_hook (sys_clipboard s) = None"
  by (simp add: copy_inv_def)

lemma copy_step_inv: "copy_step s s' \<Longrightarrow> copy_inv hook s \<Longrightarrow> copy_inv hook s'"
proof (induction rule: copy_step.induct)
  case (acquire s i t)
  then show ?case by (auto simp: copy_inv_def)
next
  case (retain s i t)
  then have "sys_lock s = Some i" "\<forall>j. j \<noteq> i \<longrightarrow> sys_phase s j = Idle" using holder_alone[OF retain.prems, of i] by auto
  then show ?case
    using copy_inv_clipboard[OF retain.prems] by (auto simp: copy_inv_def retain_unscoped)
next
  case (mirror s i t)
  then have "read_shared_text_clipboard (sys_clipboard s) = t" by (simp add: copy_inv_def)
  then show ?case
    using holder_alone[OF mirror.prems, of i] copy_inv_clipboard[OF mirror.prems] mirror.hyps
    unfolding copy_inv_def
    by (simp add: mirror_host_clipboard_text_def read_shared_text_clipboard_def logical_clipboard_snapshot_def)
next
  case (release s i)
  then have "\<forall>j u. sys_phase s j \<noteq> Kept u"
    using holder_alone[OF release.prems, of i] by (metis copy_phase.distinct(3,5,11))
  then have "read_shared_text_clipboard (sys_clipboard s)
      = (if cb_published (sys_clipboard s) = [] then [] else snd (last (cb_published (sys_clipboard s))))"
    using release.prems by (simp add: copy_inv_def)
  moreover have "\<forall>j. j \<noteq> i \<longrightarrow> sys_phase s j = Idle" using holder_alone[OF release.prems, of i] release.hyps by auto
  ultimately show ?case
    using copy_inv_clipboard[OF release.prems] by (auto simp: copy_inv_def)
qed

text \<open>C34: however the copies of any number of threads interleave, whenever no copy is in progress the text last published to the host
  is the text of the logical clipboard: the two never end up in a different order.\<close>

theorem copies_publish_in_order:
  assumes "copy_step\<^sup>*\<^sup>* (copy_start hook) s" and "sys_lock s = None" and "cb_published (sys_clipboard s) \<noteq> []"
  shows "read_shared_text_clipboard (sys_clipboard s) = snd (last (cb_published (sys_clipboard s)))"
proof -
  have "copy_inv hook (copy_start hook)"
    by (simp add: copy_inv_def copy_start_def clipboard_start_def read_shared_text_clipboard_def logical_clipboard_snapshot_def)
  with assms(1) have inv: "copy_inv hook s" by (induction rule: rtranclp_induct) (auto intro: copy_step_inv)
  then have "\<forall>i text. sys_phase s i \<noteq> Kept text" using assms(2) by (auto simp: copy_inv_def)
  then show ?thesis using inv assms(3) by (auto simp: copy_inv_def)
qed


theorem copies_publish_in_order_witness:
  "\<exists>s. copy_step\<^sup>*\<^sup>* (copy_start 7) s \<and> sys_lock s = None \<and> cb_published (sys_clipboard s) = [(7, [104])]
     \<and> read_shared_text_clipboard (sys_clipboard s) = [104]"
proof -
  let ?s0 = "copy_start 7"
  let ?s1 = "?s0\<lparr>sys_phase := (sys_phase ?s0)(3 := Holding [104]), sys_lock := Some 3\<rparr>"
  let ?s2 = "?s1\<lparr>sys_phase := (sys_phase ?s1)(3 := Kept [104]),
        sys_clipboard := snd (retain_logical_clipboard_text [104] (sys_clipboard ?s1))\<rparr>"
  let ?s3 = "?s2\<lparr>sys_phase := (sys_phase ?s2)(3 := Mirrored),
        sys_clipboard := mirror_host_clipboard_text [104] (sys_clipboard ?s2)\<rparr>"
  let ?s4 = "?s3\<lparr>sys_phase := (sys_phase ?s3)(3 := Idle), sys_lock := None\<rparr>"
  have "copy_step ?s0 ?s1" by (rule copy_step.acquire) (simp_all add: copy_start_def)
  moreover have "copy_step ?s1 ?s2" by (rule copy_step.retain) simp
  moreover have "copy_step ?s2 ?s3" by (rule copy_step.mirror) simp
  moreover have "copy_step ?s3 ?s4" by (rule copy_step.release) simp
  ultimately have run: "copy_step\<^sup>*\<^sup>* ?s0 ?s4" by (meson rtranclp.rtrancl_into_rtrancl rtranclp.rtrancl_refl)
  have pub: "cb_published (sys_clipboard ?s4) = [(7, [104])]"
    by (simp add: copy_start_def clipboard_start_def clipboard_defs mirror_host_clipboard_text_def)
  have lock: "sys_lock ?s4 = None" by simp
  have "read_shared_text_clipboard (sys_clipboard ?s4) = [104]"
    using copies_publish_in_order[OF run lock] unfolding pub by simp
  then show ?thesis using run lock pub by blast
qed

end
