(* ===== verification/TextInput.thy ===== *)
theory TextInput
  imports Clipboard
begin

text \<open>
  The single-line text field \<open>TextInputState\<close> of \<open>src/crates/tui-file-picker/src/text_input.rs\<close>: its state, history,
  selection, edits and movements, each as the code has it on byte offsets. \<open>None\<close> is a panic (slicing or editing off a
  character boundary, or an \<open>unwrap\<close> of nothing); \<open>TextInputTheorems\<close> shows that none happens.
\<close>

subsection \<open>State\<close>

record text_snapshot =
  ts_text :: ustr
  ts_cursor :: nat
  ts_select_all :: bool
  ts_anchor :: "nat option"

datatype completion_scope = Scalar | Segment

record completion_cycle =
  cc_scope :: completion_scope
  cc_query :: ustr
  cc_current_candidate :: ustr
  cc_completed_text :: ustr
  cc_cursor :: nat

record text_input =
  ti_text :: ustr
  ti_cursor :: nat
  ti_select_all :: bool
  ti_anchor :: "nat option"
  ti_undo_history :: "text_snapshot list"
  ti_redo_history :: "text_snapshot list"
  ti_cycle :: "completion_cycle option"

definition history_limit :: nat where "history_limit = 128"

definition text_input_new :: "ustr \<Rightarrow> text_input" where
  "text_input_new initial = \<lparr>ti_text = initial, ti_cursor = byte_len initial, ti_select_all = False, ti_anchor = None,
     ti_undo_history = [], ti_redo_history = [], ti_cycle = None\<rparr>"

definition text_input_new_selected :: "ustr \<Rightarrow> text_input" where
  "text_input_new_selected initial = \<lparr>ti_text = initial, ti_cursor = byte_len initial, ti_select_all = True,
     ti_anchor = Some 0, ti_undo_history = [], ti_redo_history = [], ti_cycle = None\<rparr>"

definition text_input_empty :: text_input where "text_input_empty = text_input_new []"

subsection \<open>History\<close>

definition snapshot :: "text_input \<Rightarrow> text_snapshot" where
  "snapshot s = \<lparr>ts_text = ti_text s, ts_cursor = ti_cursor s, ts_select_all = ti_select_all s, ts_anchor = ti_anchor s\<rparr>"

definition restore_snapshot :: "text_snapshot \<Rightarrow> text_input \<Rightarrow> text_input" where
  "restore_snapshot snap s = s\<lparr>ti_text := ts_text snap,
     ti_cursor := back_to_boundary (ts_text snap) (min (ts_cursor snap) (byte_len (ts_text snap))),
     ti_select_all := ts_select_all snap,
     ti_anchor := (case ts_anchor snap of None \<Rightarrow> None
        | Some anchor \<Rightarrow> if anchor \<le> byte_len (ts_text snap) \<and> is_char_boundary (ts_text snap) anchor then Some anchor else None),
     ti_cycle := None\<rparr>"

definition push_bounded :: "text_snapshot list \<Rightarrow> text_snapshot \<Rightarrow> text_snapshot list" where
  "push_bounded history snap = (if length history = history_limit then drop 1 history else history) @ [snap]"

definition record_edit :: "text_snapshot \<Rightarrow> text_input \<Rightarrow> bool \<times> text_input" where
  "record_edit before s =
     (if ts_text before = ti_text s then (False, s)
      else (True, s\<lparr>ti_undo_history := push_bounded (ti_undo_history s) before, ti_redo_history := []\<rparr>))"

definition undo :: "text_input \<Rightarrow> bool \<times> text_input" where
  "undo s =
     (if ti_undo_history s = [] then (False, s)
      else
        let previous = last (ti_undo_history s);
            s = s\<lparr>ti_undo_history := butlast (ti_undo_history s)\<rparr>;
            current = snapshot s;
            s = s\<lparr>ti_redo_history := push_bounded (ti_redo_history s) current\<rparr>
        in (True, restore_snapshot previous s))"

definition redo :: "text_input \<Rightarrow> bool \<times> text_input" where
  "redo s =
     (if ti_redo_history s = [] then (False, s)
      else
        let next = last (ti_redo_history s);
            s = s\<lparr>ti_redo_history := butlast (ti_redo_history s)\<rparr>;
            current = snapshot s;
            s = s\<lparr>ti_undo_history := push_bounded (ti_undo_history s) current\<rparr>
        in (True, restore_snapshot next s))"

definition can_undo :: "text_input \<Rightarrow> bool" where "can_undo s \<longleftrightarrow> ti_undo_history s \<noteq> []"
definition can_redo :: "text_input \<Rightarrow> bool" where "can_redo s \<longleftrightarrow> ti_redo_history s \<noteq> []"

subsection \<open>Selection\<close>

definition selection_range :: "text_input \<Rightarrow> (nat \<times> nat) option" where
  "selection_range s =
     (if ti_select_all s \<and> ti_text s \<noteq> [] then Some (0, byte_len (ti_text s))
      else case ti_anchor s of
        None \<Rightarrow> None
      | Some anchor \<Rightarrow>
          if anchor = ti_cursor s then None
          else
            let (start, end) = (if anchor < ti_cursor s then (anchor, ti_cursor s) else (ti_cursor s, anchor))
            in if is_char_boundary (ti_text s) start \<and> is_char_boundary (ti_text s) end then Some (start, end) else None)"

definition has_selection :: "text_input \<Rightarrow> bool" where "has_selection s \<longleftrightarrow> selection_range s \<noteq> None"

definition clear_selection :: "text_input \<Rightarrow> text_input" where
  "clear_selection s = s\<lparr>ti_select_all := False, ti_anchor := None, ti_cycle := None\<rparr>"

definition select_all_text :: "text_input \<Rightarrow> text_input" where
  "select_all_text s = s\<lparr>ti_cursor := byte_len (ti_text s), ti_select_all := True, ti_anchor := Some 0, ti_cycle := None\<rparr>"

definition delete_selection :: "text_input \<Rightarrow> (bool \<times> text_input) option" where
  "delete_selection s =
     (case selection_range s of
        None \<Rightarrow> Some (False, clear_selection s)
      | Some (start, end) \<Rightarrow>
          map_option (\<lambda>t. (True, clear_selection (s\<lparr>ti_text := t, ti_cursor := start\<rparr>)))
            (str_replace_range (ti_text s) start end []))"

definition copy_selection :: "text_input \<Rightarrow> clipboard \<Rightarrow> (bool \<times> clipboard) option" where
  "copy_selection s cb =
     (case selection_range s of
        Some (start, end) \<Rightarrow>
          map_option (\<lambda>copied. (True, write_shared_text_clipboard copied cb)) (str_slice (ti_text s) start end)
      | None \<Rightarrow>
          if ti_text s = [] then Some (False, cb)
          else Some (True, write_shared_text_clipboard (ti_text s) cb))"

definition cut_selection :: "text_input \<Rightarrow> clipboard \<Rightarrow> (bool \<times> text_input \<times> clipboard) option" where
  "cut_selection s cb =
     (if ti_text s = [] then Some (False, s, cb)
      else
        let before = snapshot s in
        Option.bind (copy_selection s cb) (\<lambda>(copied, cb).
          if \<not> copied then Some (False, s, cb)
          else
            Option.bind (delete_selection s) (\<lambda>(deleted, s).
              let s = (if deleted then s else clear_selection (s\<lparr>ti_text := [], ti_cursor := 0\<rparr>));
                  (changed, s) = record_edit before s
              in Some (changed, s, cb))))"

subsection \<open>Edits\<close>

definition insert_char :: "uchar \<Rightarrow> text_input \<Rightarrow> text_input option" where
  "insert_char c s =
     (let before = snapshot s in
      Option.bind (delete_selection s) (\<lambda>(_, s).
      Option.bind (str_insert (ti_text s) (ti_cursor s) [c]) (\<lambda>t.
        let s = s\<lparr>ti_text := t, ti_cursor := ti_cursor s + len_utf8 c\<rparr>
        in Some (snd (record_edit before s)))))"

definition insert_string :: "ustr \<Rightarrow> text_input \<Rightarrow> text_input option" where
  "insert_string str s =
     (if str = [] \<and> \<not> has_selection s then Some s
      else
        let before = snapshot s in
        Option.bind (delete_selection s) (\<lambda>(_, s).
        Option.bind (str_insert (ti_text s) (ti_cursor s) str) (\<lambda>t.
          let s = s\<lparr>ti_text := t, ti_cursor := ti_cursor s + byte_len str\<rparr>
          in Some (snd (record_edit before s)))))"

definition paste_clipboard :: "text_input \<Rightarrow> clipboard \<Rightarrow> (bool \<times> text_input) option" where
  "paste_clipboard s cb =
     (let text = read_shared_text_clipboard cb in
      if text = [] then Some (False, s) else map_option (Pair True) (insert_string text s))"

definition transform_selection_or_all :: "(ustr \<Rightarrow> ustr) \<Rightarrow> text_input \<Rightarrow> (bool \<times> text_input) option" where
  "transform_selection_or_all transform s =
     (let before = snapshot s;
          had_selection = has_selection s;
          (start, end) = (case selection_range s of Some (i, j) \<Rightarrow> (i, j) | None \<Rightarrow> (0, byte_len (ti_text s)))
      in if \<not> is_char_boundary (ti_text s) start \<or> \<not> is_char_boundary (ti_text s) end then Some (False, s)
         else
           Option.bind (str_slice (ti_text s) start end) (\<lambda>selected.
             let replacement = transform selected in
             Option.bind (str_replace_range (ti_text s) start end replacement) (\<lambda>t.
               let cursor = start + byte_len replacement;
                   s = s\<lparr>ti_text := t, ti_anchor := Some start, ti_cursor := cursor,
                         ti_select_all := (\<not> had_selection \<and> start = 0 \<and> cursor = byte_len t)\<rparr>
               in Some (record_edit before s))))"

definition replace_range :: "nat \<Rightarrow> nat \<Rightarrow> ustr \<Rightarrow> text_input \<Rightarrow> text_input option" where
  "replace_range start end replacement s =
     (if start > end \<or> end > byte_len (ti_text s) \<or> \<not> is_char_boundary (ti_text s) start
         \<or> \<not> is_char_boundary (ti_text s) end then Some s
      else
        let before = snapshot s in
        Option.bind (str_replace_range (ti_text s) start end replacement) (\<lambda>t.
          let s = clear_selection (s\<lparr>ti_text := t, ti_cursor := start + byte_len replacement\<rparr>)
          in Some (snd (record_edit before s))))"

definition set_text_and_cursor :: "ustr \<Rightarrow> nat \<Rightarrow> text_input \<Rightarrow> text_input" where
  "set_text_and_cursor text cursor s =
     (let before = snapshot s;
          s = s\<lparr>ti_text := text, ti_cursor := back_to_boundary text (min cursor (byte_len text))\<rparr>
      in snd (record_edit before (clear_selection s)))"

definition prev_char_boundary :: "text_input \<Rightarrow> nat option" where
  "prev_char_boundary s = prev_boundary_before (ti_text s) (ti_cursor s)"

definition next_char_boundary :: "text_input \<Rightarrow> nat option" where
  "next_char_boundary s = next_boundary_after (ti_text s) (ti_cursor s)"

text \<open>The five edits that delete the selection when there is one, and otherwise do \<open>rest\<close>.\<close>

definition deleting :: "(text_snapshot \<Rightarrow> text_input \<Rightarrow> text_input option) \<Rightarrow> text_input \<Rightarrow> text_input option" where
  "deleting rest s =
     (let before = snapshot s in
      Option.bind (delete_selection s) (\<lambda>(deleted, s).
        if deleted then Some (snd (record_edit before s)) else rest before s))"

definition backspace :: "text_input \<Rightarrow> text_input option" where
  "backspace = deleting (\<lambda>before s.
     case prev_char_boundary s of
       None \<Rightarrow> Some (snd (record_edit before s))
     | Some prev \<Rightarrow>
         Option.bind (str_remove (ti_text s) prev) (\<lambda>t.
           Some (snd (record_edit before (s\<lparr>ti_text := t, ti_cursor := prev\<rparr>)))))"

definition delete_char :: "text_input \<Rightarrow> text_input option" where
  "delete_char = deleting (\<lambda>before s.
     if ti_cursor s < byte_len (ti_text s) then
       Option.bind (str_remove (ti_text s) (ti_cursor s)) (\<lambda>t. Some (snd (record_edit before (s\<lparr>ti_text := t\<rparr>))))
     else Some (snd (record_edit before s)))"

definition delete_word_back :: "text_input \<Rightarrow> text_input option" where
  "delete_word_back = deleting (\<lambda>before s.
     if ti_cursor s = 0 then Some s
     else
       let original = ti_cursor s in
       Option.bind (skip_back is_whitespace (ti_text s) original) (\<lambda>i.
       Option.bind (skip_back (\<lambda>c. \<not> is_whitespace c) (ti_text s) i) (\<lambda>start.
       Option.bind (str_replace_range (ti_text s) start original []) (\<lambda>t.
         Some (snd (record_edit before (s\<lparr>ti_text := t, ti_cursor := start\<rparr>)))))))"

definition delete_word_forward :: "text_input \<Rightarrow> text_input option" where
  "delete_word_forward = deleting (\<lambda>before s.
     if ti_cursor s \<ge> byte_len (ti_text s) then Some s
     else
       let start = ti_cursor s in
       Option.bind (skip_forward (\<lambda>c. \<not> is_whitespace c) (ti_text s) start) (\<lambda>i.
       Option.bind (skip_forward is_whitespace (ti_text s) i) (\<lambda>end.
       Option.bind (str_replace_range (ti_text s) start end []) (\<lambda>t.
         Some (snd (record_edit before (s\<lparr>ti_text := t\<rparr>)))))))"

definition kill_to_start :: "text_input \<Rightarrow> text_input option" where
  "kill_to_start = deleting (\<lambda>before s.
     if ti_cursor s = 0 then Some s
     else
       Option.bind (str_replace_range (ti_text s) 0 (ti_cursor s) []) (\<lambda>t.
         Some (snd (record_edit before (s\<lparr>ti_text := t, ti_cursor := 0\<rparr>)))))"

definition kill_to_end :: "text_input \<Rightarrow> text_input option" where
  "kill_to_end = deleting (\<lambda>before s.
     if ti_cursor s < byte_len (ti_text s) then
       Option.bind (str_truncate (ti_text s) (ti_cursor s)) (\<lambda>t. Some (snd (record_edit before (s\<lparr>ti_text := t\<rparr>))))
     else Some (snd (record_edit before s)))"

subsection \<open>Movement\<close>

definition cursor_left :: "text_input \<Rightarrow> text_input" where
  "cursor_left s = (let s = clear_selection s in case prev_char_boundary s of Some prev \<Rightarrow> s\<lparr>ti_cursor := prev\<rparr> | None \<Rightarrow> s)"

definition cursor_right :: "text_input \<Rightarrow> text_input" where
  "cursor_right s = (let s = clear_selection s in case next_char_boundary s of Some next \<Rightarrow> s\<lparr>ti_cursor := next\<rparr> | None \<Rightarrow> s)"

definition cursor_home :: "text_input \<Rightarrow> text_input" where
  "cursor_home s = (clear_selection s)\<lparr>ti_cursor := 0\<rparr>"

definition cursor_end :: "text_input \<Rightarrow> text_input" where
  "cursor_end s = (clear_selection s)\<lparr>ti_cursor := byte_len (ti_text s)\<rparr>"

definition move_word_left :: "bool \<Rightarrow> text_input \<Rightarrow> text_input option" where
  "move_word_left keep_selection s =
     (if ti_cursor s = 0 then Some s
      else
        Option.bind (skip_back is_whitespace (ti_text s) (ti_cursor s)) (\<lambda>i.
        Option.bind (skip_back (\<lambda>c. \<not> is_whitespace c) (ti_text s) i) (\<lambda>j.
          let s = s\<lparr>ti_cursor := j\<rparr>
          in Some (if keep_selection then s else clear_selection s))))"

definition move_word_right :: "bool \<Rightarrow> text_input \<Rightarrow> text_input option" where
  "move_word_right keep_selection s =
     (if ti_cursor s \<ge> byte_len (ti_text s) then Some s
      else
        Option.bind (skip_through is_whitespace (ti_text s) (ti_cursor s)) (\<lambda>i.
        Option.bind (skip_forward is_whitespace (ti_text s) i) (\<lambda>j.
          let s = s\<lparr>ti_cursor := j\<rparr>
          in Some (if keep_selection then s else clear_selection s))))"

definition move_path_segment_left :: "bool \<Rightarrow> text_input \<Rightarrow> text_input option" where
  "move_path_segment_left keep_selection s =
     (if ti_cursor s = 0 then Some s
      else
        Option.bind (skip_back is_path_separator (ti_text s) (ti_cursor s)) (\<lambda>i.
        Option.bind (skip_back (\<lambda>c. \<not> is_path_separator c) (ti_text s) i) (\<lambda>j.
          let s = s\<lparr>ti_cursor := j\<rparr>;
              s = (if keep_selection then s else clear_selection s)
          in Some (s\<lparr>ti_select_all := False\<rparr>))))"

definition move_path_segment_right :: "bool \<Rightarrow> text_input \<Rightarrow> text_input option" where
  "move_path_segment_right keep_selection s =
     (if ti_cursor s \<ge> byte_len (ti_text s) then Some s
      else
        Option.bind (skip_through is_path_separator (ti_text s) (ti_cursor s)) (\<lambda>i.
        Option.bind (skip_forward is_path_separator (ti_text s) i) (\<lambda>j.
          let s = s\<lparr>ti_cursor := j\<rparr>;
              s = (if keep_selection then s else clear_selection s)
          in Some (s\<lparr>ti_select_all := False\<rparr>))))"

definition cursor_word_left :: "text_input \<Rightarrow> text_input option" where
  "cursor_word_left s = move_word_left False (clear_selection s)"

definition cursor_word_right :: "text_input \<Rightarrow> text_input option" where
  "cursor_word_right s = move_word_right False (clear_selection s)"

definition start_selection :: "text_input \<Rightarrow> text_input" where
  "start_selection s = (if ti_anchor s = None then s\<lparr>ti_anchor := Some (ti_cursor s)\<rparr> else s)"

definition extend_left :: "text_input \<Rightarrow> text_input" where
  "extend_left s = (let s = start_selection s;
      s = (case prev_char_boundary s of Some prev \<Rightarrow> s\<lparr>ti_cursor := prev\<rparr> | None \<Rightarrow> s)
    in s\<lparr>ti_select_all := False\<rparr>)"

definition extend_right :: "text_input \<Rightarrow> text_input" where
  "extend_right s = (let s = start_selection s;
      s = (case next_char_boundary s of Some next \<Rightarrow> s\<lparr>ti_cursor := next\<rparr> | None \<Rightarrow> s)
    in s\<lparr>ti_select_all := False\<rparr>)"

definition extend_word_left :: "text_input \<Rightarrow> text_input option" where
  "extend_word_left s = move_word_left True (start_selection s)"

definition extend_word_right :: "text_input \<Rightarrow> text_input option" where
  "extend_word_right s = move_word_right True (start_selection s)"

definition extend_path_segment_left :: "text_input \<Rightarrow> text_input option" where
  "extend_path_segment_left s = move_path_segment_left True (start_selection s)"

definition extend_path_segment_right :: "text_input \<Rightarrow> text_input option" where
  "extend_path_segment_right s = move_path_segment_right True (start_selection s)"

end
