(* ===== verification/TextInputTheorems.thy ===== *)
theory TextInputTheorems
  imports TextInput
begin

text \<open>
  The text field against its specification on characters: a field is the characters before the selection, the selected
  ones and those after it (\<open>selection_parts\<close>); without a selection the middle is empty and the cursor is the split. Every edit
  computes on these parts (\<open>spec_edit\<close>), never panics, keeps the invariant, and can be undone and redone exactly.
\<close>

subsection \<open>Invariant\<close>

definition snapshot_ok :: "text_snapshot \<Rightarrow> bool" where
  "snapshot_ok snap \<longleftrightarrow> is_char_boundary (ts_text snap) (ts_cursor snap)
     \<and> (case ts_anchor snap of None \<Rightarrow> True | Some anchor \<Rightarrow> is_char_boundary (ts_text snap) anchor)"

definition ti_inv :: "text_input \<Rightarrow> bool" where
  "ti_inv s \<longleftrightarrow> snapshot_ok (snapshot s) \<and> list_all snapshot_ok (ti_undo_history s) \<and> list_all snapshot_ok (ti_redo_history s)
     \<and> length (ti_undo_history s) + length (ti_redo_history s) \<le> history_limit"

lemma snapshot_simps [simp]:
  "ts_text (snapshot s) = ti_text s" "ts_cursor (snapshot s) = ti_cursor s"
  "ts_select_all (snapshot s) = ti_select_all s" "ts_anchor (snapshot s) = ti_anchor s"
  by (simp_all add: snapshot_def)

lemma ti_invD:
  assumes "ti_inv s"
  shows "is_char_boundary (ti_text s) (ti_cursor s)"
    and "ti_anchor s = Some anchor \<Longrightarrow> is_char_boundary (ti_text s) anchor"
  using assms by (auto simp: ti_inv_def snapshot_ok_def)

lemma ti_inv_new: "ti_inv (text_input_new initial)" "ti_inv (text_input_new_selected initial)" "ti_inv text_input_empty"
  by (simp_all add: ti_inv_def snapshot_ok_def text_input_new_def text_input_new_selected_def text_input_empty_def)

lemma push_bounded_ok:
  "list_all snapshot_ok history \<Longrightarrow> snapshot_ok snap \<Longrightarrow> list_all snapshot_ok (push_bounded history snap)"
  by (auto simp: push_bounded_def list_all_iff dest: in_set_dropD)

lemma push_bounded_length: "length history \<le> history_limit \<Longrightarrow> length (push_bounded history snap) \<le> history_limit"
  by (auto simp: push_bounded_def history_limit_def)

text \<open>Updates of the text, the cursor and the selection keep the invariant when they leave boundaries.\<close>

lemma ti_inv_same_history:
  assumes "ti_inv s" and "ti_undo_history s' = ti_undo_history s" and "ti_redo_history s' = ti_redo_history s"
    and "snapshot_ok (snapshot s')"
  shows "ti_inv s'"
  using assms by (simp add: ti_inv_def)

lemma record_edit_inv:
  assumes "ti_inv s" and "snapshot_ok (snapshot s')" and "ti_undo_history s' = ti_undo_history s"
    and "ti_redo_history s' = ti_redo_history s"
  shows "ti_inv (snd (record_edit (snapshot s) s'))"
proof (cases "ti_text s = ti_text s'")
  case True
  then show ?thesis using assms by (simp add: record_edit_def ti_inv_same_history)
next
  case False
  have "length (ti_undo_history s) \<le> history_limit" using assms(1) by (simp add: ti_inv_def)
  then show ?thesis
    using False assms push_bounded_ok push_bounded_length by (simp add: record_edit_def ti_inv_def snapshot_def)
qed

subsection \<open>Parts\<close>

definition selection_parts :: "text_input \<Rightarrow> ustr \<times> ustr \<times> ustr" where
  "selection_parts s =
     (let (start, end) = (case selection_range s of Some (i, j) \<Rightarrow> (i, j) | None \<Rightarrow> (ti_cursor s, ti_cursor s));
          (before, _) = the (split_at_byte (ti_text s) end);
          (l, m) = the (split_at_byte before start);
          (_, r) = the (split_at_byte (ti_text s) end)
      in (l, m, r))"

lemma selection_parts_value:
  assumes "ti_inv s"
  obtains l m r where "selection_parts s = (l, m, r)" and "ti_text s = l @ m @ r"
    and "m = [] \<Longrightarrow> selection_range s = None \<and> ti_cursor s = byte_len l"
    and "m \<noteq> [] \<Longrightarrow> selection_range s = Some (byte_len l, byte_len l + byte_len m)"
proof -
  note b = ti_invD[OF assms]
  have two: "\<exists>l m r. ti_text s = l @ m @ r \<and> i = byte_len l \<and> j = byte_len l + byte_len m \<and> m \<noteq> []"
    if "is_char_boundary (ti_text s) i" "is_char_boundary (ti_text s) j" "i < j" for i j
  proof -
    from that obtain a b' a' b'' where "ti_text s = a @ b'" "i = byte_len a" "ti_text s = a' @ b''" "j = byte_len a'"
      by (auto simp: boundary_split)
    moreover from this that(3) obtain m where "a' = a @ m" "b' = m @ b''"
      using boundaries_ordered[of "ti_text s" a b' a' b''] by auto
    ultimately show ?thesis using that(3) by (intro exI[of _ a] exI[of _ m] exI[of _ b'']) auto
  qed
  show thesis
  proof (cases "selection_range s")
    case None
    obtain l r where "ti_text s = l @ r" "ti_cursor s = byte_len l" using b(1) by (auto simp: boundary_split)
    then show thesis using that[of l "[]" r] None by (simp add: selection_parts_def)
  next
    case (Some p)
    obtain i j where p: "p = (i, j)" by (cases p)
    have "is_char_boundary (ti_text s) i \<and> is_char_boundary (ti_text s) j \<and> i < j"
      using Some b unfolding selection_range_def p
      by (auto simp: Let_def split: if_splits option.splits)
    then obtain l m r where v: "ti_text s = l @ m @ r" "i = byte_len l" "j = byte_len l + byte_len m" "m \<noteq> []"
      using two by blast
    have "split_at_byte (ti_text s) j = Some (l @ m, r)" by (simp add: split_at_byte_Some v)
    then have "selection_parts s = (l, m, r)" by (simp add: selection_parts_def Some p v(2))
    then show thesis using that[of l m r] v Some p by simp
  qed
qed

text \<open>What an edit leaves: the new text, the cursor after its left part, no selection, and the history.\<close>

definition edited :: "text_input \<Rightarrow> ustr \<Rightarrow> ustr \<Rightarrow> text_input" where
  "edited s l r = snd (record_edit (snapshot s) (clear_selection (s\<lparr>ti_text := l @ r, ti_cursor := byte_len l\<rparr>)))"

lemma record_edit_fields [simp]:
  "ti_text (snd (record_edit before s)) = ti_text s" "ti_cursor (snd (record_edit before s)) = ti_cursor s"
  "ti_select_all (snd (record_edit before s)) = ti_select_all s" "ti_anchor (snd (record_edit before s)) = ti_anchor s"
  by (simp_all add: record_edit_def)

lemma clear_selection_fields [simp]:
  "ti_text (clear_selection s) = ti_text s" "ti_cursor (clear_selection s) = ti_cursor s"
  "ti_select_all (clear_selection s) = False" "ti_anchor (clear_selection s) = None"
  "ti_undo_history (clear_selection s) = ti_undo_history s" "ti_redo_history (clear_selection s) = ti_redo_history s"
  by (simp_all add: clear_selection_def)

lemma clear_selection_update [simp]:
  "clear_selection s\<lparr>ti_text := t\<rparr> = clear_selection (s\<lparr>ti_text := t\<rparr>)"
  "clear_selection s\<lparr>ti_cursor := i\<rparr> = clear_selection (s\<lparr>ti_cursor := i\<rparr>)"
  by (simp_all add: clear_selection_def)

lemma cursor_text_update [simp]: "s\<lparr>ti_cursor := i, ti_text := t\<rparr> = s\<lparr>ti_text := t, ti_cursor := i\<rparr>"
  by simp

lemma same_text_cursor: "ti_text s = t \<Longrightarrow> ti_cursor s = i \<Longrightarrow> s\<lparr>ti_text := t, ti_cursor := i\<rparr> = s"
  by (cases s) simp

lemma snapshot_ok_plain: "ti_anchor s = None \<Longrightarrow> is_char_boundary (ti_text s) (ti_cursor s) \<Longrightarrow> snapshot_ok (snapshot s)"
  by (simp add: snapshot_ok_def)

lemma edited_inv: "ti_inv s \<Longrightarrow> ti_inv (edited s l r)"
  unfolding edited_def by (intro record_edit_inv snapshot_ok_plain) simp_all

lemma clear_selection_inv:
  assumes "ti_inv s"
  shows "ti_inv (clear_selection s)"
  using ti_invD(1)[OF assms] by (intro ti_inv_same_history[OF assms] snapshot_ok_plain) simp_all

lemma selection_range_plain: "ti_select_all s = False \<Longrightarrow> ti_anchor s = None \<Longrightarrow> selection_range s = None"
  by (simp add: selection_range_def)

lemma selection_parts_plain:
  "ti_select_all s = False \<Longrightarrow> ti_anchor s = None \<Longrightarrow> ti_text s = l @ r \<Longrightarrow> ti_cursor s = byte_len l \<Longrightarrow> selection_parts s = (l, [], r)"
  by (simp add: selection_parts_def selection_range_plain)

lemma selection_parts_text: "ti_inv s \<Longrightarrow> selection_parts s = (l, m, r) \<Longrightarrow> ti_text s = l @ m @ r"
  using selection_parts_value[of s] by (metis prod.inject)

lemma selection_parts_range:
  "ti_inv s \<Longrightarrow> selection_parts s = (l, m, r) \<Longrightarrow>
     selection_range s = (if m = [] then None else Some (byte_len l, byte_len l + byte_len m))"
  using selection_parts_value[of s] by (metis prod.inject)

lemma edited_fields [simp]:
  "ti_text (edited s l r) = l @ r" "ti_cursor (edited s l r) = byte_len l"
  "ti_select_all (edited s l r) = False" "ti_anchor (edited s l r) = None"
  by (simp_all add: edited_def)

lemma edited_parts: "selection_parts (edited s l r) = (l, [], r)"
  by (rule selection_parts_plain) simp_all

lemma delete_selection_value:
  assumes "ti_inv s" and "selection_parts s = (l, m, r)"
  shows "delete_selection s = Some (m \<noteq> [], clear_selection (s\<lparr>ti_text := l @ r, ti_cursor := byte_len l\<rparr>))"
proof -
  obtain l' m' r' where p: "selection_parts s = (l', m', r')" "ti_text s = l' @ m' @ r'"
    "m' = [] \<Longrightarrow> selection_range s = None \<and> ti_cursor s = byte_len l'"
    "m' \<noteq> [] \<Longrightarrow> selection_range s = Some (byte_len l', byte_len l' + byte_len m')"
    using selection_parts_value[OF assms(1)] by metis
  then show ?thesis using assms(2)
    by (cases "m = []") (simp_all add: delete_selection_def same_text_cursor)
qed

lemma deleting_value:
  assumes "ti_inv s" and "selection_parts s = (l, m, r)"
  shows "deleting rest s = (if m \<noteq> [] then Some (edited s l r)
    else rest (snapshot s) (clear_selection (s\<lparr>ti_text := l @ r, ti_cursor := byte_len l\<rparr>)))"
  using delete_selection_value[OF assms] by (simp add: deleting_def edited_def)

lemma edited_unchanged:
  assumes "ti_inv s" and "selection_parts s = (l, [], r)"
  shows "clear_selection (s\<lparr>ti_text := l @ r, ti_cursor := byte_len l\<rparr>) = edited s l r"
proof -
  have "ti_text s = l @ r" using selection_parts_text[OF assms] by simp
  then show ?thesis by (simp add: edited_def record_edit_def)
qed

subsection \<open>Edits\<close>

datatype edit = InsertChar uchar | InsertString ustr | Backspace | DeleteChar | DeleteWordBack | DeleteWordForward
  | KillToStart | KillToEnd

fun run_edit :: "edit \<Rightarrow> text_input \<Rightarrow> text_input option" where
  "run_edit (InsertChar c) = insert_char c"
| "run_edit (InsertString str) = insert_string str"
| "run_edit Backspace = backspace"
| "run_edit DeleteChar = delete_char"
| "run_edit DeleteWordBack = delete_word_back"
| "run_edit DeleteWordForward = delete_word_forward"
| "run_edit KillToStart = kill_to_start"
| "run_edit KillToEnd = kill_to_end"

text \<open>The specification, on the characters left of, inside and right of the selection.\<close>

definition drop_word_back :: "ustr \<Rightarrow> ustr" where
  "drop_word_back l = drop_back (\<lambda>c. \<not> is_whitespace c) (drop_back is_whitespace l)"

definition drop_word_forward :: "ustr \<Rightarrow> ustr" where
  "drop_word_forward r = dropWhile is_whitespace (dropWhile (\<lambda>c. \<not> is_whitespace c) r)"

fun spec_edit :: "edit \<Rightarrow> ustr \<times> ustr \<times> ustr \<Rightarrow> ustr \<times> ustr" where
  "spec_edit (InsertChar c) (l, m, r) = (l @ [c], r)"
| "spec_edit (InsertString str) (l, m, r) = (l @ str, r)"
| "spec_edit Backspace (l, m, r) = (if m \<noteq> [] then (l, r) else (butlast l, r))"
| "spec_edit DeleteChar (l, m, r) = (if m \<noteq> [] then (l, r) else (l, tl r))"
| "spec_edit DeleteWordBack (l, m, r) = (if m \<noteq> [] then (l, r) else (drop_word_back l, r))"
| "spec_edit DeleteWordForward (l, m, r) = (if m \<noteq> [] then (l, r) else (l, drop_word_forward r))"
| "spec_edit KillToStart (l, m, r) = (if m \<noteq> [] then (l, r) else ([], r))"
| "spec_edit KillToEnd (l, m, r) = (if m \<noteq> [] then (l, r) else (l, []))"

lemma insert_char_value:
  assumes "ti_inv s" and "selection_parts s = (l, m, r)"
  shows "insert_char c s = Some (edited s (l @ [c]) r)"
  using delete_selection_value[OF assms] by (simp add: insert_char_def edited_def)

lemma insert_string_value:
  assumes "ti_inv s" and "selection_parts s = (l, m, r)" and "str \<noteq> [] \<or> m \<noteq> []"
  shows "insert_string str s = Some (edited s (l @ str) r)"
proof -
  have sel: "\<not> (str = [] \<and> \<not> has_selection s)"
    using assms selection_parts_value[OF assms(1)] by (metis has_selection_def option.distinct(1) prod.inject)
  show ?thesis unfolding insert_string_def if_not_P[OF sel] using delete_selection_value[OF assms(1,2)] by (simp add: edited_def)
qed

lemma backspace_value:
  assumes "ti_inv s" and "selection_parts s = (l, m, r)"
  shows "backspace s = Some (if m \<noteq> [] then edited s l r else edited s (butlast l) r)"
proof (cases l rule: rev_cases)
  case Nil
  then show ?thesis
    by (simp add: backspace_def deleting_value[OF assms] prev_char_boundary_def prev_boundary_before_def edited_def)
next
  case (snoc l' c)
  then show ?thesis
    by (simp add: backspace_def deleting_value[OF assms] prev_char_boundary_def prev_boundary_before_def edited_def)
qed

lemma delete_char_value:
  assumes "ti_inv s" and "selection_parts s = (l, m, r)"
  shows "delete_char s = Some (if m \<noteq> [] then edited s l r else edited s l (tl r))"
  by (cases r) (simp_all add: delete_char_def deleting_value[OF assms] edited_def)


lemma drop_word_back_prefix: "\<exists>u. l = drop_word_back l @ u"
  unfolding drop_word_back_def by (metis drop_back_prefix append_assoc)

lemma delete_word_back_value:
  assumes "ti_inv s" and "selection_parts s = (l, m, r)"
  shows "delete_word_back s = Some (if m \<noteq> [] then edited s l r else edited s (drop_word_back l) r)"
proof (cases "m = [] \<and> l \<noteq> []")
  case True
  obtain u where u: "l = drop_word_back l @ u" using drop_word_back_prefix by blast
  then have t: "l @ r = drop_word_back l @ u @ r" "byte_len l = byte_len (drop_word_back l) + byte_len u"
    by (metis append_assoc, metis byte_len_simps(3))
  have "str_replace_range (l @ r) (byte_len (drop_word_back l)) (byte_len l) [] = Some (drop_word_back l @ r)"
    unfolding t by simp
  then show ?thesis
    using True skip_back_back[of is_whitespace l r] skip_back_again[of "\<lambda>c. \<not> is_whitespace c" l r is_whitespace]
    by (simp add: delete_word_back_def deleting_value[OF assms] edited_def drop_word_back_def)
next
  case False
  have "drop_word_back [] = []" by (simp add: drop_word_back_def drop_back_def)
  then show ?thesis using False assms edited_unchanged[OF assms(1), of l r]
    by (auto simp: delete_word_back_def deleting_value[OF assms])
qed

lemma delete_word_forward_value:
  assumes "ti_inv s" and "selection_parts s = (l, m, r)"
  shows "delete_word_forward s = Some (if m \<noteq> [] then edited s l r else edited s l (drop_word_forward r))"
proof (cases "m = [] \<and> r \<noteq> []")
  case True
  let ?w = "takeWhile (\<lambda>c. \<not> is_whitespace c) r" and ?r = "dropWhile (\<lambda>c. \<not> is_whitespace c) r"
  let ?u = "?w @ takeWhile is_whitespace ?r"
  have t: "l @ r = l @ ?u @ drop_word_forward r" by (simp add: drop_word_forward_def)
  have "str_replace_range (l @ r) (byte_len l) (byte_len l + byte_len ?u) [] = Some (l @ drop_word_forward r)"
    by (subst t) (simp only: str_replace_range_value append_Nil)
  then show ?thesis
    using True skip_forward_value[of "\<lambda>c. \<not> is_whitespace c" l r] skip_forward_again[of is_whitespace l r "\<lambda>c. \<not> is_whitespace c"]
    by (simp add: delete_word_forward_def deleting_value[OF assms] edited_def add.assoc)
next
  case False
  have "drop_word_forward [] = []" by (simp add: drop_word_forward_def)
  then show ?thesis using False assms edited_unchanged[OF assms(1), of l r]
    by (auto simp: delete_word_forward_def deleting_value[OF assms])
qed

lemma kill_to_start_value:
  assumes "ti_inv s" and "selection_parts s = (l, m, r)"
  shows "kill_to_start s = Some (if m \<noteq> [] then edited s l r else edited s [] r)"
proof (cases "m = [] \<and> l \<noteq> []")
  case True
  have "str_replace_range (l @ r) 0 (byte_len l) [] = Some r" using str_replace_range_value[of "[]" l r "[]"] by simp
  then show ?thesis using True by (simp add: kill_to_start_def deleting_value[OF assms] edited_def)
next
  case False
  then show ?thesis using assms edited_unchanged[OF assms(1), of l r]
    by (auto simp: kill_to_start_def deleting_value[OF assms])
qed

lemma kill_to_end_value:
  assumes "ti_inv s" and "selection_parts s = (l, m, r)"
  shows "kill_to_end s = Some (if m \<noteq> [] then edited s l r else edited s l [])"
  by (simp add: kill_to_end_def deleting_value[OF assms] edited_def)

lemmas edit_values = insert_char_value backspace_value delete_char_value delete_word_back_value
  delete_word_forward_value kill_to_start_value kill_to_end_value

text \<open>Every edit but one leaves \<open>edited\<close>; inserting nothing without a selection does nothing.\<close>

lemma run_edit_value:
  assumes "ti_inv s" and "selection_parts s = (l, m, r)"
  shows "run_edit e s = Some (if e = InsertString [] \<and> m = [] then s
     else edited s (fst (spec_edit e (l, m, r))) (snd (spec_edit e (l, m, r))))"
proof (cases "\<exists>str. e = InsertString str")
  case True
  then obtain str where e: "e = InsertString str" by blast
  show ?thesis
  proof (cases "str = [] \<and> m = []")
    case True
    have "selection_range s = None" using selection_parts_value[OF assms(1)] assms(2) True by (metis prod.inject)
    then show ?thesis using True by (simp add: e insert_string_def has_selection_def)
  next
    case False
    then show ?thesis using insert_string_value[OF assms, of str] by (auto simp: e)
  qed
next
  case False
  then show ?thesis using edit_values[OF assms] by (cases e) auto
qed

text \<open>C16: refinement: on every valid field every edit returns (no slice or removal off a character boundary), keeps the invariant
  and does what its specification says on the characters: the new text, the cursor between its two parts, no selection.\<close>

theorem edits_refine:
  assumes "ti_inv s" and "selection_parts s = (l, m, r)" and "spec_edit e (l, m, r) = (l', r')"
  shows "\<exists>s'. run_edit e s = Some s' \<and> ti_inv s' \<and> ti_text s' = l' @ r' \<and> selection_parts s' = (l', [], r')
    \<and> ti_cursor s' = byte_len l'"
proof (cases "e = InsertString [] \<and> m = []")
  case True
  then have "l' = l" "r' = r" using assms(3) by auto
  moreover have "ti_cursor s = byte_len l" using selection_parts_value[OF assms(1)] assms(2) True by (metis prod.inject)
  ultimately show ?thesis
    using run_edit_value[OF assms(1,2), of e] selection_parts_text[OF assms(1,2)] assms True by auto
next
  case False
  then show ?thesis
    using run_edit_value[OF assms(1,2), of e] edited_inv[OF assms(1)] edited_parts assms(3) by (auto simp: edited_def)
qed

theorem edits_refine_witness:
  "\<exists>s'. run_edit DeleteWordBack (text_input_new [97, 32, 0x65E5, 0x672C, 32]) = Some s' \<and> ti_text s' = [97, 32] \<and> ti_cursor s' = 2"
proof -
  let ?s = "text_input_new [97, 32, 0x65E5, 0x672C, 32]"
  have p: "selection_parts ?s = ([97, 32, 0x65E5, 0x672C, 32], [], [])"
    by (rule selection_parts_plain) (simp_all add: text_input_new_def)
  have e: "spec_edit DeleteWordBack ([97, 32, 0x65E5, 0x672C, 32], [], []) = ([97, 32], [])"
    by (simp add: drop_word_back_def drop_back_def is_whitespace_def)
  from edits_refine[OF ti_inv_new(1) p e] show ?thesis by (auto simp: len_utf8_def)
qed

end
