(* ===== verification/TextInputHistory.thy ===== *)
theory TextInputHistory
  imports TextInputTheorems
begin

text \<open>
  Undo and redo of the text field, the clipboard commands and the movements: every edit that changed the text can be undone
  and redone exactly, cutting and pasting restores the text, movements only move, and where extending by words falls short.
\<close>

subsection \<open>Undo and redo\<close>

lemma restore_snapshot_valid:
  assumes "snapshot_ok snap"
  shows "restore_snapshot snap s = s\<lparr>ti_text := ts_text snap, ti_cursor := ts_cursor snap, ti_select_all := ts_select_all snap,
    ti_anchor := ts_anchor snap, ti_cycle := None\<rparr>"
  using assms boundary_le[of "ts_text snap"]
  by (auto simp: restore_snapshot_def snapshot_ok_def back_to_boundary_fix min_absorb1 split: option.splits)

lemma snapshot_restore: "snapshot_ok snap \<Longrightarrow> snapshot (restore_snapshot snap s) = snap"
  by (simp add: restore_snapshot_valid snapshot_def)

lemma push_bounded_last [simp]: "last (push_bounded history snap) = snap" "push_bounded history snap \<noteq> []"
  by (simp_all add: push_bounded_def)

lemma push_bounded_room: "length history < history_limit \<Longrightarrow> push_bounded history snap = history @ [snap]"
  by (simp add: push_bounded_def)

lemma restore_history [simp]:
  "ti_undo_history (restore_snapshot snap s) = ti_undo_history s" "ti_redo_history (restore_snapshot snap s) = ti_redo_history s"
  by (simp_all add: restore_snapshot_def)

lemma restore_own_snapshot:
  assumes "snapshot_ok (snapshot s)" and "ti_undo_history t = ti_undo_history s" and "ti_redo_history t = ti_redo_history s"
  shows "restore_snapshot (snapshot s) t = s\<lparr>ti_cycle := None\<rparr>"
  unfolding restore_snapshot_valid[OF assms(1)] using assms(2,3) by (cases s; cases t) (simp add: snapshot_def)

lemma snapshot_history [simp]:
  "snapshot (s\<lparr>ti_undo_history := us\<rparr>) = snapshot s" "snapshot (s\<lparr>ti_redo_history := rs\<rparr>) = snapshot s"
  "s\<lparr>ti_redo_history := rs, ti_undo_history := us\<rparr> = s\<lparr>ti_undo_history := us, ti_redo_history := rs\<rparr>"
  by (simp_all add: snapshot_def)

lemma undo_value:
  assumes "ti_inv s" and "ti_undo_history s = us @ [u]"
  shows "undo s = (True, restore_snapshot u (s\<lparr>ti_undo_history := us, ti_redo_history := ti_redo_history s @ [snapshot s]\<rparr>))"
proof -
  have "length (ti_redo_history s) < history_limit" using assms by (simp add: ti_inv_def)
  then have "push_bounded (ti_redo_history s) (snapshot s) = ti_redo_history s @ [snapshot s]" by (rule push_bounded_room)
  then show ?thesis using assms(2) by (simp add: undo_def Let_def)
qed

lemma redo_value:
  assumes "ti_inv s" and "ti_redo_history s = rs @ [r]"
  shows "redo s = (True, restore_snapshot r (s\<lparr>ti_undo_history := ti_undo_history s @ [snapshot s], ti_redo_history := rs\<rparr>))"
proof -
  have "length (ti_undo_history s) < history_limit" using assms by (simp add: ti_inv_def)
  then have "push_bounded (ti_undo_history s) (snapshot s) = ti_undo_history s @ [snapshot s]" by (rule push_bounded_room)
  then show ?thesis using assms(2) by (simp add: redo_def Let_def)
qed

lemma undo_inv: "ti_inv s \<Longrightarrow> ti_inv (snd (undo s))"
proof (cases "ti_undo_history s" rule: rev_cases)
  case (snoc us u)
  assume i: "ti_inv s"
  then have "snapshot_ok u" using snoc by (simp add: ti_inv_def)
  then show ?thesis using i snoc
    by (simp add: undo_value ti_inv_def snapshot_restore)
qed (simp add: undo_def)

lemma redo_inv: "ti_inv s \<Longrightarrow> ti_inv (snd (redo s))"
proof (cases "ti_redo_history s" rule: rev_cases)
  case (snoc rs r)
  assume i: "ti_inv s"
  then have "snapshot_ok r" using snoc by (simp add: ti_inv_def)
  then show ?thesis using i snoc
    by (simp add: redo_value ti_inv_def snapshot_restore)
qed (simp add: redo_def)

lemma undo_redo_inverse:
  assumes "ti_inv s" and "can_undo s"
  shows "redo (snd (undo s)) = (True, s\<lparr>ti_cycle := None\<rparr>)"
proof -
  obtain us u where h: "ti_undo_history s = us @ [u]" using assms(2) by (metis can_undo_def rev_exhaust)
  have ok: "snapshot_ok u" "snapshot_ok (snapshot s)" using assms(1) h by (simp_all add: ti_inv_def)
  let ?t = "snd (undo s)"
  have t: "?t = restore_snapshot u (s\<lparr>ti_undo_history := us, ti_redo_history := ti_redo_history s @ [snapshot s]\<rparr>)"
    using undo_value[OF assms(1) h] by simp
  have "redo ?t = (True, restore_snapshot (snapshot s)
      (?t\<lparr>ti_undo_history := ti_undo_history ?t @ [snapshot ?t], ti_redo_history := ti_redo_history s\<rparr>))"
    using redo_value[OF undo_inv[OF assms(1)], of "ti_redo_history s" "snapshot s"] t by simp
  moreover have "snapshot ?t = u" using t snapshot_restore[OF ok(1)] by simp
  ultimately show ?thesis
    using restore_own_snapshot[OF ok(2)] h t by simp
qed

lemma redo_undo_inverse:
  assumes "ti_inv s" and "can_redo s"
  shows "undo (snd (redo s)) = (True, s\<lparr>ti_cycle := None\<rparr>)"
proof -
  obtain rs r where h: "ti_redo_history s = rs @ [r]" using assms(2) by (metis can_redo_def rev_exhaust)
  have ok: "snapshot_ok r" "snapshot_ok (snapshot s)" using assms(1) h by (simp_all add: ti_inv_def)
  let ?t = "snd (redo s)"
  have t: "?t = restore_snapshot r (s\<lparr>ti_undo_history := ti_undo_history s @ [snapshot s], ti_redo_history := rs\<rparr>)"
    using redo_value[OF assms(1) h] by simp
  have "undo ?t = (True, restore_snapshot (snapshot s)
      (?t\<lparr>ti_undo_history := ti_undo_history s, ti_redo_history := ti_redo_history ?t @ [snapshot ?t]\<rparr>))"
    using undo_value[OF redo_inv[OF assms(1)], of "ti_undo_history s" "snapshot s"] t by simp
  moreover have "snapshot ?t = r" using t snapshot_restore[OF ok(1)] by simp
  ultimately show ?thesis
    using restore_own_snapshot[OF ok(2)] h t by simp
qed

text \<open>C27: undo and redo are inverse to each other: undoing and then redoing, or redoing and then undoing, gives back the field with its
  text, cursor, selection and both histories (only a completion in progress is forgotten), however full the histories are.\<close>

theorem undo_redo_round_trip:
  assumes "ti_inv s"
  shows "redo (snd (undo s)) = (if can_undo s then (True, s\<lparr>ti_cycle := None\<rparr>) else redo s)
    \<and> undo (snd (redo s)) = (if can_redo s then (True, s\<lparr>ti_cycle := None\<rparr>) else undo s)
    \<and> ti_inv (snd (undo s)) \<and> ti_inv (snd (redo s))"
proof -
  have "\<not> can_undo s \<Longrightarrow> snd (undo s) = s" "\<not> can_redo s \<Longrightarrow> snd (redo s) = s"
    by (simp_all add: can_undo_def can_redo_def undo_def redo_def)
  then show ?thesis
    using undo_redo_inverse[OF assms] redo_undo_inverse[OF assms] undo_inv[OF assms] redo_inv[OF assms] by simp
qed

lemma edited_undo:
  assumes "ti_inv s" and "ti_text (edited s l r) \<noteq> ti_text s"
  shows "\<exists>s''. undo (edited s l r) = (True, s'') \<and> snapshot s'' = snapshot s
    \<and> (length (ti_undo_history s) < history_limit \<longrightarrow> ti_undo_history s'' = ti_undo_history s)
    \<and> redo s'' = (True, (edited s l r)\<lparr>ti_cycle := None\<rparr>)"
proof -
  let ?e = "edited s l r" and ?drop = "if length (ti_undo_history s) = history_limit then drop 1 (ti_undo_history s) else ti_undo_history s"
  have h: "ti_undo_history ?e = ?drop @ [snapshot s]"
    using assms(2) by (auto simp: edited_def record_edit_def push_bounded_def)
  have ok: "snapshot_ok (snapshot s)" using assms(1) by (simp add: ti_inv_def)
  note u = undo_value[OF edited_inv[OF assms(1)] h]
  have "redo (snd (undo ?e)) = (True, ?e\<lparr>ti_cycle := None\<rparr>)"
    using undo_redo_inverse[OF edited_inv[OF assms(1)]] h by (simp add: can_undo_def)
  then show ?thesis using u snapshot_restore[OF ok] by simp
qed

text \<open>C23: every edit that changes the text can be undone: undo restores the text, the cursor and the selection from before the edit,
  and redo brings the edited field back; an edit that leaves the text alone leaves the histories alone.\<close>

theorem edits_undoable:
  assumes "ti_inv s" and "run_edit e s = Some s'"
  shows "if ti_text s' = ti_text s then ti_undo_history s' = ti_undo_history s \<and> ti_redo_history s' = ti_redo_history s
    else \<exists>s''. undo s' = (True, s'') \<and> snapshot s'' = snapshot s
      \<and> (length (ti_undo_history s) < history_limit \<longrightarrow> ti_undo_history s'' = ti_undo_history s)
      \<and> redo s'' = (True, s'\<lparr>ti_cycle := None\<rparr>)"
proof -
  obtain l m r where p: "selection_parts s = (l, m, r)" by (metis prod_cases3)
  have s': "s' = s \<or> s' = edited s (fst (spec_edit e (l, m, r))) (snd (spec_edit e (l, m, r)))"
    using run_edit_value[OF assms(1) p, of e] assms(2) by (auto split: if_splits)
  have hist: "ti_text (edited s a b) = ti_text s \<Longrightarrow> ti_undo_history (edited s a b) = ti_undo_history s
      \<and> ti_redo_history (edited s a b) = ti_redo_history s" for a b
    by (auto simp: edited_def record_edit_def)
  show ?thesis using s' hist edited_undo[OF assms(1)] by (auto simp del: edited_fields)
qed


theorem undo_redo_round_trip_witness:
  "\<exists>s. run_edit (InsertChar 120) (text_input_new [0xE9]) = Some s \<and> can_undo s
     \<and> redo (snd (undo s)) = (True, s\<lparr>ti_cycle := None\<rparr>)"
proof -
  have p: "selection_parts (text_input_new [0xE9]) = ([0xE9], [], [])"
    by (rule selection_parts_plain) (simp_all add: text_input_new_def)
  let ?s = "edited (text_input_new [0xE9]) [0xE9, 120] []"
  have r: "run_edit (InsertChar 120) (text_input_new [0xE9]) = Some ?s"
    using run_edit_value[OF ti_inv_new(1) p, of "InsertChar 120"] by simp
  have u: "can_undo ?s" by (simp add: can_undo_def edited_def record_edit_def text_input_new_def)
  from undo_redo_round_trip[OF edited_inv[OF ti_inv_new(1)], of "[0xE9]" "[0xE9, 120]" "[]"] r u
  show ?thesis by (metis (full_types))
qed

theorem edits_undoable_witness:
  "\<exists>s' s''. run_edit KillToEnd (cursor_home (text_input_new [97, 98])) = Some s' \<and> ti_text s' = []
     \<and> undo s' = (True, s'') \<and> ti_text s'' = [97, 98]"
proof -
  let ?s = "cursor_home (text_input_new [97, 98])"
  have i: "ti_inv ?s" by (simp add: cursor_home_def ti_inv_def snapshot_ok_def text_input_new_def clear_selection_def)
  have p: "selection_parts ?s = ([], [], [97, 98])"
    by (rule selection_parts_plain) (simp_all add: cursor_home_def text_input_new_def clear_selection_def)
  have r: "run_edit KillToEnd ?s = Some (edited ?s [] [])" using run_edit_value[OF i p, of KillToEnd] by simp
  have t: "ti_text ?s = [97, 98]" by (simp add: cursor_home_def text_input_new_def clear_selection_def)
  obtain s'' where "undo (edited ?s [] []) = (True, s'')" "snapshot s'' = snapshot ?s"
    using edits_undoable[OF i r] t by auto
  moreover from this(2) have "ti_text s'' = [97, 98]" using t by (metis snapshot_simps(1))
  ultimately show ?thesis using r by auto
qed

subsection \<open>Cut and paste\<close>

lemma read_after_write: "read_shared_text_clipboard (write_shared_text_clipboard text cb) = text"
  by (auto simp: write_shared_text_clipboard_def write_shared_text_clipboard_with_snapshot_def mirror_host_clipboard_text_def
      clipboard_defs split: option.splits)

lemma copy_selection_value:
  assumes "ti_inv s" and "selection_parts s = (l, m, r)" and "ti_text s \<noteq> []"
  shows "copy_selection s cb = Some (True, write_shared_text_clipboard (if m = [] then ti_text s else m) cb)"
proof -
  have "m = [] \<Longrightarrow> selection_range s = None" "m \<noteq> [] \<Longrightarrow> selection_range s = Some (byte_len l, byte_len l + byte_len m)"
    using selection_parts_value[OF assms(1)] assms(2) by (metis prod.inject)+
  then show ?thesis using selection_parts_text[OF assms(1,2)] assms(3) by (cases "m = []") (simp_all add: copy_selection_def)
qed

lemma cut_selection_value:
  assumes "ti_inv s" and "selection_parts s = (l, m, r)" and "ti_text s \<noteq> []"
  shows "cut_selection s cb = Some (True, if m = [] then edited s [] [] else edited s l r,
    write_shared_text_clipboard (if m = [] then ti_text s else m) cb)"
proof -
  have ch: "m \<noteq> [] \<Longrightarrow> ti_text s \<noteq> l @ r" using selection_parts_text[OF assms(1,2)] by simp
  have clr: "clear_selection (clear_selection x) = clear_selection x" for x by (simp add: clear_selection_def)
  show ?thesis
    using copy_selection_value[OF assms] delete_selection_value[OF assms(1,2)] assms(3) ch
    by (cases "m = []") (simp_all add: cut_selection_def edited_def Let_def clr record_edit_def)
qed

text \<open>cutting and pasting back restores the text, with or without a selection, whatever the state of the clipboard: what was cut is
  what is pasted, also inside a scoped clipboard.\<close>

theorem cut_then_paste:
  assumes "ti_inv s" and "ti_text s \<noteq> []" and "selection_parts s = (l, m, r)"
  shows "\<exists>s1 cb1 s2. cut_selection s cb = Some (True, s1, cb1) \<and> ti_text s1 = (if m = [] then [] else l @ r)
    \<and> paste_clipboard s1 cb1 = Some (True, s2) \<and> ti_text s2 = ti_text s \<and> ti_inv s2"
proof -
  let ?m = "if m = [] then ti_text s else m"
  let ?s1 = "if m = [] then edited s [] [] else edited s l r"
  have i: "ti_inv ?s1" using edited_inv[OF assms(1)] by simp
  have ne: "?m \<noteq> []" using assms(2) by simp
  have p: "selection_parts ?s1 = (if m = [] then ([], [], []) else (l, [], r))" using edited_parts by simp
  have "insert_string ?m ?s1 = Some (edited ?s1 (if m = [] then ti_text s else l @ m) (if m = [] then [] else r))"
    using insert_string_value[OF i, of "if m = [] then [] else l" "[]" "if m = [] then [] else r" ?m] p ne by (cases "m = []") simp_all
  then have "paste_clipboard ?s1 (write_shared_text_clipboard ?m cb)
      = Some (True, edited ?s1 (if m = [] then ti_text s else l @ m) (if m = [] then [] else r))"
    using ne by (simp add: paste_clipboard_def read_after_write)
  moreover have "ti_text s = l @ m @ r" using selection_parts_text[OF assms(1,3)] .
  ultimately show ?thesis
    using cut_selection_value[OF assms(1,3,2), of cb] edited_inv[OF i] by (cases "m = []") auto
qed

theorem cut_then_paste_witness:
  "\<exists>s1 cb1 s2. cut_selection (text_input_new_selected [97, 0x1F600]) clipboard_start = Some (True, s1, cb1) \<and> ti_text s1 = []
     \<and> paste_clipboard s1 cb1 = Some (True, s2) \<and> ti_text s2 = [97, 0x1F600]"
proof -
  let ?s = "text_input_new_selected [97, 0x1F600]"
  have t: "ti_text ?s = [97, 0x1F600]" by (simp add: text_input_new_selected_def)
  have p: "selection_parts ?s = ([], [97, 0x1F600], [])"
    by (simp add: selection_parts_def selection_range_def text_input_new_selected_def)
  from cut_then_paste[OF ti_inv_new(2) _ p, of clipboard_start] show ?thesis using t by auto
qed


subsection \<open>Movements\<close>

datatype movement = CursorLeft | CursorRight | CursorHome | CursorEnd | CursorWordLeft | CursorWordRight
  | ExtendLeft | ExtendRight | ExtendWordLeft | ExtendWordRight | ExtendSegmentLeft | ExtendSegmentRight

fun run_move :: "movement \<Rightarrow> text_input \<Rightarrow> text_input option" where
  "run_move CursorLeft s = Some (cursor_left s)"
| "run_move CursorRight s = Some (cursor_right s)"
| "run_move CursorHome s = Some (cursor_home s)"
| "run_move CursorEnd s = Some (cursor_end s)"
| "run_move CursorWordLeft s = cursor_word_left s"
| "run_move CursorWordRight s = cursor_word_right s"
| "run_move ExtendLeft s = Some (extend_left s)"
| "run_move ExtendRight s = Some (extend_right s)"
| "run_move ExtendWordLeft s = extend_word_left s"
| "run_move ExtendWordRight s = extend_word_right s"
| "run_move ExtendSegmentLeft s = extend_path_segment_left s"
| "run_move ExtendSegmentRight s = extend_path_segment_right s"

fun extends :: "movement \<Rightarrow> bool" where
  "extends CursorLeft = False" | "extends CursorRight = False" | "extends CursorHome = False" | "extends CursorEnd = False"
| "extends CursorWordLeft = False" | "extends CursorWordRight = False"
| "extends _ = True"

text \<open>The characters left of the cursor after the movement, from those left and right of it before.\<close>

fun spec_move :: "movement \<Rightarrow> ustr \<Rightarrow> ustr \<Rightarrow> ustr" where
  "spec_move CursorLeft a b = butlast a"
| "spec_move ExtendLeft a b = butlast a"
| "spec_move CursorRight a b = a @ take 1 b"
| "spec_move ExtendRight a b = a @ take 1 b"
| "spec_move CursorHome a b = []"
| "spec_move CursorEnd a b = a @ b"
| "spec_move CursorWordLeft a b = drop_word_back a"
| "spec_move ExtendWordLeft a b = drop_word_back a"
| "spec_move CursorWordRight a b = a @ take_through is_whitespace b @ takeWhile is_whitespace (drop_through is_whitespace b)"
| "spec_move ExtendWordRight a b = a @ take_through is_whitespace b @ takeWhile is_whitespace (drop_through is_whitespace b)"
| "spec_move ExtendSegmentLeft a b = drop_back (\<lambda>c. \<not> is_path_separator c) (drop_back is_path_separator a)"
| "spec_move ExtendSegmentRight a b
     = a @ take_through is_path_separator b @ takeWhile is_path_separator (drop_through is_path_separator b)"

definition moved :: "bool \<Rightarrow> ustr \<Rightarrow> text_input \<Rightarrow> text_input \<Rightarrow> bool" where
  "moved ext a' s s' \<longleftrightarrow> ti_text s' = ti_text s \<and> ti_cursor s' = byte_len a'
     \<and> ti_anchor s' = (if ext then Some (case ti_anchor s of None \<Rightarrow> ti_cursor s | Some anchor \<Rightarrow> anchor) else None)
     \<and> ti_undo_history s' = ti_undo_history s \<and> ti_redo_history s' = ti_redo_history s"

lemma start_selection_fields [simp]:
  "ti_text (start_selection s) = ti_text s" "ti_cursor (start_selection s) = ti_cursor s"
  "ti_anchor (start_selection s) = Some (case ti_anchor s of None \<Rightarrow> ti_cursor s | Some anchor \<Rightarrow> anchor)"
  "ti_undo_history (start_selection s) = ti_undo_history s" "ti_redo_history (start_selection s) = ti_redo_history s"
  by (simp_all add: start_selection_def split: option.splits)

lemma prev_char_value:
  "ti_text s = a @ b \<Longrightarrow> ti_cursor s = byte_len a \<Longrightarrow>
     prev_char_boundary s = (if a = [] then None else Some (byte_len (butlast a)))"
  by (cases a rule: rev_cases) (simp_all add: prev_char_boundary_def prev_boundary_before_def)

lemma next_char_value:
  "ti_text s = a @ b \<Longrightarrow> ti_cursor s = byte_len a \<Longrightarrow>
     next_char_boundary s = (if b = [] then None else Some (byte_len (a @ take 1 b)))"
  by (cases b) (simp_all add: next_char_boundary_def next_boundary_after_def)

lemma scan_back_value:
  "Option.bind (skip_back P (a @ b) (byte_len a)) (\<lambda>i. Option.bind (skip_back Q (a @ b) i) f)
     = f (byte_len (drop_back Q (drop_back P a)))"
  by (simp add: skip_back_back skip_back_again)

lemma scan_forward_value:
  "Option.bind (skip_through P (a @ b) (byte_len a)) (\<lambda>i. Option.bind (skip_forward Q (a @ b) i) f)
     = f (byte_len (a @ take_through P b @ takeWhile Q (drop_through P b)))"
  by (simp add: skip_through_value skip_forward_after_through add.assoc)

lemmas scan_values = scan_back_value scan_forward_value

lemma run_move_value:
  assumes "ti_text s = a @ b" and "ti_cursor s = byte_len a"
  shows "\<exists>s'. run_move mv s = Some s' \<and> moved (extends mv) (spec_move mv a b) s s'"
proof (cases "a = [] \<or> b = []")
  case True
  have "drop_back P [] = []" "drop_through P [] = []" for P by (simp_all add: drop_back_def drop_through_def)
  then show ?thesis using True assms
    by (cases mv) (auto simp: moved_def cursor_left_def cursor_right_def cursor_home_def cursor_end_def cursor_word_left_def
        cursor_word_right_def move_word_left_def move_word_right_def extend_left_def extend_right_def extend_word_left_def
        extend_word_right_def extend_path_segment_left_def extend_path_segment_right_def move_path_segment_left_def
        move_path_segment_right_def prev_char_value[of _ a b] next_char_value[of _ a b] scan_values drop_word_back_def Let_def
        scan_back_value[of _ _ "[]", simplified] scan_forward_value[of _ "[]", simplified])
next
  case False
  then show ?thesis using assms
    by (cases mv) (simp_all add: moved_def cursor_left_def cursor_right_def cursor_home_def cursor_end_def cursor_word_left_def
        cursor_word_right_def move_word_left_def move_word_right_def extend_left_def extend_right_def extend_word_left_def
        extend_word_right_def extend_path_segment_left_def extend_path_segment_right_def move_path_segment_left_def
        move_path_segment_right_def prev_char_value[of _ a b] next_char_value[of _ a b] scan_values drop_word_back_def Let_def)
qed


lemma spec_move_prefix: "\<exists>b'. a @ b = spec_move mv a b @ b'"
proof -
  have backward: "\<exists>u. a @ b = drop_back Q (drop_back P a) @ u" for P Q
    using drop_back_prefix[of a P] drop_back_prefix[of "drop_back P a" Q] by (metis append_assoc)
  have forward: "\<exists>u. a @ b = (a @ take_through P b @ takeWhile Q (drop_through P b)) @ u" for P Q
    using take_drop_through[of P b] takeWhile_dropWhile_id[of Q "drop_through P b"] by (metis append_assoc)
  have one: "\<exists>u. a @ b = butlast a @ u" by (cases a rule: rev_cases) auto
  have one_right: "\<exists>u. a @ b = (a @ take 1 b) @ u" by (metis append_assoc append_take_drop_id)
  show ?thesis
    using backward forward one one_right by (cases mv) (auto simp: drop_word_back_def)
qed

lemma moved_inv:
  assumes "ti_inv s" and "moved ext a' s s'" and "ti_text s = a' @ b'"
  shows "ti_inv s'"
proof -
  have "snapshot_ok (snapshot s')"
    using assms(2,3) ti_invD[OF assms(1)]
    by (cases "ti_anchor s") (auto simp: moved_def snapshot_ok_def)
  then show ?thesis using assms(1,2) by (intro ti_inv_same_history[OF assms(1)]) (simp_all add: moved_def)
qed

definition cursor_split :: "text_input \<Rightarrow> ustr \<times> ustr" where
  "cursor_split s = the (split_at_byte (ti_text s) (ti_cursor s))"

lemma cursor_split_value:
  assumes "ti_inv s" and "cursor_split s = (a, b)"
  shows "ti_text s = a @ b" and "ti_cursor s = byte_len a"
proof -
  obtain a' b' where "split_at_byte (ti_text s) (ti_cursor s) = Some (a', b')"
    using ti_invD(1)[OF assms(1)] by (auto simp: is_char_boundary_def)
  then show "ti_text s = a @ b" "ti_cursor s = byte_len a" using assms(2) by (auto simp: cursor_split_def split_at_byte_Some)
qed

text \<open>refinement of the movements: from every valid field every movement returns, leaves the text and the histories alone, puts the
  cursor where the specification on characters says, always between two characters, keeps the invariant, and either clears
  the anchor or, when it extends, keeps it (starting it at the old cursor).\<close>

theorem moves_refine:
  assumes "ti_inv s" and "cursor_split s = (a, b)"
  shows "\<exists>s' b'. run_move mv s = Some s' \<and> ti_inv s' \<and> ti_text s' = ti_text s \<and> cursor_split s' = (spec_move mv a b, b')
    \<and> ti_anchor s' = (if extends mv then Some (case ti_anchor s of None \<Rightarrow> ti_cursor s | Some anchor \<Rightarrow> anchor) else None)
    \<and> ti_undo_history s' = ti_undo_history s \<and> ti_redo_history s' = ti_redo_history s"
proof -
  note v = cursor_split_value[OF assms]
  obtain s' where r: "run_move mv s = Some s'" and m: "moved (extends mv) (spec_move mv a b) s s'"
    using run_move_value[OF v] by blast
  obtain b' where b': "a @ b = spec_move mv a b @ b'" using spec_move_prefix by blast
  have "ti_inv s'" using moved_inv[OF assms(1) m] b' v(1) by simp
  moreover have "cursor_split s' = (spec_move mv a b, b')"
    using m b' v(1) by (simp add: cursor_split_def moved_def)
  ultimately show ?thesis using r m by (auto simp: moved_def)
qed

theorem moves_refine_witness:
  "\<exists>s' b'. run_move ExtendWordLeft (text_input_new [97, 32, 0x65E5, 32]) = Some s' \<and> cursor_split s' = ([97, 32], b')
     \<and> ti_anchor s' = Some 6"
proof -
  let ?s = "text_input_new [97, 32, 0x65E5, 32]"
  have c: "cursor_split ?s = ([97, 32, 0x65E5, 32], [])" by (simp add: cursor_split_def text_input_new_def del: split_at_byte.simps byte_len_simps(2))
  have "spec_move ExtendWordLeft [97, 32, 0x65E5, 32] [] = [97, 32]"
    by (simp add: drop_word_back_def drop_back_def is_whitespace_def)
  moreover have "ti_anchor ?s = None" "ti_cursor ?s = 6" by (simp_all add: text_input_new_def len_utf8_def)
  ultimately show ?thesis using moves_refine[OF ti_inv_new(1) c, of ExtendWordLeft] by auto
qed

text \<open>extending by a word after selecting everything: \<open>extend_word_left\<close> moves the cursor but leaves \<open>select_all\<close> set, so the
  selection stays the whole text, while \<open>extend_path_segment_left\<close> (and \<open>extend_left\<close>) shrink it to the part before the cursor.\<close>

theorem extend_word_keeps_select_all:
  "(\<exists>s'. extend_word_left (select_all_text (text_input_new t)) = Some s'
      \<and> ti_cursor s' = byte_len (drop_word_back t) \<and> ti_anchor s' = Some 0
      \<and> selection_range s' = (if t = [] then None else Some (0, byte_len t)))
   \<and> (\<exists>s'. extend_path_segment_left (select_all_text (text_input_new t)) = Some s'
      \<and> selection_range s' = (if ti_cursor s' = 0 then None else Some (0, ti_cursor s')))"
proof (cases "t = []")
  case True
  then show ?thesis
    by (simp add: extend_word_left_def extend_path_segment_left_def move_word_left_def move_path_segment_left_def
        select_all_text_def text_input_new_def start_selection_def selection_range_def drop_word_back_def drop_back_def)
next
  case False
  let ?s = "select_all_text (text_input_new t)"
  have v: "ti_text ?s = t @ []" "ti_cursor ?s = byte_len t" "ti_anchor ?s = Some 0" "ti_select_all ?s"
    by (simp_all add: select_all_text_def text_input_new_def)
  have w: "extend_word_left ?s = Some (?s\<lparr>ti_cursor := byte_len (drop_word_back t)\<rparr>)"
    using False v scan_back_value[of is_whitespace t "[]" "\<lambda>c. \<not> is_whitespace c"]
    by (simp add: extend_word_left_def move_word_left_def start_selection_def drop_word_back_def Let_def)
  have p: "extend_path_segment_left ?s
      = Some (?s\<lparr>ti_cursor := byte_len (drop_back (\<lambda>c. \<not> is_path_separator c) (drop_back is_path_separator t)), ti_select_all := False\<rparr>)"
    using False v scan_back_value[of is_path_separator t "[]" "\<lambda>c. \<not> is_path_separator c"]
    by (simp add: extend_path_segment_left_def move_path_segment_left_def start_selection_def Let_def)
  have "is_char_boundary t (byte_len (drop_back Q (drop_back P t)))" for P Q
    using drop_back_prefix[of t P] drop_back_prefix[of "drop_back P t" Q] by (metis append_assoc boundary_append)
  then show ?thesis using v False unfolding w p by (simp add: selection_range_def)
qed

end
