(* ===== verification/TextView.thy ===== *)
theory TextView
  imports TextInputHistory
begin

text \<open>
  The visible part of the text field and the mouse: \<open>view_range\<close>, \<open>view\<close>, \<open>byte_index_for_view_column\<close> and the mouse
  operations of \<open>src/crates/tui-file-picker/src/text_input.rs\<close>. The terminal width of a character (\<open>cw\<close>) and of a string
  (\<open>sw\<close>) come from the crate \<open>unicode-width\<close> through \<open>display_width.rs\<close>, so they are parameters; nothing is assumed of them.
\<close>

subsection \<open>Definitions\<close>

definition saturating_add64 :: "nat \<Rightarrow> nat \<Rightarrow> nat" where
  "saturating_add64 a b = min (a + b) (2 ^ 64 - 1)"

definition saturating_mul64 :: "nat \<Rightarrow> nat \<Rightarrow> nat" where
  "saturating_mul64 a b = min (a * b) (2 ^ 64 - 1)"

fun char_indices_from :: "nat \<Rightarrow> ustr \<Rightarrow> (nat \<times> uchar) list" where
  "char_indices_from k [] = []"
| "char_indices_from k (c # t) = (k, c) # char_indices_from (k + len_utf8 c) t"

definition cursor_display_col :: "(ustr \<Rightarrow> nat) \<Rightarrow> text_input \<Rightarrow> nat option" where
  "cursor_display_col sw s = map_option sw (str_slice (ti_text s) 0 (ti_cursor s))"

text \<open>The scan for the left edge: the first glyph that reaches past the desired column, unless showing it would push the cursor at
  the end of the text out of the field; \<open>(candidate, candidate_col)\<close> start at the cursor.\<close>

fun find_view_start ::
  "(uchar \<Rightarrow> nat) \<Rightarrow> nat \<Rightarrow> nat \<Rightarrow> bool \<Rightarrow> nat \<times> nat \<Rightarrow> nat \<Rightarrow> (nat \<times> uchar) list \<Rightarrow> nat \<Rightarrow> nat \<times> nat" where
  "find_view_start cw width desired_start at_end candidate cursor_col [] col = candidate"
| "find_view_start cw width desired_start at_end candidate cursor_col ((byte, ch) # rest) col =
     (let cell_width = cw ch in
      if 0 < cell_width \<and> saturating_add64 col cell_width > desired_start \<and> (\<not> at_end \<or> cursor_col - col < width)
      then (byte, col)
      else find_view_start cw width desired_start at_end candidate cursor_col rest (saturating_add64 col cell_width))"

fun visible_end :: "(uchar \<Rightarrow> nat) \<Rightarrow> nat \<Rightarrow> (nat \<times> uchar) list \<Rightarrow> nat \<Rightarrow> nat \<Rightarrow> nat" where
  "visible_end cw width [] used end_byte = end_byte"
| "visible_end cw width ((byte, ch) # rest) used end_byte =
     (if saturating_add64 used (cw ch) > width then end_byte
      else visible_end cw width rest (saturating_add64 used (cw ch)) (byte + len_utf8 ch))"

definition view_start :: "(uchar \<Rightarrow> nat) \<Rightarrow> nat \<Rightarrow> nat \<Rightarrow> text_input \<Rightarrow> nat \<times> nat" where
  "view_start cw width cursor_col s =
     (let desired_start = cursor_col - (width - 1) in
      if desired_start > 0
      then let (candidate, candidate_col) = find_view_start cw width desired_start
             (ti_cursor s = byte_len (ti_text s)) (ti_cursor s, cursor_col) cursor_col (char_indices_from 0 (ti_text s)) 0
           in (min candidate (ti_cursor s), min candidate_col cursor_col)
      else (0, 0))"

definition view_range :: "(uchar \<Rightarrow> nat) \<Rightarrow> (ustr \<Rightarrow> nat) \<Rightarrow> nat \<Rightarrow> text_input \<Rightarrow> ((nat \<times> nat) \<times> u16) option" where
  "view_range cw sw width s =
     (if width = 0 then Some ((0, 0), 0)
      else
        Option.bind (cursor_display_col sw s) (\<lambda>cursor_col.
          let (start_byte, start_col) = view_start cw width cursor_col s
          in Option.bind (str_slice (ti_text s) start_byte (byte_len (ti_text s))) (\<lambda>shown.
               Some ((start_byte, visible_end cw width (char_indices_from start_byte shown) 0 start_byte),
                     of_nat (min (cursor_col - start_col) width)))))"

definition view :: "(uchar \<Rightarrow> nat) \<Rightarrow> (ustr \<Rightarrow> nat) \<Rightarrow> nat \<Rightarrow> text_input \<Rightarrow> (ustr \<times> u16) option" where
  "view cw sw width s =
     Option.bind (view_range cw sw width s) (\<lambda>((start, end), cursor_col).
       map_option (\<lambda>visible. (visible, cursor_col)) (str_slice (ti_text s) start end))"

fun locate_column :: "(uchar \<Rightarrow> nat) \<Rightarrow> nat \<Rightarrow> nat \<Rightarrow> (nat \<times> uchar) list \<Rightarrow> nat \<Rightarrow> nat \<Rightarrow> nat" where
  "locate_column cw target range_end [] display_col last_boundary = min last_boundary range_end"
| "locate_column cw target range_end ((byte, ch) # rest) display_col last_boundary =
     (let after = byte + len_utf8 ch; cell_width = cw ch in
      if cell_width = 0 then locate_column cw target range_end rest display_col after
      else if target \<le> display_col then byte
      else
        let cell_end = saturating_add64 display_col cell_width in
        if target < cell_end
        then (if saturating_mul64 (target - display_col) 2 < cell_width then byte else after)
        else locate_column cw target range_end rest cell_end after)"

definition byte_index_for_view_column :: "(uchar \<Rightarrow> nat) \<Rightarrow> (ustr \<Rightarrow> nat) \<Rightarrow> nat \<Rightarrow> nat \<Rightarrow> text_input \<Rightarrow> nat option" where
  "byte_index_for_view_column cw sw width column s =
     (if width = 0 then Some (min (ti_cursor s) (byte_len (ti_text s)))
      else
        Option.bind (view_range cw sw width s) (\<lambda>((start, end), _).
        Option.bind (str_slice (ti_text s) start end) (\<lambda>shown.
          Some (locate_column cw (min column width) end (char_indices_from start shown) 0 start))))"

definition place_cursor_from_view_column :: "(uchar \<Rightarrow> nat) \<Rightarrow> (ustr \<Rightarrow> nat) \<Rightarrow> nat \<Rightarrow> nat \<Rightarrow> text_input \<Rightarrow> text_input option" where
  "place_cursor_from_view_column cw sw width column s =
     map_option (\<lambda>cursor. clear_selection (s\<lparr>ti_cursor := cursor\<rparr>)) (byte_index_for_view_column cw sw width column s)"

definition begin_mouse_selection :: "(uchar \<Rightarrow> nat) \<Rightarrow> (ustr \<Rightarrow> nat) \<Rightarrow> nat \<Rightarrow> nat \<Rightarrow> text_input \<Rightarrow> text_input option" where
  "begin_mouse_selection cw sw width column s =
     map_option (\<lambda>cursor. s\<lparr>ti_cursor := cursor, ti_select_all := False, ti_anchor := Some cursor\<rparr>)
       (byte_index_for_view_column cw sw width column s)"

definition drag_mouse_selection :: "(uchar \<Rightarrow> nat) \<Rightarrow> (ustr \<Rightarrow> nat) \<Rightarrow> nat \<Rightarrow> nat \<Rightarrow> text_input \<Rightarrow> text_input option" where
  "drag_mouse_selection cw sw width column s =
     (let anchor = (case ti_anchor s of Some anchor \<Rightarrow> anchor | None \<Rightarrow> ti_cursor s) in
      map_option (\<lambda>cursor. s\<lparr>ti_cursor := cursor, ti_select_all := False, ti_anchor := Some anchor\<rparr>)
        (byte_index_for_view_column cw sw width column s))"

definition end_mouse_selection :: "text_input \<Rightarrow> text_input" where
  "end_mouse_selection s =
     (if ti_anchor s = Some (ti_cursor s) then s\<lparr>ti_anchor := None, ti_select_all := False\<rparr> else s\<lparr>ti_select_all := False\<rparr>)"

subsection \<open>The loops stay on boundaries\<close>

lemma find_view_start_boundary:
  assumes "is_char_boundary (a @ b) (fst candidate)"
  shows "is_char_boundary (a @ b)
    (fst (find_view_start cw width desired at_end candidate cursor_col (char_indices_from (byte_len a) b) col))"
  using assms
proof (induction b arbitrary: a col)
  case (Cons c b)
  have "is_char_boundary (a @ c # b) (byte_len a)" by simp
  then show ?case using Cons.IH[of "a @ [c]"] Cons.prems by (simp add: Let_def)
qed simp

lemma visible_end_value:
  assumes "used \<le> width" and "width < 2 ^ 64 - 1"
  shows "\<exists>p q. b = p @ q \<and> visible_end cw width (char_indices_from (byte_len a) b) used (byte_len a) = byte_len (a @ p)
    \<and> used + sum_list (map cw p) \<le> width"
  using assms(1)
proof (induction b arbitrary: a used)
  case (Cons c b)
  show ?case
  proof (cases "saturating_add64 used (cw c) > width")
    case True
    then show ?thesis using Cons.prems by (intro exI[of _ "[]"] exI[of _ "c # b"]) simp
  next
    case False
    then have le: "used + cw c \<le> width" and sat: "saturating_add64 used (cw c) = used + cw c"
      using assms(2) by (auto simp: saturating_add64_def min_def split: if_splits)
    obtain p q where "b = p @ q" "visible_end cw width (char_indices_from (byte_len (a @ [c])) b) (used + cw c) (byte_len (a @ [c]))
        = byte_len ((a @ [c]) @ p)" "used + cw c + sum_list (map cw p) \<le> width"
      using Cons.IH[OF le, of "a @ [c]"] by blast
    then show ?thesis using False sat by (intro exI[of _ "c # p"] exI[of _ q]) (simp add: add.assoc)
  qed
qed simp

lemma locate_column_value:
  assumes "last_boundary \<le> byte_len a" and "is_char_boundary (a @ b @ r) last_boundary" and "low \<le> last_boundary"
  shows "is_char_boundary (a @ b @ r) (locate_column cw target (byte_len (a @ b)) (char_indices_from (byte_len a) b) col last_boundary)
    \<and> low \<le> locate_column cw target (byte_len (a @ b)) (char_indices_from (byte_len a) b) col last_boundary
    \<and> locate_column cw target (byte_len (a @ b)) (char_indices_from (byte_len a) b) col last_boundary \<le> byte_len (a @ b)"
  using assms
proof (induction b arbitrary: a col last_boundary)
  case (Cons c b)
  have bd: "is_char_boundary (a @ c # b @ r) (byte_len a + len_utf8 c)" "is_char_boundary (a @ c # b @ r) (byte_len a)"
    using boundary_append[of "a @ [c]" "b @ r"] by simp_all
  have low: "low \<le> byte_len a" using Cons.prems by simp
  have "is_char_boundary (a @ c # b @ r) (locate_column cw target (byte_len a + (len_utf8 c + byte_len b))
        (char_indices_from (byte_len a + len_utf8 c) b) col' (byte_len a + len_utf8 c))
    \<and> low \<le> locate_column cw target (byte_len a + (len_utf8 c + byte_len b))
        (char_indices_from (byte_len a + len_utf8 c) b) col' (byte_len a + len_utf8 c)
    \<and> locate_column cw target (byte_len a + (len_utf8 c + byte_len b))
        (char_indices_from (byte_len a + len_utf8 c) b) col' (byte_len a + len_utf8 c) \<le> byte_len a + (len_utf8 c + byte_len b)" for col'
    using Cons.IH[of "byte_len a + len_utf8 c" "a @ [c]" col'] bd low by (simp add: add.assoc)
  then show ?case using bd low by (simp add: Let_def)
qed (auto simp: min_def)

subsection \<open>The view\<close>

lemma cursor_col_value:
  assumes "ti_inv s"
  obtains a b where "ti_text s = a @ b" and "ti_cursor s = byte_len a" and "cursor_display_col sw s = Some (sw a)"
proof -
  obtain a b where "ti_text s = a @ b" "ti_cursor s = byte_len a" using ti_invD(1)[OF assms] by (auto simp: boundary_split)
  then show thesis using that[of a b] str_slice_value[of "[]" a b] by (simp add: cursor_display_col_def)
qed

lemma view_range_value:
  assumes "ti_inv s" and "0 < width" and "width < 2 ^ 16"
  shows "\<exists>l m r col. ti_text s = l @ m @ r \<and> view_range cw sw width s = Some ((byte_len l, byte_len l + byte_len m), of_nat col)
    \<and> byte_len l \<le> ti_cursor s \<and> sum_list (map cw m) \<le> width \<and> col \<le> width"
proof -
  obtain a b where t: "ti_text s = a @ b" "ti_cursor s = byte_len a" and c: "cursor_display_col sw s = Some (sw a)"
    using cursor_col_value[OF assms(1)] by blast
  obtain start scol where st: "view_start cw width (sw a) s = (start, scol)" by fastforce
  have "is_char_boundary (ti_text s) (fst (find_view_start cw width (sw a - (width - 1)) (ti_cursor s = byte_len (ti_text s))
      (ti_cursor s, sw a) (sw a) (char_indices_from 0 (ti_text s)) 0))"
    using find_view_start_boundary[of "[]" "ti_text s" "(ti_cursor s, sw a)"] t by simp
  then have "is_char_boundary (ti_text s) start \<and> start \<le> ti_cursor s"
    using st ti_invD(1)[OF assms(1)] by (auto simp: view_start_def Let_def min_def case_prod_beta split: if_splits)
  then obtain l rest where l: "ti_text s = l @ rest" "start = byte_len l" by (auto simp: boundary_split)
  have w: "width < 2 ^ 64 - 1" using assms(3) by simp
  obtain m r where m: "rest = m @ r" "visible_end cw width (char_indices_from start rest) 0 start = byte_len (l @ m)"
    "sum_list (map cw m) \<le> width"
    using visible_end_value[OF _ w, of 0 rest cw l] l(2) by auto
  have shown: "str_slice (ti_text s) start (byte_len (ti_text s)) = Some rest"
    using str_slice_value[of l rest "[]"] l by simp
  have "view_range cw sw width s = Some ((byte_len l, byte_len l + byte_len m), of_nat (min (sw a - scol) width))"
    using assms(2) c shown st m(2) l(2) by (simp add: view_range_def)
  moreover have "byte_len l \<le> ti_cursor s" using \<open>is_char_boundary (ti_text s) start \<and> start \<le> ti_cursor s\<close> l(2) by simp
  ultimately show ?thesis using l(1) m(1,3) by (intro exI[of _ l] exI[of _ m] exI[of _ r] exI[of _ "min (sw a - scol) width"]) simp
qed

lemma byte_index_value:
  assumes "ti_inv s" and "width < 2 ^ 16"
  shows "\<exists>i. byte_index_for_view_column cw sw width column s = Some i \<and> is_char_boundary (ti_text s) i"
proof (cases "width = 0")
  case True
  then show ?thesis using ti_invD(1)[OF assms(1)] boundary_le by (simp add: byte_index_for_view_column_def min_absorb1)
next
  case False
  then obtain l m r col where v: "ti_text s = l @ m @ r"
    "view_range cw sw width s = Some ((byte_len l, byte_len l + byte_len m), of_nat col)"
    using view_range_value[OF assms(1) _ assms(2), of cw sw] by auto
  then show ?thesis
    using False locate_column_value[of "byte_len l" l m r "byte_len l" cw "min column width" 0]
    by (simp add: byte_index_for_view_column_def)
qed

text \<open>the view of a valid field, for every width below 2^16 and all character widths: it is a slice between two character
  boundaries, its glyphs fit the field, it starts no later than the cursor, the cursor column is at most the width, and
  every mouse column (inside the field or beyond) maps to a boundary of the visible slice.\<close>

theorem view_bounds:
  assumes "ti_inv s" and "0 < width" and "width < 2 ^ 16"
  shows "\<exists>l m r col. ti_text s = l @ m @ r \<and> view_range cw sw width s = Some ((byte_len l, byte_len l + byte_len m), col)
    \<and> view cw sw width s = Some (m, col) \<and> byte_len l \<le> ti_cursor s \<and> sum_list (map cw m) \<le> width \<and> unat col \<le> width
    \<and> (\<exists>i. byte_index_for_view_column cw sw width column s = Some i \<and> is_char_boundary (ti_text s) i
         \<and> byte_len l \<le> i \<and> i \<le> byte_len l + byte_len m)"
proof -
  obtain l m r col where v: "ti_text s = l @ m @ r"
    "view_range cw sw width s = Some ((byte_len l, byte_len l + byte_len m), of_nat col)"
    "byte_len l \<le> ti_cursor s" "sum_list (map cw m) \<le> width" "col \<le> width"
    using view_range_value[OF assms, of cw sw] by blast
  have "unat (of_nat col :: u16) \<le> width" using v(5) assms(3) by (simp add: unat_of_nat)
  moreover have "view cw sw width s = Some (m, of_nat col)" using v(1,2) by (simp add: view_def)
  moreover have "\<exists>i. byte_index_for_view_column cw sw width column s = Some i \<and> is_char_boundary (ti_text s) i
      \<and> byte_len l \<le> i \<and> i \<le> byte_len l + byte_len m"
    using assms(2) v(1,2) locate_column_value[of "byte_len l" l m r "byte_len l" cw "min column width" 0]
    by (simp add: byte_index_for_view_column_def)
  ultimately show ?thesis using v by blast
qed


theorem view_bounds_witness:
  "\<exists>l m r col. view_range (\<lambda>c. if c < 0x1100 then 1 else 2) (\<lambda>t. sum_list (map (\<lambda>c. if c < 0x1100 then 1 else 2) t)) 4
        (text_input_new [97, 0x65E5, 0x672C, 122]) = Some ((byte_len l, byte_len l + byte_len m), col)
     \<and> [97, 0x65E5, 0x672C, 122] = l @ m @ r \<and> unat col \<le> 4"
  using view_bounds[OF ti_inv_new(1), of 4 "[97, 0x65E5, 0x672C, 122]" "\<lambda>c. if c < 0x1100 then 1 else 2"
      "\<lambda>t. sum_list (map (\<lambda>c. if c < 0x1100 then 1 else 2) t)" 0]
  by (auto simp: text_input_new_def)

text \<open>the cursor can leave the view: in a field of width 3 showing a double-width character and three narrow ones, with the
  cursor before the third character, the view starts with the wide character (its second cell is the left edge), ends
  where the cursor is, and reports cursor column 3, one past the last column 2.\<close>

theorem cursor_past_the_view:
  "view_range (\<lambda>c. if c = 0x65E5 then 2 else 1) (\<lambda>t. sum_list (map (\<lambda>c. if c = 0x65E5 then 2 else 1) t)) 3
     ((text_input_new [0x65E5, 98, 99, 100])\<lparr>ti_cursor := 4\<rparr>) = Some ((0, 4), 3)"
  by (simp add: view_range_def view_start_def cursor_display_col_def str_slice_def text_input_new_def len_utf8_def saturating_add64_def)

subsection \<open>The mouse\<close>

lemma mouse_inv:
  assumes "ti_inv s" and "width < 2 ^ 16"
  shows "\<exists>s'. place_cursor_from_view_column cw sw width column s = Some s' \<and> ti_inv s'"
    and "\<exists>s'. begin_mouse_selection cw sw width column s = Some s' \<and> ti_inv s'"
    and "\<exists>s'. drag_mouse_selection cw sw width column s = Some s' \<and> ti_inv s'"
    and "ti_inv (end_mouse_selection s)"
proof -
  obtain i where i: "byte_index_for_view_column cw sw width column s = Some i" "is_char_boundary (ti_text s) i"
    using byte_index_value[OF assms, of cw sw column] by blast
  note b = ti_invD[OF assms(1)]
  show "\<exists>s'. place_cursor_from_view_column cw sw width column s = Some s' \<and> ti_inv s'"
    using i by (auto simp: place_cursor_from_view_column_def snapshot_ok_def intro!: ti_inv_same_history[OF assms(1)])
  show "\<exists>s'. begin_mouse_selection cw sw width column s = Some s' \<and> ti_inv s'"
    using i by (auto simp: begin_mouse_selection_def snapshot_ok_def intro!: ti_inv_same_history[OF assms(1)])
  show "\<exists>s'. drag_mouse_selection cw sw width column s = Some s' \<and> ti_inv s'"
    using i b by (auto simp: drag_mouse_selection_def snapshot_ok_def Let_def split: option.splits
        intro!: ti_inv_same_history[OF assms(1)])
  show "ti_inv (end_mouse_selection s)"
    using b by (auto simp: end_mouse_selection_def snapshot_ok_def split: option.splits intro!: ti_inv_same_history[OF assms(1)])
qed

end
