(* ===== verification/TextInputKeys.thy ===== *)
theory TextInputKeys
  imports TextView
begin

text \<open>
  The key handler of the text field, \<open>handle_text_input_key_with_boundaries\<close> of
  \<open>src/crates/tui-file-picker/src/text_input.rs\<close>, and the operations the rest of the program calls. A key event is the key and
  the three modifiers the code asks for; the keys it does not name are \<open>KeyOther\<close>. The handler acts on the field and on the
  clipboard and answers whether it consumed the key.
\<close>

subsection \<open>Keys\<close>

datatype key_code = KeyChar uchar | KeyBackspace | KeyDelete | KeyLeft | KeyRight | KeyHome | KeyEnd | KeyOther

record key_event =
  ke_code :: key_code
  ke_ctrl :: bool
  ke_alt :: bool
  ke_shift :: bool

datatype text_boundary_mode = Word | PathSegment

text \<open>\<open>eq_ignore_ascii_case\<close> against a lower-case letter, and \<open>to_ascii_lowercase\<close>.\<close>

definition is_letter :: "uchar \<Rightarrow> uchar \<Rightarrow> bool" where
  "is_letter letter c \<longleftrightarrow> c = letter \<or> c + 32 = letter"

definition to_ascii_lowercase :: "uchar \<Rightarrow> uchar" where
  "to_ascii_lowercase c = (if 65 \<le> c \<and> c \<le> 90 then c + 32 else c)"

type_synonym key_result = "(bool \<times> text_input \<times> clipboard) option"

definition consumed :: "clipboard \<Rightarrow> text_input option \<Rightarrow> key_result" where
  "consumed cb m = map_option (\<lambda>s. (True, s, cb)) m"

definition not_consumed :: "text_input \<Rightarrow> clipboard \<Rightarrow> key_result" where
  "not_consumed s cb = Some (False, s, cb)"

definition extend_home :: "text_input \<Rightarrow> text_input" where
  "extend_home s = (start_selection s)\<lparr>ti_cursor := 0, ti_select_all := False\<rparr>"

definition extend_end :: "text_input \<Rightarrow> text_input" where
  "extend_end s = (start_selection s)\<lparr>ti_cursor := byte_len (ti_text s), ti_select_all := False\<rparr>"

definition home_key :: "bool \<Rightarrow> text_input \<Rightarrow> text_input" where
  "home_key shift s = (if shift then extend_home s else cursor_home s)"

definition end_key :: "bool \<Rightarrow> text_input \<Rightarrow> text_input" where
  "end_key shift s = (if shift then extend_end s else cursor_end s)"

text \<open>The arm \<open>(true, false, _, KeyCode::Char(c))\<close> at the end of the character arms: the readline bindings.\<close>

definition readline_key :: "uchar \<Rightarrow> text_input \<Rightarrow> clipboard \<Rightarrow> key_result" where
  "readline_key c s cb =
     (let k = to_ascii_lowercase c in
      if k = 101 then consumed cb (Some (cursor_end s))
      else if k = 98 then consumed cb (Some (cursor_left s))
      else if k = 102 then consumed cb (Some (cursor_right s))
      else if k = 104 then consumed cb (delete_word_back s)
      else if k = 100 then consumed cb (delete_char s)
      else if k = 119 then consumed cb (delete_word_back s)
      else if k = 117 then consumed cb (kill_to_start s)
      else if k = 107 then consumed cb (kill_to_end s)
      else not_consumed s cb)"

definition ctrl_char_key :: "bool \<Rightarrow> uchar \<Rightarrow> text_input \<Rightarrow> clipboard \<Rightarrow> key_result" where
  "ctrl_char_key shift c s cb =
     (if is_letter 97 c then consumed cb (Some (select_all_text s))
      else if c = 47 \<or> c = 95 then consumed cb (Some (clear_selection s))
      else if shift \<and> is_letter 122 c then consumed cb (Some (snd (redo s)))
      else if is_letter 122 c then consumed cb (Some (snd (undo s)))
      else if is_letter 121 c then consumed cb (Some (snd (redo s)))
      else if shift \<and> is_letter 118 c then not_consumed s cb
      else if is_letter 99 c then map_option (\<lambda>(copied, cb). (copied, s, cb)) (copy_selection s cb)
      else if is_letter 120 c then cut_selection s cb
      else if is_letter 118 c then map_option (\<lambda>(pasted, s). (pasted, s, cb)) (paste_clipboard s cb)
      else if \<not> shift \<and> is_letter 112 c then consumed cb (Some s)
      else readline_key c s cb)"

definition ctrl_key :: "text_boundary_mode \<Rightarrow> bool \<Rightarrow> key_code \<Rightarrow> text_input \<Rightarrow> clipboard \<Rightarrow> key_result" where
  "ctrl_key mode shift code s cb =
     (case code of
        KeyChar c \<Rightarrow> ctrl_char_key shift c s cb
      | KeyLeft \<Rightarrow> consumed cb (if \<not> shift then cursor_word_left s
          else case mode of Word \<Rightarrow> extend_word_left s | PathSegment \<Rightarrow> extend_path_segment_left s)
      | KeyRight \<Rightarrow> consumed cb (if \<not> shift then cursor_word_right s
          else case mode of Word \<Rightarrow> extend_word_right s | PathSegment \<Rightarrow> extend_path_segment_right s)
      | KeyHome \<Rightarrow> consumed cb (Some (home_key shift s))
      | KeyEnd \<Rightarrow> consumed cb (Some (end_key shift s))
      | KeyBackspace \<Rightarrow> consumed cb (delete_word_back s)
      | KeyDelete \<Rightarrow> consumed cb (delete_word_forward s)
      | KeyOther \<Rightarrow> not_consumed s cb)"

definition alt_key :: "key_code \<Rightarrow> text_input \<Rightarrow> clipboard \<Rightarrow> key_result" where
  "alt_key code s cb =
     (case code of
        KeyChar c \<Rightarrow>
          if is_letter 108 c then consumed cb (Some (select_all_text s))
          else if is_letter 122 c then consumed cb (Some (snd (undo s)))
          else if is_letter 121 c then consumed cb (Some (snd (redo s)))
          else if is_letter 100 c then consumed cb (delete_word_forward s)
          else not_consumed s cb
      | KeyBackspace \<Rightarrow> consumed cb (delete_word_back s)
      | _ \<Rightarrow> not_consumed s cb)"

definition plain_key :: "bool \<Rightarrow> key_code \<Rightarrow> text_input \<Rightarrow> clipboard \<Rightarrow> key_result" where
  "plain_key shift code s cb =
     (case code of
        KeyChar c \<Rightarrow> consumed cb (insert_char c s)
      | KeyBackspace \<Rightarrow> consumed cb (backspace s)
      | KeyDelete \<Rightarrow> consumed cb (delete_char s)
      | KeyLeft \<Rightarrow> consumed cb (Some (if shift then extend_left s else cursor_left s))
      | KeyRight \<Rightarrow> consumed cb (Some (if shift then extend_right s else cursor_right s))
      | KeyHome \<Rightarrow> consumed cb (Some (home_key shift s))
      | KeyEnd \<Rightarrow> consumed cb (Some (end_key shift s))
      | KeyOther \<Rightarrow> not_consumed s cb)"

definition dispatch_key :: "text_boundary_mode \<Rightarrow> key_event \<Rightarrow> text_input \<Rightarrow> clipboard \<Rightarrow> key_result" where
  "dispatch_key mode key s cb =
     (if ke_ctrl key \<and> ke_alt key then not_consumed s cb
      else if ke_ctrl key then ctrl_key mode (ke_shift key) (ke_code key) s cb
      else if ke_alt key then alt_key (ke_code key) s cb
      else plain_key (ke_shift key) (ke_code key) s cb)"

definition handle_text_input_key_with_boundaries ::
  "text_boundary_mode \<Rightarrow> key_event \<Rightarrow> text_input \<Rightarrow> clipboard \<Rightarrow> key_result" where
  "handle_text_input_key_with_boundaries mode key s cb =
     (if ti_select_all s then
        (case ke_code key of
           KeyChar c \<Rightarrow>
             if \<not> ke_ctrl key \<and> \<not> ke_alt key then consumed cb (insert_char c s) else dispatch_key mode key s cb
         | KeyBackspace \<Rightarrow> consumed cb (backspace s)
         | KeyDelete \<Rightarrow> consumed cb (delete_char s)
         | KeyOther \<Rightarrow> dispatch_key mode key s cb
         | _ \<Rightarrow> dispatch_key mode key (if \<not> ke_shift key then clear_selection s else s) cb)
      else dispatch_key mode key s cb)"

definition handle_text_input_key :: "key_event \<Rightarrow> text_input \<Rightarrow> clipboard \<Rightarrow> key_result" where
  "handle_text_input_key = handle_text_input_key_with_boundaries Word"

subsection \<open>Operations that keep a promise for ever\<close>

text \<open>The contract of an operation table: on a valid state an operation returns a valid state. A client that only runs the
  operations never gets stuck.\<close>

locale safe_operations =
  fixes valid :: "'s \<Rightarrow> bool" and operation :: "'o \<Rightarrow> 's \<Rightarrow> 's option"
  assumes safe: "valid s \<Longrightarrow> \<exists>s'. operation i s = Some s' \<and> valid s'"
begin

lemma run_safe: "valid s \<Longrightarrow> \<exists>s'. fold_opt operation is s = Some s' \<and> valid s'"
proof (induction "is" arbitrary: s)
  case (Cons i "is")
  then obtain s' where "operation i s = Some s'" "valid s'" using safe by blast
  then show ?case using Cons.IH by simp
qed simp

end

subsection \<open>Every key is safe\<close>

lemma run_edit_safe:
  assumes "ti_inv s"
  shows "\<exists>s'. run_edit e s = Some s' \<and> ti_inv s'"
proof -
  obtain l m r where p: "selection_parts s = (l, m, r)" by (metis prod_cases3)
  show ?thesis using run_edit_value[OF assms p, of e] edited_inv[OF assms] assms by auto
qed

lemma run_move_safe:
  assumes "ti_inv s"
  shows "\<exists>s'. run_move mv s = Some s' \<and> ti_inv s'"
proof -
  obtain a b where c: "cursor_split s = (a, b)" by (metis prod.exhaust)
  note v = cursor_split_value[OF assms c]
  obtain s' where r: "run_move mv s = Some s'" and m: "moved (extends mv) (spec_move mv a b) s s'"
    using run_move_value[OF v] by blast
  obtain b' where "a @ b = spec_move mv a b @ b'" using spec_move_prefix by blast
  then show ?thesis using r moved_inv[OF assms m] v(1) by auto
qed

lemma select_all_inv: "ti_inv s \<Longrightarrow> ti_inv (select_all_text s)"
  by (simp add: ti_inv_def select_all_text_def snapshot_ok_def)

lemma extend_ends_inv:
  assumes "ti_inv s"
  shows "ti_inv (extend_home s)" "ti_inv (extend_end s)"
  using ti_invD[OF assms]
  by (cases "ti_anchor s"; auto intro!: ti_inv_same_history[OF assms] simp: extend_home_def extend_end_def snapshot_ok_def)+

fun key_safe :: "key_result \<Rightarrow> bool" where
  "key_safe None = False"
| "key_safe (Some (b, s, cb)) = ti_inv s"

lemma consumed_safe: "\<exists>s'. m = Some s' \<and> ti_inv s' \<Longrightarrow> key_safe (consumed cb m)"
  by (auto simp: consumed_def)

lemma key_safe_intros:
  assumes "ti_inv s"
  shows "key_safe (consumed cb (insert_char c s))" "key_safe (consumed cb (backspace s))" "key_safe (consumed cb (delete_char s))"
    "key_safe (consumed cb (delete_word_back s))" "key_safe (consumed cb (delete_word_forward s))"
    "key_safe (consumed cb (kill_to_start s))" "key_safe (consumed cb (kill_to_end s))"
    "key_safe (consumed cb (Some (cursor_left s)))" "key_safe (consumed cb (Some (cursor_right s)))"
    "key_safe (consumed cb (Some (cursor_home s)))" "key_safe (consumed cb (Some (cursor_end s)))"
    "key_safe (consumed cb (cursor_word_left s))" "key_safe (consumed cb (cursor_word_right s))"
    "key_safe (consumed cb (Some (extend_left s)))" "key_safe (consumed cb (Some (extend_right s)))"
    "key_safe (consumed cb (extend_word_left s))" "key_safe (consumed cb (extend_word_right s))"
    "key_safe (consumed cb (extend_path_segment_left s))" "key_safe (consumed cb (extend_path_segment_right s))"
    "key_safe (consumed cb (Some (select_all_text s)))" "key_safe (consumed cb (Some (clear_selection s)))"
    "key_safe (consumed cb (Some (snd (undo s))))" "key_safe (consumed cb (Some (snd (redo s))))"
    "key_safe (consumed cb (Some (extend_home s)))" "key_safe (consumed cb (Some (extend_end s)))"
    "key_safe (consumed cb (Some s))" "key_safe (not_consumed s cb)"
  using consumed_safe[OF run_edit_safe[OF assms], of cb "InsertChar c"] consumed_safe[OF run_edit_safe[OF assms], of cb Backspace]
    consumed_safe[OF run_edit_safe[OF assms], of cb DeleteChar] consumed_safe[OF run_edit_safe[OF assms], of cb DeleteWordBack]
    consumed_safe[OF run_edit_safe[OF assms], of cb DeleteWordForward] consumed_safe[OF run_edit_safe[OF assms], of cb KillToStart]
    consumed_safe[OF run_edit_safe[OF assms], of cb KillToEnd] consumed_safe[OF run_move_safe[OF assms], of cb CursorLeft]
    consumed_safe[OF run_move_safe[OF assms], of cb CursorRight] consumed_safe[OF run_move_safe[OF assms], of cb CursorHome]
    consumed_safe[OF run_move_safe[OF assms], of cb CursorEnd] consumed_safe[OF run_move_safe[OF assms], of cb CursorWordLeft]
    consumed_safe[OF run_move_safe[OF assms], of cb CursorWordRight] consumed_safe[OF run_move_safe[OF assms], of cb ExtendLeft]
    consumed_safe[OF run_move_safe[OF assms], of cb ExtendRight] consumed_safe[OF run_move_safe[OF assms], of cb ExtendWordLeft]
    consumed_safe[OF run_move_safe[OF assms], of cb ExtendWordRight] consumed_safe[OF run_move_safe[OF assms], of cb ExtendSegmentLeft]
    consumed_safe[OF run_move_safe[OF assms], of cb ExtendSegmentRight] select_all_inv[OF assms] clear_selection_inv[OF assms]
    undo_inv[OF assms] redo_inv[OF assms] extend_ends_inv[OF assms] assms
  by (simp_all add: not_consumed_def consumed_def)

lemma clipboard_keys_safe:
  assumes "ti_inv s"
  shows "key_safe (map_option (\<lambda>(copied, cb). (copied, s, cb)) (copy_selection s cb))"
    and "key_safe (cut_selection s cb)"
    and "key_safe (map_option (\<lambda>(pasted, s). (pasted, s, cb)) (paste_clipboard s cb))"
proof -
  obtain l m r where p: "selection_parts s = (l, m, r)" by (metis prod_cases3)
  have e: "ti_text s = [] \<Longrightarrow> m = []" using selection_parts_text[OF assms p] by simp
  have n: "ti_text s = [] \<Longrightarrow> selection_range s = None"
    using e selection_parts_value[OF assms] p by (metis prod.inject)
  show "key_safe (map_option (\<lambda>(copied, cb). (copied, s, cb)) (copy_selection s cb))"
  proof (cases "ti_text s = []")
    case True
    then show ?thesis using n assms by (simp add: copy_selection_def)
  next
    case False
    then show ?thesis using copy_selection_value[OF assms p, of cb] assms by simp
  qed
  show "key_safe (cut_selection s cb)"
  proof (cases "ti_text s = []")
    case True
    then show ?thesis using assms by (simp add: cut_selection_def)
  next
    case False
    then show ?thesis using cut_selection_value[OF assms p, of cb] edited_inv[OF assms] by simp
  qed
  show "key_safe (map_option (\<lambda>(pasted, s). (pasted, s, cb)) (paste_clipboard s cb))"
    using run_edit_safe[OF assms, of "InsertString (read_shared_text_clipboard cb)"] assms
    by (auto simp: paste_clipboard_def Let_def)
qed

lemma dispatch_key_safe: "ti_inv s \<Longrightarrow> key_safe (dispatch_key mode key s cb)"
  by (auto simp: dispatch_key_def ctrl_key_def alt_key_def plain_key_def ctrl_char_key_def readline_key_def Let_def
      home_key_def end_key_def key_safe_intros clipboard_keys_safe
      split: key_code.split text_boundary_mode.split)

lemma handle_key_safe: "ti_inv s \<Longrightarrow> key_safe (handle_text_input_key_with_boundaries mode key s cb)"
  unfolding handle_text_input_key_with_boundaries_def
  by (auto simp: dispatch_key_safe key_safe_intros clear_selection_inv split: key_code.split)


subsection \<open>The other operations\<close>

lemma set_text_inv:
  assumes "ti_inv s"
  shows "ti_inv (set_text_and_cursor text cursor s)"
proof -
  let ?s = "clear_selection (s\<lparr>ti_text := text, ti_cursor := back_to_boundary text (min cursor (byte_len text))\<rparr>)"
  have "snapshot_ok (snapshot ?s)" by (rule snapshot_ok_plain) (simp_all add: back_to_boundary_boundary)
  then show ?thesis
    unfolding set_text_and_cursor_def Let_def by (rule record_edit_inv[OF assms]) simp_all
qed

lemma replace_range_inv:
  assumes "ti_inv s"
  shows "\<exists>s'. replace_range i j text s = Some s' \<and> ti_inv s'"
proof (cases "i > j \<or> j > byte_len (ti_text s) \<or> \<not> is_char_boundary (ti_text s) i \<or> \<not> is_char_boundary (ti_text s) j")
  case True
  then show ?thesis using assms unfolding replace_range_def if_P[OF True] by blast
next
  case False
  then obtain a b a' b' where t: "ti_text s = a @ b" "i = byte_len a" "ti_text s = a' @ b'" "j = byte_len a'"
    by (auto simp: boundary_split)
  then obtain m where m: "a' = a @ m" "b = m @ b'" using boundaries_ordered[of "ti_text s" a b a' b'] False by auto
  have r: "str_replace_range (ti_text s) i j text = Some (a @ text @ b')"
    using t m by simp
  have "is_char_boundary (a @ text @ b') (byte_len a + byte_len text)" using boundary_append[of "a @ text" b'] by simp
  then have "ti_inv (edited s (a @ text) b')" using edited_inv[OF assms] by blast
  then show ?thesis unfolding replace_range_def if_not_P[OF False] using r t(2) by (simp add: edited_def)
qed

lemma transform_value:
  assumes "ti_inv s" and "selection_parts s = (l, m, r)"
  shows "\<exists>changed s'. transform_selection_or_all f s = Some (changed, s') \<and> ti_inv s'
    \<and> ti_text s' = (if m = [] then f (ti_text s) else l @ f m @ r)"
proof -
  let ?l = "if m = [] then [] else l" and ?m = "if m = [] then ti_text s else m" and ?r = "if m = [] then [] else r"
  have t: "ti_text s = ?l @ ?m @ ?r" using selection_parts_text[OF assms] by simp
  have rg: "(case selection_range s of Some (i, j) \<Rightarrow> (i, j) | None \<Rightarrow> (0, byte_len (ti_text s))) = (byte_len ?l, byte_len ?l + byte_len ?m)"
    using selection_parts_range[OF assms] by simp
  have b: "is_char_boundary (ti_text s) (byte_len ?l)" "is_char_boundary (ti_text s) (byte_len ?l + byte_len ?m)"
    by (subst t, simp del: if_split)+ (metis boundary_append append_assoc byte_len_simps(3) t)
  have sl: "str_slice (ti_text s) (byte_len ?l) (byte_len ?l + byte_len ?m) = Some ?m" by (subst t) (rule str_slice_value)
  have rp: "str_replace_range (ti_text s) (byte_len ?l) (byte_len ?l + byte_len ?m) (f ?m) = Some (?l @ f ?m @ ?r)"
    by (subst t) (rule str_replace_range_value)
  let ?s = "s\<lparr>ti_text := ?l @ f ?m @ ?r, ti_anchor := Some (byte_len ?l), ti_cursor := byte_len ?l + byte_len (f ?m),
     ti_select_all := (\<not> has_selection s \<and> byte_len ?l = 0 \<and> byte_len ?l + byte_len (f ?m) = byte_len (?l @ f ?m @ ?r))\<rparr>"
  have "is_char_boundary (?l @ f ?m @ ?r) (byte_len ?l + byte_len (f ?m))"
    using boundary_append[of "?l @ f ?m" ?r] by (simp del: if_split)
  then have "snapshot_ok (snapshot ?s)" by (simp add: snapshot_ok_def del: if_split)
  then have "ti_inv (snd (record_edit (snapshot s) ?s))" by (rule record_edit_inv[OF assms(1)]) simp_all
  moreover have "transform_selection_or_all f s = Some (record_edit (snapshot s) ?s)"
    unfolding transform_selection_or_all_def rg Let_def prod.case using b sl rp by (simp del: if_split)
  moreover have "ti_text (snd (record_edit (snapshot s) ?s)) = (if m = [] then f (ti_text s) else l @ f m @ r)" by simp
  ultimately show ?thesis by (metis prod.collapse)
qed

subsection \<open>Sessions\<close>

datatype field_operation =
    Key text_boundary_mode key_event
  | SetText ustr nat
  | ReplaceRange nat nat ustr
  | Transform "ustr \<Rightarrow> ustr"
  | Click u16 nat
  | PressMouse u16 nat
  | DragMouse u16 nat
  | ReleaseMouse

fun run_operation :: "(uchar \<Rightarrow> nat) \<Rightarrow> (ustr \<Rightarrow> nat) \<Rightarrow> field_operation \<Rightarrow> text_input \<times> clipboard \<Rightarrow> (text_input \<times> clipboard) option" where
  "run_operation cw sw (Key mode key) (s, cb) = map_option snd (handle_text_input_key_with_boundaries mode key s cb)"
| "run_operation cw sw (SetText text cursor) (s, cb) = Some (set_text_and_cursor text cursor s, cb)"
| "run_operation cw sw (ReplaceRange i j text) (s, cb) = map_option (\<lambda>s. (s, cb)) (replace_range i j text s)"
| "run_operation cw sw (Transform f) (s, cb) = map_option (\<lambda>(_, s). (s, cb)) (transform_selection_or_all f s)"
| "run_operation cw sw (Click width column) (s, cb)
     = map_option (\<lambda>s. (s, cb)) (place_cursor_from_view_column cw sw (unat width) column s)"
| "run_operation cw sw (PressMouse width column) (s, cb)
     = map_option (\<lambda>s. (s, cb)) (begin_mouse_selection cw sw (unat width) column s)"
| "run_operation cw sw (DragMouse width column) (s, cb)
     = map_option (\<lambda>s. (s, cb)) (drag_mouse_selection cw sw (unat width) column s)"
| "run_operation cw sw ReleaseMouse (s, cb) = Some (end_mouse_selection s, cb)"

lemma run_operation_safe:
  assumes "ti_inv s"
  shows "\<exists>s' cb'. run_operation cw sw i (s, cb) = Some (s', cb') \<and> ti_inv s'"
proof -
  have u: "unat (w :: u16) < 2 ^ 16" for w using unsigned_less[of w] by simp
  obtain l m r where p: "selection_parts s = (l, m, r)" by (metis prod_cases3)
  have k: "\<exists>s' cb'. map_option snd result = Some (s', cb') \<and> ti_inv s'" if "key_safe result" for result :: key_result
    using that by (cases result rule: key_safe.cases) auto
  show ?thesis
    using k[OF handle_key_safe[OF assms]] set_text_inv[OF assms] replace_range_inv[OF assms] transform_value[OF assms p]
      mouse_inv(1,2,3)[OF assms u, of cw sw] mouse_inv(4)[OF assms u]
    by (cases i) (fastforce+)
qed

interpretation field: safe_operations "\<lambda>(s, cb). ti_inv s" "run_operation cw sw" for cw sw
  by unfold_locales (use run_operation_safe in fastforce)

text \<open>C13: a session never panics: starting from a fresh field with any text, any sequence of keys (with any modifiers), programmatic
  edits, case transformations and mouse actions runs to its end and leaves the cursor, the anchor and every snapshot of the
  histories on character boundaries, with at most 128 snapshots.\<close>

theorem session_never_panics:
  "\<exists>s cb'. fold_opt (run_operation cw sw) operations (text_input_new initial, cb) = Some (s, cb')
    \<and> is_char_boundary (ti_text s) (ti_cursor s) \<and> ti_inv s
    \<and> length (ti_undo_history s) + length (ti_redo_history s) \<le> 128"
proof -
  have "case (text_input_new initial, cb) of (s, cb) \<Rightarrow> ti_inv s" by (simp add: ti_inv_new)
  from field.run_safe[OF this, of cw sw operations] obtain s cb' where
    "fold_opt (run_operation cw sw) operations (text_input_new initial, cb) = Some (s, cb')" "ti_inv s" by auto
  moreover from this(2) have "length (ti_undo_history s) + length (ti_redo_history s) \<le> 128"
    by (simp add: ti_inv_def history_limit_def)
  ultimately show ?thesis using ti_invD(1) by blast
qed

end
