(* ===== verification/TsPacket.thy ===== *)
theory TsPacket
  imports Prelude
begin

text \<open>
  MPEG transport stream packets and PES headers of Blu-ray titles,
  \<open>src/convert/pipeline/bluray_ts_demux.rs\<close>: the packet formats, the parser of one 188-byte
  packet (\<open>parse_ts_packet\<close>), the search for three packets in cadence after a loss of
  synchronisation, the PES header parser with its presentation time stamp, and the errors of
  the file. Every \<open>ConvertError\<close> message is one constructor, with the numbers it prints;
  \<open>internal\<close> holds of those the code files under \<open>Realize\<close>, the faults of the program itself.
  \<open>usize\<close> sums of a byte and a small constant cannot overflow and are plain sums here.
\<close>

subsection \<open>Errors\<close>

datatype ts_error =
    WrongPacketLength nat
  | SyncMismatch
  | TransportErrorSet
  | ScrambledPacket u16 u8
  | ReservedAdaptation u16
  | AdaptationPastEnd u16 nat
  | PesEndedEarly u16 nat nat
  | PesInterrupted u16 nat nat
  | PesBadStartCode u16
  | PesImpossibleLength u16 nat
  | PesTooLong u16 nat nat
  | LostContinuityStart
  | DuplicateDiffers u16 u8
  | ContinuityGap u16 u8 u8
  | PesTooShort nat
  | PesInvalidPrefix
  | PesUnsupportedStream u8
  | PesDeclaredTooLong nat nat
  | PesNoFullHeader
  | PesScrambled u8
  | PesForbiddenFlags
  | PesHeaderPastEnd nat nat
  | PesHeaderShortForPts u8 nat
  | PtsWrongLength
  | PtsBadMarkers

fun internal :: "ts_error \<Rightarrow> bool" where
  "internal (WrongPacketLength n) = True"
| "internal LostContinuityStart = True"
| "internal PtsWrongLength = True"
| "internal _ = False"

subsection \<open>Packet formats\<close>

abbreviation TS_PACKET_SIZE :: nat where "TS_PACKET_SIZE \<equiv> 188"
abbreviation M2TS_PACKET_SIZE :: nat where "M2TS_PACKET_SIZE \<equiv> 192"
abbreviation M2TS_TP_EXTRA_SIZE :: nat where "M2TS_TP_EXTRA_SIZE \<equiv> 4"
abbreviation TS_RESYNC_CONFIRMATION_PACKETS :: nat where "TS_RESYNC_CONFIRMATION_PACKETS \<equiv> 3"

datatype TsPacketFormat = StandardTs | M2ts

fun packet_size :: "TsPacketFormat \<Rightarrow> nat" where
  "packet_size StandardTs = TS_PACKET_SIZE"
| "packet_size M2ts = M2TS_PACKET_SIZE"

fun sync_byte_offset :: "TsPacketFormat \<Rightarrow> nat" where
  "sync_byte_offset StandardTs = 0"
| "sync_byte_offset M2ts = M2TS_TP_EXTRA_SIZE"

subsection \<open>One transport packet\<close>

record ts_packet =
  ts_pid :: u16
  unit_start :: bool
  discontinuity :: bool
  counter :: u8
  ts_payload :: "u8 list option"

definition parse_ts_packet :: "u8 list \<Rightarrow> ts_error + ts_packet" where
  "parse_ts_packet p = (
     if length p \<noteq> TS_PACKET_SIZE then Inl (WrongPacketLength (length p))
     else if p ! 0 \<noteq> 0x47 then Inl SyncMismatch
     else if p ! 1 AND 0x80 \<noteq> 0 then Inl TransportErrorSet
     else
       let pid = (push_bit 8 (ucast (p ! 1 AND 0x1f)) OR ucast (p ! 2) :: u16);
           pusi = (p ! 1 AND 0x40 \<noteq> 0);
           scrambling = drop_bit 6 (p ! 3) AND 0x03
       in
       if scrambling \<noteq> 0 then Inl (ScrambledPacket pid scrambling)
       else
         let control = drop_bit 4 (p ! 3) AND 0x03; cc = p ! 3 AND 0x0f in
         if control = 0 then Inl (ReservedAdaptation pid)
         else
           let has_adaptation = (control = 2 \<or> control = 3);
               has_payload = (control = 1 \<or> control = 3);
               adaptation_len = unat (p ! 4)
           in
           if has_adaptation \<and> 5 + adaptation_len > TS_PACKET_SIZE
           then Inl (AdaptationPastEnd pid adaptation_len)
           else
             let off = (if has_adaptation then 5 + adaptation_len else 4) in
             Inr \<lparr> ts_pid = pid, unit_start = pusi,
                   discontinuity = (has_adaptation \<and> adaptation_len > 0 \<and> p ! 5 AND 0x80 \<noteq> 0),
                   counter = cc,
                   ts_payload = (if has_payload \<and> off < TS_PACKET_SIZE
                                 then Some (drop off p) else None) \<rparr>)"

subsection \<open>Finding the packet cadence again\<close>

definition sync_at :: "u8 list \<Rightarrow> nat \<Rightarrow> bool" where
  "sync_at bs i \<longleftrightarrow> i < length bs \<and> bs ! i = 0x47"

definition cadence_at :: "TsPacketFormat \<Rightarrow> u8 list \<Rightarrow> nat \<Rightarrow> bool" where
  "cadence_at fmt bs off \<longleftrightarrow>
     sync_at bs (off + sync_byte_offset fmt) \<and>
     list_all (\<lambda>step. sync_at bs (off + step * packet_size fmt + sync_byte_offset fmt))
       [1..<TS_RESYNC_CONFIRMATION_PACKETS]"

definition find_next_ts_sync_at_cadence_with_format :: "u8 list \<Rightarrow> TsPacketFormat \<Rightarrow> nat option" where
  "find_next_ts_sync_at_cadence_with_format bs fmt = find (cadence_at fmt bs) [0..<length bs]"

definition find_next_ts_sync_at_cadence :: "u8 list \<Rightarrow> nat option" where
  "find_next_ts_sync_at_cadence bs = find_next_ts_sync_at_cadence_with_format bs StandardTs"

text \<open>The search returns the first offset in cadence, and finds every one there is.\<close>

lemma find_upt_Some_iff:
  "find P [0..<n] = Some k \<longleftrightarrow> k < n \<and> P k \<and> (\<forall>j < k. \<not> P j)"
  by (auto simp: find_Some_iff)

lemma find_sync_first:
  "find_next_ts_sync_at_cadence_with_format bs fmt = Some k \<longleftrightarrow>
     cadence_at fmt bs k \<and> (\<forall>j < k. \<not> cadence_at fmt bs j)"
  by (auto simp: find_next_ts_sync_at_cadence_with_format_def find_upt_Some_iff cadence_at_def
      sync_at_def)

lemma find_sync_none:
  "find_next_ts_sync_at_cadence_with_format bs fmt = None \<longleftrightarrow> (\<forall>k. \<not> cadence_at fmt bs k)"
  by (auto simp: find_next_ts_sync_at_cadence_with_format_def find_None_iff cadence_at_def
      sync_at_def)

subsection \<open>PES headers\<close>

definition is_unstructured_pes_stream_id :: "u8 \<Rightarrow> bool" where
  "is_unstructured_pes_stream_id b \<longleftrightarrow>
     b \<in> set [0xBC, 0xBE, 0xBF, 0xF0, 0xF1, 0xF2, 0xF8, 0xFF]"

definition parse_pts_90k :: "u8 list \<Rightarrow> ts_error + 64 word" where
  "parse_pts_90k b = (
     if length b \<noteq> 5 then Inl PtsWrongLength
     else if b ! 0 AND 1 = 0 \<or> b ! 2 AND 1 = 0 \<or> b ! 4 AND 1 = 0 then Inl PtsBadMarkers
     else
       let high = push_bit 30 (ucast (drop_bit 1 (b ! 0) AND 7));
           mid = push_bit 22 (ucast (b ! 1)) OR push_bit 15 (ucast (drop_bit 1 (b ! 2) AND 0x7f));
           low = push_bit 7 (ucast (b ! 3)) OR ucast (drop_bit 1 (b ! 4) AND 0x7f)
       in Inr (high OR mid OR low))"

record parsed_pes =
  pts_90k :: "64 word option"
  pes_payload :: "u8 list"

definition be16 :: "u8 \<Rightarrow> u8 \<Rightarrow> nat" where
  "be16 a b = unat a * 256 + unat b"

definition parse_pes_tail :: "u8 list \<Rightarrow> ts_error + parsed_pes" where
  "parse_pes_tail pes = (
     if length pes < 9 then Inl PesNoFullHeader
     else if pes ! 6 AND 0x30 \<noteq> 0 then Inl (PesScrambled (drop_bit 4 (pes ! 6 AND 0x30)))
     else
       let flags = drop_bit 6 (pes ! 7) AND 3 in
       if flags = 1 then Inl PesForbiddenFlags
       else
         let header_len = unat (pes ! 8); header_end = 9 + header_len in
         if header_end > length pes then Inl (PesHeaderPastEnd header_end (length pes))
         else if flags = 2 \<or> flags = 3 then
           let required = (if flags = 3 then 10 else 5) in
           if header_len < required \<or> length pes < 9 + required
           then Inl (PesHeaderShortForPts flags header_len)
           else res_bind (parse_pts_90k (take 5 (drop 9 pes))) (\<lambda>t.
                  Inr \<lparr> pts_90k = Some t, pes_payload = drop header_end pes \<rparr>)
         else Inr \<lparr> pts_90k = None, pes_payload = drop header_end pes \<rparr>)"

definition parse_lpcm_pes_packet :: "u8 list \<Rightarrow> ts_error + parsed_pes" where
  "parse_lpcm_pes_packet pes = (
     if length pes < 9 then Inl (PesTooShort (length pes))
     else if take 3 pes \<noteq> [0, 0, 1] then Inl PesInvalidPrefix
     else if is_unstructured_pes_stream_id (pes ! 3) then Inl (PesUnsupportedStream (pes ! 3))
     else
       let declared = be16 (pes ! 4) (pes ! 5) in
       if declared = 0 then parse_pes_tail pes
       else if declared + 6 > length pes then Inl (PesDeclaredTooLong (declared + 6) (length pes))
       else parse_pes_tail (take (declared + 6) pes))"

subsection \<open>Time stamps\<close>

text \<open>The 33-bit clock value as the five bytes of the standard, in reference to which the parser
  is read.\<close>

definition encode_pts :: "64 word \<Rightarrow> u8 list" where
  "encode_pts t =
     [push_bit 5 1 OR push_bit 1 (take_bit 3 (ucast (drop_bit 30 t))) OR 1,
      ucast (drop_bit 22 t),
      push_bit 1 (ucast (drop_bit 15 t)) OR 1,
      ucast (drop_bit 7 t),
      push_bit 1 (ucast t) OR 1]"

lemma mask_consts: "(7 :: u8) = mask 3" "(0x7f :: u8) = mask 7"
  by (simp_all add: mask_eq_exp_minus_1)

lemma parse_encode_pts:
  assumes "drop_bit 33 t = 0"
  shows "parse_pts_90k (encode_pts t) = Inr t"
proof -
  have hi: "\<not> bit t n" if "33 \<le> n" for n
  proof
    assume "bit t n"
    then have "bit (drop_bit 33 t) (n - 33)" using that by (simp add: bit_drop_bit_eq)
    then show False using assms by simp
  qed
  have one: "(x OR 1) AND 1 \<noteq> (0 :: u8)" for x
    proof -
    have "odd (x OR 1)" by (simp add: even_or_iff)
    then show ?thesis by (simp add: and_one_eq odd_iff_mod_2_eq_one)
  qed
  have dbl: "bit (x * 2 :: u8) n \<longleftrightarrow> 0 < n \<and> n < 8 \<and> bit x (n - 1)" for x n
    using bit_double_iff[of x n] by (auto simp: mult.commute)
  have b16: "\<not> bit (16 :: u8) n" if "n < 3" for n
  proof -
    have "(16 :: u8) = push_bit 4 1" by simp
    then show ?thesis using that by (simp only: bit_push_bit_iff) simp
  qed
  have "(push_bit 30 (ucast (drop_bit 1 (push_bit 5 1 OR push_bit 1 (take_bit 3 (ucast (drop_bit 30 t))) OR 1 :: u8) AND mask 3)) OR
       (push_bit 22 (ucast (ucast (drop_bit 22 t) :: u8)) OR
         push_bit 15 (ucast (drop_bit 1 (push_bit 1 (ucast (drop_bit 15 t)) OR 1 :: u8) AND mask 7))) OR
       (push_bit 7 (ucast (ucast (drop_bit 7 t) :: u8)) OR ucast (drop_bit 1 (push_bit 1 (ucast t) OR 1 :: u8) AND mask 7)) :: 64 word) = t" (is "?l = t")
  proof (rule bit_word_eqI)
    fix n assume n: "n < LENGTH(64)"
    consider "n < 7" | "7 \<le> n" "n < 15" | "15 \<le> n" "n < 22" | "22 \<le> n" "n < 30" | "30 \<le> n" "n < 33" | "33 \<le> n" by linarith
    then show "bit ?l n = bit t n"
      by cases (use hi n b16 in \<open>auto simp: bit_simps dbl\<close>)
  qed
  then show ?thesis
    using one[of "32 OR take_bit 3 (ucast (drop_bit 30 t)) * 2", unfolded or.assoc]
      one[of "push_bit 1 (ucast (drop_bit 15 t))"] one[of "push_bit 1 (ucast t)"]
    unfolding parse_pts_90k_def encode_pts_def mask_consts Let_def
    by simp
qed

lemma be16_of_nat: "n < 65536 \<Longrightarrow> be16 (of_nat (n div 256)) (of_nat n) = n"
  by (simp add: be16_def unat_of_nat)

definition build_pes :: "u8 \<Rightarrow> nat \<Rightarrow> 64 word \<Rightarrow> u8 list \<Rightarrow> u8 list \<Rightarrow> u8 list" where
  "build_pes sid declared t stuffing body =
     [0, 0, 1, sid, of_nat (declared div 256), of_nat declared, 0x80, 0x80,
      of_nat (5 + length stuffing)] @ encode_pts t @ stuffing @ body"

lemma length_build_pes: "length (build_pes sid n t s b) = 14 + length s + length b"
  by (simp add: build_pes_def encode_pts_def)

lemma parse_tail_build:
  assumes "drop_bit 33 t = 0" and "length s \<le> 250"
  shows "parse_pes_tail (build_pes sid n t s b) = Inr \<lparr> pts_90k = Some t, pes_payload = b \<rparr>"
proof -
  let ?p = "build_pes sid n t s b"
  have i: "?p ! 6 = 0x80" "?p ! 7 = 0x80" "?p ! 8 = of_nat (5 + length s)"
    by (simp_all add: build_pes_def)
  have w: "(0x80 :: u8) AND 0x30 = 0" "(drop_bit 6 0x80 :: u8) AND 3 = 2" by simp_all
  have h: "unat (of_nat (5 + length s) :: u8) = 5 + length s"
    using assms(2) by (simp add: unat_of_nat del: of_nat_add)
  have e: "take 5 (drop 9 ?p) = encode_pts t" "drop 14 ?p = s @ b"
    by (simp_all add: build_pes_def encode_pts_def)
  have "drop (9 + (5 + length s)) ?p = drop (length s) (drop 14 ?p)"
    unfolding drop_drop by (simp add: add.commute add.left_commute)
  then have d: "drop (9 + (5 + length s)) ?p = b" using e(2) by simp
  show ?thesis
    unfolding parse_pes_tail_def i w h Let_def e(1) parse_encode_pts[OF assms(1)] d
    by (simp add: length_build_pes)
qed

text \<open>C35: A PES packet that carries a 33-bit presentation time and a payload is read back as this
  time and this payload, for every structured stream id, any header stuffing that fits its length
  byte, and both ways to declare the length (exactly, or 0 for unbounded).\<close>

theorem pes_header_round_trip:
  assumes "drop_bit 33 t = 0" and "\<not> is_unstructured_pes_stream_id sid"
    and "length s \<le> 250" and "n = 0 \<or> n = 8 + length s + length b \<and> n < 65536"
  shows "parse_lpcm_pes_packet (build_pes sid n t s b) = Inr \<lparr> pts_90k = Some t, pes_payload = b \<rparr>"
proof -
  let ?p = "build_pes sid n t s b"
  have "be16 (?p ! 4) (?p ! 5) = n"
    using assms(4) be16_of_nat[of n] by (auto simp: build_pes_def be16_def)
  moreover have "take 3 ?p = [0, 0, 1]" "?p ! 3 = sid" by (simp_all add: build_pes_def)
  moreover have "take (n + 6) ?p = ?p" if "n \<noteq> 0" using that assms(4) by (simp add: length_build_pes)
  ultimately show ?thesis
    using parse_tail_build[OF assms(1,3), of sid n b] assms(2,4)
    by (auto simp: parse_lpcm_pes_packet_def Let_def length_build_pes)
qed

theorem pes_header_round_trip_witness:
  "parse_lpcm_pes_packet (build_pes 0xBD 12 90000 [0xff] [1, 2, 3])
    = Inr \<lparr> pts_90k = Some 90000, pes_payload = [1, 2, 3] \<rparr>"
  using pes_header_round_trip[of 90000 "0xBD" "[0xff]" 12 "[1, 2, 3]"]
  by (simp add: is_unstructured_pes_stream_id_def)



end
