(* ===== verification/TsDemux.thy ===== *)
theory TsDemux
  imports TsPacket
begin

text \<open>
  The single-PID demultiplexer \<open>SelectedPidPesDemuxer\<close> of
  \<open>src/convert/pipeline/bluray_ts_demux.rs\<close>. A method on \<open>&mut self\<close> is a function from the
  state to its result and the new state, an error included: the code discards the packet under
  construction on most of its errors, and the caller may look at the state afterwards.

  The lemmas show the invariant of the state (\<open>demux_wf\<close>), kept by every method on every input
  and on its error branches too, and what it gives: the internal error of \<open>take_current_pes\<close>
  cannot occur, and the queue holds at most one packet, none while another is being assembled.
\<close>

subsection \<open>State\<close>

datatype PesLengthState = NeedHeader | UnknownLength | Known nat

record SelectedPesPacket =
  payload :: "u8 list"
  continuity_start :: u8
  continuity_end :: u8

datatype ContinuityDecision = Accept | DuplicateRetransmission

record demuxer =
  dpid :: u16
  current_pes :: "u8 list"
  started :: bool
  current_start :: "u8 option"
  current_end :: "u8 option"
  current_length :: PesLengthState
  last_counter :: "u8 option"
  last_payload :: "u8 list option"
  completed :: "SelectedPesPacket list"

definition demuxer_new :: "u16 \<Rightarrow> demuxer" where
  "demuxer_new pid = \<lparr> dpid = pid, current_pes = [], started = False, current_start = None,
     current_end = None, current_length = NeedHeader, last_counter = None, last_payload = None,
     completed = [] \<rparr>"

type_synonym 'a demux_call = "demuxer \<Rightarrow> (ts_error + 'a) \<times> demuxer"

abbreviation demux_bind :: "'a demux_call \<Rightarrow> ('a \<Rightarrow> 'b demux_call) \<Rightarrow> 'b demux_call" where
  "demux_bind \<equiv> st_bind"

lemmas demux_bind_def = st_bind_def

subsection \<open>Operations\<close>

definition discard_current :: "demuxer \<Rightarrow> demuxer" where
  "discard_current d = d\<lparr> current_pes := [], started := False, current_start := None,
     current_end := None, current_length := NeedHeader \<rparr>"

definition reset_continuity_expectation :: "demuxer \<Rightarrow> demuxer" where
  "reset_continuity_expectation d = d\<lparr> last_counter := None, last_payload := None \<rparr>"

definition start_new_pes :: "u8 \<Rightarrow> demuxer \<Rightarrow> demuxer" where
  "start_new_pes cc d = d\<lparr> current_pes := [], started := True, current_start := Some cc,
     current_end := Some cc, current_length := NeedHeader \<rparr>"

definition mark_selected_payload_accepted :: "u8 \<Rightarrow> u8 list \<Rightarrow> demuxer \<Rightarrow> demuxer" where
  "mark_selected_payload_accepted cc pl d = d\<lparr> last_counter := Some cc, last_payload := Some pl \<rparr>"

definition next_counter :: "u8 \<Rightarrow> u8" where
  "next_counter cc = (cc + 1) AND 0x0f"

definition validate_selected_payload_continuity :: "u8 \<Rightarrow> u8 list \<Rightarrow> ContinuityDecision demux_call" where
  "validate_selected_payload_continuity cc pl d = (case last_counter d of
     None \<Rightarrow> (Inr Accept, d)
   | Some l \<Rightarrow>
       if cc = l then
         (if last_payload d = Some pl then (Inr DuplicateRetransmission, d)
          else (Inl (DuplicateDiffers (dpid d) cc), discard_current d))
       else if cc \<noteq> next_counter l then
         (Inl (ContinuityGap (dpid d) (next_counter l) cc), discard_current d)
       else (Inr Accept, d))"

definition refresh_current_pes_length_state :: "unit demux_call" where
  "refresh_current_pes_length_state d = (
     if current_length d \<noteq> NeedHeader then (Inr (), d)
     else if length (current_pes d) < 6 then (Inr (), d)
     else if take 3 (current_pes d) \<noteq> [0, 0, 1]
     then (Inl (PesBadStartCode (dpid d)), discard_current d)
     else
       let declared = be16 (current_pes d ! 4) (current_pes d ! 5) in
       if declared = 0 then (Inr (), d\<lparr> current_length := UnknownLength \<rparr>)
       else if declared + 6 < 9
       then (Inl (PesImpossibleLength (dpid d) (declared + 6)), discard_current d)
       else (Inr (), d\<lparr> current_length := Known (declared + 6) \<rparr>))"

definition current_pes_is_complete :: "bool demux_call" where
  "current_pes_is_complete d = (case current_length d of
     Known n \<Rightarrow>
       if length (current_pes d) > n
       then (Inl (PesTooLong (dpid d) n (length (current_pes d))), discard_current d)
       else (Inr (length (current_pes d) = n), d)
   | _ \<Rightarrow> (Inr False, d))"

definition take_current_pes :: "SelectedPesPacket demux_call" where
  "take_current_pes d = (case current_start d of
     None \<Rightarrow> (Inl LostContinuityStart, d)
   | Some s \<Rightarrow>
       (Inr \<lparr> payload = current_pes d, continuity_start = s,
              continuity_end = (case current_end d of None \<Rightarrow> s | Some e \<Rightarrow> e) \<rparr>,
        d\<lparr> current_pes := [], started := False, current_start := None, current_end := None,
           current_length := NeedHeader \<rparr>))"

definition push_completed :: "SelectedPesPacket \<Rightarrow> unit demux_call" where
  "push_completed p d = (Inr (), d\<lparr> completed := completed d @ [p] \<rparr>)"

definition pop_completed :: "SelectedPesPacket option demux_call" where
  "pop_completed d = (case completed d of
     [] \<Rightarrow> (Inr None, d)
   | p # ps \<Rightarrow> (Inr (Some p), d\<lparr> completed := ps \<rparr>))"

definition finalize_current_for_new_pusi :: "unit demux_call" where
  "finalize_current_for_new_pusi d = (
     if \<not> started d \<or> current_pes d = [] then (Inr (), discard_current d)
     else demux_bind refresh_current_pes_length_state (\<lambda>_ d.
       (case current_length d of
          Known n \<Rightarrow>
            if length (current_pes d) \<noteq> n
            then (Inl (PesInterrupted (dpid d) n (length (current_pes d))), discard_current d)
            else demux_bind take_current_pes push_completed d
        | _ \<Rightarrow> demux_bind take_current_pes push_completed d)) d)"

definition append_payload :: "u8 \<Rightarrow> u8 list \<Rightarrow> SelectedPesPacket option demux_call" where
  "append_payload cc pl d =
     demux_bind (\<lambda>d. (Inr (), mark_selected_payload_accepted cc pl
                        (d\<lparr> current_end := Some cc, current_pes := current_pes d @ pl \<rparr>))) (\<lambda>_.
     demux_bind refresh_current_pes_length_state (\<lambda>_.
     demux_bind current_pes_is_complete (\<lambda>complete.
     demux_bind (if complete then demux_bind take_current_pes push_completed
                 else (\<lambda>d. (Inr (), d))) (\<lambda>_.
     pop_completed)))) d"

definition accept_payload :: "bool \<Rightarrow> u8 \<Rightarrow> u8 list \<Rightarrow> SelectedPesPacket option demux_call" where
  "accept_payload pusi cc pl d =
     demux_bind (validate_selected_payload_continuity cc pl) (\<lambda>decision.
       case decision of
         DuplicateRetransmission \<Rightarrow> pop_completed
       | Accept \<Rightarrow> (\<lambda>d.
           if pusi then
             demux_bind finalize_current_for_new_pusi
               (\<lambda>_ d. append_payload cc pl (start_new_pes cc d)) d
           else if \<not> started d then pop_completed (mark_selected_payload_accepted cc pl d)
           else append_payload cc pl d)) d"

definition push_ts_packet :: "u8 list \<Rightarrow> SelectedPesPacket option demux_call" where
  "push_ts_packet p d = (case parse_ts_packet p of
     Inl e \<Rightarrow> (Inl e, d)
   | Inr t \<Rightarrow>
       if ts_pid t \<noteq> dpid d then pop_completed d
       else
         let d = (if discontinuity t then discard_current (reset_continuity_expectation d) else d) in
         (case ts_payload t of
            None \<Rightarrow> pop_completed d
          | Some pl \<Rightarrow> if pl = [] then pop_completed d
                       else accept_payload (unit_start t) (counter t) pl d))"

definition finish :: "SelectedPesPacket option demux_call" where
  "finish d = (
     if completed d \<noteq> [] then pop_completed d
     else if started d \<and> current_pes d \<noteq> [] then
       (case current_length d of
          Known n \<Rightarrow>
            if length (current_pes d) \<noteq> n
            then (Inl (PesEndedEarly (dpid d) n (length (current_pes d))), discard_current d)
            else demux_bind take_current_pes (\<lambda>p d. (Inr (Some p), d)) d
        | _ \<Rightarrow> demux_bind take_current_pes (\<lambda>p d. (Inr (Some p), d)) d)
     else (Inr None, d))"

subsection \<open>What the bytes gathered so far amount to\<close>

definition length_state :: "u8 list \<Rightarrow> PesLengthState" where
  "length_state b = (
     if length b < 6 then NeedHeader
     else if be16 (b ! 4) (b ! 5) = 0 then UnknownLength else Known (be16 (b ! 4) (b ! 5) + 6))"

datatype verdict = Partial | Whole | Bad ts_error

definition judge :: "u16 \<Rightarrow> u8 list \<Rightarrow> verdict" where
  "judge pid b = (
     if length b < 6 then Partial
     else if take 3 b \<noteq> [0, 0, 1] then Bad (PesBadStartCode pid)
     else case length_state b of
       Known n \<Rightarrow>
         if n < 9 then Bad (PesImpossibleLength pid n)
         else if length b > n then Bad (PesTooLong pid n (length b))
         else if length b = n then Whole else Partial
     | _ \<Rightarrow> Partial)"

definition in_progress :: "demuxer \<Rightarrow> bool" where
  "in_progress d \<longleftrightarrow> started d \<and> current_length d = length_state (current_pes d) \<and>
     judge (dpid d) (current_pes d) = Partial"

lemma length_state_append:
  "6 \<le> length b \<Longrightarrow> length_state (b @ c) = length_state b"
  by (simp add: length_state_def nth_append)

lemma judge_append_long:
  assumes "6 \<le> length b" and "judge pid b = Partial"
  shows "take 3 (b @ c) = [0, 0, 1]" and "length_state (b @ c) = length_state b"
    and "length_state b = Known n \<Longrightarrow> 9 \<le> n \<and> length b < n"
  using assms
  by (auto simp: judge_def length_state_append split: if_splits PesLengthState.splits)

lemma length_state_long: "6 \<le> length b \<Longrightarrow> length_state b \<noteq> NeedHeader"
  by (simp add: length_state_def)

lemma length_state_short: "length b < 6 \<Longrightarrow> length_state b = NeedHeader"
  by (simp add: length_state_def)

text \<open>\<open>refresh_current_pes_length_state\<close> followed by \<open>current_pes_is_complete\<close> is the
  verdict on the bytes.\<close>

definition grown :: "u8 \<Rightarrow> u8 list \<Rightarrow> demuxer \<Rightarrow> demuxer" where
  "grown cc pl d = mark_selected_payload_accepted cc pl
     (d\<lparr> current_end := Some cc, current_pes := current_pes d @ pl \<rparr>)"

lemma refresh_judge:
  assumes "in_progress d"
  shows "demux_bind refresh_current_pes_length_state (\<lambda>_. current_pes_is_complete) (grown cc pl d)
    = (case judge (dpid d) (current_pes d @ pl) of
         Bad e \<Rightarrow> (Inl e, discard_current (grown cc pl d))
       | v \<Rightarrow> (Inr (v = Whole),
             grown cc pl d\<lparr> current_length := length_state (current_pes d @ pl) \<rparr>))"
proof (cases "length (current_pes d) < 6")
  case True
  then have nh: "current_length d = NeedHeader"
    using assms by (simp add: in_progress_def length_state_short)
  show ?thesis
    by (cases d)
      (use nh in \<open>auto simp: demux_bind_def refresh_current_pes_length_state_def grown_def
        mark_selected_payload_accepted_def current_pes_is_complete_def judge_def length_state_def
        discard_current_def Let_def\<close>)
next
  case False
  then have l: "6 \<le> length (current_pes d)" by simp
  have j: "judge (dpid d) (current_pes d) = Partial"
    and cl: "current_length d = length_state (current_pes d)"
    using assms by (simp_all add: in_progress_def)
  note f = judge_append_long[OF l j]
  have "\<not> length (current_pes d @ pl) < 6" using l by simp
  then show ?thesis
    using f cl length_state_long[OF l]
    by (cases d)
      (auto simp: demux_bind_def refresh_current_pes_length_state_def grown_def
        mark_selected_payload_accepted_def current_pes_is_complete_def judge_def
        discard_current_def split: PesLengthState.splits)
qed

lemma append_payload_eq:
  assumes "in_progress d" and "current_start d = Some s"
  shows "append_payload cc pl d =
    (case judge (dpid d) (current_pes d @ pl) of
       Bad e \<Rightarrow> (Inl e, discard_current (grown cc pl d))
     | Partial \<Rightarrow> pop_completed
         (grown cc pl d\<lparr> current_length := length_state (current_pes d @ pl) \<rparr>)
     | Whole \<Rightarrow> pop_completed (discard_current (grown cc pl d)
         \<lparr> completed := completed d @ [\<lparr> payload = current_pes d @ pl,
             continuity_start = s, continuity_end = cc \<rparr>] \<rparr>))"
proof -
  have "append_payload cc pl d =
    demux_bind (demux_bind refresh_current_pes_length_state (\<lambda>_. current_pes_is_complete))
      (\<lambda>complete. demux_bind (if complete then demux_bind take_current_pes push_completed
         else (\<lambda>d. (Inr (), d))) (\<lambda>_. pop_completed)) (grown cc pl d)"
    unfolding append_payload_def st_bind_assoc grown_def[symmetric]
    by (simp add: demux_bind_def[of "\<lambda>d. (Inr (), grown cc pl d)"])
  also have "\<dots> = (case judge (dpid d) (current_pes d @ pl) of
       Bad e \<Rightarrow> (Inl e, discard_current (grown cc pl d))
     | Partial \<Rightarrow> pop_completed
         (grown cc pl d\<lparr> current_length := length_state (current_pes d @ pl) \<rparr>)
     | Whole \<Rightarrow> pop_completed (discard_current (grown cc pl d)
         \<lparr> completed := completed d @ [\<lparr> payload = current_pes d @ pl,
             continuity_start = s, continuity_end = cc \<rparr>] \<rparr>))"
    unfolding demux_bind_def[of "demux_bind refresh_current_pes_length_state _"]
      refresh_judge[OF assms(1)]
    using assms(2)
    by (cases d) (auto split: verdict.splits simp: demux_bind_def take_current_pes_def
      push_completed_def grown_def discard_current_def mark_selected_payload_accepted_def)
  finally show ?thesis .
qed







subsection \<open>The invariant\<close>

definition idle :: "demuxer \<Rightarrow> bool" where
  "idle d \<longleftrightarrow> \<not> started d \<and> current_pes d = [] \<and> current_length d = NeedHeader \<and>
     current_start d = None \<and> current_end d = None"

definition demux_wf :: "demuxer \<Rightarrow> bool" where
  "demux_wf d \<longleftrightarrow>
     (last_counter d = None \<longleftrightarrow> last_payload d = None) \<and>
     (\<forall>c. last_counter d = Some c \<longrightarrow> unat c < 16) \<and>
     (if started d
      then in_progress d \<and> current_pes d \<noteq> [] \<and> current_start d \<noteq> None \<and>
        current_end d \<noteq> None \<and> completed d = []
      else idle d \<and> length (completed d) \<le> 1)"

lemma discard_idle: "idle d \<Longrightarrow> discard_current d = d"
  by (cases d) (simp add: idle_def discard_current_def)

lemma idle_discard [simp]: "idle (discard_current d)"
  by (simp add: idle_def discard_current_def)

lemma discard_simps [simp]:
  "started (discard_current d) = False" "current_pes (discard_current d) = []"
  "completed (discard_current d) = completed d" "last_counter (discard_current d) = last_counter d"
  "last_payload (discard_current d) = last_payload d" "dpid (discard_current d) = dpid d"
  by (simp_all add: discard_current_def)

lemma start_simps [simp]:
  "started (start_new_pes cc d)" "current_pes (start_new_pes cc d) = []"
  "completed (start_new_pes cc d) = completed d" "current_start (start_new_pes cc d) = Some cc"
  "dpid (start_new_pes cc d) = dpid d" "in_progress (start_new_pes cc d)"
  by (simp_all add: start_new_pes_def in_progress_def length_state_def judge_def)

lemma grown_simps [simp]:
  "completed (grown cc pl d) = completed d" "dpid (grown cc pl d) = dpid d"
  "started (grown cc pl d) = started d" "current_pes (grown cc pl d) = current_pes d @ pl"
  "last_counter (grown cc pl d) = Some cc" "last_payload (grown cc pl d) = Some pl"
  "current_start (grown cc pl d) = current_start d" "current_end (grown cc pl d) = Some cc"
  by (simp_all add: grown_def mark_selected_payload_accepted_def)

lemma mark_simps [simp]:
  "completed (mark_selected_payload_accepted cc pl d) = completed d"
  "dpid (mark_selected_payload_accepted cc pl d) = dpid d"
  "started (mark_selected_payload_accepted cc pl d) = started d"
  "last_counter (mark_selected_payload_accepted cc pl d) = Some cc"
  "last_payload (mark_selected_payload_accepted cc pl d) = Some pl"
  by (simp_all add: mark_selected_payload_accepted_def)

lemma demux_wf_discard: "demux_wf d \<Longrightarrow> demux_wf (discard_current d)"
  by (auto simp: demux_wf_def split: if_splits)

lemma demux_wf_new: "demux_wf (demuxer_new pid)"
  by (simp add: demux_wf_def demuxer_new_def idle_def)

lemma demux_wf_pop:
  assumes "demux_wf d"
  shows "demux_wf (snd (pop_completed d))"
  using assms
  by (cases "completed d")
     (auto simp: pop_completed_def demux_wf_def idle_def in_progress_def)

text \<open>What \<open>finalize_current_for_new_pusi\<close> does in a state of the invariant: it releases the
  packet of unknown length that was under construction, and fails on a packet of known length,
  which is incomplete there.\<close>

definition flushed :: "demuxer \<Rightarrow> demuxer" where
  "flushed d = (if started d
     then discard_current d\<lparr> completed := completed d @ [\<lparr> payload = current_pes d,
       continuity_start = the (current_start d), continuity_end = the (current_end d) \<rparr>] \<rparr>
     else d)"

definition interrupted :: "demuxer \<Rightarrow> bool" where
  "interrupted d \<longleftrightarrow> started d \<and> (\<exists>n. current_length d = Known n)"

lemma take_current_eq:
  "current_start d = Some s \<Longrightarrow> current_end d = Some e \<Longrightarrow>
    take_current_pes d = (Inr \<lparr> payload = current_pes d, continuity_start = s, continuity_end = e \<rparr>,
      discard_current d)"
  by (simp add: take_current_pes_def discard_current_def)

lemma wf_started:
  assumes "demux_wf d" and "started d"
  obtains s e where "current_start d = Some s" and "current_end d = Some e"
    and "in_progress d" and "current_pes d \<noteq> []" and "completed d = []"
  using assms unfolding demux_wf_def by auto

lemma progress_known:
  assumes "in_progress d" and "current_length d = Known n"
  shows "length (current_pes d) < n"
proof -
  have ls: "length_state (current_pes d) = Known n" using assms by (simp add: in_progress_def)
  then have "\<not> length (current_pes d) < 6" by (auto simp: length_state_def)
  then show ?thesis using assms ls by (auto simp: in_progress_def judge_def split: if_splits)
qed

lemma progress_refresh:
  assumes "in_progress d"
  shows "refresh_current_pes_length_state d = (Inr (), d)"
proof (cases "current_length d = NeedHeader")
  case True
  then have "length (current_pes d) < 6"
    using assms length_state_long[of "current_pes d"] by (force simp: in_progress_def)
  then show ?thesis by (simp add: refresh_current_pes_length_state_def)
qed (simp add: refresh_current_pes_length_state_def)

lemma finalize_eq:
  assumes wf: "demux_wf d"
  shows "finalize_current_for_new_pusi d =
    (if interrupted d
     then (Inl (PesInterrupted (dpid d) (case current_length d of Known n \<Rightarrow> n)
             (length (current_pes d))), discard_current d)
     else (Inr (), flushed d))"
proof (cases "started d")
  case False
  then show ?thesis
    using wf by (auto simp: finalize_current_for_new_pusi_def interrupted_def flushed_def
        demux_wf_def discard_idle)
next
  case True
  obtain s e where d: "current_start d = Some s" "current_end d = Some e" "in_progress d"
      "current_pes d \<noteq> []" "completed d = []"
    using wf_started[OF wf True] .
  show ?thesis
    using True d progress_refresh[OF d(3)] progress_known[OF d(3)]
    by (auto simp: finalize_current_for_new_pusi_def interrupted_def flushed_def demux_bind_def
        take_current_eq push_completed_def split: PesLengthState.splits)
qed

lemma flushed_simps [simp]:
  "dpid (flushed d) = dpid d" "last_counter (flushed d) = last_counter d"
  "last_payload (flushed d) = last_payload d"
  by (simp_all add: flushed_def)

lemma flushed_completed:
  "demux_wf d \<Longrightarrow> length (completed (flushed d)) \<le> 1"
  by (auto simp: flushed_def demux_wf_def split: if_splits)

text \<open>Every acceptance of a payload into the packet under construction ends alike.\<close>

lemma append_wf:
  assumes "in_progress d" and "current_start d = Some s" and "length (completed d) \<le> 1"
    and "pl \<noteq> []" and "unat cc < 16" and "append_payload cc pl d = (r, d')"
  shows "demux_wf d' \<and> (\<forall>e. r = Inl e \<longrightarrow> \<not> internal e)"
proof (cases "judge (dpid d) (current_pes d @ pl)")
  case Partial
  let ?g = "grown cc pl d\<lparr> current_length := length_state (current_pes d @ pl) \<rparr>"
  have e: "(r, d') = pop_completed ?g"
    using assms(6) append_payload_eq[OF assms(1,2)] Partial by simp
  have "in_progress (?g\<lparr> completed := q \<rparr>)" for q
    using assms(1) Partial by (simp add: in_progress_def)
  then show ?thesis using e assms(1-5)
    by (cases "completed d")
      (auto simp: pop_completed_def demux_wf_def in_progress_def)
next
  case Whole
  then show ?thesis using assms append_payload_eq[OF assms(1,2)]
    by (cases "completed d")
      (auto simp: pop_completed_def demux_wf_def discard_current_def idle_def)
next
  case (Bad e)
  then have "\<not> internal e"
    by (auto simp: judge_def Let_def split: if_splits PesLengthState.splits)
  with Bad show ?thesis using assms append_payload_eq[OF assms(1,2)]
    by (auto simp: demux_wf_def)
qed

lemma accept_payload_accepting:
  assumes wf: "demux_wf d"
    and "last_counter d = None \<or> (\<exists>c. last_counter d = Some c \<and> cc \<noteq> c \<and> cc = next_counter c)"
  shows "accept_payload pusi cc pl d =
    (if pusi then
       if interrupted d
       then (Inl (PesInterrupted (dpid d) (case current_length d of Known n \<Rightarrow> n)
               (length (current_pes d))), discard_current d)
       else append_payload cc pl (start_new_pes cc (flushed d))
     else if \<not> started d then pop_completed (mark_selected_payload_accepted cc pl d)
     else append_payload cc pl d)"
proof -
  have v: "validate_selected_payload_continuity cc pl d = (Inr Accept, d)"
    using assms(2) by (auto simp: validate_selected_payload_continuity_def)
  show ?thesis by (simp add: accept_payload_def demux_bind_def v finalize_eq[OF wf])
qed

lemma counter_and_15_less: "unat (w AND 0x0f :: u8) < 16"
proof -
  have "w AND 0x0f \<le> (0x0f :: u8)" by (rule word_and_le1)
  then show ?thesis by (simp add: word_le_nat_alt)
qed

lemma parse_counter:
  "parse_ts_packet p = Inr t \<Longrightarrow> unat (counter t) < 16"
  by (auto simp: parse_ts_packet_def Let_def counter_and_15_less split: if_splits)

lemma parse_internal:
  "parse_ts_packet p = Inl e \<Longrightarrow> internal e \<Longrightarrow> length p \<noteq> TS_PACKET_SIZE"
  by (auto simp: parse_ts_packet_def Let_def split: if_splits)

lemma accept_wf:
  assumes wf: "demux_wf d" and pl: "pl \<noteq> []" and cc: "unat cc < 16"
    and r: "accept_payload pusi cc pl d = (r, d')"
  shows "demux_wf d' \<and> (\<forall>e. r = Inl e \<longrightarrow> \<not> internal e)"
proof (cases "last_counter d = None \<or> (\<exists>c. last_counter d = Some c \<and> cc \<noteq> c \<and> cc = next_counter c)")
  case True
  note eq = accept_payload_accepting[OF wf True, of pusi pl]
  consider (new) "pusi" "\<not> interrupted d" | (cut) "pusi" "interrupted d"
    | (skip) "\<not> pusi" "\<not> started d" | (more) "\<not> pusi" "started d" by blast
  then show ?thesis
  proof cases
    case new
    with eq r have a: "append_payload cc pl (start_new_pes cc (flushed d)) = (r, d')" by simp
    show ?thesis
      by (rule append_wf[OF _ _ _ pl cc a]) (simp_all add: flushed_completed[OF wf, simplified])
  next
    case cut
    with eq r demux_wf_discard[OF wf] show ?thesis by auto
  next
    case skip
    have "demux_wf (mark_selected_payload_accepted cc pl d)"
      using wf skip cc by (auto simp: demux_wf_def mark_selected_payload_accepted_def idle_def)
    from demux_wf_pop[OF this] show ?thesis
      using eq r skip by (auto simp: pop_completed_def split: list.splits)
  next
    case more
    obtain s e where d: "current_start d = Some s" "in_progress d" "completed d = []"
      using wf_started[OF wf more(2)] by metis
    from more eq r have a: "append_payload cc pl d = (r, d')" by simp
    show ?thesis by (rule append_wf[OF d(2,1) _ pl cc a]) (simp add: d(3))
  qed
next
  case False
  then obtain c where c: "last_counter d = Some c" "cc = c \<or> cc \<noteq> next_counter c" by auto
  then show ?thesis
    using r demux_wf_pop[OF wf] demux_wf_discard[OF wf]
    by (auto simp: accept_payload_def validate_selected_payload_continuity_def demux_bind_def
        pop_completed_def split: if_splits list.splits)
qed

lemma push_wf:
  assumes wf: "demux_wf d" and r: "push_ts_packet p d = (r, d')"
  shows "demux_wf d' \<and> (\<forall>e. r = Inl e \<longrightarrow> internal e \<longrightarrow> length p \<noteq> TS_PACKET_SIZE)"
proof (cases "parse_ts_packet p")
  case (Inl e)
  then show ?thesis using r wf parse_internal by (auto simp: push_ts_packet_def)
next
  case (Inr t)
  let ?d = "if discontinuity t then discard_current (reset_continuity_expectation d) else d"
  have "demux_wf (discard_current (reset_continuity_expectation d))"
    using wf by (auto simp: demux_wf_def reset_continuity_expectation_def split: if_splits)
  then have wf': "demux_wf ?d" using wf by simp
  have pop: "demux_wf (snd (pop_completed x)) \<and> (\<forall>e. fst (pop_completed x) \<noteq> Inl e)"
    if "demux_wf x" for x
    using demux_wf_pop[OF that] by (auto simp: pop_completed_def split: list.splits)
  show ?thesis
  proof (cases "ts_pid t \<noteq> dpid d \<or> ts_payload t = None \<or> ts_payload t = Some []")
    case True
    then show ?thesis using r Inr pop[OF wf] pop[OF wf']
      by (auto simp: push_ts_packet_def Let_def split: if_splits)
  next
    case False
    then obtain pl where "ts_payload t = Some pl" "pl \<noteq> []" by auto
    then show ?thesis
      using r Inr False accept_wf[OF wf' _ parse_counter[OF Inr], of pl "unit_start t" r d']
      by (auto simp: push_ts_packet_def)
  qed
qed

lemma finish_wf:
  assumes wf: "demux_wf d" and r: "finish d = (r, d')"
  shows "demux_wf d'" and "idle d'" and "completed d' = []"
    and "r = Inl e \<Longrightarrow> \<not> internal e"
proof -
  have "demux_wf d' \<and> idle d' \<and> completed d' = [] \<and> (\<forall>e. r = Inl e \<longrightarrow> \<not> internal e)"
  proof (cases "started d")
    case True
    obtain s e where d: "current_start d = Some s" "current_end d = Some e" "in_progress d"
        "current_pes d \<noteq> []" "completed d = []"
      using wf_started[OF wf True] .
    show ?thesis
      using r True d demux_wf_discard[OF wf]
      by (auto simp: finish_def demux_bind_def take_current_eq split: PesLengthState.splits if_splits)
  next
    case False
    then have i: "idle d" "length (completed d) \<le> 1" using wf by (simp_all add: demux_wf_def)
    show ?thesis
    proof (cases "completed d")
      case Nil
      then show ?thesis using r False wf i by (auto simp: finish_def)
    next
      case (Cons q qs)
      then have "qs = []" using i(2) by simp
      then show ?thesis
        using r False wf i Cons demux_wf_pop[OF wf]
        by (auto simp: finish_def pop_completed_def idle_def)
    qed
  qed
  then show "demux_wf d'" "idle d'" "completed d' = []" "r = Inl e \<Longrightarrow> \<not> internal e" by auto
qed



end
