(* ===== verification/BlurayPts.thy ===== *)
theory BlurayPts
  imports Prelude "HOL-Library.Product_Lexorder"
begin

text \<open>
  The title timeline of a Blu-ray playlist, \<open>src/convert/pipeline/bluray_pts.rs\<close>: the mapper from
  the 33-bit time stamps of PES packets to title time (\<open>BlurayPtsMapper\<close>, its validation of the
  clip segments, its search with a hint and a last accepted time), and the conversions between
  90 kHz ticks and samples. \<open>PTS_33BIT_MODULUS\<close> is \<open>1 << 33\<close>. Times are \<open>u64\<close> as \<open>nat\<close>, with the checked addition written out; the
  products of a \<open>u64\<close> with a \<open>u32\<close> are formed in \<open>u128\<close> and cannot overflow there. The cells of the
  mapper are fields of its record, and a method that sets them returns the new record. The backend
  that lists the segments is outside the model: the segments are an argument.
\<close>

abbreviation PTS_CLOCK_HZ :: nat where "PTS_CLOCK_HZ \<equiv> 90000"
abbreviation PTS_33BIT_MODULUS :: nat where "PTS_33BIT_MODULUS \<equiv> 8589934592"

subsection \<open>Segments\<close>

record segment =
  title_start :: nat
  title_end :: nat
  clip_ref :: nat
  clip_start :: nat
  clip_end :: nat

datatype pts_error =
    EmptyTitleRange segment
  | ZeroClipDuration segment
  | DurationMismatch segment nat nat
  | OverlappingSegments nat nat

definition pts_forward_distance :: "nat \<Rightarrow> nat \<Rightarrow> nat" where
  "pts_forward_distance start_pts end_pts =
     (let s = start_pts mod PTS_33BIT_MODULUS; e = end_pts mod PTS_33BIT_MODULUS in
      if e \<ge> s then e - s else PTS_33BIT_MODULUS - s + e)"

definition title_pts_abs_diff :: "nat \<Rightarrow> nat \<Rightarrow> nat" where
  "title_pts_abs_diff a b = (if a \<ge> b then a - b else b - a)"

definition map_raw_pts_in_segment :: "segment \<Rightarrow> nat \<Rightarrow> nat option" where
  "map_raw_pts_in_segment s raw =
     (let duration = pts_forward_distance (clip_start s) (clip_end s) in
      if duration = 0 then None
      else
        let delta = pts_forward_distance (clip_start s) raw in
        if delta \<ge> duration then None
        else Option.bind (checked_add64 (title_start s) delta) (\<lambda>t.
          if t < title_end s then Some t else None))"

definition validate_segment :: "segment \<Rightarrow> nat option \<Rightarrow> pts_error + nat option" where
  "validate_segment s prev = (
     if title_end s \<le> title_start s then Inl (EmptyTitleRange s)
     else
       let title_duration = title_end s - title_start s;
           clip_duration = pts_forward_distance (clip_start s) (clip_end s) in
       if clip_duration = 0 then Inl (ZeroClipDuration s)
       else if title_duration \<noteq> clip_duration
       then Inl (DurationMismatch s title_duration clip_duration)
       else case prev of
         Some e \<Rightarrow> if title_start s < e then Inl (OverlappingSegments (title_start s) e)
                   else Inr (Some (title_end s))
       | None \<Rightarrow> Inr (Some (title_end s)))"

definition validate_pts_segments :: "segment list \<Rightarrow> pts_error + unit" where
  "validate_pts_segments segs = res_bind (fold_res validate_segment segs None) (\<lambda>_. Inr ())"

subsection \<open>The mapper\<close>

datatype BlurayPtsMapMode = IdentityContinuous | Segmented "segment list" | Unsupported

record pts_mapper =
  mode :: BlurayPtsMapMode
  segment_hint :: "nat option"
  last_title_pts :: "nat option"
  anchor_title_pts :: "nat option"

definition identity_continuous :: pts_mapper where
  "identity_continuous = \<lparr> mode = IdentityContinuous, segment_hint = None,
     last_title_pts = None, anchor_title_pts = None \<rparr>"

definition unsupported :: pts_mapper where
  "unsupported = \<lparr> mode = Unsupported, segment_hint = None,
     last_title_pts = None, anchor_title_pts = None \<rparr>"

definition segmented :: "segment list \<Rightarrow> pts_error + pts_mapper" where
  "segmented segs = (
     if segs = [] then Inr identity_continuous
     else
       let sorted = sort_key (\<lambda>s. (title_start s, clip_ref s)) segs in
       res_bind (validate_pts_segments sorted) (\<lambda>_.
         Inr \<lparr> mode = Segmented sorted, segment_hint = Some 0,
               last_title_pts = None, anchor_title_pts = None \<rparr>))"

definition is_unavailable :: "pts_mapper \<Rightarrow> bool" where
  "is_unavailable m \<longleftrightarrow> mode m = Unsupported"

definition position :: "('a \<Rightarrow> bool) \<Rightarrow> 'a list \<Rightarrow> nat option" where
  "position P xs = find (\<lambda>i. P (xs ! i)) [0..<length xs]"

definition rposition :: "('a \<Rightarrow> bool) \<Rightarrow> 'a list \<Rightarrow> nat option" where
  "rposition P xs = find (\<lambda>i. P (xs ! i)) (rev [0..<length xs])"

definition prime_for_title_pts :: "nat \<Rightarrow> pts_mapper \<Rightarrow> pts_mapper" where
  "prime_for_title_pts t m =
     (let m = m\<lparr> anchor_title_pts := Some t \<rparr> in
      case mode m of
        Segmented segs \<Rightarrow>
          (case position (\<lambda>s. t \<ge> title_start s \<and> t < title_end s) segs of
             Some i \<Rightarrow> m\<lparr> segment_hint := Some i \<rparr>
           | None \<Rightarrow>
               (case rposition (\<lambda>s. t \<ge> title_end s) segs of
                  Some i \<Rightarrow> m\<lparr> segment_hint := Some i \<rparr>
                | None \<Rightarrow> m))
      | _ \<Rightarrow> m)"

definition accept_segment_candidate :: "nat \<Rightarrow> nat \<Rightarrow> pts_mapper \<Rightarrow> pts_mapper" where
  "accept_segment_candidate i t m = m\<lparr> segment_hint := Some i, last_title_pts := Some t \<rparr>"

text \<open>The first candidate is the one closest to the anchor, the earlier segment on a tie.\<close>

definition better_candidate ::
  "nat option \<Rightarrow> nat \<Rightarrow> nat \<times> segment \<Rightarrow> (nat \<times> nat \<times> nat) option \<Rightarrow> (nat \<times> nat \<times> nat) option" where
  "better_candidate anchor raw is best = (case map_raw_pts_in_segment (snd is) raw of
     None \<Rightarrow> best
   | Some t \<Rightarrow>
       let score = (case anchor of None \<Rightarrow> 0 | Some a \<Rightarrow> title_pts_abs_diff t a) in
       if (case best of None \<Rightarrow> True | Some (_, _, best_score) \<Rightarrow> score < best_score)
       then Some (fst is, t, score) else best)"

definition try_first_segment_candidate ::
  "segment list \<Rightarrow> nat \<Rightarrow> pts_mapper \<Rightarrow> nat option \<times> pts_mapper" where
  "try_first_segment_candidate segs raw m =
     (case fold (better_candidate (anchor_title_pts m) raw) (enumerate 0 segs) None of
        None \<Rightarrow> (None, m)
      | Some (i, t, _) \<Rightarrow> (Some t, accept_segment_candidate i t m))"

definition try_segment_candidate ::
  "segment list \<Rightarrow> nat \<Rightarrow> nat \<Rightarrow> pts_mapper \<Rightarrow> nat option \<times> pts_mapper" where
  "try_segment_candidate segs i raw m = (case map_raw_pts_in_segment (segs ! i) raw of
     None \<Rightarrow> (None, m)
   | Some t \<Rightarrow>
       if (case last_title_pts m of None \<Rightarrow> True | Some l \<Rightarrow> t \<ge> l)
       then (Some t, accept_segment_candidate i t m)
       else (None, m))"

fun try_segments :: "segment list \<Rightarrow> nat list \<Rightarrow> nat \<Rightarrow> pts_mapper \<Rightarrow> nat option \<times> pts_mapper" where
  "try_segments segs [] raw m = (None, m)"
| "try_segments segs (i # is) raw m = (case try_segment_candidate segs i raw m of
     (Some t, m') \<Rightarrow> (Some t, m')
   | (None, _) \<Rightarrow> try_segments segs is raw m)"

definition map_pes_pts_to_title_pts :: "nat \<Rightarrow> pts_mapper \<Rightarrow> nat option \<times> pts_mapper" where
  "map_pes_pts_to_title_pts raw m = (case mode m of
     IdentityContinuous \<Rightarrow> (Some raw, m)
   | Unsupported \<Rightarrow> (None, m)
   | Segmented segs \<Rightarrow>
       (case (if last_title_pts m = None then try_first_segment_candidate segs raw m else (None, m)) of
          (Some t, m') \<Rightarrow> (Some t, m')
        | (None, _) \<Rightarrow>
            let hint = min (case segment_hint m of None \<Rightarrow> 0 | Some h \<Rightarrow> h) (length segs - 1) in
            try_segments segs (hint # [hint + 1..<length segs] @ [0..<hint]) raw m))"

definition prepare_pts_mapper_for_realization :: "pts_mapper \<Rightarrow> nat \<Rightarrow> pts_mapper option" where
  "prepare_pts_mapper_for_realization m clip_count = (
     if is_unavailable m then (if clip_count > 1 then None else Some identity_continuous)
     else Some m)"

subsection \<open>Ticks and samples\<close>

definition try_u64 :: "nat \<Rightarrow> nat option" where
  "try_u64 n = (if n < 2 ^ 64 then Some n else None)"

definition samples_to_pts90 :: "nat \<Rightarrow> nat \<Rightarrow> nat option" where
  "samples_to_pts90 samples rate = try_u64 (samples * PTS_CLOCK_HZ div rate)"

definition ceil_pts_to_samples :: "nat \<Rightarrow> nat \<Rightarrow> nat option" where
  "ceil_pts_to_samples delta rate = try_u64 ((delta * rate + (PTS_CLOCK_HZ - 1)) div PTS_CLOCK_HZ)"

definition floor_pts_to_samples :: "nat \<Rightarrow> nat \<Rightarrow> nat option" where
  "floor_pts_to_samples delta rate = try_u64 (delta * rate div PTS_CLOCK_HZ)"

subsection \<open>The arithmetic of the 33-bit clock\<close>

lemma pts_forward_distance_mod:
  "pts_forward_distance a b = (b + (PTS_33BIT_MODULUS - a mod PTS_33BIT_MODULUS)) mod PTS_33BIT_MODULUS"
proof -
  let ?M = "PTS_33BIT_MODULUS"
  have a: "a mod ?M < ?M" and b: "b mod ?M < ?M" by simp_all
  have "(b + (?M - a mod ?M)) mod ?M = (b mod ?M + (?M - a mod ?M)) mod ?M"
    by (metis mod_add_left_eq)
  also have "\<dots> = pts_forward_distance a b"
  proof (cases "a mod ?M \<le> b mod ?M")
    case True
    then have "b mod ?M + (?M - a mod ?M) = ?M + (b mod ?M - a mod ?M)" using a by simp
    then have "(b mod ?M + (?M - a mod ?M)) mod ?M = (b mod ?M - a mod ?M) mod ?M"
      by (simp only: mod_add_self1)
    also have "\<dots> = b mod ?M - a mod ?M" using b by (intro mod_less) simp
    finally show ?thesis using True unfolding pts_forward_distance_def Let_def by (simp only: if_True)
  next
    case False
    then have "b mod ?M + (?M - a mod ?M) < ?M" using a by linarith
    then have "(b mod ?M + (?M - a mod ?M)) mod ?M = b mod ?M + (?M - a mod ?M)" by (rule mod_less)
    also have "\<dots> = ?M - a mod ?M + b mod ?M" by (rule add.commute)
    finally show ?thesis using False unfolding pts_forward_distance_def Let_def by (simp only: if_False)
  qed
  finally show ?thesis ..
qed

lemma pts_forward_distance_less: "pts_forward_distance a b < PTS_33BIT_MODULUS"
  unfolding pts_forward_distance_mod by simp

lemma pts_forward_distance_add:
  assumes "d < PTS_33BIT_MODULUS"
  shows "pts_forward_distance a ((a + d) mod PTS_33BIT_MODULUS) = d"
proof -
  let ?M = "PTS_33BIT_MODULUS"
  have a: "a mod ?M < ?M" by simp
  have "((a + d) mod ?M + (?M - a mod ?M)) mod ?M = ((a mod ?M + d) + (?M - a mod ?M)) mod ?M"
    by (simp only: mod_add_left_eq add.assoc)
  also have "(a mod ?M + d) + (?M - a mod ?M) = ?M + d"
    using a by linarith
  also have "(?M + d) mod ?M = d" using assms by simp
  finally show ?thesis unfolding pts_forward_distance_mod .
qed

lemma add_pts_forward_distance:
  "(a + pts_forward_distance a b) mod PTS_33BIT_MODULUS = b mod PTS_33BIT_MODULUS"
proof -
  let ?M = "PTS_33BIT_MODULUS"
  have a: "a mod ?M < ?M" by simp
  have "(a + pts_forward_distance a b) mod ?M = (a mod ?M + (b + (?M - a mod ?M))) mod ?M"
    unfolding pts_forward_distance_mod by (simp only: mod_add_left_eq mod_add_right_eq)
  also have "a mod ?M + (b + (?M - a mod ?M)) = b + ?M"
    using a by linarith
  finally show ?thesis by simp
qed

subsection \<open>Segments and the mapper\<close>

definition segment_ok :: "segment \<Rightarrow> bool" where
  "segment_ok s \<longleftrightarrow> title_start s < title_end s \<and> title_end s < 2 ^ 64 \<and>
     title_end s - title_start s = pts_forward_distance (clip_start s) (clip_end s)"

definition carries_title_time :: "segment \<Rightarrow> nat \<Rightarrow> nat \<Rightarrow> bool" where
  "carries_title_time s raw t \<longleftrightarrow> title_start s \<le> t \<and> t < title_end s \<and>
     (clip_start s + (t - title_start s)) mod PTS_33BIT_MODULUS = raw mod PTS_33BIT_MODULUS"

text \<open>The mapping of one segment is the time of the title at which its clip shows the stamp.\<close>

lemma map_raw_iff:
  assumes "segment_ok s"
  shows "map_raw_pts_in_segment s raw = Some t \<longleftrightarrow> carries_title_time s raw t"
proof -
  let ?M = "PTS_33BIT_MODULUS"
  let ?d = "pts_forward_distance (clip_start s) raw"
  have ok: "title_start s < title_end s" "title_end s < 2 ^ 64"
    "title_end s - title_start s = pts_forward_distance (clip_start s) (clip_end s)"
    using assms by (simp_all add: segment_ok_def)
  have len: "title_end s - title_start s < ?M"
    unfolding ok(3) by (rule pts_forward_distance_less)
  have raw: "pts_forward_distance (clip_start s) (raw mod ?M) = ?d"
    unfolding pts_forward_distance_mod by (rule mod_add_left_eq)
  have m: "map_raw_pts_in_segment s raw = (if ?d < title_end s - title_start s
      then Some (title_start s + ?d) else None)"
    using ok unfolding map_raw_pts_in_segment_def Let_def ok(3)[symmetric]
    by (auto simp: checked_add64_def)
  show ?thesis
  proof
    assume a: "map_raw_pts_in_segment s raw = Some t"
    then have t: "t = title_start s + ?d" "?d < title_end s - title_start s"
      unfolding m by (simp_all split: if_splits)
    then show "carries_title_time s raw t"
      unfolding carries_title_time_def using add_pts_forward_distance[of "clip_start s" raw] by simp
  next
    assume c: "carries_title_time s raw t"
    then have t: "title_start s \<le> t" "t < title_end s"
      and e: "(clip_start s + (t - title_start s)) mod ?M = raw mod ?M"
      unfolding carries_title_time_def by blast+
    have "t - title_start s < ?M" using t len by linarith
    from pts_forward_distance_add[OF this, of "clip_start s"] have "?d = t - title_start s"
      unfolding e raw .
    then show "map_raw_pts_in_segment s raw = Some t" unfolding m using t by simp
  qed
qed

definition mapper_ok :: "pts_mapper \<Rightarrow> bool" where
  "mapper_ok m \<longleftrightarrow> (case mode m of
     Segmented segs \<Rightarrow> segs \<noteq> [] \<and> (\<forall>s \<in> set segs. segment_ok s) \<and>
       sorted_wrt (\<lambda>s s'. title_end s \<le> title_start s') segs
   | _ \<Rightarrow> True)"

lemma validate_segments_sorted:
  assumes "fold_res validate_segment segs prev = Inr r" and "\<forall>s \<in> set segs. title_end s < 2 ^ 64"
  shows "(\<forall>s \<in> set segs. segment_ok s \<and> (\<forall>e. prev = Some e \<longrightarrow> e \<le> title_start s)) \<and>
    sorted_wrt (\<lambda>s s'. title_end s \<le> title_start s') segs"
  using assms
proof (induction segs arbitrary: prev)
  case Nil
  then show ?case by simp
next
  case (Cons s segs)
  from Cons.prems(1) obtain p where p: "validate_segment s prev = Inr p"
      "fold_res validate_segment segs p = Inr r"
    by (auto simp: res_bind_eq_Inr_iff)
  have s: "segment_ok s" "p = Some (title_end s)" "\<forall>e. prev = Some e \<longrightarrow> e \<le> title_start s"
    using p(1) Cons.prems(2)
    by (auto simp: validate_segment_def segment_ok_def Let_def split: if_splits option.splits)
  have IH: "\<forall>x \<in> set segs. segment_ok x \<and> title_end s \<le> title_start x"
      "sorted_wrt (\<lambda>s s'. title_end s \<le> title_start s') segs"
    using Cons.IH[OF p(2)] Cons.prems(2) s(2) by simp_all
  moreover have "title_start s < title_end s" using s(1) by (simp add: segment_ok_def)
  ultimately show ?case using s by force
qed

lemma segmented_ok:
  assumes "segmented segs = Inr m" and "\<forall>s \<in> set segs. title_end s < 2 ^ 64"
  shows "mapper_ok m"
proof (cases "segs = []")
  case True
  then show ?thesis using assms(1) by (auto simp: segmented_def mapper_ok_def identity_continuous_def)
next
  case False
  let ?s = "sort_key (\<lambda>s. (title_start s, clip_ref s)) segs"
  obtain r where r: "fold_res validate_segment ?s None = Inr r" and m: "mode m = Segmented ?s"
    using assms(1) False
    by (auto simp: segmented_def validate_pts_segments_def Let_def res_bind_eq_Inr_iff)
  have "?s \<noteq> []" using False by (metis set_empty set_sort)
  then show ?thesis
    using validate_segments_sorted[OF r] assms(2) m by (simp add: mapper_ok_def)
qed

lemma mapper_ok_simps [simp]:
  "mapper_ok (prime_for_title_pts t m) = mapper_ok m"
  "mapper_ok (accept_segment_candidate i t m) = mapper_ok m"
  "last_title_pts (prime_for_title_pts t m) = last_title_pts m"
  "anchor_title_pts (prime_for_title_pts t m) = Some t"
  "mode (prime_for_title_pts t m) = mode m"
  by (auto simp: mapper_ok_def prime_for_title_pts_def accept_segment_candidate_def Let_def
      split: BlurayPtsMapMode.splits option.splits)

lemma better_fold:
  assumes "fold (better_candidate anchor raw) xs b = Some (i, t, sc)"
  shows "(b = Some (i, t, sc) \<or> (\<exists>s. (i, s) \<in> set xs \<and> map_raw_pts_in_segment s raw = Some t \<and>
        sc = (case anchor of None \<Rightarrow> 0 | Some a \<Rightarrow> title_pts_abs_diff t a)))
    \<and> (\<forall>x \<in> set xs. \<forall>u. map_raw_pts_in_segment (snd x) raw = Some u \<longrightarrow>
        sc \<le> (case anchor of None \<Rightarrow> 0 | Some a \<Rightarrow> title_pts_abs_diff u a))
    \<and> (\<forall>i' t' sc'. b = Some (i', t', sc') \<longrightarrow> sc \<le> sc')"
  using assms
proof (induction xs arbitrary: b)
  case Nil
  then show ?case by simp
next
  case (Cons x xs)
  let ?b = "better_candidate anchor raw x b"
  have step: "?b = b \<and> (\<forall>u. map_raw_pts_in_segment (snd x) raw = Some u \<longrightarrow>
      (\<exists>i' t' sc'. b = Some (i', t', sc') \<and> sc' \<le> (case anchor of None \<Rightarrow> 0 | Some a \<Rightarrow> title_pts_abs_diff u a)))
    \<or> (\<exists>u. map_raw_pts_in_segment (snd x) raw = Some u \<and>
      ?b = Some (fst x, u, case anchor of None \<Rightarrow> 0 | Some a \<Rightarrow> title_pts_abs_diff u a) \<and>
      (\<forall>i' t' sc'. b = Some (i', t', sc') \<longrightarrow>
        (case anchor of None \<Rightarrow> 0 | Some a \<Rightarrow> title_pts_abs_diff u a) < sc'))"
    by (cases "map_raw_pts_in_segment (snd x) raw"; cases b)
      (auto simp: better_candidate_def Let_def not_less)
  have f: "fold (better_candidate anchor raw) xs ?b = Some (i, t, sc)" using Cons.prems by simp
  note IH = Cons.IH[OF f]
  from step show ?case
  proof (elim disjE)
    assume a: "?b = b \<and> (\<forall>u. map_raw_pts_in_segment (snd x) raw = Some u \<longrightarrow>
      (\<exists>i' t' sc'. b = Some (i', t', sc') \<and> sc' \<le> (case anchor of None \<Rightarrow> 0 | Some a \<Rightarrow> title_pts_abs_diff u a)))"
    then have "\<forall>u. map_raw_pts_in_segment (snd x) raw = Some u \<longrightarrow>
        sc \<le> (case anchor of None \<Rightarrow> 0 | Some a \<Rightarrow> title_pts_abs_diff u a)"
      using IH by (metis (no_types, lifting) order_trans)
    then show ?thesis using IH a by auto
  next
    assume "\<exists>u. map_raw_pts_in_segment (snd x) raw = Some u \<and>
      ?b = Some (fst x, u, case anchor of None \<Rightarrow> 0 | Some a \<Rightarrow> title_pts_abs_diff u a) \<and>
      (\<forall>i' t' sc'. b = Some (i', t', sc') \<longrightarrow>
        (case anchor of None \<Rightarrow> 0 | Some a \<Rightarrow> title_pts_abs_diff u a) < sc')"
    then obtain u where u: "map_raw_pts_in_segment (snd x) raw = Some u"
      "?b = Some (fst x, u, case anchor of None \<Rightarrow> 0 | Some a \<Rightarrow> title_pts_abs_diff u a)"
      "\<And>i' t' sc'. b = Some (i', t', sc') \<Longrightarrow>
        (case anchor of None \<Rightarrow> 0 | Some a \<Rightarrow> title_pts_abs_diff u a) < sc'" by blast
    have le: "sc \<le> (case anchor of None \<Rightarrow> 0 | Some a \<Rightarrow> title_pts_abs_diff u a)"
      using IH u(2) by blast
    have p: "(fst x, snd x) \<in> set (x # xs)" by simp
    have b: "\<forall>i' t' sc'. b = Some (i', t', sc') \<longrightarrow> sc \<le> sc'"
      by (intro allI impI) (use u(3) le in \<open>fastforce dest: order.strict_trans1\<close>)
    from IH have "?b = Some (i, t, sc) \<or> (\<exists>s. (i, s) \<in> set xs \<and>
        map_raw_pts_in_segment s raw = Some t \<and>
        sc = (case anchor of None \<Rightarrow> 0 | Some a \<Rightarrow> title_pts_abs_diff t a))" by blast
    then have "\<exists>s. (i, s) \<in> set (x # xs) \<and> map_raw_pts_in_segment s raw = Some t \<and>
        sc = (case anchor of None \<Rightarrow> 0 | Some a \<Rightarrow> title_pts_abs_diff t a)"
      using p u(1,2) by (metis Pair_inject list.set_intros(2) option.inject)
    then show ?thesis using IH u(1) le b by (metis option.inject set_ConsD)
  qed
qed





text \<open>What one call to the mapper may answer.\<close>

lemma try_first_facts:
  assumes "try_first_segment_candidate segs raw m = (Some t, m')"
  shows "\<exists>i s. i < length segs \<and> s = segs ! i \<and> map_raw_pts_in_segment s raw = Some t \<and>
      m' = accept_segment_candidate i t m"
    and "\<forall>s \<in> set segs. \<forall>u. map_raw_pts_in_segment s raw = Some u \<longrightarrow>
      (\<forall>a. anchor_title_pts m = Some a \<longrightarrow> title_pts_abs_diff t a \<le> title_pts_abs_diff u a)"
proof -
  obtain i sc where f: "fold (better_candidate (anchor_title_pts m) raw) (enumerate 0 segs) None = Some (i, t, sc)"
    and m': "m' = accept_segment_candidate i t m"
    using assms by (auto simp: try_first_segment_candidate_def split: option.splits)
  note b = better_fold[OF f]
  obtain s where s: "(i, s) \<in> set (enumerate 0 segs)" "map_raw_pts_in_segment s raw = Some t"
      "sc = (case anchor_title_pts m of None \<Rightarrow> 0 | Some a \<Rightarrow> title_pts_abs_diff t a)"
    using b by auto
  then show "\<exists>i s. i < length segs \<and> s = segs ! i \<and> map_raw_pts_in_segment s raw = Some t \<and>
      m' = accept_segment_candidate i t m"
    using m' by (auto simp: in_set_enumerate_eq)
  show "\<forall>s \<in> set segs. \<forall>u. map_raw_pts_in_segment s raw = Some u \<longrightarrow>
      (\<forall>a. anchor_title_pts m = Some a \<longrightarrow> title_pts_abs_diff t a \<le> title_pts_abs_diff u a)"
  proof (intro ballI allI impI)
    fix s' u a
    assume a: "s' \<in> set segs" "map_raw_pts_in_segment s' raw = Some u" "anchor_title_pts m = Some a"
    then obtain j where "j < length segs" "segs ! j = s'" by (auto simp: in_set_conv_nth)
    then have "(j, s') \<in> set (enumerate 0 segs)" by (simp add: in_set_enumerate_eq)
    then show "title_pts_abs_diff t a \<le> title_pts_abs_diff u a"
      using b a s(3) by (metis option.simps(5) snd_conv)
  qed
qed

lemma try_first_None:
  assumes "fst (try_first_segment_candidate segs raw m) = None"
  shows "\<forall>s \<in> set segs. map_raw_pts_in_segment s raw = None"
proof -
  have keep: "fold (better_candidate a raw) xs (Some b) \<noteq> None" for a xs b
    by (induction xs arbitrary: b) (auto simp: better_candidate_def Let_def split: option.splits)
  have "fold (better_candidate a raw) xs None = None \<Longrightarrow> \<forall>x \<in> set xs. map_raw_pts_in_segment (snd x) raw = None"
    for a xs
  proof (induction xs)
    case (Cons x xs)
    show ?case
    proof (cases "map_raw_pts_in_segment (snd x) raw")
      case None
      then have "better_candidate a raw x None = None" by (simp add: better_candidate_def)
      then show ?thesis using Cons None by simp
    next
      case (Some u)
      then obtain b where "better_candidate a raw x None = Some b"
        by (simp add: better_candidate_def Let_def)
      then show ?thesis using Cons.prems keep[of a xs b] by simp
    qed
  qed simp
  then have "\<forall>x \<in> set (enumerate 0 segs). map_raw_pts_in_segment (snd x) raw = None"
    using assms by (auto simp: try_first_segment_candidate_def split: option.splits)
  moreover have "(i, segs ! i) \<in> set (enumerate 0 segs)" if "i < length segs" for i
    using that by (simp add: in_set_enumerate_eq)
  ultimately show ?thesis by (metis in_set_conv_nth snd_conv)
qed

lemma try_segments_facts:
  assumes "try_segments segs is raw m = (Some t, m')"
  shows "\<exists>i \<in> set is. map_raw_pts_in_segment (segs ! i) raw = Some t \<and>
      m' = accept_segment_candidate i t m \<and> (\<forall>l. last_title_pts m = Some l \<longrightarrow> l \<le> t)"
  using assms
  by (induction "is")
    (auto simp: try_segment_candidate_def split: option.splits if_splits)

lemma map_pes_facts:
  assumes "mapper_ok m" and "mode m = Segmented segs"
    and "map_pes_pts_to_title_pts raw m = (Some t, m')"
  shows "(\<exists>s \<in> set segs. carries_title_time s raw t) \<and> mode m' = Segmented segs \<and> mapper_ok m' \<and>
    last_title_pts m' = Some t \<and> (\<forall>l. last_title_pts m = Some l \<longrightarrow> l \<le> t)"
proof -
  have ne: "segs \<noteq> []" and ok: "\<forall>s \<in> set segs. segment_ok s"
    using assms(1,2) by (simp_all add: mapper_ok_def)
  consider (first) "last_title_pts m = None" "try_first_segment_candidate segs raw m = (Some t, m')"
    | (scan) h where "h < length segs"
        "try_segments segs (h # [h + 1..<length segs] @ [0..<h]) raw m = (Some t, m')"
  proof -
    let ?h = "min (case segment_hint m of None \<Rightarrow> 0 | Some h \<Rightarrow> h) (length segs - 1)"
    have "?h < length segs" using ne by (cases segs) auto
    then show thesis
      using that(1) that(2)[of ?h] assms(2,3)
      unfolding map_pes_pts_to_title_pts_def Let_def
      by (cases "last_title_pts m = None"; cases "try_first_segment_candidate segs raw m")
        (auto simp del: try_segments.simps split: option.splits)
  qed
  then obtain i where i: "i < length segs" "map_raw_pts_in_segment (segs ! i) raw = Some t"
    "m' = accept_segment_candidate i t m" "\<forall>l. last_title_pts m = Some l \<longrightarrow> l \<le> t"
  proof cases
    case first
    then show ?thesis using that try_first_facts(1)[OF first(2)] by auto
  next
    case scan
    obtain i where "i \<in> set (h # [h + 1..<length segs] @ [0..<h])"
        "map_raw_pts_in_segment (segs ! i) raw = Some t" "m' = accept_segment_candidate i t m"
        "\<forall>l. last_title_pts m = Some l \<longrightarrow> l \<le> t"
      using try_segments_facts[OF scan(2)] by blast
    moreover from this(1) have "i < length segs" using scan(1) by auto
    ultimately show ?thesis using that by blast
  qed
  then show ?thesis
    using assms(1,2) ok map_raw_iff[of "segs ! i" raw t]
    by (auto simp: accept_segment_candidate_def mapper_ok_def)
qed

lemma map_pes_None: "map_pes_pts_to_title_pts raw m = (None, m') \<Longrightarrow> m' = m"
proof -
  have s: "try_segments segs is raw m = (None, m') \<Longrightarrow> m' = m" for segs "is"
    by (induction "is") (auto split: option.splits prod.splits)
  show "map_pes_pts_to_title_pts raw m = (None, m') \<Longrightarrow> m' = m"
    by (auto simp: map_pes_pts_to_title_pts_def Let_def try_first_segment_candidate_def
      split: BlurayPtsMapMode.splits if_splits option.splits prod.splits dest: s)
qed

fun map_all :: "nat list \<Rightarrow> pts_mapper \<Rightarrow> nat list" where
  "map_all [] m = []"
| "map_all (r # rs) m = (case map_pes_pts_to_title_pts r m of
     (None, m') \<Rightarrow> map_all rs m' | (Some t, m') \<Rightarrow> t # map_all rs m')"

lemma map_all_sorted:
  assumes "mapper_ok m" and "mode m = Segmented segs"
  shows "sorted (map_all rs m) \<and> (\<forall>t \<in> set (map_all rs m).
    (\<forall>l. last_title_pts m = Some l \<longrightarrow> l \<le> t) \<and> (\<exists>s \<in> set segs. title_start s \<le> t \<and> t < title_end s))"
  using assms
proof (induction rs arbitrary: m)
  case Nil
  then show ?case by simp
next
  case (Cons r rs)
  show ?case
  proof (cases "map_pes_pts_to_title_pts r m")
    case (Pair out m')
    show ?thesis
    proof (cases out)
      case None
      then show ?thesis using Cons Pair map_pes_None by fastforce
    next
      case (Some t)
      note f = map_pes_facts[OF Cons.prems, of r t m']
      have f': "mapper_ok m'" "mode m' = Segmented segs" "last_title_pts m' = Some t"
        "\<forall>l. last_title_pts m = Some l \<longrightarrow> l \<le> t" "\<exists>s \<in> set segs. title_start s \<le> t \<and> t < title_end s"
        using f Pair Some by (auto simp: carries_title_time_def)
      show ?thesis using Cons.IH[OF f'(1,2)] f' Pair Some by force
    qed
  qed
qed

fun map_run :: "nat list \<Rightarrow> pts_mapper \<Rightarrow> nat option list" where
  "map_run [] m = []"
| "map_run (r # rs) m = (case map_pes_pts_to_title_pts r m of (answer, m') \<Rightarrow> answer # map_run rs m')"

text \<open>Stamps with their title times, read in title order after \<open>prev\<close>: each is shown by a clip at its time, and
  no clip that has ended by then shows it a second time at or after \<open>prev\<close>.\<close>

fun reads_in_order :: "segment list \<Rightarrow> nat \<Rightarrow> (nat \<times> nat) list \<Rightarrow> bool" where
  "reads_in_order segs prev [] \<longleftrightarrow> True"
| "reads_in_order segs prev ((raw, t) # rest) \<longleftrightarrow> prev \<le> t \<and> (\<exists>s \<in> set segs. carries_title_time s raw t)
     \<and> (\<forall>s \<in> set segs. title_end s \<le> t \<longrightarrow> (\<forall>u \<ge> prev. \<not> carries_title_time s raw u))
     \<and> reads_in_order segs t rest"

lemma reads_in_order_set: "set segs = set segs' \<Longrightarrow> reads_in_order segs t stamps = reads_in_order segs' t stamps"
  by (induction segs t stamps rule: reads_in_order.induct) auto

lemma try_segments_skip:
  "(\<forall>i \<in> set is. \<forall>u. map_raw_pts_in_segment (segs ! i) raw = Some u \<longrightarrow> u < l) \<Longrightarrow> last_title_pts m = Some l \<Longrightarrow>
     try_segments segs (is @ js) raw m = try_segments segs js raw m"
  by (induction "is") (fastforce simp: try_segment_candidate_def split: option.splits)+

lemma map_pes_next:
  assumes ok: "mapper_ok m" "mode m = Segmented segs" and last: "last_title_pts m = Some l"
    and hint: "segment_hint m = Some i" "i < length segs" "title_start (segs ! i) \<le> l"
    and t: "l \<le> t" "j < length segs" "carries_title_time (segs ! j) raw t"
    and clear: "\<forall>s \<in> set segs. title_end s \<le> t \<longrightarrow> (\<forall>u \<ge> l. \<not> carries_title_time s raw u)"
  shows "map_pes_pts_to_title_pts raw m = (Some t, accept_segment_candidate j t m)"
proof -
  have sok: "\<forall>s \<in> set segs. segment_ok s" and sorted: "sorted_wrt (\<lambda>s s'. title_end s \<le> title_start s') segs"
    using ok by (simp_all add: mapper_ok_def)
  have before: "title_end (segs ! a) \<le> title_start (segs ! b)" if "a < b" "b < length segs" for a b
    using sorted_wrt_nth_less[OF sorted that] .
  have tj: "title_start (segs ! j) \<le> t" "t < title_end (segs ! j)" using t(3) by (simp_all add: carries_title_time_def)
  have "i \<le> j"
  proof (rule ccontr)
    assume "\<not> i \<le> j"
    then have "title_end (segs ! j) \<le> title_start (segs ! i)" using before[of j i] hint(2) by simp
    then show False using hint(3) t(1) tj(2) by linarith
  qed
  have skip: "u < l" if "k \<in> set [i..<j]" "map_raw_pts_in_segment (segs ! k) raw = Some u" for k u
  proof -
    have k: "k < length segs" "title_end (segs ! k) \<le> t" using that(1) before[of k j] t(2) tj(1) by auto
    have "carries_title_time (segs ! k) raw u" using that(2) map_raw_iff[of "segs ! k"] sok k(1) by auto
    then show ?thesis using clear k nth_mem linorder_not_le by blast
  qed
  have mr: "map_raw_pts_in_segment (segs ! j) raw = Some t" using map_raw_iff[of "segs ! j"] sok t(2,3) by simp
  have order: "i # [i + 1..<length segs] @ [0..<i] = [i..<j] @ j # [Suc j..<length segs] @ [0..<i]"
  proof -
    have "i # [i + 1..<length segs] = [i..<length segs]" using hint(2) by (simp add: upt_conv_Cons)
    also have "\<dots> = [i..<j] @ [j..<length segs]"
      using upt_add_eq_append[OF \<open>i \<le> j\<close>, of "length segs - j"] t(2) by simp
    also have "[j..<length segs] = j # [Suc j..<length segs]" using t(2) by (rule upt_conv_Cons)
    finally show ?thesis by simp
  qed
  have "try_segments segs ([i..<j] @ j # [Suc j..<length segs] @ [0..<i]) raw m
      = try_segments segs (j # [Suc j..<length segs] @ [0..<i]) raw m"
    by (rule try_segments_skip[OF _ last]) (use skip in blast)
  also have "\<dots> = (Some t, accept_segment_candidate j t m)"
    using mr last t(1) by (simp add: try_segment_candidate_def)
  finally have run: "try_segments segs (i # [i + 1..<length segs] @ [0..<i]) raw m
      = (Some t, accept_segment_candidate j t m)" by (simp only: order)
  have "min i (length segs - 1) = i" using hint(2) by linarith
  then show ?thesis using run last hint(1) ok(2)
    by (simp add: map_pes_pts_to_title_pts_def Let_def del: try_segments.simps)
qed

lemma map_run_exact:
  assumes "mapper_ok m" and "mode m = Segmented segs" and "last_title_pts m = Some l"
    and "segment_hint m = Some i" and "i < length segs" and "title_start (segs ! i) \<le> l"
    and "reads_in_order segs l stamps"
  shows "map_run (map fst stamps) m = map (Some \<circ> snd) stamps"
  using assms
proof (induction stamps arbitrary: m l i)
  case (Cons x stamps)
  obtain raw t where x: "x = (raw, t)" by (cases x)
  obtain j where j: "j < length segs" "carries_title_time (segs ! j) raw t"
    using Cons.prems(7) x by (auto simp: in_set_conv_nth)
  have r: "map_pes_pts_to_title_pts raw m = (Some t, accept_segment_candidate j t m)"
    using Cons.prems(7) x by (intro map_pes_next[OF Cons.prems(1-6) _ j]) auto
  have "map_run (map fst stamps) (accept_segment_candidate j t m) = map (Some \<circ> snd) stamps"
  proof (rule Cons.IH)
    show "mode (accept_segment_candidate j t m) = Segmented segs" "last_title_pts (accept_segment_candidate j t m) = Some t"
      "segment_hint (accept_segment_candidate j t m) = Some j"
      using Cons.prems(2) by (simp_all add: accept_segment_candidate_def)
    show "title_start (segs ! j) \<le> t" using j(2) by (simp add: carries_title_time_def)
    show "reads_in_order segs t stamps" using Cons.prems(7) x by simp
  qed (use Cons.prems(1) j(1) in simp_all)
  then show ?case using r x by simp
qed simp

text \<open>C15: A mapper built from clip segments and primed for a title time maps the stamps of a title read in order
  exactly: the first stamp, shown by some clip at the primed time, to that time, even when other clips show the same
  stamp elsewhere (clips that restart at zero); and every later stamp to its own title time, as long as no clip that has
  ended by then shows the stamp again at or after the previous one. Whatever stamps follow instead, the accepted title
  times never run backwards and each lies inside a segment.\<close>

theorem primed_mapper_exact:
  assumes "segmented segs = Inr m" and "\<forall>s \<in> set segs. title_end s < 2 ^ 64"
    and "s \<in> set segs" and "carries_title_time s raw t" and "reads_in_order segs t stamps"
  shows "map_run (raw # map fst stamps) (prime_for_title_pts t m) = Some t # map (Some \<circ> snd) stamps \<and>
    sorted (t # map_all raws (snd (map_pes_pts_to_title_pts raw (prime_for_title_pts t m)))) \<and>
    (\<forall>u \<in> set (map_all raws (snd (map_pes_pts_to_title_pts raw (prime_for_title_pts t m)))).
      \<exists>s \<in> set segs. title_start s \<le> u \<and> u < title_end s)"
proof -
  let ?m = "prime_for_title_pts t m" and ?s = "sort_key (\<lambda>s. (title_start s, clip_ref s)) segs"
  have ok: "mapper_ok ?m" using segmented_ok[OF assms(1,2)] by simp
  have md: "mode ?m = Segmented ?s" "last_title_pts ?m = None" "anchor_title_pts ?m = Some t"
    using assms(1,3) by (auto simp: segmented_def Let_def res_bind_eq_Inr_iff split: if_splits)
  have so: "\<forall>s \<in> set ?s. segment_ok s" using ok md(1) unfolding mapper_ok_def by simp
  have mr: "map_raw_pts_in_segment s raw = Some t"
    using map_raw_iff so assms(3,4) by simp
  obtain u m' where f: "try_first_segment_candidate ?s raw ?m = (Some u, m')"
  proof (cases "try_first_segment_candidate ?s raw ?m")
    case (Pair v m')
    then show ?thesis
      using that try_first_None[of ?s raw ?m] mr assms(3) by (cases v) auto
  qed
  have "title_pts_abs_diff u t \<le> title_pts_abs_diff t t"
    using try_first_facts(2)[OF f] mr assms(3) md(3) by auto
  then have "u = t" by (auto simp: title_pts_abs_diff_def split: if_splits)
  then have r: "map_pes_pts_to_title_pts raw ?m = (Some t, m')"
    using f md by (simp add: map_pes_pts_to_title_pts_def)
  have n: "mapper_ok m'" "mode m' = Segmented ?s" "last_title_pts m' = Some t"
    using map_pes_facts[OF ok md(1) r] by simp_all
  obtain i where i: "i < length ?s" "map_raw_pts_in_segment (?s ! i) raw = Some t" "segment_hint m' = Some i"
    using try_first_facts(1)[OF f] \<open>u = t\<close> by (auto simp: accept_segment_candidate_def)
  have "carries_title_time (?s ! i) raw t" using i(1,2) so map_raw_iff nth_mem by blast
  then have "title_start (?s ! i) \<le> t" by (simp add: carries_title_time_def)
  moreover have "reads_in_order ?s t stamps" using assms(5) reads_in_order_set[of segs ?s t stamps] by simp
  ultimately have "map_run (map fst stamps) m' = map (Some \<circ> snd) stamps"
    by (intro map_run_exact[OF n i(3,1)])
  then show ?thesis using map_all_sorted[OF n(1,2), of raws] n(3) r by auto
qed

theorem primed_mapper_exact_witness:
  "map_run [5, 8, 2, 7] (prime_for_title_pts 5
     \<lparr> mode = Segmented [\<lparr> title_start = 0, title_end = 10, clip_ref = 0, clip_start = 0, clip_end = 10 \<rparr>,
       \<lparr> title_start = 10, title_end = 20, clip_ref = 1, clip_start = 0, clip_end = 10 \<rparr>],
       segment_hint = Some 0, last_title_pts = None, anchor_title_pts = None \<rparr>) = [Some 5, Some 8, Some 12, Some 17]"
proof -
  let ?a = "\<lparr> title_start = 0, title_end = 10, clip_ref = 0, clip_start = 0, clip_end = 10 \<rparr>"
  let ?b = "\<lparr> title_start = 10, title_end = 20, clip_ref = 1, clip_start = 0, clip_end = 10 \<rparr>"
  let ?m = "\<lparr> mode = Segmented [?a, ?b], segment_hint = Some 0, last_title_pts = None,
    anchor_title_pts = None \<rparr>"
  have m: "segmented [?a, ?b] = Inr ?m"
    by (simp add: segmented_def validate_pts_segments_def validate_segment_def
        pts_forward_distance_def)
  have c: "\<forall>s \<in> set [?a, ?b]. title_end s < 2 ^ 64" "?a \<in> set [?a, ?b]" "carries_title_time ?a 5 5"
    by (simp_all add: carries_title_time_def)
  have "reads_in_order [?a, ?b] 5 [(8, 8), (2, 12), (7, 17)]" by (simp add: carries_title_time_def)
  from conjunct1[OF primed_mapper_exact[OF m c this, of "[]"]]
  show ?thesis by (simp del: map_run.simps One_nat_def)
qed

end
