(* ===== verification/BlurayLpcm.thy ===== *)
theory BlurayLpcm
  imports TsPacket TsDemux BlurayPts
begin

text \<open>
  Blu-ray LPCM extraction, \<open>src/convert/pipeline/bluray_lpcm.rs\<close> with the header parser of
  \<open>src/disc/bluray_utils.rs\<close> and the WAV format of \<open>bluray_wav_validate.rs\<close>: the four-byte LPCM
  header, the channel map, the bounded buffer of packets that arrive before the first time stamp,
  the trimming of a packet to the chapter, the conversion of its samples, and the extractor that
  strings them together (\<open>process_pes_packet\<close>).

  The state is the record \<open>extractor\<close>; the mapper's cells, which the code reaches through the
  configuration, and the audio bytes written to the output file after its header (\<open>written\<close>) are
  fields of it. The file is an append-only byte list: failures of the operating system to write are
  left out, as are the texts and labels that only appear in messages (playlist and chapter numbers,
  the source path, the layout label, whose mismatch is only logged). Every error the code returns is
  a constructor of \<open>lpcm_error\<close>. \<open>usize\<close> and \<open>u64\<close> are \<open>nat\<close> with the code's checked operations.
\<close>

subsection \<open>The LPCM header\<close>

datatype Channel = FrontLeft | FrontRight | FrontCenter | LowFrequency | BackLeft | BackRight
  | BackCenter | SideLeft | SideRight

fun speaker_mask :: "Channel \<Rightarrow> nat" where
  "speaker_mask FrontLeft = 0x1"
| "speaker_mask FrontRight = 0x2"
| "speaker_mask FrontCenter = 0x4"
| "speaker_mask LowFrequency = 0x8"
| "speaker_mask BackLeft = 0x10"
| "speaker_mask BackRight = 0x20"
| "speaker_mask BackCenter = 0x100"
| "speaker_mask SideLeft = 0x200"
| "speaker_mask SideRight = 0x400"

definition ch_5_1 :: "Channel list" where
  "ch_5_1 = [FrontLeft, FrontRight, FrontCenter, LowFrequency, SideLeft, SideRight]"

definition ch_7_0_bd :: "Channel list" where
  "ch_7_0_bd = [FrontLeft, FrontRight, FrontCenter, SideLeft, SideRight, BackLeft, BackRight]"

definition ch_7_0_wav :: "Channel list" where
  "ch_7_0_wav = [FrontLeft, FrontRight, FrontCenter, BackLeft, BackRight, SideLeft, SideRight]"

definition ch_7_1_bd :: "Channel list" where
  "ch_7_1_bd = [FrontLeft, FrontRight, FrontCenter, LowFrequency, SideLeft, SideRight,
     BackLeft, BackRight]"

definition ch_7_1_wav :: "Channel list" where
  "ch_7_1_wav = [FrontLeft, FrontRight, FrontCenter, LowFrequency, BackLeft, BackRight,
     SideLeft, SideRight]"

record lpcm_header =
  audio_presentation_type :: u8
  sample_rate_code :: u8
  bits_per_sample_code :: u8
  channel_assignment :: u8
  sample_rate :: nat
  container_bits :: nat
  valid_bits :: nat
  channels :: nat
  wav_channel_mask :: "nat option"
  bd_channel_order :: "Channel list"
  wav_channel_order :: "Channel list"

datatype header_error =
    ReservedSampleRateCode u8
  | ReservedBitsPerSampleCode u8
  | UnsupportedChannelAssignment u8

definition align_to_even :: "nat \<Rightarrow> nat" where
  "align_to_even n = (if n mod 2 = 0 then n else n + 1)"

definition coded_channels :: "lpcm_header \<Rightarrow> nat" where
  "coded_channels h = align_to_even (channels h)"

text \<open>The channel table: count, speaker mask, order on the disc, order in a WAV file. The masks are
  the sums of the speakers' bits.\<close>

definition channel_table :: "u8 \<Rightarrow> (nat \<times> nat \<times> Channel list \<times> Channel list) option" where
  "channel_table a = (
     if a = 1 then Some (1, 0x4, [FrontCenter], [FrontCenter])
     else if a = 3 then Some (2, 0x3, [FrontLeft, FrontRight], [FrontLeft, FrontRight])
     else if a = 4 then Some (3, 0x7, [FrontLeft, FrontRight, FrontCenter],
       [FrontLeft, FrontRight, FrontCenter])
     else if a = 5 then Some (3, 0x103, [FrontLeft, FrontRight, BackCenter],
       [FrontLeft, FrontRight, BackCenter])
     else if a = 6 then Some (4, 0x107, [FrontLeft, FrontRight, FrontCenter, BackCenter],
       [FrontLeft, FrontRight, FrontCenter, BackCenter])
     else if a = 7 then Some (4, 0x603, [FrontLeft, FrontRight, SideLeft, SideRight],
       [FrontLeft, FrontRight, SideLeft, SideRight])
     else if a = 8 then Some (5, 0x607, [FrontLeft, FrontRight, FrontCenter, SideLeft, SideRight],
       [FrontLeft, FrontRight, FrontCenter, SideLeft, SideRight])
     else if a = 9 then Some (6, 0x60F, ch_5_1, ch_5_1)
     else if a = 10 then Some (7, 0x637, ch_7_0_bd, ch_7_0_wav)
     else if a = 11 then Some (8, 0x63F, ch_7_1_bd, ch_7_1_wav)
     else None)"

definition bit_depths :: "u8 \<Rightarrow> (nat \<times> nat) option" where
  "bit_depths c = (if c = 1 then Some (16, 16) else if c = 2 then Some (24, 20)
     else if c = 3 then Some (24, 24) else None)"

definition sample_rates :: "u8 \<Rightarrow> nat option" where
  "sample_rates c = (if c = 1 then Some 48000 else if c = 4 then Some 96000
     else if c = 5 then Some 192000 else None)"

definition parse_bluray_lpcm_header :: "u8 \<Rightarrow> u8 \<Rightarrow> header_error + lpcm_header" where
  "parse_bluray_lpcm_header b2 b3 =
     (let a = drop_bit 4 b2; r = b2 AND 0x0f; b = drop_bit 6 b3 in
      res_bind (ok_or (ReservedBitsPerSampleCode b) (bit_depths b)) (\<lambda>(cb, vb).
      res_bind (ok_or (ReservedSampleRateCode r) (sample_rates r)) (\<lambda>rate.
      res_bind (ok_or (UnsupportedChannelAssignment a) (channel_table a)) (\<lambda>(n, spk, bd, wav).
        Inr \<lparr> audio_presentation_type = a, sample_rate_code = r, bits_per_sample_code = b, channel_assignment = a,
              sample_rate = rate, container_bits = cb, valid_bits = vb, channels = n,
              wav_channel_mask = Some spk, bd_channel_order = bd, wav_channel_order = wav \<rparr>))))"

subsection \<open>WAV format and channel map\<close>

record wav_format =
  f_sample_rate :: nat
  f_channels :: nat
  f_container_bits :: nat
  f_valid_bits :: nat
  f_channel_mask :: "nat option"
  format_extensible :: bool

datatype lpcm_error =
    TsError ts_error
  | SubheaderTooShort
  | HeaderParse header_error
  | UnsupportedContainer nat
  | UnsupportedValidBits nat nat
  | RateMismatch nat nat
  | DepthMismatch nat nat
  | ChannelMismatch nat nat
  | BadChannelOrder
  | HeaderChanged lpcm_header lpcm_header
  | HeaderWithoutFormat
  | HeaderMissing
  | FormatMissing
  | ChannelMapMissing
  | FrameSizeZero
  | UnalignedPayload nat nat
  | UnsupportedSampleBytes nat
  | SampleOffsetOverflow nat nat
  | ConversionOverflow
  | WavSizeOverflow
  | UnmappedPts nat
  | PrerollGap
  | PrerollFull nat nat
  | MissingPtsAfterGap
  | NoExactTimeline
  | TimestampedPreroll
  | PrerollOverflow
  | DerivedOverflow
  | OutputTooLarge nat nat
  | OutputTooSmall nat nat

definition LpcmWavFormat_new :: "nat \<Rightarrow> nat \<Rightarrow> nat \<Rightarrow> nat \<Rightarrow> nat option \<Rightarrow> lpcm_error + wav_format" where
  "LpcmWavFormat_new rate n cb vb spk = (
     if cb \<notin> set [16, 24] then Inl (UnsupportedContainer cb)
     else if vb \<notin> set [16, 20, 24] \<or> vb > cb then Inl (UnsupportedValidBits vb cb)
     else Inr \<lparr> f_sample_rate = rate, f_channels = n, f_container_bits = cb, f_valid_bits = vb,
       f_channel_mask = spk, format_extensible = (vb \<noteq> cb \<or> n > 2 \<or> spk \<noteq> None) \<rparr>)"

definition bytes_per_sample :: "wav_format \<Rightarrow> nat" where
  "bytes_per_sample f = f_container_bits f div 8"

fun map_channels :: "Channel list \<Rightarrow> Channel list \<Rightarrow> nat \<Rightarrow> (nat list) option" where
  "map_channels bd [] coded = Some []"
| "map_channels bd (c # cs) coded = (case position (\<lambda>b. b = c) bd of
     None \<Rightarrow> None
   | Some i \<Rightarrow> if i < 256 \<and> i < coded then map_option ((#) i) (map_channels bd cs coded) else None)"

definition channel_map_from_lpcm_header :: "lpcm_header \<Rightarrow> lpcm_error + nat list" where
  "channel_map_from_lpcm_header h = (
     if length (bd_channel_order h) \<noteq> channels h then Inl BadChannelOrder
     else if length (wav_channel_order h) \<noteq> channels h then Inl BadChannelOrder
     else ok_or BadChannelOrder
       (map_channels (bd_channel_order h) (wav_channel_order h) (coded_channels h)))"

subsection \<open>Packets without a time stamp before the first one with\<close>

abbreviation BLURAY_LPCM_PREROLL_MAX_PACKETS :: nat where
  "BLURAY_LPCM_PREROLL_MAX_PACKETS \<equiv> 8"
abbreviation BLURAY_LPCM_PREROLL_MAX_BYTES :: nat where
  "BLURAY_LPCM_PREROLL_MAX_BYTES \<equiv> 4194304"

record preroll_buffer =
  pending :: "SelectedPesPacket list"
  max_packets :: nat
  max_bytes :: nat
  byte_len :: nat

definition preroll_new :: "nat \<Rightarrow> nat \<Rightarrow> preroll_buffer" where
  "preroll_new p b = \<lparr> pending = [], max_packets = p, max_bytes = b, byte_len = 0 \<rparr>"

definition default_lpcm :: preroll_buffer where
  "default_lpcm = preroll_new BLURAY_LPCM_PREROLL_MAX_PACKETS BLURAY_LPCM_PREROLL_MAX_BYTES"

definition preroll_push :: "SelectedPesPacket \<Rightarrow> preroll_buffer \<Rightarrow> lpcm_error + preroll_buffer" where
  "preroll_push p b =
     (let n = length (pending b) + 1 in
      res_bind (ok_or PrerollOverflow (checked_add64 (byte_len b) (length (payload p)))) (\<lambda>bytes.
        if n > max_packets b \<or> bytes > max_bytes b then Inl (PrerollFull n bytes)
        else Inr (b\<lparr> byte_len := bytes, pending := pending b @ [p] \<rparr>)))"

definition preroll_clear :: "preroll_buffer \<Rightarrow> preroll_buffer" where
  "preroll_clear b = b\<lparr> pending := [], byte_len := 0 \<rparr>"

fun clean_chain :: "u8 option \<Rightarrow> SelectedPesPacket list \<Rightarrow> u8 option option" where
  "clean_chain prev [] = Some prev"
| "clean_chain prev (p # ps) =
     (if (case prev of None \<Rightarrow> True | Some e \<Rightarrow> continuity_start p = next_counter e)
      then clean_chain (Some (continuity_end p)) ps else None)"

definition has_clean_continuity_to :: "preroll_buffer \<Rightarrow> SelectedPesPacket \<Rightarrow> bool" where
  "has_clean_continuity_to b p = (case clean_chain None (pending b) of
     None \<Rightarrow> False
   | Some None \<Rightarrow> True
   | Some (Some e) \<Rightarrow> continuity_start p = next_counter e)"

subsection \<open>The extractor\<close>

record extraction_config =
  chapter_start :: nat
  chapter_end :: "nat option"
  expected_sample_rate :: "nat option"
  expected_bit_depth :: "nat option"
  expected_channels :: "nat option"

record extractor =
  config :: extraction_config
  mapper :: pts_mapper
  format :: "wav_format option"
  header :: "lpcm_header option"
  channel_map :: "nat list option"
  data_bytes_written :: nat
  accepted_pes_packets :: nat
  skipped_before_chapter :: nat
  saw_chapter_end :: bool
  preroll :: preroll_buffer
  timestamp_anchor :: "nat option"
  samples_since_anchor :: nat
  last_selected_end :: "u8 option"
  written :: "u8 list"

definition extractor_new :: "extraction_config \<Rightarrow> pts_mapper \<Rightarrow> extractor" where
  "extractor_new cfg m = \<lparr> config = cfg, mapper = m, format = None, header = None,
     channel_map = None, data_bytes_written = 0, accepted_pes_packets = 0,
     skipped_before_chapter = 0, saw_chapter_end = False, preroll = default_lpcm,
     timestamp_anchor = None, samples_since_anchor = 0, last_selected_end = None,
     written = [] \<rparr>"

datatype PesProcessingOutcome = Continue | Stop

type_synonym 'a lpcm_call = "extractor \<Rightarrow> (lpcm_error + 'a) \<times> extractor"

definition pure_call :: "lpcm_error + 'a \<Rightarrow> 'a lpcm_call" where
  "pure_call r x = (r, x)"

definition saturating_inc :: "nat \<Rightarrow> nat" where
  "saturating_inc n = min (n + 1) (2 ^ 64 - 1)"

definition checked_sample_byte_offset :: "nat \<Rightarrow> nat \<Rightarrow> lpcm_error + nat" where
  "checked_sample_byte_offset samples frame_bytes =
     ok_or (SampleOffsetOverflow samples frame_bytes) (checked_mul64 samples frame_bytes)"

definition expect :: "(nat \<Rightarrow> nat \<Rightarrow> lpcm_error) \<Rightarrow> nat option \<Rightarrow> nat \<Rightarrow> lpcm_error + unit" where
  "expect err expected actual = (case expected of
     Some e \<Rightarrow> if actual \<noteq> e then Inl (err e actual) else Inr ()
   | None \<Rightarrow> Inr ())"

definition validate_lpcm_header_against_expectations ::
  "extraction_config \<Rightarrow> lpcm_header \<Rightarrow> lpcm_error + unit" where
  "validate_lpcm_header_against_expectations cfg h =
     res_bind (expect RateMismatch (expected_sample_rate cfg) (sample_rate h)) (\<lambda>_.
     res_bind (expect DepthMismatch (expected_bit_depth cfg) (valid_bits h)) (\<lambda>_.
     expect ChannelMismatch (expected_channels cfg) (channels h)))"

definition parse_lpcm_payload_header :: "u8 list \<Rightarrow> lpcm_error + lpcm_header" where
  "parse_lpcm_payload_header pl = (
     if length pl < 4 then Inl SubheaderTooShort
     else case parse_bluray_lpcm_header (pl ! 2) (pl ! 3) of
       Inl e \<Rightarrow> Inl (HeaderParse e) | Inr h \<Rightarrow> Inr h)"

definition parse_pes :: "u8 list \<Rightarrow> lpcm_error + parsed_pes" where
  "parse_pes b = (case parse_lpcm_pes_packet b of Inl e \<Rightarrow> Inl (TsError e) | Inr p \<Rightarrow> Inr p)"

definition prepare_format_from_header :: "lpcm_header \<Rightarrow> wav_format lpcm_call" where
  "prepare_format_from_header h x = (case header x of
     Some prior \<Rightarrow>
       if prior \<noteq> h then (Inl (HeaderChanged prior h), x)
       else (ok_or HeaderWithoutFormat (format x), x)
   | None \<Rightarrow>
       (case res_bind (validate_lpcm_header_against_expectations (config x) h) (\<lambda>_.
             res_bind (channel_map_from_lpcm_header h) (\<lambda>cm.
             res_bind (LpcmWavFormat_new (sample_rate h) (channels h) (container_bits h)
                 (valid_bits h) (wav_channel_mask h)) (\<lambda>f. Inr (cm, f)))) of
          Inl e \<Rightarrow> (Inl e, x)
        | Inr (cm, f) \<Rightarrow>
            (Inr f, x\<lparr> header := Some h, channel_map := Some cm, format := Some f \<rparr>)))"

definition lpcm_payload_timing :: "u8 list \<Rightarrow> wav_format \<Rightarrow> extractor \<Rightarrow> lpcm_error + nat \<times> nat" where
  "lpcm_payload_timing pcm f x =
     res_bind (ok_or HeaderMissing (header x)) (\<lambda>h.
       let frame_bytes = coded_channels h * bytes_per_sample f in
       if frame_bytes = 0 then Inl FrameSizeZero
       else if length pcm mod frame_bytes \<noteq> 0 then Inl (UnalignedPayload (length pcm) frame_bytes)
       else Inr (frame_bytes, length pcm div frame_bytes))"

function chunks_exact :: "nat \<Rightarrow> 'a list \<Rightarrow> 'a list list" where
  "chunks_exact n xs = (if n = 0 \<or> length xs < n then [] else take n xs # chunks_exact n (drop n xs))"
  by auto
termination by (relation "measure (\<lambda>(n, xs). length xs)") auto

declare chunks_exact.simps [simp del]

definition convert_sample :: "nat \<Rightarrow> u8 list \<Rightarrow> nat \<Rightarrow> lpcm_error + u8 list" where
  "convert_sample bps frame ch =
     (let sample = take bps (drop (ch * bps) frame) in
      if bps = 2 then Inr [sample ! 1, sample ! 0]
      else if bps = 3 then Inr [sample ! 2, sample ! 1, sample ! 0]
      else Inl (UnsupportedSampleBytes bps))"

definition convert_frames :: "nat \<Rightarrow> nat list \<Rightarrow> u8 list list \<Rightarrow> lpcm_error + u8 list" where
  "convert_frames bps cm frames =
     fold_res (\<lambda>frame out. fold_res (\<lambda>ch out.
       res_bind (convert_sample bps frame ch) (\<lambda>b. Inr (out @ b))) cm out) frames []"

definition write_pcm_payload :: "u8 list \<Rightarrow> wav_format \<Rightarrow> nat lpcm_call" where
  "write_pcm_payload pcm f x = (
     if pcm = [] then (Inr 0, x)
     else case header x of
       None \<Rightarrow> (Inl HeaderMissing, x)
     | Some h \<Rightarrow>
         (case channel_map x of
            None \<Rightarrow> (Inl ChannelMapMissing, x)
          | Some cm \<Rightarrow>
              let bps = bytes_per_sample f; frame_bytes = coded_channels h * bps in
              if frame_bytes = 0 then (Inl FrameSizeZero, x)
              else if length pcm mod frame_bytes \<noteq> 0
              then (Inl (UnalignedPayload (length pcm) frame_bytes), x)
              else (case convert_frames bps cm (chunks_exact frame_bytes pcm) of
                      Inl e \<Rightarrow> (Inl e, x)
                    | Inr out \<Rightarrow> (Inr (length out), x\<lparr> written := written x @ out \<rparr>))))"

text \<open>The samples of a packet that belong to the chapter: those before \<open>skip\<close> lie before its start,
  those from \<open>keep\<close> on after its end.\<close>

definition trim_range :: "extraction_config \<Rightarrow> nat \<Rightarrow> nat \<Rightarrow> nat \<Rightarrow> lpcm_error + nat \<times> nat" where
  "trim_range cfg rate n t =
     res_bind (if t < chapter_start cfg
               then ok_or ConversionOverflow (ceil_pts_to_samples (chapter_start cfg - t) rate)
               else Inr 0) (\<lambda>skip.
     res_bind (case chapter_end cfg of
                 Some e \<Rightarrow> ok_or ConversionOverflow (floor_pts_to_samples (e - t) rate)
               | None \<Rightarrow> Inr n) (\<lambda>keep.
     Inr (min skip n, min keep n)))"

definition write_trimmed ::
  "u8 list \<Rightarrow> wav_format \<Rightarrow> nat \<Rightarrow> nat \<Rightarrow> nat \<Rightarrow> unit lpcm_call" where
  "write_trimmed pcm f frame_bytes skip keep =
     st_bind (pure_call (checked_sample_byte_offset skip frame_bytes)) (\<lambda>a.
     st_bind (pure_call (checked_sample_byte_offset keep frame_bytes)) (\<lambda>b.
     st_bind (write_pcm_payload (take (b - a) (drop a pcm)) f) (\<lambda>bytes x.
       case checked_add64 (data_bytes_written x) bytes of
         None \<Rightarrow> (Inl WavSizeOverflow, x)
       | Some bytes_out \<Rightarrow>
           (Inr (), x\<lparr> data_bytes_written := bytes_out,
              accepted_pes_packets := saturating_inc (accepted_pes_packets x) \<rparr>))))"

definition process_prepared ::
  "u8 list \<Rightarrow> nat \<Rightarrow> wav_format \<Rightarrow> (PesProcessingOutcome \<times> nat) lpcm_call" where
  "process_prepared pcm t f x = (case lpcm_payload_timing pcm f x of
     Inl e \<Rightarrow> (Inl e, x)
   | Inr (frame_bytes, n) \<Rightarrow>
       if n = 0 then (Inr (Continue, 0), x)
       else if (case chapter_end (config x) of Some e \<Rightarrow> t \<ge> e | None \<Rightarrow> False)
       then (Inr (Stop, n), x\<lparr> saw_chapter_end := True \<rparr>)
       else case trim_range (config x) (f_sample_rate f) n t of
         Inl e \<Rightarrow> (Inl e, x)
       | Inr (skip, keep) \<Rightarrow>
           let past = (chapter_end (config x) \<noteq> None \<and> keep < n);
               outcome = (if past then Stop else Continue);
               x = (if past then x\<lparr> saw_chapter_end := True \<rparr> else x)
           in
           if skip \<ge> keep then
             (Inr (outcome, n),
              if t < chapter_start (config x)
              then x\<lparr> skipped_before_chapter := saturating_inc (skipped_before_chapter x) \<rparr>
              else x)
           else st_bind (write_trimmed pcm f frame_bytes skip keep) (\<lambda>_ x. (Inr (outcome, n), x)) x)"

definition process_lpcm_payload_at_title_pts ::
  "u8 list \<Rightarrow> nat \<Rightarrow> (PesProcessingOutcome \<times> nat) lpcm_call" where
  "process_lpcm_payload_at_title_pts pl t =
     st_bind (pure_call (parse_lpcm_payload_header pl)) (\<lambda>h.
     st_bind (prepare_format_from_header h) (process_prepared (drop 4 pl) t))"

definition exact_lpcm_sample_count :: "u8 list \<Rightarrow> nat lpcm_call" where
  "exact_lpcm_sample_count pl =
     st_bind (pure_call (parse_lpcm_payload_header pl)) (\<lambda>h.
     st_bind (prepare_format_from_header h) (\<lambda>f x.
       (res_bind (lpcm_payload_timing (drop 4 pl) f x) (\<lambda>(frame_bytes, n). Inr n), x)))"

definition ticks_of :: "nat \<Rightarrow> extractor \<Rightarrow> lpcm_error + nat" where
  "ticks_of samples x =
     res_bind (ok_or FormatMissing (format x)) (\<lambda>f.
       ok_or ConversionOverflow (samples_to_pts90 samples (f_sample_rate f)))"

definition derived_next_title_pts :: "extractor \<Rightarrow> lpcm_error + nat option" where
  "derived_next_title_pts x = (case timestamp_anchor x of
     None \<Rightarrow> Inr None
   | Some a \<Rightarrow>
       (case format x of
          None \<Rightarrow> Inr None
        | Some f \<Rightarrow>
            res_bind (ok_or ConversionOverflow
                (samples_to_pts90 (samples_since_anchor x) (f_sample_rate f))) (\<lambda>ticks.
            res_bind (ok_or DerivedOverflow (checked_add64 a ticks)) (\<lambda>t. Inr (Some t)))))"

definition record_timestamped_pes :: "nat \<Rightarrow> nat \<Rightarrow> extractor \<Rightarrow> extractor" where
  "record_timestamped_pes t n x = x\<lparr> timestamp_anchor := Some t, samples_since_anchor := n \<rparr>"

definition record_derived_pes :: "nat \<Rightarrow> unit lpcm_call" where
  "record_derived_pes n x = (case checked_add64 (samples_since_anchor x) n of
     None \<Rightarrow> (Inl DerivedOverflow, x)
   | Some s \<Rightarrow> (Inr (), x\<lparr> samples_since_anchor := s \<rparr>))"

definition continuity_is_clean_after_last :: "extractor \<Rightarrow> u8 \<Rightarrow> bool" where
  "continuity_is_clean_after_last x cc = (case last_selected_end x of
     None \<Rightarrow> True | Some e \<Rightarrow> cc = next_counter e)"

definition mark_packet_consumed :: "SelectedPesPacket \<Rightarrow> extractor \<Rightarrow> extractor" where
  "mark_packet_consumed p x = x\<lparr> last_selected_end := Some (continuity_end p) \<rparr>"

text \<open>The pending packets are measured first, so that the first of them can be dated back from the
  packet with the time stamp; then they are processed in order.\<close>

fun measure_pending :: "SelectedPesPacket list \<Rightarrow> nat \<Rightarrow> (nat \<times> (SelectedPesPacket \<times> nat) list) lpcm_call" where
  "measure_pending [] ticks x = (Inr (ticks, []), x)"
| "measure_pending (p # ps) ticks x =
     st_bind (pure_call (parse_pes (payload p))) (\<lambda>parsed.
       if pts_90k parsed \<noteq> None then pure_call (Inl TimestampedPreroll)
       else st_bind (exact_lpcm_sample_count (pes_payload parsed)) (\<lambda>n x.
         st_bind (pure_call (ticks_of n x)) (\<lambda>t.
         st_bind (pure_call (ok_or PrerollOverflow (checked_add64 ticks t))) (\<lambda>ticks'.
         st_bind (measure_pending ps ticks') (\<lambda>(all, rest).
           pure_call (Inr (all, (p, n) # rest))))) x)) x"

fun flush_measured :: "(SelectedPesPacket \<times> nat) list \<Rightarrow> nat \<Rightarrow> PesProcessingOutcome lpcm_call" where
  "flush_measured [] t x = (Inr Continue, x)"
| "flush_measured ((p, n) # ps) t x =
     st_bind (pure_call (parse_pes (payload p))) (\<lambda>parsed.
     st_bind (process_lpcm_payload_at_title_pts (pes_payload parsed) t) (\<lambda>(outcome, _) x.
       let x = mark_packet_consumed p x in
       if outcome = Stop then (Inr Stop, x)
       else st_bind (pure_call (ticks_of n x)) (\<lambda>ticks.
            st_bind (pure_call (ok_or PrerollOverflow (checked_add64 t ticks))) (\<lambda>t'.
              flush_measured ps t')) x)) x"

definition flush_preroll_before_title_pts :: "nat \<Rightarrow> PesProcessingOutcome lpcm_call" where
  "flush_preroll_before_title_pts t x = (
     if pending (preroll x) = [] then (Inr Continue, x)
     else
       let ps = pending (preroll x); x = x\<lparr> preroll := preroll_clear (preroll x) \<rparr> in
       st_bind (measure_pending ps 0) (\<lambda>(ticks, measured). flush_measured measured (t - ticks)) x)"

definition process_missing_pts_pes :: "SelectedPesPacket \<Rightarrow> PesProcessingOutcome lpcm_call" where
  "process_missing_pts_pes p x = (
     if timestamp_anchor x = None then
       (case preroll_push p (preroll x) of
          Inl e \<Rightarrow> (Inl e, x)
        | Inr b \<Rightarrow> (Inr Continue, x\<lparr> preroll := b \<rparr>))
     else if \<not> continuity_is_clean_after_last x (continuity_start p)
     then (Inl MissingPtsAfterGap, x)
     else
       st_bind (pure_call (parse_pes (payload p))) (\<lambda>parsed.
       st_bind (exact_lpcm_sample_count (pes_payload parsed)) (\<lambda>n x.
       st_bind (pure_call (derived_next_title_pts x)) (\<lambda>t.
       st_bind (pure_call (ok_or NoExactTimeline t)) (\<lambda>t.
       st_bind (process_lpcm_payload_at_title_pts (pes_payload parsed) t) (\<lambda>(outcome, _).
       st_bind (record_derived_pes n) (\<lambda>_ x.
         (Inr outcome, mark_packet_consumed p x))))) x)) x)"

text \<open>A packet with a time stamp, placed at its title time: the pending packets come first, if they
  can reach into the chapter.\<close>

definition process_at :: "SelectedPesPacket \<Rightarrow> u8 list \<Rightarrow> nat \<Rightarrow> PesProcessingOutcome lpcm_call" where
  "process_at p pl t =
     st_bind (process_lpcm_payload_at_title_pts pl t) (\<lambda>(outcome, n) x.
       (Inr outcome, mark_packet_consumed p (record_timestamped_pes t n x)))"

definition process_pes_packet :: "SelectedPesPacket \<Rightarrow> PesProcessingOutcome lpcm_call" where
  "process_pes_packet p x = (case parse_pes (payload p) of
     Inl e \<Rightarrow> (Inl e, x)
   | Inr parsed \<Rightarrow>
       (case pts_90k parsed of
          None \<Rightarrow> process_missing_pts_pes p x
        | Some raw \<Rightarrow>
            (case map_pes_pts_to_title_pts (unat raw) (mapper x) of
               (None, m) \<Rightarrow> (Inl (UnmappedPts (unat raw)), x\<lparr> mapper := m \<rparr>)
             | (Some t, m) \<Rightarrow>
                 let x = x\<lparr> mapper := m \<rparr> in
                 if pending (preroll x) = [] then process_at p (pes_payload parsed) t x
                 else if (case chapter_end (config x) of Some e \<Rightarrow> t \<ge> e | None \<Rightarrow> False)
                 then (Inr Stop, mark_packet_consumed p
                   (x\<lparr> preroll := preroll_clear (preroll x), saw_chapter_end := True \<rparr>))
                 else if t < chapter_start (config x)
                 then process_at p (pes_payload parsed) t
                   (x\<lparr> preroll := preroll_clear (preroll x) \<rparr>)
                 else if \<not> has_clean_continuity_to (preroll x) p then (Inl PrerollGap, x)
                 else
                   st_bind (flush_preroll_before_title_pts t) (\<lambda>outcome.
                     if outcome = Stop then (\<lambda>x. (Inr Stop, mark_packet_consumed p x))
                     else process_at p (pes_payload parsed) t) x)))"

definition peek_or_create_wav_format :: "u8 list \<Rightarrow> wav_format lpcm_call" where
  "peek_or_create_wav_format b x = (case format x of
     Some f \<Rightarrow> (Inr f, x)
   | None \<Rightarrow>
       st_bind (pure_call (parse_pes b)) (\<lambda>parsed.
       st_bind (pure_call (parse_lpcm_payload_header (pes_payload parsed)))
         prepare_format_from_header) x)"

subsection \<open>Plausibility of the result\<close>

definition block_align :: "wav_format \<Rightarrow> nat option" where
  "block_align f = (if f_channels f * bytes_per_sample f < 2 ^ 16
     then Some (f_channels f * bytes_per_sample f) else None)"

definition byte_rate :: "wav_format \<Rightarrow> nat option" where
  "byte_rate f = Option.bind (block_align f) (checked_mul32 (f_sample_rate f))"

definition expected_pcm_data_bytes :: "nat \<Rightarrow> wav_format \<Rightarrow> nat option" where
  "expected_pcm_data_bytes ticks f =
     Option.bind (block_align f) (\<lambda>a. try_u64 (ticks * f_sample_rate f div PTS_CLOCK_HZ * a))"

definition validate_reasonable_output_size :: "extractor \<Rightarrow> lpcm_error + unit" where
  "validate_reasonable_output_size x = (case (format x, chapter_end (config x)) of
     (Some f, Some e) \<Rightarrow>
       if e \<le> chapter_start (config x) then Inr ()
       else
         let ticks = e - chapter_start (config x) in
         if ticks < PTS_CLOCK_HZ then Inr ()
         else res_bind (ok_or ConversionOverflow (expected_pcm_data_bytes ticks f)) (\<lambda>expected.
           if expected = 0 then Inr ()
           else res_bind (ok_or ConversionOverflow (byte_rate f)) (\<lambda>one_second.
             res_bind (ok_or ConversionOverflow (Option.bind (checked_mul64 expected 2)
               (\<lambda>v. checked_add64 v one_second))) (\<lambda>max_reasonable.
             if data_bytes_written x > max_reasonable
             then Inl (OutputTooLarge (data_bytes_written x) expected)
             else if expected > one_second \<and> data_bytes_written x < expected div 200
             then Inl (OutputTooSmall (data_bytes_written x) expected)
             else Inr ())))
   | _ \<Rightarrow> Inr ())"

end
