(* ===== verification/BlurayWav.thy ===== *)
theory BlurayWav
  imports Bytes BlurayLpcm
begin

text \<open>
  WAV headers of extracted Blu-ray audio, \<open>src/convert/pipeline/bluray_wav_validate.rs\<close>: the header
  that is written first with size 0 and then again with the final size, the reader of RIFF/WAVE files,
  and the validation of a file before it is published. A file is its list of bytes. A function that
  writes returns its result and the bytes it has written, those before an error included. The
  failures of the operating system are left out; every message is a constructor of \<open>wav_error\<close>.
  The sizes in a chunk header are 32 bits wide, so that the \<open>usize\<close> sums of the reader do not
  overflow and are plain sums. \<open>ZeroBlockAlign\<close> stands for the panic of the remainder by zero.

  The lemmas show that a header is read back as written for every format and size the writer accepts,
  and that the file then passes the validation.
\<close>

subsection \<open>Errors and constants\<close>

datatype wav_error =
    RiffSizeOverflow
  | RiffTooLarge nat
  | DataTooLarge nat
  | BlockAlignOverflow
  | ByteRateOverflow
  | TruncatedRiffHeader
  | MissingRiff
  | MissingWave
  | RiffSizeMismatch nat nat
  | TruncatedField
  | TruncatedChunkHeader
  | TruncatedChunk "u8 list" nat
  | MultipleFmt
  | TruncatedFmt
  | TruncatedExtensible
  | ExtensibleCbSize nat
  | SubformatNotPcm
  | MultipleData
  | MissingFmt
  | MissingData
  | EmptyData
  | WavRateMismatch nat nat
  | WavChannelMismatch nat nat
  | WavContainerMismatch nat nat
  | ExtensibleRequired
  | WavValidBitsMismatch nat "nat option"
  | WavMaskMismatch nat "nat option"
  | BitsNotByteAligned
  | BlockAlignMismatch nat nat
  | ByteRateMismatch nat nat
  | ZeroBlockAlign
  | DataNotAligned
  | DurationOverflow
  | DurationMismatchesData nat nat nat

abbreviation WAVE_FORMAT_PCM :: nat where "WAVE_FORMAT_PCM \<equiv> 1"
abbreviation WAVE_FORMAT_EXTENSIBLE :: nat where "WAVE_FORMAT_EXTENSIBLE \<equiv> 65534"

definition WAV_PCM_GUID_TAIL :: "u8 list" where
  "WAV_PCM_GUID_TAIL = [0, 0, 0, 0, 0x10, 0, 0x80, 0, 0, 0xAA, 0, 0x38, 0x9B, 0x71]"

definition id_RIFF :: "u8 list" where "id_RIFF = [0x52, 0x49, 0x46, 0x46]"
definition id_WAVE :: "u8 list" where "id_WAVE = [0x57, 0x41, 0x56, 0x45]"
definition id_fmt :: "u8 list" where "id_fmt = [0x66, 0x6d, 0x74, 0x20]"
definition id_data :: "u8 list" where "id_data = [0x64, 0x61, 0x74, 0x61]"

lemmas riff_ids = id_RIFF_def id_WAVE_def id_fmt_def id_data_def

subsection \<open>Writing the header\<close>

definition fmt_chunk_size :: "wav_format \<Rightarrow> nat" where
  "fmt_chunk_size f = (if format_extensible f then 40 else 16)"

definition checked_riff_size :: "wav_format \<Rightarrow> nat \<Rightarrow> wav_error + nat" where
  "checked_riff_size f data_len =
     res_bind (ok_or RiffSizeOverflow (checked_add64 (20 + fmt_chunk_size f) data_len)) (\<lambda>n.
       if n < 2 ^ 32 then Inr n else Inl (RiffTooLarge data_len))"

definition fmt_extension :: "wav_format \<Rightarrow> u8 list" where
  "fmt_extension f = (if format_extensible f
     then le_bytes 2 22 @ le_bytes 2 (f_valid_bits f)
       @ le_bytes 4 (case f_channel_mask f of None \<Rightarrow> 0 | Some v \<Rightarrow> v) @ le_bytes 2 1 @ WAV_PCM_GUID_TAIL
     else [])"

definition write_wav_header :: "wav_format \<Rightarrow> nat \<Rightarrow> (wav_error + unit) \<times> u8 list" where
  "write_wav_header f data_len = (case checked_riff_size f data_len of
     Inl e \<Rightarrow> (Inl e, [])
   | Inr riff_size \<Rightarrow>
       if data_len \<ge> 2 ^ 32 then (Inl (DataTooLarge data_len), [])
       else
         let begun = id_RIFF @ le_bytes 4 riff_size @ id_WAVE @ id_fmt @ le_bytes 4 (fmt_chunk_size f)
               @ le_bytes 2 (if format_extensible f then WAVE_FORMAT_EXTENSIBLE else WAVE_FORMAT_PCM)
               @ le_bytes 2 (f_channels f) @ le_bytes 4 (f_sample_rate f) in
         (case block_align f of
            None \<Rightarrow> (Inl BlockAlignOverflow, begun)
          | Some align \<Rightarrow>
              (case byte_rate f of
                 None \<Rightarrow> (Inl ByteRateOverflow, begun)
               | Some rate \<Rightarrow>
                   (Inr (), begun @ le_bytes 4 rate @ le_bytes 2 align @ le_bytes 2 (f_container_bits f)
                      @ fmt_extension f @ id_data @ le_bytes 4 data_len))))"

definition rewrite_wav_header :: "wav_format \<Rightarrow> nat \<Rightarrow> u8 list \<Rightarrow> (wav_error + unit) \<times> u8 list" where
  "rewrite_wav_header f data_len file =
     (case write_wav_header f data_len of (r, bs) \<Rightarrow> (r, write_at 0 bs file))"

subsection \<open>Reading a file\<close>

record wav_info =
  wi_format_tag :: nat
  wi_channels :: nat
  wi_sample_rate :: nat
  wi_byte_rate :: nat
  wi_block_align :: nat
  wi_bits :: nat
  wi_valid_bits :: "nat option"
  wi_channel_mask :: "nat option"
  wi_data_size :: nat
  wi_riff_size :: nat

definition read_u16_le :: "u8 list \<Rightarrow> nat \<Rightarrow> wav_error + nat" where
  "read_u16_le b offset =
     (if offset + 2 > length b then Inl TruncatedField else Inr (le_nat (sub_bytes offset (offset + 2) b)))"

definition read_u32_le :: "u8 list \<Rightarrow> nat \<Rightarrow> wav_error + nat" where
  "read_u32_le b offset =
     (if offset + 4 > length b then Inl TruncatedField else Inr (le_nat (sub_bytes offset (offset + 4) b)))"

definition read_extension :: "u8 list \<Rightarrow> nat \<Rightarrow> nat \<Rightarrow> wav_error + nat option \<times> nat option" where
  "read_extension b data_start chunk_size = (
     if chunk_size < 40 then Inl TruncatedExtensible
     else res_bind (read_u16_le b (data_start + 16)) (\<lambda>cb_size.
       if cb_size < 22 then Inl (ExtensibleCbSize cb_size)
       else res_bind (read_u16_le b (data_start + 18)) (\<lambda>vb.
         res_bind (read_u32_le b (data_start + 20)) (\<lambda>spk.
         res_bind (read_u16_le b (data_start + 24)) (\<lambda>sub.
           if sub \<noteq> WAVE_FORMAT_PCM \<or> sub_bytes (data_start + 26) (data_start + 40) b \<noteq> WAV_PCM_GUID_TAIL
           then Inl SubformatNotPcm else Inr (Some vb, Some spk))))))"

definition read_fmt_chunk :: "u8 list \<Rightarrow> nat \<Rightarrow> nat \<Rightarrow> nat \<Rightarrow> wav_error + wav_info" where
  "read_fmt_chunk b riff_size data_start chunk_size = (
     if chunk_size < 16 then Inl TruncatedFmt
     else res_bind (read_u16_le b data_start) (\<lambda>tag.
       res_bind (read_u16_le b (data_start + 2)) (\<lambda>n.
       res_bind (read_u32_le b (data_start + 4)) (\<lambda>rate.
       res_bind (read_u32_le b (data_start + 8)) (\<lambda>brate.
       res_bind (read_u16_le b (data_start + 12)) (\<lambda>align.
       res_bind (read_u16_le b (data_start + 14)) (\<lambda>bits.
       res_bind (if tag = WAVE_FORMAT_EXTENSIBLE then read_extension b data_start chunk_size
                 else Inr (None, None)) (\<lambda>(vb, spk).
         Inr \<lparr> wi_format_tag = tag, wi_channels = n, wi_sample_rate = rate, wi_byte_rate = brate,
               wi_block_align = align, wi_bits = bits, wi_valid_bits = vb, wi_channel_mask = spk,
               wi_data_size = 0, wi_riff_size = riff_size \<rparr>))))))))"

function riff_chunks ::
  "u8 list \<Rightarrow> nat \<Rightarrow> nat \<Rightarrow> nat \<Rightarrow> wav_info option \<Rightarrow> nat option \<Rightarrow> wav_error + wav_info option \<times> nat option" where
  "riff_chunks b riff_size riff_end off fmt dat = (
     if off \<ge> riff_end then Inr (fmt, dat)
     else if riff_end - off < 8 then Inl TruncatedChunkHeader
     else
       let chunk_id = sub_bytes off (off + 4) b in
       (case read_u32_le b (off + 4) of
          Inl e \<Rightarrow> Inl e
        | Inr chunk_size \<Rightarrow>
            let data_start = off + 8; data_end = data_start + chunk_size;
                next = data_end + chunk_size mod 2 in
            if data_end > riff_end then Inl (TruncatedChunk chunk_id chunk_size)
            else if chunk_id = id_fmt then
              (if fmt \<noteq> None then Inl MultipleFmt
               else (case read_fmt_chunk b riff_size data_start chunk_size of
                       Inl e \<Rightarrow> Inl e
                     | Inr w \<Rightarrow> riff_chunks b riff_size riff_end next (Some w) dat))
            else if chunk_id = id_data then
              (if dat \<noteq> None then Inl MultipleData
               else riff_chunks b riff_size riff_end next fmt (Some chunk_size))
            else riff_chunks b riff_size riff_end next fmt dat))"
  by pat_completeness auto
termination by (relation "measure (\<lambda>(b, riff_size, riff_end, off, fmt, dat). riff_end - off)") auto

declare riff_chunks.simps [simp del]

definition read_wav_info :: "u8 list \<Rightarrow> wav_error + wav_info" where
  "read_wav_info b = (
     if length b < 12 then Inl TruncatedRiffHeader
     else if sub_bytes 0 4 b \<noteq> id_RIFF then Inl MissingRiff
     else if sub_bytes 8 12 b \<noteq> id_WAVE then Inl MissingWave
     else res_bind (read_u32_le b 4) (\<lambda>riff_size.
       if riff_size + 8 \<noteq> length b then Inl (RiffSizeMismatch (riff_size + 8) (length b))
       else res_bind (riff_chunks b riff_size (riff_size + 8) 12 None None) (\<lambda>(fmt, dat).
         res_bind (ok_or MissingFmt fmt) (\<lambda>w.
         res_bind (ok_or MissingData dat) (\<lambda>n. Inr (w\<lparr> wi_data_size := n \<rparr>))))))"

subsection \<open>Validation\<close>

record ExpectedAudio =
  xa_sample_rate :: nat
  xa_channels :: nat
  xa_container_bits :: nat
  xa_valid_bits :: nat
  xa_channel_mask :: "nat option"
  xa_duration :: "nat option"

definition require :: "bool \<Rightarrow> wav_error \<Rightarrow> wav_error + unit" where
  "require condition e = (if condition then Inr () else Inl e)"

definition pts90_to_samples_for_validation :: "nat \<Rightarrow> nat \<Rightarrow> wav_error + nat" where
  "pts90_to_samples_for_validation ticks rate =
     ok_or DurationOverflow (try_u64 (ticks * rate div PTS_CLOCK_HZ))"

definition check_stream_format :: "wav_info \<Rightarrow> ExpectedAudio \<Rightarrow> wav_error + unit" where
  "check_stream_format w x =
     res_bind (require (wi_data_size w > 0) EmptyData) (\<lambda>_.
     res_bind (require (wi_sample_rate w = xa_sample_rate x)
       (WavRateMismatch (xa_sample_rate x) (wi_sample_rate w))) (\<lambda>_.
     res_bind (require (wi_channels w = xa_channels x)
       (WavChannelMismatch (xa_channels x) (wi_channels w))) (\<lambda>_.
     res_bind (require (wi_bits w = xa_container_bits x)
       (WavContainerMismatch (xa_container_bits x) (wi_bits w))) (\<lambda>_.
     res_bind (if xa_valid_bits x \<noteq> xa_container_bits x \<or> xa_channels x > 2 \<or> xa_channel_mask x \<noteq> None
       then require (wi_format_tag w = WAVE_FORMAT_EXTENSIBLE) ExtensibleRequired else Inr ()) (\<lambda>_.
     res_bind (if xa_valid_bits x \<noteq> xa_container_bits x \<or> wi_format_tag w = WAVE_FORMAT_EXTENSIBLE
       then require (wi_valid_bits w = Some (xa_valid_bits x))
         (WavValidBitsMismatch (xa_valid_bits x) (wi_valid_bits w)) else Inr ()) (\<lambda>_.
     case xa_channel_mask x of
       Some spk \<Rightarrow> require (wi_channel_mask w = Some spk) (WavMaskMismatch spk (wi_channel_mask w))
     | None \<Rightarrow> Inr ()))))))"

definition check_rates :: "wav_info \<Rightarrow> wav_error + nat" where
  "check_rates w =
     res_bind (require (wi_bits w mod 8 = 0) BitsNotByteAligned) (\<lambda>_.
     let align = wi_channels w * (wi_bits w div 8) in
     res_bind (if align < 2 ^ 16 then Inr () else Inl BlockAlignOverflow) (\<lambda>_.
     res_bind (require (wi_block_align w = align) (BlockAlignMismatch align (wi_block_align w))) (\<lambda>_.
     res_bind (ok_or ByteRateOverflow (checked_mul32 (wi_sample_rate w) (wi_block_align w))) (\<lambda>rate.
     res_bind (require (wi_byte_rate w = rate) (ByteRateMismatch rate (wi_byte_rate w))) (\<lambda>_.
     if wi_block_align w = 0 then Inl ZeroBlockAlign
     else res_bind (require (wi_data_size w mod wi_block_align w = 0) DataNotAligned) (\<lambda>_. Inr align))))))"

definition abs_diff :: "nat \<Rightarrow> nat \<Rightarrow> nat" where
  "abs_diff a b = (if a < b then b - a else a - b)"

definition check_duration :: "wav_info \<Rightarrow> ExpectedAudio \<Rightarrow> nat \<Rightarrow> wav_error + unit" where
  "check_duration w x align = (case xa_duration x of
     None \<Rightarrow> Inr ()
   | Some ticks \<Rightarrow>
       res_bind (pts90_to_samples_for_validation ticks (xa_sample_rate x)) (\<lambda>samples.
       res_bind (ok_or DurationOverflow (checked_mul64 samples align)) (\<lambda>n.
       res_bind (ok_or DurationOverflow (checked_mul64 align (xa_sample_rate x))) (\<lambda>tolerance.
         let delta = abs_diff (wi_data_size w) n in
         require (delta \<le> tolerance) (DurationMismatchesData (wi_data_size w) n delta)))))"

definition validate_bluray_lpcm_wav :: "u8 list \<Rightarrow> ExpectedAudio \<Rightarrow> wav_error + unit" where
  "validate_bluray_lpcm_wav b x =
     res_bind (read_wav_info b) (\<lambda>w.
     res_bind (check_stream_format w x) (\<lambda>_.
     res_bind (check_rates w) (check_duration w x)))"

subsection \<open>A written header reads back\<close>

text \<open>The header as one list of bytes, for formats whose rates fit.\<close>

definition wav_header_bytes :: "wav_format \<Rightarrow> nat \<Rightarrow> u8 list" where
  "wav_header_bytes f n =
     (let align = f_channels f * bytes_per_sample f in
      id_RIFF @ le_bytes 4 (20 + fmt_chunk_size f + n) @ id_WAVE @ id_fmt @ le_bytes 4 (fmt_chunk_size f)
      @ le_bytes 2 (if format_extensible f then WAVE_FORMAT_EXTENSIBLE else WAVE_FORMAT_PCM)
      @ le_bytes 2 (f_channels f) @ le_bytes 4 (f_sample_rate f)
      @ le_bytes 4 (f_sample_rate f * align) @ le_bytes 2 align @ le_bytes 2 (f_container_bits f)
      @ fmt_extension f @ id_data @ le_bytes 4 n)"

lemma write_wav_header_iff:
  "write_wav_header f n = (Inr (), h) \<longleftrightarrow>
     20 + fmt_chunk_size f + n < 2 ^ 32 \<and> f_channels f * bytes_per_sample f < 2 ^ 16 \<and>
     f_sample_rate f * (f_channels f * bytes_per_sample f) < 2 ^ 32 \<and> h = wav_header_bytes f n"
  by (auto simp: write_wav_header_def wav_header_bytes_def checked_riff_size_def block_align_def byte_rate_def
      checked_defs Let_def split: sum.splits if_splits)

definition format_ok :: "wav_format \<Rightarrow> bool" where
  "format_ok f \<longleftrightarrow> f_sample_rate f < 2 ^ 32 \<and> f_channels f < 2 ^ 16 \<and> f_container_bits f \<in> {16, 24} \<and>
     f_valid_bits f \<in> {16, 20, 24} \<and> f_valid_bits f \<le> f_container_bits f \<and>
     (case f_channel_mask f of None \<Rightarrow> True | Some v \<Rightarrow> v < 2 ^ 32) \<and>
     format_extensible f = (f_valid_bits f \<noteq> f_container_bits f \<or> f_channels f > 2 \<or> f_channel_mask f \<noteq> None)"

lemma read_le:
  "sub_bytes (length a) (length a + k) (a @ le_bytes k n @ c) = le_bytes k n"
  by (simp add: sub_bytes_def)

lemma length_wav_header: "length (wav_header_bytes f n) = 28 + fmt_chunk_size f"
  by (simp add: wav_header_bytes_def riff_ids fmt_extension_def fmt_chunk_size_def WAV_PCM_GUID_TAIL_def Let_def)

definition info_of :: "wav_format \<Rightarrow> nat \<Rightarrow> wav_info" where
  "info_of f n = \<lparr> wi_format_tag = (if format_extensible f then WAVE_FORMAT_EXTENSIBLE else WAVE_FORMAT_PCM),
     wi_channels = f_channels f, wi_sample_rate = f_sample_rate f,
     wi_byte_rate = f_sample_rate f * (f_channels f * bytes_per_sample f),
     wi_block_align = f_channels f * bytes_per_sample f, wi_bits = f_container_bits f,
     wi_valid_bits = (if format_extensible f then Some (f_valid_bits f) else None),
     wi_channel_mask = (if format_extensible f
       then Some (case f_channel_mask f of None \<Rightarrow> 0 | Some v \<Rightarrow> v) else None),
     wi_data_size = n, wi_riff_size = 20 + fmt_chunk_size f + n \<rparr>"

lemma sub_bytes_append:
  "length a \<le> i \<Longrightarrow> sub_bytes i j (a @ b) = sub_bytes (i - length a) (j - length a) b"
  by (simp add: sub_bytes_def)

lemma sub_bytes_front: "j \<le> length a \<Longrightarrow> sub_bytes i j (a @ b) = sub_bytes i j a"
  by (simp add: sub_bytes_def)

lemma sub_bytes_all: "length a = j \<Longrightarrow> sub_bytes 0 j (a @ b) = a" "length a = j \<Longrightarrow> sub_bytes 0 j a = a"
  by (simp_all add: sub_bytes_def)

lemma read_at:
  "offset = length a \<Longrightarrow> n < 2 ^ 16 \<Longrightarrow> read_u16_le (a @ le_bytes 2 n @ c) offset = Inr n"
  "offset = length a \<Longrightarrow> n < 2 ^ 32 \<Longrightarrow> read_u32_le (a @ le_bytes 4 n @ c) offset = Inr n"
  by (simp_all add: read_u16_le_def read_u32_le_def sub_bytes_def le_nat_le_bytes)


lemma length_ids [simp]: "length id_RIFF = 4" "length id_WAVE = 4" "length id_fmt = 4" "length id_data = 4"
  "length WAV_PCM_GUID_TAIL = 14"
  by (simp_all add: riff_ids WAV_PCM_GUID_TAIL_def)

lemma ids_differ [simp]: "id_data \<noteq> id_fmt" "id_fmt \<noteq> id_data"
  by (simp_all add: riff_ids)

lemma read16:
  assumes "drop off b = le_bytes 2 n @ c" and "n < 2 ^ 16"
  shows "read_u16_le b off = Inr n"
proof -
  have "length b - off = 2 + length c" using arg_cong[OF assms(1), of length] by simp
  then show ?thesis using assms by (simp add: read_u16_le_def sub_bytes_def le_nat_le_bytes)
qed

lemma read32:
  assumes "drop off b = le_bytes 4 n @ c" and "n < 2 ^ 32"
  shows "read_u32_le b off = Inr n"
proof -
  have "length b - off = 4 + length c" using arg_cong[OF assms(1), of length] by simp
  then show ?thesis using assms by (simp add: read_u32_le_def sub_bytes_def le_nat_le_bytes)
qed

lemma drop_skip: "length a \<le> k \<Longrightarrow> drop k (a @ b) = drop (k - length a) b"
  by simp

lemma read_fmt_written:
  assumes f: "format_ok f" and r: "f_channels f * bytes_per_sample f < 2 ^ 16"
    "f_sample_rate f * (f_channels f * bytes_per_sample f) < 2 ^ 32"
  shows "read_fmt_chunk (wav_header_bytes f n @ d) (20 + fmt_chunk_size f + n) 20 (fmt_chunk_size f)
    = Inr (info_of f n\<lparr> wi_data_size := 0 \<rparr>)"
proof -
  let ?b = "wav_header_bytes f n @ d"
  let ?tag = "if format_extensible f then WAVE_FORMAT_EXTENSIBLE else WAVE_FORMAT_PCM"
  have c: "f_container_bits f < 2 ^ 16" "f_valid_bits f < 2 ^ 16" "?tag < 2 ^ 16"
    "f_channels f < 2 ^ 16" "f_sample_rate f < 2 ^ 32"
    using f by (auto simp: format_ok_def)
  note h = wav_header_bytes_def Let_def append_assoc
  have base: "read_u16_le ?b 20 = Inr ?tag" "read_u16_le ?b 22 = Inr (f_channels f)"
    "read_u32_le ?b 24 = Inr (f_sample_rate f)"
    "read_u32_le ?b 28 = Inr (f_sample_rate f * (f_channels f * bytes_per_sample f))"
    "read_u16_le ?b 32 = Inr (f_channels f * bytes_per_sample f)" "read_u16_le ?b 34 = Inr (f_container_bits f)"
    by (rule read16[OF _ c(3)], simp add: h drop_skip)
      (rule read16[OF _ c(4)], simp add: h drop_skip,
       rule read32[OF _ c(5)], simp add: h drop_skip,
       rule read32[OF _ r(2)], simp add: h drop_skip,
       rule read16[OF _ r(1)], simp add: h drop_skip,
       rule read16[OF _ c(1)], simp add: h drop_skip)
  show ?thesis
  proof (cases "format_extensible f")
    case False
    then show ?thesis using base by (simp add: read_fmt_chunk_def fmt_chunk_size_def info_of_def)
  next
    case True
    let ?m = "case f_channel_mask f of None \<Rightarrow> 0 | Some v \<Rightarrow> v"
    have m: "?m < 2 ^ 32" using f by (auto simp: format_ok_def split: option.splits)
    have ext: "read_u16_le ?b 36 = Inr 22" "read_u16_le ?b 38 = Inr (f_valid_bits f)"
      "read_u32_le ?b 40 = Inr ?m" "read_u16_le ?b 44 = Inr WAVE_FORMAT_PCM"
      by (rule read16, simp add: h drop_skip True fmt_extension_def, simp)
        (rule read16[OF _ c(2)], simp add: h drop_skip True fmt_extension_def,
         rule read32[OF _ m], simp add: h drop_skip True fmt_extension_def,
         rule read16, simp add: h drop_skip True fmt_extension_def, simp)
    have "sub_bytes 46 60 ?b = WAV_PCM_GUID_TAIL"
      by (simp add: sub_bytes_def h True fmt_extension_def)
    then show ?thesis using base ext True
      by (simp add: read_fmt_chunk_def read_extension_def fmt_chunk_size_def info_of_def)
  qed
qed

lemma wav_reads_back:
  assumes f: "format_ok f" and w: "write_wav_header f (length d) = (Inr (), h)"
  shows "read_wav_info (h @ d) = Inr (info_of f (length d))"
proof -
  have r: "20 + fmt_chunk_size f + length d < 2 ^ 32" "f_channels f * bytes_per_sample f < 2 ^ 16"
     "f_sample_rate f * (f_channels f * bytes_per_sample f) < 2 ^ 32" and h: "h = wav_header_bytes f (length d)"
    using w by (simp_all add: write_wav_header_iff)
  let ?n = "length d" and ?b = "wav_header_bytes f (length d) @ d" and ?s = "fmt_chunk_size f"
  note hd = wav_header_bytes_def Let_def append_assoc
  have s: "?s < 2 ^ 32" "?s mod 2 = 0" "8 \<le> ?s" by (simp_all add: fmt_chunk_size_def)
  have len: "length ?b = 28 + ?s + ?n" by (simp add: length_wav_header)
  have root: "sub_bytes 0 4 ?b = id_RIFF" "sub_bytes 8 12 ?b = id_WAVE" "sub_bytes 12 16 ?b = id_fmt"
    by (simp_all add: sub_bytes_def hd)
  have sizes: "read_u32_le ?b 4 = Inr (20 + ?s + ?n)" "read_u32_le ?b 16 = Inr ?s"
    by (rule read32[OF _ r(1)], simp add: hd drop_skip)
      (rule read32[OF _ s(1)], simp add: hd drop_skip)
  have le: "length (fmt_extension f) + 16 = ?s"
    by (simp add: fmt_extension_def fmt_chunk_size_def)
  have tail: "drop (20 + ?s) ?b = id_data @ le_bytes 4 ?n @ d"
    by (simp add: hd drop_skip le[symmetric])
  have n: "?n < 2 ^ 32" using r(1) by simp
  have "sub_bytes (20 + ?s) (24 + ?s) ?b = id_data" using tail by (simp add: sub_bytes_def)
  moreover have "drop (24 + ?s) ?b = le_bytes 4 ?n @ d"
  proof -
    have "drop (24 + ?s) ?b = drop 4 (drop (20 + ?s) ?b)" unfolding drop_drop by (simp add: ac_simps)
    then show ?thesis unfolding tail by simp
  qed
  then have "read_u32_le ?b (24 + ?s) = Inr ?n" by (rule read32[OF _ n])
  ultimately have data: "riff_chunks ?b rs (28 + ?s + ?n) (20 + ?s) (Some w) None = Inr (Some w, Some ?n)" for rs w
    by (subst riff_chunks.simps, simp add: Let_def add.commute) (subst riff_chunks.simps, simp)
  have "riff_chunks ?b (20 + ?s + ?n) (28 + ?s + ?n) 12 None None
      = Inr (Some (info_of f ?n\<lparr> wi_data_size := 0 \<rparr>), Some ?n)"
    using root(3) sizes(2) s(2) data[of "20 + ?s + ?n"] read_fmt_written[OF f r(2,3), of ?n d]
    by (subst riff_chunks.simps) (simp add: Let_def)
  moreover have "28 + ?s + ?n = 20 + ?s + ?n + 8" by simp
  ultimately have "riff_chunks ?b (20 + ?s + ?n) (20 + ?s + ?n + 8) 12 None None
      = Inr (Some (info_of f ?n\<lparr> wi_data_size := 0 \<rparr>), Some ?n)" by (simp only:)
  moreover have "info_of f ?n\<lparr> wi_data_size := 0, wi_data_size := ?n \<rparr> = info_of f ?n"
    by (simp add: info_of_def)
  ultimately show ?thesis
    using root(1,2) sizes(1) len unfolding read_wav_info_def h
    by (simp del: wav_info.update_convs add.assoc)
qed


lemma format_new_ok:
  assumes "LpcmWavFormat_new rate n cb vb spk = Inr f" and "rate < 2 ^ 32" and "n < 2 ^ 16"
    and "case spk of None \<Rightarrow> True | Some v \<Rightarrow> v < 2 ^ 32"
  shows "format_ok f"
  using assms by (auto simp: LpcmWavFormat_new_def format_ok_def split: if_splits)

lemma rewrite_overwrites:
  assumes "write_wav_header f 0 = (Inr (), h0)" and "write_wav_header f n = (r, h)"
  shows "rewrite_wav_header f n (h0 @ d) = (r, if r = Inr () then h @ d else write_at 0 h (h0 @ d))"
proof (cases "r = Inr ()")
  case True
  then have "length h = length h0"
    using assms by (simp add: write_wav_header_iff length_wav_header)
  then show ?thesis using assms(2) True by (simp add: rewrite_wav_header_def write_at_def)
next
  case False
  then show ?thesis using assms(2) by (simp add: rewrite_wav_header_def)
qed

text \<open>C39: The header that is written before the audio with size 0 and written again after it reads back.
  For every format the code constructs and every audio size the writer accepts, odd ones included,
  the rewritten file keeps the audio after the header untouched, and the reader of RIFF/WAVE files
  accepts it and reports the fields of the format and the size of the audio.\<close>

theorem wav_header_round_trip:
  assumes "LpcmWavFormat_new rate n cb vb spk = Inr f" and "rate < 2 ^ 32" and "n < 2 ^ 16"
    and "case spk of None \<Rightarrow> True | Some v \<Rightarrow> v < 2 ^ 32"
    and "write_wav_header f 0 = (Inr (), h0)"
    and "rewrite_wav_header f (length audio) (h0 @ audio) = (Inr (), file)"
  shows "drop (length h0) file = audio \<and> read_wav_info file = Inr (info_of f (length audio))"
proof -
  obtain r h where h: "write_wav_header f (length audio) = (r, h)" by fastforce
  then have r: "r = Inr ()" and out: "file = h @ audio"
    using rewrite_overwrites[OF assms(5) h, of audio] assms(6) by (auto split: if_splits)
  have "length h = length h0"
    using h assms(5) unfolding r by (simp add: write_wav_header_iff length_wav_header)
  then show ?thesis
    using wav_reads_back[OF format_new_ok[OF assms(1-4)] h[unfolded r]] out by simp
qed

definition cd_quality :: wav_format where
  "cd_quality = \<lparr> f_sample_rate = 48000, f_channels = 2, f_container_bits = 16, f_valid_bits = 16,
     f_channel_mask = None, format_extensible = False \<rparr>"

theorem wav_header_round_trip_witness:
  "read_wav_info (wav_header_bytes cd_quality 4 @ [1, 2, 3, 4]) = Inr (info_of cd_quality 4)"
proof -
  have new: "LpcmWavFormat_new 48000 2 16 16 None = Inr cd_quality"
    by (simp add: LpcmWavFormat_new_def cd_quality_def)
  have w: "write_wav_header cd_quality n = (Inr (), wav_header_bytes cd_quality n)" if "n < 1000" for n
    unfolding write_wav_header_iff using that by (simp add: cd_quality_def fmt_chunk_size_def bytes_per_sample_def)
  have four: "length [1, 2, 3, 4 :: u8] = 4" by simp
  show ?thesis
    using wav_header_round_trip[OF new _ _ _ w, of "[1, 2, 3, 4]" "wav_header_bytes cd_quality 4 @ [1, 2, 3, 4]"]
      rewrite_overwrites[OF w w, of 4 "[1, 2, 3, 4]"] unfolding four by simp
qed

subsection \<open>Validation of a written file\<close>

definition audio_of :: "wav_format \<Rightarrow> nat option \<Rightarrow> ExpectedAudio" where
  "audio_of f duration = \<lparr> xa_sample_rate = f_sample_rate f, xa_channels = f_channels f,
     xa_container_bits = f_container_bits f, xa_valid_bits = f_valid_bits f,
     xa_channel_mask = f_channel_mask f, xa_duration = duration \<rparr>"

definition align_bytes :: "wav_format \<Rightarrow> nat" where
  "align_bytes f = f_channels f * bytes_per_sample f"

lemma require_eq [simp]: "require c e = Inr () \<longleftrightarrow> c"
  by (simp add: require_def)

lemma require_True [simp]: "require True e = Inr ()"
  by (simp add: require_def)

lemma stream_format_written:
  assumes "format_ok f" and "0 < n"
  shows "check_stream_format (info_of f n) (audio_of f dur) = Inr ()"
  using assms by (auto simp: check_stream_format_def info_of_def audio_of_def format_ok_def split: option.splits)

lemma rates_written:
  assumes "format_ok f" and "0 < f_channels f" and "align_bytes f < 2 ^ 16" and "f_sample_rate f * align_bytes f < 2 ^ 32"
    and "n mod align_bytes f = 0"
  shows "check_rates (info_of f n) = Inr (align_bytes f)"
proof -
  have "f_container_bits f mod 8 = 0 \<and> 2 \<le> bytes_per_sample f"
    using assms(1) by (auto simp: format_ok_def bytes_per_sample_def)
  then show ?thesis using assms
    by (simp add: check_rates_def info_of_def align_bytes_def bytes_per_sample_def checked_mul32_def Let_def)
qed

text \<open>The validation accepts a file with whole frames whose size is within one second of what the
  chapter's duration predicts.\<close>

lemma written_validates:
  assumes f: "format_ok f" and w: "write_wav_header f (length d) = (Inr (), h)"
    and c: "0 < f_channels f" and d: "d \<noteq> []" "length d mod align_bytes f = 0"
    and dur: "case dur of None \<Rightarrow> True | Some ticks \<Rightarrow> ticks * f_sample_rate f div PTS_CLOCK_HZ * align_bytes f < 2 ^ 64 \<and>
       abs_diff (length d) (ticks * f_sample_rate f div PTS_CLOCK_HZ * align_bytes f) \<le> f_sample_rate f * align_bytes f"
  shows "validate_bluray_lpcm_wav (h @ d) (audio_of f dur) = Inr ()"
proof -
  have r: "align_bytes f < 2 ^ 16" "f_sample_rate f * align_bytes f < 2 ^ 32"
    using w by (simp_all add: write_wav_header_iff align_bytes_def)
  have pos: "1 \<le> align_bytes f"
    using f c by (auto simp: format_ok_def align_bytes_def bytes_per_sample_def)
  have "check_duration (info_of f (length d)) (audio_of f dur) (align_bytes f) = Inr ()"
  proof (cases dur)
    case None
    then show ?thesis by (simp add: check_duration_def audio_of_def)
  next
    case (Some t)
    let ?n = "t * f_sample_rate f div PTS_CLOCK_HZ"
    have n: "?n * align_bytes f < 2 ^ 64"
        "abs_diff (length d) (?n * align_bytes f) \<le> align_bytes f * f_sample_rate f"
      using dur Some by (simp_all add: mult.commute)
    have "?n * 1 \<le> ?n * align_bytes f" using pos by (rule mult_le_mono2)
    then have "?n < 2 ^ 64" using n(1) by linarith
    moreover have "align_bytes f * f_sample_rate f < 2 ^ 64" using r(2) by (simp add: mult.commute)
    ultimately show ?thesis using n Some
      by (simp add: check_duration_def audio_of_def pts90_to_samples_for_validation_def try_u64_def
          checked_mul64_def info_of_def Let_def)
  qed
  then show ?thesis
    using wav_reads_back[OF f w] stream_format_written[OF f] rates_written[OF f c r d(2)] d(1)
    by (simp add: validate_bluray_lpcm_wav_def)
qed

end
