(* ===== verification/TsDemuxTheorems.thy ===== *)
theory TsDemuxTheorems
  imports TsDemux
begin

text \<open>
  What the demultiplexer promises of a whole stream. A stream is a list of packets; its
  \<^emph>\<open>trace\<close> (\<open>accepted\<close>) is the list of payloads the selected PID carries, without the
  retransmissions. The runs push every packet and call \<open>finish\<close> once at the end, as the caller in
  \<open>src/convert/pipeline/bluray_realize.rs\<close> does. \<open>demux_sound\<close>: whatever is delivered is a
  contiguous and complete stretch of the trace, on any input. \<open>demux_complete\<close>: a trace that is a
  sequence of complete PES packets is delivered entirely. \<open>finish_flushes\<close>: what the one call of
  \<open>finish\<close> makes of the frame that ends the trace, and that nothing is left behind.
\<close>

subsection \<open>Runs and traces\<close>

fun opt_list :: "'a option \<Rightarrow> 'a list" where
  "opt_list None = []"
| "opt_list (Some x) = [x]"

fun push_all :: "u8 list list \<Rightarrow> demuxer \<Rightarrow> SelectedPesPacket list \<times> ts_error option \<times> demuxer" where
  "push_all [] d = ([], None, d)"
| "push_all (p # ps) d = (case push_ts_packet p d of
     (Inl e, d') \<Rightarrow> ([], Some e, d')
   | (Inr q, d') \<Rightarrow> (case push_all ps d' of (out, e, d'') \<Rightarrow> (opt_list q @ out, e, d'')))"

definition demux_stream :: "u16 \<Rightarrow> u8 list list \<Rightarrow> SelectedPesPacket list \<times> ts_error option \<times> demuxer" where
  "demux_stream pid ps = (case push_all ps (demuxer_new pid) of
     (out, Some e, d) \<Rightarrow> (out, Some e, d)
   | (out, None, d) \<Rightarrow> (case finish d of
        (Inl e, d') \<Rightarrow> (out, Some e, d')
      | (Inr q, d') \<Rightarrow> (out @ opt_list q, None, d')))"

record transport_unit =
  u_start :: bool
  u_counter :: u8
  u_bytes :: "u8 list"

fun accepted :: "u16 \<Rightarrow> (u8 \<times> u8 list) option \<Rightarrow> u8 list list \<Rightarrow> transport_unit list" where
  "accepted pid l [] = []"
| "accepted pid l (p # ps) = (case parse_ts_packet p of
     Inl e \<Rightarrow> []
   | Inr t \<Rightarrow>
       if ts_pid t \<noteq> pid then accepted pid l ps
       else
         let l' = (if discontinuity t then None else l) in
         (case ts_payload t of
            None \<Rightarrow> accepted pid l' ps
          | Some pl \<Rightarrow>
              if pl = [] \<or> l' = Some (counter t, pl) then accepted pid l' ps
              else \<lparr> u_start = unit_start t, u_counter = counter t, u_bytes = pl \<rparr>
                   # accepted pid (Some (counter t, pl)) ps))"

definition frame_bytes :: "transport_unit list \<Rightarrow> u8 list" where
  "frame_bytes fr = concat (map u_bytes fr)"

definition in_sequence :: "transport_unit list \<Rightarrow> bool" where
  "in_sequence fr = successively (\<lambda>f g. u_counter g = next_counter (u_counter f)) fr"

definition is_frame :: "transport_unit list \<Rightarrow> bool" where
  "is_frame fr \<longleftrightarrow> (case fr of [] \<Rightarrow> False
     | f # fs \<Rightarrow> u_start f \<and> list_all (\<lambda>g. \<not> u_start g) fs) \<and> in_sequence fr"

definition packet_of :: "transport_unit list \<Rightarrow> SelectedPesPacket" where
  "packet_of fr = \<lparr> payload = frame_bytes fr, continuity_start = u_counter (hd fr),
     continuity_end = u_counter (last fr) \<rparr>"

text \<open>A delivered packet is a frame of the trace; with a declared length it has exactly that
  length, without one it reaches to the next unit start, or to the end of the stream.\<close>

definition delimited :: "bool \<Rightarrow> u8 list \<Rightarrow> transport_unit list \<Rightarrow> bool" where
  "delimited at_end b post = (case length_state b of
     Known n \<Rightarrow> length b = n
   | _ \<Rightarrow> (case post of [] \<Rightarrow> at_end | f # _ \<Rightarrow> u_start f))"

definition genuine :: "bool \<Rightarrow> transport_unit list \<Rightarrow> SelectedPesPacket \<Rightarrow> bool" where
  "genuine at_end tr q \<longleftrightarrow> (\<exists>pre fr post. tr = pre @ fr @ post \<and> is_frame fr \<and>
     q = packet_of fr \<and> delimited at_end (frame_bytes fr) post)"

lemma genuineI:
  "tr = pre @ fr @ post \<Longrightarrow> is_frame fr \<Longrightarrow> delimited e (frame_bytes fr) post \<Longrightarrow>
    genuine e tr (packet_of fr)"
  by (auto simp: genuine_def)

lemma genuine_append: "genuine False tr q \<Longrightarrow> genuine False (tr @ rest) q"
proof -
  assume "genuine False tr q"
  then obtain pre fr post where g: "tr = pre @ fr @ post" "is_frame fr" "q = packet_of fr"
      "delimited False (frame_bytes fr) post"
    by (auto simp: genuine_def)
  then have "delimited False (frame_bytes fr) (post @ rest)"
    by (auto simp: delimited_def split: PesLengthState.splits list.splits)
  with g show ?thesis using genuineI[of _ pre fr "post @ rest"] by simp
qed

lemma genuine_at_end: "genuine False tr q \<Longrightarrow> genuine True tr q"
  unfolding genuine_def
  by (elim exE conjE, intro exI conjI, assumption+)
    (auto simp: delimited_def split: PesLengthState.splits list.splits)

lemma frame_single: "u_start f \<Longrightarrow> is_frame [f]"
  by (simp add: is_frame_def in_sequence_def)

lemma frame_snoc:
  "is_frame fr \<Longrightarrow> \<not> u_start f \<Longrightarrow> u_counter f = next_counter (u_counter (last fr)) \<Longrightarrow>
    is_frame (fr @ [f])"
  by (auto simp: is_frame_def in_sequence_def successively_append_iff split: list.splits)

lemma frame_not_Nil: "is_frame fr \<Longrightarrow> fr \<noteq> []"
  by (auto simp: is_frame_def)

lemma frame_bytes_simps [simp]:
  "frame_bytes [] = []" "frame_bytes (f # fs) = u_bytes f @ frame_bytes fs"
  "frame_bytes (xs @ ys) = frame_bytes xs @ frame_bytes ys"
  by (simp_all add: frame_bytes_def)

lemma next_counter_differs: "next_counter c \<noteq> c"
proof
  assume "next_counter c = c"
  then have "odd ((c + 1) AND 0x0f) \<longleftrightarrow> odd c" by (simp add: next_counter_def)
  then show False by (simp add: even_and_iff)
qed



subsection \<open>Soundness of what is delivered\<close>

definition last_seen :: "demuxer \<Rightarrow> (u8 \<times> u8 list) option" where
  "last_seen d = (case last_counter d of None \<Rightarrow> None | Some c \<Rightarrow> map_option (Pair c) (last_payload d))"

definition assembling :: "demuxer \<Rightarrow> transport_unit list \<Rightarrow> bool" where
  "assembling d fr \<longleftrightarrow> is_frame fr \<and> current_pes d = frame_bytes fr \<and>
     current_start d = Some (u_counter (hd fr)) \<and> current_end d = Some (u_counter (last fr)) \<and>
     last_counter d = Some (u_counter (last fr))"

definition sound :: "demuxer \<Rightarrow> transport_unit list \<Rightarrow> bool" where
  "sound d tr \<longleftrightarrow> demux_wf d \<and>
     (started d \<longrightarrow> (\<exists>pre fr. tr = pre @ fr \<and> assembling d fr)) \<and>
     (\<forall>q \<in> set (completed d). genuine False tr q)"

lemma opt_list_iff: "q \<in> set (opt_list out) \<longleftrightarrow> out = Some q"
  by (cases out) auto

lemma pop_update:
  assumes "pop_completed d = (Inr out, d')"
  shows "d' = d\<lparr> completed := completed d' \<rparr>" and "opt_list out @ completed d' = completed d"
  using assms by (auto simp: pop_completed_def split: list.splits)

lemma update_completed_facts [simp]:
  "last_seen (d\<lparr> completed := q \<rparr>) = last_seen d"
  "assembling (d\<lparr> completed := q \<rparr>) fr = assembling d fr"
  "idle (d\<lparr> completed := q \<rparr>) = idle d" "in_progress (d\<lparr> completed := q \<rparr>) = in_progress d"
  by (simp_all add: last_seen_def assembling_def idle_def in_progress_def split: option.splits)

lemma pop_facts:
  assumes "pop_completed d = (Inr out, d')"
  shows "last_seen d' = last_seen d" and "assembling d' fr = assembling d fr"
    and "started d' = started d" and "dpid d' = dpid d"
    and "idle d' = idle d" and "in_progress d' = in_progress d"
    and "current_length d' = current_length d" and "current_pes d' = current_pes d"
    and "out = Some q \<Longrightarrow> q \<in> set (completed d)"
    and "q \<in> set (completed d') \<Longrightarrow> q \<in> set (completed d)"
proof -
  have e: "d' = d\<lparr> completed := completed d' \<rparr>" by (rule pop_update(1)[OF assms])
  show "last_seen d' = last_seen d" "assembling d' fr = assembling d fr"
      "started d' = started d" "dpid d' = dpid d" "idle d' = idle d"
      "in_progress d' = in_progress d" "current_length d' = current_length d"
      "current_pes d' = current_pes d"
    by (subst e, simp)+
  have "q \<in> set (opt_list out) \<or> q \<in> set (completed d') \<longleftrightarrow> q \<in> set (completed d)"
    unfolding pop_update(2)[OF assms, symmetric] by simp
  then show "out = Some q \<Longrightarrow> q \<in> set (completed d)"
    "q \<in> set (completed d') \<Longrightarrow> q \<in> set (completed d)"
    by (auto simp: opt_list_iff)
qed

lemma sound_pop:
  assumes "sound d tr" and "pop_completed d = (Inr out, d')"
  shows "sound d' tr" and "last_seen d' = last_seen d" and "out = Some q \<Longrightarrow> genuine False tr q"
proof -
  have wf: "demux_wf d'" using demux_wf_pop[of d] assms by (simp add: sound_def)
  note p = pop_facts[OF assms(2)]
  show "sound d' tr" using assms(1) wf p(2,3,10) by (auto simp: sound_def)
  show "last_seen d' = last_seen d" by (rule p(1))
  show "out = Some q \<Longrightarrow> genuine False tr q" using assms(1) p(9) by (auto simp: sound_def)
qed

text \<open>Adding the payload of a unit to the frame under construction.\<close>

lemma append_step:
  assumes "in_progress d" and "current_start d = Some (u_counter (hd (fr @ [f])))"
    and "current_pes d = frame_bytes fr" and "length (completed d) \<le> 1"
    and "u_bytes f \<noteq> []" and "unat (u_counter f) < 16" and "is_frame (fr @ [f])"
    and "append_payload (u_counter f) (u_bytes f) d = (Inr out, d')"
  obtains (whole) d1 where "judge (dpid d) (frame_bytes (fr @ [f])) = Whole"
      "pop_completed d1 = (Inr out, d')" "idle d1" "demux_wf d'"
      "completed d1 = completed d @ [packet_of (fr @ [f])]"
      "last_seen d1 = Some (u_counter f, u_bytes f)" "dpid d1 = dpid d"
    | (partial) d1 where "judge (dpid d) (frame_bytes (fr @ [f])) = Partial"
      "pop_completed d1 = (Inr out, d')" "in_progress d1" "demux_wf d'"
      "assembling d1 (fr @ [f])" "completed d1 = completed d"
      "last_seen d1 = Some (u_counter f, u_bytes f)" "dpid d1 = dpid d"
proof -
  have wf: "demux_wf d'" using append_wf[OF assms(1,2,4,5,6,8)] by simp
  note eq = append_payload_eq[OF assms(1,2), of "u_counter f" "u_bytes f"]
  show ?thesis
  proof (cases "judge (dpid d) (frame_bytes (fr @ [f]))")
    case Partial
    let ?g = "grown (u_counter f) (u_bytes f) d
      \<lparr> current_length := length_state (current_pes d @ u_bytes f) \<rparr>"
    have "pop_completed ?g = (Inr out, d')" using eq Partial assms(3,8) by simp
    moreover have "in_progress ?g" using assms(1,3) Partial by (simp add: in_progress_def)
    moreover have "assembling ?g (fr @ [f])"
      using assms by (simp add: assembling_def)
    ultimately show ?thesis
      by (intro partial[of ?g]) (simp_all add: Partial[simplified] wf last_seen_def)
  next
    case Whole
    let ?g = "discard_current (grown (u_counter f) (u_bytes f) d)
      \<lparr> completed := completed d @ [packet_of (fr @ [f])] \<rparr>"
    have "pop_completed ?g = (Inr out, d')" using eq Whole assms(2,3,8) by (simp add: packet_of_def)
    moreover have "idle ?g" by (simp add: idle_def discard_current_def)
    ultimately show ?thesis
      by (intro whole[of ?g]) (simp_all add: Whole[simplified] wf last_seen_def)
  next
    case (Bad e)
    with eq assms(3,8) show ?thesis by simp
  qed
qed

lemma judge_Whole_delimited: "judge pid b = Whole \<Longrightarrow> delimited e b post"
  by (auto simp: judge_def delimited_def split: if_splits PesLengthState.splits)

lemma sound_append:
  assumes d: "in_progress d" "current_start d = Some (u_counter (hd (fr @ [f])))"
      "current_pes d = frame_bytes fr" "length (completed d) \<le> 1"
    and f: "u_bytes f \<noteq> []" "unat (u_counter f) < 16" "is_frame (fr @ [f])"
    and r: "append_payload (u_counter f) (u_bytes f) d = (Inr out, d')"
    and q: "\<forall>q \<in> set (completed d). genuine False (pre @ fr @ [f]) q"
  shows "sound d' (pre @ fr @ [f]) \<and> last_seen d' = Some (u_counter f, u_bytes f) \<and>
    (\<forall>q. out = Some q \<longrightarrow> genuine False (pre @ fr @ [f]) q)"
proof (rule append_step[OF d f r])
  fix d1
  assume a: "judge (dpid d) (frame_bytes (fr @ [f])) = Whole" "pop_completed d1 = (Inr out, d')"
    "idle d1" "demux_wf d'" "completed d1 = completed d @ [packet_of (fr @ [f])]"
    "last_seen d1 = Some (u_counter f, u_bytes f)"
  note p = pop_facts[OF a(2)]
  have g: "genuine False (pre @ fr @ [f]) (packet_of (fr @ [f]))"
    by (rule genuineI[of _ pre _ "[]"]) (use a(1) f judge_Whole_delimited in auto)
  have "\<not> started d'" using p(3) a(3) by (simp add: idle_def)
  then show ?thesis using g q a(4-6) p(1,9,10) by (auto simp: sound_def)
next
  fix d1
  assume a: "pop_completed d1 = (Inr out, d')" "in_progress d1" "demux_wf d'"
    "assembling d1 (fr @ [f])" "completed d1 = completed d"
    "last_seen d1 = Some (u_counter f, u_bytes f)"
  note p = pop_facts[OF a(1)]
  have "assembling d' (fr @ [f])" using a(4) p(2) by simp
  then show ?thesis using q a(3,5,6) p(1,9,10) by (auto simp: sound_def)
qed





lemma is_frame_start: "u_start f \<Longrightarrow> is_frame ([] @ [f])"
  by (simp add: frame_single)

lemma wf_last_counter:
  "demux_wf d \<Longrightarrow> last_counter d = Some c \<longleftrightarrow> (\<exists>pl. last_seen d = Some (c, pl))"
  by (auto simp: demux_wf_def last_seen_def split: option.splits)

lemma sound_accept:
  assumes snd: "sound d tr" and cc: "unat (u_counter f) < 16" and pl: "u_bytes f \<noteq> []"
    and fresh: "last_seen d \<noteq> Some (u_counter f, u_bytes f)"
    and r: "accept_payload (u_start f) (u_counter f) (u_bytes f) d = (Inr out, d')"
  shows "sound d' (tr @ [f]) \<and> last_seen d' = Some (u_counter f, u_bytes f) \<and>
    (\<forall>q. out = Some q \<longrightarrow> genuine False (tr @ [f]) q)"
proof -
  have wf: "demux_wf d" using snd by (simp add: sound_def)
  have q: "\<forall>q \<in> set (completed d). genuine False (tr @ [f]) q"
    using snd genuine_append by (auto simp: sound_def)
  have acc: "last_counter d = None \<or>
    (\<exists>c. last_counter d = Some c \<and> u_counter f \<noteq> c \<and> u_counter f = next_counter c)"
    using r fresh wf
    by (auto simp: accept_payload_def validate_selected_payload_continuity_def demux_bind_def
        last_seen_def demux_wf_def split: option.splits if_splits)
  note eq = accept_payload_accepting[OF wf acc, of "u_start f" "u_bytes f"]
  consider (new) "u_start f" "\<not> interrupted d" | (cut) "u_start f" "interrupted d"
    | (skip) "\<not> u_start f" "\<not> started d" | (more) "\<not> u_start f" "started d" by blast
  then show ?thesis
  proof cases
    case new
    have "\<forall>q \<in> set (completed (flushed d)). genuine False (tr @ [f]) q"
    proof (cases "started d")
      case True
      then obtain pre fr where fr: "tr = pre @ fr" "assembling d fr"
        using snd by (auto simp: sound_def)
      have "in_progress d" using wf_started[OF wf True] by metis
      then have "\<And>n. length_state (frame_bytes fr) \<noteq> Known n"
        using new fr True by (auto simp: interrupted_def in_progress_def assembling_def)
      then have "delimited False (frame_bytes fr) [f]"
        using new by (auto simp: delimited_def split: PesLengthState.splits)
      then have "genuine False (tr @ [f]) (packet_of fr)"
        using fr by (intro genuineI[of _ pre _ "[f]"]) (auto simp: assembling_def)
      then show ?thesis using fr q True
        by (auto simp: flushed_def assembling_def packet_of_def)
    next
      case False
      then show ?thesis using q by (simp add: flushed_def)
    qed
    then show ?thesis
      using sound_append[of "start_new_pes (u_counter f) (flushed d)" "[]" f out d' tr]
        is_frame_start[OF new(1)] flushed_completed[OF wf] eq new r pl cc
      by simp
  next
    case cut
    then show ?thesis using eq r by simp
  next
    case skip
    have wf': "demux_wf (mark_selected_payload_accepted (u_counter f) (u_bytes f) d)"
      using wf skip cc by (auto simp: demux_wf_def mark_selected_payload_accepted_def idle_def)
    then have "sound (mark_selected_payload_accepted (u_counter f) (u_bytes f) d) (tr @ [f])"
      using skip q by (simp add: sound_def)
    then show ?thesis using sound_pop eq r skip
      by (auto simp: last_seen_def mark_selected_payload_accepted_def)
  next
    case more
    obtain pre fr where fr: "tr = pre @ fr" "assembling d fr"
      using snd more by (auto simp: sound_def)
    have p: "in_progress d" "completed d = []" using wf_started[OF wf more(2)] by metis+
    have ne: "fr \<noteq> []" using fr(2) frame_not_Nil by (auto simp: assembling_def)
    have "is_frame (fr @ [f])"
      using fr(2) more acc by (intro frame_snoc) (auto simp: assembling_def)
    then show ?thesis
      using sound_append[of d fr f out d' pre] p fr ne pl cc eq r more
      by (auto simp: assembling_def)
  qed
qed

lemma sound_reset: "sound d tr \<Longrightarrow> sound (discard_current (reset_continuity_expectation d)) tr"
  by (auto simp: sound_def demux_wf_def reset_continuity_expectation_def split: if_splits)

lemma last_seen_reset [simp]:
  "last_seen (discard_current (reset_continuity_expectation d)) = None"
  by (simp add: last_seen_def reset_continuity_expectation_def)

lemma sound_duplicate:
  assumes "sound d tr" and "last_seen d = Some (cc, pl)"
    and "accept_payload pusi cc pl d = (Inr out, d')"
  shows "sound d' tr \<and> last_seen d' = last_seen d \<and> (\<forall>q. out = Some q \<longrightarrow> genuine False tr q)"
proof -
  have "accept_payload pusi cc pl d = pop_completed d"
    using assms(2) by (auto simp: accept_payload_def validate_selected_payload_continuity_def
        demux_bind_def last_seen_def split: option.splits)
  then have "pop_completed d = (Inr out, d')" using assms(3) by simp
  from sound_pop[OF assms(1) this] show ?thesis by auto
qed

lemma accept_keeps_pid:
  assumes "accept_payload pusi cc pl d = (r, d')"
  shows "dpid d' = dpid d"
proof -
  have v: "dpid (snd (validate_selected_payload_continuity cc pl d)) = dpid d" for d
    by (auto simp: validate_selected_payload_continuity_def split: option.splits)
  have rf: "dpid (snd (refresh_current_pes_length_state d)) = dpid d" for d
    by (auto simp: refresh_current_pes_length_state_def Let_def)
  have ic: "dpid (snd (current_pes_is_complete d)) = dpid d" for d
    by (auto simp: current_pes_is_complete_def split: PesLengthState.splits)
  have tk: "dpid (snd (take_current_pes d)) = dpid d" for d
    by (auto simp: take_current_pes_def split: option.splits)
  have pp: "dpid (snd (pop_completed d)) = dpid d" for d
    by (auto simp: pop_completed_def split: list.splits)
  have pc: "dpid (snd (push_completed q d)) = dpid d" for q d
    by (simp add: push_completed_def)
  have bind: "dpid (snd (demux_bind m g d)) = dpid d"
    if "\<And>d. dpid (snd (m d)) = dpid d" and "\<And>x d. dpid (snd (g x d)) = dpid d" for m g d
    using that by (auto simp: demux_bind_def split: prod.splits sum.splits) (metis snd_conv)+
  have ap: "dpid (snd (append_payload cc pl d)) = dpid d" for d
    unfolding append_payload_def
    by (intro bind) (auto simp: rf ic pp tk pc bind mark_selected_payload_accepted_def)
  have fin: "dpid (snd (finalize_current_for_new_pusi d)) = dpid d" for d
    unfolding finalize_current_for_new_pusi_def
    by (auto intro!: bind simp: rf tk pc split: PesLengthState.splits)
  have "dpid (snd (accept_payload pusi cc pl d)) = dpid d"
    unfolding accept_payload_def
    by (intro bind v) (auto split: ContinuityDecision.splits intro!: bind simp: pp fin ap start_simps)
  with assms show ?thesis by simp
qed

lemma accepted_Cons:
  assumes "push_ts_packet p d = (Inr out, d')" and "sound d tr"
  shows "\<exists>new. accepted (dpid d) (last_seen d) (p # ps) = new @ accepted (dpid d) (last_seen d') ps \<and>
    sound d' (tr @ new) \<and> dpid d' = dpid d \<and> (\<forall>q. out = Some q \<longrightarrow> genuine False (tr @ new) q)"
proof -
  obtain t where t: "parse_ts_packet p = Inr t"
    using assms(1) by (auto simp: push_ts_packet_def split: sum.splits)
  define e where "e = (if discontinuity t then discard_current (reset_continuity_expectation d) else d)"
  have snd: "sound e tr" using assms(2) sound_reset by (simp add: e_def)
  have pid: "dpid e = dpid d"
    by (simp add: e_def reset_continuity_expectation_def)
  have ls: "last_seen e = (if discontinuity t then None else last_seen d)" by (simp add: e_def)
  consider (other) "ts_pid t \<noteq> dpid d"
    | (silent) "ts_pid t = dpid d" "ts_payload t = None \<or> ts_payload t = Some []"
    | (carry) pl where "ts_pid t = dpid d" "ts_payload t = Some pl" "pl \<noteq> []"
    by (cases "ts_payload t") auto
  then show ?thesis
  proof cases
    case other
    then have pop: "pop_completed d = (Inr out, d')"
      using assms(1) t by (simp add: push_ts_packet_def)
    show ?thesis
      by (rule exI[of _ "[]"]) (use other t sound_pop[OF assms(2) pop] pop_facts[OF pop] in simp)
  next
    case silent
    then have pop: "pop_completed e = (Inr out, d')"
      using assms(1) t by (auto simp: push_ts_packet_def e_def Let_def)
    show ?thesis
      by (rule exI[of _ "[]"])
        (use silent t sound_pop[OF snd pop] pop_facts[OF pop] pid ls in \<open>auto simp: Let_def\<close>)
  next
    case carry
    let ?f = "\<lparr> u_start = unit_start t, u_counter = counter t, u_bytes = pl \<rparr>"
    have acc: "accept_payload (unit_start t) (counter t) pl e = (Inr out, d')"
      using assms(1) t carry by (simp add: push_ts_packet_def e_def Let_def)
    show ?thesis
    proof (cases "last_seen e = Some (counter t, pl)")
      case True
      show ?thesis
        by (rule exI[of _ "[]"])
          (use carry t True sound_duplicate[OF snd True acc] accept_keeps_pid[OF acc] pid ls in \<open>auto simp: Let_def\<close>)
    next
      case False
      show ?thesis
        by (rule exI[of _ "[?f]"])
          (use carry t False sound_accept[OF snd, of ?f out d'] acc parse_counter[OF t]
              accept_keeps_pid[OF acc] pid ls in \<open>auto simp: Let_def\<close>)
    qed
  qed
qed

lemma push_all_sound:
  assumes "push_all ps d = (out, r, d')" and "sound d tr" and "q \<in> set out"
  shows "genuine False (tr @ accepted (dpid d) (last_seen d) ps) q"
  using assms
proof (induction ps arbitrary: d tr out)
  case Nil
  then show ?case by simp
next
  case (Cons p ps)
  obtain out1 d1 out2 where p: "push_ts_packet p d = (Inr out1, d1)"
      "push_all ps d1 = (out2, r, d')" "out = opt_list out1 @ out2"
    using Cons.prems(1,3) by (auto split: prod.splits sum.splits)
  obtain new where n: "accepted (dpid d) (last_seen d) (p # ps) = new @ accepted (dpid d) (last_seen d1) ps"
      "sound d1 (tr @ new)" "dpid d1 = dpid d" "\<And>q. out1 = Some q \<Longrightarrow> genuine False (tr @ new) q"
    using accepted_Cons[OF p(1) Cons.prems(2)] by metis
  show ?case
  proof (cases "q \<in> set out2")
    case True
    then show ?thesis using Cons.IH[OF p(2) n(2)] n by simp
  next
    case False
    then have "out1 = Some q" using Cons.prems(3) p(3) by (auto simp: opt_list_iff)
    from genuine_append[OF n(4)[OF this]] show ?thesis using n(1) by simp
  qed
qed

lemma push_all_final:
  assumes "push_all ps d = (out, None, d')" and "sound d tr"
  shows "sound d' (tr @ accepted (dpid d) (last_seen d) ps)"
  using assms
proof (induction ps arbitrary: d tr out)
  case Nil
  then show ?case by simp
next
  case (Cons p ps)
  obtain out1 d1 out2 where p: "push_ts_packet p d = (Inr out1, d1)"
      "push_all ps d1 = (out2, None, d')"
    using Cons.prems(1) by (auto split: prod.splits sum.splits)
  obtain new where n: "accepted (dpid d) (last_seen d) (p # ps) = new @ accepted (dpid d) (last_seen d1) ps"
      "sound d1 (tr @ new)" "dpid d1 = dpid d"
    using accepted_Cons[OF p(1) Cons.prems(2)] by metis
  show ?case using Cons.IH[OF p(2) n(2)] n by simp
qed

lemma sound_finish:
  assumes "sound d tr" and "finish d = (Inr (Some q), d')"
  shows "genuine True tr q"
proof (cases "completed d")
  case Nil
  then have st: "started d" and run: "finish d = (Inr (Some q), d')"
    using assms(2) by (auto simp: finish_def split: if_splits)
  have wf: "demux_wf d" using assms(1) by (simp add: sound_def)
  obtain s e where d: "current_start d = Some s" "current_end d = Some e" "in_progress d"
      "current_pes d \<noteq> []" "completed d = []"
    using wf_started[OF wf st] .
  obtain pre fr where fr: "tr = pre @ fr" "assembling d fr"
    using assms(1) st by (auto simp: sound_def)
  have "\<And>n. current_length d \<noteq> Known n"
    using run st d progress_known[OF d(3)] by (auto simp: finish_def)
  then have "delimited True (frame_bytes fr) []"
    using d(3) fr(2)
    by (auto simp: delimited_def in_progress_def assembling_def split: PesLengthState.splits)
  moreover have "q = packet_of fr"
    using run st d fr(2)
    by (auto simp: finish_def demux_bind_def take_current_eq packet_of_def assembling_def
        split: PesLengthState.splits if_splits)
  ultimately show ?thesis
    using fr genuineI[of tr pre fr "[]" True] by (auto simp: assembling_def)
next
  case (Cons p ps)
  then have "pop_completed d = (Inr (Some q), d')" using assms(2) by (simp add: finish_def)
  from sound_pop(3)[OF assms(1) this refl] show ?thesis by (rule genuine_at_end)
qed

text \<open>C7: Whatever packets arrive, damaged or not, every PES packet the demultiplexer delivers is
  genuine: its bytes are those of consecutive payloads of the selected PID, from one with the
  unit-start flag on and with counters running without a gap; it has exactly its declared length,
  or, declaring none, reaches to the next unit start or the end of the stream. No truncated and no
  spliced packet is delivered, before an error either.\<close>

theorem demux_sound:
  assumes "demux_stream pid ps = (out, r, d)" and "q \<in> set out"
  shows "genuine True (accepted pid None ps) q"
proof -
  have new: "sound (demuxer_new pid) []"
    using demux_wf_new by (simp add: sound_def demuxer_new_def)
  have ls: "last_seen (demuxer_new pid) = None" "dpid (demuxer_new pid) = pid"
    by (simp_all add: last_seen_def demuxer_new_def)
  obtain out1 r1 d1 where p: "push_all ps (demuxer_new pid) = (out1, r1, d1)"
    by (cases "push_all ps (demuxer_new pid)")
  have early: "genuine True (accepted pid None ps) q" if "q \<in> set out1"
    using genuine_at_end[OF push_all_sound[OF p new that]] ls by simp
  show ?thesis
  proof (cases "q \<in> set out1")
    case False
    then have "r1 = None" and "finish d1 = (Inr (Some q), d)"
      using assms p by (auto simp: demux_stream_def opt_list_iff split: option.splits prod.splits sum.splits)
    then show ?thesis
      using sound_finish[of d1 "accepted pid None ps" q d] push_all_final[of ps _ out1 d1, OF _ new] p ls
      by simp
  qed (rule early)
qed

subsection \<open>Every complete packet is delivered\<close>

definition complete_frame :: "u16 \<Rightarrow> transport_unit list \<Rightarrow> bool" where
  "complete_frame pid fr \<longleftrightarrow> is_frame fr \<and>
     (judge pid (frame_bytes fr) = Whole \<or>
      judge pid (frame_bytes fr) = Partial \<and>
        (case length_state (frame_bytes fr) of Known n \<Rightarrow> False | _ \<Rightarrow> True))"

lemma complete_frame_iff:
  "complete_frame pid fr \<longleftrightarrow> is_frame fr \<and>
     (judge pid (frame_bytes fr) = Whole \<or>
      judge pid (frame_bytes fr) = Partial \<and> (\<forall>n. length_state (frame_bytes fr) \<noteq> Known n))"
  by (auto simp: complete_frame_def split: PesLengthState.splits)

text \<open>A proper prefix of a complete packet is not yet complete, and never bad.\<close>

lemma judge_prefix:
  assumes "judge pid (a @ b) = Whole \<or> judge pid (a @ b) = Partial" and "b \<noteq> []"
  shows "judge pid a = Partial"
proof (cases "length a < 6")
  case True
  then show ?thesis by (simp add: judge_def)
next
  case False
  then have l: "6 \<le> length a" by simp
  then have "take 3 (a @ b) = take 3 a" and "\<not> length (a @ b) < 6" by simp_all
  then show ?thesis
    using assms l length_state_append[OF l, of b]
    by (auto simp: judge_def split: if_splits PesLengthState.splits)
qed

definition midway :: "demuxer \<Rightarrow> transport_unit list \<Rightarrow> bool" where
  "midway d fr \<longleftrightarrow> demux_wf d \<and> (if fr = [] then \<not> started d else started d \<and> assembling d fr)"

definition linked :: "demuxer \<Rightarrow> transport_unit list \<Rightarrow> bool" where
  "linked d us \<longleftrightarrow> in_sequence us \<and>
     (us \<noteq> [] \<longrightarrow> (\<forall>c. last_counter d = Some c \<longrightarrow> u_counter (hd us) = next_counter c))"

lemma midway_pop:
  assumes "midway d fr" and "pop_completed d = (Inr out, d')"
  shows "midway d' fr"
proof -
  have "demux_wf d'" using demux_wf_pop[of d] assms by (simp add: midway_def)
  then show ?thesis using assms pop_facts[OF assms(2)] by (auto simp: midway_def)
qed

lemma pop_total: "\<exists>out d'. pop_completed d = (Inr out, d')"
  by (auto simp: pop_completed_def split: list.splits)

lemma complete_append:
  assumes d: "in_progress d" "current_start d = Some (u_counter (hd (fr @ [f])))"
      "current_pes d = frame_bytes fr" "length (completed d) \<le> 1"
    and f: "u_bytes f \<noteq> []" "unat (u_counter f) < 16"
    and c: "complete_frame (dpid d) (fr @ f # fs)"
    and ne: "\<forall>u \<in> set fs. u_bytes u \<noteq> []"
  shows "\<exists>out d'. append_payload (u_counter f) (u_bytes f) d = (Inr out, d') \<and> dpid d' = dpid d \<and>
    last_seen d' = Some (u_counter f, u_bytes f) \<and>
    (if fs = [] \<and> judge (dpid d) (frame_bytes (fr @ [f])) = Whole
     then midway d' [] \<and> opt_list out @ completed d' = completed d @ [packet_of (fr @ [f])]
     else midway d' (fr @ [f]) \<and> opt_list out @ completed d' = completed d)"
proof -
  have c': "is_frame (fr @ f # fs)" using c by (simp add: complete_frame_def)
  have fr1: "is_frame (fr @ [f])"
    using c' by (cases fr) (auto simp: is_frame_def in_sequence_def successively_append_iff
        successively_Cons hd_append)
  have j: "judge (dpid d) (frame_bytes (fr @ [f])) = Partial" if "fs \<noteq> []"
  proof -
    have "frame_bytes fs \<noteq> []" using that ne by (cases fs) auto
    then show ?thesis
      using judge_prefix[of "dpid d" "frame_bytes (fr @ [f])" "frame_bytes fs"] c
      by (auto simp: complete_frame_def)
  qed
  have nb: "judge (dpid d) (frame_bytes (fr @ [f])) \<noteq> Bad e" for e
    using j c by (cases "fs = []") (auto simp: complete_frame_def)
  have "\<exists>out d'. append_payload (u_counter f) (u_bytes f) d = (Inr out, d')"
    unfolding append_payload_eq[OF d(1,2)]
    using nb pop_total d(3) by (auto split: verdict.splits)
  then obtain out d' where a: "append_payload (u_counter f) (u_bytes f) d = (Inr out, d')" by blast
  show ?thesis
  proof (rule append_step[OF d f fr1 a])
    fix d1
    assume w: "judge (dpid d) (frame_bytes (fr @ [f])) = Whole" "pop_completed d1 = (Inr out, d')"
      "idle d1" "demux_wf d'" "completed d1 = completed d @ [packet_of (fr @ [f])]"
      "last_seen d1 = Some (u_counter f, u_bytes f)" "dpid d1 = dpid d"
    have "fs = []" using j w(1) by (cases "fs = []") simp_all
    moreover have "midway d' []"
      using w(3,4) pop_facts(3)[OF w(2)] by (simp add: midway_def idle_def)
    ultimately show ?thesis
      using a w pop_facts(1,4)[OF w(2)] pop_update(2)[OF w(2)] by (intro exI[of _ out] exI[of _ d']) simp
  next
    fix d1
    assume w: "judge (dpid d) (frame_bytes (fr @ [f])) = Partial" "pop_completed d1 = (Inr out, d')"
      "in_progress d1" "demux_wf d'" "assembling d1 (fr @ [f])" "completed d1 = completed d"
      "last_seen d1 = Some (u_counter f, u_bytes f)" "dpid d1 = dpid d"
    have "midway d' (fr @ [f])"
      using w(3-5) pop_facts(2,3)[OF w(2)] by (simp add: midway_def in_progress_def)
    then show ?thesis
      using a w pop_facts(1,4)[OF w(2)] pop_update(2)[OF w(2)] by (intro exI[of _ out] exI[of _ d']) simp
  qed
qed



lemma linked_Cons:
  assumes "linked d (f # us)" and "demux_wf d"
  shows "last_counter d = None \<or>
      (\<exists>c. last_counter d = Some c \<and> u_counter f \<noteq> c \<and> u_counter f = next_counter c)"
    and "last_seen d' = Some (u_counter f, u_bytes f) \<Longrightarrow> linked d' us"
proof -
  show "last_counter d = None \<or>
      (\<exists>c. last_counter d = Some c \<and> u_counter f \<noteq> c \<and> u_counter f = next_counter c)"
    using assms(1) next_counter_differs by (cases "last_counter d") (auto simp: linked_def)
  assume "last_seen d' = Some (u_counter f, u_bytes f)"
  then have "last_counter d' = Some (u_counter f)" by (auto simp: last_seen_def split: option.splits)
  then show "linked d' us"
    using assms(1) by (cases us) (auto simp: linked_def in_sequence_def)
qed

text \<open>The two ways a payload is taken: the next unit of the frame under construction, and the
  first one of the next frame.\<close>

lemma complete_continue:
  assumes m: "midway d fr" "fr \<noteq> []" and c: "complete_frame (dpid d) (fr @ f # fs)"
    and ne: "u_bytes f \<noteq> []" "\<forall>u \<in> set fs. u_bytes u \<noteq> []" and cc: "unat (u_counter f) < 16"
    and l: "linked d (f # us)"
  shows "\<exists>out d'. accept_payload (u_start f) (u_counter f) (u_bytes f) d = (Inr out, d') \<and>
    dpid d' = dpid d \<and> last_seen d' = Some (u_counter f, u_bytes f) \<and>
    (if fs = [] \<and> judge (dpid d) (frame_bytes (fr @ [f])) = Whole
     then midway d' [] \<and> opt_list out @ completed d' = completed d @ [packet_of (fr @ [f])]
     else midway d' (fr @ [f]) \<and> opt_list out @ completed d' = completed d)"
proof -
  have wf: "demux_wf d" and st: "started d" and as: "assembling d fr"
    using m by (simp_all add: midway_def)
  have ns: "\<not> u_start f"
    using c m(2) by (cases fr) (auto simp: complete_frame_def is_frame_def)
  have p: "in_progress d" "completed d = []" using wf_started[OF wf st] by metis+
  show ?thesis
    unfolding accept_payload_accepting[OF wf linked_Cons(1)[OF l wf]]
    using complete_append[of d fr f fs] p as m(2) ne cc c st ns by (simp add: assembling_def)
qed

lemma complete_first:
  assumes m: "midway d fr" and fr: "fr \<noteq> [] \<Longrightarrow> complete_frame (dpid d) fr"
    and c: "complete_frame (dpid d) (f # fs)"
    and ne: "u_bytes f \<noteq> []" "\<forall>u \<in> set fs. u_bytes u \<noteq> []" and cc: "unat (u_counter f) < 16"
    and l: "linked d (f # us)"
  shows "\<exists>out d'. accept_payload (u_start f) (u_counter f) (u_bytes f) d = (Inr out, d') \<and>
    dpid d' = dpid d \<and> last_seen d' = Some (u_counter f, u_bytes f) \<and>
    (let q = completed d @ (if fr = [] then [] else [packet_of fr]) in
     if fs = [] \<and> judge (dpid d) (frame_bytes [f]) = Whole
     then midway d' [] \<and> opt_list out @ completed d' = q @ [packet_of [f]]
     else midway d' [f] \<and> opt_list out @ completed d' = q)"
proof -
  have wf: "demux_wf d" using m by (simp add: midway_def)
  have s: "u_start f" using c by (auto simp: complete_frame_def is_frame_def)
  have q: "completed (flushed d) = completed d @ (if fr = [] then [] else [packet_of fr])"
    using m by (auto simp: midway_def flushed_def assembling_def packet_of_def)
  have ni: "\<not> interrupted d"
  proof (cases "fr = []")
    case True
    then show ?thesis using m by (simp add: midway_def interrupted_def)
  next
    case False
    then have st: "started d" "assembling d fr" using m by (simp_all add: midway_def)
    then have "judge (dpid d) (frame_bytes fr) = Partial" "current_length d = length_state (frame_bytes fr)"
      using wf_started[OF wf st(1)] by (auto simp: in_progress_def assembling_def)
    then show ?thesis using fr[OF False] by (auto simp: interrupted_def complete_frame_iff)
  qed
  let ?e = "start_new_pes (u_counter f) (flushed d)"
  have acc: "accept_payload (u_start f) (u_counter f) (u_bytes f) d
    = append_payload (u_counter f) (u_bytes f) ?e"
    unfolding accept_payload_accepting[OF wf linked_Cons(1)[OF l wf]] using s ni by simp
  have "complete_frame (dpid ?e) ([] @ f # fs)" using c by simp
  then obtain out d' where ap: "append_payload (u_counter f) (u_bytes f) ?e = (Inr out, d')"
      "dpid d' = dpid ?e" "last_seen d' = Some (u_counter f, u_bytes f)"
    and nx: "if fs = [] \<and> judge (dpid ?e) (frame_bytes ([] @ [f])) = Whole
     then midway d' [] \<and> opt_list out @ completed d' = completed ?e @ [packet_of ([] @ [f])]
     else midway d' ([] @ [f]) \<and> opt_list out @ completed d' = completed ?e"
    using complete_append[of ?e "[]" f fs] flushed_completed[OF wf] ne cc by auto
  show ?thesis
    by (intro exI[of _ out] exI[of _ d'])
      (use acc ap nx q in \<open>simp add: Let_def split: if_split_asm\<close>)
qed

definition readable :: "u16 \<Rightarrow> u8 list \<Rightarrow> bool" where
  "readable pid p \<longleftrightarrow> (case parse_ts_packet p of Inl e \<Rightarrow> False
     | Inr t \<Rightarrow> ts_pid t = pid \<longrightarrow> \<not> discontinuity t)"

text \<open>One packet: it is passed over, or its payload is the next unit of the trace.\<close>

lemma readable_step:
  assumes "readable (dpid d) p"
  obtains (over) "accepted (dpid d) (last_seen d) (p # ps) = accepted (dpid d) (last_seen d) ps"
      "push_ts_packet p d = pop_completed d"
    | (unit) f where "accepted (dpid d) (last_seen d) (p # ps)
        = f # accepted (dpid d) (Some (u_counter f, u_bytes f)) ps"
      "push_ts_packet p d = accept_payload (u_start f) (u_counter f) (u_bytes f) d"
      "u_bytes f \<noteq> []" "unat (u_counter f) < 16"
proof -
  obtain t where t: "parse_ts_packet p = Inr t" "ts_pid t = dpid d \<longrightarrow> \<not> discontinuity t"
    using assms by (auto simp: readable_def split: sum.splits)
  show ?thesis
  proof (cases "ts_pid t \<noteq> dpid d \<or> ts_payload t = None \<or> ts_payload t = Some []")
    case True
    then show ?thesis using t by (intro over) (auto simp: push_ts_packet_def Let_def)
  next
    case False
    then obtain pl where pl: "ts_payload t = Some pl" "pl \<noteq> []" "ts_pid t = dpid d" by auto
    let ?f = "\<lparr> u_start = unit_start t, u_counter = counter t, u_bytes = pl \<rparr>"
    show ?thesis
    proof (cases "last_seen d = Some (counter t, pl)")
      case True
      then have "accept_payload (unit_start t) (counter t) pl d = pop_completed d"
        by (auto simp: accept_payload_def validate_selected_payload_continuity_def
          demux_bind_def last_seen_def split: option.splits)
      then show ?thesis using t pl True by (intro over) (auto simp: push_ts_packet_def Let_def)
    next
      case False
      then show ?thesis using t pl parse_counter[OF t(1)]
        by (intro unit[of ?f]) (auto simp: push_ts_packet_def Let_def)
    qed
  qed
qed

lemma accepted_nonempty: "u \<in> set (accepted pid l ps) \<Longrightarrow> u_bytes u \<noteq> []"
  by (induction ps arbitrary: l)
    (auto simp: Let_def split: sum.splits if_splits option.splits)

lemma finish_midway:
  assumes m: "midway d fr" and fr: "fr \<noteq> [] \<Longrightarrow> complete_frame (dpid d) fr"
  shows "\<exists>q d'. finish d = (Inr q, d') \<and>
    opt_list q = completed d @ (if fr = [] then [] else [packet_of fr])"
proof (cases "fr = []")
  case True
  then have "\<not> started d" "length (completed d) \<le> 1"
    using m by (auto simp: midway_def demux_wf_def)
  then show ?thesis using True
    by (cases "completed d") (auto simp: finish_def pop_completed_def)
next
  case False
  then have st: "started d" "assembling d fr" and wf: "demux_wf d" using m by (simp_all add: midway_def)
  have p: "in_progress d" "completed d = []" "current_pes d \<noteq> []" using wf_started[OF wf st(1)] by metis+
  have "current_length d \<noteq> Known n" for n
    using fr[OF False] p st(2)
    by (auto simp: in_progress_def assembling_def complete_frame_iff)
  then show ?thesis using False st p
    by (auto simp: finish_def demux_bind_def take_current_eq assembling_def packet_of_def
        split: PesLengthState.splits)
qed

lemma push_all_Cons_ok:
  assumes "push_ts_packet p d = (Inr out1, d1)" and "opt_list out1 @ completed d1 = done"
    and "\<exists>out d' q d''. push_all ps d1 = (out, None, d') \<and> finish d' = (Inr q, d'') \<and>
      out @ opt_list q = completed d1 @ rest"
  shows "\<exists>out d' q d''. push_all (p # ps) d = (out, None, d') \<and> finish d' = (Inr q, d'') \<and>
    out @ opt_list q = done @ rest"
proof -
  from assms(3) obtain out d' q d'' where r: "push_all ps d1 = (out, None, d')"
      "finish d' = (Inr q, d'')" "out @ opt_list q = completed d1 @ rest"
    by blast
  then have "push_all (p # ps) d = (opt_list out1 @ out, None, d')" using assms(1) by simp
  moreover have "(opt_list out1 @ out) @ opt_list q = done @ rest"
    using r(3) unfolding assms(2)[symmetric] by simp
  ultimately show ?thesis using r(2) by blast
qed

lemma push_all_complete:
  assumes "midway d fr" and "\<forall>p \<in> set ps. readable (dpid d) p"
    and "accepted (dpid d) (last_seen d) ps = rest @ concat frames"
    and "fr = [] \<Longrightarrow> rest = []" and "fr \<noteq> [] \<Longrightarrow> complete_frame (dpid d) (fr @ rest)"
    and "\<forall>g \<in> set frames. complete_frame (dpid d) g" and "linked d (rest @ concat frames)"
  shows "\<exists>out d' q d''. push_all ps d = (out, None, d') \<and> finish d' = (Inr q, d'') \<and>
    out @ opt_list q = completed d @ (if fr = [] then [] else [packet_of (fr @ rest)])
      @ map packet_of frames"
  using assms
proof (induction ps arbitrary: d fr rest frames)
  case Nil
  then have e: "rest = []" "concat frames = []" by simp_all
  have "frames = []"
    using e(2) Nil.prems(6) frame_not_Nil by (cases frames) (auto simp: complete_frame_def)
  moreover obtain q d' where "finish d = (Inr q, d')"
      "opt_list q = completed d @ (if fr = [] then [] else [packet_of fr])"
    using finish_midway[OF Nil.prems(1)] Nil.prems(5) e by auto
  ultimately show ?case using e by auto
next
  case (Cons p ps)
  have rd: "readable (dpid d) p" using Cons.prems(2) by simp
  show ?case
  proof (rule readable_step[OF rd, of ps])
    assume a: "accepted (dpid d) (last_seen d) (p # ps) = accepted (dpid d) (last_seen d) ps"
      "push_ts_packet p d = pop_completed d"
    obtain out d1 where pop: "pop_completed d = (Inr out, d1)" using pop_total by blast
    have lk: "linked d1 (rest @ concat frames)"
      using Cons.prems(7) pop by (auto simp: linked_def pop_completed_def split: list.splits)
    show ?case
      by (rule push_all_Cons_ok[OF _ pop_update(2)[OF pop]])
        (use a pop lk Cons.IH[OF midway_pop[OF Cons.prems(1) pop], of rest frames] Cons.prems
           pop_facts(1,4)[OF pop] in auto)
  next
    fix f
    assume a: "accepted (dpid d) (last_seen d) (p # ps)
        = f # accepted (dpid d) (Some (u_counter f, u_bytes f)) ps"
      "push_ts_packet p d = accept_payload (u_start f) (u_counter f) (u_bytes f) d"
      "u_bytes f \<noteq> []" "unat (u_counter f) < 16"
    have ne: "\<forall>u \<in> set (rest @ concat frames). u_bytes u \<noteq> []"
      using accepted_nonempty Cons.prems(3) by metis
    have wf: "demux_wf d" using Cons.prems(1) by (simp add: midway_def)
    show ?case
    proof (cases rest)
      case (Cons u rest')
      then have u: "u = f" and r': "accepted (dpid d) (Some (u_counter f, u_bytes f)) ps
          = rest' @ concat frames" and fr: "fr \<noteq> []"
        using a(1) Cons.prems(3,4) by auto
      have lk: "linked d (f # (rest' @ concat frames))" using Cons.prems(7) Cons u by simp
      have cf: "complete_frame (dpid d) (fr @ f # rest')" using Cons.prems(5) fr Cons u by simp
      have ne': "\<forall>x \<in> set rest'. u_bytes x \<noteq> []" using ne Cons by simp
      obtain out d1 where d1: "accept_payload (u_start f) (u_counter f) (u_bytes f) d = (Inr out, d1)"
          "dpid d1 = dpid d" "last_seen d1 = Some (u_counter f, u_bytes f)"
        and nx: "if rest' = [] \<and> judge (dpid d) (frame_bytes (fr @ [f])) = Whole
          then midway d1 [] \<and> opt_list out @ completed d1 = completed d @ [packet_of (fr @ [f])]
          else midway d1 (fr @ [f]) \<and> opt_list out @ completed d1 = completed d"
        using complete_continue[OF Cons.prems(1) fr cf a(3) ne' a(4) lk] by metis
      have push: "push_ts_packet p d = (Inr out, d1)" using a(2) d1(1) by simp
      note lk1 = linked_Cons(2)[OF lk wf d1(3)]
      show ?thesis
      proof (cases "rest' = [] \<and> judge (dpid d) (frame_bytes (fr @ [f])) = Whole")
        case True
        with nx have n: "midway d1 []"
          "opt_list out @ completed d1 = completed d @ [packet_of (fr @ [f])]" by simp_all
        have "\<exists>o' d' q d''. push_all ps d1 = (o', None, d') \<and> finish d' = (Inr q, d'') \<and>
            o' @ opt_list q = completed d1 @ map packet_of frames"
          using Cons.IH[OF n(1), of "[]" frames] Cons.prems(2,6) r' d1 lk1 True by simp
        from push_all_Cons_ok[OF push n(2) this] show ?thesis using fr Cons u True by simp
      next
        case False
        with nx have n: "midway d1 (fr @ [f])" "opt_list out @ completed d1 = completed d"
          by (simp_all only: if_False)
        have "\<exists>o' d' q d''. push_all ps d1 = (o', None, d') \<and> finish d' = (Inr q, d'') \<and>
            o' @ opt_list q = completed d1 @ [packet_of (fr @ f # rest')] @ map packet_of frames"
          using Cons.IH[OF n(1), of rest' frames] Cons.prems(2,6) r' d1 lk1 cf by simp
        from push_all_Cons_ok[OF push n(2) this] show ?thesis using fr Cons u by simp
      qed
    next
      case Nil
      then obtain g frames' where g: "frames = g # frames'"
        using a(1) Cons.prems(3) by (cases frames) auto
      have "g \<noteq> []" using Cons.prems(6) g frame_not_Nil by (auto simp: complete_frame_def)
      then obtain fs where fs: "g = f # fs"
        using a(1) Cons.prems(3) Nil g by (cases g) auto
      have r': "accepted (dpid d) (Some (u_counter f, u_bytes f)) ps = fs @ concat frames'"
        using a(1) Cons.prems(3) Nil g fs by simp
      have lk: "linked d (f # (fs @ concat frames'))" using Cons.prems(7) Nil g fs by simp
      have cf: "complete_frame (dpid d) (f # fs)" using Cons.prems(6) g fs by simp
      have ne': "\<forall>x \<in> set fs. u_bytes x \<noteq> []" using ne g fs by simp
      let ?q = "completed d @ (if fr = [] then [] else [packet_of fr])"
      obtain out d1 where d1: "accept_payload (u_start f) (u_counter f) (u_bytes f) d = (Inr out, d1)"
          "dpid d1 = dpid d" "last_seen d1 = Some (u_counter f, u_bytes f)"
        and nx: "if fs = [] \<and> judge (dpid d) (frame_bytes [f]) = Whole
          then midway d1 [] \<and> opt_list out @ completed d1 = ?q @ [packet_of [f]]
          else midway d1 [f] \<and> opt_list out @ completed d1 = ?q"
        using complete_first[OF Cons.prems(1) _ cf a(3) ne' a(4) lk] Cons.prems(5) Nil
        by (metis append_Nil2)
      have push: "push_ts_packet p d = (Inr out, d1)" using a(2) d1(1) by simp
      note lk1 = linked_Cons(2)[OF lk wf d1(3)]
      show ?thesis
      proof (cases "fs = [] \<and> judge (dpid d) (frame_bytes [f]) = Whole")
        case True
        with nx have n: "midway d1 []" "opt_list out @ completed d1 = ?q @ [packet_of [f]]"
          by simp_all
        have "\<exists>o' d' q d''. push_all ps d1 = (o', None, d') \<and> finish d' = (Inr q, d'') \<and>
            o' @ opt_list q = completed d1 @ map packet_of frames'"
          using Cons.IH[OF n(1), of "[]" frames'] Cons.prems(2,6) g r' d1 lk1 True by simp
        from push_all_Cons_ok[OF push n(2) this] show ?thesis using Nil g fs True
          by (cases "fr = []") (simp_all del: push_all.simps)
      next
        case False
        with nx have n: "midway d1 [f]" "opt_list out @ completed d1 = ?q"
          by (simp_all only: if_False)
        have "\<exists>o' d' q d''. push_all ps d1 = (o', None, d') \<and> finish d' = (Inr q, d'') \<and>
            o' @ opt_list q = completed d1 @ [packet_of (f # fs)] @ map packet_of frames'"
          using Cons.IH[OF n(1), of fs frames'] Cons.prems(2,6) g r' d1 lk1 cf by simp
        from push_all_Cons_ok[OF push n(2) this] show ?thesis using Nil g fs
          by (cases "fr = []") (simp_all del: push_all.simps)
      qed
    qed
  qed
qed



lemma demux_deliver:
  assumes "\<forall>p \<in> set ps. readable pid p" and "accepted pid None ps = concat frames"
    and "\<forall>g \<in> set frames. complete_frame pid g" and "in_sequence (concat frames)"
  shows "\<exists>d. demux_stream pid ps = (map packet_of frames, None, d)"
proof -
  have m: "midway (demuxer_new pid) []" using demux_wf_new by (simp add: midway_def demuxer_new_def)
  have s: "dpid (demuxer_new pid) = pid" "last_seen (demuxer_new pid) = None"
    "completed (demuxer_new pid) = []" "last_counter (demuxer_new pid) = None"
    by (simp_all add: demuxer_new_def last_seen_def)
  have l: "linked (demuxer_new pid) ([] @ concat frames)"
    using assms(4) s by (simp add: linked_def)
  obtain out d' q d'' where "push_all ps (demuxer_new pid) = (out, None, d')"
      "finish d' = (Inr q, d'')" "out @ opt_list q = map packet_of frames"
    using push_all_complete[OF m, of ps "[]" frames] l s assms(1-3) by auto
  then show ?thesis by (simp add: demux_stream_def)
qed

text \<open>C14: Nothing is lost: when the packets of the selected PID parse and announce no
  discontinuity, its counters run on, and its payloads (retransmissions left out) are a sequence of
  complete PES packets cut into units in any way, the demultiplexer delivers exactly these packets,
  in order, with their counters, without an error, and holds nothing back after one
  \<open>finish\<close>. Packets of other PIDs, packets without payload and retransmissions may be mixed
  in anywhere.\<close>

theorem demux_complete:
  assumes "\<forall>p \<in> set ps. readable pid p" and "accepted pid None ps = concat frames"
    and "\<forall>g \<in> set frames. complete_frame pid g" and "in_sequence (concat frames)"
  shows "\<exists>d. demux_stream pid ps = (map packet_of frames, None, d)"
  using assms by (rule demux_deliver)

definition sample_pes :: "u8 list" where
  "sample_pes = [0, 0, 1, 0xBD, 0, 7, 0x80, 0, 0, 1, 2, 3, 4]"

definition sample_packet :: "u8 \<Rightarrow> u8 \<Rightarrow> u8 list \<Rightarrow> u8 list" where
  "sample_packet flags cc pl =
     [0x47, flags OR 0x11, 0, 0x30 OR cc, of_nat (183 - length pl), 0]
     @ replicate (182 - length pl) 0xff @ pl"

definition sample_stream :: "u8 list list" where
  "sample_stream = [sample_packet 0x40 14 (take 4 sample_pes), sample_packet 0x40 14 (take 4 sample_pes),
     sample_packet 0 15 (drop 4 sample_pes), sample_packet 0x40 0 sample_pes]"

definition sample_frames :: "transport_unit list list" where
  "sample_frames =
     [[\<lparr> u_start = True, u_counter = 14, u_bytes = take 4 sample_pes \<rparr>,
       \<lparr> u_start = False, u_counter = 15, u_bytes = drop 4 sample_pes \<rparr>],
      [\<lparr> u_start = True, u_counter = 0, u_bytes = sample_pes \<rparr>]]"

lemma sample_stream_facts:
  "list_all (readable 0x1100) sample_stream"
  "accepted 0x1100 None sample_stream = concat sample_frames"
  "list_all (complete_frame 0x1100) sample_frames" "in_sequence (concat sample_frames)"
  by code_simp+

theorem demux_complete_witness:
  "\<exists>d. demux_stream 0x1100 sample_stream = (map packet_of sample_frames, None, d)"
  using demux_complete[of sample_stream "0x1100" sample_frames] sample_stream_facts
  by (simp add: list_all_iff)

theorem demux_sound_witness:
  "genuine True (accepted 0x1100 None sample_stream)
     \<lparr> payload = sample_pes, continuity_start = 0, continuity_end = 0 \<rparr>"
proof -
  have "fst (demux_stream 0x1100 sample_stream)
      = [\<lparr> payload = sample_pes, continuity_start = 14, continuity_end = 15 \<rparr>,
         \<lparr> payload = sample_pes, continuity_start = 0, continuity_end = 0 \<rparr>]"
    by code_simp
  then show ?thesis
    using demux_sound[of "0x1100" sample_stream _ "fst (snd (demux_stream 0x1100 sample_stream))"
        "snd (snd (demux_stream 0x1100 sample_stream))"]
    by (metis list.set_intros(1,2) prod.collapse)
qed

subsection \<open>Every reachable state\<close>

datatype demux_step = Push "u8 list" | Finish | DiscardCurrent

fun take_step :: "demux_step \<Rightarrow> demuxer \<Rightarrow> demuxer" where
  "take_step (Push p) d = snd (push_ts_packet p d)"
| "take_step Finish d = snd (finish d)"
| "take_step DiscardCurrent d = discard_current d"

inductive reachable :: "u16 \<Rightarrow> demuxer \<Rightarrow> bool" for pid where
  start: "reachable pid (demuxer_new pid)"
| step: "reachable pid d \<Longrightarrow> reachable pid (take_step s d)"

lemma reachable_wf: "reachable pid d \<Longrightarrow> demux_wf d"
proof (induction rule: reachable.induct)
  case start
  show ?case by (rule demux_wf_new)
next
  case (step d s)
  have "demux_wf (snd (push_ts_packet p d))" for p
    using push_wf[OF step.IH prod.collapse[symmetric]] by simp
  moreover have "demux_wf (snd (finish d))"
    using finish_wf(1)[OF step.IH prod.collapse[symmetric]] .
  ultimately show ?case using demux_wf_discard[OF step.IH] by (cases s) simp_all
qed

text \<open>C18: In every state the demultiplexer can reach, by any packets, after any errors, and with
  its caller's \<open>discard_current\<close> and \<open>finish\<close> at any time, the state is well formed: a packet under
  construction is never empty, knows both its counters, has the length state its bytes dictate and
  is shorter than the length it declares; otherwise every field of it is reset. The queue holds at
  most one packet, and none during construction. In such a state no call reports an internal
  error: 188-byte packets never meet the "lost current continuity start" branch.\<close>

theorem demux_state_well_formed:
  assumes "reachable pid d"
  shows "demux_wf d \<and> length (completed d) \<le> 1 \<and>
    (\<forall>p e. length p = TS_PACKET_SIZE \<longrightarrow> fst (push_ts_packet p d) = Inl e \<longrightarrow> \<not> internal e) \<and>
    (\<forall>e. fst (finish d) = Inl e \<longrightarrow> \<not> internal e)"
proof -
  have wf: "demux_wf d" using assms by (rule reachable_wf)
  moreover have "length (completed d) \<le> 1" using wf by (auto simp: demux_wf_def split: if_splits)
  moreover have "\<not> internal e" if "length p = TS_PACKET_SIZE" "fst (push_ts_packet p d) = Inl e" for p e
    using push_wf[OF wf prod.collapse[symmetric], of p] that by blast
  moreover have "\<not> internal e" if "fst (finish d) = Inl e" for e
    using finish_wf(4)[OF wf prod.collapse[symmetric]] that by blast
  ultimately show ?thesis by blast
qed

theorem demux_state_well_formed_witness:
  "demux_wf (take_step (Push (sample_packet 0x40 14 (take 4 sample_pes))) (demuxer_new 0x1100))"
  using demux_state_well_formed[OF reachable.step[OF reachable.start]] by blast

subsection \<open>What the last call delivers\<close>

lemma frame_suffix_unique:
  assumes "pre @ a = pre' @ b" and "is_frame a" and "is_frame b"
  shows "a = b"
proof -
  have no: "us = []" if fr: "is_frame (us @ x)" "is_frame x" for us x
  proof (rule ccontr)
    assume "us \<noteq> []"
    then obtain u us' where us: "us = u # us'" by (cases us) auto
    obtain y ys where x: "x = y # ys" using frame_not_Nil[OF fr(2)] by (cases x) auto
    show False using fr us x by (auto simp: is_frame_def)
  qed
  show ?thesis using assms no by (auto simp: append_eq_append_conv2)
qed

lemma frame_snoc_cases:
  assumes "tr @ [f] = pre @ fr" and "is_frame fr"
  shows "if u_start f then fr = [f] else \<exists>fr0. fr = fr0 @ [f] \<and> tr = pre @ fr0 \<and> is_frame fr0"
proof -
  obtain fr0 where fr: "fr = fr0 @ [f]" "tr = pre @ fr0"
    using assms(1) frame_not_Nil[OF assms(2)] by (cases fr rule: rev_cases) auto
  show ?thesis
  proof (cases fr0)
    case Nil
    then show ?thesis using fr assms(2) by (simp add: is_frame_def)
  next
    case (Cons a fs)
    then have "\<not> u_start f" "is_frame fr0"
      using fr(1) assms(2) successively_append_iff[of _ fr0 "[f]"] by (auto simp: is_frame_def in_sequence_def)
    then show ?thesis using fr by simp
  qed
qed

text \<open>When no packet is under construction, the frame that ends the trace has been handed over.\<close>

definition handed :: "u16 \<Rightarrow> demuxer \<Rightarrow> SelectedPesPacket list \<Rightarrow> transport_unit list \<Rightarrow> bool" where
  "handed pid d out tr \<longleftrightarrow> (\<not> started d \<longrightarrow> (\<forall>pre fr. tr = pre @ fr \<longrightarrow> is_frame fr \<longrightarrow>
     (\<exists>fr1 fr2. fr = fr1 @ fr2 \<and> judge pid (frame_bytes fr1) = Whole \<and> packet_of fr1 \<in> set (out @ completed d))))"

lemma handed_pop:
  assumes "handed pid d out tr" and "pop_completed d = (Inr q, d')"
  shows "handed pid d' (out @ opt_list q) tr"
proof -
  have "set (completed d) = set (opt_list q) \<union> set (completed d')"
    using pop_update(2)[OF assms(2)] by (metis set_append)
  then show ?thesis using assms(1) pop_facts(3)[OF assms(2)] by (simp add: handed_def Un_assoc)
qed

lemma handed_append:
  assumes d: "in_progress d" "current_start d = Some (u_counter (hd (fr @ [f])))"
      "current_pes d = frame_bytes fr" "length (completed d) \<le> 1"
    and f: "u_bytes f \<noteq> []" "unat (u_counter f) < 16" "is_frame (fr @ [f])"
    and r: "append_payload (u_counter f) (u_bytes f) d = (Inr q, d')"
    and tr: "tr = pre @ fr @ [f]"
  shows "handed (dpid d) d' (out @ opt_list q) tr"
proof (rule append_step[OF d f r])
  fix d1
  assume a: "judge (dpid d) (frame_bytes (fr @ [f])) = Whole" "pop_completed d1 = (Inr q, d')"
    "completed d1 = completed d @ [packet_of (fr @ [f])]"
  have "handed (dpid d) d1 out tr"
    unfolding handed_def
  proof (intro impI allI)
    fix pre' fr'
    assume "tr = pre' @ fr'" "is_frame fr'"
    then have "fr' = fr @ [f]" using frame_suffix_unique[OF _ _ f(3), of pre' fr' pre] tr by simp
    then show "\<exists>fr1 fr2. fr' = fr1 @ fr2 \<and> judge (dpid d) (frame_bytes fr1) = Whole
        \<and> packet_of fr1 \<in> set (out @ completed d1)"
      using a by (intro exI[of _ "fr @ [f]"] exI[of _ "[]"]) simp
  qed
  from handed_pop[OF this a(2)] show ?thesis .
next
  fix d1
  assume a: "pop_completed d1 = (Inr q, d')" "in_progress d1"
  then have "started d'" using pop_facts(3)[OF a(1)] by (simp add: in_progress_def)
  then show ?thesis by (simp add: handed_def)
qed

lemma handed_accept:
  assumes snd: "sound d tr" and h: "handed (dpid d) d out tr" and cc: "unat (u_counter f) < 16"
    and pl: "u_bytes f \<noteq> []" and fresh: "last_seen d \<noteq> Some (u_counter f, u_bytes f)"
    and r: "accept_payload (u_start f) (u_counter f) (u_bytes f) d = (Inr q, d')"
  shows "handed (dpid d) d' (out @ opt_list q) (tr @ [f])"
proof -
  have wf: "demux_wf d" using snd by (simp add: sound_def)
  have acc: "last_counter d = None \<or>
    (\<exists>c. last_counter d = Some c \<and> u_counter f \<noteq> c \<and> u_counter f = next_counter c)"
    using r fresh wf
    by (auto simp: accept_payload_def validate_selected_payload_continuity_def demux_bind_def
        last_seen_def demux_wf_def split: option.splits if_splits)
  note eq = accept_payload_accepting[OF wf acc, of "u_start f" "u_bytes f"]
  consider (new) "u_start f" "\<not> interrupted d" | (cut) "u_start f" "interrupted d"
    | (skip) "\<not> u_start f" "\<not> started d" | (more) "\<not> u_start f" "started d" by blast
  then show ?thesis
  proof cases
    case new
    have "dpid (flushed d) = dpid d" by (simp add: flushed_def)
    then show ?thesis
      using handed_append[of "start_new_pes (u_counter f) (flushed d)" "[]" f q d' "tr @ [f]" tr out]
        is_frame_start[OF new(1)] flushed_completed[OF wf] eq new r pl cc
      by simp
  next
    case cut
    then show ?thesis using eq r by simp
  next
    case skip
    let ?d = "mark_selected_payload_accepted (u_counter f) (u_bytes f) d"
    have "handed (dpid d) ?d out (tr @ [f])"
      unfolding handed_def
    proof (intro impI allI)
      fix pre fr
      assume "tr @ [f] = pre @ fr" "is_frame fr"
      from frame_snoc_cases[OF this] skip(1) obtain fr0 where "fr = fr0 @ [f]" "tr = pre @ fr0" "is_frame fr0" by auto
      moreover from this(2,3) obtain fr1 fr2 where "fr0 = fr1 @ fr2" "judge (dpid d) (frame_bytes fr1) = Whole"
          "packet_of fr1 \<in> set (out @ completed d)"
        using h skip(2) unfolding handed_def by blast
      ultimately show "\<exists>fr1 fr2. fr = fr1 @ fr2 \<and> judge (dpid d) (frame_bytes fr1) = Whole
          \<and> packet_of fr1 \<in> set (out @ completed ?d)"
        by (intro exI[of _ fr1] exI[of _ "fr2 @ [f]"]) (simp add: mark_selected_payload_accepted_def)
    qed
    from handed_pop[OF this] show ?thesis using eq r skip by simp
  next
    case more
    obtain pre fr where fr: "tr = pre @ fr" "assembling d fr"
      using snd more by (auto simp: sound_def)
    have p: "in_progress d" "completed d = []" using wf_started[OF wf more(2)] by metis+
    have ne: "fr \<noteq> []" using fr(2) frame_not_Nil by (auto simp: assembling_def)
    have "is_frame (fr @ [f])"
      using fr(2) more acc by (intro frame_snoc) (auto simp: assembling_def)
    then show ?thesis
      using handed_append[of d fr f q d' "tr @ [f]" pre out] p fr ne pl cc eq r more
      by (auto simp: assembling_def)
  qed
qed

lemma handed_Cons:
  assumes "push_ts_packet p d = (Inr q, d')" and "readable (dpid d) p"
    and snd: "sound d tr" and h: "handed (dpid d) d out tr"
  shows "\<exists>new. accepted (dpid d) (last_seen d) (p # ps) = new @ accepted (dpid d) (last_seen d') ps \<and>
    sound d' (tr @ new) \<and> dpid d' = dpid d \<and> handed (dpid d) d' (out @ opt_list q) (tr @ new)"
proof -
  obtain t where t: "parse_ts_packet p = Inr t" "ts_pid t = dpid d \<longrightarrow> \<not> discontinuity t"
    using assms(2) by (auto simp: readable_def split: sum.splits)
  show ?thesis
  proof (cases "\<exists>pl. ts_pid t = dpid d \<and> ts_payload t = Some pl \<and> pl \<noteq> [] \<and> last_seen d \<noteq> Some (counter t, pl)")
    case False
    then have pop: "pop_completed d = (Inr q, d')"
      and over: "accepted (dpid d) (last_seen d) (p # ps) = accepted (dpid d) (last_seen d) ps"
      using assms(1) t
      by (auto simp: push_ts_packet_def Let_def accept_payload_def validate_selected_payload_continuity_def
          demux_bind_def last_seen_def split: option.splits if_splits)
    show ?thesis
      by (rule exI[of _ "[]"]) (use over handed_pop[OF h pop] sound_pop[OF snd pop] pop_facts[OF pop] in simp)
  next
    case True
    then obtain pl where c: "ts_pid t = dpid d" "ts_payload t = Some pl" "pl \<noteq> []"
      "last_seen d \<noteq> Some (counter t, pl)" by blast
    let ?f = "\<lparr> u_start = unit_start t, u_counter = counter t, u_bytes = pl \<rparr>"
    have acc: "accept_payload (unit_start t) (counter t) pl d = (Inr q, d')"
      using assms(1) t c by (simp add: push_ts_packet_def Let_def)
    show ?thesis
      by (rule exI[of _ "[?f]"])
        (use c t sound_accept[OF snd, of ?f q d'] handed_accept[OF snd h, of ?f q d'] acc parse_counter[OF t(1)]
            accept_keeps_pid[OF acc] in \<open>auto simp: Let_def\<close>)
  qed
qed

lemma push_all_handed:
  assumes "push_all ps d = (out, None, d')" and "\<forall>p \<in> set ps. readable (dpid d) p"
    and "sound d tr" and "handed (dpid d) d out0 tr"
  shows "handed (dpid d) d' (out0 @ out) (tr @ accepted (dpid d) (last_seen d) ps) \<and> dpid d' = dpid d"
  using assms
proof (induction ps arbitrary: d tr out out0)
  case (Cons p ps)
  obtain q d1 out2 where p: "push_ts_packet p d = (Inr q, d1)" "push_all ps d1 = (out2, None, d')"
      "out = opt_list q @ out2"
    using Cons.prems(1) by (auto split: prod.splits sum.splits)
  obtain new where n: "accepted (dpid d) (last_seen d) (p # ps) = new @ accepted (dpid d) (last_seen d1) ps"
      "sound d1 (tr @ new)" "dpid d1 = dpid d" "handed (dpid d) d1 (out0 @ opt_list q) (tr @ new)"
    using handed_Cons[OF p(1) _ Cons.prems(3,4)] Cons.prems(2) by (metis list.set_intros(1))
  show ?case using Cons.IH[OF p(2) _ n(2), of "out0 @ opt_list q"] Cons.prems(2) n p(3) by simp
qed simp

lemma finish_empties:
  assumes "reachable pid d" and "finish d = (r, d')"
  shows "idle d' \<and> completed d' = [] \<and> finish d' = (Inr None, d')"
proof -
  have "idle d'" "completed d' = []"
    using finish_wf(2,3)[OF reachable_wf[OF assms(1)] assms(2)] by simp_all
  then show ?thesis by (simp add: finish_def idle_def)
qed

lemma reachable_push_all: "push_all ps d = (out, e, d') \<Longrightarrow> reachable pid d \<Longrightarrow> reachable pid d'"
proof (induction ps arbitrary: d out)
  case (Cons p ps)
  have "reachable pid (snd (push_ts_packet p d))" using reachable.step[OF Cons.prems(2), of "Push p"] by simp
  then show ?case using Cons by (auto split: prod.splits sum.splits)
qed simp

lemma finish_started:
  assumes "sound d (pre @ fr)" and "is_frame fr" and "started d"
  shows "judge (dpid d) (frame_bytes fr) = Partial \<and> fst (finish d) = (case length_state (frame_bytes fr) of
      Known n \<Rightarrow> Inl (PesEndedEarly (dpid d) n (length (frame_bytes fr))) | _ \<Rightarrow> Inr (Some (packet_of fr)))"
proof -
  have wf: "demux_wf d" using assms(1) by (simp add: sound_def)
  obtain s e where d: "current_start d = Some s" "current_end d = Some e" "in_progress d"
      "current_pes d \<noteq> []" "completed d = []"
    using wf_started[OF wf assms(3)] .
  obtain pre' fr' where fr': "pre @ fr = pre' @ fr'" "assembling d fr'"
    using assms(1,3) by (auto simp: sound_def)
  then have "fr = fr'" using frame_suffix_unique[OF fr'(1) assms(2)] by (simp add: assembling_def)
  then have a: "current_pes d = frame_bytes fr" "current_length d = length_state (frame_bytes fr)"
    "s = u_counter (hd fr)" "e = u_counter (last fr)" "judge (dpid d) (frame_bytes fr) = Partial"
    using fr'(2) d by (auto simp: assembling_def in_progress_def)
  then show ?thesis
    using progress_known[OF d(3)] assms(3) d
    by (auto simp: finish_def demux_bind_def take_current_eq packet_of_def split: PesLengthState.splits)
qed

text \<open>C36: The end of the stream: when the packets of the selected PID parse and announce no discontinuity and all pushes
  succeed, one call of \<open>finish\<close>, which is all its callers make, settles the frame that ends the trace of accepted units,
  from its unit start to the last unit: if its bytes are an unfinished packet, \<open>finish\<close> delivers exactly the frame, with
  the counters of its first and last unit, when it declares no length, and reports \<open>PesEndedEarly\<close> with the declared and
  the gathered length when it declares one; otherwise a complete packet at the front of the frame has been delivered, by
  a push or by this call. The demultiplexer is empty afterwards, and a further call returns nothing.\<close>

theorem finish_flushes:
  assumes "\<forall>p \<in> set ps. readable pid p" and "push_all ps (demuxer_new pid) = (out, None, d)"
    and "accepted pid None ps = pre @ fr" and "is_frame fr" and "finish d = (r, d')"
  shows "(if judge pid (frame_bytes fr) = Partial
      then r = (case length_state (frame_bytes fr) of
        Known n \<Rightarrow> Inl (PesEndedEarly pid n (length (frame_bytes fr))) | _ \<Rightarrow> Inr (Some (packet_of fr)))
      else \<exists>q fr1 fr2. r = Inr q \<and> fr = fr1 @ fr2 \<and> judge pid (frame_bytes fr1) = Whole
        \<and> packet_of fr1 \<in> set (out @ opt_list q))
    \<and> idle d' \<and> completed d' = [] \<and> finish d' = (Inr None, d')"
proof -
  have new: "sound (demuxer_new pid) []" "handed pid (demuxer_new pid) [] []"
    using demux_wf_new frame_not_Nil by (auto simp: sound_def handed_def demuxer_new_def)
  have ls: "last_seen (demuxer_new pid) = None" "dpid (demuxer_new pid) = pid"
    by (simp_all add: last_seen_def demuxer_new_def)
  have s: "sound d (pre @ fr)" using push_all_final[OF assms(2) new(1)] ls assms(3) by simp
  have h: "handed pid d out (pre @ fr)" "dpid d = pid"
    using push_all_handed[OF assms(2) _ new(1), of "[]"] new(2) ls assms(1,3) by simp_all
  note empty = finish_empties[OF reachable_push_all[OF assms(2) reachable.start] assms(5)]
  show ?thesis
  proof (cases "started d")
    case True
    then show ?thesis using finish_started[OF s assms(4) True, unfolded h(2)] assms(5) empty by simp
  next
    case False
    then obtain fr1 fr2 where f: "fr = fr1 @ fr2" "judge pid (frame_bytes fr1) = Whole"
        "packet_of fr1 \<in> set (out @ completed d)"
      using h(1) assms(4) unfolding handed_def by blast
    have np: "judge pid (frame_bytes fr) \<noteq> Partial"
    proof (cases "frame_bytes fr2 = []")
      case False
      then show ?thesis using judge_prefix[of pid "frame_bytes fr1" "frame_bytes fr2"] f(1,2) by auto
    qed (use f in simp)
    have "length (completed d) \<le> 1" using s False by (auto simp: sound_def demux_wf_def)
    then obtain q where q: "r = Inr q" "opt_list q = completed d"
      using assms(5) False by (cases "completed d") (auto simp: finish_def pop_completed_def)
    then show ?thesis using np f empty by auto
  qed
qed

text \<open>The sample packet without a declared length, cut into two units, a repeated unit in between.\<close>

definition open_stream :: "u8 list list" where
  "open_stream = [sample_packet 0x40 14 [0, 0, 1, 0xBD], sample_packet 0x40 14 [0, 0, 1, 0xBD],
     sample_packet 0 15 [0, 0, 0x80, 0, 0, 1, 2, 3, 4]]"

definition open_frame :: "transport_unit list" where
  "open_frame = [\<lparr> u_start = True, u_counter = 14, u_bytes = [0, 0, 1, 0xBD] \<rparr>,
     \<lparr> u_start = False, u_counter = 15, u_bytes = [0, 0, 0x80, 0, 0, 1, 2, 3, 4] \<rparr>]"

lemma open_stream_facts:
  "list_all (readable 0x1100) open_stream" "accepted 0x1100 None open_stream = open_frame" "is_frame open_frame"
  "fst (push_all open_stream (demuxer_new 0x1100)) = []" "fst (snd (push_all open_stream (demuxer_new 0x1100))) = None"
  "judge 0x1100 (frame_bytes open_frame) = Partial" "length_state (frame_bytes open_frame) = UnknownLength"
  by code_simp+

theorem finish_flushes_witness:
  "\<exists>d d'. push_all open_stream (demuxer_new 0x1100) = ([], None, d) \<and> finish d = (Inr (Some (packet_of open_frame)), d')
    \<and> payload (packet_of open_frame) = [0, 0, 1, 0xBD, 0, 0, 0x80, 0, 0, 1, 2, 3, 4] \<and> completed d' = []"
proof -
  note f = open_stream_facts
  obtain d where d: "push_all open_stream (demuxer_new 0x1100) = ([], None, d)"
    using f(4,5) by (metis prod.collapse)
  obtain r d' where r: "finish d = (r, d')" by fastforce
  have "\<forall>p \<in> set open_stream. readable 0x1100 p" using f(1) by (simp add: list_all_iff)
  from finish_flushes[OF this d _ f(3) r, of "[]"] show ?thesis
    using d r f(2,6,7) by (auto simp: packet_of_def frame_bytes_def open_frame_def)
qed

end
