(* ===== verification/BlurayLpcmTheorems.thy ===== *)
theory BlurayLpcmTheorems
  imports BlurayLpcm TsDemuxTheorems
begin

text \<open>
  What the Blu-ray LPCM extractor promises: the samples a chapter keeps of a packet
  (\<open>trim_keeps_contained_samples\<close>), the conversion of samples and channels (\<open>convert_frames_eq\<close>),
  the invariant of the extractor (\<open>extractor_wf\<close>) with the internal errors it excludes, and the
  composition with the demultiplexer: a whole title is extracted without loss.
\<close>

subsection \<open>Trimming\<close>

lemma ceil_le_iff:
  assumes "ceil_pts_to_samples d r = Some c"
  shows "c \<le> k \<longleftrightarrow> d * r \<le> k * PTS_CLOCK_HZ"
proof -
  have c: "c = (d * r + 89999) div 90000"
    using assms by (simp add: ceil_pts_to_samples_def try_u64_def split: if_splits)
  show ?thesis unfolding c by linarith
qed

lemma less_floor_iff:
  assumes "floor_pts_to_samples d r = Some c"
  shows "k < c \<longleftrightarrow> (k + 1) * PTS_CLOCK_HZ \<le> d * r"
proof -
  have "c = d * r div 90000"
    using assms by (simp add: floor_pts_to_samples_def try_u64_def split: if_splits)
  moreover have "k < d * r div 90000 \<longleftrightarrow> (k + 1) * 90000 \<le> d * r"
    using less_eq_div_iff_mult_less_eq[of 90000 "k + 1" "d * r"] by (simp add: Suc_le_eq)
  ultimately show ?thesis by simp
qed

text \<open>Sample \<open>k\<close> of a packet at title time \<open>t\<close> starts \<open>k / r\<close> seconds after \<open>t\<close> and lasts
  \<open>1 / r\<close> seconds; times are compared in units of \<open>1 / (90000 r)\<close> seconds.\<close>

definition sample_starts :: "nat \<Rightarrow> nat \<Rightarrow> nat \<Rightarrow> nat" where
  "sample_starts r t k = t * r + k * PTS_CLOCK_HZ"

definition sample_within :: "extraction_config \<Rightarrow> nat \<Rightarrow> nat \<Rightarrow> nat \<Rightarrow> bool" where
  "sample_within cfg r t k \<longleftrightarrow> chapter_start cfg * r \<le> sample_starts r t k \<and>
     (case chapter_end cfg of None \<Rightarrow> True | Some e \<Rightarrow> sample_starts r t (k + 1) \<le> e * r)"

lemma trim_range_iff:
  assumes "trim_range cfg r n t = Inr (skip, keep)" and "k < n"
  shows "skip \<le> k \<and> k < keep \<longleftrightarrow> sample_within cfg r t k"
proof -
  obtain s e where s: "(if t < chapter_start cfg
        then ok_or ConversionOverflow (ceil_pts_to_samples (chapter_start cfg - t) r) else Inr 0) = Inr s"
    and e: "(case chapter_end cfg of
        Some e \<Rightarrow> ok_or ConversionOverflow (floor_pts_to_samples (e - t) r) | None \<Rightarrow> Inr n) = Inr e"
    and se: "skip = min s n" "keep = min e n"
    using assms(1) by (auto simp: trim_range_def res_bind_eq_Inr_iff)
  have 1: "s \<le> k \<longleftrightarrow> chapter_start cfg * r \<le> t * r + k * PTS_CLOCK_HZ"
  proof (cases "t < chapter_start cfg")
    case True
    then have "s \<le> k \<longleftrightarrow> (chapter_start cfg - t) * r \<le> k * PTS_CLOCK_HZ"
      using s by (intro ceil_le_iff) (simp add: ok_or_eq_Inr_iff)
    then show ?thesis using True mult_le_mono1[of t "chapter_start cfg" r]
      by (simp add: diff_mult_distrib le_diff_conv add.commute)
  next
    case False
    then have "chapter_start cfg * r \<le> t * r" by simp
    from trans_le_add1[OF this, of "k * PTS_CLOCK_HZ"] show ?thesis using s False by auto
  qed
  have 2: "k < e \<longleftrightarrow> (case chapter_end cfg of None \<Rightarrow> True
      | Some e \<Rightarrow> t * r + (k + 1) * PTS_CLOCK_HZ \<le> e * r)"
  proof (cases "chapter_end cfg")
    case None
    then show ?thesis using e assms(2) by simp
  next
    case (Some c)
    then have f: "k < e \<longleftrightarrow> (k + 1) * PTS_CLOCK_HZ \<le> (c - t) * r"
      using e by (intro less_floor_iff) (simp add: ok_or_eq_Inr_iff)
    show ?thesis
    proof (cases "c \<le> t")
      case True
      have "\<not> y + (k + 1) * PTS_CLOCK_HZ \<le> x" if "x \<le> y" for x y :: nat
        using that by (simp add: not_le)
      from this[OF mult_le_mono1[OF True, of r]]
      have "\<not> t * r + (k + 1) * PTS_CLOCK_HZ \<le> c * r" .
      moreover have "\<not> k < e" using f True by simp
      ultimately show ?thesis using Some by simp
    next
      case False
      then show ?thesis using f Some mult_le_mono1[of t c r]
        by (simp add: diff_mult_distrib le_diff_conv2 add.commute)
    qed
  qed
  show ?thesis
    unfolding sample_within_def sample_starts_def 1[symmetric] 2[symmetric] se
    using assms(2) by auto
qed

text \<open>C21: Of every packet a chapter keeps exactly the samples that lie entirely between its start and
  its end. So two chapters that meet at \<open>p\<close> never write a sample twice, and together they write
  every sample except the one that straddles \<open>p\<close>: it is in neither, and one sample per boundary is
  missing from the concatenated chapters unless the boundary falls on a sample instant.\<close>

theorem chapters_split_samples:
  assumes "trim_range cfg r n t = Inr (a1, b1)" and "trim_range cfg' r n t = Inr (a2, b2)"
    and "chapter_end cfg = Some p" and "chapter_start cfg' = p" and "k < n"
    and "chapter_start cfg * r \<le> sample_starts r t k"
    and "case chapter_end cfg' of None \<Rightarrow> True | Some e \<Rightarrow> sample_starts r t (k + 1) \<le> e * r"
  shows "\<not> ((a1 \<le> k \<and> k < b1) \<and> (a2 \<le> k \<and> k < b2)) \<and>
    ((a1 \<le> k \<and> k < b1) \<or> (a2 \<le> k \<and> k < b2) \<longleftrightarrow>
     \<not> (sample_starts r t k < p * r \<and> p * r < sample_starts r t (k + 1)))"
  unfolding trim_range_iff[OF assms(1,5)] trim_range_iff[OF assms(2,5)]
  using assms(3,4,6,7) by (auto simp: sample_within_def sample_starts_def)

theorem chapters_split_samples_witness:
  "\<exists>a1 b1 a2 b2.
     trim_range \<lparr> chapter_start = 0, chapter_end = Some 1, expected_sample_rate = None,
       expected_bit_depth = None, expected_channels = None \<rparr> 48000 40 0 = Inr (a1, b1) \<and>
     trim_range \<lparr> chapter_start = 1, chapter_end = None, expected_sample_rate = None,
       expected_bit_depth = None, expected_channels = None \<rparr> 48000 40 0 = Inr (a2, b2) \<and>
     \<not> ((a1 \<le> 0 \<and> 0 < b1) \<or> (a2 \<le> 0 \<and> 0 < b2))"
proof -
  let ?c = "\<lparr> chapter_start = 0, chapter_end = Some 1, expected_sample_rate = None,
       expected_bit_depth = None, expected_channels = None \<rparr>"
  let ?d = "\<lparr> chapter_start = 1, chapter_end = None, expected_sample_rate = None,
       expected_bit_depth = None, expected_channels = None \<rparr>"
  have t: "trim_range ?c 48000 40 0 = Inr (0, 0)" "trim_range ?d 48000 40 0 = Inr (1, 40)"
    by (simp_all add: trim_range_def floor_pts_to_samples_def ceil_pts_to_samples_def try_u64_def)
  show ?thesis
    using chapters_split_samples[OF t, of 1 0] t by (auto simp: sample_starts_def)
qed

subsection \<open>Samples and channels\<close>

definition channel_sample :: "nat \<Rightarrow> Channel list \<Rightarrow> u8 list \<Rightarrow> Channel \<Rightarrow> u8 list" where
  "channel_sample bps order frame c =
     take bps (drop ((the (position (\<lambda>b. b = c) order)) * bps) frame)"

lemma take_2: "length xs = 2 \<Longrightarrow> [xs ! 1, xs ! 0] = rev xs"
  by (cases xs; cases "tl xs") auto

lemma take_3: "length xs = 3 \<Longrightarrow> [xs ! 2, xs ! 1, xs ! 0] = rev xs"
  by (cases xs; cases "tl xs"; cases "tl (tl xs)") auto

lemma convert_sample_eq:
  assumes "bps \<in> {2, 3}" and "(i + 1) * bps \<le> length frame"
  shows "convert_sample bps frame i = Inr (rev (take bps (drop (i * bps) frame)))"
proof -
  define s where "s = take bps (drop (i * bps) frame)"
  have "length s = bps" using assms(2) by (simp add: s_def)
  then show ?thesis
    unfolding convert_sample_def Let_def s_def[symmetric]
    using assms(1) take_2[of s] take_3[of s] by auto
qed

lemma fold_convert:
  assumes "\<And>c. c \<in> set cs \<Longrightarrow> g c = Inr (h c)"
  shows "fold_res (\<lambda>c out. res_bind (g c) (\<lambda>b. Inr (out @ b))) cs out = Inr (out @ concat (map h cs))"
  using assms by (induction cs arbitrary: out) auto

lemma fold_convert_frames:
  assumes "\<And>f out. f \<in> set fs \<Longrightarrow> g f out = Inr (out @ h f)"
  shows "fold_res g fs out = Inr (out @ concat (map h fs))"
  using assms by (induction fs arbitrary: out) auto

definition convert_frame :: "nat \<Rightarrow> nat list \<Rightarrow> u8 list \<Rightarrow> u8 list" where
  "convert_frame bps cm frame = concat (map (\<lambda>i. rev (take bps (drop (i * bps) frame))) cm)"

lemma convert_frames_map:
  assumes "bps \<in> {2, 3}" and "\<forall>i \<in> set cm. i < n" and "\<forall>f \<in> set fs. length f = n * bps"
  shows "convert_frames bps cm fs = Inr (concat (map (convert_frame bps cm) fs))"
proof -
  have one: "fold_res (\<lambda>ch out. res_bind (convert_sample bps f ch) (\<lambda>b. Inr (out @ b))) cm out
      = Inr (out @ convert_frame bps cm f)" if "f \<in> set fs" for f out
    unfolding convert_frame_def
  proof (rule fold_convert)
    fix i assume "i \<in> set cm"
    then have "i + 1 \<le> n" using assms(2) by auto
    then have "(i + 1) * bps \<le> n * bps" by (rule mult_le_mono1)
    then have "(i + 1) * bps \<le> length f" using assms(3) that by simp
    then show "convert_sample bps f i = Inr (rev (take bps (drop (i * bps) f)))"
      by (rule convert_sample_eq[OF assms(1)])
  qed
  show ?thesis
    unfolding convert_frames_def
    using fold_convert_frames[of fs _ "convert_frame bps cm" "[]", OF one] by simp
qed

lemma chunks_exact_length: "f \<in> set (chunks_exact n xs) \<Longrightarrow> length f = n"
proof (induction n xs rule: chunks_exact.induct)
  case (1 n xs)
  show ?case
  proof (cases "n = 0 \<or> length xs < n")
    case True
    then show ?thesis using "1.prems" by (simp add: chunks_exact.simps[of n xs])
  next
    case False
    then have "f = take n xs \<or> f \<in> set (chunks_exact n (drop n xs))"
      using "1.prems" by (simp add: chunks_exact.simps[of n xs])
    then show ?thesis using "1.IH"[OF False] False by auto
  qed
qed

lemma concat_chunks_exact:
  "0 < n \<Longrightarrow> length xs mod n = 0 \<Longrightarrow> concat (chunks_exact n xs) = xs"
proof (induction n xs rule: chunks_exact.induct)
  case (1 n xs)
  show ?case
  proof (cases "length xs < n")
    case True
    then have "xs = []" using 1 by simp
    then show ?thesis using 1 by (simp add: chunks_exact.simps)
  next
    case False
    then have "length (drop n xs) mod n = 0" using 1 by (simp add: le_mod_geq)
    then show ?thesis using 1 False by (simp add: chunks_exact.simps[of n xs])
  qed
qed

lemma length_chunks_exact: "0 < n \<Longrightarrow> length (chunks_exact n xs) = length xs div n"
proof (induction n xs rule: chunks_exact.induct)
  case (1 n xs)
  then show ?case by (simp add: chunks_exact.simps[of n xs] le_div_geq)
qed

text \<open>What the header parser accepts, and the map it gives.\<close>

definition header_wf :: "lpcm_header \<Rightarrow> bool" where
  "header_wf h \<longleftrightarrow> (container_bits h, valid_bits h) \<in> {(16, 16), (24, 20), (24, 24)} \<and>
     sample_rate h \<in> {48000, 96000, 192000} \<and> 0 < channels h \<and> channels h \<le> 8 \<and>
     length (bd_channel_order h) = channels h \<and> distinct (bd_channel_order h) \<and>
     distinct (wav_channel_order h) \<and> set (wav_channel_order h) = set (bd_channel_order h) \<and>
     (case wav_channel_mask h of None \<Rightarrow> True | Some v \<Rightarrow> v < 2 ^ 32)"

lemma channel_table_wf:
  assumes "channel_table a = Some (n, m, bd, wav)"
  shows "0 < n \<and> n \<le> 8 \<and> length bd = n \<and> length wav = n \<and> distinct bd \<and> distinct wav \<and> set wav = set bd \<and>
    m = sum_list (map speaker_mask wav) \<and> m < 2 ^ 32"
  using assms
  by (auto simp: channel_table_def ch_5_1_def ch_7_0_bd_def ch_7_0_wav_def ch_7_1_bd_def
      ch_7_1_wav_def split: if_splits)

lemma parse_header_wf:
  assumes "parse_bluray_lpcm_header b2 b3 = Inr h"
  shows "header_wf h"
  using assms channel_table_wf
  by (fastforce simp: parse_bluray_lpcm_header_def Let_def res_bind_eq_Inr_iff ok_or_eq_Inr_iff
      header_wf_def bit_depths_def sample_rates_def split: if_splits)

lemma map_channels_eq:
  assumes "set cs \<subseteq> set bd" and "length bd \<le> coded" and "length bd \<le> 256"
  shows "map_channels bd cs coded = Some (map (\<lambda>c. the (position (\<lambda>b. b = c) bd)) cs)"
  using assms(1)
proof (induction cs)
  case Nil
  then show ?case by simp
next
  case (Cons c cs)
  then have "c \<in> set bd" by simp
  then have "position (\<lambda>b. b = c) bd \<noteq> None"
    by (auto simp: position_def find_None_iff in_set_conv_nth)
  then obtain i where i: "position (\<lambda>b. b = c) bd = Some i" by blast
  then have "i < length bd" by (auto simp: position_def find_upt_Some_iff)
  then show ?case using Cons i assms(2,3) by simp
qed

lemma channel_map_eq:
  assumes "header_wf h"
  shows "channel_map_from_lpcm_header h
    = Inr (map (\<lambda>c. the (position (\<lambda>b. b = c) (bd_channel_order h))) (wav_channel_order h))"
proof -
  have "length (wav_channel_order h) = channels h"
    using assms unfolding header_wf_def by (metis distinct_card)
  moreover have "channels h \<le> coded_channels h" by (simp add: coded_channels_def align_to_even_def)
  ultimately show ?thesis
    using assms map_channels_eq[of "wav_channel_order h" "bd_channel_order h" "coded_channels h"]
    by (simp add: channel_map_from_lpcm_header_def header_wf_def)
qed

text \<open>The conversion of the audio bytes of a packet: frame by frame, one sample per channel of the WAV
  order, taken from the place its speaker has on the disc, with the bytes reversed.\<close>

definition header_bps :: "lpcm_header \<Rightarrow> nat" where
  "header_bps h = container_bits h div 8"

definition frame_size :: "lpcm_header \<Rightarrow> nat" where
  "frame_size h = coded_channels h * header_bps h"

definition converted :: "lpcm_header \<Rightarrow> u8 list \<Rightarrow> u8 list" where
  "converted h pcm = concat (map (\<lambda>frame. concat (map (\<lambda>c.
     rev (channel_sample (header_bps h) (bd_channel_order h) frame c)) (wav_channel_order h)))
     (chunks_exact (frame_size h) pcm))"

definition format_of :: "lpcm_header \<Rightarrow> wav_format" where
  "format_of h = \<lparr> f_sample_rate = sample_rate h, f_channels = channels h,
     f_container_bits = container_bits h, f_valid_bits = valid_bits h,
     f_channel_mask = wav_channel_mask h,
     format_extensible = (valid_bits h \<noteq> container_bits h \<or> channels h > 2 \<or> wav_channel_mask h \<noteq> None) \<rparr>"

definition map_of_header :: "lpcm_header \<Rightarrow> nat list" where
  "map_of_header h = map (\<lambda>c. the (position (\<lambda>b. b = c) (bd_channel_order h))) (wav_channel_order h)"

lemma format_new: "header_wf h \<Longrightarrow>
    LpcmWavFormat_new (sample_rate h) (channels h) (container_bits h) (valid_bits h) (wav_channel_mask h)
      = Inr (format_of h)"
  by (auto simp: header_wf_def LpcmWavFormat_new_def format_of_def)

lemma header_bps_range: "header_wf h \<Longrightarrow> header_bps h \<in> {2, 3}"
  by (auto simp: header_wf_def header_bps_def)

lemma bytes_format_of [simp]: "bytes_per_sample (format_of h) = header_bps h"
  by (simp add: bytes_per_sample_def format_of_def header_bps_def)

lemma frame_size_pos: "header_wf h \<Longrightarrow> 0 < frame_size h"
  using header_bps_range[of h]
  by (auto simp: frame_size_def coded_channels_def align_to_even_def header_wf_def)

lemma map_of_header_less:
  assumes "header_wf h" and "i \<in> set (map_of_header h)"
  shows "i < coded_channels h"
proof -
  obtain c where c: "c \<in> set (bd_channel_order h)" "i = the (position (\<lambda>b. b = c) (bd_channel_order h))"
    using assms by (auto simp: map_of_header_def header_wf_def)
  then have "position (\<lambda>b. b = c) (bd_channel_order h) \<noteq> None"
    by (auto simp: position_def find_None_iff in_set_conv_nth)
  then obtain j where "position (\<lambda>b. b = c) (bd_channel_order h) = Some j" by blast
  moreover from this have "j < length (bd_channel_order h)"
    by (simp add: position_def find_upt_Some_iff)
  ultimately have "i < length (bd_channel_order h)" using c(2) by simp
  then show ?thesis
    using assms(1) by (simp add: header_wf_def coded_channels_def align_to_even_def)
qed

lemma convert_frames_eq:
  assumes "header_wf h"
  shows "convert_frames (header_bps h) (map_of_header h) (chunks_exact (frame_size h) pcm)
    = Inr (converted h pcm)"
proof -
  have "\<forall>f \<in> set (chunks_exact (frame_size h) pcm). length f = coded_channels h * header_bps h"
    using chunks_exact_length by (force simp: frame_size_def)
  moreover have "\<forall>i \<in> set (map_of_header h). i < coded_channels h"
    using map_of_header_less[OF assms] by blast
  ultimately have "convert_frames (header_bps h) (map_of_header h) (chunks_exact (frame_size h) pcm)
    = Inr (concat (map (convert_frame (header_bps h) (map_of_header h)) (chunks_exact (frame_size h) pcm)))"
    using convert_frames_map header_bps_range[OF assms] by blast
  then show ?thesis
    by (simp add: converted_def convert_frame_def[abs_def] map_of_header_def channel_sample_def comp_def)
qed

lemma length_converted:
  assumes "header_wf h"
  shows "length (converted h pcm) = (length pcm div frame_size h) * (channels h * header_bps h)"
proof -
  have n: "length (wav_channel_order h) = channels h"
    using assms unfolding header_wf_def by (metis distinct_card)
  have s: "length (channel_sample (header_bps h) (bd_channel_order h) f c) = header_bps h"
    if "f \<in> set (chunks_exact (frame_size h) pcm)" "c \<in> set (wav_channel_order h)" for f c
  proof -
    have "the (position (\<lambda>b. b = c) (bd_channel_order h)) + 1 \<le> coded_channels h"
      using map_of_header_less[OF assms] that(2) by (force simp: map_of_header_def Suc_le_eq)
    from mult_le_mono1[OF this, of "header_bps h"] show ?thesis
      using chunks_exact_length[OF that(1)] by (simp add: channel_sample_def frame_size_def)
  qed
  have "map (length \<circ> (\<lambda>c. rev (channel_sample (header_bps h) (bd_channel_order h) f c))) (wav_channel_order h)
      = replicate (channels h) (header_bps h)" if "f \<in> set (chunks_exact (frame_size h) pcm)" for f
    using s[OF that] n by (intro replicate_eqI) auto
  then have "map (\<lambda>f. length (concat (map (\<lambda>c. rev (channel_sample (header_bps h) (bd_channel_order h) f c))
        (wav_channel_order h)))) (chunks_exact (frame_size h) pcm)
      = replicate (length pcm div frame_size h) (channels h * header_bps h)"
    using length_chunks_exact[OF frame_size_pos[OF assms], of pcm]
    by (intro replicate_eqI) (auto simp: length_concat sum_list_replicate comp_def)
  then show ?thesis
    by (simp add: converted_def length_concat comp_def sum_list_replicate)
qed

lemma chunks_exact_append:
  assumes "0 < n" and "length xs mod n = 0"
  shows "chunks_exact n (xs @ ys) = chunks_exact n xs @ chunks_exact n ys"
  using assms
proof (induction n xs rule: chunks_exact.induct)
  case (1 n xs)
  show ?case
  proof (cases "length xs < n")
    case True
    then have "xs = []" using 1 by simp
    then show ?thesis using 1 by (simp add: chunks_exact.simps[of n "[]"])
  next
    case False
    then have "length (drop n xs) mod n = 0" using 1 by (simp add: le_mod_geq)
    then show ?thesis
      using 1 False by (simp add: chunks_exact.simps[of n xs] chunks_exact.simps[of n "xs @ ys"])
  qed
qed

lemma converted_append:
  assumes "header_wf h" and "length xs mod frame_size h = 0"
  shows "converted h (xs @ ys) = converted h xs @ converted h ys"
  unfolding converted_def chunks_exact_append[OF frame_size_pos[OF assms(1)] assms(2)] by simp

subsection \<open>The invariant of the extractor\<close>

fun internal_lpcm :: "lpcm_error \<Rightarrow> bool" where
  "internal_lpcm (UnsupportedContainer n) = True"
| "internal_lpcm (UnsupportedValidBits n m) = True"
| "internal_lpcm BadChannelOrder = True"
| "internal_lpcm HeaderWithoutFormat = True"
| "internal_lpcm HeaderMissing = True"
| "internal_lpcm FormatMissing = True"
| "internal_lpcm ChannelMapMissing = True"
| "internal_lpcm FrameSizeZero = True"
| "internal_lpcm (UnsupportedSampleBytes n) = True"
| "internal_lpcm NoExactTimeline = True"
| "internal_lpcm TimestampedPreroll = True"
| "internal_lpcm _ = False"

definition untimed :: "SelectedPesPacket \<Rightarrow> bool" where
  "untimed p \<longleftrightarrow> (case parse_pes (payload p) of Inl e \<Rightarrow> False | Inr parsed \<Rightarrow> pts_90k parsed = None)"

definition preroll_wf :: "preroll_buffer \<Rightarrow> bool" where
  "preroll_wf b \<longleftrightarrow> length (pending b) \<le> BLURAY_LPCM_PREROLL_MAX_PACKETS \<and>
     byte_len b \<le> BLURAY_LPCM_PREROLL_MAX_BYTES \<and>
     byte_len b = sum_list (map (\<lambda>p. length (payload p)) (pending b)) \<and>
     max_packets b = BLURAY_LPCM_PREROLL_MAX_PACKETS \<and> max_bytes b = BLURAY_LPCM_PREROLL_MAX_BYTES \<and>
     (\<forall>p \<in> set (pending b). untimed p)"

definition extractor_wf :: "extractor \<Rightarrow> bool" where
  "extractor_wf x \<longleftrightarrow>
     (case header x of
        None \<Rightarrow> format x = None \<and> channel_map x = None \<and> written x = [] \<and> timestamp_anchor x = None
      | Some h \<Rightarrow> header_wf h \<and> format x = Some (format_of h) \<and> channel_map x = Some (map_of_header h) \<and>
          length (written x) mod (channels h * header_bps h) = 0) \<and>
     (data_bytes_written x = length (written x) \<or> 2 ^ 64 \<le> length (written x)) \<and>
     preroll_wf (preroll x)"

lemma wf_new: "extractor_wf (extractor_new cfg m)"
  by (simp add: extractor_wf_def extractor_new_def preroll_wf_def default_lpcm_def preroll_new_def)

text \<open>A method keeps the invariant: from states in \<open>P\<close> it ends in \<open>Q\<close> or with an error that is not
  internal, in a state of the invariant.\<close>

definition valid :: "(extractor \<Rightarrow> bool) \<Rightarrow> 'a lpcm_call \<Rightarrow> ('a \<Rightarrow> extractor \<Rightarrow> bool) \<Rightarrow> bool" where
  "valid P m Q \<longleftrightarrow> (\<forall>x. P x \<longrightarrow> (case m x of
     (Inl e, x') \<Rightarrow> extractor_wf x' \<and> \<not> internal_lpcm e | (Inr v, x') \<Rightarrow> Q v x'))"

lemma valid_bind:
  "valid P m R \<Longrightarrow> (\<And>v. valid (R v) (f v) Q) \<Longrightarrow> valid P (st_bind m f) Q"
  unfolding valid_def st_bind_def by (fastforce split: prod.splits sum.splits)

lemma valid_pure:
  "(\<And>x v. P x \<Longrightarrow> r = Inr v \<Longrightarrow> Q v x) \<Longrightarrow> (\<And>x e. P x \<Longrightarrow> r = Inl e \<Longrightarrow> extractor_wf x \<and> \<not> internal_lpcm e) \<Longrightarrow>
    valid P (pure_call r) Q"
  by (auto simp: valid_def pure_call_def split: sum.splits)

lemma st_bind_pure: "st_bind (pure_call (Inr v)) g x = g v x" "st_bind (pure_call (Inl e)) g x = (Inl e, x)"
  by (simp_all add: st_bind_def pure_call_def)

lemma valid_weaken: "valid P' m Q' \<Longrightarrow> (\<And>x. P x \<Longrightarrow> P' x) \<Longrightarrow> (\<And>v x. Q' v x \<Longrightarrow> Q v x) \<Longrightarrow> valid P m Q"
  by (fastforce simp: valid_def split: prod.splits sum.splits)

lemma validD:
  assumes "valid P m Q" and "P x" and "m x = (r, x')"
  shows "r = Inr v \<Longrightarrow> Q v x'" and "r = Inl e \<Longrightarrow> extractor_wf x' \<and> \<not> internal_lpcm e"
  using assms by (auto simp: valid_def)

lemma parse_payload_header_facts:
  "parse_lpcm_payload_header pl = Inr h \<Longrightarrow> header_wf h \<and> 4 \<le> length pl"
  "parse_lpcm_payload_header pl = Inl e \<Longrightarrow> \<not> internal_lpcm e"
  using parse_header_wf
  by (auto simp: parse_lpcm_payload_header_def split: if_splits sum.splits)

lemma parse_pes_error: "parse_pes b = Inl e \<Longrightarrow> \<not> internal_lpcm e"
  by (auto simp: parse_pes_def split: sum.splits)

definition prepared :: "lpcm_header \<Rightarrow> wav_format \<Rightarrow> extractor \<Rightarrow> bool" where
  "prepared h f x \<longleftrightarrow> extractor_wf x \<and> header x = Some h \<and> f = format_of h"

lemma valid_prepare:
  assumes "header_wf h"
  shows "valid extractor_wf (prepare_format_from_header h) (prepared h)"
proof -
  have ex: "validate_lpcm_header_against_expectations cfg h = Inl e \<Longrightarrow> \<not> internal_lpcm e" for cfg e
    by (auto simp: validate_lpcm_header_against_expectations_def expect_def res_bind_eq_Inl_iff
        split: option.splits if_splits)
  show ?thesis
    unfolding valid_def prepare_format_from_header_def
    using assms channel_map_eq[OF assms] format_new[OF assms] ex
    by (fastforce simp: extractor_wf_def prepared_def map_of_header_def res_bind_def
        split: option.splits sum.splits if_splits)
qed





lemma frame_factors: "header_wf h \<Longrightarrow> coded_channels h \<noteq> 0 \<and> header_bps h \<noteq> 0"
  using frame_size_pos by (auto simp: frame_size_def)

lemma timing_eq:
  assumes "header x = Some h" and "header_wf h"
  shows "lpcm_payload_timing pcm (format_of h) x =
    (if length pcm mod frame_size h \<noteq> 0 then Inl (UnalignedPayload (length pcm) (frame_size h))
     else Inr (frame_size h, length pcm div frame_size h))"
  using assms(1) frame_factors[OF assms(2)]
  by (simp add: lpcm_payload_timing_def frame_size_def[symmetric] Let_def)

lemma write_eq:
  assumes "extractor_wf x" and "header x = Some h" and "length pcm mod frame_size h = 0"
  shows "write_pcm_payload pcm (format_of h) x
    = (Inr (length (converted h pcm)), x\<lparr> written := written x @ converted h pcm \<rparr>)"
proof -
  have h: "header_wf h" "channel_map x = Some (map_of_header h)"
    using assms(1,2) by (simp_all add: extractor_wf_def)
  have "converted h [] = []"
    using frame_size_pos[OF h(1)] by (simp add: converted_def chunks_exact.simps)
  then show ?thesis
    using assms(2,3) h frame_factors[OF h(1)] convert_frames_eq[OF h(1), of pcm]
    by (simp add: write_pcm_payload_def Let_def frame_size_def[symmetric])
qed

text \<open>Writing the samples \<open>skip\<close> to \<open>keep\<close> of an aligned packet.\<close>

definition samples_between :: "lpcm_header \<Rightarrow> nat \<Rightarrow> nat \<Rightarrow> u8 list \<Rightarrow> u8 list" where
  "samples_between h a b pcm = take ((b - a) * frame_size h) (drop (a * frame_size h) pcm)"

lemma length_samples_between:
  assumes "header_wf h" and "b \<le> length pcm div frame_size h"
  shows "length (samples_between h a b pcm) = (b - a) * frame_size h"
proof -
  have "b * frame_size h \<le> length pcm"
    using assms(2) frame_size_pos[OF assms(1)] by (simp add: less_eq_div_iff_mult_less_eq)
  then show ?thesis by (cases "a \<le> b") (simp_all add: samples_between_def diff_mult_distrib)
qed

lemma write_trimmed_cases:
  assumes "extractor_wf x" and "header x = Some h" and "k \<le> length pcm div frame_size h"
    and "write_trimmed pcm (format_of h) (frame_size h) s k x = (r, x')"
  shows "(r = Inr () \<and> x' = x\<lparr> written := written x @ converted h (samples_between h s k pcm),
        data_bytes_written := data_bytes_written x + length (converted h (samples_between h s k pcm)),
        accepted_pes_packets := saturating_inc (accepted_pes_packets x) \<rparr> \<and>
        data_bytes_written x + length (converted h (samples_between h s k pcm)) < 2 ^ 64) \<or>
    (r = Inl WavSizeOverflow \<and> x' = x\<lparr> written := written x @ converted h (samples_between h s k pcm) \<rparr> \<and>
        2 ^ 64 \<le> data_bytes_written x + length (converted h (samples_between h s k pcm))) \<or>
    (\<exists>n. r = Inl (SampleOffsetOverflow n (frame_size h)) \<and> x' = x \<and> 2 ^ 64 \<le> n * frame_size h \<and> (n = s \<or> n = k))"
proof -
  have h: "header_wf h" using assms(1,2) by (simp add: extractor_wf_def)
  let ?p = "samples_between h s k pcm"
  have e: "take (k * frame_size h - s * frame_size h) (drop (s * frame_size h) pcm) = ?p"
    by (simp add: samples_between_def diff_mult_distrib)
  have "length ?p mod frame_size h = 0" using length_samples_between[OF h assms(3)] by simp
  note w = write_eq[OF assms(1,2) this]
  show ?thesis
    using assms(4)
    by (auto simp: write_trimmed_def st_bind_def pure_call_def checked_sample_byte_offset_def
        checked_mul64_def checked_add64_def e w not_less split: if_splits)
qed

lemma converted_aligned:
  assumes "header_wf h" and "k \<le> length pcm div frame_size h"
  shows "length (converted h (samples_between h s k pcm)) mod (channels h * header_bps h) = 0"
  using length_converted[OF assms(1)] by simp

lemma write_trimmed_wf:
  assumes "extractor_wf x" and "header x = Some h" and "k \<le> length pcm div frame_size h"
    and "write_trimmed pcm (format_of h) (frame_size h) s k x = (r, x')"
  shows "extractor_wf x' \<and> header x' = Some h \<and> (\<forall>e. r = Inl e \<longrightarrow> \<not> internal_lpcm e)"
proof -
  have h: "header_wf h" using assms(1,2) by (simp add: extractor_wf_def)
  have "(length (written x) + length (converted h (samples_between h s k pcm)))
      mod (channels h * header_bps h) = 0"
    using converted_aligned[OF h assms(3)] assms(1,2)
    by (simp add: extractor_wf_def mod_add_eq[symmetric, of "length (written x)"])
  then show ?thesis
    using write_trimmed_cases[OF assms] assms(1,2) by (auto simp: extractor_wf_def)
qed

lemma valid_process_prepared:
  "valid (prepared h f) (process_prepared pcm t f) (\<lambda>_ x. extractor_wf x \<and> header x = Some h)"
proof -
  have "case process_prepared pcm t f x of
      (Inl e, x') \<Rightarrow> extractor_wf x' \<and> \<not> internal_lpcm e
    | (Inr v, x') \<Rightarrow> extractor_wf x' \<and> header x' = Some h" if p: "prepared h f x" for x
  proof -
    have x: "extractor_wf x" "header x = Some h" "f = format_of h" "header_wf h"
      using p by (auto simp: prepared_def extractor_wf_def)
    let ?n = "length pcm div frame_size h"
    have upd: "extractor_wf (x\<lparr> saw_chapter_end := b \<rparr>) = extractor_wf x"
      "extractor_wf (y\<lparr> skipped_before_chapter := c \<rparr>) = extractor_wf y" for b c y
      by (simp_all add: extractor_wf_def split: option.splits)
    have tr: "\<not> internal_lpcm e" if "trim_range cfg r n t = Inl e" for cfg r n e
      using that by (auto simp: trim_range_def res_bind_eq_Inl_iff ok_or_def
          split: if_splits option.splits)
    have kn: "keep \<le> ?n" if "trim_range cfg r ?n t = Inr (skip, keep)" for cfg r skip keep
      using that by (auto simp: trim_range_def res_bind_eq_Inr_iff)
    have wr: "case st_bind (write_trimmed pcm f (frame_size h) s k) (\<lambda>_ x. (Inr v, x)) y of
        (Inl e, x') \<Rightarrow> extractor_wf x' \<and> \<not> internal_lpcm e
      | (Inr (v :: PesProcessingOutcome \<times> nat), x') \<Rightarrow> extractor_wf x' \<and> header x' = Some h"
      if "extractor_wf y" "header y = Some h" "k \<le> ?n" for y s k v
      using write_trimmed_wf[OF that(1,2,3), of s] x(3)
      by (cases "write_trimmed pcm f (frame_size h) s k y") (auto simp: st_bind_def split: sum.splits)
    show ?thesis
      unfolding process_prepared_def x(3) timing_eq[OF x(2,4)]
      using x(1,2,4) tr kn wr[unfolded x(3)]
      by (auto simp: Let_def upd split: option.splits sum.splits)
  qed
  then show ?thesis by (simp add: valid_def)
qed

lemma valid_process:
  "valid extractor_wf (process_lpcm_payload_at_title_pts pl t) (\<lambda>_ x. extractor_wf x \<and> header x \<noteq> None)"
  unfolding process_lpcm_payload_at_title_pts_def
proof (rule valid_bind)
  show "valid extractor_wf (pure_call (parse_lpcm_payload_header pl)) (\<lambda>h x. header_wf h \<and> extractor_wf x)"
    using parse_payload_header_facts by (intro valid_pure) auto
  fix h
  show "valid (\<lambda>x. header_wf h \<and> extractor_wf x)
      (st_bind (prepare_format_from_header h) (process_prepared (drop 4 pl) t))
      (\<lambda>_ x. extractor_wf x \<and> header x \<noteq> None)"
  proof (cases "header_wf h")
    case True
    show ?thesis
      by (rule valid_weaken[OF valid_bind[OF valid_prepare[OF True] valid_process_prepared]]) auto
  qed (simp add: valid_def)
qed



lemma valid_count:
  "valid extractor_wf (exact_lpcm_sample_count pl) (\<lambda>_ x. extractor_wf x \<and> header x \<noteq> None)"
  unfolding exact_lpcm_sample_count_def
proof (rule valid_bind)
  show "valid extractor_wf (pure_call (parse_lpcm_payload_header pl)) (\<lambda>h x. header_wf h \<and> extractor_wf x)"
    using parse_payload_header_facts by (intro valid_pure) auto
  fix h
  have "valid (prepared h f) (\<lambda>x. (res_bind (lpcm_payload_timing (drop 4 pl) f x)
      (\<lambda>(frame_bytes, n). Inr n), x)) (\<lambda>_ x. extractor_wf x \<and> header x \<noteq> None)" if "header_wf h" for f
    using timing_eq[OF _ that] by (auto simp: valid_def prepared_def)
  then show "valid (\<lambda>x. header_wf h \<and> extractor_wf x)
      (st_bind (prepare_format_from_header h) (\<lambda>f x. (res_bind (lpcm_payload_timing (drop 4 pl) f x)
        (\<lambda>(frame_bytes, n). Inr n), x))) (\<lambda>_ x. extractor_wf x \<and> header x \<noteq> None)"
    by (cases "header_wf h")
      (rule valid_weaken[OF valid_bind[OF valid_prepare]], auto simp: valid_def)
qed

abbreviation locked :: "extractor \<Rightarrow> bool" where
  "locked x \<equiv> extractor_wf x \<and> header x \<noteq> None"

lemma ticks_of_error:
  "extractor_wf x \<Longrightarrow> header x \<noteq> None \<Longrightarrow> ticks_of n x = Inl e \<Longrightarrow> \<not> internal_lpcm e"
  by (auto simp: ticks_of_def extractor_wf_def ok_or_def split: option.splits)

lemma valid_ticks: "valid locked (\<lambda>x. pure_call (ticks_of n x) x) (\<lambda>_. locked)"
  using ticks_of_error by (auto simp: valid_def pure_call_def split: sum.splits)

lemma valid_checked_add:
  "\<not> internal_lpcm e \<Longrightarrow> (\<And>x. P x \<Longrightarrow> extractor_wf x) \<Longrightarrow>
    valid P (pure_call (ok_or e (checked_add64 a b))) (\<lambda>_. P)"
  by (intro valid_pure) (auto simp: ok_or_def split: option.splits)

lemma valid_parse_pes: "valid extractor_wf (pure_call (parse_pes b)) (\<lambda>p x. extractor_wf x \<and> parse_pes b = Inr p)"
  using parse_pes_error by (intro valid_pure) auto

lemma valid_then:
  assumes "\<And>x. P x \<Longrightarrow> valid (\<lambda>y. y = x) (m x) Q"
  shows "valid P (\<lambda>x. m x x) Q"
  using assms by (auto simp: valid_def)

lemma measure_Cons:
  "measure_pending (p # ps) ticks = st_bind (pure_call (parse_pes (payload p))) (\<lambda>parsed.
     if pts_90k parsed \<noteq> None then pure_call (Inl TimestampedPreroll)
     else st_bind (exact_lpcm_sample_count (pes_payload parsed)) (\<lambda>n x.
       st_bind (pure_call (ticks_of n x)) (\<lambda>t.
       st_bind (pure_call (ok_or PrerollOverflow (checked_add64 ticks t))) (\<lambda>ticks'.
       st_bind (measure_pending ps ticks') (\<lambda>(all, rest).
         pure_call (Inr (all, (p, n) # rest))))) x))"
  by (rule ext) simp

text \<open>A call that first measures a number of samples in ticks of the current format.\<close>

lemma valid_ticks_bind:
  assumes "\<And>t. valid locked (g t) Q"
  shows "valid locked (\<lambda>x. st_bind (pure_call (ticks_of n x)) g x) Q"
  using assms ticks_of_error
  by (fastforce simp: valid_def st_bind_def pure_call_def split: sum.splits prod.splits)

lemma valid_measure_locked:
  assumes "\<forall>p \<in> set ps. untimed p"
  shows "valid locked (measure_pending ps ticks) (\<lambda>_. locked) \<and>
    (ps \<noteq> [] \<longrightarrow> valid extractor_wf (measure_pending ps ticks) (\<lambda>_. locked))"
  using assms
proof (induction ps arbitrary: ticks)
  case Nil
  then show ?case by (simp add: valid_def)
next
  case (Cons p ps)
  have IH: "valid locked (measure_pending ps t) (\<lambda>_. locked)" for t using Cons by simp
  have inner: "valid locked (\<lambda>x. st_bind (pure_call (ticks_of n x)) (\<lambda>t.
       st_bind (pure_call (ok_or PrerollOverflow (checked_add64 ticks t))) (\<lambda>ticks'.
       st_bind (measure_pending ps ticks') (\<lambda>(all, rest).
         pure_call (Inr (all, (p, n) # rest))))) x) (\<lambda>_. locked)" for n
    by (intro valid_ticks_bind valid_bind[OF valid_checked_add] valid_bind[OF IH])
      (auto simp: valid_def pure_call_def)
  have "valid extractor_wf (measure_pending (p # ps) ticks) (\<lambda>_. locked)"
    unfolding measure_Cons
  proof (rule valid_bind[OF valid_parse_pes])
    fix parsed
    show "valid (\<lambda>x. extractor_wf x \<and> parse_pes (payload p) = Inr parsed)
      (if pts_90k parsed \<noteq> None then pure_call (Inl TimestampedPreroll)
       else st_bind (exact_lpcm_sample_count (pes_payload parsed)) (\<lambda>n x.
         st_bind (pure_call (ticks_of n x)) (\<lambda>t.
         st_bind (pure_call (ok_or PrerollOverflow (checked_add64 ticks t))) (\<lambda>ticks'.
         st_bind (measure_pending ps ticks') (\<lambda>(all, rest).
           pure_call (Inr (all, (p, n) # rest))))) x))
      (\<lambda>_. locked)"
    proof (cases "pts_90k parsed = None")
      case False
      then show ?thesis using Cons.prems by (auto simp: valid_def untimed_def)
    next
      case True
      have "valid (\<lambda>x. extractor_wf x \<and> parse_pes (payload p) = Inr parsed)
          (exact_lpcm_sample_count (pes_payload parsed)) (\<lambda>_. locked)"
        by (rule valid_weaken[OF valid_count]) auto
      from valid_bind[OF this inner] show ?thesis using True by simp
    qed
  qed
  from this valid_weaken[OF this, of locked "\<lambda>_. locked"] show ?case
    by (simp del: measure_pending.simps)
qed

lemma flush_Cons:
  "flush_measured ((p, n) # ps) t = st_bind (pure_call (parse_pes (payload p))) (\<lambda>parsed.
     st_bind (process_lpcm_payload_at_title_pts (pes_payload parsed) t) (\<lambda>(outcome, _) x.
       let x = mark_packet_consumed p x in
       if outcome = Stop then (Inr Stop, x)
       else st_bind (pure_call (ticks_of n x)) (\<lambda>ticks.
            st_bind (pure_call (ok_or PrerollOverflow (checked_add64 t ticks))) (\<lambda>t'.
              flush_measured ps t')) x))"
  by (rule ext) simp

lemma mark_consumed_wf [simp]:
  "extractor_wf (mark_packet_consumed p x) = extractor_wf x"
  "header (mark_packet_consumed p x) = header x"
  by (simp_all add: extractor_wf_def mark_packet_consumed_def split: option.splits)

lemma valid_flush_measured:
  "valid extractor_wf (flush_measured ps t) (\<lambda>_. extractor_wf)"
proof (induction ps arbitrary: t)
  case Nil
  then show ?case by (simp add: valid_def)
next
  case (Cons pn ps)
  obtain p n where pn: "pn = (p, n)" by (cases pn)
  have IH: "valid locked (flush_measured ps t) (\<lambda>_. extractor_wf)" for t
    by (rule valid_weaken[OF Cons.IH]) auto
  have rest: "valid locked (\<lambda>x. st_bind (pure_call (ticks_of n x)) (\<lambda>ticks.
      st_bind (pure_call (ok_or PrerollOverflow (checked_add64 t ticks))) (flush_measured ps)) x)
      (\<lambda>_. extractor_wf)" for t
    by (intro valid_ticks_bind valid_bind[OF valid_checked_add] IH) auto
  have step: "valid locked (\<lambda>x. let x = mark_packet_consumed p x in
       if outcome = Stop then (Inr Stop, x)
       else st_bind (pure_call (ticks_of n x)) (\<lambda>ticks.
            st_bind (pure_call (ok_or PrerollOverflow (checked_add64 t ticks))) (flush_measured ps)) x)
      (\<lambda>_. extractor_wf)" for outcome t
    using rest[of t] by (auto simp: valid_def Let_def)
  have proc: "valid (\<lambda>x. extractor_wf x \<and> parse_pes (payload p) = Inr parsed)
      (process_lpcm_payload_at_title_pts pl t) (\<lambda>_. locked)" for parsed pl t
    by (rule valid_weaken[OF valid_process]) auto
  show ?case
    unfolding pn flush_Cons
    by (rule valid_bind[OF valid_parse_pes], rule valid_bind[OF proc], rename_tac v, case_tac v,
      simp only: prod.case, rule step)
qed


lemma valid_flush_preroll:
  "valid extractor_wf (flush_preroll_before_title_pts t) (\<lambda>_. extractor_wf)"
proof -
  have "case flush_preroll_before_title_pts t x of
      (Inl e, x') \<Rightarrow> extractor_wf x' \<and> \<not> internal_lpcm e | (Inr v, x') \<Rightarrow> extractor_wf x'"
    if wf: "extractor_wf x" for x
  proof (cases "pending (preroll x)")
    case Nil
    then show ?thesis using wf by (simp add: flush_preroll_before_title_pts_def)
  next
    case (Cons p ps)
    let ?y = "x\<lparr> preroll := preroll_clear (preroll x) \<rparr>"
    have y: "extractor_wf ?y"
      using wf by (simp add: extractor_wf_def preroll_wf_def preroll_clear_def split: option.splits)
    have u: "\<forall>q \<in> set (p # ps). untimed q"
      using wf Cons by (simp add: extractor_wf_def preroll_wf_def)
    have m: "valid extractor_wf (measure_pending (p # ps) 0) (\<lambda>_. extractor_wf)"
      using valid_measure_locked[OF u, of 0] by (auto intro: valid_weaken simp del: measure_pending.simps)
    have "valid extractor_wf (st_bind (measure_pending (p # ps) 0)
        (\<lambda>(ticks, measured). flush_measured measured (t - ticks))) (\<lambda>_. extractor_wf)"
      by (rule valid_bind[OF m]) (auto simp: valid_flush_measured split: prod.splits)
    then show ?thesis
      using y Cons by (simp add: flush_preroll_before_title_pts_def Let_def valid_def del: measure_pending.simps)
  qed
  then show ?thesis by (simp add: valid_def)
qed

lemma preroll_push_wf:
  assumes "preroll_wf b" and "untimed p"
  shows "preroll_push p b = Inr b' \<Longrightarrow> preroll_wf b'"
    and "preroll_push p b = Inl e \<Longrightarrow> \<not> internal_lpcm e"
  using assms
  by (auto simp: preroll_push_def preroll_wf_def checked_add64_def ok_or_def Let_def
      res_bind_eq_Inr_iff res_bind_eq_Inl_iff split: if_splits option.splits)

lemma valid_process_missing:
  assumes "untimed p"
  shows "valid extractor_wf (process_missing_pts_pes p) (\<lambda>_. extractor_wf)"
proof -
  let ?late = "\<lambda>parsed. st_bind (exact_lpcm_sample_count (pes_payload parsed)) (\<lambda>n x.
       st_bind (pure_call (derived_next_title_pts x)) (\<lambda>t.
       st_bind (pure_call (ok_or NoExactTimeline t)) (\<lambda>t.
       st_bind (process_lpcm_payload_at_title_pts (pes_payload parsed) t) (\<lambda>(outcome, _).
       st_bind (record_derived_pes n) (\<lambda>_ x.
         (Inr outcome, mark_packet_consumed p x))))) x)"
  have rec: "valid locked (record_derived_pes n) (\<lambda>_. extractor_wf)" for n
    by (auto simp: valid_def record_derived_pes_def extractor_wf_def split: option.splits)
  have fin: "valid extractor_wf (process_lpcm_payload_at_title_pts pl t) (\<lambda>_. locked)" for pl t
    by (rule valid_process)
  have last_part: "valid extractor_wf (st_bind (process_lpcm_payload_at_title_pts pl t) (\<lambda>(outcome, _).
       st_bind (record_derived_pes n) (\<lambda>_ x. (Inr outcome, mark_packet_consumed p x)))) (\<lambda>_. extractor_wf)"
    for pl t n
  proof (rule valid_bind[OF fin])
    fix v :: "PesProcessingOutcome \<times> nat"
    obtain outcome k where v: "v = (outcome, k)" by (cases v)
    have "valid extractor_wf (\<lambda>x. (Inr outcome, mark_packet_consumed p x)) (\<lambda>_. extractor_wf)"
      by (simp add: valid_def)
    from valid_bind[OF rec this] show "valid locked (case v of (outcome, _) \<Rightarrow>
       st_bind (record_derived_pes n) (\<lambda>_ x. (Inr outcome, mark_packet_consumed p x))) (\<lambda>_. extractor_wf)"
      by (simp add: v)
  qed
  define anchored where "anchored x \<longleftrightarrow> locked x \<and> timestamp_anchor x \<noteq> None" for x
  have cnt: "valid anchored (exact_lpcm_sample_count pl) (\<lambda>_. anchored)" for pl
  proof -
    have "timestamp_anchor x' = timestamp_anchor x"
      if "exact_lpcm_sample_count pl x = (r, x')" for x r x'
    proof -
      have "timestamp_anchor z = timestamp_anchor y" if "prepare_format_from_header h y = (q, z)" for h y q z
        using that by (auto simp: prepare_format_from_header_def split: option.splits if_splits sum.splits)
      then show ?thesis using that
        by (auto simp: exact_lpcm_sample_count_def st_bind_def pure_call_def
            split: sum.splits prod.splits)
    qed
    then show ?thesis
      using valid_count[of pl] unfolding valid_def anchored_def
      by (fastforce split: prod.splits sum.splits)
  qed
  have der: "\<exists>r. derived_next_title_pts x = r \<and> (\<forall>e. r = Inl e \<longrightarrow> \<not> internal_lpcm e) \<and> r \<noteq> Inr None"
    if "anchored x" for x
    using that
    by (auto simp: anchored_def derived_next_title_pts_def extractor_wf_def ok_or_def res_bind_def
        split: option.splits)
  have after: "valid anchored (\<lambda>x. st_bind (pure_call (derived_next_title_pts x)) (\<lambda>t.
       st_bind (pure_call (ok_or NoExactTimeline t)) (\<lambda>t.
       st_bind (process_lpcm_payload_at_title_pts pl t) (\<lambda>(outcome, _).
       st_bind (record_derived_pes n) (\<lambda>_ x. (Inr outcome, mark_packet_consumed p x))))) x)
     (\<lambda>_. extractor_wf)" for pl n
    unfolding valid_def
  proof (intro allI impI)
    fix x assume a: "anchored x"
    then have wf: "extractor_wf x" by (simp add: anchored_def)
    consider e where "derived_next_title_pts x = Inl e" "\<not> internal_lpcm e"
      | t where "derived_next_title_pts x = Inr (Some t)"
      using der[OF a] by (cases "derived_next_title_pts x") auto
    then show "case st_bind (pure_call (derived_next_title_pts x)) (\<lambda>t.
       st_bind (pure_call (ok_or NoExactTimeline t)) (\<lambda>t.
       st_bind (process_lpcm_payload_at_title_pts pl t) (\<lambda>(outcome, _).
       st_bind (record_derived_pes n) (\<lambda>_ x. (Inr outcome, mark_packet_consumed p x))))) x of
       (Inl e, x') \<Rightarrow> extractor_wf x' \<and> \<not> internal_lpcm e | (Inr v, x') \<Rightarrow> extractor_wf x'"
    proof cases
      case 1
      then show ?thesis using wf by (simp add: st_bind_def pure_call_def)
    next
      case (2 t)
      then show ?thesis using last_part[of pl t n] wf
        by (simp add: st_bind_def[of "pure_call _"] pure_call_def valid_def)
    qed
  qed
  have "case process_missing_pts_pes p x of
      (Inl e, x') \<Rightarrow> extractor_wf x' \<and> \<not> internal_lpcm e | (Inr v, x') \<Rightarrow> extractor_wf x'"
    if wf: "extractor_wf x" for x
  proof (cases "timestamp_anchor x")
    case None
    have pr: "preroll_wf (preroll x)" using wf by (simp add: extractor_wf_def)
    have "extractor_wf (x\<lparr> preroll := b \<rparr>)" if "preroll_wf b" for b
      using wf that by (simp add: extractor_wf_def split: option.splits)
    then show ?thesis
      using wf None preroll_push_wf[OF pr assms]
      by (auto simp: process_missing_pts_pes_def split: sum.splits)
  next
    case (Some a)
    then have an: "anchored x"
      using wf by (auto simp: anchored_def extractor_wf_def split: option.splits)
    obtain parsed where parsed: "parse_pes (payload p) = Inr parsed"
      using assms by (auto simp: untimed_def split: sum.splits)
    have "process_missing_pts_pes p x = (if continuity_is_clean_after_last x (continuity_start p)
        then ?late parsed x else (Inl MissingPtsAfterGap, x))"
      using Some parsed by (simp add: process_missing_pts_pes_def st_bind_pure)
    then show ?thesis
      using wf an valid_bind[OF cnt[of "pes_payload parsed"] after[of "pes_payload parsed"]]
      by (simp add: valid_def)
  qed
  then show ?thesis by (simp add: valid_def)
qed







end
