(* ===== verification/BlurayExtract.thy ===== *)
theory BlurayExtract
  imports BlurayLpcmTheorems
begin

text \<open>
  The composition of the Blu-ray LPCM path: demultiplexer, time line and extractor, in the order in
  which \<open>src/convert/pipeline/bluray_realize.rs\<close> calls them on a stream of whole packets. Every
  delivered PES packet first fixes the output format, if none is known, and is then processed, until
  the chapter has ended. The theorems: no sequence of packets meets an internal error of the
  extractor, and a whole title is extracted without loss.
\<close>

fun extract_all :: "SelectedPesPacket list \<Rightarrow> PesProcessingOutcome lpcm_call" where
  "extract_all [] x = (Inr Continue, x)"
| "extract_all (p # ps) x =
     st_bind (peek_or_create_wav_format (payload p)) (\<lambda>_.
     st_bind (process_pes_packet p) (\<lambda>outcome.
       if outcome = Stop then pure_call (Inr Stop) else extract_all ps)) x"

definition extract_stream :: "u16 \<Rightarrow> u8 list list \<Rightarrow> PesProcessingOutcome lpcm_call" where
  "extract_stream pid ps = (case demux_stream pid ps of (out, e, d) \<Rightarrow>
     st_bind (extract_all out) (\<lambda>outcome.
       if outcome = Stop then pure_call (Inr Stop)
       else case e of Some e \<Rightarrow> pure_call (Inl (TsError e)) | None \<Rightarrow> pure_call (Inr Continue)))"

subsection \<open>No internal errors\<close>

lemma wf_updates:
  "extractor_wf x \<Longrightarrow> extractor_wf (x\<lparr> mapper := m \<rparr>)"
  "extractor_wf x \<Longrightarrow> extractor_wf (x\<lparr> preroll := preroll_clear (preroll x) \<rparr>)"
  "extractor_wf x \<Longrightarrow> extractor_wf (x\<lparr> preroll := preroll_clear (preroll x), saw_chapter_end := b \<rparr>)"
  "extractor_wf x \<Longrightarrow> header x \<noteq> None \<Longrightarrow> extractor_wf (record_timestamped_pes t n x)"
  by (auto simp: extractor_wf_def preroll_wf_def preroll_clear_def record_timestamped_pes_def
      split: option.splits)

lemma valid_process_at: "valid extractor_wf (process_at p pl t) (\<lambda>_. extractor_wf)"
  unfolding process_at_def
proof (rule valid_bind[OF valid_process])
  fix v :: "PesProcessingOutcome \<times> nat"
  show "valid locked (case v of (outcome, n) \<Rightarrow>
      \<lambda>x. (Inr outcome, mark_packet_consumed p (record_timestamped_pes t n x))) (\<lambda>_. extractor_wf)"
    using wf_updates(4) by (cases v) (auto simp: valid_def)
qed

lemma validE:
  assumes "valid P m Q" and "P x"
  shows "case m x of (Inl e, x') \<Rightarrow> extractor_wf x' \<and> \<not> internal_lpcm e | (Inr v, x') \<Rightarrow> Q v x'"
  using assms by (simp add: valid_def)

lemma valid_process_pes: "valid extractor_wf (process_pes_packet p) (\<lambda>_. extractor_wf)"
proof -
  have "case process_pes_packet p x of
      (Inl e, x') \<Rightarrow> extractor_wf x' \<and> \<not> internal_lpcm e | (Inr v, x') \<Rightarrow> extractor_wf x'"
    if wf: "extractor_wf x" for x
  proof (cases "parse_pes (payload p)")
    case (Inl e)
    then show ?thesis using wf parse_pes_error by (simp add: process_pes_packet_def)
  next
    case (Inr parsed)
    show ?thesis
    proof (cases "pts_90k parsed")
      case None
      then have "untimed p" using Inr by (simp add: untimed_def)
      from validE[OF valid_process_missing[OF this] wf] show ?thesis
        using Inr None by (simp add: process_pes_packet_def)
    next
      case (Some raw)
      note pts = this
      obtain ot m where m: "map_pes_pts_to_title_pts (unat raw) (mapper x) = (ot, m)"
        by (cases "map_pes_pts_to_title_pts (unat raw) (mapper x)")
      have wf': "extractor_wf (x\<lparr> mapper := m \<rparr>)" by (rule wf_updates(1)[OF wf])
      show ?thesis
      proof (cases ot)
        case None
        then show ?thesis using Inr Some m wf' by (simp add: process_pes_packet_def)
      next
        case (Some t)
        let ?x = "x\<lparr> mapper := m \<rparr>" and ?pl = "pes_payload parsed"
        have "valid extractor_wf (st_bind (flush_preroll_before_title_pts t) (\<lambda>outcome.
            if outcome = Stop then (\<lambda>x. (Inr Stop, mark_packet_consumed p x)) else process_at p ?pl t))
            (\<lambda>_. extractor_wf)"
          by (rule valid_bind[OF valid_flush_preroll])
            (auto simp: valid_process_at valid_def[of _ "\<lambda>x. (Inr Stop, mark_packet_consumed p x)"])
        note fl = validE[OF this wf']
        note cl = validE[OF valid_process_at[of p ?pl t] wf_updates(2)[OF wf']]
        have st: "extractor_wf (?x\<lparr> preroll := preroll_clear (preroll ?x), saw_chapter_end := True \<rparr>)"
          by (rule wf_updates(3)[OF wf'])
        define good where "good r \<longleftrightarrow> (case r of (Inl e, x') \<Rightarrow> extractor_wf x' \<and> \<not> internal_lpcm e
          | (Inr (v :: PesProcessingOutcome), x') \<Rightarrow> extractor_wf x')" for r
        have g: "good (process_at p ?pl t ?x)" "good (process_at p ?pl t (?x\<lparr> preroll := preroll_clear (preroll ?x) \<rparr>))"
          "good (Inl PrerollGap, ?x)" "good (Inr Stop, mark_packet_consumed p
             (?x\<lparr> preroll := preroll_clear (preroll ?x), saw_chapter_end := True \<rparr>))"
          "good (st_bind (flush_preroll_before_title_pts t) (\<lambda>outcome.
            if outcome = Stop then (\<lambda>x. (Inr Stop, mark_packet_consumed p x)) else process_at p ?pl t) ?x)"
          unfolding good_def using validE[OF valid_process_at[of p ?pl t] wf'] cl wf' st fl by simp_all
        have good_if: "good (if c then a else b)" if "good a" "good b" for a b c using that by simp
        have eq: "process_pes_packet p x = (
            if pending (preroll ?x) = [] then process_at p ?pl t ?x
            else if (case chapter_end (config ?x) of Some e \<Rightarrow> t \<ge> e | None \<Rightarrow> False)
            then (Inr Stop, mark_packet_consumed p
              (?x\<lparr> preroll := preroll_clear (preroll ?x), saw_chapter_end := True \<rparr>))
            else if t < chapter_start (config ?x)
            then process_at p ?pl t (?x\<lparr> preroll := preroll_clear (preroll ?x) \<rparr>)
            else if \<not> has_clean_continuity_to (preroll ?x) p then (Inl PrerollGap, ?x)
            else st_bind (flush_preroll_before_title_pts t) (\<lambda>outcome.
              if outcome = Stop then (\<lambda>x. (Inr Stop, mark_packet_consumed p x)) else process_at p ?pl t) ?x)"
          using Inr pts m Some by (simp only: process_pes_packet_def sum.case option.case prod.case Let_def)
        have "good (process_pes_packet p x)"
          unfolding eq by (intro good_if g)
        then show ?thesis unfolding good_def .
      qed
    qed
  qed
  then show ?thesis by (simp add: valid_def)
qed

lemma valid_peek: "valid extractor_wf (peek_or_create_wav_format b) (\<lambda>_. extractor_wf)"
proof -
  have hd: "valid extractor_wf (pure_call (parse_lpcm_payload_header pl)) (\<lambda>h x. header_wf h \<and> extractor_wf x)" for pl
    using parse_payload_header_facts by (intro valid_pure) auto
  have pr: "valid (\<lambda>x. header_wf h \<and> extractor_wf x) (prepare_format_from_header h) (\<lambda>_. extractor_wf)" for h
  proof (cases "header_wf h")
    case True
    show ?thesis by (rule valid_weaken[OF valid_prepare[OF True]]) (auto simp: prepared_def)
  qed (simp add: valid_def)
  have "valid extractor_wf (st_bind (pure_call (parse_pes b)) (\<lambda>parsed.
       st_bind (pure_call (parse_lpcm_payload_header (pes_payload parsed))) prepare_format_from_header))
       (\<lambda>_. extractor_wf)"
  proof (rule valid_bind[OF valid_weaken[OF valid_parse_pes]])
    show "extractor_wf x \<Longrightarrow> extractor_wf x" for x .
    show "extractor_wf x \<and> parse_pes b = Inr v \<Longrightarrow> extractor_wf x" for v x by simp
    show "valid extractor_wf (st_bind (pure_call (parse_lpcm_payload_header (pes_payload v)))
        prepare_format_from_header) (\<lambda>_. extractor_wf)" for v
      by (rule valid_bind[OF hd pr])
  qed
  then show ?thesis
    by (auto simp: valid_def peek_or_create_wav_format_def split: option.splits)
qed

lemma extract_Cons:
  "extract_all (p # ps) = st_bind (peek_or_create_wav_format (payload p)) (\<lambda>_.
     st_bind (process_pes_packet p) (\<lambda>outcome.
       if outcome = Stop then pure_call (Inr Stop) else extract_all ps))"
  by (rule ext) simp

lemma valid_extract_all: "valid extractor_wf (extract_all ps) (\<lambda>_. extractor_wf)"
proof (induction ps)
  case Nil
  then show ?case by (simp add: valid_def)
next
  case (Cons p ps)
  show ?case
    unfolding extract_Cons
    by (rule valid_bind[OF valid_peek], rule valid_bind[OF valid_process_pes])
      (auto simp: Cons.IH valid_def[of _ "pure_call _"] pure_call_def)
qed

text \<open>C20: Whatever packets arrive, in whatever order and however damaged, for every configuration
  and time-line mapper, whether the run ends in an error or not: the error is none of those that only a
  broken state of the extractor could raise (\<open>internal_lpcm\<close>: a header without its format or channel map, no time line
  for a packet after the lock, a time-stamped packet in the pre-roll, and the like); the format, the channel map and the
  header are set together; the pre-roll never exceeds 8 packets and 4 MiB and its byte count is exact; and
  what has been written are whole output frames, counted exactly as long as the count fits 64 bits.\<close>

theorem extraction_stays_consistent:
  assumes "extract_all ps (extractor_new cfg m) = (r, x)"
  shows "(\<forall>e. r = Inl e \<longrightarrow> \<not> internal_lpcm e) \<and>
    length (pending (preroll x)) \<le> 8 \<and> byte_len (preroll x) \<le> 4 * 1024 * 1024 \<and>
    byte_len (preroll x) = sum_list (map (\<lambda>p. length (payload p)) (pending (preroll x))) \<and>
    (header x = None \<longleftrightarrow> format x = None) \<and> (header x = None \<longleftrightarrow> channel_map x = None) \<and>
    (\<forall>f. format x = Some f \<longrightarrow> length (written x) mod (f_channels f * bytes_per_sample f) = 0) \<and>
    (length (written x) < 2 ^ 64 \<longrightarrow> data_bytes_written x = length (written x))"
proof -
  have "extractor_wf x \<and> (\<forall>e. r = Inl e \<longrightarrow> \<not> internal_lpcm e)"
    using validE[OF valid_extract_all wf_new, of ps cfg m] assms by (auto split: sum.splits)
  then show ?thesis
    by (cases "header x") (auto simp: extractor_wf_def preroll_wf_def format_of_def bytes_per_sample_def header_bps_def)
qed

subsection \<open>The format stays\<close>

text \<open>Once a header is known, no method changes it or the format.\<close>

definition keeps :: "'a lpcm_call \<Rightarrow> bool" where
  "keeps m \<longleftrightarrow> (\<forall>x. header x \<noteq> None \<longrightarrow> header (snd (m x)) = header x \<and> format (snd (m x)) = format x)"

lemma keeps_bind: "keeps m \<Longrightarrow> (\<And>v. keeps (f v)) \<Longrightarrow> keeps (st_bind m f)"
  unfolding keeps_def st_bind_def by (fastforce split: prod.splits sum.splits)

lemma keeps_pure: "keeps (pure_call v)"
  by (simp add: keeps_def pure_call_def)

lemma keeps_update:
  "(\<And>x. header (g x) = header x \<and> format (g x) = format x) \<Longrightarrow> keeps m \<Longrightarrow> keeps (\<lambda>x. m (g x))"
  by (auto simp: keeps_def)

lemma keeps_if: "keeps a \<Longrightarrow> keeps b \<Longrightarrow> keeps (\<lambda>x. if c x then a x else b x)"
  by (simp add: keeps_def)

lemma keeps_end:
  "(\<And>x. header (g x) = header x \<and> format (g x) = format x) \<Longrightarrow> keeps (\<lambda>x. (v x, g x))"
  by (simp add: keeps_def)

lemma keeps_prepare: "keeps (prepare_format_from_header h)"
  by (auto simp: keeps_def prepare_format_from_header_def)

lemma keeps_write: "keeps (write_pcm_payload pcm f)"
  by (auto simp: keeps_def write_pcm_payload_def Let_def split: option.splits sum.splits)

lemma keeps_write_trimmed: "keeps (write_trimmed pcm f fb a b)"
  unfolding write_trimmed_def
  by (intro keeps_bind keeps_pure keeps_write) (auto simp: keeps_def split: option.splits)

lemma keeps_prepared: "keeps (process_prepared pcm t f)"
proof -
  have k: "header x' \<noteq> None \<Longrightarrow> header (snd (st_bind (write_trimmed pcm f fb a b) (\<lambda>_ x. (v, x)) x')) = header x' \<and>
      format (snd (st_bind (write_trimmed pcm f fb a b) (\<lambda>_ x. (v, x)) x')) = format x'" for fb a b v x'
    using keeps_bind[OF keeps_write_trimmed, of "\<lambda>_ x. (v, x)" pcm f fb a b] by (simp add: keeps_def)
  show ?thesis
    by (auto simp: keeps_def process_prepared_def Let_def k split: option.splits sum.splits)
qed

lemma keeps_process: "keeps (process_lpcm_payload_at_title_pts pl t)"
  unfolding process_lpcm_payload_at_title_pts_def
  by (intro keeps_bind keeps_pure keeps_prepare keeps_prepared)

lemma keeps_count: "keeps (exact_lpcm_sample_count pl)"
  unfolding exact_lpcm_sample_count_def
  by (intro keeps_bind keeps_pure keeps_prepare keeps_end) simp

lemma keeps_pure_bind: "(\<And>v. keeps (g v)) \<Longrightarrow> keeps (\<lambda>x. st_bind (pure_call (F x)) g x)"
  by (auto simp: keeps_def st_bind_def pure_call_def split: sum.splits)

lemma keeps_choice: "keeps a \<Longrightarrow> keeps b \<Longrightarrow> keeps (if c then a else b)"
  by simp

lemma keeps_measure: "keeps (measure_pending ps t)"
proof (induction ps arbitrary: t)
  case Nil
  then show ?case by (simp add: keeps_def)
next
  case (Cons p ps)
  have "keeps (st_bind (measure_pending ps v) (\<lambda>(all, rest). pure_call (Inr (all, (p, n) # rest))))" for v n
    by (rule keeps_bind[OF Cons.IH]) (auto simp: keeps_pure)
  then show ?case
    unfolding measure_Cons
    by (intro keeps_bind[OF keeps_pure] keeps_bind[OF keeps_count] keeps_choice keeps_pure_bind keeps_pure)
qed

lemma keeps_flush_measured: "keeps (flush_measured ps t)"
proof (induction ps arbitrary: t)
  case Nil
  then show ?case by (simp add: keeps_def)
next
  case (Cons pn ps)
  obtain p n where pn: "pn = (p, n)" by (cases pn)
  have k: "keeps (\<lambda>x. st_bind (pure_call (ticks_of n x)) (\<lambda>ticks.
      st_bind (pure_call (ok_or PrerollOverflow (checked_add64 t ticks))) (\<lambda>t'. flush_measured ps t')) x)"
    by (intro keeps_pure_bind keeps_bind[OF keeps_pure] Cons.IH)
  have "keeps (case v of (outcome, _) \<Rightarrow> \<lambda>x. let x = mark_packet_consumed p x in
       if outcome = Stop then (Inr Stop, x)
       else st_bind (pure_call (ticks_of n x)) (\<lambda>ticks.
            st_bind (pure_call (ok_or PrerollOverflow (checked_add64 t ticks))) (\<lambda>t'.
              flush_measured ps t')) x)" for v :: "PesProcessingOutcome \<times> nat"
    using k by (cases v) (auto simp: keeps_def mark_packet_consumed_def Let_def)
  then show ?case
    unfolding pn flush_Cons by (intro keeps_bind[OF keeps_pure] keeps_bind[OF keeps_process])
qed

lemma keeps_flush: "keeps (flush_preroll_before_title_pts t)"
proof -
  have "keeps (st_bind (measure_pending ps 0) (\<lambda>(ticks, measured). flush_measured measured (t - ticks)))" for ps
    by (rule keeps_bind[OF keeps_measure]) (auto simp: keeps_flush_measured split: prod.splits)
  then show ?thesis by (simp add: keeps_def flush_preroll_before_title_pts_def Let_def)
qed

lemma keeps_process_at: "keeps (process_at p pl t)"
  unfolding process_at_def
  by (rule keeps_bind[OF keeps_process])
    (auto simp: keeps_def mark_packet_consumed_def record_timestamped_pes_def split: prod.splits)

lemma keeps_missing: "keeps (process_missing_pts_pes p)"
proof -
  have rec: "keeps (st_bind (record_derived_pes n) (\<lambda>_ x. (Inr v, mark_packet_consumed p x)))" for n v
    by (rule keeps_bind) (auto simp: keeps_def record_derived_pes_def mark_packet_consumed_def split: option.splits)
  have last_part: "keeps (st_bind (process_lpcm_payload_at_title_pts pl t) (\<lambda>(outcome, _).
       st_bind (record_derived_pes n) (\<lambda>_ x. (Inr outcome, mark_packet_consumed p x))))" for pl t n
    by (rule keeps_bind[OF keeps_process]) (auto simp: rec)
  have "keeps (st_bind (pure_call (parse_pes (payload p))) (\<lambda>parsed.
       st_bind (exact_lpcm_sample_count (pes_payload parsed)) (\<lambda>n x.
       st_bind (pure_call (derived_next_title_pts x)) (\<lambda>t.
       st_bind (pure_call (ok_or NoExactTimeline t)) (\<lambda>t.
       st_bind (process_lpcm_payload_at_title_pts (pes_payload parsed) t) (\<lambda>(outcome, _).
       st_bind (record_derived_pes n) (\<lambda>_ x.
         (Inr outcome, mark_packet_consumed p x))))) x)))"
    by (intro keeps_bind[OF keeps_pure] keeps_bind[OF keeps_count] keeps_pure_bind last_part)
  then show ?thesis
    by (auto simp: keeps_def process_missing_pts_pes_def split: sum.splits)
qed

lemma keeps_process_pes: "keeps (process_pes_packet p)"
proof -
  have a: "keeps (st_bind (flush_preroll_before_title_pts t) (\<lambda>outcome.
      if outcome = Stop then (\<lambda>x. (Inr Stop, mark_packet_consumed p x)) else process_at p pl t))" for t pl
    by (intro keeps_bind[OF keeps_flush] keeps_choice keeps_process_at)
      (simp add: keeps_def mark_packet_consumed_def)
  show ?thesis
    using a keeps_missing keeps_process_at
    by (auto simp: keeps_def process_pes_packet_def mark_packet_consumed_def Let_def
        split: sum.splits option.splits prod.splits)
qed

subsection \<open>A whole title is extracted without loss\<close>

definition whole_title :: "extraction_config \<Rightarrow> bool" where
  "whole_title cfg \<longleftrightarrow> chapter_start cfg = 0 \<and> chapter_end cfg = None"

text \<open>The extractor in the middle of such a title.\<close>

definition streaming :: "extraction_config \<Rightarrow> lpcm_header \<Rightarrow> u8 list \<Rightarrow> extractor \<Rightarrow> bool" where
  "streaming cfg h sofar x \<longleftrightarrow> extractor_wf x \<and> config x = cfg \<and> mapper x = identity_continuous \<and>
     pending (preroll x) = [] \<and> (header x = None \<or> header x = Some h) \<and>
     written x = converted h sofar \<and> data_bytes_written x = length (written x)"

lemma prepare_eq:
  assumes "extractor_wf x" and "header x = None \<or> header x = Some h" and "header_wf h"
    and "validate_lpcm_header_against_expectations (config x) h = Inr ()"
  shows "prepare_format_from_header h x = (Inr (format_of h),
    x\<lparr> header := Some h, channel_map := Some (map_of_header h), format := Some (format_of h) \<rparr>)"
proof (cases "header x")
  case None
  then show ?thesis
    using assms(4) channel_map_eq[OF assms(3)] format_new[OF assms(3)]
    by (simp add: prepare_format_from_header_def map_of_header_def)
next
  case (Some h')
  then have "h' = h" "format x = Some (format_of h)" "channel_map x = Some (map_of_header h)"
    using assms(1,2) by (auto simp: extractor_wf_def)
  then show ?thesis using Some by (cases x) (simp add: prepare_format_from_header_def)
qed

lemma streaming_prepared:
  assumes "streaming cfg h sofar x" and "header_wf h"
  shows "streaming cfg h sofar
    (x\<lparr> header := Some h, channel_map := Some (map_of_header h), format := Some (format_of h) \<rparr>)"
  using assms by (auto simp: streaming_def extractor_wf_def split: option.splits)

lemma converted_length_le:
  assumes "header_wf h"
  shows "length (converted h pcm) \<le> length pcm"
proof -
  have "channels h * header_bps h \<le> frame_size h"
    by (simp add: frame_size_def coded_channels_def align_to_even_def)
  then have "length pcm div frame_size h * (channels h * header_bps h)
      \<le> length pcm div frame_size h * frame_size h" by (rule mult_le_mono2)
  also have "\<dots> \<le> length pcm" by (rule div_times_less_eq_dividend)
  finally show ?thesis using length_converted[OF assms] by simp
qed

lemma process_streaming:
  assumes x: "streaming cfg h sofar x" "header x = Some h" and h: "header_wf h"
    and cfg: "whole_title cfg"
    and pcm: "length pcm mod frame_size h = 0" "length sofar + length pcm < 2 ^ 64"
      "length sofar mod frame_size h = 0"
  shows "\<exists>x' n. process_prepared pcm t (format_of h) x = (Inr (Continue, n), x') \<and>
    streaming cfg h (sofar @ pcm) x' \<and> header x' = Some h"
proof -
  let ?n = "length pcm div frame_size h"
  have wf: "extractor_wf x" and c: "config x = cfg" using x(1) by (simp_all add: streaming_def)
  have full: "samples_between h 0 ?n pcm = pcm"
    using pcm(1) by (simp add: samples_between_def) (metis mod_0_imp_dvd dvd_div_mult_self le_refl take_all)
  have tr: "trim_range cfg (f_sample_rate (format_of h)) ?n t = Inr (0, ?n)"
    using cfg by (simp add: trim_range_def whole_title_def)
  have conv: "converted h (sofar @ pcm) = converted h sofar @ converted h pcm"
    by (rule converted_append[OF h pcm(3)])
  have nl: "length pcm = ?n * frame_size h" using pcm(1) by (simp add: mod_0_imp_dvd)
  show ?thesis
  proof (cases "?n = 0")
    case True
    then have "pcm = []" using nl by simp
    then have "process_prepared pcm t (format_of h) x = (Inr (Continue, 0), x)"
      using timing_eq[OF x(2) h, of pcm] by (simp add: process_prepared_def)
    then show ?thesis using x \<open>pcm = []\<close> by auto
  next
    case False
    obtain r x' where w: "write_trimmed pcm (format_of h) (frame_size h) 0 ?n x = (r, x')"
      by (cases "write_trimmed pcm (format_of h) (frame_size h) 0 ?n x")
    have small: "length (converted h sofar) + length (converted h pcm) < 2 ^ 64"
      using converted_length_le[OF h, of sofar] converted_length_le[OF h, of pcm] pcm(2) by linarith
    have "data_bytes_written x = length (converted h sofar)" using x(1) by (simp add: streaming_def)
    then have fits: "\<not> 2 ^ 64 \<le> data_bytes_written x + length (converted h pcm)"
      using small by linarith
    have "?n * frame_size h < 2 ^ 64" using nl pcm(2) by linarith
    then have inside: "\<not> (2 ^ 64 \<le> n * frame_size h \<and> (n = 0 \<or> n = ?n))" for n
      by (cases "n = 0") auto
    have "r = Inr () \<and> x' = x\<lparr> written := written x @ converted h pcm,
        data_bytes_written := data_bytes_written x + length (converted h pcm),
        accepted_pes_packets := saturating_inc (accepted_pes_packets x) \<rparr>"
      using write_trimmed_cases[OF wf x(2) order_refl w, unfolded full] fits inside by blast
    moreover have "extractor_wf x' \<and> header x' = Some h"
      using write_trimmed_wf[OF wf x(2) order_refl w] by simp
    ultimately have r: "r = Inr ()" "streaming cfg h (sofar @ pcm) x'" "header x' = Some h"
      using x(1) conv by (auto simp: streaming_def)
    have "process_prepared pcm t (format_of h) x = (Inr (Continue, ?n), x')"
      using timing_eq[OF x(2) h, of pcm] pcm(1) False tr w r(1) c cfg
      by (simp add: process_prepared_def whole_title_def st_bind_def)
    then show ?thesis using r by auto
  qed
qed



lemma extract_whole:
  assumes "streaming cfg h sofar x" and h: "header_wf h" and cfg: "whole_title cfg"
    and exp: "validate_lpcm_header_against_expectations cfg h = Inr ()"
    and ps: "list_all2 (\<lambda>p pcm. \<exists>t hdr. parse_pes (payload p) = Inr \<lparr> pts_90k = Some t, pes_payload = hdr @ pcm \<rparr> \<and>
      length hdr = 4 \<and> parse_lpcm_payload_header (hdr @ pcm) = Inr h \<and> length pcm mod frame_size h = 0) ps pcms"
    and "length sofar mod frame_size h = 0" and "length sofar + length (concat pcms) < 2 ^ 64"
  shows "\<exists>x'. extract_all ps x = (Inr Continue, x') \<and> streaming cfg h (sofar @ concat pcms) x'"
  using ps assms(1,6,7)
proof (induction ps pcms arbitrary: sofar x rule: list_all2_induct)
  case Nil
  then show ?case by simp
next
  case (Cons p ps pcm pcms)
  from Cons.hyps(1) obtain t hdr where p: "parse_pes (payload p) = Inr \<lparr> pts_90k = Some t, pes_payload = hdr @ pcm \<rparr>"
      "length hdr = 4" "parse_lpcm_payload_header (hdr @ pcm) = Inr h" "length pcm mod frame_size h = 0"
    by (elim exE conjE) (rule that)
  let ?p = "\<lambda>x. x\<lparr> header := Some h, channel_map := Some (map_of_header h), format := Some (format_of h) \<rparr>"
  have s: "streaming cfg h sofar x" by (rule Cons.prems(1))
  have wf: "extractor_wf x" and hx: "header x = None \<or> header x = Some h" and c: "config x = cfg"
    using s by (simp_all add: streaming_def)
  have exp': "validate_lpcm_header_against_expectations (config x) h = Inr ()" using exp c by simp
  have px: "streaming cfg h sofar (?p x)" by (rule streaming_prepared[OF s h])
  have peek: "peek_or_create_wav_format (payload p) x = (Inr (format_of h), ?p x)"
  proof (cases "format x")
    case None
    then show ?thesis
      using p(1,3) prepare_eq[OF wf hx h exp'] by (simp add: peek_or_create_wav_format_def st_bind_pure)
  next
    case (Some f)
    then have "header x = Some h" using wf hx by (auto simp: extractor_wf_def)
    then have "format x = Some (format_of h)" "channel_map x = Some (map_of_header h)"
      using wf by (auto simp: extractor_wf_def)
    then have "?p x = x" using \<open>header x = Some h\<close> by (cases x) simp
    then show ?thesis using \<open>format x = Some (format_of h)\<close> by (simp add: peek_or_create_wav_format_def)
  qed
  let ?y = "?p x"
  have y: "extractor_wf ?y" "header ?y = Some h" "config ?y = cfg" "mapper ?y = identity_continuous"
      "pending (preroll ?y) = []"
    using px by (simp_all add: streaming_def)
  have len: "length sofar + length pcm < 2 ^ 64" using Cons.prems(3) by simp
  obtain z n where z: "process_prepared pcm (unat t) (format_of h) ?y = (Inr (Continue, n), z)"
      "streaming cfg h (sofar @ pcm) z" "header z = Some h"
    using process_streaming[OF px y(2) h cfg p(4) len Cons.prems(2), of "unat t"] by blast
  have again: "?p ?y = ?y" by simp
  have expy: "validate_lpcm_header_against_expectations (config ?y) h = Inr ()" using exp y(3) by simp
  have prep: "prepare_format_from_header h ?y = (Inr (format_of h), ?y)"
    using prepare_eq[OF y(1) _ h expy] y(2) unfolding again by simp
  have drop4: "drop 4 (hdr @ pcm) = pcm" using p(2) by simp
  have lp: "process_lpcm_payload_at_title_pts (hdr @ pcm) (unat t) ?y = (Inr (Continue, n), z)"
    unfolding process_lpcm_payload_at_title_pts_def p(3) st_bind_pure drop4
    using prep z(1) by (simp add: st_bind_def)
  have map: "map_pes_pts_to_title_pts (unat t) identity_continuous = (Some (unat t), identity_continuous)"
    by (simp add: map_pes_pts_to_title_pts_def identity_continuous_def)
  have same: "?y\<lparr> mapper := identity_continuous \<rparr> = ?y" using y(4) by (cases x) simp
  let ?z = "mark_packet_consumed p (record_timestamped_pes (unat t) n z)"
  have proc: "process_pes_packet p ?y = (Inr Continue, ?z)"
  proof -
    have "process_pes_packet p ?y = process_at p (hdr @ pcm) (unat t) ?y"
      unfolding process_pes_packet_def p(1) sum.case parsed_pes.simps option.case y(4) map prod.case Let_def same
      using y(5) by simp
    then show ?thesis using lp by (simp add: process_at_def st_bind_def)
  qed
  have zs: "streaming cfg h (sofar @ pcm) ?z"
    using z(2,3) wf_updates(4)[of z "unat t" n]
    by (auto simp: streaming_def mark_packet_consumed_def record_timestamped_pes_def extractor_wf_def)
  have "length (sofar @ pcm) mod frame_size h = 0"
    using Cons.prems(2) p(4) by (simp add: mod_add_eq[symmetric, of "length sofar"])
  moreover have "length (sofar @ pcm) + length (concat pcms) < 2 ^ 64" using Cons.prems(3) by simp
  ultimately have "\<exists>x'. extract_all ps ?z = (Inr Continue, x') \<and>
      streaming cfg h ((sofar @ pcm) @ concat pcms) x'"
    by (rule Cons.IH[OF zs])
  then obtain x' where "extract_all ps ?z = (Inr Continue, x')"
      "streaming cfg h ((sofar @ pcm) @ concat pcms) x'"
    by (elim exE conjE) (rule that)
  moreover have "extract_all (p # ps) x = extract_all ps ?z"
    using peek proc by (simp add: st_bind_def)
  ultimately show ?case by auto
qed



lemma title_extracted:
  assumes "list_all2 (\<lambda>g pcm. \<exists>t hdr. parse_pes (frame_bytes g) = Inr \<lparr> pts_90k = Some t, pes_payload = hdr @ pcm \<rparr> \<and>
      length hdr = 4 \<and> parse_lpcm_payload_header (hdr @ pcm) = Inr h \<and>
      length pcm mod frame_size h = 0) frames pcms"
    and "whole_title cfg" and "validate_lpcm_header_against_expectations cfg h = Inr ()"
    and "header_wf h" and "length (concat pcms) < 2 ^ 64"
  shows "\<exists>x. extract_all (map packet_of frames) (extractor_new cfg identity_continuous) = (Inr Continue, x) \<and>
    streaming cfg h (concat pcms) x"
proof -
  have e: "converted h [] = []"
    using frame_size_pos[OF assms(4)] by (simp add: converted_def chunks_exact.simps)
  have s: "streaming cfg h [] (extractor_new cfg identity_continuous)"
    using wf_new[of cfg identity_continuous] e
    by (simp add: streaming_def extractor_new_def default_lpcm_def preroll_new_def)
  have l: "list_all2 (\<lambda>p pcm. \<exists>t hdr. parse_pes (payload p) = Inr \<lparr> pts_90k = Some t, pes_payload = hdr @ pcm \<rparr> \<and>
      length hdr = 4 \<and> parse_lpcm_payload_header (hdr @ pcm) = Inr h \<and>
      length pcm mod frame_size h = 0) (map packet_of frames) pcms"
    using assms(1) by (simp add: list_all2_map1 packet_of_def)
  have "\<exists>x'. extract_all (map packet_of frames) (extractor_new cfg identity_continuous) = (Inr Continue, x') \<and>
      streaming cfg h ([] @ concat pcms) x'"
    by (rule extract_whole[OF s assms(4,2,3) l]) (use assms(5) in simp_all)
  then show ?thesis by simp
qed

text \<open>Extracting a whole title loses nothing. When a transport stream carries, in any packet
  layout that \<open>demux_complete\<close> admits, a sequence of time-stamped PES packets whose payloads are a
  four-byte LPCM header (the same format each time, one the configuration expects) and whole audio
  frames, the extractor runs to the end without an error, and what it has written is exactly the
  conversion of all the audio bytes, in order: per frame and channel of the WAV order the sample of
  the disc channel with the same speaker, byte order reversed, and no padding channel.\<close>

theorem whole_title_lossless:
  assumes "\<forall>p \<in> set ps. readable pid p" and "accepted pid None ps = concat frames"
    and "\<forall>g \<in> set frames. complete_frame pid g" and "in_sequence (concat frames)"
    and "list_all2 (\<lambda>g pcm. \<exists>t hdr. parse_pes (frame_bytes g) = Inr \<lparr> pts_90k = Some t, pes_payload = hdr @ pcm \<rparr> \<and>
      length hdr = 4 \<and> parse_lpcm_payload_header (hdr @ pcm) = Inr h \<and>
      length pcm mod frame_size h = 0) frames pcms"
    and "whole_title cfg" and "validate_lpcm_header_against_expectations cfg h = Inr ()"
    and "header_wf h" and "length (concat pcms) < 2 ^ 64"
  shows "\<exists>x. extract_stream pid ps (extractor_new cfg identity_continuous) = (Inr Continue, x) \<and>
    written x = converted h (concat pcms) \<and> data_bytes_written x = length (written x)"
proof -
  obtain d where "demux_stream pid ps = (map packet_of frames, None, d)"
    using demux_deliver[OF assms(1-4)] by blast
  moreover obtain x where "extract_all (map packet_of frames) (extractor_new cfg identity_continuous) = (Inr Continue, x)"
      "streaming cfg h (concat pcms) x"
    using title_extracted[OF assms(5-9)] by blast
  ultimately show ?thesis by (auto simp: extract_stream_def st_bind_def pure_call_def streaming_def)
qed

definition title_pes :: "64 word \<Rightarrow> u8 list \<Rightarrow> u8 list" where
  "title_pes t pcm = build_pes 0xBD (12 + length pcm) t [] ([0, 0, 0x31, 0x40] @ pcm)"

definition title_stream :: "u8 list list" where
  "title_stream = [sample_packet 0x40 3 (title_pes 0 [1, 2, 3, 4]),
     sample_packet 0x40 4 (take 9 (title_pes 2 [5, 6, 7, 8])),
     sample_packet 0 5 (drop 9 (title_pes 2 [5, 6, 7, 8]))]"

definition title_frames :: "transport_unit list list" where
  "title_frames =
     [[\<lparr> u_start = True, u_counter = 3, u_bytes = title_pes 0 [1, 2, 3, 4] \<rparr>],
      [\<lparr> u_start = True, u_counter = 4, u_bytes = take 9 (title_pes 2 [5, 6, 7, 8]) \<rparr>,
       \<lparr> u_start = False, u_counter = 5, u_bytes = drop 9 (title_pes 2 [5, 6, 7, 8]) \<rparr>]]"

definition title_header :: lpcm_header where
  "title_header = \<lparr> audio_presentation_type = 3, sample_rate_code = 1, bits_per_sample_code = 1, channel_assignment = 3,
     sample_rate = 48000, container_bits = 16, valid_bits = 16, channels = 2,
     wav_channel_mask = Some 3, bd_channel_order = [FrontLeft, FrontRight],
     wav_channel_order = [FrontLeft, FrontRight] \<rparr>"

definition title_config :: extraction_config where
  "title_config = \<lparr> chapter_start = 0, chapter_end = None, expected_sample_rate = Some 48000,
     expected_bit_depth = Some 16, expected_channels = Some 2 \<rparr>"

lemma title_stream_facts:
  "list_all (readable 0x1100) title_stream"
  "accepted 0x1100 None title_stream = concat title_frames"
  "list_all (complete_frame 0x1100) title_frames" "in_sequence (concat title_frames)"
  by code_simp+

lemma title_pes_facts:
  "parse_lpcm_pes_packet (title_pes 0 [1, 2, 3, 4])
    = Inr \<lparr> pts_90k = Some 0, pes_payload = [0, 0, 0x31, 0x40, 1, 2, 3, 4] \<rparr>"
  "parse_lpcm_pes_packet (title_pes 2 [5, 6, 7, 8])
    = Inr \<lparr> pts_90k = Some 2, pes_payload = [0, 0, 0x31, 0x40, 5, 6, 7, 8] \<rparr>"
  by code_simp+

lemma title_header_facts:
  "parse_lpcm_payload_header (0 # 0 # 0x31 # 0x40 # pcm) = Inr title_header"
  "header_wf title_header" "frame_size title_header = 4"
  "validate_lpcm_header_against_expectations title_config title_header = Inr ()"
  "whole_title title_config"
  "converted title_header [1, 2, 3, 4, 5, 6, 7, 8] = [2, 1, 4, 3, 6, 5, 8, 7]"
proof -
  show "parse_lpcm_payload_header (0 # 0 # 0x31 # 0x40 # pcm) = Inr title_header"
    by (simp add: parse_lpcm_payload_header_def parse_bluray_lpcm_header_def title_header_def
        bit_depths_def sample_rates_def channel_table_def)
  show "header_wf title_header" by (auto simp: header_wf_def title_header_def)
  show fs: "frame_size title_header = 4"
    by (simp add: frame_size_def coded_channels_def align_to_even_def title_header_def header_bps_def)
  show "validate_lpcm_header_against_expectations title_config title_header = Inr ()"
    by (simp add: validate_lpcm_header_against_expectations_def expect_def title_config_def title_header_def)
  show "whole_title title_config" by (simp add: whole_title_def title_config_def)
  show "converted title_header [1, 2, 3, 4, 5, 6, 7, 8] = [2, 1, 4, 3, 6, 5, 8, 7]"
    unfolding converted_def fs
    by (simp add: chunks_exact.simps channel_sample_def title_header_def header_bps_def
        position_def upt_rec)
qed

lemma title_frames_audio:
  "list_all2 (\<lambda>g pcm. \<exists>t hdr. parse_pes (frame_bytes g) = Inr \<lparr> pts_90k = Some t, pes_payload = hdr @ pcm \<rparr> \<and>
    length hdr = 4 \<and> parse_lpcm_payload_header (hdr @ pcm) = Inr title_header \<and>
    length pcm mod frame_size title_header = 0) title_frames [[1, 2, 3, 4], [5, 6, 7, 8]]"
  using title_pes_facts title_header_facts(1,3)
  by (auto simp: title_frames_def parse_pes_def intro!: exI[of _ "[0, 0, 0x31, 0x40]"])

theorem whole_title_lossless_witness:
  "\<exists>x. extract_stream 0x1100 title_stream (extractor_new title_config identity_continuous) = (Inr Continue, x) \<and>
    written x = [2, 1, 4, 3, 6, 5, 8, 7]"
  using whole_title_lossless[OF _ title_stream_facts(2) _ title_stream_facts(4) title_frames_audio
      title_header_facts(5,4,2)] title_stream_facts(1,3) title_header_facts(6) by (auto simp: list_all_iff)

text \<open>The two packets of the title and then a packet that breaks off in its header.\<close>

lemma extract_append:
  "extract_all ps x = (Inr Continue, x') \<Longrightarrow> extract_all (ps @ qs) x = extract_all qs x'"
proof (induction ps arbitrary: x)
  case (Cons p ps)
  from Cons.prems show ?case
    using Cons.IH by (auto simp: st_bind_def pure_call_def split: prod.splits sum.splits if_splits)
qed simp

definition cut_packet :: SelectedPesPacket where
  "cut_packet = \<lparr> payload = [0, 0, 1], continuity_start = 6, continuity_end = 6 \<rparr>"

lemma extract_cut: "\<exists>e. extract_all [cut_packet] x = (Inl (TsError e), x)"
proof -
  obtain e where "parse_lpcm_pes_packet (payload cut_packet) = Inl e"
    by (simp add: parse_lpcm_pes_packet_def cut_packet_def)
  then show ?thesis
    by (cases "format x") (simp_all add: peek_or_create_wav_format_def process_pes_packet_def parse_pes_def
        st_bind_def pure_call_def)
qed

theorem extraction_stays_consistent_witness:
  "\<exists>e x. extract_all (map packet_of title_frames @ [cut_packet]) (extractor_new title_config identity_continuous)
      = (Inl (TsError e), x)
    \<and> written x = [2, 1, 4, 3, 6, 5, 8, 7] \<and> data_bytes_written x = 8
    \<and> byte_len (preroll x) = sum_list (map (\<lambda>p. length (payload p)) (pending (preroll x)))
    \<and> (header x = None \<longleftrightarrow> format x = None)"
proof -
  have "length (concat [[1, 2, 3, 4], [5, 6, 7, 8 :: u8]]) < 2 ^ 64" by simp
  then obtain x where x: "extract_all (map packet_of title_frames) (extractor_new title_config identity_continuous) = (Inr Continue, x)"
    and s: "streaming title_config title_header (concat [[1, 2, 3, 4], [5, 6, 7, 8]]) x"
    using title_extracted[OF title_frames_audio title_header_facts(5,4,2)] by blast
  obtain e where e: "extract_all [cut_packet] x = (Inl (TsError e), x)" using extract_cut by blast
  have run: "extract_all (map packet_of title_frames @ [cut_packet]) (extractor_new title_config identity_continuous)
      = (Inl (TsError e), x)"
    using extract_append[OF x] e by simp
  have w: "written x = [2, 1, 4, 3, 6, 5, 8, 7]" using s title_header_facts(6) by (simp add: streaming_def)
  show ?thesis using run extraction_stays_consistent[OF run] w by (intro exI[of _ e] exI[of _ x]) simp
qed



end
