(* ===== verification/BlurayRealize.thy ===== *)
theory BlurayRealize
  imports BlurayWav BlurayExtract
begin

text \<open>
  The realisation of a Blu-ray track, \<open>src/convert/pipeline/bluray_realize.rs\<close>: the detection of the
  packet format, the loop that reads the title, cuts packets from its buffer and finds the cadence
  again after a loss, the hand-over of PES packets to the extractor, the WAV header before the first
  of them, and the checks before the file is published.

  The title source is the list of what its reads return: bytes, or an error; no bytes, as after the
  last read, mean its end. The cancellation token is a predicate on the number of the poll, so that
  the polls in the loops are kept. The output file is the header (\<open>head\<close>) followed by the audio the
  extractor has written; a result \<open>Inr file\<close> is the published file, any error publishes nothing. Opening the
  disc, seeking to the chapter and building the time line, the temporary name and the atomic rename
  are outside the model, as is the failure of the operating system to write.
\<close>

subsection \<open>State\<close>

datatype realize_error =
    Cancelled
  | ReadFailed
  | NoPacketSync
  | Demux ts_error
  | Extract lpcm_error
  | Wav wav_error
  | EndedUndetected nat
  | TrailingBytes nat nat
  | EndedAfterSyncLoss nat nat
  | NoPesPayload u16
  | TrailingPcm nat
  | NoAudioPayload u16
  | FormatNotInitialized
  | ChannelCountTooLarge nat
  | ValidationFailed wav_error

datatype read_result = ReadError | Bytes "u8 list"

abbreviation BLURAY_READ_PACKET_COUNT :: nat where "BLURAY_READ_PACKET_COUNT \<equiv> 2048"
abbreviation TS_FORMAT_DETECTION_CONFIRMATION_PACKETS :: nat where
  "TS_FORMAT_DETECTION_CONFIRMATION_PACKETS \<equiv> 4"

definition TS_FORMAT_DETECTION_MIN_BYTES :: nat where
  "TS_FORMAT_DETECTION_MIN_BYTES =
     M2TS_TP_EXTRA_SIZE + (TS_FORMAT_DETECTION_CONFIRMATION_PACKETS - 1) * M2TS_PACKET_SIZE + 1"

record run =
  packet_demuxer :: demuxer
  lpcm :: extractor
  head :: "u8 list"
  header_written :: bool

text \<open>The packets since the last poll of the token and the number of polls so far.\<close>

type_synonym polls = "nat \<times> nat"

type_synonym 'a run_call = "run \<Rightarrow> (realize_error + 'a) \<times> run"

subsection \<open>The packet format\<close>

definition sync_confirmation_bytes_required :: "TsPacketFormat \<Rightarrow> nat \<Rightarrow> nat" where
  "sync_confirmation_bytes_required fmt n = sync_byte_offset fmt + (n - 1) * packet_size fmt + 1"

definition has_sync_cadence_at_start :: "u8 list \<Rightarrow> TsPacketFormat \<Rightarrow> nat \<Rightarrow> bool" where
  "has_sync_cadence_at_start buf fmt n \<longleftrightarrow>
     length buf \<ge> sync_confirmation_bytes_required fmt n \<and>
     list_all (\<lambda>i. buf ! (i * packet_size fmt + sync_byte_offset fmt) = 0x47) [0..<n]"

definition detect_ts_packet_format :: "u8 list \<Rightarrow> realize_error + TsPacketFormat" where
  "detect_ts_packet_format buf = (
     if has_sync_cadence_at_start buf M2ts TS_FORMAT_DETECTION_CONFIRMATION_PACKETS then Inr M2ts
     else if has_sync_cadence_at_start buf StandardTs TS_FORMAT_DETECTION_CONFIRMATION_PACKETS then Inr StandardTs
     else if find_next_ts_sync_at_cadence_with_format buf M2ts \<noteq> None then Inr M2ts
     else if find_next_ts_sync_at_cadence_with_format buf StandardTs \<noteq> None then Inr StandardTs
     else Inl NoPacketSync)"

definition eof_buffer_is_compatible_with_format :: "u8 list \<Rightarrow> TsPacketFormat \<Rightarrow> bool" where
  "eof_buffer_is_compatible_with_format buf fmt \<longleftrightarrow>
     \<not> (buf = [] \<or> length buf mod packet_size fmt \<noteq> 0) \<and>
     list_all (\<lambda>i. buf ! (i * packet_size fmt + sync_byte_offset fmt) = 0x47)
       [0..<length buf div packet_size fmt]"

definition detect_ts_packet_format_at_eof :: "u8 list \<Rightarrow> realize_error + TsPacketFormat" where
  "detect_ts_packet_format_at_eof buf = (case detect_ts_packet_format buf of
     Inr fmt \<Rightarrow> Inr fmt
   | Inl _ \<Rightarrow>
       if eof_buffer_is_compatible_with_format buf M2ts then Inr M2ts
       else if eof_buffer_is_compatible_with_format buf StandardTs then Inr StandardTs
       else Inl NoPacketSync)"

definition ts_resync_retention_bytes :: "TsPacketFormat \<Rightarrow> nat" where
  "ts_resync_retention_bytes fmt =
     packet_size fmt * (TS_RESYNC_CONFIRMATION_PACKETS - 1) + sync_byte_offset fmt + 1"

subsection \<open>From a packet to the file\<close>

definition call_demux :: "'a demux_call \<Rightarrow> 'a run_call" where
  "call_demux m r = (case m (packet_demuxer r) of (v, d) \<Rightarrow>
     (case v of Inl e \<Rightarrow> Inl (Demux e) | Inr a \<Rightarrow> Inr a, r\<lparr> packet_demuxer := d \<rparr>))"

definition call_lpcm :: "'a lpcm_call \<Rightarrow> 'a run_call" where
  "call_lpcm m r = (case m (lpcm r) of (v, x) \<Rightarrow>
     (case v of Inl e \<Rightarrow> Inl (Extract e) | Inr a \<Rightarrow> Inr a, r\<lparr> lpcm := x \<rparr>))"

text \<open>The header goes out before the first PES packet, with size 0.\<close>

definition begin_output :: "SelectedPesPacket \<Rightarrow> unit run_call" where
  "begin_output p r = (
     if header_written r then (Inr (), r)
     else st_bind (call_lpcm (peek_or_create_wav_format (payload p))) (\<lambda>f r.
       case write_wav_header f 0 of
         (Inl e, bs) \<Rightarrow> (Inl (Wav e), r\<lparr> head := bs \<rparr>)
       | (Inr _, bs) \<Rightarrow> (Inr (), r\<lparr> head := bs, header_written := True \<rparr>)) r)"

definition deliver :: "SelectedPesPacket \<Rightarrow> PesProcessingOutcome run_call" where
  "deliver p = st_bind (begin_output p) (\<lambda>_. call_lpcm (process_pes_packet p))"

definition take_ts_packet :: "u8 list \<Rightarrow> PesProcessingOutcome run_call" where
  "take_ts_packet p = st_bind (call_demux (push_ts_packet p)) (\<lambda>q.
     case q of None \<Rightarrow> (\<lambda>r. (Inr Continue, r)) | Some pes \<Rightarrow> deliver pes)"

subsection \<open>The packets in the buffer\<close>

definition count_packet :: "(nat \<Rightarrow> bool) \<Rightarrow> polls \<Rightarrow> bool \<times> polls" where
  "count_packet cancelled n = (case n of (since, checks) \<Rightarrow>
     if since + 1 \<ge> BLURAY_READ_PACKET_COUNT then (cancelled checks, 0, checks + 1)
     else (False, since + 1, checks))"

text \<open>\<open>None\<close> is the end of the chapter, \<open>Some n\<close> the number of bytes to drain from the buffer.\<close>

function packet_loop ::
  "(nat \<Rightarrow> bool) \<Rightarrow> u8 list \<Rightarrow> TsPacketFormat \<Rightarrow> nat \<Rightarrow> polls \<Rightarrow> run \<Rightarrow> (realize_error + nat option) \<times> polls \<times> run" where
  "packet_loop cancelled buf fmt offset n r = (
     if length buf - offset < packet_size fmt then (Inr (Some offset), n, r)
     else if buf ! (offset + sync_byte_offset fmt) \<noteq> 0x47 then
       (case find_next_ts_sync_at_cadence_with_format (drop (offset + 1) buf) fmt of
          None \<Rightarrow>
            let retain = ts_resync_retention_bytes fmt; available = length buf - offset in
            (Inr (Some (if available > retain then length buf - retain else offset)), n, r)
        | Some sync_offset \<Rightarrow> packet_loop cancelled buf fmt (offset + (sync_offset + 1)) n r)
     else (case take_ts_packet (take TS_PACKET_SIZE (drop (offset + sync_byte_offset fmt) buf)) r of
          (Inl e, r') \<Rightarrow> (Inl e, n, r')
        | (Inr Stop, r') \<Rightarrow> (Inr None, n, r'\<lparr> packet_demuxer := discard_current (packet_demuxer r') \<rparr>)
        | (Inr Continue, r') \<Rightarrow>
            (case count_packet cancelled n of (stop, n') \<Rightarrow>
               if stop then (Inl Cancelled, n', r')
               else packet_loop cancelled buf fmt (offset + packet_size fmt) n' r')))"
  by pat_completeness auto
termination
proof (relation "measure (\<lambda>(c, buf, fmt, offset, n, r). length buf - offset)")
  have pos: "0 < packet_size fmt" for fmt by (cases fmt) simp_all
  fix buf :: "u8 list" and fmt :: TsPacketFormat and offset
  assume "\<not> length buf - offset < packet_size fmt"
  then have lt: "offset < length buf" using pos[of fmt] by linarith
  show "((c, buf, fmt, offset + (k + 1), n, r), c, buf, fmt, offset, n, r)
      \<in> measure (\<lambda>(c, buf, fmt, offset, n, r). length buf - offset)" for c :: "nat \<Rightarrow> bool" and k and n :: polls and r :: run
    using lt by simp
  show "((c, buf, fmt, offset + packet_size fmt, n', r'), c, buf, fmt, offset, n, r)
      \<in> measure (\<lambda>(c, buf, fmt, offset, n, r). length buf - offset)"
    for c :: "nat \<Rightarrow> bool" and n n' :: polls and r r' :: run
    using lt pos[of fmt] by simp
qed simp

declare packet_loop.simps [simp del]

subsection \<open>The read loop\<close>

datatype loop_end = ChapterEnded | StreamEnded "u8 list" "TsPacketFormat option"

definition packet_format ::
  "TsPacketFormat option \<Rightarrow> bool \<Rightarrow> u8 list \<Rightarrow> realize_error + TsPacketFormat option" where
  "packet_format detected reached_eof buf = (case detected of
     Some fmt \<Rightarrow> Inr (Some fmt)
   | None \<Rightarrow>
       if reached_eof then res_bind (detect_ts_packet_format_at_eof buf) (\<lambda>fmt. Inr (Some fmt))
       else if length buf < TS_FORMAT_DETECTION_MIN_BYTES then Inr None
       else res_bind (detect_ts_packet_format buf) (\<lambda>fmt. Inr (Some fmt)))"

text \<open>The turn of the loop after the end of the source is the last one.\<close>

definition last_turn ::
  "(nat \<Rightarrow> bool) \<Rightarrow> u8 list \<Rightarrow> TsPacketFormat option \<Rightarrow> polls \<Rightarrow> run \<Rightarrow> (realize_error + loop_end) \<times> run" where
  "last_turn cancelled buf detected n r = (
     if buf = [] then (Inr (StreamEnded [] detected), r)
     else case packet_format detected True buf of
       Inl e \<Rightarrow> (Inl e, r)
     | Inr None \<Rightarrow> (Inr (StreamEnded buf None), r)
     | Inr (Some fmt) \<Rightarrow>
         (case packet_loop cancelled buf fmt 0 n r of
            (Inl e, _, r') \<Rightarrow> (Inl e, r')
          | (Inr None, _, r') \<Rightarrow> (Inr ChapterEnded, r')
          | (Inr (Some offset), _, r') \<Rightarrow> (Inr (StreamEnded (drop offset buf) (Some fmt)), r')))"

fun title_read_loop ::
  "(nat \<Rightarrow> bool) \<Rightarrow> read_result list \<Rightarrow> u8 list \<Rightarrow> TsPacketFormat option \<Rightarrow> polls \<Rightarrow> run
    \<Rightarrow> (realize_error + loop_end) \<times> run" where
  "title_read_loop cancelled [] buf detected (since, checks) r =
     (if cancelled checks then (Inl Cancelled, r)
      else last_turn cancelled buf detected (since, checks + 1) r)"
| "title_read_loop cancelled (ReadError # reads) buf detected (since, checks) r =
     (if cancelled checks then (Inl Cancelled, r) else (Inl ReadFailed, r))"
| "title_read_loop cancelled (Bytes b # reads) buf detected (since, checks) r =
     (if cancelled checks then (Inl Cancelled, r)
      else if b = [] then last_turn cancelled buf detected (since, checks + 1) r
      else let buf = buf @ b; n = (since, checks + 1) in
        (case packet_format detected False buf of
           Inl e \<Rightarrow> (Inl e, r)
         | Inr None \<Rightarrow> title_read_loop cancelled reads buf None n r
         | Inr (Some fmt) \<Rightarrow>
             (case packet_loop cancelled buf fmt 0 n r of
                (Inl e, _, r') \<Rightarrow> (Inl e, r')
              | (Inr None, _, r') \<Rightarrow> (Inr ChapterEnded, r')
              | (Inr (Some offset), n', r') \<Rightarrow>
                  title_read_loop cancelled reads (drop offset buf) (Some fmt) n' r')))"

subsection \<open>The end\<close>

text \<open>\<open>pending_pcm\<close> of the extractor is created empty and never extended.\<close>

definition pending_pcm_len :: "extractor \<Rightarrow> nat" where
  "pending_pcm_len x = 0"

definition expected_audio :: "extractor \<Rightarrow> realize_error + ExpectedAudio" where
  "expected_audio x =
     res_bind (ok_or FormatNotInitialized (format x)) (\<lambda>f.
       if f_channels f \<ge> 256 then Inl (ChannelCountTooLarge (f_channels f))
       else Inr \<lparr> xa_sample_rate = f_sample_rate f, xa_channels = f_channels f,
         xa_container_bits = f_container_bits f, xa_valid_bits = f_valid_bits f,
         xa_channel_mask = f_channel_mask f,
         xa_duration = Option.bind (chapter_end (config x)) (\<lambda>e. checked_sub e (chapter_start (config x))) \<rparr>)"

definition finalize_bluray_lpcm_output :: "run \<Rightarrow> realize_error + u8 list" where
  "finalize_bluray_lpcm_output r = (
     let x = lpcm r; pid = dpid (packet_demuxer r) in
     if \<not> header_written r then Inl (NoPesPayload pid)
     else if pending_pcm_len x \<noteq> 0 then Inl (TrailingPcm (pending_pcm_len x))
     else if data_bytes_written x = 0 then Inl (NoAudioPayload pid)
     else res_bind (ok_or FormatNotInitialized (format x)) (\<lambda>f.
       case validate_reasonable_output_size x of
         Inl e \<Rightarrow> Inl (Extract e)
       | Inr _ \<Rightarrow>
           (case rewrite_wav_header f (data_bytes_written x) (head r @ written x) of
              (Inl e, _) \<Rightarrow> Inl (Wav e)
            | (Inr _, out) \<Rightarrow>
                res_bind (expected_audio x) (\<lambda>expected.
                  case validate_bluray_lpcm_wav out expected of
                    Inl e \<Rightarrow> Inl (ValidationFailed e)
                  | Inr _ \<Rightarrow> Inr out))))"

definition flush_demuxer :: "unit run_call" where
  "flush_demuxer = st_bind (call_demux finish) (\<lambda>q.
     case q of None \<Rightarrow> (\<lambda>r. (Inr (), r))
     | Some pes \<Rightarrow> st_bind (deliver pes) (\<lambda>_ r. (Inr (), r)))"

definition conclude_stream :: "u8 list \<Rightarrow> TsPacketFormat option \<Rightarrow> run \<Rightarrow> realize_error + u8 list" where
  "conclude_stream buf detected r = (
     if buf \<noteq> [] then
       (case detected of
          None \<Rightarrow> Inl (EndedUndetected (length buf))
        | Some fmt \<Rightarrow>
            if length buf < packet_size fmt then Inl (TrailingBytes (length buf) (packet_size fmt))
            else Inl (EndedAfterSyncLoss (length buf) (packet_size fmt)))
     else (case flush_demuxer r of
       (Inl e, _) \<Rightarrow> Inl e
     | (Inr _, r') \<Rightarrow> finalize_bluray_lpcm_output r'))"

definition run_new :: "u16 \<Rightarrow> extraction_config \<Rightarrow> pts_mapper \<Rightarrow> run" where
  "run_new pid cfg m = \<lparr> packet_demuxer = demuxer_new pid, lpcm = extractor_new cfg m,
     head = [], header_written = False \<rparr>"

definition realize ::
  "(nat \<Rightarrow> bool) \<Rightarrow> u16 \<Rightarrow> extraction_config \<Rightarrow> pts_mapper \<Rightarrow> read_result list \<Rightarrow> realize_error + u8 list" where
  "realize cancelled pid cfg m reads =
     (case title_read_loop cancelled reads [] None (0, 0) (run_new pid cfg m) of
        (Inl e, _) \<Rightarrow> Inl e
      | (Inr ChapterEnded, r) \<Rightarrow> finalize_bluray_lpcm_output r
      | (Inr (StreamEnded buf detected), r) \<Rightarrow> conclude_stream buf detected r)"

end
