(* ===== verification/BlurayRealizeTheorems.thy ===== *)
theory BlurayRealizeTheorems
  imports BlurayRealize
begin

text \<open>
  What the realisation of a track promises. \<open>reads_cut_anywhere\<close>: the read loop does not depend on how
  the reads cut the stream, it gives what handing over the packets one by one gives.
  \<open>published_file_sound\<close>: on any input, what is published is a WAV header and whole frames that match
  it. \<open>whole_title_published\<close>: a whole title arrives in the file without loss.
  \<open>resync_trusts_refuted_start\<close>: how a search that has found nothing is resumed after the next read.
\<close>

subsection \<open>A stream of whole packets\<close>

definition framed :: "TsPacketFormat \<Rightarrow> u8 list list \<Rightarrow> bool" where
  "framed fmt us \<longleftrightarrow> list_all (\<lambda>u. length u = packet_size fmt \<and> u ! sync_byte_offset fmt = 0x47) us"

definition ts_part :: "TsPacketFormat \<Rightarrow> u8 list \<Rightarrow> u8 list" where
  "ts_part fmt u = take TS_PACKET_SIZE (drop (sync_byte_offset fmt) u)"

fun deliver_all :: "u8 list list \<Rightarrow> PesProcessingOutcome run_call" where
  "deliver_all [] r = (Inr Continue, r)"
| "deliver_all (p # ps) r = st_bind (take_ts_packet p) (\<lambda>outcome r.
     if outcome = Stop
     then (Inr Stop, r\<lparr> packet_demuxer := discard_current (packet_demuxer r) \<rparr>)
     else deliver_all ps r) r"

definition realize_packets :: "u16 \<Rightarrow> extraction_config \<Rightarrow> pts_mapper \<Rightarrow> u8 list list \<Rightarrow> realize_error + u8 list" where
  "realize_packets pid cfg m ps = (case deliver_all ps (run_new pid cfg m) of
     (Inl e, r) \<Rightarrow> Inl e
   | (Inr Stop, r) \<Rightarrow> finalize_bluray_lpcm_output r
   | (Inr Continue, r) \<Rightarrow>
       (case flush_demuxer r of (Inl e, _) \<Rightarrow> Inl e | (Inr _, r') \<Rightarrow> finalize_bluray_lpcm_output r'))"

abbreviation never :: "nat \<Rightarrow> bool" where "never \<equiv> \<lambda>_. False"

lemma framed_simps [simp]:
  "framed fmt []"
  "framed fmt (u # us) \<longleftrightarrow> length u = packet_size fmt \<and> u ! sync_byte_offset fmt = 0x47 \<and> framed fmt us"
  "framed fmt (us @ vs) \<longleftrightarrow> framed fmt us \<and> framed fmt vs"
  by (simp_all add: framed_def)

lemma packet_size_bounds: "sync_byte_offset fmt + TS_PACKET_SIZE = packet_size fmt" "188 \<le> packet_size fmt" "packet_size fmt \<le> 192"
  by (cases fmt, simp_all)+

lemma length_concat_framed: "framed fmt us \<Longrightarrow> length (concat us) = packet_size fmt * length us"
  by (induction us) simp_all

lemma deliver_all_append:
  "deliver_all (ps @ qs) r = (case deliver_all ps r of
     (Inr Continue, r') \<Rightarrow> deliver_all qs r' | (v, r') \<Rightarrow> (v, r'))"
  by (induction ps arbitrary: r)
    (auto simp: st_bind_def split: prod.splits sum.splits PesProcessingOutcome.splits)

text \<open>The packet loop takes the whole packets of the buffer in order and leaves a shorter rest.\<close>

lemma packet_loop_framed:
  assumes "framed fmt us" and "length rest < packet_size fmt"
  shows "\<exists>n'. packet_loop never (pre @ concat us @ rest) fmt (length pre) n r =
    (case deliver_all (map (ts_part fmt) us) r of
       (Inl e, r') \<Rightarrow> (Inl e, n', r')
     | (Inr Stop, r') \<Rightarrow> (Inr None, n', r')
     | (Inr Continue, r') \<Rightarrow> (Inr (Some (length (pre @ concat us))), n', r'))"
  using assms(1)
proof (induction us arbitrary: pre n r)
  case Nil
  then show ?case using assms(2) by (subst packet_loop.simps) simp
next
  case (Cons u us)
  let ?buf = "pre @ concat (u # us) @ rest"
  have u: "length u = packet_size fmt" "u ! sync_byte_offset fmt = 0x47" "framed fmt us"
    using Cons.prems by simp_all
  have s: "sync_byte_offset fmt < length u" using u(1) packet_size_bounds(1)[of fmt] by linarith
  have big: "\<not> length ?buf - length pre < packet_size fmt" using u(1) by simp
  have sync: "?buf ! (length pre + sync_byte_offset fmt) = 0x47"
    using u(2) s by (simp add: nth_append)
  have part: "take TS_PACKET_SIZE (drop (length pre + sync_byte_offset fmt) ?buf) = ts_part fmt u"
    using u(1) packet_size_bounds(1)[of fmt] by (simp add: ts_part_def)
  obtain stop n1 where c: "count_packet never n = (stop, n1)" by (cases "count_packet never n")
  then have stop: "\<not> stop" by (auto simp: count_packet_def split: prod.splits if_splits)
  obtain v r1 where t: "take_ts_packet (ts_part fmt u) r = (v, r1)"
    by (cases "take_ts_packet (ts_part fmt u) r")
  obtain n2 where n2: "packet_loop never ((pre @ u) @ concat us @ rest) fmt (length (pre @ u)) n1 r1 =
    (case deliver_all (map (ts_part fmt) us) r1 of
       (Inl e, r') \<Rightarrow> (Inl e, n2, r')
     | (Inr Stop, r') \<Rightarrow> (Inr None, n2, r')
     | (Inr Continue, r') \<Rightarrow> (Inr (Some (length ((pre @ u) @ concat us))), n2, r'))"
    using Cons.IH[OF u(3)] by blast
  have len: "length ((pre @ u) @ concat us) = length (pre @ concat (u # us))" by simp
  have nxt: "packet_loop never ?buf fmt (length pre + packet_size fmt) n1 r1 =
    packet_loop never ((pre @ u) @ concat us @ rest) fmt (length (pre @ u)) n1 r1" using u(1) by simp
  have step: "packet_loop never ?buf fmt (length pre) n r = (case (v, r1) of
       (Inl e, r') \<Rightarrow> (Inl e, n, r')
     | (Inr Stop, r') \<Rightarrow> (Inr None, n, r'\<lparr> packet_demuxer := discard_current (packet_demuxer r') \<rparr>)
     | (Inr Continue, r') \<Rightarrow> packet_loop never ?buf fmt (length pre + packet_size fmt) n1 r')"
    by (subst packet_loop.simps)
      (simp only: big if_False sync not_True_eq_False part t c prod.case stop simp_thms)
  show ?case
  proof (cases v)
    case (Inl e)
    then show ?thesis using step t by (auto simp: st_bind_def)
  next
    case (Inr w)
    show ?thesis
    proof (cases w)
      case Continue
      then show ?thesis using step Inr t n2[unfolded len] nxt by (intro exI[of _ n2]) (simp add: st_bind_def)
    next
      case Stop
      then show ?thesis using step Inr t by (auto simp: st_bind_def)
    qed
  qed
qed


lemma cut_units:
  assumes "framed fmt us" and "concat us = a @ b"
  shows "\<exists>us1 us2 rest. us = us1 @ us2 \<and> a = concat us1 @ rest \<and> concat us2 = rest @ b \<and> length rest < packet_size fmt"
  using assms
proof (induction us arbitrary: a)
  case Nil
  then show ?case using packet_size_bounds(2)[of fmt] by (intro exI[of _ "[]"]) auto
next
  case (Cons u us)
  show ?case
  proof (cases "length a < packet_size fmt")
    case True
    then show ?thesis using Cons.prems(2) by (intro exI[of _ "[]"] exI[of _ "u # us"] exI[of _ a]) simp
  next
    case False
    then have "length u \<le> length a" using Cons.prems(1) by simp
    then obtain a' where a: "a = u @ a'" "concat us = a' @ b"
      using Cons.prems(2) by (auto simp: append_eq_append_conv2)
    then obtain us1 us2 rest where "us = us1 @ us2" "a' = concat us1 @ rest" "concat us2 = rest @ b"
        "length rest < packet_size fmt"
      using Cons.IH[of a'] Cons.prems(1) by auto
    then show ?thesis using a by (intro exI[of _ "u # us1"] exI[of _ us2] exI[of _ rest]) simp
  qed
qed

lemma sync_in_stream:
  assumes "framed fmt us" and "i < length us"
  shows "concat us ! (i * packet_size fmt + sync_byte_offset fmt) = 0x47"
  using assms
proof (induction us arbitrary: i)
  case Nil
  then show ?case by simp
next
  case (Cons u us)
  have s: "sync_byte_offset fmt < packet_size fmt" using packet_size_bounds(1)[of fmt] by linarith
  show ?case
  proof (cases i)
    case 0
    then show ?thesis using Cons.prems(1) s by (simp add: nth_append)
  next
    case (Suc j)
    then show ?thesis using Cons.IH[of j] Cons.prems by (simp add: nth_append add.assoc)
  qed
qed

lemma cadence_prefix:
  assumes "581 \<le> length buf"
  shows "has_sync_cadence_at_start (buf @ rest) fmt 4 = has_sync_cadence_at_start buf fmt 4"
proof -
  have "i * packet_size fmt + sync_byte_offset fmt < length buf" if "i < 4" for i
  proof -
    have "i \<le> 3" using that by simp
    then have "i * packet_size fmt + sync_byte_offset fmt \<le> 3 * packet_size fmt + sync_byte_offset fmt" by simp
    also have "\<dots> \<le> 580" by (cases fmt) simp_all
    finally show ?thesis using assms by linarith
  qed
  moreover have "sync_confirmation_bytes_required fmt 4 \<le> 581"
    by (cases fmt) (simp_all add: sync_confirmation_bytes_required_def)
  ultimately show ?thesis
    using assms by (auto simp: has_sync_cadence_at_start_def list_all_iff nth_append)
qed

text \<open>The stream is not taken for the other packet format: M2TS is tried first.\<close>

definition told_apart :: "TsPacketFormat \<Rightarrow> u8 list \<Rightarrow> bool" where
  "told_apart fmt bs \<longleftrightarrow> fmt = M2ts \<or> \<not> has_sync_cadence_at_start bs M2ts 4"

lemma detects:
  assumes "framed fmt us" and "4 \<le> length us" and "told_apart fmt (concat us)"
    and "concat us = buf @ rest" and "581 \<le> length buf"
  shows "detect_ts_packet_format buf = Inr fmt"
proof -
  have "has_sync_cadence_at_start (concat us) fmt 4"
  proof -
    have "4 * packet_size fmt \<le> length (concat us)"
      using length_concat_framed[OF assms(1)] assms(2) by (simp add: mult.commute)
    moreover have "sync_confirmation_bytes_required fmt 4 \<le> 4 * packet_size fmt"
      by (cases fmt) (simp_all add: sync_confirmation_bytes_required_def)
    ultimately show ?thesis
      using sync_in_stream[OF assms(1)] assms(2) by (simp add: has_sync_cadence_at_start_def list_all_iff)
  qed
  then show ?thesis
    using assms(3) cadence_prefix[OF assms(5), of rest] unfolding assms(4)
    by (cases fmt) (auto simp: detect_ts_packet_format_def told_apart_def)
qed

subsection \<open>The reads may be cut anywhere\<close>

definition loop_result :: "(realize_error + PesProcessingOutcome) \<times> run \<Rightarrow> TsPacketFormat \<Rightarrow> (realize_error + loop_end) \<times> run" where
  "loop_result v fmt = (case v of
     (Inl e, r) \<Rightarrow> (Inl e, r)
   | (Inr Stop, r) \<Rightarrow> (Inr ChapterEnded, r)
   | (Inr Continue, r) \<Rightarrow> (Inr (StreamEnded [] (Some fmt)), r))"

lemma one_turn:
  assumes "framed fmt us" and "concat us = buf @ concat bs"
    and goes_on: "\<And>us2 rest n' r1. framed fmt us2 \<Longrightarrow> length rest < packet_size fmt \<Longrightarrow> concat us2 = rest @ concat bs \<Longrightarrow>
      title_read_loop never (map Bytes bs) rest (Some fmt) n' r1 = loop_result (deliver_all (map (ts_part fmt) us2) r1) fmt"
  shows "(case packet_loop never buf fmt 0 n r of
       (Inl e, _, r') \<Rightarrow> (Inl e, r')
     | (Inr None, _, r') \<Rightarrow> (Inr ChapterEnded, r')
     | (Inr (Some offset), n', r') \<Rightarrow> title_read_loop never (map Bytes bs) (drop offset buf) (Some fmt) n' r')
    = loop_result (deliver_all (map (ts_part fmt) us) r) fmt"
proof -
  obtain us1 us2 rest where cut: "us = us1 @ us2" "buf = concat us1 @ rest"
      "concat us2 = rest @ concat bs" "length rest < packet_size fmt"
    using cut_units[OF assms(1,2)] by auto
  have fr: "framed fmt us1" "framed fmt us2" using assms(1) cut(1) by simp_all
  obtain n' where loop: "packet_loop never (concat us1 @ rest) fmt 0 n r =
    (case deliver_all (map (ts_part fmt) us1) r of
       (Inl e, r') \<Rightarrow> (Inl e, n', r')
     | (Inr Stop, r') \<Rightarrow> (Inr None, n', r')
     | (Inr Continue, r') \<Rightarrow> (Inr (Some (length (concat us1))), n', r'))"
    using packet_loop_framed[OF fr(1) cut(4), of "[]" n r, unfolded append_Nil list.size(3)] by blast
  obtain v r1 where d: "deliver_all (map (ts_part fmt) us1) r = (v, r1)"
    by (cases "deliver_all (map (ts_part fmt) us1) r")
  have whole: "deliver_all (map (ts_part fmt) us) r = (case (v, r1) of
     (Inr Continue, r') \<Rightarrow> deliver_all (map (ts_part fmt) us2) r' | (v, r') \<Rightarrow> (v, r'))"
    by (simp only: cut(1) map_append deliver_all_append d)
  show ?thesis
    unfolding whole cut(2)
    using loop d goes_on[OF fr(2) cut(4,3), of n' r1]
    by (auto simp: loop_result_def split: sum.splits PesProcessingOutcome.splits)
qed

lemma read_loop_detected:
  assumes "framed fmt us" and "\<forall>b \<in> set bs. b \<noteq> []" and "length buf < packet_size fmt"
    and "concat us = buf @ concat bs"
  shows "title_read_loop never (map Bytes bs) buf (Some fmt) n r
    = loop_result (deliver_all (map (ts_part fmt) us) r) fmt"
  using assms
proof (induction bs arbitrary: us buf n r)
  case Nil
  have "us = []"
  proof (cases us)
    case (Cons u us')
    then show ?thesis using Nil.prems by simp (metis add_leE length_append not_le le_add1)
  qed simp
  then show ?case using Nil.prems by (cases n) (simp add: last_turn_def loop_result_def)
next
  case (Cons b bs)
  obtain since checks where n: "n = (since, checks)" by (cases n)
  have b: "b \<noteq> []" and ne: "\<forall>b \<in> set bs. b \<noteq> []" using Cons.prems(2) by simp_all
  have cat: "concat us = (buf @ b) @ concat bs" using Cons.prems(4) by simp
  note turn = one_turn[OF Cons.prems(1) cat Cons.IH[OF _ ne], of "(since, checks + 1)" r]
  show ?case
    unfolding n list.map title_read_loop.simps if_False b[THEN eq_False[THEN iffD2]] packet_format_def Let_def
      option.case sum.case
      by (rule turn)
qed

lemma read_loop_undetected:
  assumes "framed fmt us" and "4 \<le> length us" and "told_apart fmt (concat us)"
    and "\<forall>b \<in> set bs. b \<noteq> []" and "length buf < 581" and "concat us = buf @ concat bs"
  shows "title_read_loop never (map Bytes bs) buf None n r
    = loop_result (deliver_all (map (ts_part fmt) us) r) fmt"
  using assms(4-6)
proof (induction bs arbitrary: buf n r)
  case Nil
  have "188 * 4 \<le> packet_size fmt * length us"
    using packet_size_bounds(2) assms(2) by (rule mult_le_mono)
  then show ?case using Nil.prems length_concat_framed[OF assms(1)] by simp
next
  case (Cons b bs)
  have b: "b \<noteq> []" and ne: "\<forall>b \<in> set bs. b \<noteq> []" using Cons.prems(1) by simp_all
  have cat: "concat us = (buf @ b) @ concat bs" using Cons.prems(3) by simp
  have mn: "TS_FORMAT_DETECTION_MIN_BYTES = 581" by (simp add: TS_FORMAT_DETECTION_MIN_BYTES_def)
  show ?case
  proof (cases "length (buf @ b) < 581")
    case True
    then show ?thesis
      using Cons.IH[OF ne True cat] b by (cases n) (simp add: packet_format_def mn)
  next
    case False
    then have det: "detect_ts_packet_format (buf @ b) = Inr fmt"
      using detects[OF assms(1-3) cat] by simp
    obtain since checks where n: "n = (since, checks)" by (cases n)
    note turn = one_turn[OF assms(1) cat read_loop_detected[OF _ ne], of "(since, checks + 1)" r]
    show ?thesis
      unfolding n list.map title_read_loop.simps if_False b[THEN eq_False[THEN iffD2]] packet_format_def Let_def
        option.case mn False[THEN eq_False[THEN iffD2]] det res_bind_Inr sum.case
      by (rule turn)
  qed
qed

lemma cut_anywhere:
  assumes "framed fmt us" and "4 \<le> length us" and "told_apart fmt (concat us)"
    and "concat bs = concat us" and "\<forall>b \<in> set bs. b \<noteq> []"
  shows "realize (\<lambda>_. False) pid cfg m (map Bytes bs) = realize_packets pid cfg m (map (ts_part fmt) us)"
proof -
  have "title_read_loop never (map Bytes bs) [] None (0, 0) (run_new pid cfg m)
      = loop_result (deliver_all (map (ts_part fmt) us) (run_new pid cfg m)) fmt"
    by (rule read_loop_undetected[OF assms(1-3,5)]) (use assms(4) in simp_all)
  then show ?thesis
    by (auto simp: realize_def realize_packets_def loop_result_def conclude_stream_def
        split: prod.splits sum.splits PesProcessingOutcome.splits)
qed

text \<open>C10: How the reads cut the title stream does not matter. For a stream of at least four whole
  packets, of either format, that M2TS detection does not mistake, and any way to cut it into reads, single
  bytes or the whole at once, the read loop with its buffer, its detection of the format and its
  resynchronisation gives the outcome, error or published file, of handing over the packets one by
  one and then finishing.\<close>

theorem reads_cut_anywhere:
  assumes "framed fmt us" and "4 \<le> length us" and "told_apart fmt (concat us)"
    and "concat bs = concat us" and "\<forall>b \<in> set bs. b \<noteq> []"
  shows "realize (\<lambda>_. False) pid cfg m (map Bytes bs) = realize_packets pid cfg m (map (ts_part fmt) us)"
  using assms by (rule cut_anywhere)

subsection \<open>After a loss of synchronisation\<close>

lemma cadence_drop: "cadence_at fmt (drop d bs) k = cadence_at fmt bs (d + k)"
  by (auto simp: cadence_at_def sync_at_def list_all_iff add.assoc)

text \<open>C40: A resumed search trusts a single sync byte. When no cadence is left in the buffer, the loop
  keeps the last bytes from a position it has already refuted: three packets in cadence do not start
  there. The next turn looks only at the one sync byte of that position; if it happens to be 0x47, what
  follows is taken for a packet, and if that is refused, the run ends with its error, whatever the
  next read brings.\<close>

theorem resync_trusts_refuted_start:
  assumes "packet_size fmt \<le> length buf - offset" and "buf ! (offset + sync_byte_offset fmt) \<noteq> 0x47"
    and "find_next_ts_sync_at_cadence_with_format (drop (offset + 1) buf) fmt = None"
    and "ts_resync_retention_bytes fmt < length buf - offset" and "start = length buf - ts_resync_retention_bytes fmt"
    and "buf ! (start + sync_byte_offset fmt) = 0x47"
    and "take_ts_packet (take TS_PACKET_SIZE (drop (start + sync_byte_offset fmt) buf)) r = (Inl e, r')"
  shows "packet_loop cancelled buf fmt offset n r = (Inr (Some start), n, r) \<and> \<not> cadence_at fmt buf start \<and>
    packet_loop cancelled (drop start buf @ b) fmt 0 n r = (Inl e, n, r')"
proof (intro conjI)
  have ret: "ts_resync_retention_bytes fmt = 2 * packet_size fmt + sync_byte_offset fmt + 1"
    by (simp add: ts_resync_retention_bytes_def)
  have big: "\<not> length buf - offset < packet_size fmt" using assms(1) by simp
  show "packet_loop cancelled buf fmt offset n r = (Inr (Some start), n, r)"
    by (subst packet_loop.simps) (simp only: big if_False assms(2,3) option.case Let_def assms(4,5) if_True not_False_eq_True simp_thms)
  have "offset + 1 \<le> start" using assms(4,5) by linarith
  then have "cadence_at fmt buf start = cadence_at fmt (drop (offset + 1) buf) (start - (offset + 1))"
    by (simp only: cadence_drop le_add_diff_inverse)
  then show "\<not> cadence_at fmt buf start" using assms(3) unfolding find_sync_none by blast
  let ?rest = "drop start buf @ b"
  have len: "length (drop start buf) = 2 * packet_size fmt + sync_byte_offset fmt + 1"
    using assms(4,5) ret by simp
  have sync: "?rest ! (0 + sync_byte_offset fmt) = 0x47"
    using len assms(6) by (simp add: nth_append)
  have part: "take TS_PACKET_SIZE (drop (0 + sync_byte_offset fmt) ?rest)
      = take TS_PACKET_SIZE (drop (start + sync_byte_offset fmt) buf)"
    using len packet_size_bounds[of fmt] by (simp add: add.commute)
  have "\<not> length ?rest - 0 < packet_size fmt" using len by simp
  then show "packet_loop cancelled ?rest fmt 0 n r = (Inl e, n, r')"
    by (subst packet_loop.simps) (simp only: if_False sync not_True_eq_False part assms(7) prod.case sum.case simp_thms)
qed

definition stray_sync :: "u8 list" where
  "stray_sync = replicate 223 0 @ 0x47 # replicate 376 0"

theorem resync_trusts_refuted_start_witness:
  "packet_loop (\<lambda>_. False) stray_sync StandardTs 0 (0, 0) (run_new 0 title_config identity_continuous)
      = (Inr (Some 223), (0, 0), run_new 0 title_config identity_continuous) \<and>
    packet_loop (\<lambda>_. False) (drop 223 stray_sync @ []) StandardTs 0 (0, 0) (run_new 0 title_config identity_continuous)
      = (Inl (Demux (ReservedAdaptation 0)), (0, 0), run_new 0 title_config identity_continuous)"
proof -
  let ?r = "run_new 0 title_config identity_continuous"
  have nth: "stray_sync ! i = (if i = 223 then 0x47 else 0)" if "i < 600" for i
    using that by (auto simp: stray_sync_def nth_append nth_Cons')
  have len: "length stray_sync = 600" by (simp add: stray_sync_def)
  have none: "find_next_ts_sync_at_cadence_with_format (drop (0 + 1) stray_sync) StandardTs = None"
    unfolding find_sync_none
  proof (intro allI notI)
    fix k assume "cadence_at StandardTs (drop (0 + 1) stray_sync) k"
    then have "sync_at stray_sync (1 + k)" "sync_at stray_sync (1 + k + 188)"
      unfolding cadence_drop by (simp_all add: cadence_at_def upt_rec)
    then show False using nth by (auto simp: sync_at_def len split: if_splits)
  qed
  have "take 188 (drop 223 stray_sync) = 0x47 # replicate 187 0" by (simp add: stray_sync_def take_Cons')
  moreover have "parse_ts_packet (0x47 # replicate 187 0) = Inl (ReservedAdaptation 0)" by code_simp
  ultimately have taken: "take_ts_packet (take 188 (drop (223 + sync_byte_offset StandardTs) stray_sync)) ?r
      = (Inl (Demux (ReservedAdaptation 0)), ?r)"
    by (simp add: take_ts_packet_def st_bind_def call_demux_def push_ts_packet_def)
  have "packet_size StandardTs \<le> length stray_sync - 0" "stray_sync ! (0 + sync_byte_offset StandardTs) \<noteq> 0x47"
    "ts_resync_retention_bytes StandardTs < length stray_sync - 0"
    "223 = length stray_sync - ts_resync_retention_bytes StandardTs"
    "stray_sync ! (223 + sync_byte_offset StandardTs) = 0x47"
    using nth by (simp_all add: len ts_resync_retention_bytes_def)
  from resync_trusts_refuted_start[OF this(1,2) none this(3,4,5) taken, of "\<lambda>_. False" "(0, 0)" "[]"]
  show ?thesis by blast
qed

subsection \<open>What is published\<close>

text \<open>The invariant of the run: the extractor's, and after the first PES packet a header of its format
  in the file.\<close>

definition run_ok :: "run \<Rightarrow> bool" where
  "run_ok r \<longleftrightarrow> extractor_wf (lpcm r) \<and> (header_written r \<longrightarrow>
     (\<exists>h. header (lpcm r) = Some h \<and> write_wav_header (format_of h) 0 = (Inr (), head r)))"

lemma run_ok_new: "run_ok (run_new pid cfg m)"
  using wf_new[of cfg m] by (simp add: run_ok_def run_new_def)

lemma run_ok_demuxer [simp]: "run_ok (r\<lparr> packet_demuxer := d \<rparr>) = run_ok r"
  by (simp add: run_ok_def)

lemma call_demux_ok:
  "call_demux m r = (v, r') \<Longrightarrow> run_ok r \<Longrightarrow> run_ok r' \<and> header_written r' = header_written r \<and> lpcm r' = lpcm r"
  by (auto simp: call_demux_def split: prod.splits)

lemma peek_header:
  assumes "extractor_wf x" and "peek_or_create_wav_format b x = (Inr f, x')"
  shows "extractor_wf x' \<and> (\<exists>h. header x' = Some h \<and> f = format_of h)"
proof (cases "format x")
  case None
  then have "st_bind (pure_call (parse_pes b)) (\<lambda>parsed.
      st_bind (pure_call (parse_lpcm_payload_header (pes_payload parsed))) prepare_format_from_header) x = (Inr f, x')"
    using assms(2) by (simp add: peek_or_create_wav_format_def)
  then obtain h and parsed :: parsed_pes where "parse_lpcm_payload_header (pes_payload parsed) = Inr h"
      "prepare_format_from_header h x = (Inr f, x')"
    by (elim bind_Inr) (simp add: pure_call_def)
  then show ?thesis
    using validD(1)[OF valid_prepare[OF parse_payload_header_facts(1)[THEN conjunct1]] assms(1)] by (auto simp: prepared_def)
next
  case (Some g)
  then show ?thesis using assms
    by (auto simp: peek_or_create_wav_format_def extractor_wf_def split: option.splits)
qed

lemma begin_ok:
  assumes "run_ok r" and "begin_output p r = (Inr v, r')"
  shows "run_ok r' \<and> header_written r'"
proof (cases "header_written r")
  case True
  then show ?thesis using assms by (simp add: begin_output_def)
next
  case False
  then obtain f x bs where f: "peek_or_create_wav_format (payload p) (lpcm r) = (Inr f, x)"
      "write_wav_header f 0 = (Inr (), bs)" "r' = r\<lparr> lpcm := x, head := bs, header_written := True \<rparr>"
    using assms(2) by (auto simp: begin_output_def st_bind_def call_lpcm_def split: prod.splits sum.splits)
  then show ?thesis using peek_header[OF _ f(1)] assms(1) by (auto simp: run_ok_def)
qed

lemma process_ok:
  assumes "run_ok r" and "header_written r" and "call_lpcm (process_pes_packet p) r = (Inr v, r')"
  shows "run_ok r' \<and> header_written r'"
proof -
  obtain x where x: "process_pes_packet p (lpcm r) = (Inr v, x)" "r' = r\<lparr> lpcm := x \<rparr>"
    using assms(3) by (auto simp: call_lpcm_def split: prod.splits sum.splits)
  have "extractor_wf x" using validD(1)[OF valid_process_pes _ x(1)] assms(1) by (simp add: run_ok_def)
  moreover have "header (lpcm r) \<noteq> None \<Longrightarrow> header x = header (lpcm r)"
    using keeps_process_pes[of p] x(1) unfolding keeps_def by (metis snd_conv)
  ultimately show ?thesis using assms(1,2) x(2) by (auto simp: run_ok_def)
qed

lemma deliver_ok:
  assumes "run_ok r" and "deliver p r = (Inr v, r')"
  shows "run_ok r' \<and> header_written r'"
proof -
  obtain u r1 where b: "begin_output p r = (Inr u, r1)" and c: "call_lpcm (process_pes_packet p) r1 = (Inr v, r')"
    using assms(2) unfolding deliver_def by (rule bind_Inr)
  show ?thesis using begin_ok[OF assms(1) b] process_ok[OF _ _ c] by simp
qed

lemma take_ok:
  assumes "run_ok r" and "take_ts_packet p r = (Inr v, r')"
  shows "run_ok r'"
proof -
  obtain q r1 where b: "call_demux (push_ts_packet p) r = (Inr q, r1)"
      "(case q of None \<Rightarrow> (\<lambda>r. (Inr Continue, r)) | Some pes \<Rightarrow> deliver pes) r1 = (Inr v, r')"
    using assms(2) unfolding take_ts_packet_def by (rule bind_Inr)
  show ?thesis using call_demux_ok[OF b(1) assms(1)] b(2) deliver_ok by (auto split: option.splits)
qed

lemma packet_loop_ok:
  "packet_loop c buf fmt offset n r = (Inr v, n', r') \<Longrightarrow> run_ok r \<Longrightarrow> run_ok r'"
proof (induction c buf fmt offset n r rule: packet_loop.induct)
  case (1 c buf fmt offset n r)
  show ?case
  proof (cases "length buf - offset < packet_size fmt")
    case True
    then show ?thesis using "1.prems" by (subst (asm) packet_loop.simps) simp
  next
    case big: False
    show ?thesis
    proof (cases "buf ! (offset + sync_byte_offset fmt) \<noteq> 0x47")
      case True
      then show ?thesis
        using "1.prems" "1.IH"(1)[OF big True] big
        by (subst (asm) packet_loop.simps) (auto simp: Let_def split: option.splits)
    next
      case sync: False
      obtain w r1 where t: "take_ts_packet (take TS_PACKET_SIZE (drop (offset + sync_byte_offset fmt) buf)) r = (w, r1)"
        by (cases "take_ts_packet (take TS_PACKET_SIZE (drop (offset + sync_byte_offset fmt) buf)) r")
      obtain stop n1 where s: "count_packet c n = (stop, n1)" by (cases "count_packet c n")
      have step: "packet_loop c buf fmt offset n r = (case w of
          Inl e \<Rightarrow> (Inl e, n, r1)
        | Inr Stop \<Rightarrow> (Inr None, n, r1\<lparr> packet_demuxer := discard_current (packet_demuxer r1) \<rparr>)
        | Inr Continue \<Rightarrow> if stop then (Inl Cancelled, n1, r1)
            else packet_loop c buf fmt (offset + packet_size fmt) n1 r1)"
        using big sync by (subst packet_loop.simps) (simp add: t s split: sum.splits PesProcessingOutcome.splits)
      have ok: "w = Inr v \<Longrightarrow> run_ok r1" for v using take_ok[OF "1.prems"(2)] t by simp
      show ?thesis
        using "1.prems"(1) ok "1.IH"(2)[OF big sync t[symmetric] _ _ s[symmetric]] unfolding step
        by (auto split: sum.splits PesProcessingOutcome.splits if_splits)
    qed
  qed
qed


lemma last_turn_ok:
  assumes "last_turn c buf det n r = (Inr v, r')" and "run_ok r"
  shows "run_ok r'"
proof -
  consider "r' = r" | fmt w n1 where "packet_loop c buf fmt 0 n r = (Inr w, n1, r')"
    using assms(1) by (auto simp: last_turn_def split: if_splits sum.splits option.splits prod.splits)
  then show ?thesis using assms(2) packet_loop_ok by cases auto
qed

lemma title_read_loop_ok:
  "title_read_loop c reads buf det n r = (Inr v, r') \<Longrightarrow> run_ok r \<Longrightarrow> run_ok r'"
proof (induction reads arbitrary: buf det n r)
  case Nil
  then show ?case by (cases n) (auto split: if_splits dest: last_turn_ok)
next
  case (Cons b reads)
  obtain since checks where n: "n = (since, checks)" by (cases n)
  show ?case
  proof (cases b)
    case ReadError
    then show ?thesis using Cons.prems n by (simp split: if_splits)
  next
    case (Bytes bs)
    show ?thesis
    proof (cases "bs = []")
      case True
      then show ?thesis using Cons.prems n Bytes by (auto split: if_splits dest: last_turn_ok)
    next
      case False
      have live: "\<not> c checks" using Cons.prems(1) n Bytes by (auto split: if_splits)
      consider e where "packet_format det False (buf @ bs) = Inl e"
        | "packet_format det False (buf @ bs) = Inr None"
        | fmt where "packet_format det False (buf @ bs) = Inr (Some fmt)"
        by (metis old.sum.exhaust option.exhaust)
      then show ?thesis
      proof cases
        case 1
        then show ?thesis using Cons.prems False live unfolding n Bytes by simp
      next
        case 2
        then show ?thesis using Cons.prems Cons.IH False live unfolding n Bytes by simp
      next
        case 3
        obtain w n1 r1 where l: "packet_loop c (buf @ bs) fmt 0 (since, checks + 1) r = (w, n1, r1)"
          by (cases "packet_loop c (buf @ bs) fmt 0 (since, checks + 1) r")
        have ok: "w = Inr u \<Longrightarrow> run_ok r1" for u using packet_loop_ok[OF _ Cons.prems(2)] l by blast
        show ?thesis
          using Cons.prems(1) Cons.IH[OF _ ok] ok False live 3 l unfolding n Bytes
          by (auto split: sum.splits option.splits)
      qed
    qed
  qed
qed

lemma flush_ok:
  assumes "flush_demuxer r = (Inr v, r')" and "run_ok r"
  shows "run_ok r'"
proof -
  obtain q r1 where b: "call_demux finish r = (Inr q, r1)"
      "(case q of None \<Rightarrow> (\<lambda>r. (Inr (), r)) | Some pes \<Rightarrow> st_bind (deliver pes) (\<lambda>_ r. (Inr (), r))) r1 = (Inr v, r')"
    using assms(1) unfolding flush_demuxer_def by (rule bind_Inr)
  have ok: "run_ok r1" using call_demux_ok[OF b(1) assms(2)] by simp
  show ?thesis
  proof (cases q)
    case None
    then show ?thesis using b(2) ok by simp
  next
    case (Some pes)
    then have "st_bind (deliver pes) (\<lambda>_ r. (Inr (), r)) r1 = (Inr v, r')" using b(2) by simp
    then show ?thesis by (rule bind_Inr) (use deliver_ok[OF ok] in auto)
  qed
qed

lemma header_format_ok: "header_wf h \<Longrightarrow> format_ok (format_of h)"
  by (auto simp: header_wf_def format_ok_def format_of_def split: option.splits)

lemma read_wav_info_size: "read_wav_info b = Inr w \<Longrightarrow> read_u32_le b 4 = Inr n \<Longrightarrow> n + 8 = length b"
  by (auto simp: read_wav_info_def split: if_splits)

lemma validated_reads: "validate_bluray_lpcm_wav b x = Inr () \<Longrightarrow> \<exists>i. read_wav_info b = Inr i"
  by (auto simp: validate_bluray_lpcm_wav_def res_bind_eq_Inr_iff)

lemma finalized:
  assumes ok: "run_ok r" and fin: "finalize_bluray_lpcm_output r = Inr out"
  shows "\<exists>h. header_wf h \<and> header (lpcm r) = Some h \<and> written (lpcm r) \<noteq> [] \<and>
    length (written (lpcm r)) mod (channels h * header_bps h) = 0 \<and>
    write_wav_header (format_of h) (length (written (lpcm r)))
      = (Inr (), wav_header_bytes (format_of h) (length (written (lpcm r)))) \<and>
    out = wav_header_bytes (format_of h) (length (written (lpcm r))) @ written (lpcm r)"
proof -
  let ?x = "lpcm r" and ?n = "data_bytes_written (lpcm r)"
  have hw: "header_written r" and n: "?n \<noteq> 0"
    using fin by (auto simp: finalize_bluray_lpcm_output_def Let_def split: if_splits)
  obtain h where h: "header ?x = Some h" "write_wav_header (format_of h) 0 = (Inr (), head r)"
    using ok hw by (auto simp: run_ok_def)
  have wf: "header_wf h" "format ?x = Some (format_of h)" "length (written ?x) mod (channels h * header_bps h) = 0"
    using ok h(1) by (auto simp: run_ok_def extractor_wf_def)
  obtain v bs where w: "write_wav_header (format_of h) ?n = (v, bs)"
    by (cases "write_wav_header (format_of h) ?n")
  have rw: "rewrite_wav_header (format_of h) ?n (head r @ written ?x)
      = (v, if v = Inr () then bs @ written ?x else write_at 0 bs (head r @ written ?x))"
    by (rule rewrite_overwrites[OF h(2) w])
  have "v = Inr () \<and> out = bs @ written ?x \<and> (\<exists>x. validate_bluray_lpcm_wav out x = Inr ())"
    using fin hw n wf(2) rw
    by (auto simp: finalize_bluray_lpcm_output_def Let_def res_bind_eq_Inr_iff not_Inl_unit split: sum.splits if_splits)
  then have "v = Inr () \<and> out = bs @ written ?x \<and> (\<exists>i. read_wav_info out = Inr i)"
    using validated_reads by blast
  then obtain i where v: "v = Inr ()" "out = bs @ written ?x" "read_wav_info out = Inr i" by blast
  have size: "20 + fmt_chunk_size (format_of h) + ?n < 2 ^ 32" and bs: "bs = wav_header_bytes (format_of h) ?n"
    using w v(1) by (simp_all add: write_wav_header_iff)
  have "read_u32_le out 4 = Inr (20 + fmt_chunk_size (format_of h) + ?n)"
    unfolding v(2) bs by (rule read32[OF _ size]) (simp add: wav_header_bytes_def Let_def drop_skip)
  from read_wav_info_size[OF v(3) this] have "?n = length (written ?x)"
    unfolding v(2) bs by (simp add: length_wav_header)
  then show ?thesis using wf(1,3) h(1) v(1,2) w bs n by auto
qed

text \<open>C9: Nothing but sound files is published. Whatever bytes the title source delivers, read errors and
  cancellation at any moment included, and for every PID, configuration and time line: if the run publishes a
  file, it is the header of one of the supported formats followed by a positive whole number of
  frames, and the reader of RIFF/WAVE files reads that format and the size of that audio from it.\<close>

theorem published_file_sound:
  assumes "realize cancelled pid cfg m reads = Inr out"
  shows "\<exists>h audio. header_wf h \<and> audio \<noteq> [] \<and> length audio mod (channels h * header_bps h) = 0 \<and>
    out = wav_header_bytes (format_of h) (length audio) @ audio \<and>
    read_wav_info out = Inr (info_of (format_of h) (length audio))"
proof -
  obtain e r1 where l: "title_read_loop cancelled reads [] None (0, 0) (run_new pid cfg m) = (Inr e, r1)"
    and e: "(case e of ChapterEnded \<Rightarrow> finalize_bluray_lpcm_output r1
      | StreamEnded buf detected \<Rightarrow> conclude_stream buf detected r1) = Inr out"
    using assms by (auto simp: realize_def split: prod.splits sum.splits)
  have ok: "run_ok r1" by (rule title_read_loop_ok[OF l run_ok_new])
  obtain r where r: "run_ok r" "finalize_bluray_lpcm_output r = Inr out"
  proof (cases e)
    case ChapterEnded
    then show thesis using that[OF ok] e by simp
  next
    case (StreamEnded buf detected)
    then obtain v r2 where "flush_demuxer r1 = (Inr v, r2)" "finalize_bluray_lpcm_output r2 = Inr out"
      using e by (auto simp: conclude_stream_def split: if_splits option.splits prod.splits sum.splits)
    then show thesis using that[OF flush_ok[OF _ ok]] by blast
  qed
  obtain h where h: "header_wf h" "written (lpcm r) \<noteq> []"
      "length (written (lpcm r)) mod (channels h * header_bps h) = 0"
      "write_wav_header (format_of h) (length (written (lpcm r)))
        = (Inr (), wav_header_bytes (format_of h) (length (written (lpcm r))))"
      "out = wav_header_bytes (format_of h) (length (written (lpcm r))) @ written (lpcm r)"
    using finalized[OF r] by (elim exE conjE) (rule that)
  have "read_wav_info out = Inr (info_of (format_of h) (length (written (lpcm r))))"
    using wav_reads_back[OF header_format_ok[OF h(1)] h(4)] unfolding h(5) .
  then show ?thesis
    by (intro exI[of _ h] exI[of _ "written (lpcm r)"] conjI h)
qed

subsection \<open>A whole title from the reads to the file\<close>

lemma header_writable:
  assumes "header_wf h" and "n < 4294967236"
  shows "write_wav_header (format_of h) n = (Inr (), wav_header_bytes (format_of h) n)"
proof -
  have b: "f_channels (format_of h) * bytes_per_sample (format_of h) \<le> 24" "f_sample_rate (format_of h) \<le> 192000"
    using assms(1) mult_le_mono[of "channels h" 8 "container_bits h div 8" 3]
    by (auto simp: header_wf_def format_of_def bytes_per_sample_def)
  have "f_sample_rate (format_of h) * (f_channels (format_of h) * bytes_per_sample (format_of h)) \<le> 192000 * 24"
    by (rule mult_le_mono[OF b(2,1)])
  then show ?thesis unfolding write_wav_header_iff using b assms(2) by (auto simp: fmt_chunk_size_def)
qed

lemma deliver_step:
  assumes "run_ok r" and "peek_or_create_wav_format (payload p) (lpcm r) = (Inr f, x1)"
    and "process_pes_packet p x1 = (Inr v, x2)"
  shows "\<exists>r'. deliver p r = (Inr v, r') \<and> packet_demuxer r' = packet_demuxer r \<and> lpcm r' = x2 \<and>
    run_ok r' \<and> header_written r'"
proof -
  have "\<exists>r1. begin_output p r = (Inr (), r1) \<and> lpcm r1 = x1 \<and> packet_demuxer r1 = packet_demuxer r"
  proof (cases "header_written r")
    case True
    then obtain h where "header (lpcm r) = Some h" using assms(1) by (auto simp: run_ok_def)
    then have "format (lpcm r) = Some (format_of h)" using assms(1) by (auto simp: run_ok_def extractor_wf_def)
    then have "x1 = lpcm r" using assms(2) by (simp add: peek_or_create_wav_format_def)
    then show ?thesis using True by (auto simp: begin_output_def)
  next
    case False
    have "extractor_wf (lpcm r)" using assms(1) by (simp add: run_ok_def)
    from peek_header[OF this assms(2)] obtain h where "f = format_of h" "header x1 = Some h" "extractor_wf x1" by blast
    then have "f = format_of h" "header_wf h" by (auto simp: extractor_wf_def)
    then show ?thesis
      using False assms(2) header_writable[of h 0] by (simp add: begin_output_def st_bind_def call_lpcm_def)
  qed
  then obtain r1 where r1: "begin_output p r = (Inr (), r1)" "lpcm r1 = x1" "packet_demuxer r1 = packet_demuxer r"
    by blast
  have d: "deliver p r = (Inr v, r1\<lparr> lpcm := x2 \<rparr>)"
    using r1 assms(3) by (simp add: deliver_def st_bind_def call_lpcm_def)
  then show ?thesis using deliver_ok[OF assms(1) d] r1(3) by auto
qed

lemma extract_step:
  assumes "run_ok r" and "extract_all (p # ps) (lpcm r) = (Inr Continue, x)"
  shows "\<exists>r'. deliver p r = (Inr Continue, r') \<and> packet_demuxer r' = packet_demuxer r \<and>
    run_ok r' \<and> header_written r' \<and> extract_all ps (lpcm r') = (Inr Continue, x)"
proof -
  obtain f x1 where f: "peek_or_create_wav_format (payload p) (lpcm r) = (Inr f, x1)"
      "st_bind (process_pes_packet p) (\<lambda>outcome.
         if outcome = Stop then pure_call (Inr Stop) else extract_all ps) x1 = (Inr Continue, x)"
    using assms(2) unfolding extract_Cons by (rule bind_Inr)
  from f(2) obtain v x2 where v: "process_pes_packet p x1 = (Inr v, x2)"
      "(if v = Stop then pure_call (Inr Stop) else extract_all ps) x2 = (Inr Continue, x)"
    by (rule bind_Inr)
  then have "v = Continue" "extract_all ps x2 = (Inr Continue, x)"
    by (cases v; simp add: pure_call_def)+
  then show ?thesis using deliver_step[OF assms(1) f(1) v(1)] by auto
qed

text \<open>Demultiplexing all packets first and extracting then, and handing over each packet at once, come
  to the same when nothing fails and no chapter ends.\<close>

lemma deliver_all_extract:
  assumes "push_all ps (packet_demuxer r) = (out, None, d)" and "run_ok r"
    and "extract_all (out @ later) (lpcm r) = (Inr Continue, x)"
  shows "\<exists>r'. deliver_all ps r = (Inr Continue, r') \<and> packet_demuxer r' = d \<and> run_ok r' \<and>
    (out \<noteq> [] \<or> header_written r \<longrightarrow> header_written r') \<and> extract_all later (lpcm r') = (Inr Continue, x)"
  using assms
proof (induction ps arbitrary: r out)
  case Nil
  then show ?case by simp
next
  case (Cons p ps)
  obtain q d1 out1 where push: "push_ts_packet p (packet_demuxer r) = (Inr q, d1)"
      "push_all ps d1 = (out1, None, d)" "out = opt_list q @ out1"
    using Cons.prems(1) by (auto split: prod.splits sum.splits)
  let ?r = "r\<lparr> packet_demuxer := d1 \<rparr>"
  have call: "call_demux (push_ts_packet p) r = (Inr q, ?r)" using push(1) by (simp add: call_demux_def)
  show ?case
  proof (cases q)
    case None
    then show ?thesis
      using Cons.IH[of ?r out1] Cons.prems(2,3) push call by (simp add: take_ts_packet_def st_bind_def)
  next
    case (Some pes)
    then have "extract_all (pes # out1 @ later) (lpcm ?r) = (Inr Continue, x)" using Cons.prems(3) push(3) by simp
    from extract_step[OF _ this] Cons.prems(2) obtain r1 where r1: "deliver pes ?r = (Inr Continue, r1)"
        "packet_demuxer r1 = d1" "run_ok r1" "header_written r1" "extract_all (out1 @ later) (lpcm r1) = (Inr Continue, x)"
      by auto
    have "push_all ps (packet_demuxer r1) = (out1, None, d)" using push(2) r1(2) by simp
    from Cons.IH[OF this r1(3,5)] show ?thesis
      using call Some r1(1,4) by (auto simp: take_ts_packet_def st_bind_def)
  qed
qed

lemma realize_whole:
  assumes "demux_stream pid ps = (out, None, d)" and "out \<noteq> []"
    and "extract_all out (extractor_new cfg m) = (Inr Continue, x)"
  shows "\<exists>r. realize_packets pid cfg m ps = finalize_bluray_lpcm_output r \<and> lpcm r = x \<and> run_ok r \<and> header_written r"
proof -
  obtain out1 d1 q where dm: "push_all ps (demuxer_new pid) = (out1, None, d1)" "finish d1 = (Inr q, d)"
      "out = out1 @ opt_list q"
    using assms(1) by (auto simp: demux_stream_def split: prod.splits option.splits sum.splits)
  let ?r = "run_new pid cfg m"
  have "push_all ps (packet_demuxer ?r) = (out1, None, d1)" using dm(1) by (simp add: run_new_def)
  moreover have "extract_all (out1 @ opt_list q) (lpcm ?r) = (Inr Continue, x)"
    using assms(3) dm(3) by (simp add: run_new_def)
  ultimately obtain r1 where r1: "deliver_all ps ?r = (Inr Continue, r1)" "packet_demuxer r1 = d1" "run_ok r1"
      "out1 \<noteq> [] \<longrightarrow> header_written r1" "extract_all (opt_list q) (lpcm r1) = (Inr Continue, x)"
    using deliver_all_extract[OF _ run_ok_new] by blast
  let ?f = "r1\<lparr> packet_demuxer := d \<rparr>"
  have fin: "call_demux finish r1 = (Inr q, ?f)" using dm(2) r1(2) by (simp add: call_demux_def)
  have "\<exists>r. flush_demuxer r1 = (Inr (), r) \<and> lpcm r = x \<and> run_ok r \<and> header_written r"
  proof (cases q)
    case None
    then show ?thesis using fin r1(3-5) dm(3) assms(2) by (simp add: flush_demuxer_def st_bind_def)
  next
    case (Some pes)
    then have "extract_all [pes] (lpcm ?f) = (Inr Continue, x)" using r1(5) by simp
    from extract_step[OF _ this] r1(3) show ?thesis
      using fin Some by (auto simp: flush_demuxer_def st_bind_def)
  qed
  then show ?thesis using r1(1) by (auto simp: realize_packets_def)
qed

lemma finalize_whole:
  assumes "run_ok r" and "header_written r" and "streaming cfg h pcm (lpcm r)" and "header_wf h"
    and "whole_title cfg" and "converted h pcm \<noteq> []" and "length (converted h pcm) < 4294967236"
  shows "finalize_bluray_lpcm_output r
    = Inr (wav_header_bytes (format_of h) (length (converted h pcm)) @ converted h pcm)"
proof -
  let ?x = "lpcm r" and ?c = "converted h pcm" and ?f = "format_of h"
  obtain h' where h': "header ?x = Some h'" "write_wav_header (format_of h') 0 = (Inr (), head r)"
    using assms(1,2) by (auto simp: run_ok_def)
  then have "h' = h" using assms(3) by (auto simp: streaming_def)
  note h' = h'[unfolded this]
  have x: "extractor_wf ?x" "config ?x = cfg" "written ?x = ?c" "data_bytes_written ?x = length ?c"
    using assms(3) by (simp_all add: streaming_def)
  then have f: "format ?x = Some ?f" and al: "length ?c mod align_bytes ?f = 0"
    using h'(1) by (auto simp: extractor_wf_def align_bytes_def format_of_def bytes_per_sample_def header_bps_def)
  have size: "validate_reasonable_output_size ?x = Inr ()"
    using f x(2) assms(5) by (simp add: validate_reasonable_output_size_def whole_title_def)
  have w: "write_wav_header ?f (length ?c) = (Inr (), wav_header_bytes ?f (length ?c))"
    by (rule header_writable[OF assms(4,7)])
  have ch: "0 < f_channels ?f" "f_channels ?f < 256" using assms(4) by (auto simp: header_wf_def format_of_def)
  have ex: "expected_audio ?x = Inr (audio_of ?f None)"
    using f ch x(2) assms(5) by (simp add: expected_audio_def audio_of_def whole_title_def)
  have "validate_bluray_lpcm_wav (wav_header_bytes ?f (length ?c) @ ?c) (audio_of ?f None) = Inr ()"
    by (rule written_validates[OF header_format_ok[OF assms(4)] w ch(1) assms(6) al]) simp
  then show ?thesis
    using assms(2,6) x(3,4) f size ex rewrite_overwrites[OF h'(2) w, of ?c]
    by (simp add: finalize_bluray_lpcm_output_def pending_pcm_len_def)
qed

lemma concat_aligned:
  assumes "list_all2 P gs pcms" and "\<And>g pcm. P g pcm \<Longrightarrow> length pcm mod k = (0 :: nat)"
  shows "length (concat pcms) mod k = 0"
  using assms(1) by (induction rule: list_all2_induct) (auto dest: assms(2) simp: mod_eq_0_iff_dvd)

lemma converted_nonempty:
  assumes "header_wf h" and "pcm \<noteq> []" and "length pcm mod frame_size h = 0"
  shows "converted h pcm \<noteq> []"
proof -
  have "length pcm = length pcm div frame_size h * frame_size h" using assms(3) by (simp add: mod_0_imp_dvd)
  then have "0 < length pcm div frame_size h" using assms(2) by (cases "length pcm div frame_size h") simp_all
  moreover have "0 < channels h * header_bps h" using header_bps_range[OF assms(1)] assms(1) by (auto simp: header_wf_def)
  ultimately have "0 < length (converted h pcm)" unfolding length_converted[OF assms(1)] by simp
  then show ?thesis by simp
qed

lemma title_file:
  assumes "framed fmt us" and "4 \<le> length us" and "told_apart fmt (concat us)"
    and "concat bs = concat us" and "\<forall>b \<in> set bs. b \<noteq> []"
    and "\<forall>p \<in> set (map (ts_part fmt) us). readable pid p"
    and "accepted pid None (map (ts_part fmt) us) = concat frames"
    and "\<forall>g \<in> set frames. complete_frame pid g" and "in_sequence (concat frames)"
    and "list_all2 (\<lambda>g pcm. \<exists>t hdr. parse_pes (frame_bytes g) = Inr \<lparr> pts_90k = Some t, pes_payload = hdr @ pcm \<rparr> \<and>
      length hdr = 4 \<and> parse_lpcm_payload_header (hdr @ pcm) = Inr h \<and>
      length pcm mod frame_size h = 0) frames pcms"
    and "whole_title cfg" and "validate_lpcm_header_against_expectations cfg h = Inr ()"
    and "header_wf h" and "concat pcms \<noteq> []" and "length (concat pcms) < 4294967236"
  shows "realize (\<lambda>_. False) pid cfg identity_continuous (map Bytes bs)
    = Inr (wav_header_bytes (format_of h) (length (converted h (concat pcms))) @ converted h (concat pcms))"
proof -
  obtain d where d: "demux_stream pid (map (ts_part fmt) us) = (map packet_of frames, None, d)"
    using demux_deliver[OF assms(6-9)] by blast
  obtain x where x: "extract_all (map packet_of frames) (extractor_new cfg identity_continuous) = (Inr Continue, x)"
      "streaming cfg h (concat pcms) x"
    using title_extracted[OF assms(10-13)] assms(15) by fastforce
  have "frames \<noteq> []" using assms(10,14) by auto
  then obtain r where r: "realize_packets pid cfg identity_continuous (map (ts_part fmt) us) = finalize_bluray_lpcm_output r"
      "lpcm r = x" "run_ok r" "header_written r"
    using realize_whole[OF d _ x(1)] by auto
  have len: "length (converted h (concat pcms)) < 4294967236"
    using converted_length_le[OF assms(13), of "concat pcms"] assms(15) by linarith
  have ne: "converted h (concat pcms) \<noteq> []"
    by (rule converted_nonempty[OF assms(13,14) concat_aligned[OF assms(10)]]) blast
  show ?thesis
    unfolding cut_anywhere[OF assms(1-5)] r(1)
    by (rule finalize_whole[OF r(3,4) _ assms(13,11) ne len]) (use r(2) x(2) in simp)
qed

text \<open>C8: A whole title is realised without loss, from the reads to the published file. When the title
  source delivers, in reads of any size, at least four whole packets of either format that carry, in
  any packet layout that \<open>demux_complete\<close> admits, a sequence of time-stamped PES packets with
  the same four-byte LPCM header, one the configuration expects, and whole audio frames, not all of
  them empty and together less than 4294967236 bytes, the run publishes exactly the WAV header of that format
  with the size of the audio, followed by the conversion of all the audio, in order.\<close>

theorem whole_title_published:
  assumes "framed fmt us" and "4 \<le> length us" and "told_apart fmt (concat us)"
    and "concat bs = concat us" and "\<forall>b \<in> set bs. b \<noteq> []"
    and "\<forall>p \<in> set (map (ts_part fmt) us). readable pid p"
    and "accepted pid None (map (ts_part fmt) us) = concat frames"
    and "\<forall>g \<in> set frames. complete_frame pid g" and "in_sequence (concat frames)"
    and "list_all2 (\<lambda>g pcm. \<exists>t hdr. parse_pes (frame_bytes g) = Inr \<lparr> pts_90k = Some t, pes_payload = hdr @ pcm \<rparr> \<and>
      length hdr = 4 \<and> parse_lpcm_payload_header (hdr @ pcm) = Inr h \<and>
      length pcm mod frame_size h = 0) frames pcms"
    and "whole_title cfg" and "validate_lpcm_header_against_expectations cfg h = Inr ()"
    and "header_wf h" and "concat pcms \<noteq> []" and "length (concat pcms) < 4294967236"
  shows "realize (\<lambda>_. False) pid cfg identity_continuous (map Bytes bs)
    = Inr (wav_header_bytes (format_of h) (length (converted h (concat pcms))) @ converted h (concat pcms))"
  using assms by (rule title_file)

subsection \<open>A small title\<close>

text \<open>The title of \<open>BlurayExtract\<close> as M2TS packets with a packet of another PID, read in two pieces.\<close>

definition title_packets :: "u8 list list" where
  "title_packets = title_stream @ [[0x47, 0x1f, 0xff, 0x10] @ replicate 184 0xff]"

definition title_units :: "u8 list list" where
  "title_units = map (\<lambda>p. [0, 0, 0, 0] @ p) title_packets"

definition title_reads :: "u8 list list" where
  "title_reads = [take 100 (concat title_units), drop 100 (concat title_units)]"

definition title_wav :: "u8 list" where
  "title_wav = (let audio = [2, 1, 4, 3, 6, 5, 8, 7] in
     wav_header_bytes (format_of title_header) (length audio) @ audio)"

lemma title_units_facts:
  "framed M2ts title_units" "4 \<le> length title_units" "told_apart M2ts (concat title_units)"
  "map (ts_part M2ts) title_units = title_packets"
  "concat title_reads = concat title_units" "\<forall>b \<in> set title_reads. b \<noteq> []"
proof -
  have l: "list_all (\<lambda>p. length p = 188 \<and> p ! 0 = 0x47) title_packets" by code_simp
  then show "framed M2ts title_units" "map (ts_part M2ts) title_units = title_packets"
    by (auto simp: framed_def title_units_def list_all_iff ts_part_def map_idI)
  show "4 \<le> length title_units" by (simp add: title_units_def title_packets_def title_stream_def)
  show "told_apart M2ts (concat title_units)" by (simp add: told_apart_def)
  show "concat title_reads = concat title_units" by (simp add: title_reads_def)
  have "length (concat title_units) = 768"
    using length_concat_framed[OF \<open>framed M2ts title_units\<close>]
    by (simp add: title_units_def title_packets_def title_stream_def)
  then have "length (take 100 (concat title_units)) = 100" "length (drop 100 (concat title_units)) = 668"
    by (simp_all only: length_take length_drop)
  then have "take 100 (concat title_units) \<noteq> []" "drop 100 (concat title_units) \<noteq> []"
    by (metis list.size(3) zero_neq_numeral)+
  then show "\<forall>b \<in> set title_reads. b \<noteq> []" by (simp add: title_reads_def)
qed

lemma title_packets_facts:
  "list_all (readable 0x1100) title_packets"
  "accepted 0x1100 None title_packets = concat title_frames"
  by code_simp+

lemma title_pcm_facts:
  "list_all2 (\<lambda>g pcm. \<exists>t hdr. parse_pes (frame_bytes g) = Inr \<lparr> pts_90k = Some t, pes_payload = hdr @ pcm \<rparr> \<and>
      length hdr = 4 \<and> parse_lpcm_payload_header (hdr @ pcm) = Inr title_header \<and>
      length pcm mod frame_size title_header = 0) title_frames [[1, 2, 3, 4], [5, 6, 7, 8]]"
  using title_pes_facts title_header_facts(1,3)
  by (auto simp: title_frames_def frame_bytes_def parse_pes_def intro!: exI[of _ "[0, 0, 0x31, 0x40]"])

lemmas title_hyps = title_units_facts(1-3,5,6) title_packets_facts[folded title_units_facts(4)]
  title_stream_facts(3,4) title_pcm_facts title_header_facts(5,4,2)

lemma title_realized:
  "realize (\<lambda>_. False) 0x1100 title_config identity_continuous (map Bytes title_reads) = Inr title_wav"
  using title_file[OF title_hyps(1-5) _ title_hyps(7) _ title_hyps(9-13)] title_hyps(6,8) title_header_facts(6)
  by (simp add: list_all_iff title_wav_def Let_def)

theorem whole_title_published_witness:
  "\<exists>out. realize (\<lambda>_. False) 0x1100 title_config identity_continuous (map Bytes title_reads) = Inr out \<and>
    out = title_wav"
  using whole_title_published[OF title_hyps(1-5) _ title_hyps(7) _ title_hyps(9-13)] title_hyps(6,8) title_header_facts(6)
  by (simp add: list_all_iff title_wav_def Let_def)

theorem reads_cut_anywhere_witness:
  "realize_packets 0x1100 title_config identity_continuous title_packets = Inr title_wav"
  using reads_cut_anywhere[OF title_hyps(1-5), of "0x1100" title_config identity_continuous] title_realized
  by (simp add: title_units_facts(4))

theorem published_file_sound_witness:
  "\<exists>h audio. header_wf h \<and> audio \<noteq> [] \<and> length audio mod (channels h * header_bps h) = 0 \<and>
    title_wav = wav_header_bytes (format_of h) (length audio) @ audio \<and>
    read_wav_info title_wav = Inr (info_of (format_of h) (length audio))"
  by (rule published_file_sound[OF title_realized])

end
