(* ===== verification/Wave64.thy ===== *)
theory Wave64
  imports Bytes
begin

text \<open>
  The exact Wave64 validator, the repair of the FFmpeg padding defect and the payload copy,
  \<open>tonepoet-pipeline/src/w64.rs\<close>. A file is its list of bytes; the reader seeks and reads exactly,
  failing past the end (the only I/O failure of the model), and the repair returns the bytes it
  leaves in the file on its error branches too. Offsets and sizes are \<open>u64\<close> as \<open>nat\<close> with the
  checked additions written out; a file has fewer than \<open>2 ^ 64\<close> bytes. The chunk loop is
  a partial function, its termination is proved in \<open>Wave64Theorems\<close>.
\<close>

subsection \<open>Constants\<close>

definition W64_RIFF_GUID :: "u8 list" where
  "W64_RIFF_GUID = [0x72, 0x69, 0x66, 0x66, 0x2e, 0x91, 0xcf, 0x11, 0xa5, 0xd6, 0x28, 0xdb, 0x04, 0xc1, 0, 0]"

definition W64_WAVE_GUID :: "u8 list" where
  "W64_WAVE_GUID = [0x77, 0x61, 0x76, 0x65, 0xf3, 0xac, 0xd3, 0x11, 0x8c, 0xd1, 0, 0xc0, 0x4f, 0x8e, 0xdb, 0x8a]"

definition W64_FMT_GUID :: "u8 list" where
  "W64_FMT_GUID = [0x66, 0x6d, 0x74, 0x20, 0xf3, 0xac, 0xd3, 0x11, 0x8c, 0xd1, 0, 0xc0, 0x4f, 0x8e, 0xdb, 0x8a]"

definition W64_FACT_GUID :: "u8 list" where
  "W64_FACT_GUID = [0x66, 0x61, 0x63, 0x74, 0xf3, 0xac, 0xd3, 0x11, 0x8c, 0xd1, 0, 0xc0, 0x4f, 0x8e, 0xdb, 0x8a]"

definition W64_DATA_GUID :: "u8 list" where
  "W64_DATA_GUID = [0x64, 0x61, 0x74, 0x61, 0xf3, 0xac, 0xd3, 0x11, 0x8c, 0xd1, 0, 0xc0, 0x4f, 0x8e, 0xdb, 0x8a]"

definition KSDATAFORMAT_SUBTYPE_PCM :: "u8 list" where
  "KSDATAFORMAT_SUBTYPE_PCM = [0x01, 0, 0, 0, 0, 0, 0x10, 0, 0x80, 0, 0, 0xaa, 0, 0x38, 0x9b, 0x71]"

definition KSDATAFORMAT_SUBTYPE_IEEE_FLOAT :: "u8 list" where
  "KSDATAFORMAT_SUBTYPE_IEEE_FLOAT = [0x03, 0, 0, 0, 0, 0, 0x10, 0, 0x80, 0, 0, 0xaa, 0, 0x38, 0x9b, 0x71]"

abbreviation ROOT_HEADER_BYTES :: nat where "ROOT_HEADER_BYTES \<equiv> 40"
abbreviation CHUNK_HEADER_BYTES :: nat where "CHUNK_HEADER_BYTES \<equiv> 24"

subsection \<open>Data\<close>

datatype W64SampleEncoding = SignedInteger | FloatingPoint

record w64_format_expectation =
  x_sample_rate :: nat
  x_channels :: nat
  x_bits :: nat
  x_encoding :: W64SampleEncoding

record w64_structure =
  physical_file_bytes :: nat
  declared_file_bytes :: nat
  chunk_count :: nat
  format_chunk_offset :: nat
  fact_chunk_offset :: "nat option"
  data_chunk_offset :: nat
  declared_data_bytes :: nat
  sample_frames :: nat
  alignment_padding_bytes :: nat

definition data_payload_offset :: "w64_structure \<Rightarrow> nat" where
  "data_payload_offset s = data_chunk_offset s + CHUNK_HEADER_BYTES"

datatype w64_error =
    IoError
  | Overflow
  | ExpectedRateZero
  | ExpectedChannelsZero
  | ExpectedWidth nat
  | ExpectedBlockAlign
  | ExpectedByteRate
  | RootTooShort nat
  | RootNotRiff
  | RootNotWave
  | ExtentMismatch nat nat
  | UnalignedChunk nat
  | TruncatedHeader nat nat
  | ChunkTooSmall nat nat
  | ChunkPastEnd nat nat
  | DuplicateFormat
  | DuplicateFact
  | DuplicateData
  | FactSize nat
  | FormatTooShort nat
  | FormatSize nat
  | ExtensionSize nat
  | BadValidBits nat nat
  | BadChannelMask nat nat
  | UnsupportedSubformat
  | UnsupportedTag nat
  | PaddingPastEnd nat
  | NonZeroPadding nat
  | TraversalEnd nat nat
  | MissingFormat
  | MissingData
  | EncodingMismatch
  | FormatMismatch nat nat
  | DataExtent nat nat
  | NotFrameAligned nat nat
  | FrameCount nat nat
  | MissingFact
  | FactMismatch nat nat
  | SsrcFailed w64_error w64_error
  | NotInt32
  | NotTheDefect w64_error w64_error
  | NoPaddingNeeded w64_error
  | NotPadded nat nat
  | DataNotFinal
  | PaddingIsAudio
  | CopyShort nat nat

record parsed_format =
  p_encoding :: W64SampleEncoding
  p_channels :: nat
  p_sample_rate :: nat
  p_byte_rate :: nat
  p_block_align :: nat
  p_bits :: nat
  p_valid_bits :: nat
  p_channel_mask :: "nat option"

subsection \<open>Reading\<close>

definition read_exact_at :: "u8 list \<Rightarrow> nat \<Rightarrow> nat \<Rightarrow> w64_error + u8 list" where
  "read_exact_at f offset n =
     (if offset + n \<le> length f then Inr (take n (drop offset f)) else Inl IoError)"

definition zero_bytes :: "u8 list \<Rightarrow> bool" where
  "zero_bytes b = list_all (\<lambda>x. x = 0) b"

text \<open>\<open>range_is_all_zero\<close> reads the range in buffers of 8192 bytes and stops at the first that is not
  zero; a range inside the file gives the same answer read at once.\<close>

function range_is_all_zero :: "u8 list \<Rightarrow> nat \<Rightarrow> nat \<Rightarrow> w64_error + bool" where
  "range_is_all_zero f offset remaining = (
     if remaining = 0 then Inr True
     else
       let n = min remaining 8192 in
       res_bind (read_exact_at f offset n) (\<lambda>buf.
         if \<not> zero_bytes buf then Inr False
         else range_is_all_zero f (offset + n) (remaining - n)))"
  by pat_completeness auto
termination by (relation "measure (\<lambda>(f, offset, remaining). remaining)") auto

declare range_is_all_zero.simps [simp del]

definition checked_add :: "nat \<Rightarrow> nat \<Rightarrow> w64_error + nat" where
  "checked_add a b = ok_or Overflow (checked_add64 a b)"

definition align_up_8 :: "nat \<Rightarrow> w64_error + nat" where
  "align_up_8 v = res_bind (checked_add v 7) (\<lambda>w. Inr (w - w mod 8))"

definition count_ones :: "nat \<Rightarrow> nat" where
  "count_ones n = length (filter (bit n) [0..<32])"

subsection \<open>The format chunk\<close>

definition parse_extensible :: "u8 list \<Rightarrow> nat \<Rightarrow> nat \<Rightarrow> w64_error + W64SampleEncoding \<times> nat \<times> nat option" where
  "parse_extensible b n_channels bits = (
     if le_nat (sub_bytes 16 18 b) \<noteq> 22 then Inl (ExtensionSize (le_nat (sub_bytes 16 18 b)))
     else
       let vb = le_nat (sub_bytes 18 20 b); m = le_nat (sub_bytes 20 24 b); sub = sub_bytes 24 40 b in
       if vb = 0 \<or> vb > bits then Inl (BadValidBits vb bits)
       else if m \<noteq> 0 \<and> count_ones m \<noteq> n_channels then Inl (BadChannelMask m n_channels)
       else if sub = KSDATAFORMAT_SUBTYPE_PCM then Inr (SignedInteger, vb, Some m)
       else if sub = KSDATAFORMAT_SUBTYPE_IEEE_FLOAT then Inr (FloatingPoint, vb, Some m)
       else Inl UnsupportedSubformat)"

definition parse_format_bytes :: "u8 list \<Rightarrow> nat \<Rightarrow> w64_error + parsed_format" where
  "parse_format_bytes b payload_bytes =
     (let tag = le_nat (sub_bytes 0 2 b); n = le_nat (sub_bytes 2 4 b);
          rate = le_nat (sub_bytes 4 8 b); byte_rate = le_nat (sub_bytes 8 12 b);
          align = le_nat (sub_bytes 12 14 b); bits = le_nat (sub_bytes 14 16 b) in
      res_bind
        (if tag = 1 then
           (if payload_bytes \<noteq> 16 then Inl (FormatSize payload_bytes)
            else Inr (SignedInteger, bits, None))
         else if tag = 3 then
           (if payload_bytes \<noteq> 16 then Inl (FormatSize payload_bytes)
            else Inr (FloatingPoint, bits, None))
         else if tag = 0xfffe then
           (if payload_bytes \<noteq> 40 \<or> length b < 40 then Inl (FormatSize payload_bytes)
            else parse_extensible b n bits)
         else Inl (UnsupportedTag tag)) (\<lambda>(enc, vb, m).
      Inr \<lparr> p_encoding = enc, p_channels = n, p_sample_rate = rate, p_byte_rate = byte_rate,
            p_block_align = align, p_bits = bits, p_valid_bits = vb, p_channel_mask = m \<rparr>))"

definition parse_format :: "u8 list \<Rightarrow> nat \<Rightarrow> nat \<Rightarrow> w64_error + parsed_format" where
  "parse_format f payload_offset payload_bytes = (
     if payload_bytes < 16 then Inl (FormatTooShort payload_bytes)
     else res_bind (read_exact_at f payload_offset (min payload_bytes 40)) (\<lambda>b.
       parse_format_bytes b payload_bytes))"

subsection \<open>The chunk loop\<close>

record walk =
  offset :: nat
  count :: nat
  w_format :: "(nat \<times> parsed_format) option"
  w_fact :: "(nat \<times> nat) option"
  w_data :: "(nat \<times> nat) option"
  padding :: nat

definition absorb_chunk :: "u8 list \<Rightarrow> u8 list \<Rightarrow> nat \<Rightarrow> nat \<Rightarrow> walk \<Rightarrow> w64_error + walk" where
  "absorb_chunk f guid payload_offset payload_bytes w = (
     if guid = W64_FMT_GUID then
       (if w_format w \<noteq> None then Inl DuplicateFormat
        else res_bind (parse_format f payload_offset payload_bytes) (\<lambda>p.
          Inr (w\<lparr> w_format := Some (offset w, p) \<rparr>)))
     else if guid = W64_FACT_GUID then
       (if w_fact w \<noteq> None then Inl DuplicateFact
        else if payload_bytes \<noteq> 8 then Inl (FactSize payload_bytes)
        else res_bind (read_exact_at f payload_offset 8) (\<lambda>b.
          Inr (w\<lparr> w_fact := Some (offset w, le_nat b) \<rparr>)))
     else if guid = W64_DATA_GUID then
       (if w_data w \<noteq> None then Inl DuplicateData
        else Inr (w\<lparr> w_data := Some (offset w, payload_bytes) \<rparr>))
     else Inr w)"

text \<open>One turn of the loop; the flag tells whether the loop goes on.\<close>

definition after_chunk :: "u8 list \<Rightarrow> bool \<Rightarrow> u8 list \<Rightarrow> nat \<Rightarrow> nat \<Rightarrow> walk \<Rightarrow> w64_error + walk \<times> bool" where
  "after_chunk f allow_ssrc guid chunk_end declared w = (
     if chunk_end = declared then Inr (w\<lparr> offset := chunk_end \<rparr>, False)
     else res_bind
       (if allow_ssrc \<and> guid = W64_DATA_GUID
        then range_is_all_zero f chunk_end (declared - chunk_end) else Inr False) (\<lambda>trailing.
       if trailing then
         res_bind (checked_add (padding w) (declared - chunk_end)) (\<lambda>p.
           Inr (w\<lparr> padding := p, offset := declared \<rparr>, False))
       else
         res_bind (align_up_8 chunk_end) (\<lambda>next_offset.
           if next_offset > declared then Inl (PaddingPastEnd (offset w))
           else if next_offset - chunk_end > 0 then
             res_bind (read_exact_at f chunk_end (next_offset - chunk_end)) (\<lambda>pad.
               if \<not> zero_bytes pad then Inl (NonZeroPadding (offset w))
               else res_bind (checked_add (padding w) (next_offset - chunk_end)) (\<lambda>p.
                 Inr (w\<lparr> padding := p, offset := next_offset \<rparr>, True)))
           else Inr (w\<lparr> offset := next_offset \<rparr>, True))))"

definition chunk_step :: "u8 list \<Rightarrow> nat \<Rightarrow> bool \<Rightarrow> walk \<Rightarrow> w64_error + walk \<times> bool" where
  "chunk_step f declared allow_ssrc w = (
     if offset w mod 8 \<noteq> 0 then Inl (UnalignedChunk (offset w))
     else if declared - offset w < CHUNK_HEADER_BYTES
     then Inl (TruncatedHeader (declared - offset w) (offset w))
     else res_bind (read_exact_at f (offset w) CHUNK_HEADER_BYTES) (\<lambda>h.
       let guid = sub_bytes 0 16 h; size = le_nat (sub_bytes 16 24 h) in
       if size < CHUNK_HEADER_BYTES then Inl (ChunkTooSmall (offset w) size)
       else res_bind (checked_add (offset w) size) (\<lambda>chunk_end.
         if chunk_end > declared then Inl (ChunkPastEnd (offset w) chunk_end)
         else res_bind (checked_add (offset w) CHUNK_HEADER_BYTES) (\<lambda>payload_offset.
           if count w + 1 \<ge> 2 ^ 32 then Inl Overflow
           else res_bind (absorb_chunk f guid payload_offset (size - CHUNK_HEADER_BYTES)
               (w\<lparr> count := count w + 1 \<rparr>))
             (after_chunk f allow_ssrc guid chunk_end declared)))))"

lemma align_up_8_Inr:
  "align_up_8 v = Inr w \<longleftrightarrow> v + 7 < 2 ^ 64 \<and> w = (v + 7) - (v + 7) mod 8"
  by (auto simp: align_up_8_def checked_add_def checked_add64_def)

lemma absorb_chunk_offset:
  "absorb_chunk f g p n w = Inr w' \<Longrightarrow> offset w' = offset w \<and> count w' = count w \<and> padding w' = padding w"
  by (auto simp: absorb_chunk_def res_bind_eq_Inr_iff split: if_splits)

lemma after_chunk_advances:
  assumes "after_chunk f ssrc g e d w = Inr (w', True)"
  shows "e \<le> offset w' \<and> offset w' \<le> d \<and> offset w' mod 8 = 0 \<and> count w' = count w"
proof -
  have "\<exists>v. align_up_8 e = Inr v \<and> offset w' = v \<and> v \<le> d \<and> count w' = count w"
    using assms by (auto simp: after_chunk_def res_bind_eq_Inr_iff Let_def split: if_splits)
  then obtain v where v: "align_up_8 e = Inr v" "offset w' = v" "v \<le> d" "count w' = count w"
    by blast
  have "e \<le> e + 7 - (e + 7) mod 8" by presburger
  moreover have "(e + 7 - (e + 7) mod 8) mod 8 = 0" by presburger
  ultimately show ?thesis using v unfolding align_up_8_Inr by metis
qed

lemma checked_add_Inr [simp]: "checked_add a b = Inr c \<longleftrightarrow> c = a + b \<and> a + b < 2 ^ 64"
  by (auto simp: checked_add_def ok_or_eq_Inr_iff checked_add64_def split: if_splits)

text \<open>What a turn that succeeds has read and checked.\<close>

lemma chunk_step_Inr:
  "chunk_step f d ssrc w = Inr r \<longleftrightarrow>
     (\<exists>guid size u. offset w mod 8 = 0 \<and> 24 \<le> d - offset w \<and> offset w + 24 \<le> length f
        \<and> guid = take 16 (drop (offset w) f) \<and> size = le_nat (take 8 (drop (offset w + 16) f))
        \<and> 24 \<le> size \<and> offset w + size < 2 ^ 64 \<and> offset w + size \<le> d \<and> count w + 1 < 2 ^ 32
        \<and> absorb_chunk f guid (offset w + 24) (size - 24) (w\<lparr> count := count w + 1 \<rparr>) = Inr u
        \<and> after_chunk f ssrc guid (offset w + size) d u = Inr r)"
proof -
  have h: "sub_bytes 0 16 (take 24 (drop (offset w) f)) = take 16 (drop (offset w) f)"
    "sub_bytes 16 24 (take 24 (drop (offset w) f)) = take 8 (drop (offset w + 16) f)"
    by (simp_all add: sub_bytes_def drop_take add.commute)
  show ?thesis
    unfolding chunk_step_def read_exact_at_def
    by (auto simp: res_bind_eq_Inr_iff Let_def h not_less not_le mod_eq_0_iff_dvd)
qed

lemma chunk_step_advances:
  assumes "chunk_step f d ssrc w = Inr (w', True)"
  shows "offset w + 24 \<le> offset w' \<and> offset w' \<le> d \<and> offset w' mod 8 = 0 \<and> count w' = count w + 1"
proof -
  from assms obtain g z u where z: "24 \<le> z"
    and ab: "absorb_chunk f g (offset w + 24) (z - 24) (w\<lparr> count := count w + 1 \<rparr>) = Inr u"
    and af: "after_chunk f ssrc g (offset w + z) d u = Inr (w', True)"
    unfolding chunk_step_Inr by blast
  show ?thesis using after_chunk_advances[OF af] absorb_chunk_offset[OF ab] z by auto
qed

function chunk_loop :: "u8 list \<Rightarrow> nat \<Rightarrow> bool \<Rightarrow> walk \<Rightarrow> w64_error + walk" where
  "chunk_loop f declared allow_ssrc w = (
     if offset w < declared then
       (case chunk_step f declared allow_ssrc w of
          Inl e \<Rightarrow> Inl e
        | Inr (w', continue) \<Rightarrow> if continue then chunk_loop f declared allow_ssrc w' else Inr w')
     else Inr w)"
  by pat_completeness auto
termination
  by (relation "measure (\<lambda>(f, declared, allow_ssrc, w). declared - offset w)")
    (auto dest: chunk_step_advances)

declare chunk_loop.simps [simp del]

subsection \<open>Validation\<close>

definition check_expected :: "w64_format_expectation \<Rightarrow> w64_error + unit" where
  "check_expected x = (
     if x_sample_rate x = 0 then Inl ExpectedRateZero
     else if x_channels x = 0 then Inl ExpectedChannelsZero
     else case x_encoding x of
       SignedInteger \<Rightarrow>
         if x_bits x \<notin> {8, 16, 24, 32} then Inl (ExpectedWidth (x_bits x)) else Inr ()
     | FloatingPoint \<Rightarrow> if x_bits x \<notin> {32, 64} then Inl (ExpectedWidth (x_bits x)) else Inr ())"

definition read_root :: "u8 list \<Rightarrow> w64_error + nat" where
  "read_root f = (
     if length f < ROOT_HEADER_BYTES then Inl (RootTooShort (length f))
     else res_bind (read_exact_at f 0 ROOT_HEADER_BYTES) (\<lambda>root.
       if sub_bytes 0 16 root \<noteq> W64_RIFF_GUID then Inl RootNotRiff
       else let declared = le_nat (sub_bytes 16 24 root) in
       if sub_bytes 24 40 root \<noteq> W64_WAVE_GUID then Inl RootNotWave
       else if declared \<noteq> length f then Inl (ExtentMismatch declared (length f))
       else Inr declared))"

text \<open>The block alignment and byte rate the expectation asks for.\<close>

definition expected_geometry :: "w64_format_expectation \<Rightarrow> w64_error + nat \<times> nat" where
  "expected_geometry x =
     (let bytes_per_sample = (x_bits x + 7) div 8;
          align = x_channels x * bytes_per_sample;
          rate = x_sample_rate x * align in
      if bytes_per_sample = 0 \<or> x_bits x mod 8 \<noteq> 0 then Inl (ExpectedWidth (x_bits x))
      else if align \<ge> 2 ^ 16 then Inl ExpectedBlockAlign
      else if rate \<ge> 2 ^ 32 then Inl ExpectedByteRate
      else Inr (align, rate))"

definition check_format :: "w64_format_expectation \<Rightarrow> nat \<Rightarrow> nat \<Rightarrow> parsed_format \<Rightarrow> w64_error + unit" where
  "check_format x align rate p = (
     if p_encoding p \<noteq> x_encoding x then Inl EncodingMismatch
     else if p_channels p \<noteq> x_channels x then Inl (FormatMismatch (p_channels p) (x_channels x))
     else if p_sample_rate p \<noteq> x_sample_rate x then Inl (FormatMismatch (p_sample_rate p) (x_sample_rate x))
     else if p_bits p \<noteq> x_bits x then Inl (FormatMismatch (p_bits p) (x_bits x))
     else if p_valid_bits p \<noteq> x_bits x then Inl (FormatMismatch (p_valid_bits p) (x_bits x))
     else if (case p_channel_mask p of None \<Rightarrow> False
              | Some m \<Rightarrow> m \<noteq> 0 \<and> count_ones m \<noteq> x_channels x)
     then Inl (FormatMismatch (the (p_channel_mask p)) (x_channels x))
     else if p_block_align p \<noteq> align then Inl (FormatMismatch (p_block_align p) align)
     else if p_byte_rate p \<noteq> rate then Inl (FormatMismatch (p_byte_rate p) rate)
     else Inr ())"

definition check_frames :: "nat option \<Rightarrow> bool \<Rightarrow> nat \<Rightarrow> nat \<Rightarrow> w64_error + nat" where
  "check_frames expected_frames tolerate align data_bytes =
     res_bind
       (case expected_frames of None \<Rightarrow> Inr ()
        | Some n \<Rightarrow> res_bind (ok_or Overflow (checked_mul64 n align)) (\<lambda>want.
            if data_bytes \<noteq> want then Inl (DataExtent data_bytes want) else Inr ())) (\<lambda>_.
     if data_bytes mod align \<noteq> 0 \<and> \<not> (tolerate \<and> data_bytes mod align < 8)
     then Inl (NotFrameAligned data_bytes align)
     else case expected_frames of
       None \<Rightarrow> Inr (data_bytes div align)
     | Some n \<Rightarrow> if data_bytes div align \<noteq> n then Inl (FrameCount (data_bytes div align) n)
               else Inr (data_bytes div align))"

definition check_fact ::
  "W64SampleEncoding \<Rightarrow> (nat \<times> nat) option \<Rightarrow> nat \<Rightarrow> w64_error + nat option" where
  "check_fact enc found frames = (case found of
     None \<Rightarrow> (case enc of FloatingPoint \<Rightarrow> Inl MissingFact | SignedInteger \<Rightarrow> Inr None)
   | Some (fact_offset, fact_frames) \<Rightarrow>
       if fact_frames \<noteq> frames then Inl (FactMismatch fact_frames frames) else Inr (Some fact_offset))"

definition walk_start :: walk where
  "walk_start = \<lparr> offset = ROOT_HEADER_BYTES, count = 0, w_format = None, w_fact = None,
     w_data = None, padding = 0 \<rparr>"

definition conclude :: "w64_format_expectation \<Rightarrow> nat option \<Rightarrow> bool \<Rightarrow> nat \<Rightarrow> nat \<Rightarrow> nat \<Rightarrow> walk
    \<Rightarrow> w64_error + w64_structure" where
  "conclude x expected_frames tolerate declared align rate w = (
     if offset w \<noteq> declared then Inl (TraversalEnd (offset w) declared)
     else res_bind (ok_or MissingFormat (w_format w)) (\<lambda>(format_offset, p).
       res_bind (ok_or MissingData (w_data w)) (\<lambda>(data_offset, data_bytes).
         res_bind (check_format x align rate p) (\<lambda>_.
           res_bind (check_frames expected_frames tolerate (p_block_align p) data_bytes) (\<lambda>frames.
             res_bind (check_fact (x_encoding x) (w_fact w) frames) (\<lambda>fact_offset.
               Inr \<lparr> physical_file_bytes = declared, declared_file_bytes = declared,
                     chunk_count = count w, format_chunk_offset = format_offset,
                     fact_chunk_offset = fact_offset, data_chunk_offset = data_offset,
                     declared_data_bytes = data_bytes, sample_frames = frames,
                     alignment_padding_bytes = padding w \<rparr>))))))"

definition validate_exact_w64_pcm_inner ::
  "u8 list \<Rightarrow> w64_format_expectation \<Rightarrow> nat option \<Rightarrow> bool \<Rightarrow> bool \<Rightarrow> w64_error + w64_structure" where
  "validate_exact_w64_pcm_inner f x expected_frames tolerate allow_ssrc =
     res_bind (check_expected x) (\<lambda>_.
     res_bind (read_root f) (\<lambda>declared.
     res_bind (expected_geometry x) (\<lambda>(align, rate).
     res_bind (chunk_loop f declared allow_ssrc walk_start)
       (conclude x expected_frames tolerate declared align rate))))"

definition inspect_exact_w64_pcm :: "u8 list \<Rightarrow> w64_format_expectation \<Rightarrow> w64_error + w64_structure" where
  "inspect_exact_w64_pcm f x = validate_exact_w64_pcm_inner f x None False False"

definition inspect_w64_pcm_tolerating_final_alignment_padding ::
  "u8 list \<Rightarrow> w64_format_expectation \<Rightarrow> w64_error + w64_structure" where
  "inspect_w64_pcm_tolerating_final_alignment_padding f x =
     validate_exact_w64_pcm_inner f x None True False"

definition validate_exact_w64_pcm :: "u8 list \<Rightarrow> w64_format_expectation \<Rightarrow> nat \<Rightarrow> w64_error + w64_structure" where
  "validate_exact_w64_pcm f x n = validate_exact_w64_pcm_inner f x (Some n) False False"

definition either_exact_or_ssrc :: "u8 list \<Rightarrow> w64_format_expectation \<Rightarrow> nat option \<Rightarrow> w64_error + w64_structure" where
  "either_exact_or_ssrc f x expected_frames =
     (case validate_exact_w64_pcm_inner f x expected_frames False False of
        Inr s \<Rightarrow> Inr s
      | Inl exact_error \<Rightarrow>
          (case validate_exact_w64_pcm_inner f x expected_frames False True of
             Inr s \<Rightarrow> Inr s
           | Inl ssrc_error \<Rightarrow> Inl (SsrcFailed exact_error ssrc_error)))"

definition inspect_ssrc_w64_pcm :: "u8 list \<Rightarrow> w64_format_expectation \<Rightarrow> w64_error + w64_structure" where
  "inspect_ssrc_w64_pcm f x = either_exact_or_ssrc f x None"

definition validate_ssrc_w64_pcm :: "u8 list \<Rightarrow> w64_format_expectation \<Rightarrow> nat \<Rightarrow> w64_error + w64_structure" where
  "validate_ssrc_w64_pcm f x n = either_exact_or_ssrc f x (Some n)"

subsection \<open>The repair and the copy\<close>

definition rewrite_extents :: "w64_structure \<Rightarrow> nat \<Rightarrow> nat \<Rightarrow> u8 list \<Rightarrow> u8 list" where
  "rewrite_extents s exact_data_chunk_bytes exact_file_bytes f =
     take exact_file_bytes (write_at 16 (le_bytes 8 exact_file_bytes)
       (write_at (data_chunk_offset s + 16) (le_bytes 8 exact_data_chunk_bytes) f))"

text \<open>The checks that decide whether the file shows the FFmpeg defect; they give the size of the
  data chunk and of the file after the repair.\<close>

definition repair_plan :: "u8 list \<Rightarrow> w64_format_expectation \<Rightarrow> nat \<Rightarrow> w64_error \<Rightarrow> w64_structure
    \<Rightarrow> w64_error + nat \<times> nat" where
  "repair_plan f x n exact_error s =
     res_bind (ok_or Overflow (checked_mul64 (x_channels x) 4)) (\<lambda>align.
     res_bind (ok_or Overflow (checked_mul64 n align)) (\<lambda>data_bytes.
     let pad = (8 - data_bytes mod 8) mod 8 in
     if pad = 0 then Inl (NoPaddingNeeded exact_error)
     else res_bind (checked_add data_bytes pad) (\<lambda>padded.
     if declared_data_bytes s \<noteq> padded then Inl (NotPadded (declared_data_bytes s) padded)
     else res_bind (checked_add (data_payload_offset s) (declared_data_bytes s)) (\<lambda>data_end.
     if data_end \<noteq> physical_file_bytes s then Inl DataNotFinal
     else res_bind (checked_add (data_payload_offset s) data_bytes) (\<lambda>pad_offset.
     res_bind (read_exact_at f pad_offset pad) (\<lambda>bytes.
     if \<not> zero_bytes bytes then Inl PaddingIsAudio
     else res_bind (checked_add CHUNK_HEADER_BYTES data_bytes) (\<lambda>exact_chunk.
     res_bind (ok_or Overflow (checked_sub (physical_file_bytes s) pad)) (\<lambda>exact_file.
     Inr (exact_chunk, exact_file)))))))))"

definition canonicalize_ffmpeg_int32_w64_terminal ::
  "u8 list \<Rightarrow> w64_format_expectation \<Rightarrow> nat \<Rightarrow> (w64_error + w64_structure) \<times> u8 list" where
  "canonicalize_ffmpeg_int32_w64_terminal f x n = (
     if x_encoding x \<noteq> SignedInteger \<or> x_bits x \<noteq> 32 then (Inl NotInt32, f)
     else case validate_exact_w64_pcm f x n of
       Inr s \<Rightarrow> (Inr s, f)
     | Inl exact_error \<Rightarrow>
         (case inspect_w64_pcm_tolerating_final_alignment_padding f x of
            Inl e \<Rightarrow> (Inl (NotTheDefect exact_error e), f)
          | Inr s \<Rightarrow>
              (case repair_plan f x n exact_error s of
                 Inl e \<Rightarrow> (Inl e, f)
               | Inr (exact_chunk, exact_file) \<Rightarrow>
                   let f' = rewrite_extents s exact_chunk exact_file f in
                   (validate_exact_w64_pcm f' x n, f'))))"

text \<open>The writer collects the bytes it is given.\<close>

definition copy_exact_w64_pcm_payload ::
  "u8 list \<Rightarrow> w64_format_expectation \<Rightarrow> u8 list \<Rightarrow> (w64_error + w64_structure) \<times> u8 list" where
  "copy_exact_w64_pcm_payload f x out = (case inspect_exact_w64_pcm f x of
     Inl e \<Rightarrow> (Inl e, out)
   | Inr s \<Rightarrow>
       let payload = take (declared_data_bytes s) (drop (data_payload_offset s) f) in
       (if length payload \<noteq> declared_data_bytes s
        then Inl (CopyShort (declared_data_bytes s) (length payload)) else Inr s, out @ payload))"

end
