(* ===== verification/Wave64Layout.thy ===== *)
theory Wave64Layout
  imports Wave64
begin

text \<open>
  What a conforming Wave64 file is, written as a rendering: a root header, chunks padded with zeros to
  eight bytes, one format chunk with the bytes the expected PCM format prescribes, one data chunk,
  at most one fact chunk. The lemmas say that the walk of the validator accepts exactly the
  renderings and what it has collected then; \<open>Wave64Theorems\<close> draws the properties from them.
\<close>

subsection \<open>Rendering\<close>

type_synonym chunk = "u8 list \<times> u8 list"

definition chunk_bytes :: "chunk \<Rightarrow> u8 list" where
  "chunk_bytes c = fst c @ le_bytes 8 (24 + length (snd c)) @ snd c"

definition pad_to_8 :: "nat \<Rightarrow> u8 list" where
  "pad_to_8 n = replicate ((8 - n mod 8) mod 8) 0"

text \<open>All chunks but the last are padded, the last one is followed by \<open>tail\<close>.\<close>

fun layout :: "chunk list \<Rightarrow> u8 list \<Rightarrow> u8 list" where
  "layout [] tail = []"
| "layout [c] tail = chunk_bytes c @ tail"
| "layout (c # d # cs) tail = chunk_bytes c @ pad_to_8 (length (snd c)) @ layout (d # cs) tail"

definition w64_file :: "chunk list \<Rightarrow> u8 list \<Rightarrow> u8 list" where
  "w64_file cs tail =
     W64_RIFF_GUID @ le_bytes 8 (40 + length (layout cs tail)) @ W64_WAVE_GUID @ layout cs tail"

text \<open>After the last chunk nothing or its zero padding may follow; the SSRC path admits any run of
  zeros after a data chunk.\<close>

definition tail_allowed :: "bool \<Rightarrow> chunk list \<Rightarrow> u8 list \<Rightarrow> bool" where
  "tail_allowed ssrc cs tail = (tail = []
     \<or> cs \<noteq> [] \<and> (tail = pad_to_8 (length (snd (last cs)))
        \<or> ssrc \<and> fst (last cs) = W64_DATA_GUID \<and> zero_bytes tail))"

text \<open>The chunks with their offsets, and those of one kind.\<close>

fun locate :: "nat \<Rightarrow> chunk list \<Rightarrow> (nat \<times> chunk) list" where
  "locate pos [] = []"
| "locate pos (c # cs) =
     (pos, c) # locate (pos + 24 + length (snd c) + length (pad_to_8 (length (snd c)))) cs"

definition named :: "u8 list \<Rightarrow> (nat \<times> chunk) list \<Rightarrow> (nat \<times> u8 list) list" where
  "named guid lcs = map (\<lambda>(pos, g, b). (pos, b)) (filter (\<lambda>(pos, g, b). g = guid) lcs)"

lemma named_simps [simp]:
  "named G [] = []"
  "named G ((pos, g, b) # lcs) = (if g = G then (pos, b) # named G lcs else named G lcs)"
  by (simp_all add: named_def)

subsection \<open>The format bytes\<close>

definition align_of :: "w64_format_expectation \<Rightarrow> nat" where
  "align_of x = x_channels x * (x_bits x div 8)"

definition supported :: "w64_format_expectation \<Rightarrow> bool" where
  "supported x = (0 < x_sample_rate x \<and> 0 < x_channels x
     \<and> x_bits x \<in> (if x_encoding x = SignedInteger then {8, 16, 24, 32} else {32, 64})
     \<and> align_of x < 2 ^ 16 \<and> x_sample_rate x * align_of x < 2 ^ 32)"

definition format_fields :: "w64_format_expectation \<Rightarrow> nat \<Rightarrow> u8 list" where
  "format_fields x tag = le_bytes 2 tag @ le_bytes 2 (x_channels x) @ le_bytes 4 (x_sample_rate x)
     @ le_bytes 4 (x_sample_rate x * align_of x) @ le_bytes 2 (align_of x) @ le_bytes 2 (x_bits x)"

definition direct_format :: "w64_format_expectation \<Rightarrow> u8 list" where
  "direct_format x = format_fields x (if x_encoding x = SignedInteger then 1 else 3)"

definition extensible_format :: "w64_format_expectation \<Rightarrow> nat \<Rightarrow> u8 list" where
  "extensible_format x m = format_fields x 0xfffe @ le_bytes 2 22 @ le_bytes 2 (x_bits x) @ le_bytes 4 m
     @ (if x_encoding x = SignedInteger then KSDATAFORMAT_SUBTYPE_PCM
        else KSDATAFORMAT_SUBTYPE_IEEE_FLOAT)"

definition format_body :: "w64_format_expectation \<Rightarrow> u8 list \<Rightarrow> bool" where
  "format_body x b = (b = direct_format x
     \<or> (\<exists>m < 2 ^ 32. (m = 0 \<or> count_ones m = x_channels x) \<and> b = extensible_format x m))"

definition parse_body :: "u8 list \<Rightarrow> w64_error + parsed_format" where
  "parse_body b = (if length b < 16 then Inl (FormatTooShort (length b))
     else parse_format_bytes (take 40 b) (length b))"

lemma supported_iff:
  "supported x \<longleftrightarrow> check_expected x = Inr () \<and> (\<exists>r. expected_geometry x = Inr r)"
proof -
  have "x_bits x \<in> {8, 16, 24, 32, 64} \<Longrightarrow>
      (x_bits x + 7) div 8 = x_bits x div 8 \<and> x_bits x mod 8 = 0 \<and> x_bits x div 8 \<noteq> 0" by auto
  then show ?thesis
    by (cases "x_encoding x")
      (auto simp: supported_def check_expected_def expected_geometry_def align_of_def Let_def not_less not_le)
qed

lemma supported_geometry:
  "supported x \<Longrightarrow> expected_geometry x = Inr (align_of x, x_sample_rate x * align_of x)"
  by (auto simp: supported_def expected_geometry_def align_of_def Let_def split: if_splits)

lemma supported_ranges:
  assumes "supported x"
  shows "0 < align_of x \<and> align_of x < 65536 \<and> x_channels x < 65536 \<and> x_sample_rate x < 4294967296
    \<and> x_sample_rate x * align_of x < 4294967296 \<and> x_bits x < 65536"
proof -
  have b: "1 \<le> x_bits x div 8" "x_bits x < 65536" using assms by (auto simp: supported_def split: if_splits)
  have c: "0 < x_channels x" "align_of x < 65536" "x_sample_rate x * align_of x < 4294967296" using assms
    by (auto simp: supported_def)
  have "x_channels x * 1 \<le> align_of x" unfolding align_of_def using b(1) by (rule mult_le_mono2)
  moreover from this c have "x_sample_rate x * 1 \<le> x_sample_rate x * align_of x"
    by (intro mult_le_mono2) linarith
  ultimately show ?thesis using b c by linarith
qed

lemma eq_append_cut: "c = xs @ ys \<longleftrightarrow> take (length xs) c = xs \<and> drop (length xs) c = ys"
  using append_eq_conv_conj[of xs ys c] by auto

lemma le_field:
  assumes "i + k \<le> length c" "n < 256 ^ k"
  shows "take k (drop i c) = le_bytes k n \<longleftrightarrow> le_nat (take k (drop i c)) = n"
  using le_nat_eq_iff[of "take k (drop i c)" k n] assms by simp

lemma format_fields_iff:
  assumes s: "supported x" and l: "length c = 16" and t: "tag < 65536"
  shows "c = format_fields x tag \<longleftrightarrow>
    le_nat (sub_bytes 0 2 c) = tag \<and> le_nat (sub_bytes 2 4 c) = x_channels x
    \<and> le_nat (sub_bytes 4 8 c) = x_sample_rate x
    \<and> le_nat (sub_bytes 8 12 c) = x_sample_rate x * align_of x
    \<and> le_nat (sub_bytes 12 14 c) = align_of x \<and> le_nat (sub_bytes 14 16 c) = x_bits x"
proof -
  note r = supported_ranges[OF s]
  have f: "take 2 c = le_bytes 2 tag \<longleftrightarrow> le_nat (take 2 c) = tag"
    "take 2 (drop 2 c) = le_bytes 2 (x_channels x) \<longleftrightarrow> le_nat (take 2 (drop 2 c)) = x_channels x"
    "take 4 (drop 4 c) = le_bytes 4 (x_sample_rate x) \<longleftrightarrow> le_nat (take 4 (drop 4 c)) = x_sample_rate x"
    "take 4 (drop 8 c) = le_bytes 4 (x_sample_rate x * align_of x)
       \<longleftrightarrow> le_nat (take 4 (drop 8 c)) = x_sample_rate x * align_of x"
    "take 2 (drop 12 c) = le_bytes 2 (align_of x) \<longleftrightarrow> le_nat (take 2 (drop 12 c)) = align_of x"
    "take 2 (drop 14 c) = le_bytes 2 (x_bits x) \<longleftrightarrow> le_nat (take 2 (drop 14 c)) = x_bits x"
    using le_field[of 0 2 c tag] le_field[of 2 2 c "x_channels x"] le_field[of 4 4 c "x_sample_rate x"]
      le_field[of 8 4 c "x_sample_rate x * align_of x"] le_field[of 12 2 c "align_of x"]
      le_field[of 14 2 c "x_bits x"] l t r by simp_all
  have "take 2 (drop 14 c) = drop 14 c" using l by simp
  then have "c = format_fields x tag \<longleftrightarrow> take 2 c = le_bytes 2 tag
     \<and> take 2 (drop 2 c) = le_bytes 2 (x_channels x) \<and> take 4 (drop 4 c) = le_bytes 4 (x_sample_rate x)
     \<and> take 4 (drop 8 c) = le_bytes 4 (x_sample_rate x * align_of x)
     \<and> take 2 (drop 12 c) = le_bytes 2 (align_of x) \<and> take 2 (drop 14 c) = le_bytes 2 (x_bits x)"
    unfolding format_fields_def eq_append_cut[of c] eq_append_cut[of "drop _ _"]
    by (simp add: eq_append_cut[of "drop _ _"])
  then show ?thesis unfolding f sub_bytes_def by simp
qed

lemma sub_bytes_take: "j \<le> n \<Longrightarrow> sub_bytes i j (take n c) = sub_bytes i j c"
  by (simp add: sub_bytes_def drop_take min_def)

lemma length_format_fields [simp]: "length (format_fields x t) = 16"
  by (simp add: format_fields_def)

lemma length_subtypes [simp]:
  "length KSDATAFORMAT_SUBTYPE_PCM = 16" "length KSDATAFORMAT_SUBTYPE_IEEE_FLOAT = 16"
  by (simp_all add: KSDATAFORMAT_SUBTYPE_PCM_def KSDATAFORMAT_SUBTYPE_IEEE_FLOAT_def)

lemma subtypes_differ: "KSDATAFORMAT_SUBTYPE_PCM \<noteq> KSDATAFORMAT_SUBTYPE_IEEE_FLOAT"
  by (simp add: KSDATAFORMAT_SUBTYPE_PCM_def KSDATAFORMAT_SUBTYPE_IEEE_FLOAT_def)

lemma extensible_format_iff:
  assumes s: "supported x" and l: "length c = 40" and m: "m < 2 ^ 32"
  shows "c = extensible_format x m \<longleftrightarrow> take 16 c = format_fields x 0xfffe
    \<and> le_nat (sub_bytes 16 18 c) = 22 \<and> le_nat (sub_bytes 18 20 c) = x_bits x
    \<and> le_nat (sub_bytes 20 24 c) = m \<and> sub_bytes 24 40 c = (if x_encoding x = SignedInteger
        then KSDATAFORMAT_SUBTYPE_PCM else KSDATAFORMAT_SUBTYPE_IEEE_FLOAT)"
proof -
  note r = supported_ranges[OF s]
  have f: "take 2 (drop 16 c) = le_bytes 2 22 \<longleftrightarrow> le_nat (take 2 (drop 16 c)) = 22"
    "take 2 (drop 18 c) = le_bytes 2 (x_bits x) \<longleftrightarrow> le_nat (take 2 (drop 18 c)) = x_bits x"
    "take 4 (drop 20 c) = le_bytes 4 m \<longleftrightarrow> le_nat (take 4 (drop 20 c)) = m"
    using le_field[of 16 2 c 22] le_field[of 18 2 c "x_bits x"] le_field[of 20 4 c m] l m r by simp_all
  have "take 16 (drop 24 c) = drop 24 c" using l by simp
  then have "c = extensible_format x m \<longleftrightarrow> take 16 c = format_fields x 0xfffe
     \<and> take 2 (drop 16 c) = le_bytes 2 22 \<and> take 2 (drop 18 c) = le_bytes 2 (x_bits x)
     \<and> take 4 (drop 20 c) = le_bytes 4 m \<and> take 16 (drop 24 c) = (if x_encoding x = SignedInteger
        then KSDATAFORMAT_SUBTYPE_PCM else KSDATAFORMAT_SUBTYPE_IEEE_FLOAT)"
    unfolding extensible_format_def eq_append_cut[of c] eq_append_cut[of "drop _ _"]
    by (simp add: eq_append_cut[of "drop _ _"])
  then show ?thesis unfolding f sub_bytes_def by simp
qed


text \<open>The parser and the checks on the parsed fields accept exactly the prescribed bytes.\<close>

definition fields_at :: "u8 list \<Rightarrow> W64SampleEncoding \<Rightarrow> nat \<Rightarrow> nat option \<Rightarrow> parsed_format" where
  "fields_at b enc valid m = \<lparr> p_encoding = enc, p_channels = le_nat (sub_bytes 2 4 b),
     p_sample_rate = le_nat (sub_bytes 4 8 b), p_byte_rate = le_nat (sub_bytes 8 12 b),
     p_block_align = le_nat (sub_bytes 12 14 b), p_bits = le_nat (sub_bytes 14 16 b),
     p_valid_bits = valid, p_channel_mask = m \<rparr>"

lemma check_fields_at:
  "check_format x al rt (fields_at b enc valid m) = Inr () \<longleftrightarrow>
     enc = x_encoding x \<and> le_nat (sub_bytes 2 4 b) = x_channels x
     \<and> le_nat (sub_bytes 4 8 b) = x_sample_rate x \<and> le_nat (sub_bytes 14 16 b) = x_bits x
     \<and> valid = x_bits x \<and> (\<forall>k. m = Some k \<longrightarrow> k = 0 \<or> count_ones k = x_channels x)
     \<and> le_nat (sub_bytes 12 14 b) = al \<and> le_nat (sub_bytes 8 12 b) = rt"
  by (cases m) (simp_all add: check_format_def fields_at_def)

lemma parse_body_16:
  "length b = 16 \<Longrightarrow> parse_body b = Inr p \<longleftrightarrow>
     le_nat (sub_bytes 0 2 b) = 1 \<and> p = fields_at b SignedInteger (le_nat (sub_bytes 14 16 b)) None
     \<or> le_nat (sub_bytes 0 2 b) = 3 \<and> p = fields_at b FloatingPoint (le_nat (sub_bytes 14 16 b)) None"
  by (cases "le_nat (sub_bytes 0 2 b) = 1"; cases "le_nat (sub_bytes 0 2 b) = 3")
    (auto simp: parse_body_def parse_format_bytes_def fields_at_def Let_def)

lemma parse_body_direct:
  assumes s: "supported x" and l: "length b = 16"
  shows "(\<exists>p. parse_body b = Inr p \<and> check_format x (align_of x) (x_sample_rate x * align_of x) p = Inr ())
    \<longleftrightarrow> b = direct_format x"
proof -
  have "(if x_encoding x = SignedInteger then 1 else (3::nat)) < 65536" by simp
  note f = format_fields_iff[OF s l this]
  show ?thesis
  proof (cases "x_encoding x")
    case SignedInteger
    show ?thesis
      unfolding direct_format_def f parse_body_16[OF l] conj_disj_distribR ex_disj_distrib
      by (auto simp: SignedInteger check_fields_at)
  next
    case FloatingPoint
    show ?thesis
      unfolding direct_format_def f parse_body_16[OF l] conj_disj_distribR ex_disj_distrib
      by (auto simp: FloatingPoint check_fields_at)
  qed
qed

lemma le_nat_sub_bytes_less: "j - i = k \<Longrightarrow> le_nat (sub_bytes i j c) < 256 ^ k"
  using le_nat_less[of "sub_bytes i j c"] power_increasing[of "length (sub_bytes i j c)" k "256::nat"]
  by (simp add: sub_bytes_def order_less_le_trans)

lemma parse_body_40:
  "length b = 40 \<Longrightarrow> parse_body b = Inr p \<longleftrightarrow>
     le_nat (sub_bytes 0 2 b) = 0xfffe
     \<and> (\<exists>enc. parse_extensible b (le_nat (sub_bytes 2 4 b)) (le_nat (sub_bytes 14 16 b))
            = Inr (enc, le_nat (sub_bytes 18 20 b), Some (le_nat (sub_bytes 20 24 b)))
          \<and> p = fields_at b enc (le_nat (sub_bytes 18 20 b)) (Some (le_nat (sub_bytes 20 24 b))))"
proof -
  assume l: "length b = 40"
  have e: "parse_extensible b n k = Inr (enc, v, m) \<Longrightarrow>
    v = le_nat (sub_bytes 18 20 b) \<and> m = Some (le_nat (sub_bytes 20 24 b))" for n k enc v m
    by (auto simp: parse_extensible_def Let_def split: if_splits)
  show ?thesis
  proof (cases "le_nat (sub_bytes 0 2 b) = 0xfffe")
    case True
    with l show ?thesis
      by (auto simp: parse_body_def parse_format_bytes_def fields_at_def Let_def res_bind_eq_Inr_iff dest: e)
  next
    case False
    with l show ?thesis
      by (auto simp: parse_body_def parse_format_bytes_def Let_def res_bind_eq_Inr_iff split: if_splits)
  qed
qed

lemma parse_extensible_iff:
  "parse_extensible b n k = Inr (enc, le_nat (sub_bytes 18 20 b), Some (le_nat (sub_bytes 20 24 b)))
   \<longleftrightarrow> le_nat (sub_bytes 16 18 b) = 22 \<and> 0 < le_nat (sub_bytes 18 20 b) \<and> le_nat (sub_bytes 18 20 b) \<le> k
     \<and> (le_nat (sub_bytes 20 24 b) = 0 \<or> count_ones (le_nat (sub_bytes 20 24 b)) = n)
     \<and> sub_bytes 24 40 b = (if enc = SignedInteger then KSDATAFORMAT_SUBTYPE_PCM
         else KSDATAFORMAT_SUBTYPE_IEEE_FLOAT)"
  by (cases enc)
    (auto simp: parse_extensible_def Let_def subtypes_differ subtypes_differ[symmetric])

lemma parse_body_extensible:
  assumes s: "supported x" and l: "length b = 40"
  shows "(\<exists>p. parse_body b = Inr p \<and> check_format x (align_of x) (x_sample_rate x * align_of x) p = Inr ())
    \<longleftrightarrow> (\<exists>m < 2 ^ 32. (m = 0 \<or> count_ones m = x_channels x) \<and> b = extensible_format x m)"
proof -
  have t: "length (take 16 b) = 16" using l by simp
  have f: "take 16 b = format_fields x 0xfffe \<longleftrightarrow>
    le_nat (sub_bytes 0 2 b) = 0xfffe \<and> le_nat (sub_bytes 2 4 b) = x_channels x
    \<and> le_nat (sub_bytes 4 8 b) = x_sample_rate x
    \<and> le_nat (sub_bytes 8 12 b) = x_sample_rate x * align_of x
    \<and> le_nat (sub_bytes 12 14 b) = align_of x \<and> le_nat (sub_bytes 14 16 b) = x_bits x"
    using format_fields_iff[OF s t, where tag = 65534] by (simp add: sub_bytes_take)
  let ?m = "le_nat (sub_bytes 20 24 b)"
  have m: "?m < 2 ^ 32" using le_nat_sub_bytes_less[where i = 20 and j = 24 and k = 4 and c = b] by simp
  have r: "(\<exists>m < 2 ^ 32. (m = 0 \<or> count_ones m = x_channels x) \<and> b = extensible_format x m)
    \<longleftrightarrow> (?m = 0 \<or> count_ones ?m = x_channels x) \<and> b = extensible_format x ?m"
    (is "?L \<longleftrightarrow> ?R")
  proof
    assume ?L
    then obtain k where "k < 2 ^ 32" "k = 0 \<or> count_ones k = x_channels x" "b = extensible_format x k"
      by blast
    then show ?R using extensible_format_iff[OF s l, of k] by auto
  next
    assume ?R
    with m show ?L by blast
  qed
  have b: "0 < x_bits x" using s by (auto simp: supported_def split: if_splits)
  have "(\<exists>p. parse_body b = Inr p \<and> check_format x (align_of x) (x_sample_rate x * align_of x) p = Inr ())
     \<longleftrightarrow> le_nat (sub_bytes 0 2 b) = 0xfffe \<and> (\<exists>enc. parse_extensible b (le_nat (sub_bytes 2 4 b))
           (le_nat (sub_bytes 14 16 b)) = Inr (enc, le_nat (sub_bytes 18 20 b), Some ?m)
         \<and> check_format x (align_of x) (x_sample_rate x * align_of x)
             (fields_at b enc (le_nat (sub_bytes 18 20 b)) (Some ?m)) = Inr ())"
    unfolding parse_body_40[OF l] by blast
  also have "\<dots> \<longleftrightarrow> (?m = 0 \<or> count_ones ?m = x_channels x) \<and> b = extensible_format x ?m"
    unfolding extensible_format_iff[OF s l m] f parse_extensible_iff check_fields_at using b by auto
  finally show ?thesis unfolding r .
qed

lemma parse_body_iff:
  assumes s: "supported x"
  shows "(\<exists>p. parse_body b = Inr p \<and> check_format x (align_of x) (x_sample_rate x * align_of x) p = Inr ())
    \<longleftrightarrow> format_body x b"
proof -
  have d: "length (direct_format x) = 16" "\<And>m. length (extensible_format x m) = 40"
    by (simp_all add: direct_format_def extensible_format_def)
  show ?thesis
  proof (cases "length b = 16 \<or> length b = 40")
    case True
    then show ?thesis
    proof
      assume l: "length b = 16"
      then have "b \<noteq> extensible_format x m" for m using d(2)[of m] by auto
      then show ?thesis using parse_body_direct[OF s l] unfolding format_body_def by blast
    next
      assume l: "length b = 40"
      then have "b \<noteq> direct_format x" using d(1) by auto
      then show ?thesis using parse_body_extensible[OF s l] unfolding format_body_def by blast
    qed
  next
    case False
    then have "parse_body b \<noteq> Inr p" for p
      by (auto simp: parse_body_def parse_format_bytes_def Let_def res_bind_eq_Inr_iff split: if_splits)
    moreover have "\<not> format_body x b" using False d unfolding format_body_def by auto
    ultimately show ?thesis by blast
  qed
qed






subsection \<open>One turn of the walk\<close>

lemma all_zero_append [simp]: "zero_bytes (xs @ ys) \<longleftrightarrow> zero_bytes xs \<and> zero_bytes ys"
  by (simp add: zero_bytes_def)

lemma all_zero_replicate [simp]: "zero_bytes (replicate k 0)"
  by (simp add: zero_bytes_def list_all_iff)

lemma all_zero_eq: "zero_bytes xs \<longleftrightarrow> xs = replicate (length xs) 0"
  unfolding zero_bytes_def by (induction xs) auto

lemma range_is_all_zero_inside:
  "pos + n \<le> length f \<Longrightarrow> range_is_all_zero f pos n = Inr (zero_bytes (take n (drop pos f)))"
proof (induction f pos n rule: range_is_all_zero.induct)
  case (1 f pos n)
  show ?case
  proof (cases "n = 0")
    case True
    then show ?thesis by (simp add: range_is_all_zero.simps zero_bytes_def)
  next
    case False
    let ?k = "min n 8192"
    have e: "take n (drop pos f) = take ?k (drop pos f) @ take (n - ?k) (drop (pos + ?k) f)"
      using take_add[of ?k "n - ?k" "drop pos f"] by (simp add: add.commute)
    have r: "read_exact_at f pos ?k = Inr (take ?k (drop pos f))"
      using 1(2) by (auto simp: read_exact_at_def)
    show ?thesis
    proof (cases "zero_bytes (take ?k (drop pos f))")
      case True
      have "range_is_all_zero f (pos + ?k) (n - ?k) = Inr (zero_bytes (take (n - ?k) (drop (pos + ?k) f)))"
        by (rule 1(1)[OF False refl r]) (use True 1(2) in simp_all)
      then show ?thesis
        using False True r e by (simp add: range_is_all_zero.simps[of f pos n] Let_def)
    next
      case nz: False
      then show ?thesis
        using False r e by (simp add: range_is_all_zero.simps[of f pos n] Let_def)
    qed
  qed
qed

definition absorb_body :: "u8 list \<Rightarrow> u8 list \<Rightarrow> walk \<Rightarrow> w64_error + walk" where
  "absorb_body guid b w = (
     if guid = W64_FMT_GUID then
       (if w_format w \<noteq> None then Inl DuplicateFormat
        else res_bind (parse_body b) (\<lambda>p. Inr (w\<lparr> w_format := Some (offset w, p) \<rparr>)))
     else if guid = W64_FACT_GUID then
       (if w_fact w \<noteq> None then Inl DuplicateFact
        else if length b \<noteq> 8 then Inl (FactSize (length b))
        else Inr (w\<lparr> w_fact := Some (offset w, le_nat b) \<rparr>))
     else if guid = W64_DATA_GUID then
       (if w_data w \<noteq> None then Inl DuplicateData
        else Inr (w\<lparr> w_data := Some (offset w, length b) \<rparr>))
     else Inr w)"

lemma absorb_chunk_body:
  assumes "pos + length b \<le> length f" "take (length b) (drop pos f) = b"
  shows "absorb_chunk f g pos (length b) w = absorb_body g b w"
proof -
  have "take (min (length b) 40) (drop pos f) = take 40 b"
    using assms(2) by (metis min.commute take_take)
  then have "parse_format f pos (length b) = parse_body b"
    using assms(1) by (auto simp: parse_format_def parse_body_def read_exact_at_def)
  moreover have "length b = 8 \<Longrightarrow> read_exact_at f pos 8 = Inr b"
    using assms by (auto simp: read_exact_at_def)
  ultimately show ?thesis by (simp add: absorb_chunk_def absorb_body_def)
qed

lemma absorb_body_keeps:
  "absorb_body g b w = Inr u \<Longrightarrow> offset u = offset w \<and> count u = count w \<and> padding u = padding w"
  by (auto simp: absorb_body_def res_bind_eq_Inr_iff split: if_splits)

abbreviation gap :: "nat \<Rightarrow> nat" where "gap e \<equiv> (8 - e mod 8) mod 8"

lemma length_pad_to_8 [simp]: "length (pad_to_8 n) = gap n"
  by (simp add: pad_to_8_def)

lemma align_up_gap: "e + 7 - (e + 7) mod 8 = e + gap (e::nat)"
proof (cases "e mod 8 = 0")
  case True
  then have "(e + 7) mod 8 = 7" using mod_add_left_eq[of e 8 7] by simp
  with True show ?thesis by simp
next
  case False
  then have "e mod 8 + 7 = (e mod 8 - 1) + 8" by simp
  then have "(e mod 8 + 7) mod 8 = e mod 8 - 1"
    using mod_less_divisor[of 8 e] by (simp only: mod_add_self2) simp
  then have "(e + 7) mod 8 = e mod 8 - 1" using mod_add_left_eq[of e 8 7] by simp
  moreover from False have "gap e = 8 - e mod 8" by simp
  moreover obtain r where "r = e mod 8" "r < 8" "0 < r" using False by simp
  ultimately show ?thesis by simp
qed

definition turn_ends :: "bool \<Rightarrow> u8 list \<Rightarrow> u8 list \<Rightarrow> bool" where
  "turn_ends ssrc g rest = (rest = [] \<or> ssrc \<and> g = W64_DATA_GUID \<and> zero_bytes rest)"

lemma after_chunk_iff:
  assumes "e \<le> length f" "length f < 2 ^ 63" "padding u \<le> e"
  shows "after_chunk f ssrc g e (length f) u = Inr (w', cont) \<longleftrightarrow>
     (if turn_ends ssrc g (drop e f)
      then \<not> cont \<and> w' = u\<lparr> padding := padding u + (length f - e), offset := length f \<rparr>
      else e + gap e \<le> length f \<and> zero_bytes (take (gap e) (drop e f)) \<and> cont
        \<and> w' = u\<lparr> padding := padding u + gap e, offset := e + gap e \<rparr>)"
proof -
  have z: "range_is_all_zero f e (length f - e) = Inr (zero_bytes (drop e f))"
    using range_is_all_zero_inside[of e "length f - e" f] assms(1) by simp
  have a: "align_up_8 e = Inr (e + gap e)"
    using align_up_gap[of e] assms unfolding align_up_8_Inr by simp
  have ov: "padding u + (length f - e) < 2 ^ 64" "e + gap e \<le> length f \<Longrightarrow> padding u + gap e < 2 ^ 64"
    using assms by auto
  show ?thesis
  proof (cases "e = length f")
    case True
    then show ?thesis by (auto simp: after_chunk_def turn_ends_def)
  next
    case False
    then have ne: "drop e f \<noteq> []" using assms(1) by simp
    have c: "checked_add (padding u) (length f - e) = Inr (padding u + (length f - e))"
      "e + gap e \<le> length f \<Longrightarrow> checked_add (padding u) (gap e) = Inr (padding u + gap e)"
      using ov by simp_all
    have r: "e + gap e \<le> length f \<Longrightarrow> read_exact_at f e (gap e) = Inr (take (gap e) (drop e f))"
      by (simp add: read_exact_at_def)
    show ?thesis
    proof (cases "turn_ends ssrc g (drop e f)")
      case True
      then show ?thesis using False ne z unfolding after_chunk_def turn_ends_def
        by (auto simp add: c(1) simp del: checked_add_Inr)
    next
      case go: False
      then have t: "(if ssrc \<and> g = W64_DATA_GUID
          then range_is_all_zero f e (length f - e) else Inr False) = Inr False"
        using ne z by (auto simp: turn_ends_def)
      show ?thesis
      proof (cases "e + gap e \<le> length f")
        case True
        then show ?thesis
          using go False r
          by (cases "gap e = 0")
            (auto simp add: after_chunk_def t a zero_bytes_def c(2) simp del: checked_add_Inr)
      next
        case over: False
        then show ?thesis using go False by (simp add: after_chunk_def t a)
      qed
    qed
  qed
qed








lemma chunk_prefix_iff:
  assumes "length g = 16" "24 + length b \<le> length c" "24 + length b < 2 ^ 64"
  shows "take (24 + length b) c = chunk_bytes (g, b) \<longleftrightarrow>
    take 16 c = g \<and> le_nat (take 8 (drop 16 c)) = 24 + length b \<and> take (length b) (drop 24 c) = b"
proof -
  have l: "take 8 (drop 16 c) = le_bytes 8 (24 + length b) \<longleftrightarrow> le_nat (take 8 (drop 16 c)) = 24 + length b"
    using le_field[of 16 8 c "24 + length b"] assms by simp
  have "take (24 + length b) c = take 16 c @ take 8 (drop 16 c) @ take (length b) (drop 24 c)"
    using take_add[of 16 "8 + length b" c] take_add[of 8 "length b" "drop 16 c"] by simp
  then show ?thesis unfolding l[symmetric] using assms(1,2) by (simp add: chunk_bytes_def append_eq_append_conv)
qed

lemma chunk_step_iff:
  assumes f: "length f < 2 ^ 63" and m: "offset w mod 8 = 0"
  shows "chunk_step f (length f) ssrc w = Inr r \<longleftrightarrow>
     (\<exists>g b u. length g = 16 \<and> offset w + 24 + length b \<le> length f
        \<and> take (24 + length b) (drop (offset w) f) = chunk_bytes (g, b) \<and> count w + 1 < 2 ^ 32
        \<and> absorb_body g b (w\<lparr> count := count w + 1 \<rparr>) = Inr u
        \<and> after_chunk f ssrc g (offset w + 24 + length b) (length f) u = Inr r)"
    (is "?L \<longleftrightarrow> (\<exists>g b u. ?R g b u)")
proof
  assume ?L
  then obtain g z u where le: "24 \<le> length f - offset w"
    and g: "g = take 16 (drop (offset w) f)" and z: "z = le_nat (take 8 (drop (offset w + 16) f))"
    and z24: "24 \<le> z" "offset w + z \<le> length f" and c: "count w + 1 < 2 ^ 32"
    and ab: "absorb_chunk f g (offset w + 24) (z - 24) (w\<lparr> count := count w + 1 \<rparr>) = Inr u"
    and af: "after_chunk f ssrc g (offset w + z) (length f) u = Inr r"
    unfolding chunk_step_Inr by blast
  define b where "b = take (z - 24) (drop (offset w + 24) f)"
  have lb: "length b = z - 24" using z24 by (simp add: b_def)
  have lg: "length g = 16" using le g by simp
  have b: "take (length b) (drop (offset w + 24) f) = b" unfolding lb by (simp add: b_def)
  have "take (24 + length b) (drop (offset w) f) = chunk_bytes (g, b)"
    using chunk_prefix_iff[OF lg, of b "drop (offset w) f"] g z z24 lb b f by (simp add: add.commute)
  moreover have "absorb_body g b (w\<lparr> count := count w + 1 \<rparr>) = Inr u"
    using absorb_chunk_body[of "offset w + 24" b f g] b ab lb z24 by simp
  ultimately have "?R g b u" using lg c af z24 lb by simp
  then show "\<exists>g b u. ?R g b u" by blast
next
  assume "\<exists>g b u. ?R g b u"
  then obtain g b u where R: "?R g b u" by blast
  have b: "24 + length b < 2 ^ 64" "24 + length b \<le> length (drop (offset w) f)" using R f by auto
  have p: "take 16 (drop (offset w) f) = g" "le_nat (take 8 (drop (offset w + 16) f)) = 24 + length b"
    "take (length b) (drop (offset w + 24) f) = b"
    using chunk_prefix_iff[of g b "drop (offset w) f"] R b by (simp_all add: add.commute)
  have "absorb_chunk f g (offset w + 24) (length b) (w\<lparr> count := count w + 1 \<rparr>) = Inr u"
    using absorb_chunk_body[of "offset w + 24" b f g] p(3) R by simp
  then show ?L unfolding chunk_step_Inr p(1) p(2) using R m f by (auto simp: add.assoc)
qed

subsection \<open>What the walk collects\<close>

definition takes :: "'a option \<Rightarrow> 'a list \<Rightarrow> 'a option \<Rightarrow> bool" where
  "takes v xs v' = (xs = [] \<and> v' = v \<or> (\<exists>x. xs = [x] \<and> v = None \<and> v' = Some x))"

lemma takes_Nil [simp]: "takes v [] v' \<longleftrightarrow> v' = v"
  by (simp add: takes_def)

lemma takes_Cons [simp]: "takes v (x # xs) v' \<longleftrightarrow> v = None \<and> takes (Some x) xs v'"
  by (auto simp: takes_def)

definition collected :: "(nat \<times> chunk) list \<Rightarrow> walk \<Rightarrow> walk \<Rightarrow> bool" where
  "collected lcs w w' = (count w' = count w + length lcs \<and> (lcs \<noteq> [] \<longrightarrow> count w' < 2 ^ 32)
     \<and> (\<forall>(pos, b) \<in> set (named W64_FMT_GUID lcs). \<exists>p. parse_body b = Inr p)
     \<and> (\<forall>(pos, b) \<in> set (named W64_FACT_GUID lcs). length b = 8)
     \<and> takes (w_format w) (map (\<lambda>(pos, b). (pos, projr (parse_body b))) (named W64_FMT_GUID lcs)) (w_format w')
     \<and> takes (w_fact w) (map (\<lambda>(pos, b). (pos, le_nat b)) (named W64_FACT_GUID lcs)) (w_fact w')
     \<and> takes (w_data w) (map (\<lambda>(pos, b). (pos, length b)) (named W64_DATA_GUID lcs)) (w_data w'))"

lemma guids_differ:
  "W64_FMT_GUID \<noteq> W64_FACT_GUID" "W64_FMT_GUID \<noteq> W64_DATA_GUID" "W64_FACT_GUID \<noteq> W64_DATA_GUID"
  by (simp_all add: W64_FMT_GUID_def W64_FACT_GUID_def W64_DATA_GUID_def)

lemma collected_other:
  "collected lcs (w\<lparr> padding := p, offset := q \<rparr>) w' \<longleftrightarrow> collected lcs w w'"
  by (simp add: collected_def)

lemma collected_Nil: "collected [] w w' \<longleftrightarrow>
  count w' = count w \<and> w_format w' = w_format w \<and> w_fact w' = w_fact w \<and> w_data w' = w_data w"
  by (auto simp: collected_def)

lemma collected_Cons:
  "collected ((offset w, g, b) # lcs) w w' \<longleftrightarrow>
     (\<exists>u. count w + 1 < 2 ^ 32 \<and> absorb_body g b (w\<lparr> count := count w + 1 \<rparr>) = Inr u \<and> collected lcs u w')"
proof -
  consider (fmt) "g = W64_FMT_GUID" | (fact) "g = W64_FACT_GUID" | (data) "g = W64_DATA_GUID"
    | (other) "g \<noteq> W64_FMT_GUID" "g \<noteq> W64_FACT_GUID" "g \<noteq> W64_DATA_GUID"
    by blast
  then show ?thesis
  proof cases
    case fmt
    then show ?thesis using guids_differ
      by (cases "parse_body b"; cases "w_format w") (auto simp: collected_def absorb_body_def)
  next
    case fact
    then show ?thesis using guids_differ
      by (cases "length b = 8"; cases "w_fact w") (auto simp: collected_def absorb_body_def)
  next
    case data
    then show ?thesis using guids_differ
      by (cases "w_data w") (auto simp: collected_def absorb_body_def)
  next
    case other
    then show ?thesis by (auto simp: collected_def absorb_body_def)
  qed
qed




subsection \<open>The walk accepts exactly the renderings\<close>

definition content :: "chunk list \<Rightarrow> nat" where
  "content cs = sum_list (map (\<lambda>c. 24 + length (snd c)) cs)"

definition chunks_ok :: "chunk list \<Rightarrow> bool" where
  "chunks_ok cs = (\<forall>c \<in> set cs. length (fst c) = 16)"

definition walked :: "bool \<Rightarrow> u8 list \<Rightarrow> walk \<Rightarrow> walk \<Rightarrow> chunk list \<Rightarrow> u8 list \<Rightarrow> bool" where
  "walked ssrc f w w' cs tail = (drop (offset w) f = layout cs tail \<and> tail_allowed ssrc cs tail
     \<and> chunks_ok cs \<and> (cs = [] \<longrightarrow> tail = []) \<and> collected (locate (offset w) cs) w w'
     \<and> offset w' = length f \<and> padding w' + content cs = padding w + (length f - offset w))"

lemma length_chunk_bytes: "length (fst c) = 16 \<Longrightarrow> length (chunk_bytes c) = 24 + length (snd c)"
  by (simp add: chunk_bytes_def)

lemma gap_chunk: "pos mod 8 = 0 \<Longrightarrow> gap (pos + 24 + n) = gap n"
proof -
  assume m: "pos mod 8 = 0"
  have "(pos + 24 + n) mod 8 = (n + 3 * 8 + pos) mod 8" by (simp add: add_ac)
  also have "\<dots> = (n + 3 * 8) mod 8" using m mod_add_right_eq[of "n + 3 * 8" pos 8] by simp
  finally have "(pos + 24 + n) mod 8 = (n + 3 * 8) mod 8" .
  then have "(pos + 24 + n) mod 8 = n mod 8" by (simp only: mod_mult_self1)
  then show ?thesis by simp
qed

lemma aligned_gap: "(e + gap e) mod 8 = 0"
  using align_up_gap[of e] by (metis add_diff_cancel_right' div_mult_mod_eq mod_mult_self2_is_0)

lemma zero_pad: "length xs = k \<Longrightarrow> zero_bytes xs \<longleftrightarrow> xs = replicate k 0"
  using all_zero_eq by metis

lemma le_nat_zero: "zero_bytes xs \<Longrightarrow> le_nat xs = 0"
  by (induction xs) (auto simp: zero_bytes_def)

lemma layout_not_zero:
  assumes "cs \<noteq> []" "length (layout cs tail) < 2 ^ 63"
  shows "\<not> zero_bytes (layout cs tail)"
proof
  assume z: "zero_bytes (layout cs tail)"
  obtain c r where r: "layout cs tail = chunk_bytes c @ r"
    using assms(1) by (cases "(cs, tail)" rule: layout.cases) auto
  then have "zero_bytes (le_bytes 8 (24 + length (snd c)))" using z by (simp add: chunk_bytes_def)
  then have "(24 + length (snd c)) mod 256 ^ 8 = 0" using le_nat_zero le_nat_le_bytes by metis
  moreover have "24 + length (snd c) < 256 ^ 8" using r assms(2) by (simp add: chunk_bytes_def)
  ultimately show False by simp
qed

text \<open>The next chunk of the walk, read off a rendering.\<close>

lemma rest_of_chunk:
  assumes r: "drop (offset w) f = chunk_bytes (g, b) @ rest" and g: "length g = 16"
  shows "offset w + 24 + length b + length rest = length f"
    and "drop (offset w + 24 + length b) f = rest"
    and "take (24 + length b) (drop (offset w) f) = chunk_bytes (g, b)"
proof -
  have l: "length (chunk_bytes (g, b)) = 24 + length b" using g by (simp add: length_chunk_bytes)
  then show "offset w + 24 + length b + length rest = length f" using arg_cong[OF r, of length] by simp
  have "drop (offset w + 24 + length b) f = drop (24 + length b) (drop (offset w) f)" by (simp add: add_ac)
  then show "drop (offset w + 24 + length b) f = rest" using r l by simp
  show "take (24 + length b) (drop (offset w) f) = chunk_bytes (g, b)" using r l by simp
qed

lemma after_rest:
  assumes f: "length f < 2 ^ 63" and m: "offset w mod 8 = 0" and p: "padding w \<le> offset w"
    and r: "drop (offset w) f = chunk_bytes (g, b) @ rest" and g: "length g = 16"
    and u: "absorb_body g b (w\<lparr> count := count w + 1 \<rparr>) = Inr u"
  shows "after_chunk f ssrc g (offset w + 24 + length b) (length f) u = Inr (v, cont) \<longleftrightarrow>
     (if turn_ends ssrc g rest
      then \<not> cont \<and> v = u\<lparr> padding := padding w + length rest, offset := length f \<rparr>
      else gap (length b) \<le> length rest \<and> zero_bytes (take (gap (length b)) rest) \<and> cont
        \<and> v = u\<lparr> padding := padding w + gap (length b),
                  offset := offset w + 24 + length b + gap (length b) \<rparr>)"
proof -
  let ?e = "offset w + 24 + length b"
  note c = rest_of_chunk[OF r g]
  have e: "?e \<le> length f" "length f - ?e = length rest"
    "?e + gap (length b) \<le> length f \<longleftrightarrow> gap (length b) \<le> length rest"
    using c(1) by linarith+
  have p': "padding u \<le> ?e" "padding u = padding w" using absorb_body_keeps[OF u] p by simp_all
  show ?thesis
    using after_chunk_iff[OF e(1) f p'(1), of ssrc g v cont]
    unfolding c(2) gap_chunk[OF m] e(2) e(3) p'(2) .
qed

lemma walk_step:
  assumes f: "length f < 2 ^ 63" and m: "offset w mod 8 = 0" and p: "padding w \<le> offset w"
    and r: "drop (offset w) f = chunk_bytes (g, b) @ rest" and g: "length g = 16"
    and u: "count w + 1 < 2 ^ 32" "absorb_body g b (w\<lparr> count := count w + 1 \<rparr>) = Inr u"
  shows "turn_ends ssrc g rest \<Longrightarrow> chunk_step f (length f) ssrc w
      = Inr (u\<lparr> padding := padding w + length rest, offset := length f \<rparr>, False)"
    and "\<not> turn_ends ssrc g rest \<Longrightarrow> gap (length b) \<le> length rest
      \<Longrightarrow> zero_bytes (take (gap (length b)) rest) \<Longrightarrow> chunk_step f (length f) ssrc w
      = Inr (u\<lparr> padding := padding w + gap (length b),
                 offset := offset w + 24 + length b + gap (length b) \<rparr>, True)"
proof -
  note c = rest_of_chunk[OF r g]
  have st: "after_chunk f ssrc g (offset w + 24 + length b) (length f) u = Inr (v, cont) \<Longrightarrow>
      chunk_step f (length f) ssrc w = Inr (v, cont)" for v cont
    unfolding chunk_step_iff[OF f m]
    by (intro exI[of _ g] exI[of _ b] exI[of _ u] conjI) (use g c u in simp_all)
  show "turn_ends ssrc g rest \<Longrightarrow> chunk_step f (length f) ssrc w
      = Inr (u\<lparr> padding := padding w + length rest, offset := length f \<rparr>, False)"
    by (rule st) (simp add: after_rest[OF f m p r g u(2)])
  show "\<not> turn_ends ssrc g rest \<Longrightarrow> gap (length b) \<le> length rest
      \<Longrightarrow> zero_bytes (take (gap (length b)) rest) \<Longrightarrow> chunk_step f (length f) ssrc w
      = Inr (u\<lparr> padding := padding w + gap (length b),
                 offset := offset w + 24 + length b + gap (length b) \<rparr>, True)"
    by (rule st) (simp add: after_rest[OF f m p r g u(2)])
qed

lemma chunk_loop_end: "offset w = d \<Longrightarrow> chunk_loop f d ssrc w = Inr w"
  by (simp add: chunk_loop.simps)

lemma pad_to_8_zero: "take (gap n) (pad_to_8 n @ rest) = pad_to_8 n" "zero_bytes (pad_to_8 n)"
  by (simp_all add: pad_to_8_def)

lemma locate_Cons_gap:
  "locate pos ((g, b) # cs) = (pos, g, b) # locate (pos + 24 + length b + gap (length b)) cs"
  by simp

lemma walk_complete:
  assumes "walked ssrc f w w' cs tail" "length f < 2 ^ 63" "offset w mod 8 = 0"
    "padding w \<le> offset w" "offset w \<le> length f"
  shows "chunk_loop f (length f) ssrc w = Inr w'"
  using assms
proof (induction cs arbitrary: w)
  case Nil
  then have "offset w = length f" "w' = w"
    by (auto simp: walked_def collected_Nil content_def tail_allowed_def intro: walk.equality)
  then show ?case by (simp add: chunk_loop.simps)
next
  case (Cons c cs)
  obtain g b where c: "c = (g, b)" by (cases c)
  note W = Cons.prems(1)[unfolded walked_def]
  obtain rest where r: "drop (offset w) f = chunk_bytes (g, b) @ rest"
    and rest: "rest = (if cs = [] then tail else pad_to_8 (length b) @ layout cs tail)"
    using W c by (cases cs) auto
  have g: "length g = 16" using W c by (simp add: chunks_ok_def)
  have l: "length f - offset w = 24 + length b + length rest"
    using arg_cong[OF r, of length] g by (simp add: length_chunk_bytes)
  obtain u where u: "count w + 1 < 2 ^ 32" "absorb_body g b (w\<lparr> count := count w + 1 \<rparr>) = Inr u"
    and cu: "collected (locate (offset w + 24 + length b + gap (length b)) cs) u w'"
    using W unfolding c locate_Cons_gap collected_Cons by blast
  note st = walk_step[OF Cons.prems(2,3,4) r g u, of ssrc]
  have lt: "offset w < length f" using l by linarith
  note ku = absorb_body_keeps[OF u(2)]
  let ?v = "u\<lparr> padding := padding w + gap (length b), offset := offset w + 24 + length b + gap (length b) \<rparr>"
  have rec: "chunk_loop f (length f) ssrc w = chunk_loop f (length f) ssrc ?v"
    if "\<not> turn_ends ssrc g rest" "gap (length b) \<le> length rest" "zero_bytes (take (gap (length b)) rest)"
    using st that lt by (simp add: chunk_loop.simps[of f "length f" ssrc w])
  have am: "offset ?v mod 8 = 0"
    using aligned_gap[of "offset w + 24 + length b"] gap_chunk[OF Cons.prems(3), of "length b"] by simp
  show ?case
  proof (cases "cs = []")
    case True
    show ?thesis
    proof (cases "turn_ends ssrc g rest")
      case te: True
      have "w' = u\<lparr> padding := padding w + length rest, offset := length f \<rparr>"
        using W cu ku l unfolding c True
        by (intro walk.equality) (auto simp: collected_Nil content_def)
      then show ?thesis using st te lt by (simp add: chunk_loop.simps[of f "length f" ssrc w])
    next
      case nte: False
      then have t: "rest = pad_to_8 (length b)"
        using W rest unfolding c True by (auto simp: turn_ends_def tail_allowed_def)
      then have "w' = ?v" using W cu ku l unfolding c True
        by (intro walk.equality) (auto simp: collected_Nil content_def)
      moreover have "chunk_loop f (length f) ssrc ?v = Inr ?v"
        by (rule chunk_loop_end) (use l t lt in simp)
      ultimately show ?thesis using rec nte t pad_to_8_zero by simp
    qed
  next
    case False
    then have rest': "rest = pad_to_8 (length b) @ layout cs tail" using rest by simp
    have nz: "\<not> zero_bytes (layout cs tail)"
      using layout_not_zero[OF False, of tail] l rest' Cons.prems(2) by simp
    then have "layout cs tail \<noteq> []" by (auto simp: zero_bytes_def)
    then have nte: "\<not> turn_ends ssrc g rest" using nz rest' by (simp add: turn_ends_def)
    have dv: "drop (offset ?v) f = layout cs tail"
    proof -
      have "drop (offset ?v) f = drop (24 + length b + gap (length b)) (drop (offset w) f)" by (simp add: add_ac)
      then show ?thesis using r rest' g by (simp add: length_chunk_bytes)
    qed
    have lv: "length f - offset ?v = length (layout cs tail)" "offset ?v \<le> length f"
      using l rest' lt by simp_all
    have cc: "collected (locate (offset ?v) cs) ?v w'" using cu by (simp add: collected_other)
    have pw: "padding w' + content cs = padding ?v + (length f - offset ?v)"
      using W l lv(1) rest' unfolding c by (simp add: content_def)
    have ta: "tail_allowed ssrc cs tail" "chunks_ok cs" "offset w' = length f"
      using W False by (simp_all add: tail_allowed_def chunks_ok_def)
    have "walked ssrc f ?v w' cs tail"
      unfolding walked_def using dv cc pw ta False by blast
    moreover have "padding ?v \<le> offset ?v" using Cons.prems(4) by simp
    ultimately have "chunk_loop f (length f) ssrc ?v = Inr w'"
      using Cons.IH[OF _ Cons.prems(2) am _ lv(2)] by blast
    then show ?thesis using rec[OF nte] rest' pad_to_8_zero by simp
  qed
qed


lemma layout_snoc_pad: "layout (c # cs) tail =
   chunk_bytes c @ (if cs = [] then tail else pad_to_8 (length (snd c)) @ layout cs tail)"
  by (cases cs) simp_all

lemma walk_sound:
  assumes "chunk_loop f (length f) ssrc w = Inr w'" "length f < 2 ^ 63" "offset w mod 8 = 0"
    "padding w \<le> offset w" "offset w \<le> length f"
  shows "\<exists>cs tail. walked ssrc f w w' cs tail"
  using assms
proof (induction "length f - offset w" arbitrary: w rule: less_induct)
  case less
  show ?case
  proof (cases "offset w < length f")
    case False
    then have "walked ssrc f w w' [] []" using less.prems
      by (simp add: walked_def chunk_loop.simps tail_allowed_def chunks_ok_def collected_Nil content_def)
    then show ?thesis by blast
  next
    case True
    then obtain v cont where s: "chunk_step f (length f) ssrc w = Inr (v, cont)"
      and l: "(if cont then chunk_loop f (length f) ssrc v else Inr v) = Inr w'"
      using less.prems(1) by (auto simp: chunk_loop.simps[of f _ _ w] split: sum.splits prod.splits)
    obtain g b u where g: "length g = 16" and le: "offset w + 24 + length b \<le> length f"
      and t: "take (24 + length b) (drop (offset w) f) = chunk_bytes (g, b)"
      and u: "count w + 1 < 2 ^ 32" "absorb_body g b (w\<lparr> count := count w + 1 \<rparr>) = Inr u"
      and af: "after_chunk f ssrc g (offset w + 24 + length b) (length f) u = Inr (v, cont)"
      using s unfolding chunk_step_iff[OF less.prems(2,3)] by blast
    define rest where "rest = drop (24 + length b) (drop (offset w) f)"
    have r: "drop (offset w) f = chunk_bytes (g, b) @ rest"
      using append_take_drop_id[of "24 + length b" "drop (offset w) f"] t unfolding rest_def by simp
    note c = rest_of_chunk[OF r g]
    note a = af[unfolded after_rest[OF less.prems(2-4) r g u(2)]]
    note ku = absorb_body_keeps[OF u(2)]
    show ?thesis
    proof (cases "turn_ends ssrc g rest")
      case te: True
      then have w': "w' = u\<lparr> padding := padding w + length rest, offset := length f \<rparr>" using a l by simp
      have "collected (locate (offset w) [(g, b)]) w w'"
        unfolding locate_Cons_gap collected_Cons using u w' by (auto simp: collected_Nil)
      then have "walked ssrc f w w' [(g, b)] rest"
        using r te w' c g by (auto simp: walked_def tail_allowed_def turn_ends_def chunks_ok_def content_def)
      then show ?thesis by blast
    next
      case nte: False
      then have v: "v = u\<lparr> padding := padding w + gap (length b),
                            offset := offset w + 24 + length b + gap (length b) \<rparr>"
        and z: "gap (length b) \<le> length rest" "zero_bytes (take (gap (length b)) rest)"
        and lv: "chunk_loop f (length f) ssrc v = Inr w'" using a l by simp_all
      have m: "offset v mod 8 = 0"
        using aligned_gap[of "offset w + 24 + length b"] gap_chunk[OF less.prems(3), of "length b"] v by simp
      have ov: "offset v \<le> length f" "length f - offset v < length f - offset w" "padding v \<le> offset v"
        using v z c less.prems(4) True by simp_all
      obtain cs tail where W: "walked ssrc f v w' cs tail"
        using less.hyps[OF ov(2) lv less.prems(2) m ov(3,1)] by blast
      have pd: "rest = pad_to_8 (length b) @ layout cs tail"
      proof -
        have "drop (gap (length b)) rest = drop (offset v) f" unfolding rest_def v by (simp add: add_ac)
        moreover have "take (gap (length b)) rest = pad_to_8 (length b)"
          using zero_pad[of "take (gap (length b)) rest" "gap (length b)"] z by (simp add: pad_to_8_def)
        ultimately show ?thesis using append_take_drop_id[of "gap (length b)" rest] W
          unfolding walked_def by metis
      qed
      have "collected (locate (offset v) cs) u w'" using W unfolding walked_def v collected_other by simp
      then have cl: "collected (locate (offset w) ((g, b) # cs)) w w'"
        unfolding locate_Cons_gap collected_Cons using u v by auto
      show ?thesis
      proof (cases "cs = []")
        case True
        then have "walked ssrc f w w' [(g, b)] (pad_to_8 (length b))"
          using W r pd cl g c v by (auto simp: walked_def tail_allowed_def chunks_ok_def content_def)
        then show ?thesis by blast
      next
        case False
        then have "walked ssrc f w w' ((g, b) # cs) tail"
          using W r pd cl g c v unfolding walked_def layout_snoc_pad
          by (auto simp: tail_allowed_def chunks_ok_def content_def)
        then show ?thesis by blast
      qed
    qed
  qed
qed







end
