(* ===== verification/Wave64Theorems.thy ===== *)
theory Wave64Theorems
  imports Wave64Layout
begin

text \<open>
  The properties of the Wave64 validator, of the repair and of the payload copy. The validator
  accepts exactly the renderings of \<open>Wave64Layout\<close> with the expected contents and describes them
  truthfully; on this rest the properties of the repair and of the copy. File lengths are below
  \<open>2 ^ 63\<close>, as an operating system's file offset requires.
\<close>

subsection \<open>What the checks after the walk accept\<close>

definition frames_fit :: "nat option \<Rightarrow> bool \<Rightarrow> nat \<Rightarrow> nat \<Rightarrow> bool" where
  "frames_fit frames tolerate al n = ((n mod al = 0 \<or> tolerate \<and> n mod al < 8)
     \<and> (\<forall>m. frames = Some m \<longrightarrow> n = m * al))"

text \<open>One format chunk with the prescribed bytes, one data chunk of whole frames, and a fact chunk
  that states the number of frames, which integer formats may leave out.\<close>

definition contents_ok ::
  "w64_format_expectation \<Rightarrow> nat option \<Rightarrow> bool \<Rightarrow> (nat \<times> chunk) list \<Rightarrow> bool" where
  "contents_ok x frames tolerate lcs =
     ((\<exists>pos b. named W64_FMT_GUID lcs = [(pos, b)] \<and> format_body x b)
      \<and> (\<exists>pos b. named W64_DATA_GUID lcs = [(pos, b)] \<and> frames_fit frames tolerate (align_of x) (length b)
          \<and> (named W64_FACT_GUID lcs = [] \<and> x_encoding x = SignedInteger
             \<or> (\<exists>fpos. named W64_FACT_GUID lcs = [(fpos, le_bytes 8 (length b div align_of x))]))))"

definition structure_of ::
  "w64_format_expectation \<Rightarrow> (nat \<times> chunk) list \<Rightarrow> nat \<Rightarrow> nat \<Rightarrow> w64_structure" where
  "structure_of x lcs n pad = \<lparr> physical_file_bytes = n, declared_file_bytes = n,
     chunk_count = length lcs, format_chunk_offset = fst (hd (named W64_FMT_GUID lcs)),
     fact_chunk_offset = (case named W64_FACT_GUID lcs of [] \<Rightarrow> None | f # _ \<Rightarrow> Some (fst f)),
     data_chunk_offset = fst (hd (named W64_DATA_GUID lcs)),
     declared_data_bytes = length (snd (hd (named W64_DATA_GUID lcs))),
     sample_frames = length (snd (hd (named W64_DATA_GUID lcs))) div align_of x,
     alignment_padding_bytes = pad \<rparr>"

lemma check_frames_iff:
  assumes "n < 2 ^ 64" "0 < al"
  shows "check_frames frames tolerate al n = Inr k \<longleftrightarrow> frames_fit frames tolerate al n \<and> k = n div al"
proof (cases frames)
  case None
  then show ?thesis by (auto simp: check_frames_def frames_fit_def)
next
  case (Some m)
  have "checked_mul64 m al = Some w \<longleftrightarrow> w = m * al \<and> m * al < 2 ^ 64" for w
    by (auto simp: checked_mul64_def)
  with Some assms show ?thesis
    by (auto simp: check_frames_def frames_fit_def res_bind_eq_Inr_iff ok_or_eq_Inr_iff)
qed

lemma check_format_iff:
  assumes "supported x" "parse_body b = Inr p"
  shows "check_format x (align_of x) (x_sample_rate x * align_of x) p = Inr () \<longleftrightarrow> format_body x b"
  using parse_body_iff[OF assms(1), of b] assms(2) by simp

lemma check_format_align: "check_format x al rt p = Inr () \<Longrightarrow> p_block_align p = al"
  by (auto simp: check_format_def split: if_splits)

lemma check_fact_iff:
  "check_fact enc found n = Inr r \<longleftrightarrow>
     (found = None \<and> enc = SignedInteger \<and> r = None \<or> (\<exists>pos. found = Some (pos, n) \<and> r = Some pos))"
  by (cases enc) (auto simp: check_fact_def split: option.splits)

lemma takes_None: "takes None xs v \<longleftrightarrow> (xs = [] \<and> v = None \<or> (\<exists>y. xs = [y] \<and> v = Some y))"
  by (auto simp: takes_def)

lemma conclude_iff:
  assumes s: "supported x" and c: "collected lcs walk_start w"
    and n: "\<forall>(pos, b) \<in> set (named W64_DATA_GUID lcs). length b < 2 ^ 64"
  shows "conclude x frames tolerate (offset w) (align_of x) (x_sample_rate x * align_of x) w = Inr s
    \<longleftrightarrow> contents_ok x frames tolerate lcs \<and> s = structure_of x lcs (offset w) (padding w)"
proof -
  note ws = walk_start_def
  have F: "takes None (map (\<lambda>(pos, b). (pos, projr (parse_body b))) (named W64_FMT_GUID lcs)) (w_format w)"
    and A: "takes None (map (\<lambda>(pos, b). (pos, le_nat b)) (named W64_FACT_GUID lcs)) (w_fact w)"
    and D: "takes None (map (\<lambda>(pos, b). (pos, length b)) (named W64_DATA_GUID lcs)) (w_data w)"
    and P: "\<forall>(pos, b) \<in> set (named W64_FMT_GUID lcs). \<exists>p. parse_body b = Inr p"
    and E: "\<forall>(pos, b) \<in> set (named W64_FACT_GUID lcs). length b = 8" and k: "count w = length lcs"
    using c by (simp_all add: collected_def ws)
  show ?thesis
  proof (cases "\<exists>fo fb. named W64_FMT_GUID lcs = [(fo, fb)]")
    case False
    then have "w_format w = None" using F by (auto simp: takes_None)
    then show ?thesis using False by (auto simp: conclude_def contents_ok_def)
  next
    case True
    then obtain fo fb where f: "named W64_FMT_GUID lcs = [(fo, fb)]" by blast
    then obtain p where p: "parse_body fb = Inr p" and wf: "w_format w = Some (fo, p)"
      using F P by (auto simp: takes_None)
    note cf = check_format_iff[OF s p]
    show ?thesis
    proof (cases "\<exists>dpos db. named W64_DATA_GUID lcs = [(dpos, db)]")
      case False
      then have "w_data w = None" using D by (auto simp: takes_None)
      then show ?thesis using False wf by (auto simp: conclude_def contents_ok_def)
    next
      case True
      then obtain dpos db where d: "named W64_DATA_GUID lcs = [(dpos, db)]" by blast
      then have wd: "w_data w = Some (dpos, length db)" and ld: "length db < 2 ^ 64"
        using D n by (auto simp: takes_None)
      let ?k = "length db div align_of x"
      have kb: "?k < 256 ^ 8" using le_less_trans[OF div_le_dividend[of "length db" "align_of x"] ld] by simp
      have fact: "check_fact (x_encoding x) (w_fact w) ?k = Inr r \<longleftrightarrow>
          (named W64_FACT_GUID lcs = [] \<and> x_encoding x = SignedInteger
             \<or> (\<exists>fpos. named W64_FACT_GUID lcs = [(fpos, le_bytes 8 ?k)]))
          \<and> r = (case named W64_FACT_GUID lcs of [] \<Rightarrow> None | f # _ \<Rightarrow> Some (fst f))" for r
      proof (cases "named W64_FACT_GUID lcs = []")
        case True
        then show ?thesis using A by (auto simp: check_fact_iff takes_None)
      next
        case False
        then obtain ao ab where a: "named W64_FACT_GUID lcs = [(ao, ab)]" "w_fact w = Some (ao, le_nat ab)"
          using A by (auto simp: takes_None)
        then have "le_nat ab = ?k \<longleftrightarrow> ab = le_bytes 8 ?k" using E le_nat_eq_iff[OF _ kb] by auto
        then show ?thesis using a by (auto simp: check_fact_iff)
      qed
      note al = check_format_align[of x "align_of x" "x_sample_rate x * align_of x" p]
      have pos: "0 < align_of x" using supported_ranges[OF s] by simp
      show ?thesis
        unfolding conclude_def contents_ok_def structure_of_def wf wd f d
        using cf al check_frames_iff[OF ld pos, of frames tolerate] fact k
        by (auto simp: res_bind_eq_Inr_iff)
    qed
  qed
qed

subsection \<open>The validator\<close>

lemma length_root_guids [simp]: "length W64_RIFF_GUID = 16" "length W64_WAVE_GUID = 16"
  by (simp_all add: W64_RIFF_GUID_def W64_WAVE_GUID_def)

lemma length_w64_file [simp]: "length (w64_file cs tail) = 40 + length (layout cs tail)"
  by (simp add: w64_file_def)

lemma drop_w64_file: "drop 40 (w64_file cs tail) = layout cs tail"
  by (simp add: w64_file_def)

lemma read_root_iff:
  assumes "length f < 2 ^ 64"
  shows "read_root f = Inr d \<longleftrightarrow> d = length f \<and> 40 \<le> length f
    \<and> f = W64_RIFF_GUID @ le_bytes 8 (length f) @ W64_WAVE_GUID @ drop 40 f"
proof (cases "40 \<le> length f")
  case True
  have e: "f = W64_RIFF_GUID @ le_bytes 8 (length f) @ W64_WAVE_GUID @ drop 40 f \<longleftrightarrow>
    take 16 f = W64_RIFF_GUID \<and> take 8 (drop 16 f) = le_bytes 8 (length f)
      \<and> take 16 (drop 24 f) = W64_WAVE_GUID"
    unfolding eq_append_cut[of f] eq_append_cut[of "drop _ _"] by (simp add: eq_append_cut[of "drop _ _"])
  have s: "sub_bytes 0 16 (take 40 f) = take 16 f" "sub_bytes 16 24 (take 40 f) = take 8 (drop 16 f)"
    "sub_bytes 24 40 (take 40 f) = take 16 (drop 24 f)"
    by (simp_all add: sub_bytes_take) (simp_all add: sub_bytes_def)
  have l: "take 8 (drop 16 f) = le_bytes 8 (length f) \<longleftrightarrow> le_nat (take 8 (drop 16 f)) = length f"
    using le_field[of 16 8 f "length f"] True assms by simp
  show ?thesis unfolding e l using True
    by (auto simp: read_root_def read_exact_at_def s Let_def)
next
  case False
  then show ?thesis by (simp add: read_root_def)
qed




definition conforming ::
  "w64_format_expectation \<Rightarrow> nat option \<Rightarrow> bool \<Rightarrow> bool \<Rightarrow> chunk list \<Rightarrow> u8 list \<Rightarrow> bool" where
  "conforming x frames tolerate ssrc cs tail = (supported x \<and> chunks_ok cs \<and> length cs < 2 ^ 32
     \<and> tail_allowed ssrc cs tail \<and> contents_ok x frames tolerate (locate 40 cs))"

definition summary :: "w64_format_expectation \<Rightarrow> chunk list \<Rightarrow> u8 list \<Rightarrow> w64_structure" where
  "summary x cs tail = structure_of x (locate 40 cs) (40 + length (layout cs tail))
     (length (layout cs tail) - content cs)"

lemma length_locate [simp]: "length (locate pos cs) = length cs"
  by (induction cs arbitrary: pos) auto

lemma named_body_le:
  "(q, b) \<in> set (named G (locate pos cs)) \<Longrightarrow> length b \<le> length (layout cs tail)"
proof (induction cs arbitrary: pos)
  case (Cons c cs)
  obtain g a where c: "c = (g, a)" by (cases c)
  have la: "length a \<le> length (layout (c # cs) tail)"
    by (simp add: layout_snoc_pad c chunk_bytes_def)
  show ?case
  proof (cases "cs = []")
    case True
    then show ?thesis using Cons.prems la by (auto simp: c split: if_splits)
  next
    case False
    then have lc: "length (layout cs tail) \<le> length (layout (c # cs) tail)"
      by (simp add: layout_snoc_pad)
    from Cons.prems consider "b = a"
      | "(q, b) \<in> set (named G (locate (pos + 24 + length a + gap (length a)) cs))"
      unfolding c locate_Cons_gap by (auto split: if_splits)
    then show ?thesis
    proof cases
      case 2
      show ?thesis using Cons.IH[OF 2] lc by linarith
    qed (use la in simp)
  qed
qed simp

lemma content_le_layout: "chunks_ok cs \<Longrightarrow> content cs \<le> length (layout cs tail)"
proof (induction cs)
  case (Cons c cs)
  then have "content cs \<le> length (layout cs tail)" "length (chunk_bytes c) = 24 + length (snd c)"
    by (auto simp: chunks_ok_def length_chunk_bytes)
  then show ?case by (cases cs) (auto simp: content_def)
qed (simp add: content_def)

lemma w64_file_iff:
  "f = w64_file cs tail \<longleftrightarrow> layout cs tail = drop 40 f \<and> 40 \<le> length f
     \<and> f = W64_RIFF_GUID @ le_bytes 8 (length f) @ W64_WAVE_GUID @ drop 40 f"
proof
  assume f: "f = w64_file cs tail"
  then have l: "layout cs tail = drop 40 f" "length f = 40 + length (layout cs tail)"
    by (simp_all add: drop_w64_file)
  then show "layout cs tail = drop 40 f \<and> 40 \<le> length f
     \<and> f = W64_RIFF_GUID @ le_bytes 8 (length f) @ W64_WAVE_GUID @ drop 40 f"
    using f unfolding w64_file_def by simp
next
  assume "layout cs tail = drop 40 f \<and> 40 \<le> length f
     \<and> f = W64_RIFF_GUID @ le_bytes 8 (length f) @ W64_WAVE_GUID @ drop 40 f"
  moreover from this have "40 + length (layout cs tail) = length f" by simp
  ultimately show "f = w64_file cs tail" unfolding w64_file_def by metis
qed

lemma start_fields: "offset walk_start = 40" "padding walk_start = 0" "count walk_start = 0"
  by (simp_all add: walk_start_def)

lemma inner_unfold:
  assumes "length f < 2 ^ 63"
  shows "validate_exact_w64_pcm_inner f x frames tolerate ssrc = Inr s \<longleftrightarrow>
    supported x \<and> read_root f = Inr (length f)
    \<and> (\<exists>w. chunk_loop f (length f) ssrc walk_start = Inr w
       \<and> conclude x frames tolerate (length f) (align_of x) (x_sample_rate x * align_of x) w = Inr s)"
proof -
  have r: "read_root f = Inr d \<Longrightarrow> d = length f" for d using read_root_iff[of f d] assms by simp
  show ?thesis
  proof (cases "supported x")
    case True
    then have "check_expected x = Inr ()" "expected_geometry x = Inr (align_of x, x_sample_rate x * align_of x)"
      using supported_iff supported_geometry by blast+
    then show ?thesis using True r
      by (auto simp: validate_exact_w64_pcm_inner_def res_bind_eq_Inr_iff)
  next
    case False
    then show ?thesis unfolding validate_exact_w64_pcm_inner_def supported_iff res_bind_eq_Inr_iff
      by auto
  qed
qed

text \<open>The heart of the equivalence, for every mode of the validator.\<close>

lemma inner_sound:
  assumes l: "length f < 2 ^ 63" and i: "validate_exact_w64_pcm_inner f x frames tolerate ssrc = Inr s"
  shows "\<exists>cs tail. f = w64_file cs tail \<and> conforming x frames tolerate ssrc cs tail \<and> s = summary x cs tail"
proof -
  obtain w where s: "supported x" and r: "read_root f = Inr (length f)"
    and w: "chunk_loop f (length f) ssrc walk_start = Inr w"
    and c: "conclude x frames tolerate (length f) (align_of x) (x_sample_rate x * align_of x) w = Inr s"
    using i unfolding inner_unfold[OF l] by blast
  have root: "40 \<le> length f" "f = W64_RIFF_GUID @ le_bytes 8 (length f) @ W64_WAVE_GUID @ drop 40 f"
    using r read_root_iff[of f "length f"] l by auto
  obtain cs tail where W: "walked ssrc f walk_start w cs tail"
    using walk_sound[OF w l] root(1) by (auto simp: start_fields)
  then have lay: "drop 40 f = layout cs tail" and ta: "tail_allowed ssrc cs tail" and ok: "chunks_ok cs"
    and col: "collected (locate 40 cs) walk_start w" and ow: "offset w = length f"
    and pw: "padding w + content cs = length f - 40"
    by (simp_all add: walked_def start_fields)
  have f: "f = w64_file cs tail" using w64_file_iff[of f cs tail] lay root by simp
  then have lf: "length f = 40 + length (layout cs tail)" by simp
  have "\<forall>(pos, b) \<in> set (named W64_DATA_GUID (locate 40 cs)). length b < 2 ^ 64"
    using named_body_le[of _ _ W64_DATA_GUID 40 cs tail] lf l by fastforce
  then have "contents_ok x frames tolerate (locate 40 cs)"
    and sw: "s = structure_of x (locate 40 cs) (length f) (padding w)"
    using conclude_iff[OF s col] c ow by simp_all
  moreover have "length cs < 2 ^ 32" using col by (cases cs) (auto simp: collected_def start_fields)
  moreover have "padding w = length (layout cs tail) - content cs" using pw lf by simp
  ultimately show ?thesis using f s ta ok lf unfolding conforming_def summary_def by auto
qed

lemma inner_complete:
  assumes l: "length f < 2 ^ 63" and f: "f = w64_file cs tail"
    and cf: "conforming x frames tolerate ssrc cs tail"
  shows "validate_exact_w64_pcm_inner f x frames tolerate ssrc = Inr (summary x cs tail)"
proof -
  have s: "supported x" and ok: "chunks_ok cs" and lc: "length cs < 2 ^ 32"
    and ta: "tail_allowed ssrc cs tail" and co: "contents_ok x frames tolerate (locate 40 cs)"
    using cf by (simp_all add: conforming_def)
  let ?L = "locate 40 cs"
  obtain fo fb dpos db where n: "named W64_FMT_GUID ?L = [(fo, fb)]" "format_body x fb"
    "named W64_DATA_GUID ?L = [(dpos, db)]"
    using co by (auto simp: contents_ok_def)
  obtain p where p: "parse_body fb = Inr p" using parse_body_iff[OF s] n(2) by blast
  let ?w = "\<lparr> offset = length f, count = length cs, w_format = Some (fo, p),
     w_fact = (case named W64_FACT_GUID ?L of [] \<Rightarrow> None | (o', b) # _ \<Rightarrow> Some (o', le_nat b)),
     w_data = Some (dpos, length db), padding = length (layout cs tail) - content cs \<rparr>"
  have col: "collected ?L walk_start ?w"
    using n p lc co by (auto simp: collected_def walk_start_def takes_None contents_ok_def)
  have lf: "length f = 40 + length (layout cs tail)" using f by simp
  have dr: "drop 40 f = layout cs tail" using f by (simp add: drop_w64_file)
  have "walked ssrc f walk_start ?w cs tail"
    unfolding walked_def
  proof (intro conjI)
    show "cs = [] \<longrightarrow> tail = []" using ta by (auto simp: tail_allowed_def)
    show "padding ?w + content cs = padding walk_start + (length f - offset walk_start)"
      using lf content_le_layout[OF ok, of tail] by (simp add: start_fields)
    show "drop (offset walk_start) f = layout cs tail" unfolding start_fields by (rule dr)
    show "collected (locate (offset walk_start) cs) walk_start ?w" unfolding start_fields by (rule col)
    show "offset ?w = length f" by simp
  qed (rule ta ok)+
  then have lo: "chunk_loop f (length f) ssrc walk_start = Inr ?w"
    using walk_complete[OF _ l] lf by (simp add: start_fields)
  have "\<forall>(pos, b) \<in> set (named W64_DATA_GUID ?L). length b < 2 ^ 64"
    using named_body_le[of _ _ W64_DATA_GUID 40 cs tail] lf l by fastforce
  from conclude_iff[OF s col this, of frames tolerate]
  have "conclude x frames tolerate (length f) (align_of x) (x_sample_rate x * align_of x) ?w
      = Inr (summary x cs tail)"
    using co lf by (simp add: summary_def)
  moreover have "read_root f = Inr (length f)"
  proof -
    have "length f < 2 ^ 64" using l by simp
    then show ?thesis using iffD1[OF w64_file_iff f] by (subst read_root_iff) blast+
  qed
  ultimately show ?thesis unfolding inner_unfold[OF l] using s lo by blast
qed








lemma conforming_weaken:
  "conforming x frames False False cs tail \<Longrightarrow> conforming x frames False ssrc cs tail"
  "conforming x frames False False cs tail \<Longrightarrow> conforming x None True False cs tail"
  by (auto simp: conforming_def tail_allowed_def contents_ok_def frames_fit_def)

lemma inner_iff:
  assumes "length f < 2 ^ 63"
  shows "validate_exact_w64_pcm_inner f x frames tolerate ssrc = Inr s \<longleftrightarrow>
    (\<exists>cs tail. f = w64_file cs tail \<and> conforming x frames tolerate ssrc cs tail \<and> s = summary x cs tail)"
  using inner_sound[OF assms] inner_complete[OF assms] by blast

text \<open>C11: The exact validator accepts exactly the conforming Wave64 files: the root header with the
  true file length, chunks padded with zeros to eight bytes, exactly one format chunk with the bytes
  the expected sample format prescribes (plain or extensible), exactly one data chunk of the
  expected number of frames, at most one fact chunk, stating that number and required for
  floating-point samples. What it reports is the description of that file.\<close>

theorem exact_accepts_renderings:
  assumes "length f < 2 ^ 63"
  shows "validate_exact_w64_pcm f x n = Inr s \<longleftrightarrow>
    (\<exists>cs tail. f = w64_file cs tail \<and> conforming x (Some n) False False cs tail \<and> s = summary x cs tail)"
  unfolding validate_exact_w64_pcm_def by (rule inner_iff[OF assms])

text \<open>C37: The SSRC validator accepts, beside the files of the exact one, exactly those with a run of
  zeros of any length after a final data chunk; payload, format and frame count stay exact.\<close>

theorem ssrc_accepts_renderings:
  assumes "length f < 2 ^ 63"
  shows "validate_ssrc_w64_pcm f x n = Inr s \<longleftrightarrow>
    (\<exists>cs tail. f = w64_file cs tail \<and> conforming x (Some n) False True cs tail \<and> s = summary x cs tail)"
proof -
  have "validate_exact_w64_pcm_inner f x (Some n) False True = Inr s"
    if "validate_exact_w64_pcm_inner f x (Some n) False False = Inr s" for s
    using that conforming_weaken(1) unfolding inner_iff[OF assms] by blast
  then have "validate_ssrc_w64_pcm f x n = Inr s \<longleftrightarrow>
      validate_exact_w64_pcm_inner f x (Some n) False True = Inr s"
    unfolding validate_ssrc_w64_pcm_def either_exact_or_ssrc_def
    by (cases "validate_exact_w64_pcm_inner f x (Some n) False False")
      (auto split: sum.splits)
  then show ?thesis unfolding inner_iff[OF assms] .
qed

subsection \<open>The chunk loop ends\<close>

definition chunk_turn :: "u8 list \<Rightarrow> nat \<Rightarrow> bool \<Rightarrow> walk \<Rightarrow> walk \<Rightarrow> bool" where
  "chunk_turn f declared ssrc w w' = (offset w < declared \<and> chunk_step f declared ssrc w = Inr (w', True))"

text \<open>C19: The chunk loop ends on every file: each turn that goes on moves past a chunk header to an
  aligned offset inside the file, so that after \<open>k\<close> turns \<open>k\<close> chunks are counted and
  \<open>24 * k\<close> bytes passed; no run has more than \<open>(declared - 40) div 24\<close> such turns.\<close>

theorem chunk_loop_ends:
  assumes "(chunk_turn f declared ssrc ^^ k) walk_start w"
  shows "k \<le> (declared - 40) div 24 \<and> count w = k \<and> 40 + 24 * k \<le> offset w \<and> offset w mod 8 = 0"
proof -
  have "count w = k \<and> 40 + 24 * k \<le> offset w \<and> offset w mod 8 = 0 \<and> (0 < k \<longrightarrow> offset w \<le> declared)"
    using assms
  proof (induction k arbitrary: w)
    case 0
    then show ?case by (auto simp: walk_start_def)
  next
    case (Suc k)
    then obtain v where v: "(chunk_turn f declared ssrc ^^ k) walk_start v" "chunk_turn f declared ssrc v w"
      by auto
    have "chunk_step f declared ssrc v = Inr (w, True)" using v(2) by (simp add: chunk_turn_def)
    from chunk_step_advances[OF this] Suc.IH[OF v(1)] show ?case by auto
  qed
  then show ?thesis by (cases "k = 0") auto
qed

subsection \<open>The padding defect\<close>

definition prefix_bytes :: "chunk list \<Rightarrow> u8 list" where
  "prefix_bytes cs = concat (map (\<lambda>c. chunk_bytes c @ pad_to_8 (length (snd c))) cs)"

lemma layout_snoc: "layout (cs @ [c]) tail = prefix_bytes cs @ chunk_bytes c @ tail"
  by (induction cs) (simp_all add: prefix_bytes_def layout_snoc_pad)

lemma locate_snoc:
  "chunks_ok cs \<Longrightarrow> locate pos (cs @ [c]) = locate pos cs @ [(pos + length (prefix_bytes cs), c)]"
  by (induction cs arbitrary: pos)
    (auto simp: prefix_bytes_def chunks_ok_def length_chunk_bytes add_ac)

lemma named_append: "named G (l @ m) = named G l @ named G m"
  by (simp add: named_def)

lemma write_at_append:
  "length zs = length ys \<Longrightarrow> pos = length xs \<Longrightarrow> write_at pos ys (xs @ zs @ ws) = xs @ ys @ ws"
  by (simp add: write_at_def)

lemma rewrite_extents_file:
  assumes ok: "chunks_ok cs" and g: "length g = 16"
    and d: "data_chunk_offset s = 40 + length (prefix_bytes cs)"
  shows "rewrite_extents s (24 + length b) (40 + length (layout (cs @ [(g, b)]) []))
      (w64_file (cs @ [(g, b @ z)]) []) = w64_file (cs @ [(g, b)]) []"
proof -
  let ?N = "40 + length (layout (cs @ [(g, b @ z)]) [])" and ?M = "40 + length (layout (cs @ [(g, b)]) [])"
  let ?h = "W64_RIFF_GUID @ le_bytes 8 ?N @ W64_WAVE_GUID @ prefix_bytes cs @ g"
  have f: "w64_file (cs @ [(g, b @ z)]) [] = ?h @ le_bytes 8 (24 + length (b @ z)) @ (b @ z)"
    by (simp add: w64_file_def layout_snoc chunk_bytes_def)
  have w: "write_at (data_chunk_offset s + 16) (le_bytes 8 (24 + length b))
      (w64_file (cs @ [(g, b @ z)]) []) = ?h @ le_bytes 8 (24 + length b) @ (b @ z)"
    unfolding f by (rule write_at_append) (simp_all add: d g)
  have "write_at 16 (le_bytes 8 ?M) (W64_RIFF_GUID @ le_bytes 8 ?N @ (W64_WAVE_GUID @ prefix_bytes cs @ g
        @ le_bytes 8 (24 + length b) @ b @ z))
      = W64_RIFF_GUID @ le_bytes 8 ?M @ (W64_WAVE_GUID @ prefix_bytes cs @ g
        @ le_bytes 8 (24 + length b) @ b @ z)"
    by (rule write_at_append) simp_all
  then have "rewrite_extents s (24 + length b) ?M (w64_file (cs @ [(g, b @ z)]) [])
      = take ?M (w64_file (cs @ [(g, b)]) [] @ z)"
    unfolding rewrite_extents_def w by (simp add: w64_file_def layout_snoc chunk_bytes_def)
  also have "\<dots> = w64_file (cs @ [(g, b)]) []" by simp
  finally show ?thesis .
qed

text \<open>A chunk that reaches the end of the file is the last one, with nothing after it.\<close>

lemma chunk_at_end:
  assumes "(q, b) \<in> set (named G (locate pos cs))" "chunks_ok cs"
    and "q + 24 + length b = pos + length (layout cs tail)"
  shows "tail = [] \<and> (\<exists>cs'. cs = cs' @ [(G, b)])"
  using assms
proof (induction cs arbitrary: pos)
  case (Cons c cs)
  obtain g a where c: "c = (g, a)" by (cases c)
  have l: "length (chunk_bytes c) = 24 + length a" and ok: "chunks_ok cs"
    using Cons.prems(2) by (simp_all add: c chunks_ok_def length_chunk_bytes)
  show ?case
  proof (cases "cs = []")
    case True
    then show ?thesis using Cons.prems l by (auto simp: c split: if_splits)
  next
    case False
    then have lay: "length (layout (c # cs) tail) = 24 + length a + gap (length a) + length (layout cs tail)"
      using l by (simp add: layout_snoc_pad c)
    have pos: "0 < length (layout cs tail)"
      using False by (cases cs) (simp_all add: layout_snoc_pad chunk_bytes_def)
    show ?thesis
    proof (cases "(q, b) = (pos, a) \<and> g = G")
      case True
      then show ?thesis using Cons.prems(3) lay pos by simp
    next
      case no: False
      then have "(q, b) \<in> set (named G (locate (pos + 24 + length a + gap (length a)) cs))"
        using Cons.prems(1) unfolding c locate_Cons_gap by (auto split: if_splits)
      from Cons.IH[OF this ok] Cons.prems(3) lay c show ?thesis by (auto simp: add_ac)
    qed
  qed
qed simp


lemma contents_padded:
  assumes al: "8 \<le> al \<or> named W64_FACT_GUID lcs = []" "al = align_of x" "0 < al"
    and b: "length b = n * al" and z: "length z < 8"
  shows "contents_ok x None True (lcs @ [(p, W64_DATA_GUID, b @ z)])
    \<longleftrightarrow> contents_ok x (Some n) False (lcs @ [(p, W64_DATA_GUID, b)])"
proof -
  have fit: "frames_fit None True al (length (b @ z))" "frames_fit (Some n) False al (length b)"
    using b z by (auto simp: frames_fit_def intro: le_less_trans[OF mod_less_eq_dividend])
  have k: "8 \<le> al \<Longrightarrow> length (b @ z) div al = n" "length b div al = n"
    using b z al(3) by simp_all
  show ?thesis
    using al(1) guids_differ fit k unfolding contents_ok_def al(2)[symmetric]
    by (auto simp: named_append)
qed

lemma conforming_padded:
  assumes s: "supported x" "x_bits x = 32" and b: "length b = n * align_of x"
    and ok: "chunks_ok cs" and f: "x_channels x \<noteq> 1 \<or> named W64_FACT_GUID (locate 40 cs) = []"
    and z: "length z < 8"
  shows "conforming x None True False (cs @ [(W64_DATA_GUID, b @ z)]) []
    \<longleftrightarrow> conforming x (Some n) False False (cs @ [(W64_DATA_GUID, b)]) []"
proof -
  have "0 < x_channels x" using s by (simp add: supported_def)
  then have "8 \<le> align_of x \<or> named W64_FACT_GUID (locate 40 cs) = []" "0 < align_of x"
    using f s(2) by (auto simp: align_of_def)
  from contents_padded[OF this(1) refl this(2) b z] show ?thesis
    using ok by (auto simp: conforming_def locate_snoc chunks_ok_def tail_allowed_def)
qed

lemma conforming_data:
  assumes "conforming x frames tolerate ssrc cs tail"
  obtains pos b where "named W64_DATA_GUID (locate 40 cs) = [(pos, b)]"
    "data_chunk_offset (summary x cs tail) = pos" "declared_data_bytes (summary x cs tail) = length b"
    "physical_file_bytes (summary x cs tail) = 40 + length (layout cs tail)"
    "frames_fit frames tolerate (align_of x) (length b)"
  using assms by (auto simp: conforming_def contents_ok_def summary_def structure_of_def)

lemma conforming_snoc_data:
  assumes "conforming x frames tolerate ssrc (cs @ [(W64_DATA_GUID, b)]) tail"
  shows "data_chunk_offset (summary x (cs @ [(W64_DATA_GUID, b)]) tail) = 40 + length (prefix_bytes cs)
    \<and> declared_data_bytes (summary x (cs @ [(W64_DATA_GUID, b)]) tail) = length b \<and> chunks_ok cs"
proof -
  have ok: "chunks_ok cs" using assms by (simp add: conforming_def chunks_ok_def)
  obtain pos b' where "named W64_DATA_GUID (locate 40 (cs @ [(W64_DATA_GUID, b)])) = [(pos, b')]"
    "data_chunk_offset (summary x (cs @ [(W64_DATA_GUID, b)]) tail) = pos"
    "declared_data_bytes (summary x (cs @ [(W64_DATA_GUID, b)]) tail) = length b'"
    using conforming_data[OF assms] by metis
  then show ?thesis using ok by (simp add: locate_snoc named_append)
qed

lemma repair_plan_iff:
  assumes ch: "x_channels x * 4 < 2 ^ 64" and nb: "nb = n * (x_channels x * 4)" and pad: "pad = gap nb"
  shows "repair_plan f x n e s = Inr (ec, ef) \<longleftrightarrow>
    nb < 2 ^ 64 \<and> pad \<noteq> 0 \<and> nb + pad < 2 ^ 64 \<and> declared_data_bytes s = nb + pad
    \<and> data_payload_offset s + declared_data_bytes s < 2 ^ 64
    \<and> data_payload_offset s + declared_data_bytes s = physical_file_bytes s
    \<and> data_payload_offset s + nb < 2 ^ 64 \<and> data_payload_offset s + nb + pad \<le> length f
    \<and> zero_bytes (take pad (drop (data_payload_offset s + nb) f)) \<and> 24 + nb < 2 ^ 64
    \<and> pad \<le> physical_file_bytes s \<and> ec = 24 + nb \<and> ef = physical_file_bytes s - pad"
proof (cases "nb < 2 ^ 64")
  case True
  have m: "checked_mul64 (x_channels x) 4 = Some (x_channels x * 4)"
    "checked_mul64 n (x_channels x * 4) = Some nb"
    using ch True unfolding checked_mul64_def nb by simp_all
  have su: "ok_or Overflow (checked_sub (physical_file_bytes s) pad) = Inr v \<longleftrightarrow>
      pad \<le> physical_file_bytes s \<and> v = physical_file_bytes s - pad" for v
    by (auto simp: checked_sub_def)
  have rd: "read_exact_at f pos pad = Inr v \<longleftrightarrow> pos + pad \<le> length f \<and> v = take pad (drop pos f)" for pos v
    by (auto simp: read_exact_at_def)
  show ?thesis
    unfolding repair_plan_def m ok_or_simps res_bind_Inr Let_def pad[symmetric] using True
    by (cases "pad = 0"; cases "declared_data_bytes s = nb + pad";
        cases "data_payload_offset s + declared_data_bytes s = physical_file_bytes s")
      (auto simp: res_bind_eq_Inr_iff su rd)
next
  case False
  have "checked_mul64 (x_channels x) 4 = Some (x_channels x * 4)"
    "checked_mul64 n (x_channels x * 4) = None"
    using ch False unfolding checked_mul64_def nb by simp_all
  then show ?thesis using False by (simp add: repair_plan_def)
qed

text \<open>What the checks of the repair have established when they pass.\<close>

lemma repair_planD:
  assumes l: "length f < 2 ^ 63" and x: "x_bits x = 32"
    and i: "validate_exact_w64_pcm_inner f x None True False = Inr s"
    and p: "repair_plan f x n e s = Inr (ec, ef)"
  obtains cs b where "f = w64_file (cs @ [(W64_DATA_GUID, b @ pad_to_8 (length b))]) []"
    "conforming x None True False (cs @ [(W64_DATA_GUID, b @ pad_to_8 (length b))]) []"
    "length b = n * align_of x" "length b mod 8 \<noteq> 0" "chunks_ok cs"
    "rewrite_extents s ec ef f = w64_file (cs @ [(W64_DATA_GUID, b)]) []"
proof -
  obtain ds tail where f: "f = w64_file ds tail" and cf: "conforming x None True False ds tail"
    and s: "s = summary x ds tail"
    using i inner_iff[OF l] by blast
  obtain pos body where nm: "named W64_DATA_GUID (locate 40 ds) = [(pos, body)]"
    and dp: "data_chunk_offset s = pos" and dl: "declared_data_bytes s = length body"
    and ph: "physical_file_bytes s = length f"
    using conforming_data[OF cf] s f by (metis length_w64_file)
  let ?nb = "n * align_of x"
  have al: "x_channels x * 4 = align_of x" using x by (simp add: align_of_def)
  have ch: "x_channels x * 4 < 2 ^ 64"
    unfolding al using supported_ranges[of x] cf by (simp add: conforming_def)
  have pl: "gap ?nb \<noteq> 0" "length body = ?nb + gap ?nb" "pos + 24 + length body = length f"
    "zero_bytes (take (gap ?nb) (drop (pos + 24 + ?nb) f))" "ec = 24 + ?nb" "ef = length f - gap ?nb"
    using p unfolding repair_plan_iff[OF ch refl refl] data_payload_offset_def dp dl ph al by blast+
  obtain cs where tl: "tail = []" and ds: "ds = cs @ [(W64_DATA_GUID, body)]"
    using chunk_at_end[of pos body W64_DATA_GUID 40 ds tail] nm cf pl(3) f by (auto simp: conforming_def)
  define b where "b = take ?nb body"
  have lb: "length b = ?nb" using pl(2) by (simp add: b_def)
  have ok: "chunks_ok cs" using cf by (simp add: ds conforming_def chunks_ok_def)
  have posv: "pos = 40 + length (prefix_bytes cs)"
    using conforming_snoc_data[of x None True False cs body tail] cf s dp ds by simp
  have "drop ?nb body = take (gap ?nb) (drop (pos + 24 + ?nb) f)"
  proof -
    have "f = (W64_RIFF_GUID @ le_bytes 8 (length f) @ W64_WAVE_GUID @ prefix_bytes cs
        @ W64_DATA_GUID @ le_bytes 8 (24 + length body)) @ body"
      unfolding f tl ds by (simp add: w64_file_def layout_snoc chunk_bytes_def)
    moreover have "length (W64_RIFF_GUID @ le_bytes 8 (length f) @ W64_WAVE_GUID @ prefix_bytes cs
        @ W64_DATA_GUID @ le_bytes 8 (24 + length body)) = pos + 24"
      unfolding posv by (simp add: W64_DATA_GUID_def)
    ultimately have "drop (pos + 24) f = body" by (metis append_eq_conv_conj)
    then have "drop (pos + 24 + ?nb) f = drop ?nb body" by (metis add.commute drop_drop)
    then show ?thesis using pl(2) by simp
  qed
  then have "zero_bytes (drop ?nb body)" using pl(4) by (simp only:)
  then have "drop ?nb body = replicate (length (drop ?nb body)) 0" by (rule all_zero_eq[THEN iffD1])
  then have "drop ?nb body = pad_to_8 (length b)" using pl(2) by (simp add: pad_to_8_def lb)
  then have body: "body = b @ pad_to_8 (length b)"
    using append_take_drop_id[of ?nb body] b_def by metis
  have "length f = 40 + length (layout (cs @ [(W64_DATA_GUID, b)]) []) + gap ?nb"
    unfolding f tl ds body by (simp add: layout_snoc chunk_bytes_def lb)
  then have ef: "ef = 40 + length (layout (cs @ [(W64_DATA_GUID, b)]) [])" using pl(6) by simp
  have "rewrite_extents s ec ef f = w64_file (cs @ [(W64_DATA_GUID, b)]) []"
    unfolding pl(5) lb[symmetric] ef unfolding f tl ds body
    by (rule rewrite_extents_file[OF ok]) (simp_all add: dp posv W64_DATA_GUID_def)
  moreover have "length b mod 8 \<noteq> 0"
  proof
    assume "length b mod 8 = 0"
    then have "gap ?nb = 0" unfolding lb by simp
    then show False using pl(1) by blast
  qed
  moreover have "f = w64_file (cs @ [(W64_DATA_GUID, b @ pad_to_8 (length b))]) []"
    unfolding f tl ds body ..
  moreover have "conforming x None True False (cs @ [(W64_DATA_GUID, b @ pad_to_8 (length b))]) []"
    using cf unfolding tl ds body .
  ultimately show thesis using that[of cs b] lb ok by blast
qed




lemma length_data_guid [simp]: "length W64_DATA_GUID = 16"
  by (simp add: W64_DATA_GUID_def)

lemma length_pad_less: "length (pad_to_8 n) < 8"
  by simp

text \<open>C12: Whatever file the FFmpeg repair is given, it leaves it alone or cuts off exactly the zero
  padding that the data chunk, the last one, declares as samples, correcting the two sizes; it
  succeeds only with a file the exact validator then accepts with the result returned. A failing
  repair leaves the file alone but for mono files with a fact chunk.\<close>

theorem repair_outcome:
  assumes "length f < 2 ^ 63" and "canonicalize_ffmpeg_int32_w64_terminal f x n = (r, f')"
  shows "(\<forall>s. r = Inr s \<longrightarrow> validate_exact_w64_pcm f' x n = Inr s)
    \<and> (f' = f \<or> (\<exists>cs b. f = w64_file (cs @ [(W64_DATA_GUID, b @ pad_to_8 (length b))]) []
          \<and> f' = w64_file (cs @ [(W64_DATA_GUID, b)]) []
          \<and> length b = n * align_of x \<and> length b mod 8 \<noteq> 0
          \<and> (isl r \<longrightarrow> x_channels x = 1 \<and> named W64_FACT_GUID (locate 40 cs) \<noteq> [])))"
proof (cases "f' = f")
  case True
  then show ?thesis using assms(2)
    by (auto simp: canonicalize_ffmpeg_int32_w64_terminal_def Let_def
        split: if_splits sum.splits prod.splits)
next
  case False
  then obtain e s ec ef where x: "x_bits x = 32"
    and i: "inspect_w64_pcm_tolerating_final_alignment_padding f x = Inr s"
    and p: "repair_plan f x n e s = Inr (ec, ef)" and f': "f' = rewrite_extents s ec ef f"
    and r: "r = validate_exact_w64_pcm f' x n"
    using assms(2)
    by (auto simp: canonicalize_ffmpeg_int32_w64_terminal_def Let_def
        split: if_splits sum.splits prod.splits)
  obtain cs b where f: "f = w64_file (cs @ [(W64_DATA_GUID, b @ pad_to_8 (length b))]) []"
    and cf: "conforming x None True False (cs @ [(W64_DATA_GUID, b @ pad_to_8 (length b))]) []"
    and b: "length b = n * align_of x" "length b mod 8 \<noteq> 0" and ok: "chunks_ok cs"
    and w: "rewrite_extents s ec ef f = w64_file (cs @ [(W64_DATA_GUID, b)]) []"
    using repair_planD[OF assms(1) x _ p] i
    unfolding inspect_w64_pcm_tolerating_final_alignment_padding_def by metis
  have fw: "f' = w64_file (cs @ [(W64_DATA_GUID, b)]) []" using f' w by simp
  have l: "length (w64_file (cs @ [(W64_DATA_GUID, b)]) []) < 2 ^ 63"
    using assms(1) unfolding f by (simp add: layout_snoc chunk_bytes_def)
  have "isl r \<longrightarrow> x_channels x = 1 \<and> named W64_FACT_GUID (locate 40 cs) \<noteq> []"
  proof (rule ccontr)
    assume "\<not> (isl r \<longrightarrow> x_channels x = 1 \<and> named W64_FACT_GUID (locate 40 cs) \<noteq> [])"
    then have "isl r" and c: "x_channels x \<noteq> 1 \<or> named W64_FACT_GUID (locate 40 cs) = []" by auto
    have sx: "supported x" using cf by (simp add: conforming_def)
    have "conforming x (Some n) False False (cs @ [(W64_DATA_GUID, b)]) []"
      by (rule conforming_padded[OF sx x b(1) ok c length_pad_less, THEN iffD1, OF cf])
    then show False
      using inner_complete[OF l refl] \<open>isl r\<close> unfolding r fw validate_exact_w64_pcm_def by fastforce
  qed
  then show ?thesis
    by (intro conjI disjI2 exI[of _ cs] exI[of _ b] f fw b) (simp_all add: r)
qed

lemma canonicalize_padded:
  assumes l: "length f < 2 ^ 63" and x: "x_encoding x = SignedInteger" "x_bits x = 32"
    and f: "f = w64_file (cs @ [(W64_DATA_GUID, b @ pad_to_8 (length b))]) []"
    and b: "length b = n * align_of x" "length b mod 8 \<noteq> 0"
    and cf: "conforming x None True False (cs @ [(W64_DATA_GUID, b @ pad_to_8 (length b))]) []"
  shows "canonicalize_ffmpeg_int32_w64_terminal f x n
    = (validate_exact_w64_pcm (w64_file (cs @ [(W64_DATA_GUID, b)]) []) x n,
       w64_file (cs @ [(W64_DATA_GUID, b)]) [])"
proof -
  let ?A = "cs @ [(W64_DATA_GUID, b @ pad_to_8 (length b))]" and ?s = "summary x (cs @ [(W64_DATA_GUID, b @ pad_to_8 (length b))]) []"
  note sd = conforming_snoc_data[OF cf, THEN conjunct1]
    conforming_snoc_data[OF cf, THEN conjunct2, THEN conjunct1]
    conforming_snoc_data[OF cf, THEN conjunct2, THEN conjunct2]
  have al: "x_channels x * 4 = align_of x" using x by (simp add: align_of_def)
  have i: "validate_exact_w64_pcm_inner f x None True False = Inr ?s" by (rule inner_complete[OF l f cf])
  have g: "0 < gap (length b)" using b(2) by simp
  have lf: "length f = 64 + length (prefix_bytes cs) + length b + gap (length b)"
    unfolding f by (simp add: layout_snoc chunk_bytes_def)
  have no: "\<exists>e. validate_exact_w64_pcm f x n = Inl e"
  proof (rule ccontr)
    assume "\<not> ?thesis"
    then obtain s where s: "validate_exact_w64_pcm_inner f x (Some n) False False = Inr s"
      by (cases "validate_exact_w64_pcm f x n") (auto simp: validate_exact_w64_pcm_def)
    then obtain ds tail where d: "f = w64_file ds tail" "conforming x (Some n) False False ds tail"
      "s = summary x ds tail" using inner_iff[OF l] by blast
    then have "s = ?s" using inner_complete[OF l d(1) conforming_weaken(2)[OF d(2)]] i by simp
    moreover have "declared_data_bytes s = n * align_of x"
      using conforming_data[OF d(2)] d(3) by (metis frames_fit_def)
    ultimately show False using sd b g by simp
  qed
  then obtain e where e: "validate_exact_w64_pcm f x n = Inl e" by blast
  have dr: "take (gap (length b)) (drop (64 + length (prefix_bytes cs) + length b) f) = pad_to_8 (length b)"
    unfolding f by (simp add: w64_file_def layout_snoc chunk_bytes_def)
  have lim: "length f < 2 ^ 64" using l by simp
  have ch: "x_channels x * 4 < 2 ^ 64"
    unfolding al using supported_ranges[of x] cf by (simp add: conforming_def)
  have nb: "length b = n * (x_channels x * 4)" using b(1) al by simp
  have off: "data_payload_offset ?s = 64 + length (prefix_bytes cs)"
    using sd by (simp add: data_payload_offset_def)
  have ph: "physical_file_bytes ?s = length f" unfolding f by (simp add: summary_def structure_of_def)
  have "repair_plan f x n e ?s = Inr (24 + length b, 40 + length (layout (cs @ [(W64_DATA_GUID, b)]) []))"
    unfolding repair_plan_iff[OF ch nb refl] off using g lf lim dr ph sd(2) pad_to_8_zero(2)
    by (simp add: layout_snoc chunk_bytes_def)
  moreover have "rewrite_extents ?s (24 + length b) (40 + length (layout (cs @ [(W64_DATA_GUID, b)]) [])) f
      = w64_file (cs @ [(W64_DATA_GUID, b)]) []"
    unfolding f using sd by (intro rewrite_extents_file) simp_all
  ultimately show ?thesis using x e i
    by (simp add: canonicalize_ffmpeg_int32_w64_terminal_def Let_def
        inspect_w64_pcm_tolerating_final_alignment_padding_def)
qed

text \<open>C17: The repair undoes the FFmpeg defect: from a conforming Int32 file whose data chunk comes last
  and was padded with declared zeros, it restores the original file byte for byte and returns its
  description, for mono files without a fact chunk and for files of more channels.\<close>

theorem repair_restores_original:
  assumes "conforming x (Some n) False False (cs @ [(W64_DATA_GUID, b)]) []"
    and "x_encoding x = SignedInteger" "x_bits x = 32" "length b mod 8 \<noteq> 0"
    and "x_channels x \<noteq> 1 \<or> named W64_FACT_GUID (locate 40 cs) = []"
    and "f = w64_file (cs @ [(W64_DATA_GUID, b @ pad_to_8 (length b))]) []" "length f < 2 ^ 63"
  shows "canonicalize_ffmpeg_int32_w64_terminal f x n
    = (Inr (summary x (cs @ [(W64_DATA_GUID, b)]) []), w64_file (cs @ [(W64_DATA_GUID, b)]) [])"
proof -
  have s: "supported x" and ok: "chunks_ok cs"
    using assms(1) by (simp_all add: conforming_def chunks_ok_def)
  have "declared_data_bytes (summary x (cs @ [(W64_DATA_GUID, b)]) []) = n * align_of x"
    using conforming_data[OF assms(1)] by (metis frames_fit_def)
  then have b: "length b = n * align_of x" using conforming_snoc_data[OF assms(1)] by simp
  note cf = conforming_padded[OF s assms(3) b ok assms(5) length_pad_less, THEN iffD2, OF assms(1)]
  have "length (w64_file (cs @ [(W64_DATA_GUID, b)]) []) < 2 ^ 63"
    using assms(7) unfolding assms(6) by (simp add: layout_snoc chunk_bytes_def)
  from inner_complete[OF this refl assms(1)] show ?thesis
    using canonicalize_padded[OF assms(7,2,3,6) b assms(4) cf] by (simp add: validate_exact_w64_pcm_def)
qed




text \<open>The walk over a rendering collects what its chunks hold.\<close>

lemma walk_over:
  assumes l: "length f < 2 ^ 63" and f: "f = w64_file cs tail" and ta: "tail_allowed ssrc cs tail"
    and ok: "chunks_ok cs" and c: "collected (locate 40 cs) walk_start v"
  shows "chunk_loop f (length f) ssrc walk_start
    = Inr (v\<lparr> offset := length f, padding := length (layout cs tail) - content cs \<rparr>)" (is "_ = Inr ?w")
proof -
  have lf: "length f = 40 + length (layout cs tail)" using f by simp
  have "walked ssrc f walk_start ?w cs tail"
    unfolding walked_def
  proof (intro conjI)
    show "cs = [] \<longrightarrow> tail = []" using ta by (auto simp: tail_allowed_def)
    show "padding ?w + content cs = padding walk_start + (length f - offset walk_start)"
      using lf content_le_layout[OF ok, of tail] by (simp add: start_fields)
    show "drop (offset walk_start) f = layout cs tail" unfolding start_fields f by (rule drop_w64_file)
    show "collected (locate (offset walk_start) cs) walk_start ?w"
      unfolding start_fields using c by (auto simp: collected_def)
    show "offset ?w = length f" by simp
  qed (rule ta ok)+
  then show ?thesis using walk_complete[OF _ l] lf by (simp add: start_fields)
qed

lemma collected_unique:
  assumes "collected lcs walk_start v" "collected mcs walk_start w" "w_fact v = w_fact w"
  shows "map (\<lambda>(pos, b). (pos, le_nat b)) (named W64_FACT_GUID lcs)
    = map (\<lambda>(pos, b). (pos, le_nat b)) (named W64_FACT_GUID mcs)"
  using assms by (auto simp: collected_def walk_start_def takes_None)

lemma conforming_collected:
  assumes "conforming x frames tolerate ssrc cs tail"
  shows "\<exists>v. collected (locate 40 cs) walk_start v"
proof -
  let ?L = "locate 40 cs"
  obtain fo fb pos b where n: "named W64_FMT_GUID ?L = [(fo, fb)]" "format_body x fb"
    "named W64_DATA_GUID ?L = [(pos, b)]"
    using assms by (auto simp: conforming_def contents_ok_def)
  obtain p where "parse_body fb = Inr p"
    using parse_body_iff[of x fb] n(2) assms by (auto simp: conforming_def)
  then have "collected ?L walk_start (walk_start\<lparr> count := length cs, w_format := Some (fo, p),
     w_fact := (case named W64_FACT_GUID ?L of [] \<Rightarrow> None | (o', b) # _ \<Rightarrow> Some (o', le_nat b)),
     w_data := Some (pos, length b) \<rparr>)"
    using n assms by (auto simp: collected_def walk_start_def takes_None contents_ok_def conforming_def)
  then show ?thesis by blast
qed

text \<open>C38: The repair of a mono file with a fact chunk, which states one frame more because of the
  padding, fails and leaves the file modified: the checks pass, the sizes are rewritten and the
  file is cut, and only then the fact chunk is found to disagree.\<close>

theorem repair_spoils_mono_with_fact:
  assumes "conforming x None True False (cs @ [(W64_DATA_GUID, b @ pad_to_8 (length b))]) []"
    and "x_encoding x = SignedInteger" "x_bits x = 32" "x_channels x = 1"
    and "length b = n * 4" "length b mod 8 \<noteq> 0" "named W64_FACT_GUID (locate 40 cs) \<noteq> []"
    and "f = w64_file (cs @ [(W64_DATA_GUID, b @ pad_to_8 (length b))]) []" "length f < 2 ^ 63"
  shows "\<exists>e. canonicalize_ffmpeg_int32_w64_terminal f x n
      = (Inl e, w64_file (cs @ [(W64_DATA_GUID, b)]) []) \<and> w64_file (cs @ [(W64_DATA_GUID, b)]) [] \<noteq> f"
proof -
  let ?A = "cs @ [(W64_DATA_GUID, b)]" and ?f = "w64_file (cs @ [(W64_DATA_GUID, b)]) []"
  have al: "align_of x = 4" using assms(3,4) by (simp add: align_of_def)
  have g: "gap (length b) = 4"
  proof -
    have "length b mod 8 = 4 * (n mod 2)" using mult_mod_right[of 4 n 2] assms(5) by (simp add: mult.commute)
    moreover from this have "n mod 2 = 1" using assms(6) by auto
    ultimately have "length b mod 8 = 4" by simp
    then show ?thesis by simp
  qed
  have ok: "chunks_ok cs" using assms(1) by (simp add: conforming_def chunks_ok_def)
  have lf: "length ?f < length f" using g assms(8) by (simp add: layout_snoc chunk_bytes_def)
  have l: "length ?f < 2 ^ 63" using lf assms(9) by linarith
  let ?B = "locate 40 (cs @ [(W64_DATA_GUID, b @ pad_to_8 (length b))])"
  have fa: "named W64_FACT_GUID ?B = named W64_FACT_GUID (locate 40 cs)"
    "named W64_FACT_GUID (locate 40 ?A) = named W64_FACT_GUID (locate 40 cs)"
    "named W64_FMT_GUID (locate 40 ?A) = named W64_FMT_GUID ?B"
    using ok guids_differ by (auto simp: locate_snoc named_append)
  have "length (b @ pad_to_8 (length b)) div 4 = n + 1" using g assms(5) by simp
  then obtain fpos where fp: "named W64_FACT_GUID (locate 40 cs) = [(fpos, le_bytes 8 (n + 1))]"
    using assms(1,7) ok fa(1) unfolding conforming_def contents_ok_def al
    by (auto simp: locate_snoc named_append)
  have lt: "n + 1 < 256 ^ 8" using l assms(5) by (simp add: layout_snoc chunk_bytes_def)
  have "validate_exact_w64_pcm ?f x n \<noteq> Inr s" for s
  proof
    assume "validate_exact_w64_pcm ?f x n = Inr s"
    then obtain ds tail where d: "?f = w64_file ds tail" "conforming x (Some n) False False ds tail"
      using exact_accepts_renderings[OF l] by blast
    obtain v where v: "collected (locate 40 ds) walk_start v" using conforming_collected[OF d(2)] by blast
    obtain u where u: "collected ?B walk_start u" using conforming_collected[OF assms(1)] by blast
    have "collected (locate 40 ?A) walk_start (u\<lparr> w_data := Some (40 + length (prefix_bytes cs), length b) \<rparr>)"
      using u ok fa guids_differ[symmetric]
      by (auto simp: collected_def locate_snoc named_append walk_start_def takes_None append_eq_Cons_conv)
    note wu = walk_over[OF l refl _ _ this, where ssrc = False]
    have "chunk_loop ?f (length ?f) False walk_start
        = Inr (v\<lparr> offset := length ?f, padding := length (layout ds tail) - content ds \<rparr>)"
      by (rule walk_over[OF l d(1) _ _ v]) (use d(2) in \<open>simp_all add: conforming_def\<close>)
    then have "w_fact v = w_fact u"
      using wu ok by (auto simp: tail_allowed_def chunks_ok_def dest: arg_cong[where f = w_fact])
    then have "map (\<lambda>(pos, b). (pos, le_nat b)) (named W64_FACT_GUID (locate 40 ds)) = [(fpos, n + 1)]"
      using collected_unique[OF v u] fa(1) fp lt by (simp add: le_nat_le_bytes)
    moreover have "named W64_FACT_GUID (locate 40 ds) = []
        \<or> (\<exists>q. named W64_FACT_GUID (locate 40 ds) = [(q, le_bytes 8 n)])"
      using d(2) al by (auto simp: conforming_def contents_ok_def frames_fit_def)
    ultimately show False using lt by (auto simp: le_nat_le_bytes)
  qed
  then obtain e where "validate_exact_w64_pcm ?f x n = Inl e"
    by (cases "validate_exact_w64_pcm ?f x n") auto
  moreover have "length b = n * align_of x" using assms(5) al by simp
  note canonicalize_padded[OF assms(9,2,3,8) this assms(6,1)]
  moreover have "?f \<noteq> f" using lf by auto
  ultimately show ?thesis by simp
qed

subsection \<open>The payload copy\<close>

lemma named_payload:
  assumes "(q, b) \<in> set (named G (locate pos cs))" "chunks_ok cs"
  shows "pos \<le> q \<and> take (length b) (drop (q - pos + 24) (layout cs tail)) = b"
  using assms
proof (induction cs arbitrary: pos)
  case (Cons c cs)
  obtain g a where c: "c = (g, a)" by (cases c)
  have l: "length g = 16" and ok: "chunks_ok cs" using Cons.prems(2) by (simp_all add: c chunks_ok_def)
  have lc: "length (chunk_bytes c) = 24 + length a" using l by (simp add: c length_chunk_bytes)
  obtain rest where lay: "layout (c # cs) tail = g @ le_bytes 8 (24 + length a) @ a @ rest"
    and rest: "cs \<noteq> [] \<Longrightarrow> rest = pad_to_8 (length a) @ layout cs tail"
    by (cases cs) (simp_all add: c chunk_bytes_def layout_snoc_pad)
  show ?case
  proof (cases "(q, b) = (pos, a) \<and> g = G")
    case True
    then show ?thesis using lay l by simp
  next
    case False
    then have i: "(q, b) \<in> set (named G (locate (pos + 24 + length a + gap (length a)) cs))"
      using Cons.prems(1) unfolding c locate_Cons_gap by (auto split: if_splits)
    then have "cs \<noteq> []" by auto
    then have "drop (24 + length a + gap (length a)) (layout (c # cs) tail) = layout cs tail"
      using lay rest l by simp
    moreover have "q - pos + 24 = (q - (pos + 24 + length a + gap (length a)) + 24)
        + (24 + length a + gap (length a))" if "pos + 24 + length a + gap (length a) \<le> q"
      using that by simp
    ultimately have "drop (q - pos + 24) (layout (c # cs) tail)
        = drop (q - (pos + 24 + length a + gap (length a)) + 24) (layout cs tail)"
      if "pos + 24 + length a + gap (length a) \<le> q"
      using that by (metis drop_drop)
    then show ?thesis using Cons.IH[OF i ok] by auto
  qed
qed simp

lemma copied:
  assumes l: "length f < 2 ^ 63" and f: "f = w64_file cs tail" and c: "conforming x None False False cs tail"
    and n: "named W64_DATA_GUID (locate 40 cs) = [(pos, b)]"
  shows "copy_exact_w64_pcm_payload f x out = (Inr (summary x cs tail), out @ b)"
proof -
  have i: "inspect_exact_w64_pcm f x = Inr (summary x cs tail)"
    unfolding inspect_exact_w64_pcm_def by (rule inner_complete[OF l f c])
  have d: "data_chunk_offset (summary x cs tail) = pos" "declared_data_bytes (summary x cs tail) = length b"
    using conforming_data[OF c] n by (metis list.inject prod.inject)+
  have p: "40 \<le> pos" "take (length b) (drop (pos - 40 + 24) (layout cs tail)) = b"
    using named_payload[of pos b W64_DATA_GUID 40 cs tail] n c by (auto simp: conforming_def)
  have "drop (pos + 24) f = drop (pos - 40 + 24) (layout cs tail)"
    using p(1) drop_drop[of "pos - 40 + 24" 40 f] f drop_w64_file[of cs tail] by (simp add: add_ac)
  then show ?thesis using i d p(2)
    by (simp add: copy_exact_w64_pcm_payload_def data_payload_offset_def)
qed

text \<open>The payload copy appends to its output exactly the bytes of the data chunk of a conforming
  file; from any other file it copies nothing.\<close>

theorem copy_is_the_data_chunk:
  assumes "length f < 2 ^ 63"
  shows "(copy_exact_w64_pcm_payload f x out = (Inr s, out') \<longleftrightarrow>
      (\<exists>cs tail pos b. f = w64_file cs tail \<and> conforming x None False False cs tail
        \<and> named W64_DATA_GUID (locate 40 cs) = [(pos, b)] \<and> s = summary x cs tail \<and> out' = out @ b))
    \<and> (copy_exact_w64_pcm_payload f x out = (Inl e, out') \<longrightarrow> out' = out)"
proof (cases "inspect_exact_w64_pcm f x")
  case (Inl e')
  then have "\<not> (f = w64_file cs tail \<and> conforming x None False False cs tail)" for cs tail
    unfolding inspect_exact_w64_pcm_def using inner_complete[OF assms, of cs tail x None False False] by auto
  then show ?thesis using Inl by (auto simp: copy_exact_w64_pcm_payload_def)
next
  case (Inr t)
  then obtain cs tail where c: "f = w64_file cs tail" "conforming x None False False cs tail"
    unfolding inspect_exact_w64_pcm_def inner_iff[OF assms] by blast
  obtain pos b where n: "named W64_DATA_GUID (locate 40 cs) = [(pos, b)]" using conforming_data[OF c(2)] by blast
  have k: "copy_exact_w64_pcm_payload f x out = (Inr (summary x cs tail), out @ b)"
    if "f = w64_file cs tail" "conforming x None False False cs tail"
      "named W64_DATA_GUID (locate 40 cs) = [(pos, b)]" for cs tail pos b
    by (rule copied[OF assms that])
  show ?thesis
  proof (intro conjI iffI impI)
    assume "copy_exact_w64_pcm_payload f x out = (Inr s, out')"
    then have "s = summary x cs tail" "out' = out @ b" using k[OF c n] by simp_all
    then show "\<exists>cs tail pos b. f = w64_file cs tail \<and> conforming x None False False cs tail
        \<and> named W64_DATA_GUID (locate 40 cs) = [(pos, b)] \<and> s = summary x cs tail \<and> out' = out @ b"
      using c n by blast
  next
    assume "copy_exact_w64_pcm_payload f x out = (Inl e, out')"
    then show "out' = out" using k[OF c n] by simp
  qed (use k in blast)
qed


subsection \<open>Sample files\<close>

definition mono_int32 :: w64_format_expectation where
  "mono_int32 = \<lparr> x_sample_rate = 44100, x_channels = 1, x_bits = 32, x_encoding = SignedInteger \<rparr>"

definition sample_chunks :: "chunk list" where
  "sample_chunks = [(W64_FMT_GUID, direct_format mono_int32)]"

definition sample_data :: "u8 list" where
  "sample_data = [1, 2, 3, 4]"

lemma mono_facts:
  "supported mono_int32" "align_of mono_int32 = 4" "x_channels mono_int32 = 1"
  "x_encoding mono_int32 = SignedInteger" "x_bits mono_int32 = 32"
  by (simp_all add: mono_int32_def supported_def align_of_def)

lemma sample_lengths:
  "length sample_data = 4" "length (direct_format mono_int32) = 16" "length W64_FMT_GUID = 16"
  "length W64_FACT_GUID = 16"
  by (simp_all add: sample_data_def direct_format_def W64_FMT_GUID_def W64_FACT_GUID_def)

lemma sample_named:
  "named W64_FACT_GUID (locate 40 sample_chunks) = []"
  "named W64_FMT_GUID (locate 40 sample_chunks) = [(40, direct_format mono_int32)]"
  "named W64_DATA_GUID (locate 40 sample_chunks) = []"
  using guids_differ by (simp_all add: sample_chunks_def)

lemma sample_ok: "chunks_ok sample_chunks" "length sample_chunks = 1"
  by (simp_all add: chunks_ok_def sample_chunks_def sample_lengths)

lemma sample_layout: "length (layout (sample_chunks @ [(W64_DATA_GUID, b)]) tail) = 64 + length b + length tail"
  by (simp add: layout_snoc prefix_bytes_def sample_chunks_def chunk_bytes_def sample_lengths)

lemma sample_conforming:
  assumes "tail_allowed ssrc (sample_chunks @ [(W64_DATA_GUID, sample_data)]) tail"
  shows "conforming mono_int32 (Some 1) False ssrc (sample_chunks @ [(W64_DATA_GUID, sample_data)]) tail"
    and "conforming mono_int32 None False ssrc (sample_chunks @ [(W64_DATA_GUID, sample_data)]) tail"
  using assms guids_differ guids_differ[symmetric] sample_ok mono_facts
  by (auto simp: conforming_def contents_ok_def locate_snoc named_append sample_named sample_lengths
      format_body_def frames_fit_def chunks_ok_def)

theorem exact_accepts_renderings_witness:
  "validate_exact_w64_pcm (w64_file (sample_chunks @ [(W64_DATA_GUID, sample_data)]) []) mono_int32 1
    = Inr (summary mono_int32 (sample_chunks @ [(W64_DATA_GUID, sample_data)]) [])"
proof -
  have l: "length (w64_file (sample_chunks @ [(W64_DATA_GUID, sample_data)]) []) < 2 ^ 63"
    by (simp add: sample_layout sample_lengths)
  have "tail_allowed False (sample_chunks @ [(W64_DATA_GUID, sample_data)]) []" by (simp add: tail_allowed_def)
  from exact_accepts_renderings[OF l, THEN iffD2] sample_conforming(1)[OF this] show ?thesis by blast
qed

theorem ssrc_accepts_renderings_witness:
  "validate_ssrc_w64_pcm (w64_file (sample_chunks @ [(W64_DATA_GUID, sample_data)]) [0, 0, 0, 0, 0]) mono_int32 1
    = Inr (summary mono_int32 (sample_chunks @ [(W64_DATA_GUID, sample_data)]) [0, 0, 0, 0, 0])"
proof -
  have l: "length (w64_file (sample_chunks @ [(W64_DATA_GUID, sample_data)]) [0, 0, 0, 0, 0]) < 2 ^ 63"
    by (simp add: sample_layout sample_lengths)
  have "tail_allowed True (sample_chunks @ [(W64_DATA_GUID, sample_data)]) [0, 0, 0, 0, 0]"
    by (simp add: tail_allowed_def zero_bytes_def)
  from ssrc_accepts_renderings[OF l, THEN iffD2] sample_conforming(1)[OF this] show ?thesis by blast
qed

theorem chunk_loop_ends_witness:
  "\<exists>w. (chunk_turn (w64_file (sample_chunks @ [(W64_DATA_GUID, sample_data)]) []) 108 False ^^ 1) walk_start w
     \<and> (1::nat) \<le> (108 - 40) div 24 \<and> count w = 1 \<and> 64 \<le> offset w \<and> offset w mod 8 = 0"
proof -
  let ?f = "w64_file (sample_chunks @ [(W64_DATA_GUID, sample_data)]) []"
  let ?b = "direct_format mono_int32" and ?rest = "chunk_bytes (W64_DATA_GUID, sample_data)"
  have l: "length ?f = 108" by (simp add: sample_layout sample_lengths)
  have r: "drop (offset walk_start) ?f = chunk_bytes (W64_FMT_GUID, ?b) @ ?rest"
    by (simp add: start_fields drop_w64_file sample_chunks_def sample_lengths pad_to_8_def)
  obtain p where "parse_body ?b = Inr p"
    using parse_body_iff[OF mono_facts(1), of ?b] by (auto simp: format_body_def)
  then have u: "absorb_body W64_FMT_GUID ?b (walk_start\<lparr> count := count walk_start + 1 \<rparr>)
      = Inr (walk_start\<lparr> count := count walk_start + 1, w_format := Some (40, p) \<rparr>)"
    by (simp add: absorb_body_def walk_start_def)
  have t: "\<not> turn_ends False W64_FMT_GUID ?rest" by (simp add: turn_ends_def chunk_bytes_def W64_DATA_GUID_def)
  have "\<exists>w. chunk_step ?f (length ?f) False walk_start = Inr (w, True)"
    using walk_step(2)[OF _ _ _ r sample_lengths(3) _ u t] l
    by (simp add: start_fields sample_lengths zero_bytes_def)
  then obtain w where "chunk_turn ?f 108 False walk_start w"
    using l by (auto simp: chunk_turn_def start_fields)
  then have "(chunk_turn ?f 108 False ^^ 1) walk_start w" unfolding relpowp_1 .
  from this chunk_loop_ends[OF this] show ?thesis by auto
qed

theorem repair_outcome_witness:
  "case canonicalize_ffmpeg_int32_w64_terminal
      (w64_file (sample_chunks @ [(W64_DATA_GUID, sample_data @ [0, 0, 0, 0])]) []) mono_int32 1
    of (r, f') \<Rightarrow> \<forall>s. r = Inr s \<longrightarrow> validate_exact_w64_pcm f' mono_int32 1 = Inr s"
proof -
  have l: "length (w64_file (sample_chunks @ [(W64_DATA_GUID, sample_data @ [0, 0, 0, 0])]) []) < 2 ^ 63"
    by (simp add: sample_layout sample_lengths)
  show ?thesis
    by (cases "canonicalize_ffmpeg_int32_w64_terminal
        (w64_file (sample_chunks @ [(W64_DATA_GUID, sample_data @ [0, 0, 0, 0])]) []) mono_int32 1")
      (simp add: repair_outcome[OF l])
qed

theorem repair_restores_original_witness:
  "canonicalize_ffmpeg_int32_w64_terminal
      (w64_file (sample_chunks @ [(W64_DATA_GUID, sample_data @ pad_to_8 4)]) []) mono_int32 1
    = (Inr (summary mono_int32 (sample_chunks @ [(W64_DATA_GUID, sample_data)]) []),
       w64_file (sample_chunks @ [(W64_DATA_GUID, sample_data)]) [])"
proof -
  have t: "tail_allowed False (sample_chunks @ [(W64_DATA_GUID, sample_data)]) []" by (simp add: tail_allowed_def)
  have "length (w64_file (sample_chunks @ [(W64_DATA_GUID, sample_data @ pad_to_8 (length sample_data))]) [])
      < 2 ^ 63"
    by (simp add: sample_layout sample_lengths)
  from repair_restores_original[OF sample_conforming(1)[OF t] mono_facts(4,5) _ disjI2[OF sample_named(1)] refl this]
  show ?thesis by (simp add: sample_lengths)
qed

theorem repair_spoils_mono_with_fact_witness:
  "\<exists>e. canonicalize_ffmpeg_int32_w64_terminal
      (w64_file ((sample_chunks @ [(W64_FACT_GUID, le_bytes 8 2)]) @ [(W64_DATA_GUID, sample_data @ pad_to_8 4)]) [])
      mono_int32 1
    = (Inl e, w64_file ((sample_chunks @ [(W64_FACT_GUID, le_bytes 8 2)]) @ [(W64_DATA_GUID, sample_data)]) [])"
proof -
  let ?cs = "sample_chunks @ [(W64_FACT_GUID, le_bytes 8 2)]"
  have ok: "chunks_ok ?cs" using sample_ok by (simp add: chunks_ok_def sample_lengths)
  have n: "named G (locate 40 ?cs) = named G (locate 40 sample_chunks)
      @ (if W64_FACT_GUID = G then [(40 + length (prefix_bytes sample_chunks), le_bytes 8 2)] else [])" for G
    using sample_ok by (simp add: locate_snoc named_append)
  have cf: "conforming mono_int32 None True False
      (?cs @ [(W64_DATA_GUID, sample_data @ pad_to_8 (length sample_data))]) []"
    unfolding conforming_def contents_ok_def locate_snoc[OF ok] named_append n
    using guids_differ guids_differ[symmetric] sample_ok mono_facts ok
    by (auto simp: sample_named sample_lengths format_body_def frames_fit_def tail_allowed_def chunks_ok_def)
  have fa: "named W64_FACT_GUID (locate 40 ?cs) \<noteq> []" unfolding n by simp
  have l: "length (w64_file (?cs @ [(W64_DATA_GUID, sample_data @ pad_to_8 (length sample_data))]) []) < 2 ^ 63"
    by (simp add: layout_snoc prefix_bytes_def sample_chunks_def chunk_bytes_def sample_lengths)
  from repair_spoils_mono_with_fact[OF cf mono_facts(4,5,3) _ _ fa refl l, of 1]
  show ?thesis by (auto simp: sample_lengths)
qed

theorem copy_is_the_data_chunk_witness:
  "copy_exact_w64_pcm_payload (w64_file (sample_chunks @ [(W64_DATA_GUID, sample_data)]) []) mono_int32 [9]
    = (Inr (summary mono_int32 (sample_chunks @ [(W64_DATA_GUID, sample_data)]) []), [9, 1, 2, 3, 4])"
proof -
  have l: "length (w64_file (sample_chunks @ [(W64_DATA_GUID, sample_data)]) []) < 2 ^ 63"
    by (simp add: sample_layout sample_lengths)
  have t: "tail_allowed False (sample_chunks @ [(W64_DATA_GUID, sample_data)]) []" by (simp add: tail_allowed_def)
  have "named W64_DATA_GUID (locate 40 (sample_chunks @ [(W64_DATA_GUID, sample_data)]))
      = [(40 + length (prefix_bytes sample_chunks), sample_data)]"
    using sample_ok by (simp add: locate_snoc named_append sample_named)
  moreover have "[9, 1, 2, 3, 4] = [9] @ sample_data" by (simp add: sample_data_def)
  ultimately show ?thesis
    using copy_is_the_data_chunk[OF l, THEN conjunct1, THEN iffD2] sample_conforming(2)[OF t] by blast
qed

end
