(* ===== verification/Spec2Isabelle.thy ===== *)
theory Spec2Isabelle
  imports DstTheorems DstEncoderTheorems CtdbCodec TextInputKeys BlurayRealizeTheorems Wave64Theorems
begin

text \<open>
  Verification development of the tonepoet audio toolkit, a terminal program that extracts,
  converts, verifies and repairs audio from optical discs and files. Modelled are the parts that
  compute on the audio itself or keep the user's text: they are pure or state-passing Rust code
  without external libraries, and errors in them are silent.

  \<^bold>\<open>Parts and their theories\<close>

  \<^item> The DST codec, lossless compression of the one-bit audio of SACD (\<open>crates/sacd-rs/src/dst\<close>).
    \<open>DstBits\<close> models the bit reader and writer (\<open>bitreader.rs\<close>, \<open>BitWriter\<close> of \<open>encoder.rs\<close>),
    \<open>DstArith\<close> the arithmetic coder of both directions, \<open>DstGeometry\<close> the frame geometry, raw frames
    and the channel policy, \<open>DstSyntax\<close> the header of a compressed frame (segments, table mapping,
    filter and probability tables), \<open>DstFrame\<close> the frame decoder (\<open>decoder.rs\<close>), \<open>DstCandidate\<close> the
    writer of one predictive candidate, \<open>DstEncoder\<close> the search over candidates, the fallback to raw
    frames and the parallel batch (\<open>encoder.rs\<close>). \<open>DstRoundTrip\<close> and \<open>DstLossless\<close> show that what the
    encoder writes is decoded to its source, \<open>DstRobust\<close> and \<open>DstTheorems\<close> what the decoder does on
    arbitrary input, \<open>DstEncoderTheorems\<close> what the search and the batch return.
  \<^item> The CTDB codec, Reed-Solomon parity over CD images (\<open>src/ctdb_rs/mod.rs\<close>). \<open>Galois\<close> models the
    table-driven field and proves it to be the field of 65536 elements, \<open>CtdbSyndrome\<close> parity and
    syndromes, \<open>CtdbDecoder\<close> the column decoder (Berlekamp-Massey, Chien search, Forney) on the
    algebra of \<open>RsAlgebra\<close>, \<open>CtdbCodec\<close> verification and repair.
  \<^item> The text field and the clipboard of the user interface (\<open>crates/tui-file-picker/src/text_input.rs\<close>).
    \<open>Utf8Text\<close> models the string operations on byte offsets, \<open>TextInput\<close> the field with its edits,
    movements and histories, \<open>TextView\<close> the visible part and the mouse, \<open>TextInputKeys\<close> the key
    dispatcher, \<open>Clipboard\<close> the logical clipboard shared by threads.
  \<^item> The extraction of Blu-ray LPCM audio (\<open>src/convert/pipeline/bluray_*.rs\<close>). \<open>TsPacket\<close> models
    transport packets and PES headers, \<open>TsDemux\<close> the demultiplexer of one PID
    (\<open>bluray_ts_demux.rs\<close>), \<open>BlurayPts\<close> the mapping of raw time stamps to title time
    (\<open>bluray_pts.rs\<close>), \<open>BlurayLpcm\<close> the extractor, which trims to a chapter, dates packets without
    a time stamp and reorders the samples (\<open>bluray_lpcm.rs\<close>, the LPCM header of
    \<open>disc/bluray_utils.rs\<close>), \<open>BlurayWav\<close> the WAV header, the reader of RIFF/WAVE files and the
    validation before publication (\<open>bluray_wav_validate.rs\<close>). \<open>BlurayExtract\<close> composes demultiplexer,
    time line and extractor on whole packets; \<open>BlurayRealize\<close> is the run of a track
    (\<open>bluray_realize.rs\<close>): reads, packet format, read loop with resynchronisation, header and
    publication. \<open>BlurayRealizeTheorems\<close> takes the properties of the parts together to the file.
  \<^item> The Wave64 validator and the repair of FFmpeg's padding defect
    (\<open>tonepoet-pipeline/src/w64.rs\<close>) in \<open>Wave64\<close>; \<open>Wave64Layout\<close> describes conforming files and proves
    that the walk accepts exactly them, \<open>Wave64Theorems\<close> holds the properties.

  \<open>Bytes\<close> holds the byte-level functions of the two file formats. \<open>Prelude\<close> holds what all share: Rust's \<open>Result\<close> as a sum with \<open>res_bind\<close> for \<open>?\<close>, its stateful
  form \<open>st_bind\<close> for methods on \<open>&mut self\<close>, \<open>for\<close> loops with early return, checked arithmetic, bit lists.

  \<^bold>\<open>Correspondence\<close>

  A Rust struct is a record with the same fields, an enum a datatype with the same constructors, an
  error value a constructor of the part's error type where the code renders a message, and a
  method returns the new state with its result, on error branches too. \<open>u8\<close> and \<open>u16\<close> data are
  words; counters, offsets and sizes (\<open>usize\<close>, \<open>u32\<close>, \<open>u64\<close>) are natural numbers with every checked,
  saturating, wrapping or shifting operation written out. An index out of range, an overflow or a failed
  assertion is a panic and has a value of its own where the code could meet it: \<open>None\<close> in the CTDB codec (every
  slice index, \<open>usize\<close> difference and divisor), in the DST search (\<open>abs\<close> of the least \<open>i32\<close>) and in the text
  field (byte offsets between characters). A loop is a fold over
  the range it runs through, or a recursive function whose termination is proved.

  \<^bold>\<open>What the lemmas show\<close>

  Round trips (frames, parity, PES headers, title streams up to the published file, WAV headers,
  repaired files), acceptance of exactly the
  well-formed inputs (DST headers, Wave64 files), safety against damaged input (no error from the loop that
  decodes DST samples, no panic and no wrong correction of a CD image, no truncated or spliced PES packet and none
  lost at the end of a stream, exact title times of stamps read in order, no internal error
  of the extractor), refinement of the text field to characters left and right of the cursor,
  the order of clipboard publications under interleaving, and state invariants of every stateful part. Concrete witnesses show that the
  hypotheses can hold.

  \<^bold>\<open>Bounds and fuel\<close>

  No definition uses fuel. Wave64 files are shorter than \<open>2 ^ 63\<close> bytes, the largest file offset of
  the operating system. The Berlekamp-Massey loop, the renormalisation loops and the chunk loop
  end by the measures given with them.

  \<^bold>\<open>Not modelled\<close>

  The floating-point fit of the DST predictor is a parameter (\<open>encoder_build\<close>: any rows of rounded coefficients, and
  whether the build checks overflow), wall-clock
  telemetry is left out, character widths of the text view are a parameter (crate \<open>unicode-width\<close>).
  The rest of the program drives external processes, libraries, the file system, data bases or the
  terminal: opening discs through libbluray, the rest of the conversion pipeline, containers, true-peak
  metering in floating point, tags, configuration, and the screens.
\<close>

end
